(* ===== verification/Prelude.thy ===== *)
theory Prelude
  imports Main "HOL-Library.Word" "HOL-Library.List_Lexorder" "HOL-Library.Char_ord"
begin

text \<open>
  What every component shares: the names of the model's base types, the results a poll of an
  asynchronous operation has, the collections of facts the component proofs pass to the
  simplifier, and the locales for components driven by events.  A machine that keeps an invariant
  on each event keeps it over every run of events; each stateful component interprets the locale on
  its own step function.
\<close>

section \<open>Base types\<close>

type_synonym u8 = "8 word"
type_synonym u16 = "16 word"
type_synonym u64 = "64 word"
type_synonym bytes = "u8 list"

text \<open>A failure of the channel below the application layer, \<open>ChannelError\<close> of \<open>channel.rs\<close>.\<close>

datatype channel_error = HandshakeFailed string | DecompressFailed string

text \<open>
  The kinds of \<open>std::io::Error\<close> the program makes or tells apart; \<open>PeerFault\<close> is one of kind
  \<open>InvalidData\<close> that carries a \<open>ChannelError\<close>.
\<close>

datatype io_error =
    WriteZero
  | BrokenPipe
  | UnexpectedEof
  | InvalidData
  | InvalidInput
  | NotConnected
  | OtherError
  | PeerFault channel_error

type_synonym 'a io_result = "io_error + 'a"

text \<open>\<open>std::task::Poll\<close>.\<close>

datatype 'a poll = Ready 'a | Pending

named_theorems model_defs \<open>definitions a component's proofs unfold\<close>
named_theorems step_simps \<open>how a step acts on one part of the state\<close>

section \<open>Machines driven by events\<close>

text \<open>
  The contract several operations of a component share: every event leaves the state well formed.
\<close>

locale event_machine =
  fixes step :: "'s \<Rightarrow> 'e \<Rightarrow> 's"
    and inv :: "'s \<Rightarrow> bool"
  assumes step_inv: "inv s \<Longrightarrow> inv (step s e)"
begin

lemma run_inv: "inv s \<Longrightarrow> inv (foldl step s es)"
  by (induction es arbitrary: s) (simp_all add: step_inv)

lemma run_prefix_inv: "inv s \<Longrightarrow> inv (foldl step s (take n es))"
  by (rule run_inv)

end

text \<open>A machine that also says where it starts.\<close>

locale rooted_machine = event_machine step inv
  for step :: "'s \<Rightarrow> 'e \<Rightarrow> 's" and inv :: "'s \<Rightarrow> bool" +
  fixes init :: 's
  assumes init_inv: "inv init"
begin

lemma reachable_inv: "inv (foldl step init es)"
  using init_inv by (rule run_inv)

end

text \<open>
  A machine with a counter that each event moves on by at most one, and which keeps its invariant as
  long as the counter does not run out: what a machine that numbers things with a machine word is.
\<close>

locale metered_machine =
  fixes step :: "'s \<Rightarrow> 'e \<Rightarrow> 's"
    and inv :: "'s \<Rightarrow> bool"
    and meter :: "'s \<Rightarrow> nat"
    and limit :: nat
  assumes metered_inv: "inv s \<Longrightarrow> meter s < limit \<Longrightarrow> inv (step s e)"
    and metered_next: "inv s \<Longrightarrow> meter s < limit \<Longrightarrow> meter (step s e) \<le> meter s + 1"
begin

lemma metered_run:
  "inv s \<Longrightarrow> meter s + length es \<le> limit \<Longrightarrow>
     inv (foldl step s es) \<and> meter (foldl step s es) \<le> meter s + length es"
proof (induction es arbitrary: s)
  case (Cons e es)
  from Cons.prems(2) have lt: "meter s < limit" by simp
  note kept = metered_inv [OF Cons.prems(1) lt, of e] metered_next [OF Cons.prems(1) lt, of e]
  with Cons.prems(2) Cons.IH [of "step s e"] show ?case by simp
qed simp

end

section \<open>Lists\<close>

lemma append_eq_takeD: "xs @ ys = zs \<Longrightarrow> xs = take (length xs) zs \<and> ys = drop (length xs) zs"
  by auto

lemma find_SomeD: "List.find P xs = Some x \<Longrightarrow> x \<in> set xs \<and> P x"
  by (induction xs) (auto split: if_splits)

lemma find_None_iff': "List.find P xs = None \<longleftrightarrow> (\<forall>x \<in> set xs. \<not> P x)"
  by (induction xs) auto

text \<open>\<open>Iterator::position\<close>: the index of the first element that satisfies the predicate.\<close>

fun position :: "('a \<Rightarrow> bool) \<Rightarrow> 'a list \<Rightarrow> nat option" where
  "position P [] = None"
| "position P (x # xs) = (if P x then Some 0 else map_option Suc (position P xs))"

lemma position_SomeD: "position P xs = Some i \<Longrightarrow> i < length xs \<and> P (xs ! i)"
  by (induction xs arbitrary: i) (auto split: if_splits)

lemma position_first: "position P xs = Some i \<Longrightarrow> j < i \<Longrightarrow> \<not> P (xs ! j)"
proof (induction xs arbitrary: i j)
  case (Cons x xs)
  then show ?case by (cases j) (auto split: if_splits)
qed simp

lemma position_None_iff: "position P xs = None \<longleftrightarrow> (\<forall>x \<in> set xs. \<not> P x)"
  by (induction xs) auto

lemma position_Some_ex: "position P xs = Some i \<Longrightarrow> \<exists>x \<in> set xs. P x"
  by (metis nth_mem position_SomeD)

lemma position_None_nth: "position P xs = None \<Longrightarrow> j < length xs \<Longrightarrow> \<not> P (xs ! j)"
  by (simp add: position_None_iff)

lemma position_ex: "x \<in> set xs \<Longrightarrow> P x \<Longrightarrow> \<exists>i. position P xs = Some i"
  by (metis not_None_eq position_None_iff)

end
