(* ===== verification/Ord_Map.thy ===== *)
theory Ord_Map
  imports Prelude
begin

text \<open>
  \<open>BTreeMap\<close> and \<open>BTreeSet\<close> of the Rust standard library, which the selector keeps its links and
  observations in and which \<open>serde_json::Map\<close> is: an association list in ascending key order.  The
  order matters to the program: attempts are numbered, changes reported and JSON members written in
  it.  The locale \<open>ordered_map\<close> is what the components rely on, and it is interpreted on these
  operations.
\<close>

type_synonym ('k, 'v) bt = "('k \<times> 'v) list"

definition bt_get :: "('k, 'v) bt \<Rightarrow> 'k \<Rightarrow> 'v option" where
  "bt_get m = map_of m"

definition bt_keys :: "('k, 'v) bt \<Rightarrow> 'k list" where
  "bt_keys m = map fst m"

definition bt_values :: "('k, 'v) bt \<Rightarrow> 'v list" where
  "bt_values m = map snd m"

fun bt_insert :: "'k::linorder \<Rightarrow> 'v \<Rightarrow> ('k, 'v) bt \<Rightarrow> ('k, 'v) bt" where
  "bt_insert k v [] = [(k, v)]"
| "bt_insert k v ((k', v') # m) =
     (if k < k' then (k, v) # (k', v') # m
      else if k = k' then (k, v) # m
      else (k', v') # bt_insert k v m)"

definition bt_remove :: "'k \<Rightarrow> ('k, 'v) bt \<Rightarrow> ('k, 'v) bt" where
  "bt_remove k m = filter (\<lambda>(k', _). k' \<noteq> k) m"

definition bt_retain :: "('k \<Rightarrow> 'v \<Rightarrow> bool) \<Rightarrow> ('k, 'v) bt \<Rightarrow> ('k, 'v) bt" where
  "bt_retain P m = filter (\<lambda>(k, v). P k v) m"

definition bt_collect :: "('k::linorder \<times> 'v) list \<Rightarrow> ('k, 'v) bt" where
  "bt_collect kvs = fold (\<lambda>(k, v) m. bt_insert k v m) kvs []"

definition bt_has :: "('k, 'v) bt \<Rightarrow> 'k \<Rightarrow> bool" where
  "bt_has m k \<longleftrightarrow> bt_get m k \<noteq> None"

definition bt_ok :: "('k::linorder, 'v) bt \<Rightarrow> bool" where
  "bt_ok m \<longleftrightarrow> sorted_wrt (<) (map fst m)"

section \<open>Looking up\<close>

lemma bt_get_Nil [simp]: "bt_get [] k = None"
  by (simp add: bt_get_def)

lemma bt_get_Cons [simp]: "bt_get ((k', v) # m) k = (if k = k' then Some v else bt_get m k)"
  by (simp add: bt_get_def)

lemma bt_get_insert [simp]: "bt_get (bt_insert k v m) q = (if q = k then Some v else bt_get m q)"
  by (induction k v m rule: bt_insert.induct) auto

lemma bt_get_remove [simp]: "bt_get (bt_remove k m) q = (if q = k then None else bt_get m q)"
  by (induction m) (auto simp: bt_remove_def)

lemma bt_has_iff: "bt_has m k \<longleftrightarrow> k \<in> set (bt_keys m)"
  by (induction m) (auto simp: bt_has_def bt_keys_def)

lemma bt_get_SomeD: "bt_get m k = Some v \<Longrightarrow> (k, v) \<in> set m"
  by (simp add: bt_get_def map_of_SomeD)

lemma bt_get_None_iff: "bt_get m k = None \<longleftrightarrow> k \<notin> fst ` set m"
  by (simp add: bt_get_def map_of_eq_None_iff)

section \<open>Key order\<close>

lemma bt_ok_Nil [simp, intro]: "bt_ok []"
  by (simp add: bt_ok_def)

lemma bt_ok_Cons: "bt_ok ((k, v) # m) \<longleftrightarrow> (\<forall>k' \<in> fst ` set m. k < k') \<and> bt_ok m"
  by (auto simp: bt_ok_def)

lemma set_bt_insert_keys: "fst ` set (bt_insert k v m) = insert k (fst ` set m)"
  by (induction k v m rule: bt_insert.induct) auto

lemma bt_ok_insert [simp, intro]: "bt_ok m \<Longrightarrow> bt_ok (bt_insert k v m)"
proof (induction k v m rule: bt_insert.induct)
  case (2 k v k' v' m)
  then show ?case by (auto simp: bt_ok_Cons set_bt_insert_keys)
qed (simp add: bt_ok_def)

lemma bt_ok_filter: "bt_ok m \<Longrightarrow> bt_ok (filter P m)"
  by (induction m) (auto simp: bt_ok_Cons)

lemma bt_ok_remove [simp, intro]: "bt_ok m \<Longrightarrow> bt_ok (bt_remove k m)"
  by (simp add: bt_remove_def bt_ok_filter)

lemma bt_ok_retain [simp, intro]: "bt_ok m \<Longrightarrow> bt_ok (bt_retain P m)"
  by (simp add: bt_retain_def bt_ok_filter)

lemma bt_ok_fold_insert: "bt_ok m \<Longrightarrow> bt_ok (fold (\<lambda>(k, v) m. bt_insert k v m) kvs m)"
  by (induction kvs arbitrary: m) auto

lemma bt_ok_collect [simp, intro]: "bt_ok (bt_collect kvs)"
  by (simp add: bt_collect_def bt_ok_fold_insert)

lemma bt_ok_distinct: "bt_ok m \<Longrightarrow> distinct (map fst m)"
  by (simp add: bt_ok_def strict_sorted_iff)

lemma bt_ok_get_iff: "bt_ok m \<Longrightarrow> bt_get m k = Some v \<longleftrightarrow> (k, v) \<in> set m"
  by (simp add: bt_get_def bt_ok_distinct)

lemma bt_ok_map_snd: "bt_ok (map (\<lambda>(k, v). (k, f k v)) m) \<longleftrightarrow> bt_ok m"
  by (simp add: bt_ok_def comp_def case_prod_unfold)

lemma bt_get_map_snd: "bt_get (map (\<lambda>(k, v). (k, f k v)) m) k = map_option (f k) (bt_get m k)"
  by (induction m) auto

lemma bt_get_retain: "bt_ok m \<Longrightarrow>
    bt_get (bt_retain P m) k = (case bt_get m k of None \<Rightarrow> None | Some v \<Rightarrow> if P k v then Some v else None)"
proof (induction m)
  case (Cons kv m)
  obtain k' v where kv: "kv = (k', v)" by (cases kv)
  show ?case
  proof (cases "k = k'")
    case True
    with Cons.prems kv have "bt_get m k = None"
      by (auto simp: bt_ok_Cons bt_get_None_iff)
    with True Cons kv show ?thesis by (auto simp: bt_retain_def bt_ok_Cons)
  next
    case False
    with Cons kv show ?thesis by (auto simp: bt_retain_def bt_ok_Cons)
  qed
qed (simp add: bt_retain_def)

text \<open>Maps in key order are equal when they agree on every key.\<close>

lemma bt_ext: "bt_ok m \<Longrightarrow> bt_ok n \<Longrightarrow> (\<And>k. bt_get m k = bt_get n k) \<Longrightarrow> m = n"
proof -
  assume m: "bt_ok m" and n: "bt_ok n" and eq: "\<And>k. bt_get m k = bt_get n k"
  have "set m = set n"
    using bt_ok_get_iff [OF m] bt_ok_get_iff [OF n] eq by (metis prod.exhaust subsetI subset_antisym)
  moreover have "sorted (map fst m)" "sorted (map fst n)" 
    "distinct (map fst m)" "distinct (map fst n)" and "inj_on fst (set m)"
    using m n by (auto simp: bt_ok_def strict_sorted_iff distinct_map)
  ultimately show ?thesis
    by (intro map_sorted_distinct_set_unique [where f = fst]) auto
qed

lemma bt_get_collect: "bt_get (bt_collect kvs) k = map_of (rev kvs) k"
proof -
  have "bt_get (fold (\<lambda>(k, v) m. bt_insert k v m) kvs m) k =
    (case map_of (rev kvs) k of None \<Rightarrow> bt_get m k | Some v \<Rightarrow> Some v)" for m
    by (induction kvs arbitrary: m) (auto simp: map_add_def split: option.splits)
  then show ?thesis by (simp add: bt_collect_def split: option.splits)
qed

lemma map_of_rev: "distinct (map fst m) \<Longrightarrow> map_of (rev m) = map_of m"
  by (simp add: map_of_inject_set rev_map [symmetric])

lemma bt_collect_id: "bt_ok m \<Longrightarrow> bt_collect m = m"
  by (rule bt_ext, simp_all add: bt_get_collect bt_ok_distinct map_of_rev) (simp add: bt_get_def)

section \<open>The interface\<close>

text \<open>What a component may rely on of a map kept in key order.\<close>

locale ordered_map =
  fixes get :: "'m \<Rightarrow> 'k \<Rightarrow> 'v option"
    and insert_at :: "'k \<Rightarrow> 'v \<Rightarrow> 'm \<Rightarrow> 'm"
    and remove_at :: "'k \<Rightarrow> 'm \<Rightarrow> 'm"
    and ok :: "'m \<Rightarrow> bool"
  assumes get_insert: "get (insert_at k v m) q = (if q = k then Some v else get m q)"
    and get_remove: "get (remove_at k m) q = (if q = k then None else get m q)"
    and ok_insert: "ok m \<Longrightarrow> ok (insert_at k v m)"
    and ok_remove: "ok m \<Longrightarrow> ok (remove_at k m)"
    and ext: "ok m \<Longrightarrow> ok n \<Longrightarrow> (\<And>k. get m k = get n k) \<Longrightarrow> m = n"
begin

lemma insert_overwrites: "ok m \<Longrightarrow> insert_at k v (insert_at k w m) = insert_at k v m"
  by (rule ext) (simp_all add: get_insert ok_insert)

lemma insert_commutes:
  "ok m \<Longrightarrow> k \<noteq> q \<Longrightarrow> insert_at k v (insert_at q w m) = insert_at q w (insert_at k v m)"
  by (rule ext) (auto simp: get_insert ok_insert)

lemma insert_same: "ok m \<Longrightarrow> get m k = Some v \<Longrightarrow> insert_at k v m = m"
  by (rule ext) (simp_all add: get_insert ok_insert)

lemma remove_insert: "ok m \<Longrightarrow> get m k = None \<Longrightarrow> remove_at k (insert_at k v m) = m"
  by (rule ext) (simp_all add: get_insert get_remove ok_insert ok_remove)

lemma remove_absent: "ok m \<Longrightarrow> get m k = None \<Longrightarrow> remove_at k m = m"
  by (rule ext) (simp_all add: get_remove ok_remove)

end

interpretation btree: ordered_map bt_get bt_insert bt_remove bt_ok
  by unfold_locales (auto intro: bt_ext)

end
