(* ===== verification/Framing.thy ===== *)
theory Framing
  imports Prelude
begin

text \<open>
  Length-prefix framing, \<open>crates/bliti-core/src/channel/framing.rs\<close>: the big-endian prefixes of two
  widths, reading and writing a delimited message on a stream, and the reassembler that turns the
  chunks a link delivers into whole Noise messages.  The locale \<open>message_parser\<close> states what a
  parser of framed messages promises and proves once that the messages found do not depend on how
  their bytes were cut into chunks.
\<close>

section \<open>Big-endian numbers\<close>

text \<open>\<open>to_be_bytes\<close> at a width of \<open>k\<close> bytes, and \<open>from_be_bytes\<close>.\<close>

fun be_bytes :: "nat \<Rightarrow> nat \<Rightarrow> bytes" where
  "be_bytes 0 n = []"
| "be_bytes (Suc k) n = be_bytes k (n div 256) @ [word_of_nat n]"

definition be_value :: "bytes \<Rightarrow> nat" where
  "be_value bs = foldl (\<lambda>a b. a * 256 + unat b) 0 bs"

lemma be_value_Nil [simp]: "be_value [] = 0"
  by (simp add: be_value_def)

lemma be_value_snoc [simp]: "be_value (bs @ [b]) = be_value bs * 256 + unat b"
  by (simp add: be_value_def)

lemma length_be_bytes [simp]: "length (be_bytes k n) = k"
  by (induction k arbitrary: n) auto

lemma unat_u8_bound: "unat (b :: u8) < 256"
  using unsigned_less [of b] by simp

lemma be_bytes_eval:
  "be_bytes (numeral j) n = be_bytes (pred_numeral j) (n div 256) @ [word_of_nat n]"
  "be_bytes 1 n = [word_of_nat n]"
  by (subst numeral_eq_Suc, rule be_bytes.simps(2)) (simp only: One_nat_def be_bytes.simps append_Nil)

lemma be_value_be_bytes [simp]: "be_value (be_bytes k n) = n mod 256 ^ k"
proof (induction k arbitrary: n)
  case (Suc k)
  then show ?case by (simp add: unat_of_nat mod_mult2_eq)
qed simp

lemma be_value_bound: "be_value bs < 256 ^ length bs"
proof (induction bs rule: rev_induct)
  case (snoc b bs)
  with unat_u8_bound [of b] show ?case by simp
qed simp

lemma be_bytes_be_value [simp]: "be_bytes (length bs) (be_value bs) = bs"
proof (induction bs rule: rev_induct)
  case (snoc b bs)
  have "(be_value bs * 256 + unat b) div 256 = be_value bs"
    using unat_u8_bound [of b] by simp
  moreover have "(word_of_nat (be_value bs * 256 + unat b) :: u8) = b"
    unfolding word_unat_eq_iff unat_of_nat using unat_u8_bound [of b] by simp
  ultimately show ?case using snoc by simp
qed simp

lemma be_bytes_add: "be_bytes (j + k) n = be_bytes j (n div 256 ^ k) @ be_bytes k n"
  by (induction k arbitrary: n) (simp_all add: div_mult2_eq)

lemma be_value_eq_0_iff: "be_value bs = 0 \<longleftrightarrow> (\<forall>b \<in> set bs. b = 0)"
  by (induction bs rule: rev_induct) (auto simp: unat_eq_0)

lemma list_ex_nonzero: "list_ex (\<lambda>b. b \<noteq> 0) bs \<longleftrightarrow> be_value bs \<noteq> 0"
  by (auto simp: be_value_eq_0_iff list_ex_iff)

lemma be_value_zeros: "be_value (replicate k 0 @ bs) = be_value bs"
proof (induction bs rule: rev_induct)
  case (snoc b bs)
  then show ?case by (simp flip: append_assoc)
qed (simp add: be_value_eq_0_iff)

section \<open>Length prefixes\<close>

definition TRANSPORT_PREFIX :: nat where "TRANSPORT_PREFIX = 2"
definition MESSAGE_PREFIX :: nat where "MESSAGE_PREFIX = 3"
definition READ_CHUNK :: nat where "READ_CHUNK = 8192"

text \<open>The widths the code compiles at: \<open>const { usable_width::<PREFIX>() }\<close>.\<close>

definition usable_width :: "nat \<Rightarrow> bool" where
  "usable_width p \<longleftrightarrow> 1 \<le> p \<and> p \<le> 4"

definition decode_prefix :: "nat \<Rightarrow> bytes \<Rightarrow> nat" where
  "decode_prefix p bs = be_value (replicate (8 - p) 0 @ bs)"

definition encode_prefix :: "nat \<Rightarrow> nat \<Rightarrow> bytes io_result" where
  "encode_prefix p len =
     (let be = be_bytes 8 len
      in if list_ex (\<lambda>b. b \<noteq> 0) (take (8 - p) be) then Inl InvalidInput
         else Inr (drop (8 - p) be))"

lemma usable_widths [simp]: "usable_width TRANSPORT_PREFIX" "usable_width MESSAGE_PREFIX"
  by (simp_all add: usable_width_def TRANSPORT_PREFIX_def MESSAGE_PREFIX_def)

lemma decode_prefix_eq [simp]: "decode_prefix p bs = be_value bs"
  by (simp add: decode_prefix_def be_value_zeros)

lemma encode_prefix_eq:
  assumes "usable_width p" and "len < 2 ^ 64"
  shows "encode_prefix p len = (if len < 256 ^ p then Inr (be_bytes p len) else Inl InvalidInput)"
proof -
  have p: "p \<le> 8" using assms(1) by (simp add: usable_width_def)
  have split: "be_bytes 8 len = be_bytes (8 - p) (len div 256 ^ p) @ be_bytes p len"
    using be_bytes_add [of "8 - p" p len] p by simp
  have "(256 :: nat) ^ (8 - p) * 256 ^ p = 256 ^ 8"
    using p by (simp only: power_add [symmetric] le_add_diff_inverse2)
  then have pow: "(256 :: nat) ^ (8 - p) * 256 ^ p = 2 ^ 64"
    by simp
  then have "len div 256 ^ p < 256 ^ (8 - p)"
    by (intro less_mult_imp_div_less) (use assms(2) in \<open>simp only: pow\<close>)
  then have "be_value (be_bytes (8 - p) (len div 256 ^ p)) = len div 256 ^ p"
    by simp
  then have "list_ex (\<lambda>b. b \<noteq> 0) (be_bytes (8 - p) (len div 256 ^ p)) \<longleftrightarrow> len div 256 ^ p \<noteq> 0"
    by (simp only: list_ex_nonzero)
  also have "\<dots> \<longleftrightarrow> \<not> len < 256 ^ p"
    by (auto simp: div_eq_0_iff)
  finally have high: "list_ex (\<lambda>b. b \<noteq> 0) (take (8 - p) (be_bytes 8 len)) \<longleftrightarrow> \<not> len < 256 ^ p"
    by (simp only: split append_eq_conv_conj take_append length_be_bytes) simp
  have low: "drop (8 - p) (be_bytes 8 len) = be_bytes p len"
    by (simp only: split drop_append length_be_bytes) simp
  show ?thesis
    unfolding encode_prefix_def Let_def high low by auto
qed

section \<open>Reading a delimited message off a stream\<close>

text \<open>
  A stream as its reads answer: the chunks still to arrive, then the end of the stream.  One read
  takes what fits of the chunk at the front; \<open>read_exact\<close> reads until the buffer is full, and a read
  of nothing before then is \<open>UnexpectedEof\<close>.
\<close>

type_synonym rstream = "bytes list"

fun stream_read :: "nat \<Rightarrow> rstream \<Rightarrow> bytes \<times> rstream" where
  "stream_read n [] = ([], [])"
| "stream_read n (c # cs) = (take n c, if length c \<le> n then cs else drop n c # cs)"

function stream_read_exact :: "nat \<Rightarrow> rstream \<Rightarrow> bytes io_result \<times> rstream" where
  "stream_read_exact n s =
     (if n = 0 then (Inr [], s)
      else let (got, s') = stream_read n s
           in if got = [] then (Inl UnexpectedEof, s')
              else case stream_read_exact (n - length got) s' of
                     (Inl e, s'') \<Rightarrow> (Inl e, s'')
                   | (Inr more, s'') \<Rightarrow> (Inr (got @ more), s''))"
  by pat_completeness auto
termination
  by (relation "measure fst") auto

declare stream_read_exact.simps [simp del]

text \<open>The body loop of \<open>read_delimited\<close>: the message grows by at most a chunk per read.\<close>

function read_body :: "nat \<Rightarrow> bytes \<Rightarrow> rstream \<Rightarrow> bytes io_result \<times> rstream" where
  "read_body remaining message s =
     (if remaining = 0 then (Inr message, s)
      else let n = min remaining READ_CHUNK
           in case stream_read_exact n s of
                (Inl e, s') \<Rightarrow> (Inl e, s')
              | (Inr got, s') \<Rightarrow> read_body (remaining - n) (message @ got) s')"
  by pat_completeness auto
termination
  by (relation "measure fst") (auto simp: READ_CHUNK_def)

declare read_body.simps [simp del]

definition read_delimited :: "nat \<Rightarrow> rstream \<Rightarrow> bytes option io_result \<times> rstream" where
  "read_delimited p s =
     (let (first, s1) = stream_read p s
      in if length first = 0 then (Inr None, s1)
         else case stream_read_exact (p - length first) s1 of
                (Inl e, s2) \<Rightarrow> (Inl e, s2)
              | (Inr rest, s2) \<Rightarrow>
                  (case read_body (decode_prefix p (first @ rest)) [] s2 of
                     (Inl e, s3) \<Rightarrow> (Inl e, s3)
                   | (Inr message, s3) \<Rightarrow> (Inr (Some message), s3)))"

text \<open>
  \<open>write_delimited\<close> over a stream given by its \<open>write_all\<close> and \<open>flush\<close>: prefix, body, flush, each
  stopping at the first error.
\<close>

definition write_delimited ::
  "nat \<Rightarrow> (bytes \<Rightarrow> 'w \<Rightarrow> unit io_result \<times> 'w) \<Rightarrow> ('w \<Rightarrow> unit io_result \<times> 'w) \<Rightarrow> bytes \<Rightarrow> 'w
    \<Rightarrow> unit io_result \<times> 'w" where
  "write_delimited p write_all flush message w =
     (case encode_prefix p (length message) of
        Inl e \<Rightarrow> (Inl e, w)
      | Inr prefix \<Rightarrow>
          (case write_all prefix w of
             (Inl e, w1) \<Rightarrow> (Inl e, w1)
           | (Inr _, w1) \<Rightarrow>
               (case write_all message w1 of
                  (Inl e, w2) \<Rightarrow> (Inl e, w2)
                | (Inr _, w2) \<Rightarrow> flush w2)))"

text \<open>The two layers' messages: \<open>write_message\<close> and \<open>read_message\<close> of \<open>channel/stream.rs\<close>.\<close>

definition write_message ::
  "(bytes \<Rightarrow> 'w \<Rightarrow> unit io_result \<times> 'w) \<Rightarrow> ('w \<Rightarrow> unit io_result \<times> 'w) \<Rightarrow> bytes \<Rightarrow> 'w
    \<Rightarrow> unit io_result \<times> 'w" where
  "write_message write_all flush message w = write_delimited MESSAGE_PREFIX write_all flush message w"

definition read_message :: "rstream \<Rightarrow> bytes option io_result \<times> rstream" where
  "read_message s = read_delimited MESSAGE_PREFIX s"

section \<open>The reassembler\<close>

record reassembler =
  r_buf :: bytes

definition reasm_new :: reassembler where
  "reasm_new = \<lparr>r_buf = []\<rparr>"

definition reasm_push :: "bytes \<Rightarrow> reassembler \<Rightarrow> reassembler" where
  "reasm_push chunk r = r\<lparr>r_buf := r_buf r @ chunk\<rparr>"

definition reasm_take :: "reassembler \<Rightarrow> (bytes \<times> reassembler) option" where
  "reasm_take r =
     (if length (r_buf r) < TRANSPORT_PREFIX then None
      else let prefix = take TRANSPORT_PREFIX (r_buf r);
               end = TRANSPORT_PREFIX + decode_prefix TRANSPORT_PREFIX prefix
           in if length (r_buf r) < end then None
              else Some (drop TRANSPORT_PREFIX (take end (r_buf r)), r\<lparr>r_buf := drop end (r_buf r)\<rparr>))"

lemma reasm_take_shrinks: "reasm_take r = Some (m, r') \<Longrightarrow> length (r_buf r') < length (r_buf r)"
  by (auto simp: reasm_take_def Let_def TRANSPORT_PREFIX_def split: if_splits)

text \<open>The loop of \<open>push_and_drain\<close>: every message complete so far.\<close>

function reasm_drain :: "reassembler \<Rightarrow> bytes list \<times> reassembler" where
  "reasm_drain r =
     (case reasm_take r of
        None \<Rightarrow> ([], r)
      | Some (m, r') \<Rightarrow> let (ms, r'') = reasm_drain r' in (m # ms, r''))"
  by pat_completeness auto
termination
  by (relation "measure (\<lambda>r. length (r_buf r))") (auto dest: reasm_take_shrinks)

declare reasm_drain.simps [simp del]

definition reasm_push_and_drain :: "bytes \<Rightarrow> reassembler \<Rightarrow> bytes list \<times> reassembler" where
  "reasm_push_and_drain chunk r = reasm_drain (reasm_push chunk r)"

text \<open>A session's reads: push the chunks in the order they arrive, keeping every message taken.\<close>

definition reasm_feed :: "bytes list \<times> reassembler \<Rightarrow> bytes list \<Rightarrow> bytes list \<times> reassembler" where
  "reasm_feed = foldl (\<lambda>(ms, r) chunk. let (ms', r') = reasm_push_and_drain chunk r in (ms @ ms', r'))"

section \<open>What a delimited message is\<close>

text \<open>
  The specification both readers implement: a whole message at the front of a buffer, split from
  what follows it.
\<close>

definition delimited :: "nat \<Rightarrow> bytes \<Rightarrow> bytes" where
  "delimited p m = be_bytes p (length m) @ m"

definition fits :: "nat \<Rightarrow> bytes \<Rightarrow> bool" where
  "fits p m \<longleftrightarrow> length m < 256 ^ p"

definition split_delimited :: "nat \<Rightarrow> bytes \<Rightarrow> (bytes \<times> bytes) option" where
  "split_delimited p b =
     (if length b < p then None
      else let n = be_value (take p b)
           in if length b < p + n then None else Some (take n (drop p b), drop (p + n) b))"

lemma split_delimited_frame: "fits p m \<Longrightarrow> split_delimited p (delimited p m @ r) = Some (m, r)"
  by (simp add: split_delimited_def delimited_def fits_def)

lemma split_delimited_extend:
  "split_delimited p b = Some (m, r) \<Longrightarrow> split_delimited p (b @ x) = Some (m, r @ x)"
  by (auto simp: split_delimited_def Let_def split: if_splits)

lemma split_delimited_shrinks:
  "0 < p \<Longrightarrow> split_delimited p b = Some (m, r) \<Longrightarrow> length r < length b"
  by (auto simp: split_delimited_def Let_def split: if_splits)

lemma split_delimited_Nil: "0 < p \<Longrightarrow> split_delimited p [] = None"
  by (simp add: split_delimited_def)

locale message_parser =
  fixes frame :: "bytes \<Rightarrow> bytes"
    and fit :: "bytes \<Rightarrow> bool"
    and parse :: "bytes \<Rightarrow> (bytes \<times> bytes) option"
  assumes parse_frame: "fit m \<Longrightarrow> parse (frame m @ r) = Some (m, r)"
    and parse_extend: "parse b = Some (m, r) \<Longrightarrow> parse (b @ x) = Some (m, r @ x)"
    and parse_shrinks: "parse b = Some (m, r) \<Longrightarrow> length r < length b"
    and parse_Nil: "parse [] = None"
begin

lemma frame_unambiguous:
  assumes "fit m" and "fit m'" and "frame m @ r = frame m' @ r'"
  shows "m = m' \<and> r = r'"
proof -
  have "Some (m, r) = parse (frame m' @ r')"
    using parse_frame [OF assms(1), of r] assms(3) by simp
  then show ?thesis using parse_frame [OF assms(2), of r'] by simp
qed

lemma frame_nonempty: "fit m \<Longrightarrow> frame m \<noteq> []"
  using parse_frame [of m "[]"] parse_Nil by auto

end

text \<open>A parser with a loop that takes every message complete so far.\<close>

locale message_drainer = message_parser +
  fixes drain :: "bytes \<Rightarrow> bytes list \<times> bytes"
  assumes drain_None: "parse b = None \<Longrightarrow> drain b = ([], b)"
    and drain_Some: "parse b = Some (m, r) \<Longrightarrow> drain b = (m # fst (drain r), snd (drain r))"
begin

lemma drain_rest: "parse (snd (drain b)) = None"
proof (induction b rule: length_induct)
  case (1 b)
  show ?case
  proof (cases "parse b")
    case (Some mr)
    obtain m r where "mr = (m, r)" by (cases mr)
    with Some "1" show ?thesis by (simp add: drain_Some parse_shrinks)
  qed (simp add: drain_None)
qed

lemma drain_append:
  "drain (b @ x) = (fst (drain b) @ fst (drain (snd (drain b) @ x)), snd (drain (snd (drain b) @ x)))"
proof (induction b rule: length_induct)
  case (1 b)
  show ?case
  proof (cases "parse b")
    case None
    then show ?thesis by (simp add: drain_None)
  next
    case (Some mr)
    obtain m r where mr: "mr = (m, r)" by (cases mr)
    with Some have "length r < length b" by (simp add: parse_shrinks)
    with "1" have "drain (r @ x) =
        (fst (drain r) @ fst (drain (snd (drain r) @ x)), snd (drain (snd (drain r) @ x)))"
      by blast
    with Some mr show ?thesis
      by (simp add: drain_Some [OF parse_extend] drain_Some)
  qed
qed

lemma drain_frames: "\<forall>m \<in> set ms. fit m \<Longrightarrow> drain (concat (map frame ms)) = (ms, [])"
proof (induction ms)
  case Nil
  then show ?case by (simp add: drain_None parse_Nil)
next
  case (Cons m ms)
  then show ?case by (simp add: drain_Some [OF parse_frame])
qed

lemma feed_concat:
  "foldl (\<lambda>(ms, b) c. (ms @ fst (drain (b @ c)), snd (drain (b @ c)))) (ms, b) cs =
     (if cs = [] then (ms, b) else (ms @ fst (drain (b @ concat cs)), snd (drain (b @ concat cs))))"
proof (induction cs arbitrary: ms b)
  case (Cons c cs)
  show ?case
  proof (cases "cs = []")
    case False
    have "drain (b @ c @ concat cs) =
        (fst (drain (b @ c)) @ fst (drain (snd (drain (b @ c)) @ concat cs)),
         snd (drain (snd (drain (b @ c)) @ concat cs)))"
      using drain_append [of "b @ c" "concat cs"] by simp
    with Cons.IH False show ?thesis by simp
  qed simp
qed simp

end

section \<open>The reassembler implements the specification\<close>

definition reasm_drain_bytes :: "bytes \<Rightarrow> bytes list \<times> bytes" where
  "reasm_drain_bytes b = (let (ms, r) = reasm_drain \<lparr>r_buf = b\<rparr> in (ms, r_buf r))"

lemma reasm_take_refines:
  "reasm_take r =
     map_option (\<lambda>(m, b). (m, \<lparr>r_buf = b\<rparr>)) (split_delimited TRANSPORT_PREFIX (r_buf r))"
  by (cases r) (auto simp: reasm_take_def split_delimited_def Let_def drop_take)

lemma reasm_collapse [simp]: "\<lparr>r_buf = r_buf r\<rparr> = r"
  by (cases r) simp

lemma reasm_drain_eq: "reasm_drain r = (fst (reasm_drain_bytes (r_buf r)), \<lparr>r_buf = snd (reasm_drain_bytes (r_buf r))\<rparr>)"
  by (cases r) (simp add: reasm_drain_bytes_def case_prod_unfold Let_def)

interpretation message_layer: message_parser "delimited MESSAGE_PREFIX" "fits MESSAGE_PREFIX"
  "split_delimited MESSAGE_PREFIX"
  by unfold_locales
    (auto simp: split_delimited_frame split_delimited_extend split_delimited_Nil MESSAGE_PREFIX_def
      intro: split_delimited_shrinks [rotated])

interpretation transport_layer: message_drainer "delimited TRANSPORT_PREFIX" "fits TRANSPORT_PREFIX"
  "split_delimited TRANSPORT_PREFIX" reasm_drain_bytes
proof unfold_locales
  fix b assume "split_delimited TRANSPORT_PREFIX b = None"
  then show "reasm_drain_bytes b = ([], b)"
    by (simp add: reasm_drain_bytes_def reasm_drain.simps [of "\<lparr>r_buf = b\<rparr>"] reasm_take_refines)
next
  fix b m r assume "split_delimited TRANSPORT_PREFIX b = Some (m, r)"
  then show "reasm_drain_bytes b = (m # fst (reasm_drain_bytes r), snd (reasm_drain_bytes r))"
    by (simp add: reasm_drain_bytes_def reasm_drain.simps [of "\<lparr>r_buf = b\<rparr>"] reasm_take_refines
        case_prod_unfold Let_def)
qed (auto simp: split_delimited_frame split_delimited_extend split_delimited_Nil TRANSPORT_PREFIX_def
      intro: split_delimited_shrinks [rotated])

lemma reasm_feed_bytes:
  "reasm_feed (ms, r) cs =
     (let (ms', b) = foldl (\<lambda>(ms, b) c. (ms @ fst (reasm_drain_bytes (b @ c)), snd (reasm_drain_bytes (b @ c))))
                       (ms, r_buf r) cs
      in (ms', \<lparr>r_buf = b\<rparr>))"
proof (induction cs arbitrary: ms r)
  case Nil
  then show ?case by (cases r) (simp add: reasm_feed_def)
next
  case (Cons c cs)
  then show ?case
    by (simp add: reasm_feed_def reasm_push_and_drain_def reasm_push_def reasm_drain_eq
        case_prod_unfold)
qed

section \<open>Reading off a stream, however its bytes arrive\<close>

lemma stream_read_exact_0 [simp]: "stream_read_exact 0 s = (Inr [], s)"
  by (simp add: stream_read_exact.simps)

lemma stream_read_exact_Nil [simp]: "0 < n \<Longrightarrow> stream_read_exact n [] = (Inl UnexpectedEof, [])"
  by (simp add: stream_read_exact.simps)

lemma read_body_0 [simp]: "read_body 0 m s = (Inr m, s)"
  by (simp add: read_body.simps)

lemma stream_read_exact_spec:
  assumes "[] \<notin> set s"
  shows "\<exists>s'. stream_read_exact n s =
           (if n \<le> length (concat s) then Inr (take n (concat s)) else Inl UnexpectedEof, s') \<and>
         concat s' = drop n (concat s) \<and> [] \<notin> set s'"
  using assms
proof (induction n s rule: stream_read_exact.induct)
  case (1 n s)
  consider "n = 0" | "0 < n" "s = []" | c cs where "0 < n" "s = c # cs"
    by (cases s) auto
  then show ?case
  proof cases
    case 1
    with "1.prems" show ?thesis by simp
  next
    case 2
    then show ?thesis by simp
  next
    case (3 c cs)
    let ?s' = "snd (stream_read n s)"
    have c: "c \<noteq> []" using 3 "1.prems" by auto
    with 3 have got: "take n c \<noteq> []" by simp
    have s': "[] \<notin> set ?s'" "concat ?s' = drop (length (take n c)) (concat s)"
      using 3 "1.prems" by auto
    have "\<exists>s''. stream_read_exact (n - length (take n c)) ?s' =
           (if n - length (take n c) \<le> length (concat ?s')
            then Inr (take (n - length (take n c)) (concat ?s')) else Inl UnexpectedEof, s'') \<and>
         concat s'' = drop (n - length (take n c)) (concat ?s') \<and> [] \<notin> set s''"
      using "1.IH" [OF _ refl, of "take n c" ?s'] 3 got s'(1) by simp
    then obtain s'' where rec: "stream_read_exact (n - length (take n c)) ?s' =
           (if n - length (take n c) \<le> length (concat ?s')
            then Inr (take (n - length (take n c)) (concat ?s')) else Inl UnexpectedEof, s'')"
      and rest: "concat s'' = drop (n - length (take n c)) (concat ?s')" "[] \<notin> set s''"
      by blast
    have "stream_read_exact n s =
        (if n \<le> length (concat s) then Inr (take n (concat s)) else Inl UnexpectedEof, s'')"
      using 3 got rec s'(2) by (subst stream_read_exact.simps) (auto simp: Let_def min_def take_Cons')
    moreover have "concat s'' = drop n (concat s)"
      using rest(1) s'(2) 3 by (simp add: min_def)
    ultimately show ?thesis using rest(2) by blast
  qed
qed

lemma read_body_spec:
  assumes "[] \<notin> set s"
  shows "\<exists>s'. read_body n m s =
           (if n \<le> length (concat s) then Inr (m @ take n (concat s)) else Inl UnexpectedEof, s') \<and>
         (n \<le> length (concat s) \<longrightarrow> concat s' = drop n (concat s) \<and> [] \<notin> set s')"
  using assms
proof (induction n m s rule: read_body.induct)
  case (1 n m s)
  show ?case
  proof (cases "n = 0")
    case True
    with "1.prems" show ?thesis by simp
  next
    case False
    let ?k = "min n READ_CHUNK"
    obtain s1 where s1: "stream_read_exact ?k s =
          (if ?k \<le> length (concat s) then Inr (take ?k (concat s)) else Inl UnexpectedEof, s1)"
      "concat s1 = drop ?k (concat s)" "[] \<notin> set s1"
      using stream_read_exact_spec [OF "1.prems"] by blast
    show ?thesis
    proof (cases "?k \<le> length (concat s)")
      case False
      with s1(1) \<open>n \<noteq> 0\<close> show ?thesis
        by (simp add: read_body.simps [of n m s] Let_def)
    next
      case True
      then have ok: "(Inr (take ?k (concat s)), s1) = stream_read_exact ?k s"
        using s1(1) by simp
      obtain s2 where s2: "read_body (n - ?k) (m @ take ?k (concat s)) s1 =
            (if n - ?k \<le> length (concat s1) then Inr ((m @ take ?k (concat s)) @ take (n - ?k) (concat s1))
             else Inl UnexpectedEof, s2)"
        "n - ?k \<le> length (concat s1) \<longrightarrow> concat s2 = drop (n - ?k) (concat s1) \<and> [] \<notin> set s2"
        using "1.IH" [OF \<open>n \<noteq> 0\<close> refl ok refl s1(3)] by blast
      have le: "n - ?k \<le> length (concat s1) \<longleftrightarrow> n \<le> length (concat s)"
        using True by (auto simp: s1(2))
      have tk: "take ?k (concat s) @ take (n - ?k) (concat s1) = take n (concat s)"
        by (simp add: s1(2) flip: take_add)
      have "read_body n m s = read_body (n - ?k) (m @ take ?k (concat s)) s1"
        using True s1(1) \<open>n \<noteq> 0\<close> by (simp add: read_body.simps [of n m s] Let_def)
      with s2 le tk show ?thesis by (auto simp: s1(2))
    qed
  qed
qed

lemma read_delimited_spec:
  assumes "[] \<notin> set s" and "0 < p"
  shows "\<exists>s'. read_delimited p s =
           (if concat s = [] then Inr None
            else case split_delimited p (concat s) of
                   None \<Rightarrow> Inl UnexpectedEof
                 | Some (m, r) \<Rightarrow> Inr (Some m), s') \<and>
         (\<forall>m r. split_delimited p (concat s) = Some (m, r) \<longrightarrow> concat s' = r \<and> [] \<notin> set s')"
proof (cases s)
  case Nil
  with assms(2) show ?thesis by (simp add: read_delimited_def split_delimited_Nil)
next
  case (Cons c cs)
  let ?b = "concat s" and ?first = "take p c" and ?s1 = "snd (stream_read p s)"
  have first: "?first \<noteq> []" and c: "c \<noteq> []" using Cons assms by auto
  have s1: "[] \<notin> set ?s1" "concat ?s1 = drop (length ?first) ?b" "take (length ?first) ?b = ?first"
    using Cons assms by (auto simp: min_def)
  obtain s2 where s2: "stream_read_exact (p - length ?first) ?s1 =
        (if p - length ?first \<le> length (concat ?s1) then Inr (take (p - length ?first) (concat ?s1))
         else Inl UnexpectedEof, s2)"
    "concat s2 = drop (p - length ?first) (concat ?s1)" "[] \<notin> set s2"
    using stream_read_exact_spec [OF s1(1)] by blast
  have start: "read_delimited p s = (case stream_read_exact (p - length ?first) ?s1 of
                (Inl e, s2) \<Rightarrow> (Inl e, s2)
              | (Inr rest, s2) \<Rightarrow>
                  (case read_body (decode_prefix p (?first @ rest)) [] s2 of
                     (Inl e, s3) \<Rightarrow> (Inl e, s3)
                   | (Inr message, s3) \<Rightarrow> (Inr (Some message), s3)))"
    using first Cons assms by (simp add: read_delimited_def)
  have long: "p - length ?first \<le> length (concat ?s1) \<longleftrightarrow> p \<le> length ?b"
    using Cons by (auto simp: s1(2))
  have nonempty: "?b \<noteq> []" using Cons c by simp
  show ?thesis
  proof (cases "p \<le> length ?b")
    case False
    then have err: "stream_read_exact (p - length ?first) ?s1 = (Inl UnexpectedEof, s2)"
      using s2(1) by (simp only: long if_False)
    from False nonempty show ?thesis
      unfolding start err by (simp add: split_delimited_def)
  next
    case True
    have "?first @ take (p - length ?first) (concat ?s1) = take (length ?first + (p - length ?first)) ?b"
      by (simp only: take_add s1(2,3))
    then have pre: "?first @ take (p - length ?first) (concat ?s1) = take p ?b"
      by simp
    have rest: "concat s2 = drop p ?b"
      by (simp add: s2(2) s1(2))
    let ?n = "be_value (take p ?b)"
    obtain s3 where s3: "read_body ?n [] s2 =
        (if ?n \<le> length (concat s2) then Inr (take ?n (concat s2)) else Inl UnexpectedEof, s3)"
      "?n \<le> length (concat s2) \<longrightarrow> concat s3 = drop ?n (concat s2) \<and> [] \<notin> set s3"
      using read_body_spec [OF s2(3), of ?n "[]"] by auto
    have enough: "?n \<le> length (concat s2) \<longleftrightarrow> p + ?n \<le> length ?b"
      using True by (auto simp: rest)
    have "read_delimited p s = (case read_body ?n [] s2 of (Inl e, s3) \<Rightarrow> (Inl e, s3)
        | (Inr message, s3) \<Rightarrow> (Inr (Some message), s3))"
      unfolding start s2(1) using True pre by (simp only: long if_True) simp
    with s3 enough True nonempty show ?thesis
      by (auto simp: split_delimited_def Let_def rest add.commute)
  qed
qed

section \<open>Writing to a log\<close>

text \<open>A stream that takes everything, kept as what was written to it.\<close>

definition log_write :: "bytes \<Rightarrow> bytes \<Rightarrow> unit io_result \<times> bytes" where
  "log_write b w = (Inr (), w @ b)"

definition log_flush :: "bytes \<Rightarrow> unit io_result \<times> bytes" where
  "log_flush w = (Inr (), w)"

fun write_frames :: "nat \<Rightarrow> bytes list \<Rightarrow> bytes \<Rightarrow> unit io_result \<times> bytes" where
  "write_frames p [] w = (Inr (), w)"
| "write_frames p (m # ms) w =
     (case write_delimited p log_write log_flush m w of
        (Inl e, w') \<Rightarrow> (Inl e, w')
      | (Inr _, w') \<Rightarrow> write_frames p ms w')"

lemma write_delimited_log:
  assumes "usable_width p" and "length m < 2 ^ 64"
  shows "write_delimited p log_write log_flush m w =
    (if fits p m then (Inr (), w @ delimited p m) else (Inl InvalidInput, w))"
  using assms
  by (simp add: write_delimited_def encode_prefix_eq fits_def delimited_def log_write_def log_flush_def)

lemma write_frames_log:
  assumes "usable_width p" and "\<forall>m \<in> set ms. length m < 2 ^ 64"
  shows "write_frames p ms w = (Inr (), wire) \<Longrightarrow>
    (\<forall>m \<in> set ms. fits p m) \<and> wire = w @ concat (map (delimited p) ms)"
  using assms
proof (induction ms arbitrary: w)
  case (Cons m ms)
  then have fit: "fits p m" "write_frames p ms (w @ delimited p m) = (Inr (), wire)"
    by (auto simp: write_delimited_log simp del: power_numeral split: if_splits)
  with Cons.IH [OF fit(2)] Cons.prems show ?case by simp
qed simp

lemma reasm_feed_new:
  "reasm_feed ([], reasm_new) cs =
     (fst (reasm_drain_bytes (concat cs)), \<lparr>r_buf = snd (reasm_drain_bytes (concat cs))\<rparr>)"
proof -
  have "reasm_drain_bytes [] = ([], [])"
    by (rule transport_layer.drain_None) (rule transport_layer.parse_Nil)
  then show ?thesis
    using transport_layer.feed_concat [of "[]" "[]" cs] by (simp add: reasm_feed_bytes reasm_new_def case_prod_unfold Let_def)
qed

section \<open>Properties\<close>

text \<open>Encoding a length never narrows it: a length that fits the width is written as exactly
  that many big-endian bytes and decodes to itself, and one that does not is refused as invalid
  input.\<close>

lemma encode_prefix_exact:
  assumes "usable_width p" and "len < 2 ^ 64"
  shows "(len < 256 ^ p \<longrightarrow> (\<exists>bs. encode_prefix p len = Inr bs \<and> length bs = p \<and> decode_prefix p bs = len))
    \<and> (256 ^ p \<le> len \<longrightarrow> encode_prefix p len = Inl InvalidInput)"
  using encode_prefix_eq [OF assms] by simp

text \<open>C3. Whatever sizes the link delivers the bytes of written Noise messages in, the reassembler
  hands out exactly those messages, in order, and is left empty.\<close>

theorem transport_roundtrip:
  assumes "\<forall>m \<in> set ms. length m < 2 ^ 64"
    and "write_frames TRANSPORT_PREFIX ms [] = (Inr (), wire)"
    and "concat chunks = wire"
  shows "reasm_feed ([], reasm_new) chunks = (ms, reasm_new)"
proof -
  have ms: "\<forall>m \<in> set ms. fits TRANSPORT_PREFIX m"
    and chunks: "concat chunks = concat (map (delimited TRANSPORT_PREFIX) ms)"
    using write_frames_log [OF usable_widths(1) assms(1,2)] assms(3) by auto
  show ?thesis
    unfolding reasm_feed_new chunks transport_layer.drain_frames [OF ms] by (simp add: reasm_new_def)
qed

theorem transport_roundtrip_witness:
  "reasm_feed ([], reasm_new) [[0], [2, 7], [8, 0, 1, 9]] = ([[7, 8], [9]], reasm_new)"
  by (rule transport_roundtrip [of _ "[0, 2, 7, 8, 0, 1, 9]"])
    (simp_all add: write_delimited_log usable_width_def fits_def delimited_def TRANSPORT_PREFIX_def
      be_bytes_eval)

text \<open>C36. What the reassembler hands out, and what it keeps, depend only on the bytes delivered and
  not on how they were cut into chunks.\<close>

theorem reassembly_chunk_independent:
  assumes "concat chunks = concat chunks'"
  shows "reasm_feed ([], reasm_new) chunks = reasm_feed ([], reasm_new) chunks'"
  using assms by (simp add: reasm_feed_new)

theorem reassembly_chunk_independent_witness:
  "reasm_feed ([], reasm_new) [[0, 1], [5, 0]] = reasm_feed ([], reasm_new) [[0], [1, 5, 0]]"
  by (rule reassembly_chunk_independent) simp

text \<open>Reading a message off a stream has exactly four outcomes, whatever chunks the bytes come
  in: a clean end where nothing had begun, a truncation error where a prefix or a body stops short,
  and otherwise the body the prefix claims, leaving the stream just after it.\<close>

lemma read_message_outcomes:
  assumes "[] \<notin> set s"
  shows "fst (read_message s) =
      (let b = concat s; n = be_value (take 3 b)
       in if b = [] then Inr None
          else if length b < 3 + n then Inl UnexpectedEof
          else Inr (Some (take n (drop 3 b))))
    \<and> (\<forall>m. fst (read_message s) = Inr (Some m) \<longrightarrow>
         concat (snd (read_message s)) = drop (3 + length m) (concat s))"
proof -
  obtain s' where s': "read_message s =
           (if concat s = [] then Inr None
            else case split_delimited MESSAGE_PREFIX (concat s) of
                   None \<Rightarrow> Inl UnexpectedEof | Some (m, r) \<Rightarrow> Inr (Some m), s')"
      "\<forall>m r. split_delimited MESSAGE_PREFIX (concat s) = Some (m, r) \<longrightarrow> concat s' = r"
    using read_delimited_spec [OF assms, of MESSAGE_PREFIX] by (auto simp: read_message_def MESSAGE_PREFIX_def)
  then show ?thesis
    by (auto simp: split_delimited_def Let_def MESSAGE_PREFIX_def add.commute split: if_splits)
qed

text \<open>An application message of any length a three-byte prefix can express is read back whole
  after it is written, however its bytes arrive, with whatever follows it left on the stream; a
  longer one is refused before anything is written.\<close>

lemma message_roundtrip:
  assumes "length m < 2 ^ 64" and "[] \<notin> set s"
    and "concat s = snd (write_message log_write log_flush m []) @ rest"
  shows "(length m < 2 ^ 24 \<longrightarrow>
        (\<exists>s'. read_message s = (Inr (Some m), s') \<and> concat s' = rest))
    \<and> (2 ^ 24 \<le> length m \<longrightarrow> write_message log_write log_flush m [] = (Inl InvalidInput, []))"
proof (cases "fits MESSAGE_PREFIX m")
  case True
  then have "concat s = delimited MESSAGE_PREFIX m @ rest"
    using assms by (simp add: write_message_def write_delimited_log)
  then have "split_delimited MESSAGE_PREFIX (concat s) = Some (m, rest)" and "concat s \<noteq> []"
    using True message_layer.parse_frame message_layer.frame_nonempty by auto
  with read_delimited_spec [OF assms(2), of MESSAGE_PREFIX] True show ?thesis
    by (auto simp: read_message_def fits_def MESSAGE_PREFIX_def)
next
  case False
  with assms(1) show ?thesis
    by (simp add: write_message_def write_delimited_log fits_def MESSAGE_PREFIX_def usable_width_def)
qed

end
