(* ===== verification/Transport.thy ===== *)
theory Transport
  imports Framing
begin

text \<open>
  The bytes below Noise: the write backlog both stream wrappers share
  (\<open>crates/bliti-core/src/channel/write_backlog.rs\<close>) and the GATT transport it ends up on
  (\<open>crates/bliti/src/gatt.rs\<close>).  The locale \<open>byte_sink\<close> is what \<open>AsyncWrite::poll_write\<close> promises
  the backlog; the GATT transport's own \<open>poll_write\<close> interprets it.  The \<open>futures\<close> channels beneath
  the transport are its environment: what each poll of one answers is part of the state, as a
  schedule the polls consume.
\<close>

section \<open>The write backlog\<close>

record backlog =
  bl_buf :: bytes
  bl_sent :: nat

definition backlog_new :: backlog where
  "backlog_new = \<lparr>bl_buf = [], bl_sent = 0\<rparr>"

definition backlog_extend :: "bytes \<Rightarrow> backlog \<Rightarrow> backlog" where
  "backlog_extend bs b = b\<lparr>bl_buf := bl_buf b @ bs\<rparr>"

text \<open>\<open>poll_drain\<close> over a writer given by its \<open>poll_write\<close>.\<close>

function backlog_poll_drain ::
  "('w \<Rightarrow> bytes \<Rightarrow> nat io_result poll \<times> 'w) \<Rightarrow> backlog \<Rightarrow> 'w \<Rightarrow> unit io_result poll \<times> backlog \<times> 'w" where
  "backlog_poll_drain poll_write b w =
     (if bl_sent b < length (bl_buf b)
      then case poll_write w (drop (bl_sent b) (bl_buf b)) of
             (Pending, w') \<Rightarrow> (Pending, b, w')
           | (Ready (Inl e), w') \<Rightarrow> (Ready (Inl e), b, w')
           | (Ready (Inr n), w') \<Rightarrow>
               if n = 0 then (Ready (Inl WriteZero), b, w')
               else backlog_poll_drain poll_write (b\<lparr>bl_sent := bl_sent b + n\<rparr>) w'
      else (Ready (Inr ()), b\<lparr>bl_buf := [], bl_sent := 0\<rparr>, w))"
  by pat_completeness auto
termination
  by (relation "measure (\<lambda>(_, b, _). length (bl_buf b) - bl_sent b)") auto

declare backlog_poll_drain.simps [simp del]

text \<open>The bytes still to go out.\<close>

definition backlog_waiting :: "backlog \<Rightarrow> bytes" where
  "backlog_waiting b = drop (bl_sent b) (bl_buf b)"

definition backlog_ok :: "backlog \<Rightarrow> bool" where
  "backlog_ok b \<longleftrightarrow> bl_sent b \<le> length (bl_buf b)"

lemma backlog_new_ok [simp]: "backlog_ok backlog_new" "backlog_waiting backlog_new = []"
  by (simp_all add: backlog_ok_def backlog_new_def backlog_waiting_def)

lemma backlog_extend_ok: "backlog_ok b \<Longrightarrow> backlog_ok (backlog_extend bs b)"
  by (simp add: backlog_ok_def backlog_extend_def)

lemma backlog_waiting_extend:
  "backlog_ok b \<Longrightarrow> backlog_waiting (backlog_extend bs b) = backlog_waiting b @ bs"
  by (simp add: backlog_ok_def backlog_extend_def backlog_waiting_def)

text \<open>Whatever each write keeps, draining keeps.\<close>

lemma backlog_drain_keeps:
  assumes keeps: "\<And>w bs r w'. I w \<Longrightarrow> poll_write w bs = (r, w') \<Longrightarrow> I w'"
    and "backlog_poll_drain poll_write b w = (r, b', w')" and "I w"
  shows "I w'"
  using assms(2,3)
proof (induction "length (bl_buf b) - bl_sent b" arbitrary: b w rule: less_induct)
  case less
  show ?case
  proof (cases "bl_sent b < length (bl_buf b)")
    case True
    obtain p w1 where pw: "poll_write w (drop (bl_sent b) (bl_buf b)) = (p, w1)"
      by (cases "poll_write w (drop (bl_sent b) (bl_buf b))")
    with keeps less.prems(2) have I: "I w1" by blast
    show ?thesis
    proof (cases "\<exists>n. p = Ready (Inr n) \<and> 0 < n")
      case True
      then obtain n where n: "p = Ready (Inr n)" "0 < n" by blast
      with less.prems(1) \<open>bl_sent b < length (bl_buf b)\<close> pw
      have "backlog_poll_drain poll_write (b\<lparr>bl_sent := bl_sent b + n\<rparr>) w1 = (r, b', w')"
        by (simp add: backlog_poll_drain.simps [of poll_write b w])
      with less.hyps [of "b\<lparr>bl_sent := bl_sent b + n\<rparr>"] I n(2) \<open>bl_sent b < length (bl_buf b)\<close>
      show ?thesis by simp
    next
      case False
      then have "w' = w1"
        using less.prems(1) \<open>bl_sent b < length (bl_buf b)\<close> pw
        by (auto simp: backlog_poll_drain.simps [of poll_write b w] split: poll.splits sum.splits if_splits)
      with I show ?thesis by simp
    qed
  qed (use less.prems in \<open>simp add: backlog_poll_drain.simps [of poll_write b w]\<close>)
qed

text \<open>
  What a writer promises: it takes a prefix of what it is given and says how long, and takes nothing
  when it is not ready or fails.  \<open>taken\<close> is everything it has taken so far.
\<close>

locale byte_sink =
  fixes poll_write :: "'w \<Rightarrow> bytes \<Rightarrow> nat io_result poll \<times> 'w"
    and taken :: "'w \<Rightarrow> bytes"
  assumes wrote: "poll_write w b = (Ready (Inr n), w') \<Longrightarrow>
      n \<le> length b \<and> taken w' = taken w @ take n b"
    and refused: "poll_write w b = (Ready (Inl e), w') \<Longrightarrow> taken w' = taken w"
    and pending: "poll_write w b = (Pending, w') \<Longrightarrow> taken w' = taken w"
begin

lemma drain_conserves:
  assumes "backlog_poll_drain poll_write b w = (r, b', w')" and "backlog_ok b"
  shows "taken w' @ backlog_waiting b' = taken w @ backlog_waiting b \<and> backlog_ok b' \<and>
    (r = Ready (Inr ()) \<longrightarrow> backlog_waiting b' = [])"
  using assms
proof (induction "length (bl_buf b) - bl_sent b" arbitrary: b w rule: less_induct)
  case less
  show ?case
  proof (cases "bl_sent b < length (bl_buf b)")
    case False
    with less.prems show ?thesis
      by (auto simp: backlog_poll_drain.simps [of poll_write b w] backlog_waiting_def backlog_ok_def)
  next
    case True
    let ?rest = "drop (bl_sent b) (bl_buf b)"
    obtain p w1 where pw: "poll_write w ?rest = (p, w1)"
      by (cases "poll_write w ?rest")
    consider "p = Pending" | e where "p = Ready (Inl e)" | "p = Ready (Inr 0)"
      | n where "p = Ready (Inr n)" "0 < n"
      by (metis neq0_conv poll.exhaust sum.exhaust)
    then show ?thesis
    proof cases
      case (4 n)
      let ?b = "b\<lparr>bl_sent := bl_sent b + n\<rparr>"
      have took: "n \<le> length ?rest" "taken w1 = taken w @ take n ?rest"
        using wrote pw 4(1) by blast+
      have "backlog_poll_drain poll_write ?b w1 = (r, b', w')"
        using less.prems(1) True pw 4 by (simp add: backlog_poll_drain.simps [of poll_write b w])
      moreover have "backlog_ok ?b" "length (bl_buf ?b) - bl_sent ?b < length (bl_buf b) - bl_sent b"
        using took(1) True 4(2) by (auto simp: backlog_ok_def)
      ultimately have "taken w' @ backlog_waiting b' = taken w1 @ backlog_waiting ?b \<and> backlog_ok b' \<and>
          (r = Ready (Inr ()) \<longrightarrow> backlog_waiting b' = [])"
        using less.hyps by blast
      moreover have "taken w1 @ backlog_waiting ?b = taken w @ backlog_waiting b"
        by (simp add: took(2) backlog_waiting_def add.commute flip: drop_drop)
      ultimately show ?thesis by simp
    qed (use less.prems True pw wrote pending refused in
          \<open>fastforce simp: backlog_poll_drain.simps [of poll_write b w]\<close>)+
  qed
qed

lemma drain_done:
  assumes "backlog_poll_drain poll_write b w = (Ready (Inr ()), b', w')" and "backlog_ok b"
  shows "taken w' = taken w @ backlog_waiting b"
  using drain_conserves [OF assms] by (metis append_Nil2)

end

section \<open>The GATT transport\<close>

text \<open>
  What the channels a transport sits on answer: whether the outbound one has room and then takes the
  chunk, and what polling the inbound one yields.
\<close>

datatype outbound_answer =
    HasRoom bool   \<comment> \<open>ready, and whether \<open>start_send\<close> then found the receiver still there\<close>
  | NoRoom
  | ReceiverGone

datatype inbound_answer =
    Chunk bytes
  | NothingYet
  | ClientGone

record gatt_transport =
  g_chunk :: nat
  g_inbound :: "inbound_answer list"
  g_room :: "outbound_answer list"
  g_outbound :: "bytes list"
  g_pending :: bytes
  g_consumed :: nat

definition gatt_open :: "nat \<Rightarrow> inbound_answer list \<Rightarrow> outbound_answer list \<Rightarrow> gatt_transport" where
  "gatt_open chunk inbound room =
     \<lparr>g_chunk = chunk, g_inbound = inbound, g_room = room, g_outbound = [], g_pending = [], g_consumed = 0\<rparr>"

definition gatt_poll_write :: "gatt_transport \<Rightarrow> bytes \<Rightarrow> nat io_result poll \<times> gatt_transport" where
  "gatt_poll_write g buf =
     (if buf = [] then (Ready (Inr 0), g)
      else case g_room g of
             [] \<Rightarrow> (Pending, g)
           | NoRoom # room \<Rightarrow> (Pending, g\<lparr>g_room := room\<rparr>)
           | ReceiverGone # room \<Rightarrow> (Ready (Inl BrokenPipe), g\<lparr>g_room := room\<rparr>)
           | HasRoom sent # room \<Rightarrow>
               (let chunk = take (min (length buf) (g_chunk g)) buf
                in if sent
                   then (Ready (Inr (length chunk)), g\<lparr>g_room := room, g_outbound := g_outbound g @ [chunk]\<rparr>)
                   else (Ready (Inl BrokenPipe), g\<lparr>g_room := room\<rparr>)))"

text \<open>The outbound channel's own flush and close, which put nothing more on it.\<close>

definition gatt_poll_flush :: "gatt_transport \<Rightarrow> unit io_result poll \<times> gatt_transport" where
  "gatt_poll_flush g =
     (case g_room g of
        [] \<Rightarrow> (Pending, g)
      | NoRoom # room \<Rightarrow> (Pending, g\<lparr>g_room := room\<rparr>)
      | ReceiverGone # room \<Rightarrow> (Ready (Inl BrokenPipe), g\<lparr>g_room := room\<rparr>)
      | HasRoom _ # room \<Rightarrow> (Ready (Inr ()), g\<lparr>g_room := room\<rparr>))"

definition gatt_poll_close :: "gatt_transport \<Rightarrow> unit io_result poll \<times> gatt_transport" where
  "gatt_poll_close g =
     (case g_room g of
        [] \<Rightarrow> (Pending, g)
      | NoRoom # room \<Rightarrow> (Pending, g\<lparr>g_room := room\<rparr>)
      | ReceiverGone # room \<Rightarrow> (Ready (Inl BrokenPipe), g\<lparr>g_room := room\<rparr>)
      | HasRoom _ # room \<Rightarrow> (Ready (Inr ()), g\<lparr>g_room := room\<rparr>))"

text \<open>\<open>poll_read\<close> into a buffer of \<open>n\<close> bytes, answering with what was put in it.\<close>

function gatt_poll_read :: "nat \<Rightarrow> gatt_transport \<Rightarrow> bytes io_result poll \<times> gatt_transport" where
  "gatt_poll_read n g =
     (if g_consumed g < length (g_pending g)
      then let available = drop (g_consumed g) (g_pending g);
               k = min (length available) n;
               consumed = g_consumed g + k;
               g' = (if consumed = length (g_pending g) then g\<lparr>g_pending := [], g_consumed := 0\<rparr>
                     else g\<lparr>g_consumed := consumed\<rparr>)
           in (Ready (Inr (take k available)), g')
      else case g_inbound g of
             [] \<Rightarrow> (Pending, g)
           | NothingYet # rest \<Rightarrow> (Pending, g\<lparr>g_inbound := rest\<rparr>)
           | ClientGone # rest \<Rightarrow> (Ready (Inr []), g)
           | Chunk c # rest \<Rightarrow> gatt_poll_read n (g\<lparr>g_inbound := rest, g_pending := c, g_consumed := 0\<rparr>))"
  by pat_completeness auto
termination
  by (relation "measure (\<lambda>(_, g). length (g_inbound g))") auto

declare gatt_poll_read.simps [simp del]

lemma gatt_poll_write_cases:
  assumes "gatt_poll_write g buf = (r, g')"
  obtains (pending) "r = Pending" "g_outbound g' = g_outbound g" "g_chunk g' = g_chunk g"
  | (failed) "r = Ready (Inl BrokenPipe)" "g_outbound g' = g_outbound g" "g_chunk g' = g_chunk g"
  | (empty) "r = Ready (Inr 0)" "buf = []" "g' = g"
  | (sent) "r = Ready (Inr (min (length buf) (g_chunk g)))" "g_chunk g' = g_chunk g"
      "g_outbound g' = g_outbound g @ [take (min (length buf) (g_chunk g)) buf]"
proof (cases "buf = []")
  case True
  with assms empty show thesis by (simp add: gatt_poll_write_def)
next
  case False
  show thesis
  proof (cases "g_room g")
    case Nil
    with assms pending False show thesis by (auto simp: gatt_poll_write_def)
  next
    case (Cons a room)
    with assms False that show thesis
      by (cases a) (auto simp: gatt_poll_write_def Let_def split: if_splits)
  qed
qed

definition gatt_sent :: "gatt_transport \<Rightarrow> bytes" where
  "gatt_sent g = concat (g_outbound g)"

interpretation gatt_sink: byte_sink gatt_poll_write gatt_sent
proof unfold_locales
  fix w b n w' assume "gatt_poll_write w b = (Ready (Inr n), w')"
  then show "n \<le> length b \<and> gatt_sent w' = gatt_sent w @ take n b"
    by (cases rule: gatt_poll_write_cases) (auto simp: gatt_sent_def)
next
  fix w b e w' assume "gatt_poll_write w b = (Ready (Inl e), w')"
  then show "gatt_sent w' = gatt_sent w"
    by (cases rule: gatt_poll_write_cases) (auto simp: gatt_sent_def)
next
  fix w b w' assume "gatt_poll_write w b = (Pending, w')"
  then show "gatt_sent w' = gatt_sent w"
    by (cases rule: gatt_poll_write_cases) (auto simp: gatt_sent_def)
qed

section \<open>What reads yield\<close>

fun inbound_bytes :: "inbound_answer list \<Rightarrow> bytes" where
  "inbound_bytes [] = []"
| "inbound_bytes (Chunk c # rest) = c @ inbound_bytes rest"
| "inbound_bytes (NothingYet # rest) = inbound_bytes rest"
| "inbound_bytes (ClientGone # rest) = []"

text \<open>The bytes the client has written that no read has yielded.\<close>

definition gatt_unread :: "gatt_transport \<Rightarrow> bytes" where
  "gatt_unread g = drop (g_consumed g) (g_pending g) @ inbound_bytes (g_inbound g)"

lemma take_drop_split: "take n (drop m xs) @ drop (m + n) xs = drop m xs"
  by (metis add.commute append_take_drop_id drop_drop)

lemma gatt_poll_read_spec:
  assumes "0 < n" and "gatt_poll_read n g = (r, g')"
  shows "case r of
      Pending \<Rightarrow> gatt_unread g' = gatt_unread g
    | Ready (Inl e) \<Rightarrow> False
    | Ready (Inr bs) \<Rightarrow> gatt_unread g = bs @ gatt_unread g' \<and> length bs \<le> n \<and>
        (bs = [] \<longrightarrow> gatt_unread g = [])"
  using assms
proof (induction n g rule: gatt_poll_read.induct)
  case (1 n g)
  show ?case
  proof (cases "g_consumed g < length (g_pending g)")
    case True
    with "1.prems" show ?thesis
      by (auto simp: gatt_poll_read.simps [of n g] Let_def gatt_unread_def min_def take_drop_split
          simp flip: append_assoc split: if_splits)
  next
    case False
    show ?thesis
    proof (cases "\<exists>c rest. g_inbound g = Chunk c # rest")
      case True
      then obtain c rest where g: "g_inbound g = Chunk c # rest" by blast
      let ?g = "g\<lparr>g_inbound := rest, g_pending := c, g_consumed := 0\<rparr>"
      have u: "gatt_unread ?g = gatt_unread g"
        using False g by (simp add: gatt_unread_def)
      have "gatt_poll_read n ?g = (r, g')"
        using False g "1.prems" by (simp add: gatt_poll_read.simps [of n g])
      from "1.IH" [OF False g refl "1.prems"(1) this] show ?thesis
        by (simp only: u)
    next
      case no_chunk: False
      with False "1.prems" show ?thesis
        by (auto simp: gatt_poll_read.simps [of n g] gatt_unread_def
            split: list.splits inbound_answer.splits)
    qed
  qed
qed

section \<open>Routing what clients write\<close>

text \<open>
  \<open>InboundSink\<close>: the session each client's bytes go to, by the channel the session reads.  Each
  \<open>mpsc::channel\<close> is a new one, here the next number; whether \<open>try_send\<close> takes the bytes is the
  environment's.  What was delivered is kept, and which client each channel was opened for.
\<close>

record 'a inbound_sink =
  k_sessions :: "'a \<Rightarrow> nat option"
  k_next :: nat
  k_opened :: "(nat \<times> 'a) list"
  k_delivered :: "('a \<times> nat \<times> bytes) list"

definition sink_new :: "'a inbound_sink" where
  "sink_new = \<lparr>k_sessions = (\<lambda>_. None), k_next = 0, k_opened = [], k_delivered = []\<rparr>"

definition sink_deliver :: "bool \<Rightarrow> 'a \<Rightarrow> bytes \<Rightarrow> 'a inbound_sink \<Rightarrow> 'a inbound_sink" where
  "sink_deliver taken client bs k =
     (case k_sessions k client of
        None \<Rightarrow> k
      | Some ch \<Rightarrow>
          if taken then k\<lparr>k_delivered := k_delivered k @ [(client, ch, bs)]\<rparr>
          else k\<lparr>k_sessions := (k_sessions k)(client := None)\<rparr>)"

definition sink_install :: "'a \<Rightarrow> nat \<Rightarrow> 'a inbound_sink \<Rightarrow> 'a inbound_sink" where
  "sink_install client ch k = k\<lparr>k_sessions := (k_sessions k)(client := Some ch)\<rparr>"

definition sink_remove :: "'a \<Rightarrow> nat \<Rightarrow> 'a inbound_sink \<Rightarrow> 'a inbound_sink" where
  "sink_remove client ch k =
     (if k_sessions k client = Some ch then k\<lparr>k_sessions := (k_sessions k)(client := None)\<rparr> else k)"

text \<open>The part of \<open>GattTransport::open\<close> that creates the inbound channel and installs it.\<close>

definition sink_open :: "'a \<Rightarrow> 'a inbound_sink \<Rightarrow> 'a inbound_sink" where
  "sink_open client k =
     sink_install client (k_next k)
       (k\<lparr>k_next := k_next k + 1, k_opened := k_opened k @ [(k_next k, client)]\<rparr>)"

datatype 'a sink_event =
    Written bool 'a bytes
  | Opened 'a
  | Dropped 'a nat

fun sink_step :: "'a inbound_sink \<Rightarrow> 'a sink_event \<Rightarrow> 'a inbound_sink" where
  "sink_step k (Written taken client bs) = sink_deliver taken client bs k"
| "sink_step k (Opened client) = sink_open client k"
| "sink_step k (Dropped client ch) = sink_remove client ch k"

definition sink_ok :: "'a inbound_sink \<Rightarrow> bool" where
  "sink_ok k \<longleftrightarrow>
     distinct (map fst (k_opened k)) \<and> (\<forall>(ch, c) \<in> set (k_opened k). ch < k_next k) \<and>
     (\<forall>c ch. k_sessions k c = Some ch \<longrightarrow> (ch, c) \<in> set (k_opened k)) \<and>
     (\<forall>(c, ch, bs) \<in> set (k_delivered k). (ch, c) \<in> set (k_opened k))"

lemma sink_open_ok: "sink_ok k \<Longrightarrow> sink_ok (sink_open client k)"
  by (fastforce simp: sink_ok_def sink_open_def sink_install_def)

lemma sink_deliver_ok: "sink_ok k \<Longrightarrow> sink_ok (sink_deliver taken client bs k)"
  by (auto simp: sink_ok_def sink_deliver_def split: option.splits if_splits)

lemma sink_remove_ok: "sink_ok k \<Longrightarrow> sink_ok (sink_remove client ch k)"
  by (auto simp: sink_ok_def sink_remove_def)

interpretation inbound_routing: rooted_machine sink_step sink_ok sink_new
proof unfold_locales
  fix k :: "'a inbound_sink" and e
  assume "sink_ok k"
  then show "sink_ok (sink_step k e)"
    by (cases e) (simp_all add: sink_open_ok sink_deliver_ok sink_remove_ok)
next
  show "sink_ok (sink_new :: 'a inbound_sink)"
    by (simp add: sink_ok_def sink_new_def)
qed

section \<open>Properties\<close>

text \<open>Draining the backlog into the GATT transport loses, repeats and reorders nothing: what has
  gone out followed by what still waits is unchanged, a drain that reports success has sent it all,
  and no notification carries more than the link's chunk.\<close>

lemma gatt_drain_exact:
  assumes "backlog_poll_drain gatt_poll_write b g = (r, b', g')" and "backlog_ok b"
    and "\<forall>c \<in> set (g_outbound g). length c \<le> g_chunk g"
  shows "gatt_sent g' @ backlog_waiting b' = gatt_sent g @ backlog_waiting b
    \<and> (r = Ready (Inr ()) \<longrightarrow> backlog_waiting b' = [])
    \<and> (\<forall>c \<in> set (g_outbound g'). length c \<le> g_chunk g')"
proof -
  have "\<forall>c \<in> set (g_outbound g'). length c \<le> g_chunk g'"
  proof (rule backlog_drain_keeps [where I = "\<lambda>w. \<forall>c \<in> set (g_outbound w). length c \<le> g_chunk w",
        OF _ assms(1,3)])
    fix w bs r w'
    assume "\<forall>c \<in> set (g_outbound w). length c \<le> g_chunk w" and "gatt_poll_write w bs = (r, w')"
    then show "\<forall>c \<in> set (g_outbound w'). length c \<le> g_chunk w'"
      by (elim gatt_poll_write_cases) auto
  qed
  with gatt_sink.drain_conserves [OF assms(1,2)] show ?thesis by blast
qed

text \<open>Successive reads yield exactly the bytes the client wrote, in order and at most a buffer at a
  time; a read answers with nothing only when the client has gone and everything it wrote has been
  read.\<close>

lemma gatt_read_exact:
  assumes "0 < n" and "gatt_poll_read n g = (r, g')"
  shows "(\<forall>bs. r = Ready (Inr bs) \<longrightarrow> gatt_unread g = bs @ gatt_unread g' \<and> length bs \<le> n)
    \<and> (r = Ready (Inr []) \<longrightarrow> gatt_unread g = []) \<and> (r = Pending \<longrightarrow> gatt_unread g' = gatt_unread g)
    \<and> (\<forall>e. r \<noteq> Ready (Inl e))"
  using gatt_poll_read_spec [OF assms] by (auto split: poll.splits sum.splits)

text \<open>C37. However clients' sessions open and end and their bytes arrive, no channel ever carries the
  bytes of two clients, and a transport that ends after the same client subscribed again does not
  disturb the later session.\<close>

theorem inbound_isolation:
  assumes k: "k = foldl sink_step sink_new es"
    and "(c, ch, bs) \<in> set (k_delivered k)" and "(c', ch, bs') \<in> set (k_delivered k)"
  shows "c = c' \<and> (k_sessions k c = Some later \<longrightarrow> later \<noteq> ch \<longrightarrow>
    k_sessions (sink_remove c ch k) c = Some later)"
proof -
  have ok: "sink_ok k" unfolding k by (rule inbound_routing.reachable_inv)
  then have "(ch, c) \<in> set (k_opened k)" "(ch, c') \<in> set (k_opened k)" "distinct (map fst (k_opened k))"
    using assms(2,3) by (auto simp: sink_ok_def)
  then have "c = c'" by (metis eq_key_imp_eq_value)
  then show ?thesis by (simp add: sink_remove_def)
qed

theorem inbound_isolation_witness:
  "k_sessions (sink_remove 7 0 (foldl sink_step sink_new
     [Opened (7 :: nat), Written True 7 [1], Opened 7, Written True 7 [2]])) 7 = Some 1"
proof -
  let ?k = "foldl sink_step sink_new [Opened (7 :: nat), Written True 7 [1], Opened 7, Written True 7 [2]]"
  have d: "(7, 0, [1]) \<in> set (k_delivered ?k)" "k_sessions ?k 7 = Some 1"
    by (simp_all add: sink_new_def sink_open_def sink_install_def sink_deliver_def)
  from inbound_isolation [OF refl d(1) d(1), of 1] d(2) show ?thesis
    by (simp only: simp_thms one_neq_zero)
qed

end
