(* ===== verification/Slots.thy ===== *)
theory Slots
  imports Framing
begin

text \<open>
  The device transmit slots: the slot and allocation values both ends exchange
  (\<open>crates/bliti-core/src/slot.rs\<close>) and the table of which client holds which slot
  (\<open>crates/bliti/src/device/slots.rs\<close>).  The locale \<open>slot_provider\<close> is what serving a session relies
  on, and the table interprets it.
\<close>

section \<open>Slots and allocations\<close>

definition COUNT :: u8 where "COUNT = 8"

definition DEVICE_TX_BASE :: "128 word" where
  "DEVICE_TX_BASE = 0xa7aabad63fc24c9b953b03a70a193e00"

datatype slot = Slot (slot_number: u8)

definition slot_new :: "u8 \<Rightarrow> slot option" where
  "slot_new number = (if number < COUNT then Some (Slot number) else None)"

definition slot_all :: "slot list" where
  "slot_all = map (\<lambda>n. Slot (word_of_nat n)) [0 ..< unat COUNT]"

definition slot_uuid :: "slot \<Rightarrow> 128 word" where
  "slot_uuid s = Bit_Operations.or DEVICE_TX_BASE (ucast (slot_number s))"

definition MIN_ATT_MTU :: nat where "MIN_ATT_MTU = 23"

definition slot_payload :: "nat \<Rightarrow> nat" where
  "slot_payload mtu = max mtu MIN_ATT_MTU - 3"

datatype allocation = Given slot | Full

definition allocation_to_value :: "allocation \<Rightarrow> u16 \<Rightarrow> bytes" where
  "allocation_to_value a mtu =
     (case a of
        Given s \<Rightarrow> slot_number s # be_bytes 2 (unat mtu)
      | Full \<Rightarrow> [])"

datatype allocated = AllocatedGiven slot u16 | AllocatedFull
datatype bad_allocation = NoSuchSlot u8 | BadLength nat

definition allocated_from_value :: "bytes \<Rightarrow> bad_allocation + allocated" where
  "allocated_from_value value =
     (case value of
        [] \<Rightarrow> Inr AllocatedFull
      | [number, high, low] \<Rightarrow>
          (case slot_new number of
             Some s \<Rightarrow> Inr (AllocatedGiven s (word_of_nat (be_value [high, low])))
           | None \<Rightarrow> Inl (NoSuchSlot number))
      | _ \<Rightarrow> Inl (BadLength (length value)))"

lemma unat_COUNT [simp]: "unat COUNT = 8"
  by (simp add: COUNT_def)

lemma slot_new_Some_iff: "slot_new n = Some s \<longleftrightarrow> s = Slot n \<and> unat n < 8"
  by (auto simp: slot_new_def word_less_nat_alt)

lemma be_value_two: "be_value [h, l] = unat h * 256 + unat l"
  by (simp add: be_value_def)

section \<open>The table\<close>

text \<open>
  The holder of each slot in order.  \<open>find\<close> narrows the position to a byte, which panics past 255;
  a table never has more than \<open>COUNT\<close> entries (\<open>slots_ok\<close>), so the panic has no branch here.
\<close>

type_synonym 'a slots = "'a option list"

definition slots_new :: "u8 \<Rightarrow> 'a slots" where
  "slots_new count = replicate (unat (min count COUNT)) None"

definition slots_find :: "'a slots \<Rightarrow> 'a option \<Rightarrow> slot option" where
  "slots_find held holder =
     (case position (\<lambda>h. h = holder) held of
        None \<Rightarrow> None
      | Some number \<Rightarrow> slot_new (word_of_nat number))"

definition slots_free_gone :: "('a \<Rightarrow> bool) \<Rightarrow> 'a slots \<Rightarrow> 'a slots" where
  "slots_free_gone connected held =
     map (\<lambda>holder. case holder of None \<Rightarrow> None | Some a \<Rightarrow> if connected a then Some a else None) held"

definition slots_allocate :: "'a \<Rightarrow> ('a \<Rightarrow> bool) \<Rightarrow> 'a slots \<Rightarrow> allocation \<times> 'a slots" where
  "slots_allocate client connected held =
     (case slots_find held (Some client) of
        Some s \<Rightarrow> (Given s, held)
      | None \<Rightarrow>
          (let held = (if slots_find held None = None then slots_free_gone connected held else held)
           in case slots_find held None of
                Some s \<Rightarrow> (Given s, held[unat (slot_number s) := Some client])
              | None \<Rightarrow> (Full, held)))"

text \<open>\<open>holds\<close> indexes the table, and panics (\<open>None\<close>) on a slot the table does not have.\<close>

definition slots_holds :: "slot \<Rightarrow> 'a \<Rightarrow> 'a slots \<Rightarrow> bool option" where
  "slots_holds s client held =
     (if unat (slot_number s) < length held then Some (held ! unat (slot_number s) = Some client)
      else None)"

text \<open>No client is in the table twice, and the table is no longer than the slots a device offers.\<close>

definition slots_ok :: "'a slots \<Rightarrow> bool" where
  "slots_ok held \<longleftrightarrow> length held \<le> 8 \<and>
     (\<forall>i < length held. \<forall>j < length held. held ! i = held ! j \<longrightarrow> held ! i \<noteq> None \<longrightarrow> i = j)"

lemma slots_new_ok: "slots_ok (slots_new count)"
  by (simp add: slots_ok_def slots_new_def min_def word_le_nat_alt)

lemma unat_small: "n < 8 \<Longrightarrow> unat (word_of_nat n :: u8) = n"
  by (simp add: unat_of_nat)

lemma slots_find_SomeD:
  assumes "slots_find held h = Some s" and "slots_ok held"
  shows "unat (slot_number s) < length held \<and> held ! unat (slot_number s) = h"
proof -
  obtain i where i: "position (\<lambda>x. x = h) held = Some i" "slot_new (word_of_nat i) = Some s"
    using assms(1) by (auto simp: slots_find_def split: option.splits)
  have "i < length held" "held ! i = h" using position_SomeD [OF i(1)] by simp_all
  moreover from this assms(2) have "unat (slot_number s) = i"
    using i(2) by (auto simp: slot_new_Some_iff slots_ok_def unat_small)
  ultimately show ?thesis by simp
qed

lemma slots_find_None_iff:
  assumes "slots_ok held"
  shows "slots_find held h = None \<longleftrightarrow> h \<notin> set held"
proof (cases "position (\<lambda>x. x = h) held")
  case None
  then have "h \<notin> set held" by (auto simp: position_None_iff)
  with None show ?thesis by (simp add: slots_find_def)
next
  case (Some i)
  with position_SomeD [OF Some] assms have "i < 8" "h \<in> set held" by (auto simp: slots_ok_def)
  with Some show ?thesis by (simp add: slots_find_def slot_new_def word_less_nat_alt unat_small)
qed

lemma slots_free_gone_nth:
  "i < length held \<Longrightarrow> slots_free_gone connected held ! i =
     (case held ! i of None \<Rightarrow> None | Some a \<Rightarrow> if connected a then Some a else None)"
  by (simp add: slots_free_gone_def)

lemma length_slots_free_gone [simp]: "length (slots_free_gone connected held) = length held"
  by (simp add: slots_free_gone_def)

lemma slots_free_gone_ok: "slots_ok held \<Longrightarrow> slots_ok (slots_free_gone connected held)"
  by (fastforce simp: slots_ok_def slots_free_gone_nth split: option.splits if_splits)

lemma slots_take_ok:
  assumes "slots_ok held" and "Some c \<notin> set held"
  shows "slots_ok (held[i := Some c])"
proof (cases "i < length held")
  case True
  with assms show ?thesis unfolding slots_ok_def
    by (auto simp: nth_list_update in_set_conv_nth split: if_splits)
qed (use assms in \<open>simp add: list_update_beyond\<close>)

text \<open>One allocation, branch by branch.\<close>

lemma slots_allocate_cases:
  assumes "slots_ok held" and "slots_allocate c connected held = (a, held')"
  obtains (again) s where "a = Given s" "held' = held" "unat (slot_number s) < length held"
      "held ! unat (slot_number s) = Some c"
  | (given) s base where "a = Given s" "base = held \<or> base = slots_free_gone connected held"
      "Some c \<notin> set held" "unat (slot_number s) < length held" "base ! unat (slot_number s) = None"
      "held' = base[unat (slot_number s) := Some c]"
  | (full) "a = Full" "Some c \<notin> set held" "None \<notin> set held"
      "\<forall>h \<in> set held. \<forall>b. h = Some b \<longrightarrow> connected b" "held' = held"
proof (cases "slots_find held (Some c)")
  case (Some s)
  with slots_find_SomeD [OF Some assms(1)] assms(2) again show thesis
    by (auto simp: slots_allocate_def)
next
  case None
  then have absent: "Some c \<notin> set held" using slots_find_None_iff [OF assms(1)] by blast
  let ?base = "if slots_find held None = None then slots_free_gone connected held else held"
  have ok: "slots_ok ?base" using assms(1) slots_free_gone_ok by auto
  show thesis
  proof (cases "slots_find ?base None")
    case (Some s)
    from slots_find_SomeD [OF Some ok] have "unat (slot_number s) < length held"
      "?base ! unat (slot_number s) = None" by (auto split: if_splits)
    moreover have "a = Given s" "held' = ?base[unat (slot_number s) := Some c]"
      using assms(2) None Some by (auto simp: slots_allocate_def Let_def)
    moreover have "?base = held \<or> ?base = slots_free_gone connected held" by simp
    ultimately show thesis using given [of s ?base] absent by blast
  next
    case full_table: None
    then have none: "None \<notin> set ?base" using slots_find_None_iff [OF ok] by blast
    with full_table have all: "None \<notin> set held" and base: "?base = slots_free_gone connected held"
      using slots_find_None_iff [OF assms(1)] by (auto split: if_splits)
    have conn: "\<forall>h \<in> set held. \<forall>b. h = Some b \<longrightarrow> connected b"
      using none unfolding base by (force simp: slots_free_gone_def split: if_splits)
    have "slots_free_gone connected held = held"
      unfolding slots_free_gone_def using conn by (intro map_idI) (auto split: option.splits)
    with assms(2) None full_table base full absent all conn show thesis
      by (simp add: slots_allocate_def Let_def split: if_splits)
  qed
qed

lemma slots_allocate_ok:
  assumes "slots_ok held" shows "slots_ok (snd (slots_allocate c connected held))"
proof -
  obtain a held' where alloc: "slots_allocate c connected held = (a, held')" by fastforce
  from assms alloc show ?thesis
  proof (cases rule: slots_allocate_cases)
    case (given s base)
    have "slots_ok base" "Some c \<notin> set base"
      using given(2,3) assms slots_free_gone_ok by (auto simp: slots_free_gone_def split: option.splits if_splits)
    with given alloc show ?thesis by (simp add: slots_take_ok)
  qed (use assms alloc in auto)
qed

section \<open>What serving a session relies on\<close>

locale slot_provider =
  fixes give :: "'c \<Rightarrow> ('c \<Rightarrow> bool) \<Rightarrow> 't \<Rightarrow> allocation \<times> 't"
    and held_by :: "slot \<Rightarrow> 'c \<Rightarrow> 't \<Rightarrow> bool option"
    and ok :: "'t \<Rightarrow> bool"
  assumes give_ok: "ok t \<Longrightarrow> ok (snd (give c conn t))"
    and give_holds: "ok t \<Longrightarrow> give c conn t = (Given s, t') \<Longrightarrow> held_by s c t' = Some True"
    and give_keeps: "ok t \<Longrightarrow> held_by s b t = Some True \<Longrightarrow> conn b \<Longrightarrow>
        held_by s b (snd (give c conn t)) = Some True"
    and held_once: "ok t \<Longrightarrow> held_by s b t = Some True \<Longrightarrow> held_by s' b t = Some True \<Longrightarrow> s = s'"
    and held_alone: "ok t \<Longrightarrow> held_by s b t = Some True \<Longrightarrow> held_by s c t = Some True \<Longrightarrow> b = c"
begin

text \<open>A client keeps its slot for as long as every later allocation finds it connected.\<close>

lemma kept_while_connected:
  assumes "ok t" and "held_by s b t = Some True" and "\<forall>(c, conn) \<in> set reads. conn b"
  shows "held_by s b (foldl (\<lambda>t (c, conn). snd (give c conn t)) t reads) = Some True"
  using assms
proof (induction reads arbitrary: t)
  case (Cons r reads)
  obtain c conn where r: "r = (c, conn)" by (cases r)
  with Cons show ?case by (auto simp: give_ok give_keeps)
qed simp

lemma run_ok: "ok t \<Longrightarrow> ok (foldl (\<lambda>t (c, conn). snd (give c conn t)) t reads)"
  by (induction reads arbitrary: t) (auto simp: give_ok)

end

lemma slots_holds_iff:
  "slots_holds s c held = Some True \<longleftrightarrow> unat (slot_number s) < length held \<and> held ! unat (slot_number s) = Some c"
  by (simp add: slots_holds_def)

lemma slots_allocate_keeps:
  assumes "slots_ok held" and "slots_holds s b held = Some True" and "connected b"
  shows "slots_holds s b (snd (slots_allocate c connected held)) = Some True"
proof -
  obtain a held' where alloc: "slots_allocate c connected held = (a, held')" by fastforce
  from assms(1) alloc show ?thesis
  proof (cases rule: slots_allocate_cases)
    case (given s' base)
    let ?i = "unat (slot_number s)" and ?j = "unat (slot_number s')"
    have len: "length base = length held" using given(2) by auto
    have "base ! ?i = Some b"
      using given(2) assms(2,3) by (auto simp: slots_holds_iff slots_free_gone_nth)
    moreover from this given(5) have "?i \<noteq> ?j" by auto
    ultimately show ?thesis
      using alloc given assms(2) len by (simp add: slots_holds_iff)
  qed (use alloc assms in auto)
qed

interpretation slot_table: slot_provider slots_allocate slots_holds slots_ok
proof unfold_locales
  fix held :: "'a slots" and c conn s held'
  assume "slots_ok held" and alloc: "slots_allocate c conn held = (Given s, held')"
  then show "slots_holds s c held' = Some True"
  proof (cases rule: slots_allocate_cases)
    case (given s' base)
    then show ?thesis by (auto simp: slots_holds_iff)
  qed (auto simp: slots_holds_iff)
next
  fix held :: "'a slots" and s s' b
  assume "slots_ok held" "slots_holds s b held = Some True" "slots_holds s' b held = Some True"
  then have "unat (slot_number s) = unat (slot_number s')"
    by (auto simp: slots_ok_def slots_holds_iff)
  then show "s = s'" by (cases s; cases s') (simp add: word_unat_eq_iff)
qed (auto simp: slots_allocate_ok slots_allocate_keeps slots_holds_iff)

section \<open>Properties\<close>

text \<open>A client reading the allocation learns exactly the device's decision, with the negotiated
  ATT_MTU where a slot is given; a value of another length, or a slot the device does not offer, is
  refused as such.\<close>

lemma allocation_roundtrip:
  assumes "slot_new n = Some s"
  shows "allocated_from_value (allocation_to_value (Given s) mtu) = Inr (AllocatedGiven s mtu)
    \<and> allocated_from_value (allocation_to_value Full mtu) = Inr AllocatedFull
    \<and> (\<forall>v. length v \<noteq> 0 \<longrightarrow> length v \<noteq> 3 \<longrightarrow> allocated_from_value v = Inl (BadLength (length v)))
    \<and> (\<forall>m h l. 8 \<le> unat m \<longrightarrow> allocated_from_value [m, h, l] = Inl (NoSuchSlot m))"
proof -
  obtain h l where hl: "be_bytes 2 (unat mtu) = [h, l]"
    using length_be_bytes [of 2 "unat mtu"] by (metis (no_types) length_0_conv length_Suc_conv numeral_2_eq_2)
  have "be_value [h, l] = unat mtu mod 256 ^ 2"
    unfolding hl [symmetric] by (rule be_value_be_bytes)
  also have "unat mtu < 65536"
    using unsigned_less [of mtu] by simp
  then have "unat mtu mod 256 ^ 2 = unat mtu" by simp
  finally have mtu: "word_of_nat (be_value [h, l]) = mtu" by simp
  have s: "slot_number s = n" using assms by (simp add: slot_new_Some_iff)
  have "allocated_from_value v = Inl (BadLength (length v))" if "length v \<noteq> 0" "length v \<noteq> 3" for v
    using that by (auto simp: allocated_from_value_def split: list.splits)
  then show ?thesis
    using assms s mtu
    by (auto simp: allocation_to_value_def allocated_from_value_def hl slot_new_def word_less_nat_alt)
qed

lemma allocation_roundtrip_witness:
  "allocated_from_value (allocation_to_value (Given (Slot 2)) 517) = Inr (AllocatedGiven (Slot 2) 517)"
  using allocation_roundtrip [of 2 "Slot 2" 517] by (simp add: slot_new_def COUNT_def)

text \<open>C30. A client given a slot is its only holder, and keeps it through every later allocation that
  finds it connected, whoever reads the allocation and whoever else has gone.\<close>

theorem slot_kept_while_connected:
  assumes "slots_allocate c conn (foldl (\<lambda>t (c, conn). snd (slots_allocate c conn t)) (slots_new count) earlier)
      = (Given s, held)"
    and "\<forall>(b, conn) \<in> set later. conn c"
  defines "held' \<equiv> foldl (\<lambda>t (c, conn). snd (slots_allocate c conn t)) held later"
  shows "slots_holds s c held' = Some True \<and> (\<forall>b. slots_holds s b held' = Some True \<longrightarrow> b = c)
    \<and> (\<forall>s'. slots_holds s' c held' = Some True \<longrightarrow> s' = s)"
proof -
  let ?before = "foldl (\<lambda>t (c, conn). snd (slots_allocate c conn t)) (slots_new count) earlier"
  have before: "slots_ok ?before" by (rule slot_table.run_ok [OF slots_new_ok])
  have given: "slots_holds s c held = Some True"
    using slot_table.give_holds [OF before assms(1)] .
  have held: "slots_ok held"
    using slots_allocate_ok [OF before, of c conn] assms(1) by simp
  have ok: "slots_ok held'"
    unfolding held'_def by (rule slot_table.run_ok [OF held])
  have holds: "slots_holds s c held' = Some True"
    unfolding held'_def by (rule slot_table.kept_while_connected [OF held given assms(2)])
  show ?thesis
    by (intro conjI allI impI)
      (rule holds, erule slot_table.held_alone [OF ok _ holds], erule slot_table.held_once [OF ok _ holds])
qed

theorem slot_kept_while_connected_witness:
  "slots_holds (Slot 0) (1 :: nat)
     (foldl (\<lambda>t (c, conn). snd (slots_allocate c conn t)) [Some 1] [(2, \<lambda>b. b = 1)]) = Some True"
proof -
  have "slots_allocate (1 :: nat) (\<lambda>_. True)
      (foldl (\<lambda>t (c, conn). snd (slots_allocate c conn t)) (slots_new 1) []) = (Given (Slot 0), [Some 1])"
    by (simp add: slots_allocate_def slots_find_def slots_new_def slot_new_def COUNT_def min_def Let_def)
  moreover have "\<forall>(b, conn) \<in> set [(2, \<lambda>b. b = 1)]. conn (1 :: nat)" by simp
  ultimately show ?thesis by (rule slot_kept_while_connected [THEN conjunct1])
qed

text \<open>A client is turned away only when every slot is held by another client that is still
  connected, and then nothing changes.\<close>

lemma allocate_full_iff:
  assumes "slots_ok held"
  shows "(fst (slots_allocate c connected held) = Full \<longleftrightarrow>
      (\<forall>h \<in> set held. \<exists>b. h = Some b \<and> b \<noteq> c \<and> connected b))
    \<and> (fst (slots_allocate c connected held) = Full \<longrightarrow> snd (slots_allocate c connected held) = held)"
proof -
  obtain a held' where alloc: "slots_allocate c connected held = (a, held')" by fastforce
  from assms alloc
  have "(a = Full \<longleftrightarrow> (\<forall>h \<in> set held. \<exists>b. h = Some b \<and> b \<noteq> c \<and> connected b)) \<and> (a = Full \<longrightarrow> held' = held)"
  proof (cases rule: slots_allocate_cases)
    case (again s)
    then have "Some c \<in> set held" by (metis nth_mem)
    with again show ?thesis by auto
  next
    case (given s base)
    let ?h = "held ! unat (slot_number s)"
    have "?h \<in> set held" using given(4) by simp
    moreover have "\<forall>b. ?h = Some b \<longrightarrow> \<not> connected b"
      using given(2,4,5) by (auto simp: slots_free_gone_nth split: if_splits)
    ultimately show ?thesis using given(1) by auto
  next
    case full
    then show ?thesis by (metis option.exhaust)
  qed
  with alloc show ?thesis by simp
qed

text \<open>In provisioning mode, where one slot is given out but all eight are offered, asking whether
  a client holds any slot but the first runs off the end of the table instead of answering no.\<close>

lemma provisioning_holds_panics:
  assumes "slot_new n = Some s" and "n \<noteq> 0"
  shows "slots_holds s c (foldl (\<lambda>t (c, conn). snd (slots_allocate c conn t)) (slots_new 1) reads) = None"
proof -
  have len: "length (snd (slots_allocate c conn held)) = length held" for c :: 'a and conn held
    by (auto simp: slots_allocate_def Let_def split: option.splits)
  have "length (foldl (\<lambda>t (c, conn). snd (slots_allocate c conn t)) held reads) = length held" for held :: "'a slots"
    by (induction reads arbitrary: held) (auto simp: len)
  moreover have "length (slots_new 1 :: 'a slots) = 1" by (simp add: slots_new_def COUNT_def min_def)
  moreover have "0 < unat (slot_number s)"
    using assms by (simp add: slot_new_Some_iff unat_gt_0)
  ultimately show ?thesis by (simp add: slots_holds_def)
qed

end
