(* ===== verification/Pacing.thy ===== *)
theory Pacing
  imports Prelude
begin

text \<open>
  The device's send rate, \<open>crates/bliti/src/device/pacing.rs\<close>, shared by every session's pump
  (\<open>serve_session\<close> of \<open>device/sessions.rs\<close>).  Instants and durations are nanoseconds.  A pump's sleep
  ends when it is due or later, so every request carries how late its chunk goes out.
\<close>

definition NOTIFY_BYTES_A_SECOND :: nat where "NOTIFY_BYTES_A_SECOND = 40 * 1024"
definition NOTIFY_PACING_SLACK :: nat where "NOTIFY_PACING_SLACK = 5000000"

text \<open>\<open>len as u64 * 1_000_000_000\<close> is a \<open>u64\<close> product: past \<open>2 ^ 64\<close> it wraps in a release build.\<close>

definition notify_pacing :: "nat \<Rightarrow> nat" where
  "notify_pacing len = ((len * 1000000000) mod 2 ^ 64) div NOTIFY_BYTES_A_SECOND"

record pacer =
  next_send :: nat

definition pacer_new :: "nat \<Rightarrow> pacer" where
  "pacer_new now = \<lparr>next_send = now\<rparr>"

text \<open>\<open>checked_duration_since\<close> is \<open>None\<close> where \<open>now\<close> is past the schedule.\<close>

definition wait_for :: "nat \<Rightarrow> nat \<Rightarrow> pacer \<Rightarrow> nat option \<times> pacer" where
  "wait_for now len p =
     (let (wait, p) =
            (if now \<le> next_send p
             then let wait = next_send p - now
                  in (if NOTIFY_PACING_SLACK \<le> wait then Some wait else None, p)
             else (None, p\<lparr>next_send := now\<rparr>))
      in (wait, p\<lparr>next_send := next_send p + notify_pacing len\<rparr>))"

text \<open>
  When a chunk asked for at \<open>now\<close> goes on the air: once the pump has slept out its wait and the notifier
  has taken it, \<open>late\<close> after it was due.
\<close>

definition send_time :: "nat \<Rightarrow> nat option \<Rightarrow> nat \<Rightarrow> nat" where
  "send_time now wait late = now + (case wait of None \<Rightarrow> 0 | Some w \<Rightarrow> w) + late"

text \<open>The chunks every session puts through the pacer, each with when it was asked for, its length and
  how late it goes out: when each goes out, and its length.\<close>

fun pace :: "pacer \<Rightarrow> (nat \<times> nat \<times> nat) list \<Rightarrow> (nat \<times> nat) list" where
  "pace p [] = []"
| "pace p ((now, len, late) # reqs) =
     (let (wait, p') = wait_for now len p in (send_time now wait late, len) # pace p' reqs)"

section \<open>The schedule\<close>

lemma wait_for_next: "next_send (snd (wait_for now len p)) = max now (next_send p) + notify_pacing len"
  by (auto simp: wait_for_def Let_def max_def)

lemma send_time_upper: "send_time now (fst (wait_for now len p)) late \<le> max now (next_send p) + late"
  by (auto simp: wait_for_def send_time_def Let_def)

lemma send_time_lower: "next_send p \<le> send_time now (fst (wait_for now len p)) late + NOTIFY_PACING_SLACK"
  by (auto simp: wait_for_def send_time_def Let_def)

lemma pace_Cons: "pace p ((now, len, late) # reqs) =
    (send_time now (fst (wait_for now len p)) late, len) # pace (snd (wait_for now len p)) reqs"
  by (simp add: case_prod_unfold Let_def)

lemma length_pace [simp]: "length (pace p reqs) = length reqs"
  by (induction reqs arbitrary: p) (auto simp: case_prod_unfold Let_def)

text \<open>The time the chunks of some requests take, and their bytes.\<close>

definition time_of :: "(nat \<times> nat \<times> nat) list \<Rightarrow> nat" where
  "time_of reqs = (\<Sum>(_, len, _) \<leftarrow> reqs. notify_pacing len)"

definition bytes_of :: "(nat \<times> nat \<times> nat) list \<Rightarrow> nat" where
  "bytes_of reqs = (\<Sum>(_, len, _) \<leftarrow> reqs. len)"

lemma bytes_of_time:
  assumes "\<forall>(now, len, late) \<in> set reqs. len * 1000000000 < 2 ^ 64"
  shows "1000000000 * bytes_of reqs \<le> 40960 * (time_of reqs + length reqs)"
    and "40960 * time_of reqs \<le> 1000000000 * bytes_of reqs"
proof -
  have "1000000000 * bytes_of reqs \<le> 40960 * (time_of reqs + length reqs)
      \<and> 40960 * time_of reqs \<le> 1000000000 * bytes_of reqs"
    using assms
  proof (induction reqs)
    case (Cons r reqs)
    obtain now len late where r: "r = (now, len, late)" by (cases r)
    have "notify_pacing len = len * 1000000000 div 40960"
      using Cons.prems by (simp add: r notify_pacing_def NOTIFY_BYTES_A_SECOND_def)
    then have "1000000000 * len \<le> 40960 * (notify_pacing len + 1) \<and> 40960 * notify_pacing len \<le> 1000000000 * len"
      using div_mult_mod_eq [of "len * 1000000000" 40960] mod_less_divisor [of 40960 "len * 1000000000"]
      by (simp del: div_mult_mod_eq)
    with Cons show ?case by (simp add: r bytes_of_def time_of_def)
  qed (simp add: bytes_of_def time_of_def)
  then show "1000000000 * bytes_of reqs \<le> 40960 * (time_of reqs + length reqs)"
    and "40960 * time_of reqs \<le> 1000000000 * bytes_of reqs" by simp_all
qed

text \<open>Nothing goes out earlier than the schedule less the slack, counting all that was asked before it.\<close>

lemma pace_lower:
  "j < length reqs \<Longrightarrow>
     next_send p + time_of (take j reqs) \<le> fst (pace p reqs ! j) + NOTIFY_PACING_SLACK"
proof (induction reqs arbitrary: p j)
  case (Cons r reqs)
  obtain now len late where r: "r = (now, len, late)" by (cases r)
  show ?case
  proof (cases j)
    case 0
    then show ?thesis by (simp add: r pace_Cons send_time_lower time_of_def del: pace.simps(2))
  next
    case (Suc i)
    with Cons.prems Cons.IH [of i "snd (wait_for now len p)"]
    show ?thesis by (simp add: r pace_Cons wait_for_next time_of_def del: pace.simps(2))
  qed
qed simp

lemma pace_window:
  "i \<le> j \<Longrightarrow> j < length reqs \<Longrightarrow>
     fst (pace p reqs ! i) + time_of (drop i (take j reqs))
       \<le> fst (pace p reqs ! j) + snd (snd (reqs ! i)) + NOTIFY_PACING_SLACK"
proof (induction reqs arbitrary: p i j)
  case (Cons r reqs)
  obtain now len late where r: "r = (now, len, late)" by (cases r)
  let ?p = "snd (wait_for now len p)"
  show ?case
  proof (cases j)
    case 0
    with Cons.prems show ?thesis by (simp add: time_of_def)
  next
    case (Suc k)
    show ?thesis
    proof (cases i)
      case 0
      have "k < length reqs" using Suc Cons.prems by simp
      from pace_lower [OF this, of ?p] send_time_upper [of now len p late]
      show ?thesis
        by (simp add: 0 Suc r pace_Cons wait_for_next time_of_def del: pace.simps(2))
    next
      case (Suc i')
      with \<open>j = Suc k\<close> Cons show ?thesis by (simp add: r pace_Cons del: pace.simps(2))
    qed
  qed
qed simp

text \<open>And nothing waits for more than what was asked before it takes.\<close>

lemma pace_upper:
  "j < length reqs \<Longrightarrow> sorted (map fst reqs) \<Longrightarrow>
     fst (pace p reqs ! j) \<le> max (fst (reqs ! j)) (next_send p) + time_of (take j reqs) + snd (snd (reqs ! j))"
proof (induction reqs arbitrary: p j)
  case (Cons r reqs)
  obtain now len late where r: "r = (now, len, late)" by (cases r)
  show ?case
  proof (cases j)
    case 0
    then show ?thesis using send_time_upper [of now len p late]
      by (simp add: r pace_Cons time_of_def del: pace.simps(2))
  next
    case (Suc i)
    with Cons.prems have "i < length reqs" "sorted (map fst reqs)" "now \<le> fst (reqs ! i)" by (auto simp: r)
    with Cons.IH [of i "snd (wait_for now len p)"] show ?thesis
      by (simp add: Suc r pace_Cons wait_for_next time_of_def del: pace.simps(2))
  qed
qed simp

section \<open>Properties\<close>

text \<open>C39. Whatever the sessions ask to send, whenever they ask and however late a pump wakes, from one chunk
  going out up to another asked for after it no more than 40960 bytes a second are asked for and sent,
  but for five milliseconds, a nanosecond for each chunk, and the time the first of them went out late:
  the rate is kept over every stretch, not just on average.  And nothing is held back for longer than
  everything asked for before it takes at that rate.  Chunks are taken to be shorter than the 18
  gigabytes at which the product of the code wraps.\<close>

theorem pacing_rate:
  assumes "i \<le> j" and "j < length reqs"
    and "\<forall>(now, len, late) \<in> set reqs. len * 1000000000 < 2 ^ 64"
  shows "1000000000 * (\<Sum>(_, len, _) \<leftarrow> drop i (take j reqs). len) + 40960 * fst (pace (pacer_new start) reqs ! i)
    \<le> 40960 * (fst (pace (pacer_new start) reqs ! j) + snd (snd (reqs ! i)) + 5000000 + (j - i))
    \<and> (sorted (start # map fst reqs) \<longrightarrow>
       40960 * fst (pace (pacer_new start) reqs ! j)
         \<le> 40960 * (fst (reqs ! j) + snd (snd (reqs ! j))) + 1000000000 * (\<Sum>(_, len, _) \<leftarrow> take j reqs. len))"
proof
  let ?part = "drop i (take j reqs)"
  have "\<forall>(now, len, late) \<in> set ?part. len * 1000000000 < 2 ^ 64"
    using assms(3) by (auto dest!: in_set_dropD in_set_takeD)
  from bytes_of_time(1) [OF this] pace_window [OF assms(1,2), of "pacer_new start"] assms(1,2)
  show "1000000000 * (\<Sum>(_, len, _) \<leftarrow> ?part. len) + 40960 * fst (pace (pacer_new start) reqs ! i)
    \<le> 40960 * (fst (pace (pacer_new start) reqs ! j) + snd (snd (reqs ! i)) + 5000000 + (j - i))"
    by (simp add: bytes_of_def NOTIFY_PACING_SLACK_def)
  have "\<forall>(now, len, late) \<in> set (take j reqs). len * 1000000000 < 2 ^ 64"
    using assms(3) by (auto dest!: in_set_takeD)
  note part = bytes_of_time(2) [OF this]
  show "sorted (start # map fst reqs) \<longrightarrow>
       40960 * fst (pace (pacer_new start) reqs ! j)
         \<le> 40960 * (fst (reqs ! j) + snd (snd (reqs ! j))) + 1000000000 * (\<Sum>(_, len, _) \<leftarrow> take j reqs. len)"
  proof
    assume "sorted (start # map fst reqs)"
    then have "sorted (map fst reqs)" "start \<le> fst (reqs ! j)" using assms(2) by auto
    with pace_upper [OF assms(2) this(1), of "pacer_new start"] part
    show "40960 * fst (pace (pacer_new start) reqs ! j)
         \<le> 40960 * (fst (reqs ! j) + snd (snd (reqs ! j))) + 1000000000 * (\<Sum>(_, len, _) \<leftarrow> take j reqs. len)"
      by (simp add: bytes_of_def pacer_new_def max_absorb1)
  qed
qed

theorem pacing_rate_witness:
  "let out = pace (pacer_new 0) [(0, 409, 0), (0, 409, 1000), (0, 20, 0)] in
     out = [(0, 409), (9986351, 409), (19970702, 20)]
     \<and> 1000000000 * (409 + 409) \<le> 40960 * (19970702 + 5000000 + (2 :: nat))
     \<and> 40960 * 19970702 \<le> 1000000000 * (409 + 409 :: nat)"
proof -
  let ?reqs = "[(0, 409, 0), (0, 409, 1000), (0, 20, 0)] :: (nat \<times> nat \<times> nat) list"
  have run: "pace (pacer_new 0) ?reqs = [(0, 409), (9986351, 409), (19970702, 20)]"
    by (simp add: pacer_new_def wait_for_def send_time_def notify_pacing_def NOTIFY_BYTES_A_SECOND_def
        NOTIFY_PACING_SLACK_def Let_def)
  from pacing_rate [of 0 2 ?reqs 0] run show ?thesis by simp
qed

text \<open>
  The five milliseconds are more than the specification of the channel gives: it allows 40 KiB in any
  one-second window, and here 40 KiB and a chunk go out within 995 milliseconds.
\<close>

lemma slack_is_over_the_ceiling:
  "pace (pacer_new 0) [(0, 40960, 0), (995000001, 20, 0)] = [(0, 40960), (995000001, 20)]"
  by (simp add: pacer_new_def wait_for_def send_time_def notify_pacing_def NOTIFY_BYTES_A_SECOND_def
      NOTIFY_PACING_SLACK_def Let_def)

end
