(* ===== verification/Air_Window.thy ===== *)
theory Air_Window
  imports Prelude
begin

text \<open>
  When a device in provisioning mode is on the air, \<open>crates/bliti/src/provision/window.rs\<close>: the
  window a press of the button opens, and the loop that keeps the advertisement registered while it
  is open.  Instants and durations are nanoseconds.
\<close>

definition WINDOW :: nat where "WINDOW = 5 * 60 * 1000000000"
definition RETRY :: nat where "RETRY = 1000000000"
definition RETRY_MAX :: nat where "RETRY_MAX = 30 * 1000000000"

datatype window_event = Press | Timer | Connect | Disconnect
datatype window_action = Advertise | Withdraw | NoAction
datatype window = Silent | Open nat | Connected

definition window_new :: window where
  "window_new = Silent"

fun window_handle :: "window \<Rightarrow> window_event \<Rightarrow> nat \<Rightarrow> window \<times> window_action" where
  "window_handle Silent Press now = (Open (now + WINDOW), Advertise)"
| "window_handle (Open until) Press now = (Open (now + WINDOW), Advertise)"
| "window_handle Connected Press now = (Connected, NoAction)"
| "window_handle (Open until) Timer now =
     (if until \<le> now then (Silent, Withdraw) else (Open until, NoAction))"
| "window_handle (Open until) Connect now = (Connected, Withdraw)"
| "window_handle Silent Connect now = (Connected, NoAction)"
| "window_handle Connected Disconnect now = (Silent, NoAction)"
| "window_handle Silent Timer now = (Silent, NoAction)"
| "window_handle Connected Timer now = (Connected, NoAction)"
| "window_handle Connected Connect now = (Connected, NoAction)"
| "window_handle Silent Disconnect now = (Silent, NoAction)"
| "window_handle (Open until) Disconnect now = (Open until, NoAction)"

text \<open>When \<open>Window::timer\<close> resolves: never where the window is not open.\<close>

fun window_timer :: "window \<Rightarrow> nat option" where
  "window_timer (Open until) = Some until"
| "window_timer Silent = None"
| "window_timer Connected = None"

fun is_open :: "window \<Rightarrow> bool" where
  "is_open (Open _) = True"
| "is_open Silent = False"
| "is_open Connected = False"

section \<open>Keeping the device on the air\<close>

text \<open>
  The variables of \<open>keep\<close>, with the calls it has made on the radio and how each registration ended, and
  when the last registration that failed did, kept beside them.
\<close>

datatype air_call = AirOn bool | AirOff

record keeper =
  kp_window :: window
  kp_registered :: bool
  kp_retry :: "nat option"
  kp_backoff :: nat
  kp_calls :: "air_call list"
  kp_failed :: "nat option"

definition keeper_new :: keeper where
  "keeper_new = \<lparr>kp_window = window_new, kp_registered = False, kp_retry = None, kp_backoff = RETRY, kp_calls = [],
     kp_failed = None\<rparr>"

definition air_off :: "keeper \<Rightarrow> keeper" where
  "air_off k = k\<lparr>kp_registered := False, kp_calls := kp_calls k @ [AirOff]\<rparr>"

text \<open>What the loop does with an action; \<open>ok\<close> is how a registration ends, at \<open>after\<close>.\<close>

definition keeper_act :: "window_action \<Rightarrow> bool \<Rightarrow> nat \<Rightarrow> keeper \<Rightarrow> keeper" where
  "keeper_act action ok after k =
     (case action of
        Advertise \<Rightarrow>
          (let k = (if kp_registered k then air_off k else k);
               k = k\<lparr>kp_calls := kp_calls k @ [AirOn ok]\<rparr>
           in if ok then k\<lparr>kp_registered := True, kp_retry := None, kp_backoff := RETRY\<rparr>
              else k\<lparr>kp_retry := Some (after + kp_backoff k),
                     kp_backoff := min (kp_backoff k * 2) RETRY_MAX,
                     kp_failed := Some after\<rparr>)
      | NoAction \<Rightarrow> k
      | Withdraw \<Rightarrow>
          (let k = k\<lparr>kp_retry := None, kp_backoff := RETRY\<rparr>
           in if kp_registered k then air_off k else k))"

text \<open>
  What wakes the loop: the button, an event, the window's timer or a retry, each at a time.  A retry
  wakes it only where one is due.
\<close>

datatype keeper_wake =
    Pressed nat bool nat
  | Told window_event nat bool nat
  | WindowUp nat
  | RetryDue nat bool nat

fun keeper_step :: "keeper \<Rightarrow> keeper_wake \<Rightarrow> keeper" where
  "keeper_step k (Pressed now ok after) =
     (let (w, action) = window_handle (kp_window k) Press now
      in keeper_act action ok after (k\<lparr>kp_window := w\<rparr>))"
| "keeper_step k (Told e now ok after) =
     (let (w, action) = window_handle (kp_window k) e now
      in keeper_act action ok after (k\<lparr>kp_window := w\<rparr>))"
| "keeper_step k (WindowUp now) =
     (case window_timer (kp_window k) of
        None \<Rightarrow> k
      | Some until \<Rightarrow>
          (if now < until then k
           else let (w, action) = window_handle (kp_window k) Timer now
                in keeper_act action True now (k\<lparr>kp_window := w\<rparr>)))"
| "keeper_step k (RetryDue now ok after) =
     (case kp_retry k of
        None \<Rightarrow> k
      | Some at \<Rightarrow> if now < at then k else keeper_act Advertise ok after k)"

text \<open>The end of the loop, once the events are closed.\<close>

definition keeper_stop :: "keeper \<Rightarrow> keeper" where
  "keeper_stop k = (if kp_registered k then air_off k else k)"

text \<open>Whether the radio calls, in order, ever register twice or withdraw nothing, and what is
  registered after them.\<close>

fun radio_after :: "air_call list \<Rightarrow> bool \<Rightarrow> bool option" where
  "radio_after [] on = Some on"
| "radio_after (AirOn ok # calls) on = (if on then None else radio_after calls ok)"
| "radio_after (AirOff # calls) on = (if on then radio_after calls False else None)"

definition keeper_ok :: "keeper \<Rightarrow> bool" where
  "keeper_ok k \<longleftrightarrow>
     (is_open (kp_window k) \<longleftrightarrow> kp_registered k \<or> kp_retry k \<noteq> None) \<and>
     \<not> (kp_registered k \<and> kp_retry k \<noteq> None) \<and>
     RETRY \<le> kp_backoff k \<and> kp_backoff k \<le> RETRY_MAX \<and>
     (\<forall>at. kp_retry k = Some at \<longrightarrow>
        (\<exists>t. kp_failed k = Some t \<and> t + RETRY \<le> at \<and> at \<le> t + RETRY_MAX)) \<and>
     radio_after (kp_calls k) False = Some (kp_registered k)"

lemma radio_after_append:
  "radio_after (xs @ ys) on = (case radio_after xs on of None \<Rightarrow> None | Some on' \<Rightarrow> radio_after ys on')"
  by (induction xs on rule: radio_after.induct) auto

text \<open>One lemma per action.\<close>

lemma keeper_advertise_ok:
  assumes "keeper_ok k" and "is_open w"
  shows "keeper_ok (keeper_act Advertise ok after (k\<lparr>kp_window := w\<rparr>))"
  using assms
  by (auto simp: keeper_ok_def keeper_act_def air_off_def radio_after_append Let_def
      RETRY_def RETRY_MAX_def)

lemma keeper_withdraw_ok:
  assumes "keeper_ok k" and "\<not> is_open w"
  shows "keeper_ok (keeper_act Withdraw ok after (k\<lparr>kp_window := w\<rparr>))"
  using assms
  by (auto simp: keeper_ok_def keeper_act_def air_off_def radio_after_append Let_def
      RETRY_def RETRY_MAX_def)

lemma keeper_nothing_ok:
  "keeper_ok k \<Longrightarrow> is_open w = is_open (kp_window k) \<Longrightarrow>
     keeper_ok (keeper_act NoAction ok after (k\<lparr>kp_window := w\<rparr>))"
  by (simp add: keeper_ok_def keeper_act_def)

lemma window_handle_open:
  "window_handle w e now = (w', a) \<Longrightarrow>
     (case a of Advertise \<Rightarrow> is_open w' | Withdraw \<Rightarrow> \<not> is_open w' | NoAction \<Rightarrow> is_open w' = is_open w)"
  by (cases "(w, e, now)" rule: window_handle.cases) (auto split: if_splits)

lemma keeper_handle_ok:
  assumes "keeper_ok k"
  shows "keeper_ok (let (w, action) = window_handle (kp_window k) e now
      in keeper_act action ok after (k\<lparr>kp_window := w\<rparr>))"
proof -
  obtain w a where wa: "window_handle (kp_window k) e now = (w, a)" by fastforce
  from window_handle_open [OF wa] assms show ?thesis
    by (cases a) (simp_all add: wa keeper_advertise_ok keeper_withdraw_ok keeper_nothing_ok)
qed

interpretation keeping: rooted_machine keeper_step keeper_ok keeper_new
proof unfold_locales
  fix k e assume ok: "keeper_ok k"
  show "keeper_ok (keeper_step k e)"
  proof (cases e)
    case (RetryDue now on after)
    have "is_open (kp_window k)" if "kp_retry k \<noteq> None" using that ok by (simp add: keeper_ok_def)
    with ok keeper_advertise_ok [OF ok, of "kp_window k"] RetryDue show ?thesis
      by (auto split: option.split)
  next
    case (WindowUp now)
    with ok keeper_handle_ok [OF ok, of Timer now True now] show ?thesis
      by (simp split: option.split)
  qed (use keeper_handle_ok [OF ok] in simp_all)
next
  show "keeper_ok keeper_new"
    by (simp add: keeper_ok_def keeper_new_def window_new_def RETRY_def RETRY_MAX_def)
qed

section \<open>Properties\<close>

text \<open>C38. Whatever presses, connections, timers and failed registrations come, the device is
  registered on the air or waiting to retry exactly while its window is open, never both; it never
  registers twice without withdrawing, and withdraws what it registered.  Within a second of a
  registration failing no retry does anything; and thirty seconds after it, while the window is still
  open, a retry registers the device, or has failed once more.\<close>

theorem on_air_while_open:
  "let k = foldl keeper_step keeper_new wakes in
    (is_open (kp_window k) \<longleftrightarrow> kp_registered k \<or> (\<exists>at. kp_retry k = Some at))
    \<and> \<not> (kp_registered k \<and> (\<exists>at. kp_retry k = Some at))
    \<and> radio_after (kp_calls k) False = Some (kp_registered k)
    \<and> radio_after (kp_calls (keeper_stop k)) False = Some False
    \<and> (\<forall>t now ok after. kp_failed k = Some t \<and> now < t + 1000000000 \<longrightarrow>
        keeper_step k (RetryDue now ok after) = k)
    \<and> (\<forall>t now ok after. kp_failed k = Some t \<and> is_open (kp_window k) \<and> \<not> kp_registered k
          \<and> t + 30000000000 \<le> now \<longrightarrow>
        kp_calls (keeper_step k (RetryDue now ok after)) = kp_calls k @ [AirOn ok]
        \<and> kp_registered (keeper_step k (RetryDue now ok after)) = ok)"
proof -
  define k where "k = foldl keeper_step keeper_new wakes"
  have ok: "keeper_ok k" unfolding k_def by (rule keeping.reachable_inv)
  then have due: "\<exists>t. kp_failed k = Some t \<and> t + 1000000000 \<le> at \<and> at \<le> t + 30000000000" if "kp_retry k = Some at" for at
    using that by (auto simp: keeper_ok_def RETRY_def RETRY_MAX_def)
  have "keeper_step k (RetryDue now on after) = k" if "kp_failed k = Some t" "now < t + 1000000000" for t now on after
    using that due by (force split: option.split)
  moreover have "kp_calls (keeper_step k (RetryDue now on after)) = kp_calls k @ [AirOn on]
        \<and> kp_registered (keeper_step k (RetryDue now on after)) = on"
    if open_now: "kp_failed k = Some t" "is_open (kp_window k)" "\<not> kp_registered k" "t + 30000000000 \<le> now" for t now on after
  proof -
    from ok open_now obtain at where at: "kp_retry k = Some at" by (auto simp: keeper_ok_def)
    with due open_now(1,4) have "\<not> now < at" by force
    with at open_now(3) show ?thesis by (simp add: keeper_act_def Let_def)
  qed
  ultimately show ?thesis
    using ok unfolding k_def [symmetric] Let_def
    by (auto simp: keeper_ok_def keeper_stop_def air_off_def radio_after_append)
qed

theorem on_air_while_open_witness:
  "let k = foldl keeper_step keeper_new [Pressed 0 False 10] in
     kp_failed k = Some 10 \<and> keeper_step k (RetryDue 1000000009 True 1000000009) = k
     \<and> kp_registered (keeper_step k (RetryDue 30000000010 True 30000000011))"
proof -
  let ?k = "foldl keeper_step keeper_new [Pressed 0 False 10]"
  have "kp_failed ?k = Some 10" "is_open (kp_window ?k)" "\<not> kp_registered ?k"
    by (simp_all add: keeper_new_def window_new_def keeper_act_def)
  with on_air_while_open [of "[Pressed 0 False 10]"] show ?thesis
    unfolding Let_def by (simp del: keeper_step.simps foldl.simps)
qed

text \<open>A press puts a device with no client on the air for five minutes from that press and is
  ignored while a client is connected; a connection always takes the device off the air, and nothing
  but a press puts it back on.\<close>

lemma window_life:
  "(w \<noteq> Connected \<longrightarrow> window_handle w Press now = (Open (now + WINDOW), Advertise))
    \<and> window_handle Connected Press now = (Connected, NoAction)
    \<and> fst (window_handle w Connect now) = Connected
    \<and> (is_open (fst (window_handle w e now)) \<longrightarrow> \<not> is_open w \<longrightarrow> e = Press)
    \<and> (is_open w \<longrightarrow> \<not> is_open (fst (window_handle w e now)) \<longrightarrow>
        snd (window_handle w e now) = Withdraw \<and>
        (e = Connect \<or> e = Timer \<and> (\<exists>until. w = Open until \<and> until \<le> now)))"
  by (cases "(w, e, now)" rule: window_handle.cases; cases w) (auto split: if_splits)

lemma window_life_witness:
  "is_open (fst (window_handle Silent Press 0)) \<and> \<not> is_open (fst (window_handle (Open 5) Timer 5))"
  using window_life [of Silent 0 Press] window_life [of "Open 5" 5 Timer] by simp

end
