(* ===== verification/Button.thy ===== *)
theory Button
  imports Prelude
begin

text \<open>
  The USER button and the case switch, \<open>crates/bliti/src/provision/button.rs\<close>: settling a stream of
  reads of a line into presses and releases.  A read of the line is its level, or the failure of the
  read.
\<close>

definition STABLE :: nat where "STABLE = 3"

record debounce =
  db_held :: bool
  db_disagreeing :: nat

definition debounce_new :: debounce where
  "debounce_new = \<lparr>db_held = True, db_disagreeing = 0\<rparr>"

definition debounce_released :: debounce where
  "debounce_released = \<lparr>db_held = False, db_disagreeing = 0\<rparr>"

definition debounce_settle :: "bool \<Rightarrow> debounce \<Rightarrow> bool option \<times> debounce" where
  "debounce_settle held d =
     (if held = db_held d then (None, d\<lparr>db_disagreeing := 0\<rparr>)
      else let d = d\<lparr>db_disagreeing := db_disagreeing d + 1\<rparr>
           in if db_disagreeing d < STABLE then (None, d)
              else (Some held, d\<lparr>db_held := held, db_disagreeing := 0\<rparr>))"

definition debounce_sample :: "bool \<Rightarrow> debounce \<Rightarrow> bool \<times> debounce" where
  "debounce_sample held d = (let (settled, d) = debounce_settle held d in (settled = Some True, d))"

text \<open>
  The loop of \<open>pressed_and_released\<close> over the levels the line reads, one poll each: how it ends and
  the reads left, or nothing while it is still waiting when the reads run out.
\<close>

fun pressed_and_released :: "debounce \<Rightarrow> bool \<Rightarrow> bool io_result list \<Rightarrow> (unit io_result \<times> bool io_result list) option" where
  "pressed_and_released d held [] = None"
| "pressed_and_released d held (Inl e # reads) = Some (Inl e, reads)"
| "pressed_and_released d held (Inr high # reads) =
     (case debounce_settle (\<not> high) d of
        (Some True, d) \<Rightarrow> pressed_and_released d True reads
      | (Some False, d) \<Rightarrow> if held then Some (Inr (), reads) else pressed_and_released d held reads
      | (None, d) \<Rightarrow> pressed_and_released d held reads)"

record polled =
  pl_debounce :: debounce
  pl_failing :: bool

definition polled_new :: polled where
  "polled_new = \<lparr>pl_debounce = debounce_new, pl_failing = False\<rparr>"

text \<open>
  \<open>Polled::pressed\<close> over the reads to come, with the number of times it warned: the button after the
  press and the reads left, or nothing where no press has come yet.
\<close>

fun polled_pressed :: "polled \<Rightarrow> bool io_result list \<Rightarrow> (polled \<times> bool io_result list) option" where
  "polled_pressed p [] = None"
| "polled_pressed p (Inr high # reads) =
     (let p = (if pl_failing p then p\<lparr>pl_failing := False\<rparr> else p);
          (press, d) = debounce_sample (\<not> high) (pl_debounce p);
          p = p\<lparr>pl_debounce := d\<rparr>
      in if press then Some (p, reads) else polled_pressed p reads)"
| "polled_pressed p (Inl e # reads) =
     (let p = (if pl_failing p then p else p\<lparr>pl_failing := True\<rparr>) in polled_pressed p reads)"

text \<open>Every press the button reports over a run of reads: the callers await \<open>pressed\<close> again each time.\<close>

fun settle_all :: "debounce \<Rightarrow> bool list \<Rightarrow> bool option list \<times> debounce" where
  "settle_all d [] = ([], d)"
| "settle_all d (held # reads) =
     (let (s, d) = debounce_settle held d; (ss, d) = settle_all d reads in (s # ss, d))"

definition changes :: "bool option list \<Rightarrow> bool list" where
  "changes ss = map the (filter (\<lambda>s. s \<noteq> None) ss)"

definition debounce_ok :: "debounce \<Rightarrow> bool" where
  "debounce_ok d \<longleftrightarrow> db_disagreeing d < STABLE"

definition debounce_step :: "debounce \<Rightarrow> bool \<Rightarrow> debounce" where
  "debounce_step d held = snd (debounce_settle held d)"

interpretation debouncing: rooted_machine debounce_step debounce_ok debounce_new
  by unfold_locales
    (auto simp: debounce_ok_def debounce_step_def debounce_settle_def debounce_new_def STABLE_def Let_def)

lemma changes_simps [simp]:
  "changes [] = []" "changes (None # ss) = changes ss" "changes (Some b # ss) = b # changes ss"
  by (simp_all add: changes_def)

text \<open>Changes alternate, and each is the opposite of what the line had settled at.\<close>

fun alternates :: "bool \<Rightarrow> bool list \<Rightarrow> bool" where
  "alternates held [] = True"
| "alternates held (b # bs) = (b = (\<not> held) \<and> alternates b bs)"

lemma settle_all_alternates: "alternates (db_held d) (changes (fst (settle_all d reads)))"
proof (induction reads arbitrary: d)
  case (Cons held reads)
  show ?case
    using Cons.IH [of "snd (debounce_settle held d)"]
    by (auto simp: debounce_settle_def Let_def case_prod_unfold)
qed simp

text \<open>What the successful reads of a run found.\<close>

fun read_levels :: "bool io_result list \<Rightarrow> bool list" where
  "read_levels [] = []"
| "read_levels (Inl e # reads) = read_levels reads"
| "read_levels (Inr high # reads) = high # read_levels reads"

text \<open>
  How the debouncer stands after the levels \<open>h\<close>: the last reads it counts as disagreeing are the last
  of them, and it holds the line released only after three reads in a row found it high.
\<close>

definition has_high :: "bool list \<Rightarrow> bool" where
  "has_high h \<longleftrightarrow> (\<exists>before after. h = before @ [True, True, True] @ after)"

lemma has_high_snoc: "has_high h \<Longrightarrow> has_high (h @ [x])"
  unfolding has_high_def by (metis append.assoc)

definition settled_after :: "bool list \<Rightarrow> debounce \<Rightarrow> bool" where
  "settled_after h d \<longleftrightarrow> db_disagreeing d < STABLE \<and>
     (\<exists>before. h = before @ replicate (db_disagreeing d) (db_held d)) \<and>
     (\<not> db_held d \<longrightarrow> has_high h)"

lemma settled_after_new: "settled_after [] debounce_new"
  by (simp add: settled_after_def debounce_new_def STABLE_def)

lemma settled_after_step:
  assumes "settled_after h d"
  shows "settled_after (h @ [x]) (snd (debounce_settle (\<not> x) d))"
proof -
  obtain before where h: "h = before @ replicate (db_disagreeing d) (db_held d)"
    using assms by (auto simp: settled_after_def)
  consider "x \<noteq> db_held d" | "x = db_held d" "db_disagreeing d + 1 < STABLE"
    | "x = db_held d" "db_disagreeing d = 2"
    using assms by (fastforce simp: settled_after_def STABLE_def)
  then show ?thesis
  proof cases
    case 1
    with assms show ?thesis
      by (auto simp: settled_after_def debounce_settle_def STABLE_def has_high_snoc)
  next
    case 2
    let ?d = "d\<lparr>db_disagreeing := db_disagreeing d + 1\<rparr>"
    from 2 have s: "snd (debounce_settle (\<not> x) d) = ?d"
      by (auto simp: debounce_settle_def Let_def)
    show ?thesis
      unfolding settled_after_def s
    proof (intro conjI exI)
      show "db_disagreeing ?d < STABLE" using 2 by simp
      show "h @ [x] = before @ replicate (db_disagreeing ?d) (db_held ?d)"
        using h 2(1) by (simp add: replicate_append_same)
      show "\<not> db_held ?d \<longrightarrow> has_high (h @ [x])"
        using assms has_high_snoc by (simp add: settled_after_def)
    qed
  next
    case 3
    then have "snd (debounce_settle (\<not> x) d) = d\<lparr>db_held := \<not> x, db_disagreeing := 0\<rparr>"
      by (auto simp: debounce_settle_def Let_def STABLE_def)
    moreover have "h @ [x] = before @ [x, x, x] @ []"
      using h 3 by (simp add: numeral_2_eq_2)
    then have "x \<Longrightarrow> has_high (h @ [x])" unfolding has_high_def by metis
    ultimately show ?thesis by (auto simp: settled_after_def STABLE_def)
  qed
qed

lemma press_after:
  assumes "settled_after h d" and "fst (debounce_settle (\<not> x) d) = Some True"
  shows "\<exists>before mid. h @ [x] = before @ [True, True, True] @ mid @ [False, False, False]"
proof -
  have x: "\<not> x" "\<not> db_held d" "db_disagreeing d = 2"
    using assms by (auto simp: settled_after_def debounce_settle_def Let_def STABLE_def split: if_splits)
  obtain before after where high: "h = before @ [True, True, True] @ after"
    using assms(1) x(2) by (auto simp: settled_after_def has_high_def)
  obtain start where low: "h = start @ [False, False]"
    using assms(1) x(2,3) by (auto simp: settled_after_def numeral_2_eq_2)
  obtain mid where "after = mid @ [False, False]"
    using high low
    by (cases after rule: rev_cases; cases "butlast after" rule: rev_cases) (auto simp: append_eq_append_conv2)
  with high x(1) show ?thesis by auto
qed

lemma polled_pressed_settled:
  assumes "polled_pressed p reads = Some (p', left)" and "settled_after h (pl_debounce p)"
  shows "\<exists>used before mid. reads = used @ left \<and>
    h @ read_levels used = before @ [True, True, True] @ mid @ [False, False, False]"
  using assms
proof (induction reads arbitrary: p h)
  case (Cons r reads)
  show ?case
  proof (cases r)
    case (Inl e)
    with Cons.prems obtain q where "polled_pressed q reads = Some (p', left)" "pl_debounce q = pl_debounce p"
      by (auto simp: Let_def split: if_splits)
    with Cons.IH [of q h] Cons.prems(2) obtain used where "reads = used @ left"
      "\<exists>before mid. h @ read_levels used = before @ [True, True, True] @ mid @ [False, False, False]"
      by auto
    with Inl show ?thesis by (intro exI [of _ "Inl e # used"]) simp
  next
    case (Inr high)
    let ?d = "debounce_settle (\<not> high) (pl_debounce p)"
    show ?thesis
    proof (cases "fst ?d = Some True")
      case True
      with Cons.prems Inr have "left = reads"
        by (auto simp: Let_def debounce_sample_def case_prod_unfold split: if_splits)
      with press_after [OF Cons.prems(2) True] Inr show ?thesis
        by (intro exI [of _ "[Inr high]"]) simp
    next
      case False
      with Cons.prems Inr obtain q where q: "polled_pressed q reads = Some (p', left)" "pl_debounce q = snd ?d"
        by (auto simp: Let_def debounce_sample_def case_prod_unfold split: if_splits)
      with Cons.IH [of q "h @ [high]"] settled_after_step [OF Cons.prems(2), of high] obtain used where
        "reads = used @ left" "\<exists>before mid. (h @ [high]) @ read_levels used = before @ [True, True, True] @ mid @ [False, False, False]"
        by auto
      with Inr show ?thesis by (intro exI [of _ "Inr high # used"]) simp
    qed
  qed
qed simp

section \<open>Properties\<close>

text \<open>The debouncer settles on a new level exactly on the third read in a row that disagrees with
  the level it holds: fewer are bounce and report nothing, and what is reported alternates between
  press and release, starting from the level it was given.\<close>

lemma debounce_third_read:
  assumes "db_disagreeing d = 0" and "b \<noteq> db_held d"
  shows "fst (settle_all d [b, b, b]) = [None, None, Some b]
    \<and> fst (settle_all d [b, b, \<not> b]) = [None, None, None]
    \<and> snd (settle_all d [b, b, \<not> b]) = d
    \<and> alternates (db_held d) (changes (fst (settle_all d reads)))"
  using assms settle_all_alternates [of d reads]
  by (cases d) (auto simp: debounce_settle_def STABLE_def Let_def)

text \<open>A button that is down when the daemon starts is no press until it has been let go: a press is
  reported only after three good reads in a row found the line high and, later, three found it low,
  whatever reads failed in between.\<close>

lemma held_at_start_is_no_press:
  assumes "polled_pressed polled_new reads = Some (p, left)"
  shows "\<exists>used before mid. reads = used @ left \<and>
    read_levels used = before @ [True, True, True] @ mid @ [False, False, False]"
  using polled_pressed_settled [OF assms, of "[]"] settled_after_new by (simp add: polled_new_def)

lemma held_at_start_is_no_press_witness:
  "\<exists>p. polled_pressed polled_new (map Inr [False, True, True, True, False, False, False, True]) = Some (p, [Inr True])
    \<and> (\<exists>used before mid. map Inr [False, True, True, True, False, False, False, True] = used @ [Inr True] \<and>
      read_levels used = before @ [True, True, True] @ mid @ [False, False, False])"
proof -
  let ?reads = "map Inr [False, True, True, True, False, False, False, True]"
  have "\<exists>p. polled_pressed polled_new ?reads = Some (p, [Inr True])"
    by (simp add: polled_new_def debounce_new_def debounce_sample_def debounce_settle_def STABLE_def Let_def)
  then obtain p where p: "polled_pressed polled_new ?reads = Some (p, [Inr True])" by blast
  from p held_at_start_is_no_press [OF p] show ?thesis by blast
qed

end
