(* ===== verification/Json.thy ===== *)
theory Json
  imports Ord_Map
begin

text \<open>
  JSON values as \<open>serde_json\<close> holds them (an object is a map in key order), and the Normalized Paths
  the program names a member of a document by, \<open>path\<close> of
  \<open>crates/bliti-core/src/channel/config.rs\<close>.  Strings are their UTF-8 bytes.
\<close>

section \<open>Values\<close>

text \<open>
  \<open>serde_json::Number\<close>: a non-negative integer, a negative one, or a float, here by its digits, which
  nothing modelled reads.
\<close>

datatype jnumber = PosInt u64 | NegInt u64 | Float string

datatype json =
    JNull
  | JBool bool
  | JNumber jnumber
  | JString string
  | JArray "json list"
  | JObject "(string \<times> json) list"

type_synonym jmap = "(string, json) bt"

fun as_str :: "json \<Rightarrow> string option" where
  "as_str (JString s) = Some s"
| "as_str _ = None"

fun as_bool :: "json \<Rightarrow> bool option" where
  "as_bool (JBool b) = Some b"
| "as_bool _ = None"

fun as_u64 :: "json \<Rightarrow> u64 option" where
  "as_u64 (JNumber (PosInt n)) = Some n"
| "as_u64 _ = None"

section \<open>Paths\<close>

datatype segment = Name string | Index nat

definition digit_char :: "nat \<Rightarrow> char" where
  "digit_char d = (if d < 10 then char_of (48 + d) else char_of (87 + d))"

text \<open>\<open>to_string\<close> of an unsigned number.\<close>

fun decimal :: "nat \<Rightarrow> string" where
  "decimal n = (if n < 10 then [digit_char n] else decimal (n div 10) @ [digit_char (n mod 10)])"

declare decimal.simps [simp del]

definition quote_char :: char where "quote_char = CHR 0x27"
definition backslash :: char where "backslash = CHR 0x5C"

text \<open>A control character as a backslash, a \<open>u\<close> and \<open>{:04x}\<close>.\<close>

definition escape_unicode :: "char \<Rightarrow> string" where
  "escape_unicode c = [backslash, CHR ''u'', CHR ''0'', CHR ''0'',
     digit_char (of_char c div 16), digit_char (of_char c mod 16)]"

definition escape_char :: "char \<Rightarrow> string" where
  "escape_char c =
     (if c = CHR 0x08 then [backslash, CHR ''b'']
      else if c = CHR 0x0C then [backslash, CHR ''f'']
      else if c = CHR 0x0A then [backslash, CHR ''n'']
      else if c = CHR 0x0D then [backslash, CHR ''r'']
      else if c = CHR 0x09 then [backslash, CHR ''t'']
      else if c = quote_char then [backslash, quote_char]
      else if c = backslash then [backslash, backslash]
      else if (of_char c :: nat) < 32 then escape_unicode c
      else [c])"

fun segment_text :: "segment \<Rightarrow> string" where
  "segment_text (Index i) = ''['' @ decimal i @ '']''"
| "segment_text (Name name) =
     [CHR ''['', quote_char] @ concat (map escape_char name) @ [quote_char, CHR '']'']"

definition path :: "segment list \<Rightarrow> string" where
  "path segments = ''$'' @ concat (map segment_text segments)"

section \<open>A path names one place only\<close>

lemma digit_char_inj: "d < 16 \<Longrightarrow> e < 16 \<Longrightarrow> digit_char d = digit_char e \<Longrightarrow> d = e"
  by (auto simp: digit_char_def of_char_of dest: arg_cong [of _ _ "of_char :: char \<Rightarrow> nat"] split: if_splits)

definition is_digit :: "char \<Rightarrow> bool" where
  "is_digit c \<longleftrightarrow> 48 \<le> (of_char c :: nat) \<and> (of_char c :: nat) < 58"

lemma is_digit_digit_char: "d < 10 \<Longrightarrow> is_digit (digit_char d)"
  by (simp add: is_digit_def digit_char_def of_char_of)

lemma decimal_digits: "\<forall>c \<in> set (decimal n). is_digit c"
proof (induction n rule: decimal.induct)
  case (1 n)
  then show ?case by (subst decimal.simps) (auto simp: is_digit_digit_char)
qed

lemma decimal_nonempty: "decimal n \<noteq> []"
  by (subst decimal.simps) simp

lemma decimal_inj: "decimal m = decimal n \<Longrightarrow> m = n"
proof (induction m arbitrary: n rule: decimal.induct)
  case (1 m)
  have m: "decimal m = (if m < 10 then [digit_char m] else decimal (m div 10) @ [digit_char (m mod 10)])"
    by (rule decimal.simps)
  have n: "decimal n = (if n < 10 then [digit_char n] else decimal (n div 10) @ [digit_char (n mod 10)])"
    by (rule decimal.simps)
  show ?case
  proof (cases "m < 10"; cases "n < 10")
    assume "m < 10" "n < 10"
    with 1(2) m n show ?thesis by (auto intro: digit_char_inj)
  next
    assume "\<not> m < 10" "\<not> n < 10"
    with 1(2) m n have "decimal (m div 10) = decimal (n div 10)" "digit_char (m mod 10) = digit_char (n mod 10)"
      by auto
    with 1(1) [OF \<open>\<not> m < 10\<close>] have "m div 10 = n div 10" "m mod 10 = n mod 10"
      by (auto intro: digit_char_inj)
    then show ?thesis by (metis div_mult_mod_eq)
  qed (use 1(2) m n decimal_nonempty decimal_nonempty [symmetric] in auto)
qed

lemma takeWhile_delimiter: "\<forall>c \<in> set xs. P c \<Longrightarrow> \<not> P d \<Longrightarrow> takeWhile P (xs @ d # ys) = xs"
  by (induction xs) auto

lemma decimal_delimited:
  assumes "decimal m @ CHR '']'' # r = decimal n @ CHR '']'' # s"
  shows "m = n \<and> r = s"
proof -
  have "\<not> is_digit (CHR '']'')" by (simp add: is_digit_def)
  then have "decimal m = decimal n"
    using assms takeWhile_delimiter [of _ is_digit] decimal_digits by metis
  with assms show ?thesis by (simp add: decimal_inj)
qed

text \<open>No escape begins another, and none is the closing quote.\<close>

definition short_escapes :: "(char \<times> char) set" where
  "short_escapes = {(CHR 0x08, CHR ''b''), (CHR 0x0C, CHR ''f''), (CHR 0x0A, CHR ''n''), (CHR 0x0D, CHR ''r''),
     (CHR 0x09, CHR ''t''), (quote_char, quote_char), (backslash, backslash)}"

lemma short_escapes_inj: "(c, x) \<in> short_escapes \<Longrightarrow> (d, x) \<in> short_escapes \<Longrightarrow> c = d"
  and short_escapes_not_u: "(c, CHR ''u'') \<notin> short_escapes"
  by (auto simp: short_escapes_def quote_char_def backslash_def)

lemma escape_char_cases:
  "escape_char c = [c] \<and> c \<noteq> backslash \<and> c \<noteq> quote_char
    \<or> (\<exists>x. escape_char c = [backslash, x] \<and> (c, x) \<in> short_escapes)
    \<or> escape_char c = escape_unicode c \<and> (of_char c :: nat) < 32"
  by (simp add: escape_char_def short_escapes_def)

lemma escape_char_forms:
  obtains (plain) "escape_char c = [c]" "c \<noteq> backslash" "c \<noteq> quote_char"
  | (short) x where "escape_char c = [backslash, x]" "(c, x) \<in> short_escapes"
  | (unicode) "escape_char c = escape_unicode c" "(of_char c :: nat) < 32"
  using escape_char_cases [of c] by blast

lemma escape_char_prefix:
  assumes "escape_char c @ x = escape_char d @ y"
  shows "c = d \<and> x = y"
proof (cases c rule: escape_char_forms)
  case c: plain
  show ?thesis
    by (cases d rule: escape_char_forms) (use assms c in \<open>auto simp: escape_unicode_def\<close>)
next
  case c: (short u)
  show ?thesis
    by (cases d rule: escape_char_forms)
      (use assms c short_escapes_not_u in \<open>auto simp: escape_unicode_def intro: short_escapes_inj\<close>)
next
  case c: unicode
  show ?thesis
  proof (cases d rule: escape_char_forms)
    case unicode
    with assms c have "digit_char (of_char c div 16) = digit_char (of_char d div 16)"
      "digit_char (of_char c mod 16) = digit_char (of_char d mod 16)" "x = y"
      by (auto simp: escape_unicode_def)
    then have "(of_char c :: nat) div 16 = of_char d div 16" "(of_char c :: nat) mod 16 = of_char d mod 16"
      using c(2) unicode(2) by (auto intro!: digit_char_inj)
    then have "(of_char c :: nat) = of_char d" by (metis div_mult_mod_eq)
    then show ?thesis using \<open>x = y\<close> by simp
  qed (use assms c short_escapes_not_u in \<open>auto simp: escape_unicode_def\<close>)
qed

lemma escape_char_not_quote: "escape_char c @ x \<noteq> quote_char # y"
  by (cases c rule: escape_char_forms) (auto simp: escape_unicode_def backslash_def quote_char_def)

lemma name_delimited:
  "concat (map escape_char m) @ quote_char # r = concat (map escape_char n) @ quote_char # s \<Longrightarrow> m = n \<and> r = s"
proof (induction m arbitrary: n)
  case Nil
  then show ?case
    by (cases n) (auto dest: sym simp: escape_char_not_quote)
next
  case (Cons c m)
  show ?case
  proof (cases n)
    case Nil
    with Cons.prems show ?thesis by (simp add: escape_char_not_quote)
  next
    case (Cons d n')
    with Cons.prems escape_char_prefix [of c _ d] have "c = d"
      "concat (map escape_char m) @ quote_char # r = concat (map escape_char n') @ quote_char # s"
      by (auto dest: escape_char_prefix)
    with Cons.IH Cons show ?thesis by blast
  qed
qed

lemma decimal_not_quote: "decimal n @ x \<noteq> quote_char # y"
  using decimal_digits [of n] decimal_nonempty [of n]
  by (cases "decimal n") (auto simp: is_digit_def quote_char_def)

lemma segment_text_prefix:
  assumes "segment_text p @ r = segment_text q @ s"
  shows "p = q \<and> r = s"
proof (cases p; cases q)
  fix m n assume "p = Index m" "q = Index n"
  with assms decimal_delimited [of m r n s] show ?thesis by simp
next
  fix m n assume "p = Name m" "q = Name n"
  with assms name_delimited [of m "CHR '']'' # r" n "CHR '']'' # s"] show ?thesis by simp
qed (use assms decimal_not_quote in \<open>auto dest: sym\<close>)

lemma segments_inj: "concat (map segment_text ps) = concat (map segment_text qs) \<Longrightarrow> ps = qs"
proof (induction ps arbitrary: qs)
  case Nil
  then show ?case by (cases qs) (auto elim: segment_text.elims)
next
  case (Cons p ps)
  show ?case
  proof (cases qs)
    case Nil
    with Cons.prems show ?thesis by (cases p) auto
  next
    case (Cons q qs')
    with Cons.prems segment_text_prefix [of p _ q] Cons.IH show ?thesis by auto
  qed
qed

section \<open>Properties\<close>

text \<open>The path a refusal names leads to one member only: two different places in a document never
  have the same path, whatever bytes their member names hold.\<close>

lemma path_injective: "path ps = path qs \<longleftrightarrow> ps = qs"
  by (auto simp: path_def dest: segments_inj)

end
