(* ===== verification/Report.thy ===== *)
theory Report
  imports Json
begin

text \<open>
  What a device in provisioning mode reports of its run, from
  \<open>crates/bliti-core/src/provisioning/report.rs\<close>: the states with their wire names, the answers an
  operator gives, a step's report and an open prompt's, and the \<open>Snapshot\<close> of
  \<open>crates/bliti/src/provision/run.rs\<close> that carries them.
\<close>

section \<open>States and their wire names\<close>

datatype run_state = RunIdle | RunRunning | RunWaiting | RunFailed | RunFinished

datatype done_state = IsDone | NotDone | DoneUnknown

datatype step_state = StepUnchosen | StepPending | StepRunning | StepWaiting | StepPassed | StepFailed

fun run_state_as_str :: "run_state \<Rightarrow> string" where
  "run_state_as_str RunIdle = ''idle''"
| "run_state_as_str RunRunning = ''running''"
| "run_state_as_str RunWaiting = ''waiting''"
| "run_state_as_str RunFailed = ''failed''"
| "run_state_as_str RunFinished = ''finished''"

definition run_state_read :: "string \<Rightarrow> run_state option" where
  "run_state_read name =
     (if name = ''idle'' then Some RunIdle
      else if name = ''running'' then Some RunRunning
      else if name = ''waiting'' then Some RunWaiting
      else if name = ''failed'' then Some RunFailed
      else if name = ''finished'' then Some RunFinished
      else None)"

fun done_state_as_str :: "done_state \<Rightarrow> string" where
  "done_state_as_str IsDone = ''done''"
| "done_state_as_str NotDone = ''not-done''"
| "done_state_as_str DoneUnknown = ''unknown''"

definition done_state_read :: "string \<Rightarrow> done_state option" where
  "done_state_read name =
     (if name = ''done'' then Some IsDone
      else if name = ''not-done'' then Some NotDone
      else if name = ''unknown'' then Some DoneUnknown
      else None)"

fun step_state_as_str :: "step_state \<Rightarrow> string" where
  "step_state_as_str StepUnchosen = ''unchosen''"
| "step_state_as_str StepPending = ''pending''"
| "step_state_as_str StepRunning = ''running''"
| "step_state_as_str StepWaiting = ''waiting''"
| "step_state_as_str StepPassed = ''passed''"
| "step_state_as_str StepFailed = ''failed''"

definition step_state_read :: "string \<Rightarrow> step_state option" where
  "step_state_read name =
     (if name = ''unchosen'' then Some StepUnchosen
      else if name = ''pending'' then Some StepPending
      else if name = ''running'' then Some StepRunning
      else if name = ''waiting'' then Some StepWaiting
      else if name = ''passed'' then Some StepPassed
      else if name = ''failed'' then Some StepFailed
      else None)"

text \<open>What a prompt asks for; a kind this build does not know is kept by name.\<close>

datatype prompt_kind = Notice | Confirm | Text | Secret | OtherKind string

fun prompt_kind_as_str :: "prompt_kind \<Rightarrow> string" where
  "prompt_kind_as_str Notice = ''notice''"
| "prompt_kind_as_str Confirm = ''confirm''"
| "prompt_kind_as_str Text = ''text''"
| "prompt_kind_as_str Secret = ''secret''"
| "prompt_kind_as_str (OtherKind name) = name"

definition prompt_kind_read :: "string \<Rightarrow> prompt_kind" where
  "prompt_kind_read name =
     (if name = ''notice'' then Notice
      else if name = ''confirm'' then Confirm
      else if name = ''text'' then Text
      else if name = ''secret'' then Secret
      else OtherKind name)"

section \<open>Answers and reports\<close>

text \<open>An \<open>Answer\<close> is the JSON it arrived as; \<open>as_bool\<close> and \<open>as_str\<close> read it.\<close>

type_synonym answer = json

definition answer_boolean :: "bool \<Rightarrow> answer" where "answer_boolean b = JBool b"
definition answer_text :: "string \<Rightarrow> answer" where "answer_text s = JString s"

text \<open>A civil date: year, month and day.  An \<open>f64\<close> is its bits.\<close>

type_synonym date = "int \<times> nat \<times> nat"
type_synonym f64 = u64

record step_report =
  sr_id :: string
  sr_title :: string
  sr_done :: done_state
  sr_why :: "string option"
  sr_state :: step_state
  sr_progress :: "f64 option"
  sr_reason :: "string option"
  sr_result :: "jmap option"

record prompt_report =
  pr_id :: string
  pr_step :: string
  pr_kind :: prompt_kind
  pr_text :: string
  pr_blocking :: bool
  pr_default :: "string option"

record snapshot =
  sn_revision :: nat
  sn_built :: date
  sn_run :: run_state
  sn_checked :: bool
  sn_provisioned :: bool
  sn_steps :: "step_report list"
  sn_prompts :: "prompt_report list"

section \<open>Properties\<close>

text \<open>A codec of wire names: what is read is what was written, and no other name is read as it.\<close>

locale wire_names =
  fixes as_str :: "'a \<Rightarrow> string" and read :: "string \<Rightarrow> 'a option"
  assumes read_as_str: "read (as_str x) = Some x"
    and as_str_read: "read name = Some x \<Longrightarrow> as_str x = name"
begin

lemma read_iff: "read name = Some x \<longleftrightarrow> name = as_str x"
  using read_as_str as_str_read by auto

lemma as_str_inj: "as_str x = as_str y \<Longrightarrow> x = y"
  by (metis read_as_str option.inject)

end

interpretation run_names: wire_names run_state_as_str run_state_read
proof unfold_locales
  show "run_state_read (run_state_as_str x) = Some x" for x
    by (cases x) (simp_all add: run_state_read_def)
qed (auto simp: run_state_read_def split: if_splits)

interpretation done_names: wire_names done_state_as_str done_state_read
proof unfold_locales
  show "done_state_read (done_state_as_str x) = Some x" for x
    by (cases x) (simp_all add: done_state_read_def)
qed (auto simp: done_state_read_def split: if_splits)

interpretation step_names: wire_names step_state_as_str step_state_read
proof unfold_locales
  show "step_state_read (step_state_as_str x) = Some x" for x
    by (cases x) (simp_all add: step_state_read_def)
qed (auto simp: step_state_read_def split: if_splits)

lemma prompt_kind_name: "prompt_kind_as_str (prompt_kind_read name) = name"
  by (simp add: prompt_kind_read_def)

lemma prompt_kind_read_known:
  "kind \<in> {Notice, Confirm, Text, Secret} \<Longrightarrow> prompt_kind_read (prompt_kind_as_str kind) = kind"
  by (auto simp: prompt_kind_read_def)

lemma state_names_roundtrip:
  "(run_state_read name = Some run \<longleftrightarrow> name = run_state_as_str run)
    \<and> (done_state_read name = Some done \<longleftrightarrow> name = done_state_as_str done)
    \<and> (step_state_read name = Some step \<longleftrightarrow> name = step_state_as_str step)
    \<and> prompt_kind_as_str (prompt_kind_read name) = name
    \<and> (prompt_kind_read name = kind \<and> kind \<in> {Notice, Confirm, Text, Secret}
        \<longleftrightarrow> name = prompt_kind_as_str kind \<and> kind \<in> {Notice, Confirm, Text, Secret})"
  by (intro conjI run_names.read_iff done_names.read_iff step_names.read_iff prompt_kind_name)
    (metis prompt_kind_name prompt_kind_read_known)

end
