(* ===== verification/Run_Model.thy ===== *)
theory Run_Model
  imports Report
begin

text \<open>
  The state of a provisioning run, \<open>Model\<close> of \<open>crates/bliti/src/provision/model.rs\<close>, one definition
  for each of its methods.  The two hash maps of the source are kept in key order here, which
  nothing it computes depends on.  A \<open>oneshot\<close> channel is its number: an operation that makes one
  is given it, and one that sends on it returns what it sends.  Indexing out of range panics in
  the source; \<open>model_ok\<close> is what keeps every index in range.
\<close>

section \<open>State\<close>

record done_report =
  dn_state :: done_state
  dn_why :: "string option"

record entry =
  en_id :: string
  en_title :: string
  en_changes_board :: bool
  en_done :: done_report
  en_state :: step_state
  en_progress :: "f64 option"
  en_reason :: "string option"
  en_result :: "jmap option"

text \<open>What decides whether a step accepts an answer of text; \<open>Inl\<close> says why it does not.\<close>

type_synonym check = "string \<Rightarrow> string + unit"

record question =
  qu_key :: string
  qu_kind :: prompt_kind
  qu_text :: string
  qu_default :: "string option"
  qu_check :: "check option"

definition question_new :: "string \<Rightarrow> prompt_kind \<Rightarrow> string \<Rightarrow> question" where
  "question_new key kind text =
     \<lparr>qu_key = key, qu_kind = kind, qu_text = text, qu_default = None, qu_check = None\<rparr>"

definition question_default :: "string \<Rightarrow> question \<Rightarrow> question" where
  "question_default d q = q\<lparr>qu_default := Some d\<rparr>"

definition question_check :: "check \<Rightarrow> question \<Rightarrow> question" where
  "question_check c q = q\<lparr>qu_check := Some c\<rparr>"

record open_prompt =
  op_id :: string
  op_step :: nat
  op_key :: string
  op_kind :: prompt_kind
  op_text :: string
  op_default :: "string option"
  op_check :: "check option"
  op_blocks :: "nat option"
  op_waiter :: "nat option"

definition blocking :: "open_prompt \<Rightarrow> bool" where
  "blocking p \<longleftrightarrow> op_blocks p \<noteq> None"

datatype need = Held answer | Wait nat

record model =
  md_built :: date
  md_steps :: "entry list"
  md_state :: run_state
  md_prompts :: "open_prompt list"
  md_answers :: "(string, answer) bt"
  md_asked_by :: "(string, nat) bt"
  md_generation :: u64
  md_checked :: bool

definition model_new :: "date \<Rightarrow> (string \<times> string \<times> bool) list \<Rightarrow> model" where
  "model_new built steps =
     \<lparr>md_built = built,
      md_steps = map (\<lambda>(name, title, changes).
        \<lparr>en_id = name, en_title = title, en_changes_board = changes,
         en_done = \<lparr>dn_state = DoneUnknown, dn_why = None\<rparr>,
         en_state = StepUnchosen, en_progress = None, en_reason = None, en_result = None\<rparr>) steps,
      md_state = RunIdle, md_prompts = [], md_answers = [], md_asked_by = [],
      md_generation = 0, md_checked = False\<rparr>"

section \<open>What is read\<close>

definition provisioned :: "model \<Rightarrow> bool" where
  "provisioned m \<longleftrightarrow> md_checked m \<and>
     list_all (\<lambda>e. dn_state (en_done e) = IsDone) (filter en_changes_board (md_steps m))"

definition model_run :: "model \<Rightarrow> run_state" where
  "model_run m =
     (if md_state m = RunRunning \<and> list_ex blocking (md_prompts m) then RunWaiting else md_state m)"

definition at_rest :: "model \<Rightarrow> bool" where
  "at_rest m \<longleftrightarrow> md_state m = RunIdle \<or> md_state m = RunFinished"

definition step_state_of :: "model \<Rightarrow> nat \<Rightarrow> step_state" where
  "step_state_of m index =
     (let e = md_steps m ! index in
      if en_state e = StepRunning \<and> list_ex (\<lambda>p. op_blocks p = Some index) (md_prompts m)
      then StepWaiting else en_state e)"

definition REVISION :: nat where "REVISION = 1"

definition model_snapshot :: "model \<Rightarrow> snapshot" where
  "model_snapshot m =
     \<lparr>sn_revision = REVISION, sn_built = md_built m, sn_run = model_run m, sn_checked = md_checked m,
      sn_provisioned = provisioned m,
      sn_steps = map (\<lambda>(index, e).
        \<lparr>sr_id = en_id e, sr_title = en_title e, sr_done = dn_state (en_done e), sr_why = dn_why (en_done e),
         sr_state = step_state_of m index, sr_progress = en_progress e, sr_reason = en_reason e,
         sr_result = en_result e\<rparr>) (enumerate 0 (md_steps m)),
      sn_prompts = map (\<lambda>p.
        \<lparr>pr_id = op_id p, pr_step = en_id (md_steps m ! op_step p), pr_kind = op_kind p, pr_text = op_text p,
         pr_blocking = blocking p, pr_default = op_default p\<rparr>) (md_prompts m)\<rparr>"

definition next_step :: "model \<Rightarrow> nat option" where
  "next_step m = position (\<lambda>e. en_state e = StepPending) (md_steps m)"

definition index_of :: "model \<Rightarrow> string \<Rightarrow> nat option" where
  "index_of m name = position (\<lambda>e. en_id e = name) (md_steps m)"

definition passed_through :: "model \<Rightarrow> string \<Rightarrow> bool" where
  "passed_through m name =
     (case index_of m name of
        None \<Rightarrow> False
      | Some through \<Rightarrow>
          list_all (\<lambda>e. en_state e \<in> {StepUnchosen, StepPassed}) (take (through + 1) (md_steps m)))"

definition ids_in :: "model \<Rightarrow> step_state \<Rightarrow> string list" where
  "ids_in m state = map en_id (filter (\<lambda>e. en_state e = state) (md_steps m))"

definition chosen_ids :: "model \<Rightarrow> string list" where
  "chosen_ids m = map en_id (filter (\<lambda>e. en_state e \<noteq> StepUnchosen) (md_steps m))"

definition held_answer :: "model \<Rightarrow> string \<Rightarrow> answer option" where
  "held_answer m key = bt_get (md_answers m) key"

section \<open>What moves the run\<close>

definition on_step :: "nat \<Rightarrow> (entry \<Rightarrow> entry) \<Rightarrow> model \<Rightarrow> model" where
  "on_step index f m = m\<lparr>md_steps := (md_steps m)[index := f (md_steps m ! index)]\<rparr>"

definition clear_run :: "model \<Rightarrow> model" where
  "clear_run m = m\<lparr>md_state := RunIdle, md_prompts := [], md_answers := [], md_asked_by := [],
     md_steps := map (\<lambda>e. e\<lparr>en_state := StepUnchosen, en_progress := None, en_reason := None,
       en_result := None\<rparr>) (md_steps m)\<rparr>"

definition begin_run :: "nat list \<Rightarrow> model \<Rightarrow> model" where
  "begin_run chosen m =
     (let m = fold (\<lambda>index. on_step index (\<lambda>e. e\<lparr>en_state := StepPending\<rparr>)) chosen (clear_run m)
      in m\<lparr>md_state := RunRunning, md_generation := md_generation m + 1\<rparr>)"

definition begin_next :: "model \<Rightarrow> nat option \<times> model" where
  "begin_next m =
     (case next_step m of
        None \<Rightarrow> (None, m)
      | Some index \<Rightarrow>
          (Some index, on_step index (\<lambda>e. e\<lparr>en_state := StepRunning, en_progress := None,
             en_reason := None, en_result := None\<rparr>) m))"

definition pass_step :: "nat \<Rightarrow> model \<Rightarrow> model" where
  "pass_step index = on_step index (\<lambda>e. e\<lparr>en_state := StepPassed, en_progress := None\<rparr>)"

definition fail_step :: "nat \<Rightarrow> string \<Rightarrow> model \<Rightarrow> model" where
  "fail_step index reason m =
     (on_step index (\<lambda>e. e\<lparr>en_state := StepFailed, en_reason := Some reason\<rparr>) m)\<lparr>md_state := RunFailed\<rparr>"

definition forget :: "string \<Rightarrow> model \<Rightarrow> model" where
  "forget key m =
     m\<lparr>md_answers := bt_remove key (md_answers m), md_asked_by := bt_remove key (md_asked_by m)\<rparr>"

definition retry :: "model \<Rightarrow> nat option \<times> model" where
  "retry m =
     (case position (\<lambda>e. en_state e = StepFailed) (md_steps m) of
        None \<Rightarrow> (None, m)
      | Some index \<Rightarrow>
          (let m = on_step index (\<lambda>e. e\<lparr>en_state := StepPending, en_reason := None\<rparr>) m;
               asked = map fst (filter (\<lambda>(_, step). step = index) (md_asked_by m));
               m = fold forget asked m
           in (Some index, m\<lparr>md_state := RunRunning, md_generation := md_generation m + 1\<rparr>)))"

definition finish :: "model \<Rightarrow> model" where
  "finish m = m\<lparr>md_state := RunFinished, md_prompts := [], md_answers := [], md_asked_by := []\<rparr>"

section \<open>Prompts\<close>

definition release :: "nat \<Rightarrow> model \<Rightarrow> model" where
  "release step m = m\<lparr>md_prompts :=
     map (\<lambda>p. if op_blocks p = Some step then p\<lparr>op_blocks := None, op_waiter := None\<rparr> else p)
       (filter (\<lambda>p. \<not> (op_blocks p = Some step \<and> op_step p = step)) (md_prompts m))\<rparr>"

definition close :: "string \<Rightarrow> model \<Rightarrow> model" where
  "close prompt m = m\<lparr>md_prompts := filter (\<lambda>p. op_id p \<noteq> prompt) (md_prompts m)\<rparr>"

definition close_key :: "string \<Rightarrow> model \<Rightarrow> model" where
  "close_key key m = m\<lparr>md_prompts := filter (\<lambda>p. op_key p \<noteq> key) (md_prompts m)\<rparr>"

definition open_question :: "nat \<Rightarrow> question \<Rightarrow> nat option \<Rightarrow> nat option \<Rightarrow> open_prompt" where
  "open_question step q blocks waiter =
     \<lparr>op_id = qu_key q, op_step = step, op_key = qu_key q, op_kind = qu_kind q, op_text = qu_text q,
      op_default = qu_default q, op_check = qu_check q, op_blocks = blocks, op_waiter = waiter\<rparr>"

definition need_answer :: "nat \<Rightarrow> string \<Rightarrow> prompt_kind \<Rightarrow> string \<Rightarrow> nat \<Rightarrow> model \<Rightarrow> need \<times> model" where
  "need_answer step key kind text channel m =
     (case bt_get (md_answers m) key of
        Some answer \<Rightarrow> (Held answer, m)
      | None \<Rightarrow>
          (Wait channel,
           case position (\<lambda>p. op_key p = key) (md_prompts m) of
             Some i \<Rightarrow> m\<lparr>md_prompts := (md_prompts m)
               [i := (md_prompts m ! i)\<lparr>op_blocks := Some step, op_waiter := Some channel\<rparr>]\<rparr>
           | None \<Rightarrow> m\<lparr>md_prompts := md_prompts m @
               [open_question step (question_new key kind text) (Some step) (Some channel)]\<rparr>))"

definition ask_later :: "nat \<Rightarrow> question \<Rightarrow> model \<Rightarrow> model" where
  "ask_later step q m =
     (let known = bt_has (md_answers m) (qu_key q) \<or> list_ex (\<lambda>p. op_key p = qu_key q) (md_prompts m)
      in if known then m
         else m\<lparr>md_prompts := md_prompts m @ [open_question step q None None]\<rparr>)"

definition notice :: "nat \<Rightarrow> string \<Rightarrow> string \<Rightarrow> model \<Rightarrow> string \<times> model" where
  "notice step key text m =
     (let p = open_question step (question_new key Notice text) (Some step) None
      in (op_id p, m\<lparr>md_prompts := md_prompts m @ [p]\<rparr>))"

section \<open>Answering\<close>

text \<open>Why an act is refused, in the words of the source, with what those words quote.\<close>

datatype act_reason =
    NoPromptOpen
  | TakesTrueOrFalse
  | TakesText
  | CheckSays string
  | UnknownAct string
  | NotAcceptedWhile string run_state
  | NoPlatformSerial
  | AtLeastOneStep
  | NoSuchStep string

record refusal =
  rf_at :: string
  rf_reason :: act_reason

definition answer_fits :: "prompt_kind \<Rightarrow> answer option \<Rightarrow> bool" where
  "answer_fits kind value =
     (case (kind, value) of
        (Confirm, Some v) \<Rightarrow> as_bool v \<noteq> None
      | (Text, Some v) \<Rightarrow> as_str v \<noteq> None
      | (Secret, Some v) \<Rightarrow> as_str v \<noteq> None
      | _ \<Rightarrow> False)"

definition check_refuses :: "check option \<Rightarrow> answer \<Rightarrow> string option" where
  "check_refuses check value =
     (case (check, as_str value) of
        (Some c, Some text) \<Rightarrow> (case c text of Inl reason \<Rightarrow> Some reason | Inr _ \<Rightarrow> None)
      | _ \<Rightarrow> None)"

definition member_at :: "string \<Rightarrow> string" where
  "member_at name = ''$['' @ [quote_char] @ name @ [quote_char] @ '']''"

text \<open>What it comes to, the model after it, and what is sent to the step waiting, if one is.\<close>

definition answer_prompt :: "string option \<Rightarrow> answer option \<Rightarrow> model
    \<Rightarrow> (refusal + unit) \<times> model \<times> (nat \<times> answer) option" where
  "answer_prompt prompt value m =
     (case (case prompt of
              None \<Rightarrow> None
            | Some name \<Rightarrow>
                (case position (\<lambda>p. op_id p = name) (md_prompts m) of
                   None \<Rightarrow> None
                 | Some i \<Rightarrow> if op_kind (md_prompts m ! i) \<noteq> Notice then Some i else None)) of
        None \<Rightarrow> (Inl \<lparr>rf_at = member_at ''prompt'', rf_reason = NoPromptOpen\<rparr>, m, None)
      | Some i \<Rightarrow>
          (let p = md_prompts m ! i in
           case (if answer_fits (op_kind p) value then value else None) of
             None \<Rightarrow> (Inl \<lparr>rf_at = member_at ''value'',
                rf_reason = (if op_kind p = Confirm then TakesTrueOrFalse else TakesText)\<rparr>, m, None)
           | Some v \<Rightarrow>
               (case check_refuses (op_check p) v of
                  Some reason \<Rightarrow> (Inl \<lparr>rf_at = member_at ''value'', rf_reason = CheckSays reason\<rparr>, m, None)
                | None \<Rightarrow>
                    (Inr (),
                     m\<lparr>md_prompts := take i (md_prompts m) @ drop (i + 1) (md_prompts m),
                       md_asked_by := bt_insert (op_key p) (op_step p) (md_asked_by m),
                       md_answers := bt_insert (op_key p) v (md_answers m)\<rparr>,
                     map_option (\<lambda>w. (w, v)) (op_waiter p)))))"

section \<open>What holds of every model\<close>

definition prompt_ok :: "nat \<Rightarrow> open_prompt \<Rightarrow> bool" where
  "prompt_ok n p \<longleftrightarrow> op_step p < n \<and> (\<forall>b. op_blocks p = Some b \<longrightarrow> b < n)"

definition model_ok :: "model \<Rightarrow> bool" where
  "model_ok m \<longleftrightarrow>
     (\<forall>p \<in> set (md_prompts m). prompt_ok (length (md_steps m)) p) \<and>
     bt_ok (md_answers m) \<and> bt_ok (md_asked_by m) \<and>
     (\<forall>k. bt_get (md_answers m) k = None \<longleftrightarrow> bt_get (md_asked_by m) k = None) \<and>
     md_state m \<noteq> RunWaiting \<and>
     (\<forall>e \<in> set (md_steps m). en_state e \<noteq> StepWaiting)"

lemma model_okI:
  assumes "\<And>p. p \<in> set (md_prompts m) \<Longrightarrow> prompt_ok (length (md_steps m)) p"
    and "bt_ok (md_answers m)" and "bt_ok (md_asked_by m)"
    and "\<And>k. bt_get (md_answers m) k = None \<longleftrightarrow> bt_get (md_asked_by m) k = None"
    and "md_state m \<noteq> RunWaiting" and "\<And>e. e \<in> set (md_steps m) \<Longrightarrow> en_state e \<noteq> StepWaiting"
  shows "model_ok m"
  using assms by (simp add: model_ok_def)

text \<open>What \<open>on_step\<close> does to each part; the other operations are built on it.\<close>

lemma on_step_fields [simp]:
  "length (md_steps (on_step i f m)) = length (md_steps m)"
  "md_prompts (on_step i f m) = md_prompts m"
  "md_answers (on_step i f m) = md_answers m"
  "md_asked_by (on_step i f m) = md_asked_by m"
  "md_state (on_step i f m) = md_state m"
  "md_generation (on_step i f m) = md_generation m"
  "md_built (on_step i f m) = md_built m"
  "md_checked (on_step i f m) = md_checked m"
  by (simp_all add: on_step_def)

lemma on_step_nth:
  "j < length (md_steps m) \<Longrightarrow>
     md_steps (on_step i f m) ! j = (if i = j then f (md_steps m ! j) else md_steps m ! j)"
  by (simp add: on_step_def nth_list_update)

lemma on_step_model_ok:
  assumes "model_ok m" and "\<And>e. en_state e \<noteq> StepWaiting \<Longrightarrow> en_state (f e) \<noteq> StepWaiting"
  shows "model_ok (on_step i f m)"
proof (cases "i < length (md_steps m)")
  case True
  have "en_state e \<noteq> StepWaiting" if "e \<in> set ((md_steps m)[i := f (md_steps m ! i)])" for e
    using that assms True set_update_subset_insert [of "md_steps m" i "f (md_steps m ! i)"]
    by (auto simp: model_ok_def)
  with assms(1) show ?thesis by (simp add: model_ok_def on_step_def)
qed (use assms(1) in \<open>simp add: on_step_def list_update_beyond\<close>)

lemma fold_on_step_fields [simp]:
  "length (md_steps (fold (\<lambda>i. on_step i f) is m)) = length (md_steps m)"
  "md_prompts (fold (\<lambda>i. on_step i f) is m) = md_prompts m"
  "md_answers (fold (\<lambda>i. on_step i f) is m) = md_answers m"
  "md_asked_by (fold (\<lambda>i. on_step i f) is m) = md_asked_by m"
  "md_state (fold (\<lambda>i. on_step i f) is m) = md_state m"
  "md_generation (fold (\<lambda>i. on_step i f) is m) = md_generation m"
  "md_built (fold (\<lambda>i. on_step i f) is m) = md_built m"
  "md_checked (fold (\<lambda>i. on_step i f) is m) = md_checked m"
  by (induction "is" arbitrary: m) simp_all

lemma fold_on_step_nth:
  assumes "\<And>e. f (f e) = f e"
  shows "j < length (md_steps m) \<Longrightarrow>
     md_steps (fold (\<lambda>i. on_step i f) is m) ! j = (if j \<in> set is then f (md_steps m ! j) else md_steps m ! j)"
  by (induction "is" arbitrary: m) (simp_all add: on_step_nth assms)

lemma fold_forget_fields [simp]:
  "md_steps (fold forget ks m) = md_steps m"
  "md_prompts (fold forget ks m) = md_prompts m"
  "md_state (fold forget ks m) = md_state m"
  "md_generation (fold forget ks m) = md_generation m"
  "md_built (fold forget ks m) = md_built m"
  "md_checked (fold forget ks m) = md_checked m"
  by (induction ks arbitrary: m) (simp_all add: forget_def)

lemma fold_forget_get:
  "bt_get (md_answers (fold forget ks m)) k = (if k \<in> set ks then None else bt_get (md_answers m) k)"
  "bt_get (md_asked_by (fold forget ks m)) k = (if k \<in> set ks then None else bt_get (md_asked_by m) k)"
  by (induction ks arbitrary: m) (simp_all add: forget_def)

lemma fold_forget_ok:
  "bt_ok (md_answers m) \<Longrightarrow> bt_ok (md_answers (fold forget ks m))"
  "bt_ok (md_asked_by m) \<Longrightarrow> bt_ok (md_asked_by (fold forget ks m))"
  by (induction ks arbitrary: m) (simp_all add: forget_def)

named_theorems keeps_ok \<open>the operations that keep a model well formed\<close>

lemma model_new_ok [keeps_ok]: "model_ok (model_new built steps)"
  by (auto simp: model_ok_def model_new_def)

lemma clear_run_ok [keeps_ok]: "model_ok m \<Longrightarrow> model_ok (clear_run m)"
  by (auto simp: model_ok_def clear_run_def)

lemma fold_on_step_ok:
  "model_ok m \<Longrightarrow> (\<And>e. en_state e \<noteq> StepWaiting \<Longrightarrow> en_state (f e) \<noteq> StepWaiting) \<Longrightarrow>
    model_ok (fold (\<lambda>i. on_step i f) is m)"
  by (induction "is" arbitrary: m) (simp_all add: on_step_model_ok)

lemma with_run_ok: "model_ok m \<Longrightarrow> s \<noteq> RunWaiting \<Longrightarrow> model_ok (m\<lparr>md_state := s, md_generation := g\<rparr>)"
  by (simp add: model_ok_def)

lemma with_state_ok: "model_ok m \<Longrightarrow> s \<noteq> RunWaiting \<Longrightarrow> model_ok (m\<lparr>md_state := s\<rparr>)"
  by (simp add: model_ok_def)

lemma begin_run_ok [keeps_ok]: "model_ok m \<Longrightarrow> model_ok (begin_run chosen m)"
  unfolding begin_run_def Let_def by (intro with_run_ok fold_on_step_ok clear_run_ok) simp_all

lemma begin_next_ok [keeps_ok]: "model_ok m \<Longrightarrow> model_ok (snd (begin_next m))"
  by (auto simp: begin_next_def intro: on_step_model_ok split: option.split)

lemma pass_step_ok [keeps_ok]: "model_ok m \<Longrightarrow> model_ok (pass_step i m)"
  by (simp add: pass_step_def on_step_model_ok)

lemma fail_step_ok [keeps_ok]: "model_ok m \<Longrightarrow> model_ok (fail_step i reason m)"
  unfolding fail_step_def by (intro with_state_ok on_step_model_ok) simp_all

lemma forget_ok [keeps_ok]: "model_ok m \<Longrightarrow> model_ok (forget k m)"
  by (auto simp: model_ok_def forget_def)

lemma fold_forget_model_ok: "model_ok m \<Longrightarrow> model_ok (fold forget ks m)"
  by (induction ks arbitrary: m) (simp_all add: forget_ok)

lemma retry_ok [keeps_ok]: "model_ok m \<Longrightarrow> model_ok (snd (retry m))"
  by (auto simp: retry_def Let_def intro!: with_run_ok fold_forget_model_ok on_step_model_ok split: option.split)

lemma finish_ok [keeps_ok]: "model_ok m \<Longrightarrow> model_ok (finish m)"
  by (simp add: model_ok_def finish_def)

lemma release_ok [keeps_ok]: "model_ok m \<Longrightarrow> model_ok (release i m)"
  by (auto simp: model_ok_def release_def prompt_ok_def)

lemma close_ok [keeps_ok]: "model_ok m \<Longrightarrow> model_ok (close k m)"
  by (auto simp: model_ok_def close_def)

lemma close_key_ok [keeps_ok]: "model_ok m \<Longrightarrow> model_ok (close_key k m)"
  by (auto simp: model_ok_def close_key_def)

lemma need_answer_ok [keeps_ok]:
  assumes "model_ok m" and "step < length (md_steps m)"
  shows "model_ok (snd (need_answer step key kind text channel m))"
proof -
  have "prompt_ok (length (md_steps m)) p"
    if "i < length (md_prompts m)"
      and "p \<in> set ((md_prompts m)[i := (md_prompts m ! i)\<lparr>op_blocks := Some step, op_waiter := Some channel\<rparr>])" for i p
    using set_update_subset_insert [of "md_prompts m" i] that assms
    by (fastforce simp: model_ok_def prompt_ok_def)
  with assms show ?thesis
    by (auto simp: need_answer_def model_ok_def prompt_ok_def open_question_def dest: position_SomeD
        split: option.split)
qed

lemma ask_later_ok [keeps_ok]: "model_ok m \<Longrightarrow> step < length (md_steps m) \<Longrightarrow> model_ok (ask_later step q m)"
  by (auto simp: ask_later_def model_ok_def prompt_ok_def open_question_def Let_def)

lemma notice_ok [keeps_ok]:
  "model_ok m \<Longrightarrow> step < length (md_steps m) \<Longrightarrow> model_ok (snd (notice step key text m))"
  by (auto simp: notice_def model_ok_def prompt_ok_def open_question_def Let_def)

lemma answer_prompt_ok [keeps_ok]: "model_ok m \<Longrightarrow> model_ok (fst (snd (answer_prompt prompt value m)))"
  by (auto simp: answer_prompt_def model_ok_def Let_def dest: in_set_takeD in_set_dropD
      split: option.split if_splits)

section \<open>Properties\<close>

lemma retry_at:
  "position (\<lambda>e. en_state e = StepFailed) (md_steps m) = Some i \<Longrightarrow>
     retry m = (Some i, (fold forget (map fst (filter (\<lambda>(_, step). step = i) (md_asked_by m)))
       (on_step i (\<lambda>e. e\<lparr>en_state := StepPending, en_reason := None\<rparr>) m))
       \<lparr>md_state := RunRunning, md_generation := md_generation m + 1\<rparr>)"
  by (simp add: retry_def Let_def)

lemma asked_keys:
  "bt_ok asked \<Longrightarrow> k \<in> set (map fst (filter (\<lambda>(_, step). step = i) asked)) \<longleftrightarrow> bt_get asked k = Some i"
  by (force simp: bt_ok_get_iff)

text \<open>A failed step is carried out again from its beginning, asking again what it asked: a retry
  makes the first failed step pending, forgets exactly the answers that step asked for, whatever else
  was answered stays held, and no other step moves.\<close>

lemma retry_asks_again:
  assumes "model_ok m" and "position (\<lambda>e. en_state e = StepFailed) (md_steps m) = Some i"
  shows "fst (retry m) = Some i
    \<and> md_state (snd (retry m)) = RunRunning \<and> md_generation (snd (retry m)) = md_generation m + 1
    \<and> en_state (md_steps (snd (retry m)) ! i) = StepPending
    \<and> (\<forall>j. j < length (md_steps m) \<longrightarrow> j \<noteq> i \<longrightarrow> md_steps (snd (retry m)) ! j = md_steps m ! j)
    \<and> (\<forall>key. held_answer (snd (retry m)) key
         = (if bt_get (md_asked_by m) key = Some i then None else held_answer m key))"
proof -
  from assms(2) have i: "i < length (md_steps m)" by (auto dest: position_SomeD)
  from assms(1) have ok: "bt_ok (md_asked_by m)" by (simp add: model_ok_def)
  show ?thesis
    by (simp add: retry_at [OF assms(2)] on_step_nth i held_answer_def fold_forget_get asked_keys [OF ok]
        del: set_map set_filter)
qed

definition example_model :: model where
  "example_model =
     (let m = snd (begin_next (begin_run [0, 1] (model_new (2026, 1, 1)
         [(''disk'', ''Disk'', True), (''name'', ''Name'', True)])));
          m = snd (need_answer 0 ''wipe'' Confirm ''Wipe?'' 7 m);
          m = ask_later 1 (question_new ''label'' Text ''Label'') m
      in m)"

lemma example_model_ok: "model_ok example_model"
  unfolding example_model_def Let_def
  by (intro ask_later_ok need_answer_ok begin_next_ok begin_run_ok model_new_ok)
    (simp_all add: begin_next_def begin_run_def next_step_def model_new_def clear_run_def need_answer_def on_step_def
      split: option.split)

lemma answer_fits_Some: "answer_fits kind value \<Longrightarrow> \<exists>v. value = Some v"
  by (auto simp: answer_fits_def split: option.splits prompt_kind.splits)

text \<open>Answering: an answer is taken exactly where a prompt that takes one is open under the id
  named, the value is of the prompt's type and its check accepts it.  Then that prompt alone closes,
  the value is held under its key with the step that asked, every other answer is as it was, and the
  step waiting for it is sent the value.  Otherwise nothing changes, nothing is sent, and the refusal
  names the member at fault.\<close>

lemma answer_taken_or_refused:
  "case answer_prompt prompt given m of
     (Inr _, m', sent) \<Rightarrow>
        (\<exists>name i v. prompt = Some name \<and> given = Some v
          \<and> position (\<lambda>p. op_id p = name) (md_prompts m) = Some i
          \<and> (let p = md_prompts m ! i in
              op_kind p \<noteq> Notice \<and> answer_fits (op_kind p) given \<and> check_refuses (op_check p) v = None
              \<and> md_prompts m' = take i (md_prompts m) @ drop (i + 1) (md_prompts m)
              \<and> (\<forall>key. held_answer m' key = (if key = op_key p then Some v else held_answer m key))
              \<and> bt_get (md_asked_by m') (op_key p) = Some (op_step p)
              \<and> sent = map_option (\<lambda>w. (w, v)) (op_waiter p)))
   | (Inl refusal, m', sent) \<Rightarrow> m' = m \<and> sent = None
        \<and> (rf_at refusal = member_at ''prompt'' \<and> (\<forall>name i. prompt = Some name
              \<and> position (\<lambda>p. op_id p = name) (md_prompts m) = Some i \<longrightarrow> op_kind (md_prompts m ! i) = Notice)
          \<or> rf_at refusal = member_at ''value'' \<and> (\<exists>name i. prompt = Some name
              \<and> position (\<lambda>p. op_id p = name) (md_prompts m) = Some i
              \<and> (let p = md_prompts m ! i in answer_fits (op_kind p) given
                  \<longrightarrow> (\<exists>v. given = Some v \<and> check_refuses (op_check p) v \<noteq> None))))"
  by (auto simp: answer_prompt_def held_answer_def Let_def dest: answer_fits_Some split: option.splits if_splits)

text \<open>Where the hypotheses inside it hold: an answer that is taken and one that is refused.\<close>

end
