(* ===== verification/Run_Engine.thy ===== *)
theory Run_Engine
  imports Run_Model
begin

text \<open>
  The engine of a provisioning run, \<open>crates/bliti/src/provision/run.rs\<close>, with the context it hands a
  step (\<open>context.rs\<close>) and what it keeps on the provisioning medium (\<open>store.rs\<close>).

  The engine is concurrent: front ends ask for acts, a task drives the run, a determination of the
  done-states may be under way, and tasks of runs that have ended may not have noticed yet.  Each
  holds the model's mutex for one change at a time, so an execution is an interleaving of the atomic
  changes here, in any order the scheduler likes.  A task is its place in \<open>drive\<close>; what its step does
  through its context, how the step ends and how the medium behaves are the environment's choice, an
  argument of the task's move.  Keeping and discarding the run hold the lock on the disk from reading
  the model to the end of the write, and only they touch the medium, so each is one change.

  An act changes the model under its lock and lets the lock go before it does the rest: a start or a
  retry spawns the run's task and then keeps its handle, a stop or an acknowledgement takes and aborts
  whatever task is held and then discards the run.  Each of these is a change of its own, so another
  front end's act, and any task, may come between them.
\<close>

section \<open>Steps, acts and the medium\<close>

text \<open>What a step says of itself, which the trait \<open>Step\<close> asks for.\<close>

record step_info =
  st_id :: string
  st_title :: string
  st_changes_board :: bool
  st_undone_by :: "string list"
  st_undoing :: string
  st_asks_after :: "string option"

record act =
  ac_act :: string
  ac_steps :: "string list option"
  ac_prompt :: "string option"
  ac_value :: "answer option"

datatype act_kind = StartAct | AnswerAct | RetryAct | StopAct | AcknowledgeAct

definition act_read :: "string \<Rightarrow> act_kind option" where
  "act_read name =
     (if name = ''start'' then Some StartAct
      else if name = ''answer'' then Some AnswerAct
      else if name = ''retry'' then Some RetryAct
      else if name = ''stop'' then Some StopAct
      else if name = ''acknowledge'' then Some AcknowledgeAct
      else None)"

fun accepted_in :: "act_kind \<Rightarrow> run_state \<Rightarrow> bool" where
  "accepted_in StartAct state = (state \<in> {RunIdle, RunFinished})"
| "accepted_in AnswerAct state = (state \<in> {RunRunning, RunWaiting, RunFailed})"
| "accepted_in RetryAct state = (state = RunFailed)"
| "accepted_in StopAct state = (state \<in> {RunWaiting, RunFailed})"
| "accepted_in AcknowledgeAct state = (state = RunFinished)"

record stored_failure =
  sf_step :: string
  sf_reason :: string

record stored =
  sd_chosen :: "string list"
  sd_passed :: "string list"
  sd_failed :: "stored_failure option"

text \<open>
  The medium holds at most one run of this board, written through a temporary file and a rename: a
  write ends well, fails with the run as it was, or fails with the run replaced and not yet known to
  be on the disk.
\<close>

datatype save_outcome = Saved | SavedUnsynced | NotSaved

fun store_save :: "save_outcome \<Rightarrow> stored \<Rightarrow> stored option \<Rightarrow> bool \<times> stored option" where
  "store_save Saved run kept = (True, Some run)"
| "store_save SavedUnsynced run kept = (False, Some run)"
| "store_save NotSaved run kept = (False, kept)"

definition store_clear :: "bool \<Rightarrow> stored option \<Rightarrow> stored option" where
  "store_clear ok kept = (if ok then None else kept)"

text \<open>A read fails, or finds a file that is no run, or gives what is kept.\<close>

datatype load_outcome = Loaded | LoadFailed

fun store_load :: "load_outcome \<Rightarrow> stored option \<Rightarrow> stored option" where
  "store_load Loaded kept = kept"
| "store_load LoadFailed kept = None"

section \<open>The engine's state\<close>

datatype outcome = StepOk | StepErr string | StepPanicked

text \<open>Where a task is in \<open>drive\<close>.\<close>

datatype drive_pc =
    Top
  | Asking "nat list"
  | Beginning
  | Keeping nat
  | Carrying nat
  | Ended nat outcome
  | Judging nat outcome
  | KeepingPassed
  | Failing nat string
  | KeepingFailed
  | Finishing
  | Forgetting
  | Over

text \<open>
  What an act that has let go of the model has still to do: spawn the task of a run, keep the handle of
  the task spawned, abort the task held, discard the run from the medium.
\<close>

datatype act_pc =
    Spawning u64
  | Holding nat
  | Aborting u64
  | Discarding u64

record drive_task =
  tk_generation :: u64
  tk_pc :: drive_pc
  tk_aborted :: bool

text \<open>
  \<open>in_store\<close> is nothing where the board has no platform serial, and what the medium keeps otherwise;
  \<open>in_task\<close> is the task whose handle is held, \<open>in_tasks\<close> every task spawned, \<open>in_acts\<close> the acts that have
  changed the model and are not through, \<open>in_sent\<close> what was sent to the steps waiting.
\<close>

record inner =
  in_steps :: "step_info list"
  in_model :: model
  in_changes :: snapshot
  in_store :: "stored option option"
  in_task :: "nat option"
  in_tasks :: "drive_task list"
  in_acts :: "act_pc list"
  in_sent :: "(nat \<times> answer) list"

definition publish :: "inner \<Rightarrow> inner" where
  "publish s = (let snap = model_snapshot (in_model s)
     in if in_changes s \<noteq> snap then s\<lparr>in_changes := snap\<rparr> else s)"

definition mutate :: "u64 \<Rightarrow> (model \<Rightarrow> 'r \<times> model) \<Rightarrow> inner \<Rightarrow> 'r option \<times> inner" where
  "mutate generation change s =
     (if md_generation (in_model s) \<noteq> generation then (None, s)
      else let (r, m) = change (in_model s) in (Some r, publish (s\<lparr>in_model := m\<rparr>)))"

definition spawn_task :: "u64 \<Rightarrow> inner \<Rightarrow> inner" where
  "spawn_task generation s =
     s\<lparr>in_tasks := in_tasks s @ [\<lparr>tk_generation = generation, tk_pc = Top, tk_aborted = False\<rparr>]\<rparr>"

definition hold_task :: "nat \<Rightarrow> inner \<Rightarrow> inner" where
  "hold_task i s = s\<lparr>in_task := Some i\<rparr>"

text \<open>Both at once, where nothing can come between: before the device takes any act.\<close>

definition drive_soon :: "u64 \<Rightarrow> inner \<Rightarrow> inner" where
  "drive_soon generation s = hold_task (length (in_tasks s)) (spawn_task generation s)"

definition abort_task :: "inner \<Rightarrow> inner" where
  "abort_task s =
     (case in_task s of
        None \<Rightarrow> s
      | Some i \<Rightarrow> s\<lparr>in_task := None,
          in_tasks := (in_tasks s)[i := (in_tasks s ! i)\<lparr>tk_aborted := True\<rparr>]\<rparr>)"

section \<open>The medium\<close>

definition stored_of :: "model \<Rightarrow> stored" where
  "stored_of m =
     \<lparr>sd_chosen = chosen_ids m,
      sd_passed = ids_in m StepPassed,
      sd_failed = map_option
        (\<lambda>e. \<lparr>sf_step = en_id e, sf_reason = (case en_reason e of None \<Rightarrow> '''' | Some r \<Rightarrow> r)\<rparr>)
        (List.find (\<lambda>e. en_state e = StepFailed) (md_steps m))\<rparr>"

text \<open>Whether the run was kept, and the state after.\<close>

definition record_run :: "u64 \<Rightarrow> save_outcome \<Rightarrow> inner \<Rightarrow> bool \<times> inner" where
  "record_run generation outcome s =
     (case in_store s of
        None \<Rightarrow> (True, s)
      | Some kept \<Rightarrow>
          (if md_generation (in_model s) \<noteq> generation then (True, s)
           else let (ok, kept) = store_save outcome (stored_of (in_model s)) kept
                in (ok, s\<lparr>in_store := Some kept\<rparr>)))"

definition forget_run :: "u64 \<Rightarrow> bool \<Rightarrow> inner \<Rightarrow> inner" where
  "forget_run generation cleared s =
     (case in_store s of
        None \<Rightarrow> s
      | Some kept \<Rightarrow>
          (if md_generation (in_model s) \<noteq> generation then s
           else s\<lparr>in_store := Some (store_clear cleared kept)\<rparr>))"

definition adopt :: "stored \<Rightarrow> model \<Rightarrow> bool \<times> model" where
  "adopt run m =
     (case (those (map (index_of m) (sd_chosen run)), those (map (index_of m) (sd_passed run))) of
        (Some chosen, Some passed) \<Rightarrow>
          (let failed = map_option (\<lambda>f. index_of m (sf_step f)) (sd_failed run) in
           if chosen = [] \<or> list_ex (\<lambda>i. i \<notin> set chosen) passed \<or> failed = Some None then (False, m)
           else let m = fold pass_step passed (begin_run chosen m) in
             (case (failed, sd_failed run) of
                (Some (Some i), Some f) \<Rightarrow>
                  if i \<notin> set chosen then (False, clear_run m)
                  else (True, fail_step i (sf_reason f) m)
              | _ \<Rightarrow> (True, m)))
      | _ \<Rightarrow> (False, m))"

section \<open>Acts\<close>

text \<open>The indices a start chooses, or the position of the first step named that is none of them.\<close>

definition chosen_indices :: "model \<Rightarrow> string list \<Rightarrow> nat + nat list" where
  "chosen_indices m names =
     (case position (\<lambda>name. index_of m name = None) names of
        Some at \<Rightarrow> Inl at
      | None \<Rightarrow> Inr (remdups_adj (sort (map (\<lambda>name. the (index_of m name)) names))))"

definition steps_at :: "nat \<Rightarrow> string" where
  "steps_at i = member_at ''steps'' @ ''['' @ decimal i @ '']''"

definition then_act :: "act_pc \<Rightarrow> inner \<Rightarrow> inner" where
  "then_act rest s = s\<lparr>in_acts := in_acts s @ [rest]\<rparr>"

text \<open>What an act does to the model while it holds its lock; what it has still to do then is in \<open>in_acts\<close>.\<close>

definition act_step :: "act \<Rightarrow> inner \<Rightarrow> (refusal + unit) \<times> inner" where
  "act_step act s =
     (case act_read (ac_act act) of
        None \<Rightarrow> (Inl \<lparr>rf_at = member_at ''act'', rf_reason = UnknownAct (ac_act act)\<rparr>, s)
      | Some kind \<Rightarrow>
          (let m = in_model s; state = model_run m in
           if \<not> accepted_in kind state
           then (Inl \<lparr>rf_at = ''$'', rf_reason = NotAcceptedWhile (ac_act act) state\<rparr>, s)
           else case kind of
             StartAct \<Rightarrow>
               (if in_store s = None then (Inl \<lparr>rf_at = ''$'', rf_reason = NoPlatformSerial\<rparr>, s)
                else let names = (case ac_steps act of None \<Rightarrow> [] | Some names \<Rightarrow> names) in
                  if names = [] then (Inl \<lparr>rf_at = member_at ''steps'', rf_reason = AtLeastOneStep\<rparr>, s)
                  else case chosen_indices m names of
                    Inl i \<Rightarrow>
                      (Inl \<lparr>rf_at = steps_at i, rf_reason = NoSuchStep (names ! i)\<rparr>, s)
                  | Inr indices \<Rightarrow>
                      (let m = begin_run indices m
                       in (Inr (), then_act (Spawning (md_generation m)) (publish (s\<lparr>in_model := m\<rparr>)))))
           | AnswerAct \<Rightarrow>
               (case answer_prompt (ac_prompt act) (ac_value act) m of
                  (Inl refusal, _, _) \<Rightarrow> (Inl refusal, s)
                | (Inr _, m, sent) \<Rightarrow>
                    (Inr (), publish (s\<lparr>in_model := m,
                       in_sent := in_sent s @ (case sent of None \<Rightarrow> [] | Some x \<Rightarrow> [x])\<rparr>)))
           | RetryAct \<Rightarrow>
               (let m = snd (retry m)
                in (Inr (), then_act (Spawning (md_generation m)) (publish (s\<lparr>in_model := m\<rparr>))))
           | _ \<Rightarrow>
               (let m = clear_run m;
                    m = m\<lparr>md_generation := md_generation m + 1\<rparr>
                in (Inr (), then_act (Aborting (md_generation m)) (publish (s\<lparr>in_model := m\<rparr>))))))"

text \<open>The next change of an act that has let go of the model, and what it has to do after it.\<close>

fun act_move :: "bool \<Rightarrow> act_pc \<Rightarrow> inner \<Rightarrow> act_pc option \<times> inner" where
  "act_move cleared (Spawning g) s = (Some (Holding (length (in_tasks s))), spawn_task g s)"
| "act_move cleared (Holding i) s = (None, hold_task i s)"
| "act_move cleared (Aborting g) s = (Some (Discarding g), abort_task s)"
| "act_move cleared (Discarding g) s = (None, forget_run g cleared s)"

section \<open>Done-states\<close>

definition find_undoer :: "step_info list \<Rightarrow> nat \<Rightarrow> done_report list \<Rightarrow> nat option" where
  "find_undoer steps index found =
     List.find (\<lambda>u. dn_state (found ! u) = NotDone)
       (List.map_filter (\<lambda>name. position (\<lambda>step. st_id step = name) (take index steps))
         (st_undone_by (steps ! index)))"

definition undone_why :: "string \<Rightarrow> done_report \<Rightarrow> string" where
  "undone_why undoing d =
     (case (dn_state d, dn_why d) of
        (IsDone, Some holds) \<Rightarrow> holds @ ''; '' @ undoing @ '' replaces it''
      | (IsDone, None) \<Rightarrow> undoing @ '' replaces it''
      | _ \<Rightarrow> undoing @ '' comes first'')"

definition undone_at :: "step_info list \<Rightarrow> nat \<Rightarrow> done_report list \<Rightarrow> done_report list" where
  "undone_at steps index found =
     (if dn_state (found ! index) = NotDone then found
      else case find_undoer steps index found of
        None \<Rightarrow> found
      | Some u \<Rightarrow> found[index := \<lparr>dn_state = NotDone,
          dn_why = Some (undone_why (st_undoing (steps ! u)) (found ! index))\<rparr>])"

definition undone :: "step_info list \<Rightarrow> done_report list \<Rightarrow> done_report list" where
  "undone steps found = fold (undone_at steps) [0..<length steps] found"

text \<open>What each step's check says, nothing where it panicked, in the order of the steps.\<close>

definition check_found :: "done_report option \<Rightarrow> done_report" where
  "check_found d =
     (case d of None \<Rightarrow> \<lparr>dn_state = DoneUnknown, dn_why = Some ''the check failed''\<rparr> | Some d \<Rightarrow> d)"

definition determine :: "(nat \<Rightarrow> done_report option) \<Rightarrow> inner \<Rightarrow> inner" where
  "determine checks s =
     (if \<not> at_rest (in_model s) then s
      else let found = undone (in_steps s) (map (\<lambda>i. check_found (checks i)) [0..<length (in_steps s)]);
               m = in_model s;
               m = m\<lparr>md_steps := map2 (\<lambda>e d. e\<lparr>en_done := d\<rparr>) (md_steps m) found @ drop (length found) (md_steps m),
                      md_checked := True\<rparr>
           in publish (s\<lparr>in_model := m\<rparr>))"

section \<open>What a step does through its context\<close>

text \<open>\<open>f64::clamp\<close> between 0 and 1, on the bits: a NaN and a negative zero stay as they are.\<close>

definition f64_magnitude :: "f64 \<Rightarrow> u64" where "f64_magnitude b = take_bit 63 b"
definition f64_one :: f64 where "f64_one = 0x3FF0000000000000"
definition f64_infinity :: f64 where "f64_infinity = 0x7FF0000000000000"

definition clamp_fraction :: "f64 \<Rightarrow> f64" where
  "clamp_fraction b =
     (if f64_magnitude b > f64_infinity then b
      else if bit b 63 \<and> f64_magnitude b \<noteq> 0 then 0
      else if \<not> bit b 63 \<and> f64_magnitude b > f64_one then f64_one
      else b)"

definition ctx_progress :: "u64 \<Rightarrow> nat \<Rightarrow> f64 \<Rightarrow> inner \<Rightarrow> inner" where
  "ctx_progress generation step fraction s = snd (mutate generation
     (\<lambda>m. ((), on_step step (\<lambda>e. e\<lparr>en_progress := Some (clamp_fraction fraction)\<rparr>) m)) s)"

definition ctx_result :: "u64 \<Rightarrow> nat \<Rightarrow> jmap \<Rightarrow> inner \<Rightarrow> inner" where
  "ctx_result generation step result s = snd (mutate generation
     (\<lambda>m. ((), on_step step (\<lambda>e. e\<lparr>en_result := Some result\<rparr>) m)) s)"

text \<open>
  What a step asking gets now: an answer held, or the channel it waits on, or nothing where its run is
  over, in which case it waits for ever.  \<open>confirmed\<close> and \<open>answered_text\<close> read the answer that comes.
\<close>

definition ctx_need :: "u64 \<Rightarrow> nat \<Rightarrow> string \<Rightarrow> prompt_kind \<Rightarrow> string \<Rightarrow> nat \<Rightarrow> inner \<Rightarrow> need option \<times> inner" where
  "ctx_need generation step key kind text channel s =
     mutate generation (need_answer step key kind text channel) s"

definition confirmed :: "answer \<Rightarrow> bool" where
  "confirmed a = (case as_bool a of None \<Rightarrow> False | Some b \<Rightarrow> b)"

definition answered_text :: "answer \<Rightarrow> string" where
  "answered_text a = (case as_str a of None \<Rightarrow> [] | Some t \<Rightarrow> t)"

definition ctx_ask_later :: "u64 \<Rightarrow> nat \<Rightarrow> question \<Rightarrow> inner \<Rightarrow> inner" where
  "ctx_ask_later generation step q s = snd (mutate generation (\<lambda>m. ((), ask_later step q m)) s)"

definition take_text :: "string \<Rightarrow> string option \<Rightarrow> model \<Rightarrow> string option \<times> model" where
  "take_text key def m =
     (case held_answer m key of
        Some held \<Rightarrow> (as_str held, m)
      | None \<Rightarrow> (case def of None \<Rightarrow> (None, m) | Some d \<Rightarrow> (Some d, close_key key m)))"

definition ctx_take_text :: "u64 \<Rightarrow> string \<Rightarrow> string option \<Rightarrow> inner \<Rightarrow> string option \<times> inner" where
  "ctx_take_text generation key def s =
     (let (r, s) = mutate generation (take_text key def) s in (Option.bind r (\<lambda>x. x), s))"

definition ctx_forget :: "u64 \<Rightarrow> string \<Rightarrow> inner \<Rightarrow> inner" where
  "ctx_forget generation key s = snd (mutate generation (\<lambda>m. ((), forget key m)) s)"

definition ctx_notice :: "u64 \<Rightarrow> nat \<Rightarrow> string \<Rightarrow> string \<Rightarrow> inner \<Rightarrow> string option \<times> inner" where
  "ctx_notice generation step key text s = mutate generation (notice step key text) s"

text \<open>A notice closed or dropped.\<close>

definition notice_drop :: "u64 \<Rightarrow> string option \<Rightarrow> inner \<Rightarrow> inner" where
  "notice_drop generation prompt s =
     (case prompt of None \<Rightarrow> s | Some p \<Rightarrow> snd (mutate generation (\<lambda>m. ((), close p m)) s))"

datatype ctx_op =
    CtxProgress f64
  | CtxResult jmap
  | CtxNeed string prompt_kind string nat
  | CtxAskLater question
  | CtxTakeText string "string option"
  | CtxForget string
  | CtxNotice string string
  | CtxNoticeDrop "string option"

fun ctx_step :: "u64 \<Rightarrow> nat \<Rightarrow> ctx_op \<Rightarrow> inner \<Rightarrow> inner" where
  "ctx_step g step (CtxProgress fraction) s = ctx_progress g step fraction s"
| "ctx_step g step (CtxResult result) s = ctx_result g step result s"
| "ctx_step g step (CtxNeed key kind text channel) s = snd (ctx_need g step key kind text channel s)"
| "ctx_step g step (CtxAskLater q) s = ctx_ask_later g step q s"
| "ctx_step g step (CtxTakeText key def) s = snd (ctx_take_text g key def s)"
| "ctx_step g step (CtxForget key) s = ctx_forget g key s"
| "ctx_step g step (CtxNotice key text) s = snd (ctx_notice g step key text s)"
| "ctx_step g step (CtxNoticeDrop prompt) s = notice_drop g prompt s"

section \<open>Driving the run\<close>

text \<open>The pending steps whose gate has passed.\<close>

definition due_to_ask :: "inner \<Rightarrow> nat list" where
  "due_to_ask s =
     (let m = in_model s in
      filter (\<lambda>i. case st_asks_after (in_steps s ! i) of None \<Rightarrow> False | Some after \<Rightarrow> passed_through m after)
        (filter (\<lambda>i. en_state (md_steps m ! i) = StepPending) [0..<length (in_steps s)]))"

text \<open>What the environment does at a task's move: a step uses its context, ends, or the medium answers.\<close>

datatype drive_env =
    Go
  | Uses ctx_op
  | Ends outcome
  | Keeps save_outcome
  | Clears bool

definition not_kept :: string where
  "not_kept = ''the run could not be kept on the medium: ''"

text \<open>One move of \<open>drive\<close> of generation \<open>g\<close> from a place in it; \<open>err\<close> is the text of an I/O error.\<close>

fun drive_move :: "string \<Rightarrow> u64 \<Rightarrow> drive_env \<Rightarrow> drive_pc \<Rightarrow> inner \<Rightarrow> drive_pc \<times> inner" where
  "drive_move err g env Top s =
     (if md_generation (in_model s) \<noteq> g then (Beginning, s) else (Asking (due_to_ask s), s))"
| "drive_move err g env (Asking []) s = (Beginning, s)"
| "drive_move err g env (Asking (i # due)) s =
     (case env of Uses op \<Rightarrow> (Asking (i # due), ctx_step g i op s) | _ \<Rightarrow> (Asking due, s))"
| "drive_move err g env Beginning s =
     (case mutate g begin_next s of
        (None, s) \<Rightarrow> (Over, s)
      | (Some None, s) \<Rightarrow> (Finishing, s)
      | (Some (Some i), s) \<Rightarrow> (Keeping i, s))"
| "drive_move err g env (Keeping i) s =
     (case env of
        Keeps outcome \<Rightarrow>
          (let (ok, s) = record_run g outcome s in (if ok then Carrying i else Failing i (not_kept @ err), s))
      | _ \<Rightarrow> (Keeping i, s))"
| "drive_move err g env (Carrying i) s =
     (case env of
        Uses op \<Rightarrow> (Carrying i, ctx_step g i op s)
      | Ends outcome \<Rightarrow> (Ended i outcome, s)
      | _ \<Rightarrow> (Carrying i, s))"
| "drive_move err g env (Ended i outcome) s =
     (Judging i outcome, snd (mutate g (\<lambda>m. ((), release i m)) s))"
| "drive_move err g env (Judging i StepOk) s =
     (case mutate g (\<lambda>m. ((), pass_step i m)) s of
        (None, s) \<Rightarrow> (Over, s)
      | (Some _, s) \<Rightarrow> (KeepingPassed, s))"
| "drive_move err g env (Judging i (StepErr reason)) s = (Failing i reason, s)"
| "drive_move err g env (Judging i StepPanicked) s = (Failing i ''the step panicked'', s)"
| "drive_move err g env KeepingPassed s =
     (case env of Keeps outcome \<Rightarrow> (Top, snd (record_run g outcome s)) | _ \<Rightarrow> (KeepingPassed, s))"
| "drive_move err g env (Failing i reason) s =
     (case mutate g (\<lambda>m. ((), fail_step i reason m)) s of
        (None, s) \<Rightarrow> (Over, s)
      | (Some _, s) \<Rightarrow> (KeepingFailed, s))"
| "drive_move err g env KeepingFailed s =
     (case env of Keeps outcome \<Rightarrow> (Over, snd (record_run g outcome s)) | _ \<Rightarrow> (KeepingFailed, s))"
| "drive_move err g env Finishing s =
     (case mutate g (\<lambda>m. ((), finish m)) s of
        (None, s) \<Rightarrow> (Over, s)
      | (Some _, s) \<Rightarrow> (Forgetting, s))"
| "drive_move err g env Forgetting s =
     (case env of Clears ok \<Rightarrow> (Over, forget_run g ok s) | _ \<Rightarrow> (Forgetting, s))"
| "drive_move err g env Over s = (Over, s)"

section \<open>The device\<close>

definition model_of_steps :: "step_info list \<Rightarrow> date \<Rightarrow> model" where
  "model_of_steps steps built =
     model_new built (map (\<lambda>step. (st_id step, st_title step, st_changes_board step)) steps)"

text \<open>\<open>Provisioner::start\<close>, and the \<open>resume\<close> it ends in.\<close>

definition engine_resume :: "load_outcome \<Rightarrow> bool \<Rightarrow> inner \<Rightarrow> inner" where
  "engine_resume load cleared s =
     (case (case in_store s of None \<Rightarrow> None | Some kept \<Rightarrow> store_load load kept) of
        None \<Rightarrow> s
      | Some run \<Rightarrow>
          (let (adopted, m) = adopt run (in_model s);
               s = publish (s\<lparr>in_model := m\<rparr>)
           in if adopted
              then (if model_run m = RunFailed then s else drive_soon (md_generation m) s)
              else s\<lparr>in_store := map_option (store_clear cleared) (in_store s)\<rparr>))"

definition engine_start :: "step_info list \<Rightarrow> stored option option \<Rightarrow> date \<Rightarrow> load_outcome \<Rightarrow> bool \<Rightarrow> inner" where
  "engine_start steps store built load cleared =
     (let m = model_of_steps steps built
      in engine_resume load cleared
        \<lparr>in_steps = steps, in_model = m, in_changes = model_snapshot m, in_store = store,
         in_task = None, in_tasks = [], in_acts = [], in_sent = []\<rparr>)"

text \<open>
  What happens next: an act, a move of one task, a task aborted at a place where it waits, the next
  change of an act that has let go of the model, a determination coming to its end, or a reboot.
\<close>

datatype engine_event =
    Asks act
  | Moves nat string drive_env
  | Dropped nat
  | Follows nat bool
  | Determines "nat \<Rightarrow> done_report option"
  | Reboots load_outcome bool

fun engine_step :: "inner \<Rightarrow> engine_event \<Rightarrow> inner" where
  "engine_step s (Asks act) = snd (act_step act s)"
| "engine_step s (Moves i err env) =
     (if i < length (in_tasks s)
      then let t = in_tasks s ! i;
               (pc, s) = drive_move err (tk_generation t) env (tk_pc t) s
           in s\<lparr>in_tasks := (in_tasks s)[i := t\<lparr>tk_pc := pc\<rparr>]\<rparr>
      else s)"
| "engine_step s (Dropped i) =
     (if i < length (in_tasks s) \<and> tk_aborted (in_tasks s ! i) \<and> tk_pc (in_tasks s ! i) \<noteq> Forgetting
      then s\<lparr>in_tasks := (in_tasks s)[i := (in_tasks s ! i)\<lparr>tk_pc := Over\<rparr>]\<rparr>
      else s)"
| "engine_step s (Follows i cleared) =
     (if i < length (in_acts s)
      then let (rest, s) = act_move cleared (in_acts s ! i) s
           in s\<lparr>in_acts := take i (in_acts s) @ (case rest of None \<Rightarrow> [] | Some a \<Rightarrow> [a]) @ drop (i + 1) (in_acts s)\<rparr>
      else s)"
| "engine_step s (Determines checks) = determine checks s"
| "engine_step s (Reboots load cleared) =
     engine_start (in_steps s) (in_store s) (md_built (in_model s)) load cleared"

section \<open>How the parts act on the state\<close>

lemma publish_fields [simp]:
  "in_model (publish s) = in_model s" "in_steps (publish s) = in_steps s"
  "in_store (publish s) = in_store s" "in_task (publish s) = in_task s"
  "in_tasks (publish s) = in_tasks s" "in_acts (publish s) = in_acts s"
  "in_sent (publish s) = in_sent s" "in_changes (publish s) = model_snapshot (in_model s)"
  by (simp_all add: publish_def Let_def)

lemma drive_soon_fields [simp]:
  "in_model (drive_soon g s) = in_model s" "in_steps (drive_soon g s) = in_steps s"
  "in_store (drive_soon g s) = in_store s" "in_changes (drive_soon g s) = in_changes s"
  "in_acts (drive_soon g s) = in_acts s" "in_sent (drive_soon g s) = in_sent s"
  "in_tasks (drive_soon g s) = in_tasks s @ [\<lparr>tk_generation = g, tk_pc = Top, tk_aborted = False\<rparr>]"
  by (simp_all add: drive_soon_def spawn_task_def hold_task_def)

lemma then_act_fields [simp]:
  "in_model (then_act a s) = in_model s" "in_steps (then_act a s) = in_steps s"
  "in_store (then_act a s) = in_store s" "in_changes (then_act a s) = in_changes s"
  "in_task (then_act a s) = in_task s" "in_tasks (then_act a s) = in_tasks s"
  "in_sent (then_act a s) = in_sent s" "in_acts (then_act a s) = in_acts s @ [a]"
  by (simp_all add: then_act_def)

lemma abort_task_fields [simp]:
  "in_model (abort_task s) = in_model s" "in_steps (abort_task s) = in_steps s"
  "in_store (abort_task s) = in_store s" "in_changes (abort_task s) = in_changes s"
  "in_acts (abort_task s) = in_acts s" "in_sent (abort_task s) = in_sent s"
  "length (in_tasks (abort_task s)) = length (in_tasks s)"
  by (simp_all add: abort_task_def split: option.split)

lemma act_move_all:
  "in_model (snd (act_move cleared a s)) = in_model s \<and> in_steps (snd (act_move cleared a s)) = in_steps s
    \<and> in_changes (snd (act_move cleared a s)) = in_changes s \<and> in_acts (snd (act_move cleared a s)) = in_acts s
    \<and> in_sent (snd (act_move cleared a s)) = in_sent s"
  by (cases a) (simp_all add: spawn_task_def hold_task_def forget_run_def split: option.split)

lemmas act_move_keeps [simp] =
  act_move_all [THEN conjunct1] act_move_all [THEN conjunct2, THEN conjunct1]
  act_move_all [THEN conjunct2, THEN conjunct2, THEN conjunct1]
  act_move_all [THEN conjunct2, THEN conjunct2, THEN conjunct2, THEN conjunct1]
  act_move_all [THEN conjunct2, THEN conjunct2, THEN conjunct2, THEN conjunct2]

lemma those_Some_iff: "those xs = Some ys \<longleftrightarrow> xs = map Some ys"
proof (induction xs arbitrary: ys)
  case (Cons x xs)
  then show ?case by (cases x; cases ys) auto
qed auto

lemma map_filter_nth:
  "map f (filter P xs) = map (\<lambda>j. f (xs ! j)) (filter (\<lambda>j. P (xs ! j)) [0..<length xs])"
proof -
  have "filter P xs = filter P (map (\<lambda>j. xs ! j) [0..<length xs])" by (simp add: map_nth)
  also have "\<dots> = map (\<lambda>j. xs ! j) (filter (\<lambda>j. P (xs ! j)) [0..<length xs])"
    by (simp add: filter_map comp_def)
  finally show ?thesis by simp
qed

lemma index_of_nth:
  assumes "map en_id (md_steps m) = ids" and "distinct ids" and "j < length ids"
  shows "index_of m (ids ! j) = Some j"
proof -
  have len: "length (md_steps m) = length ids" using assms(1) by auto
  have ids: "en_id (md_steps m ! i) = ids ! i" if "i < length ids" for i
    using assms(1) that by auto
  have "en_id (md_steps m ! j) = ids ! j" using ids assms(3) by simp
  then obtain i where i: "position (\<lambda>e. en_id e = ids ! j) (md_steps m) = Some i"
    using position_ex [of "md_steps m ! j" "md_steps m"] assms(3) len by fastforce
  from position_SomeD [OF this] len ids have "i < length ids" "ids ! i = ids ! j" by auto
  with assms(2,3) have "i = j" by (simp add: nth_eq_iff_index_eq)
  with i show ?thesis by (simp add: index_of_def)
qed

lemma index_of_lt: "index_of m name = Some i \<Longrightarrow> i < length (md_steps m) \<and> en_id (md_steps m ! i) = name"
  by (auto simp: index_of_def dest: position_SomeD)

text \<open>The ids of the steps are those the model was made with, and nothing changes them.\<close>

definition step_ids :: "model \<Rightarrow> string list" where
  "step_ids m = map en_id (md_steps m)"

lemma those_indices:
  assumes "step_ids m0 = step_ids m" and "distinct (step_ids m)"
  shows "those (map (index_of m0) (map en_id (filter P (md_steps m)))) =
    Some (filter (\<lambda>j. P (md_steps m ! j)) [0..<length (md_steps m)])"
proof -
  have "index_of m0 (en_id (md_steps m ! j)) = Some j" if "j < length (md_steps m)" for j
    using index_of_nth [of m0 "step_ids m" j] assms that by (simp add: step_ids_def)
  then show ?thesis
    by (simp add: map_filter_nth [of en_id] those_Some_iff)
qed

section \<open>Beginning a run\<close>

lemma clear_run_fields [simp]:
  "length (md_steps (clear_run m)) = length (md_steps m)"
  "md_generation (clear_run m) = md_generation m" "md_built (clear_run m) = md_built m"
  "md_checked (clear_run m) = md_checked m" "md_state (clear_run m) = RunIdle"
  "md_prompts (clear_run m) = []" "md_answers (clear_run m) = []" "md_asked_by (clear_run m) = []"
  by (simp_all add: clear_run_def)

lemma begin_run_fields [simp]:
  "length (md_steps (begin_run chosen m)) = length (md_steps m)"
  "md_generation (begin_run chosen m) = md_generation m + 1"
  "md_state (begin_run chosen m) = RunRunning" "md_prompts (begin_run chosen m) = []"
  "md_answers (begin_run chosen m) = []" "md_asked_by (begin_run chosen m) = []"
  by (simp_all add: begin_run_def Let_def)

lemma begin_run_nth:
  "j < length (md_steps m) \<Longrightarrow> md_steps (begin_run chosen m) ! j =
     (md_steps m ! j)\<lparr>en_state := if j \<in> set chosen then StepPending else StepUnchosen,
        en_progress := None, en_reason := None, en_result := None\<rparr>"
  by (simp add: begin_run_def Let_def fold_on_step_nth) (simp add: clear_run_def)

lemma pass_step_eta: "pass_step = (\<lambda>i. on_step i (\<lambda>e. e\<lparr>en_state := StepPassed, en_progress := None\<rparr>))"
  by (simp add: fun_eq_iff pass_step_def)

lemma fold_pass_fields [simp]:
  "length (md_steps (fold pass_step ps m)) = length (md_steps m)"
  "md_generation (fold pass_step ps m) = md_generation m"
  "md_state (fold pass_step ps m) = md_state m" "md_prompts (fold pass_step ps m) = md_prompts m"
  "md_answers (fold pass_step ps m) = md_answers m" "md_asked_by (fold pass_step ps m) = md_asked_by m"
  by (simp_all add: pass_step_eta)

lemma fold_pass_nth:
  "j < length (md_steps m) \<Longrightarrow> md_steps (fold pass_step ps m) ! j =
     (if j \<in> set ps then (md_steps m ! j)\<lparr>en_state := StepPassed, en_progress := None\<rparr> else md_steps m ! j)"
  by (simp add: pass_step_eta fold_on_step_nth)

lemma fail_step_fields [simp]:
  "length (md_steps (fail_step i r m)) = length (md_steps m)"
  "md_generation (fail_step i r m) = md_generation m" "md_state (fail_step i r m) = RunFailed"
  "md_prompts (fail_step i r m) = md_prompts m" "md_answers (fail_step i r m) = md_answers m"
  "md_asked_by (fail_step i r m) = md_asked_by m"
  by (simp_all add: fail_step_def)

lemma fail_step_nth:
  "j < length (md_steps m) \<Longrightarrow> md_steps (fail_step i r m) ! j =
     (if i = j then (md_steps m ! j)\<lparr>en_state := StepFailed, en_reason := Some r\<rparr> else md_steps m ! j)"
  by (simp add: fail_step_def on_step_nth)

section \<open>Taking a kept run up\<close>

lemma adopt_eq:
  assumes "those (map (index_of m) (sd_chosen run)) = Some chosen"
    and "those (map (index_of m) (sd_passed run)) = Some passed"
    and "chosen \<noteq> []" and "set passed \<subseteq> set chosen"
  shows "sd_failed run = None \<Longrightarrow> adopt run m = (True, fold pass_step passed (begin_run chosen m))"
    and "sd_failed run = Some f \<Longrightarrow> index_of m (sf_step f) = Some i \<Longrightarrow> i \<in> set chosen \<Longrightarrow>
      adopt run m = (True, fail_step i (sf_reason f) (fold pass_step passed (begin_run chosen m)))"
  using assms by (auto simp: adopt_def Let_def list_ex_iff)

text \<open>What a run becomes when it is taken up again: what was being carried out is pending.\<close>

definition resumed_state :: "step_state \<Rightarrow> step_state" where
  "resumed_state st = (if st = StepRunning \<or> st = StepWaiting then StepPending else st)"

lemma find_first:
  assumes "i < length xs" and "P (xs ! i)" and "\<And>j. j < length xs \<Longrightarrow> P (xs ! j) \<Longrightarrow> j = i"
  shows "List.find P xs = Some (xs ! i)"
proof (cases "List.find P xs")
  case None
  with assms(1,2) show ?thesis by (auto simp: find_None_iff')
next
  case (Some x)
  then obtain j where "j < length xs" "xs ! j = x" "P x"
    by (metis find_SomeD in_set_conv_nth)
  with assms(3) Some show ?thesis by auto
qed

section \<open>Properties\<close>

lemma adopt_stored_of:
  assumes ids: "step_ids m0 = step_ids m" "distinct (step_ids m)"
    and some: "\<exists>e \<in> set (md_steps m). en_state e \<noteq> StepUnchosen"
    and one: "\<And>i j. i < length (md_steps m) \<Longrightarrow> j < length (md_steps m) \<Longrightarrow>
      en_state (md_steps m ! i) = StepFailed \<Longrightarrow> en_state (md_steps m ! j) = StepFailed \<Longrightarrow> i = j"
    and m': "m' = snd (adopt (stored_of m) m0)"
  shows "fst (adopt (stored_of m) m0) = True \<and> length (md_steps m') = length (md_steps m)
    \<and> md_generation m' = md_generation m0 + 1
    \<and> md_state m' = (if \<exists>e \<in> set (md_steps m). en_state e = StepFailed then RunFailed else RunRunning)
    \<and> md_prompts m' = [] \<and> md_answers m' = [] \<and> md_asked_by m' = []
    \<and> (\<forall>j < length (md_steps m). md_steps m' ! j = (md_steps m0 ! j)
        \<lparr>en_state := resumed_state (en_state (md_steps m ! j)), en_progress := None,
         en_reason := (if en_state (md_steps m ! j) = StepFailed
           then Some (case en_reason (md_steps m ! j) of None \<Rightarrow> [] | Some r \<Rightarrow> r) else None),
         en_result := None\<rparr>)"
proof -
  let ?n = "length (md_steps m)"
  let ?st = "\<lambda>j. en_state (md_steps m ! j)"
  define chosen where "chosen = filter (\<lambda>j. ?st j \<noteq> StepUnchosen) [0..<?n]"
  define passed where "passed = filter (\<lambda>j. ?st j = StepPassed) [0..<?n]"
  have len: "length (md_steps m0) = ?n" using ids(1) by (metis length_map step_ids_def)
  have chosen: "those (map (index_of m0) (sd_chosen (stored_of m))) = Some chosen"
    and passed: "those (map (index_of m0) (sd_passed (stored_of m))) = Some passed"
    using those_indices [OF ids] by (simp_all add: stored_of_def chosen_ids_def ids_in_def chosen_def passed_def)
  have ne: "chosen \<noteq> []" using some by (force simp: chosen_def filter_empty_conv in_set_conv_nth)
  have sub: "set passed \<subseteq> set chosen" by (auto simp: chosen_def passed_def)
  note eqs = adopt_eq [OF chosen passed ne sub]
  show ?thesis
  proof (cases "\<exists>i < ?n. ?st i = StepFailed")
    case False
    then have none: "\<forall>e \<in> set (md_steps m). en_state e \<noteq> StepFailed" by (auto simp: in_set_conv_nth)
    then have "List.find (\<lambda>e. en_state e = StepFailed) (md_steps m) = None" by (simp add: find_None_iff')
    then have eq: "adopt (stored_of m) m0 = (True, fold pass_step passed (begin_run chosen m0))"
      using eqs(1) by (simp add: stored_of_def)
    have nth: "md_steps m' ! j = (md_steps m0 ! j)
        \<lparr>en_state := resumed_state (?st j), en_progress := None,
         en_reason := (if ?st j = StepFailed
           then Some (case en_reason (md_steps m ! j) of None \<Rightarrow> [] | Some r \<Rightarrow> r) else None),
         en_result := None\<rparr>" if j: "j < ?n" for j
      using none j nth_mem [OF j]
      by (cases "?st j")
        (simp_all add: m' eq len fold_pass_nth begin_run_nth chosen_def passed_def resumed_state_def)
    have "\<not> (\<exists>e \<in> set (md_steps m). en_state e = StepFailed)" using none by blast
    with nth show ?thesis by (simp add: m' eq len)
  next
    case True
    then obtain i where i: "i < ?n" "?st i = StepFailed" by blast
    with one have only: "j < ?n \<Longrightarrow> ?st j = StepFailed \<Longrightarrow> j = i" for j by blast
    have "List.find (\<lambda>e. en_state e = StepFailed) (md_steps m) = Some (md_steps m ! i)"
      by (rule find_first [where P = "\<lambda>e. en_state e = StepFailed"]) (use i only in blast)+
    moreover define f where "f = \<lparr>sf_step = en_id (md_steps m ! i),
      sf_reason = (case en_reason (md_steps m ! i) of None \<Rightarrow> [] | Some r \<Rightarrow> r)\<rparr>"
    ultimately have f: "sd_failed (stored_of m) = Some f" "sf_step f = en_id (md_steps m ! i)"
      "sf_reason f = (case en_reason (md_steps m ! i) of None \<Rightarrow> [] | Some r \<Rightarrow> r)"
      by (simp_all add: stored_of_def f_def)
    have "index_of m0 (sf_step f) = Some i"
      using index_of_nth [of m0 "step_ids m" i] ids i(1) f(2) by (simp add: step_ids_def)
    moreover have "i \<in> set chosen" using i by (simp add: chosen_def)
    ultimately have eq: "adopt (stored_of m) m0
        = (True, fail_step i (sf_reason f) (fold pass_step passed (begin_run chosen m0)))"
      using eqs(2) f(1) by blast
    have failed: "\<exists>e \<in> set (md_steps m). en_state e = StepFailed" using i by auto
    have nth: "md_steps m' ! j = (md_steps m0 ! j)
        \<lparr>en_state := resumed_state (?st j), en_progress := None,
         en_reason := (if ?st j = StepFailed
           then Some (case en_reason (md_steps m ! j) of None \<Rightarrow> [] | Some r \<Rightarrow> r) else None),
         en_result := None\<rparr>" if j: "j < ?n" for j
    proof (cases "j = i")
      case True
      with i j show ?thesis
        by (simp add: m' eq len fail_step_nth fold_pass_nth begin_run_nth chosen_def passed_def resumed_state_def f(3))
    next
      case False
      with only j have "?st j \<noteq> StepFailed" by blast
      with False j show ?thesis
        by (cases "?st j")
          (simp_all add: m' eq len fail_step_nth fold_pass_nth begin_run_nth chosen_def passed_def resumed_state_def)
    qed
    from nth failed show ?thesis by (simp add: m' eq len)
  qed
qed

text \<open>An act changes the device exactly where it is accepted: it is one the device knows, in a run
  state that takes it, a start names at least one step and only steps the device has on a board that
  can keep a run, and an answer fits the prompt it names.  Any other act is refused and changes
  nothing at all.\<close>

lemma act_decided:
  "(\<forall>refusal. fst (act_step act s) = Inl refusal \<longrightarrow> snd (act_step act s) = s)
    \<and> (fst (act_step act s) = Inr () \<longleftrightarrow>
        (\<exists>kind. act_read (ac_act act) = Some kind \<and> accepted_in kind (model_run (in_model s))
          \<and> (kind = StartAct \<longrightarrow> in_store s \<noteq> None
              \<and> (\<exists>names. ac_steps act = Some names \<and> names \<noteq> []
                  \<and> (\<forall>name \<in> set names. index_of (in_model s) name \<noteq> None)))
          \<and> (kind = AnswerAct \<longrightarrow> fst (answer_prompt (ac_prompt act) (ac_value act) (in_model s)) = Inr ())))"
proof (cases "act_read (ac_act act)")
  case None
  then show ?thesis by (simp add: act_step_def)
next
  case (Some kind)
  show ?thesis
  proof (cases "accepted_in kind (model_run (in_model s))")
    case False
    with Some show ?thesis by (simp add: act_step_def Let_def)
  next
    case True
    show ?thesis
    proof (cases kind)
      case StartAct
      with Some True show ?thesis
        by (cases "ac_steps act")
          (auto simp: act_step_def Let_def chosen_indices_def position_None_iff
            dest: position_Some_ex split: option.split sum.split)
    next
      case AnswerAct
      with Some True show ?thesis
        by (cases "answer_prompt (ac_prompt act) (ac_value act) (in_model s)")
          (auto simp: act_step_def Let_def split: sum.split)
    qed (use Some True in \<open>simp_all add: act_step_def Let_def\<close>)
  qed
qed

definition example_step :: "string \<Rightarrow> step_info" where
  "example_step name = \<lparr>st_id = name, st_title = name, st_changes_board = True, st_undone_by = [],
     st_undoing = name, st_asks_after = None\<rparr>"

definition example_steps :: "step_info list" where
  "example_steps = [example_step ''disk'', (example_step ''name'')\<lparr>st_undone_by := [''disk'']\<rparr>]"

definition start_of :: "string list \<Rightarrow> act" where
  "start_of names = \<lparr>ac_act = ''start'', ac_steps = Some names, ac_prompt = None, ac_value = None\<rparr>"

definition example_engine :: inner where
  "example_engine = engine_start example_steps (Some None) (2026, 1, 1) Loaded True"

lemma chosen_indices_set:
  "chosen_indices m names = Inr indices \<Longrightarrow> set indices = {i. \<exists>name \<in> set names. index_of m name = Some i}"
  by (force simp: chosen_indices_def position_None_iff split: option.splits)

text \<open>A start takes the steps named, in the device's order whatever order they were named in: each
  named step is pending and every other unchosen, nothing of the last run is left, the run has a
  generation of its own, and the act has a task of that generation to spawn.\<close>

lemma start_begins_chosen:
  assumes "act_read (ac_act act) = Some StartAct" and "fst (act_step act s) = Inr ()"
    and "ac_steps act = Some names"
  shows "let s' = snd (act_step act s); m' = in_model s' in
      md_state m' = RunRunning \<and> md_generation m' = md_generation (in_model s) + 1
      \<and> md_prompts m' = [] \<and> md_answers m' = [] \<and> md_asked_by m' = []
      \<and> (\<forall>j < length (md_steps (in_model s)). en_reason (md_steps m' ! j) = None
          \<and> en_state (md_steps m' ! j) =
            (if \<exists>name \<in> set names. index_of (in_model s) name = Some j then StepPending else StepUnchosen))
      \<and> in_acts s' = in_acts s @ [Spawning (md_generation m')] \<and> in_tasks s' = in_tasks s
      \<and> in_changes s' = model_snapshot m' \<and> in_store s' = in_store s"
proof -
  from assms obtain indices where ix: "chosen_indices (in_model s) names = Inr indices"
    and step: "snd (act_step act s) = then_act (Spawning (md_generation (begin_run indices (in_model s))))
      (publish (s\<lparr>in_model := begin_run indices (in_model s)\<rparr>))"
    by (auto simp: act_step_def Let_def split: if_splits sum.splits)
  then show ?thesis by (simp add: Let_def begin_run_nth chosen_indices_set [OF ix])
qed

text \<open>C31. A run survives a reboot: taking up what was kept of a run, on a device with the same steps,
  gives that run again, with what had passed passed, what was chosen and not reached pending, what
  was being carried out pending again from its beginning, and what failed failed for the same reason
  and waiting for a retry.\<close>

theorem reboot_resumes_the_run:
  assumes "step_ids m0 = step_ids m" and "distinct (step_ids m)"
    and "\<exists>e \<in> set (md_steps m). en_state e \<noteq> StepUnchosen"
    and "\<And>i j. i < length (md_steps m) \<Longrightarrow> j < length (md_steps m) \<Longrightarrow>
      en_state (md_steps m ! i) = StepFailed \<Longrightarrow> en_state (md_steps m ! j) = StepFailed \<Longrightarrow> i = j"
  shows "let (adopted, m') = adopt (stored_of m) m0 in adopted
    \<and> md_state m' = (if \<exists>e \<in> set (md_steps m). en_state e = StepFailed then RunFailed else RunRunning)
    \<and> (\<forall>j < length (md_steps m).
         en_state (md_steps m' ! j) = resumed_state (en_state (md_steps m ! j))
         \<and> (en_state (md_steps m ! j) = StepFailed \<longrightarrow> en_reason (md_steps m ! j) \<noteq> None \<longrightarrow>
             en_reason (md_steps m' ! j) = en_reason (md_steps m ! j)))"
proof -
  note adopted = adopt_stored_of [OF assms refl]
  then have nth: "\<And>j. j < length (md_steps m) \<Longrightarrow> md_steps (snd (adopt (stored_of m) m0)) ! j = (md_steps m0 ! j)
        \<lparr>en_state := resumed_state (en_state (md_steps m ! j)), en_progress := None,
         en_reason := (if en_state (md_steps m ! j) = StepFailed
           then Some (case en_reason (md_steps m ! j) of None \<Rightarrow> [] | Some r \<Rightarrow> r) else None),
         en_result := None\<rparr>" by blast
  have "en_state (md_steps (snd (adopt (stored_of m) m0)) ! j) = resumed_state (en_state (md_steps m ! j))
      \<and> (en_state (md_steps m ! j) = StepFailed \<longrightarrow> en_reason (md_steps m ! j) \<noteq> None \<longrightarrow>
             en_reason (md_steps (snd (adopt (stored_of m) m0)) ! j) = en_reason (md_steps m ! j))"
    if "j < length (md_steps m)" for j
    using nth [OF that] by auto
  moreover have "fst (adopt (stored_of m) m0)" and "md_state (snd (adopt (stored_of m) m0))
      = (if \<exists>e \<in> set (md_steps m). en_state e = StepFailed then RunFailed else RunRunning)"
    using adopted by blast+
  ultimately show ?thesis
    unfolding case_prod_unfold Let_def by (intro conjI allI impI) (assumption | blast)+
qed

theorem reboot_resumes_the_run_witness:
  "let m = fail_step 1 ''no name'' (snd (begin_next (pass_step 0 (snd (begin_next
        (in_model (snd (act_step (start_of [''name'', ''disk'']) example_engine))))))));
       (adopted, m') = adopt (stored_of m) (in_model example_engine)
   in adopted \<and> md_state m' = RunFailed \<and> en_reason (md_steps m' ! 1) = Some ''no name''"
proof -
  define m where "m = fail_step 1 ''no name'' (snd (begin_next (pass_step 0 (snd (begin_next
        (in_model (snd (act_step (start_of [''name'', ''disk'']) example_engine))))))))"
  have ids: "step_ids (in_model example_engine) = step_ids m" "distinct (step_ids m)"
    and len: "length (md_steps m) = 2"
    and st: "en_state (md_steps m ! 0) = StepPassed" "en_state (md_steps m ! 1) = StepFailed"
      "en_reason (md_steps m ! 1) = Some ''no name''"
    unfolding m_def by code_simp+
  have in1: "md_steps m ! 1 \<in> set (md_steps m)" using len by simp
  have "\<exists>e \<in> set (md_steps m). en_state e \<noteq> StepUnchosen"
    by (rule bexI [OF _ in1]) (use st in simp)
  moreover have "i = j" if "i < length (md_steps m)" "j < length (md_steps m)"
    "en_state (md_steps m ! i) = StepFailed" "en_state (md_steps m ! j) = StepFailed" for i j
    using that st len by (auto simp: less_2_cases_iff)
  ultimately have "let (adopted, m') = adopt (stored_of m) (in_model example_engine) in adopted
    \<and> md_state m' = (if \<exists>e \<in> set (md_steps m). en_state e = StepFailed then RunFailed else RunRunning)
    \<and> (\<forall>j < length (md_steps m).
         en_state (md_steps m' ! j) = resumed_state (en_state (md_steps m ! j))
         \<and> (en_state (md_steps m ! j) = StepFailed \<longrightarrow> en_reason (md_steps m ! j) \<noteq> None \<longrightarrow>
             en_reason (md_steps m' ! j) = en_reason (md_steps m ! j)))"
    using ids by (intro reboot_resumes_the_run)
  moreover have "\<exists>e \<in> set (md_steps m). en_state e = StepFailed"
    by (rule bexI [OF _ in1]) (use st in simp)
  ultimately have "let (adopted, m') = adopt (stored_of m) (in_model example_engine)
      in adopted \<and> md_state m' = RunFailed \<and> en_reason (md_steps m' ! 1) = Some ''no name''"
    using st len by (auto simp: case_prod_unfold Let_def)
  then show ?thesis unfolding m_def Let_def .
qed

section \<open>What undoes what\<close>

lemma undone_at_length [simp]: "length (undone_at steps i found) = length found"
  by (simp add: undone_at_def split: option.split)

lemma undone_at_other: "j \<noteq> i \<Longrightarrow> undone_at steps i found ! j = found ! j"
  by (simp add: undone_at_def split: option.split)

lemma find_undoer_iff:
  "find_undoer steps i found \<noteq> None \<longleftrightarrow>
     (\<exists>name \<in> set (st_undone_by (steps ! i)). \<exists>u. position (\<lambda>step. st_id step = name) (take i steps) = Some u
        \<and> dn_state (found ! u) = NotDone)"
proof -
  have "find_undoer steps i found \<noteq> None \<longleftrightarrow>
      (\<exists>u \<in> set (List.map_filter (\<lambda>name. position (\<lambda>step. st_id step = name) (take i steps))
          (st_undone_by (steps ! i))). dn_state (found ! u) = NotDone)"
    unfolding find_undoer_def find_None_iff' by simp
  then show ?thesis by (simp add: List.map_filter_def) force
qed

lemma find_undoer_cong:
  assumes "\<And>u. u < i \<Longrightarrow> dn_state (found ! u) = dn_state (found' ! u)" and "i \<le> length steps"
  shows "find_undoer steps i found = find_undoer steps i found'"
proof -
  let ?us = "List.map_filter (\<lambda>name. position (\<lambda>step. st_id step = name) (take i steps)) (st_undone_by (steps ! i))"
  have "u < i" if "u \<in> set ?us" for u
    using that assms(2) by (fastforce simp: List.map_filter_def dest: position_SomeD)
  with assms(1) show ?thesis
    unfolding find_undoer_def by (intro find_cong) auto
qed

text \<open>After the first \<open>n\<close> steps, those before \<open>n\<close> are settled and those after are as they were found.\<close>

lemma undone_upto:
  assumes "n \<le> length steps" and "length found = length steps"
  defines "part \<equiv> \<lambda>n. fold (undone_at steps) [0..<n] found"
  shows "length (part n) = length steps
    \<and> (\<forall>i. n \<le> i \<longrightarrow> part n ! i = found ! i) \<and> (\<forall>i m. i < m \<longrightarrow> m \<le> n \<longrightarrow> part n ! i = part m ! i)"
  using assms(1)
proof (induction n)
  case 0
  then show ?case using assms(2) by (simp add: part_def)
next
  case (Suc n)
  have step: "part (Suc n) = undone_at steps n (part n)" by (simp add: part_def)
  from Suc have IH: "length (part n) = length steps" "\<And>i. n \<le> i \<Longrightarrow> part n ! i = found ! i"
    "\<And>i m. i < m \<Longrightarrow> m \<le> n \<Longrightarrow> part n ! i = part m ! i" by auto
  have "part (Suc n) ! i = part m ! i" if "i < m" "m \<le> Suc n" for i m
  proof (cases "m = Suc n")
    case False
    with that IH(3) [of i m] show ?thesis by (simp add: step undone_at_other)
  qed simp
  with IH(1,2) show ?case by (simp add: step undone_at_other)
qed

lemma undone_nth:
  assumes "i < length steps" and "length found = length steps"
  shows "undone steps found ! i =
    (if dn_state (found ! i) = NotDone then found ! i
     else case find_undoer steps i (undone steps found) of
        None \<Rightarrow> found ! i
      | Some u \<Rightarrow> \<lparr>dn_state = NotDone, dn_why = Some (undone_why (st_undoing (steps ! u)) (found ! i))\<rparr>)"
proof -
  let ?part = "\<lambda>n. fold (undone_at steps) [0..<n] found"
  have upto: "\<And>n. n \<le> length steps \<Longrightarrow> length (?part n) = length steps
    \<and> (\<forall>i. n \<le> i \<longrightarrow> ?part n ! i = found ! i) \<and> (\<forall>i m. i < m \<longrightarrow> m \<le> n \<longrightarrow> ?part n ! i = ?part m ! i)"
    by (rule undone_upto [OF _ assms(2)])
  have prefix: "undone steps found ! u = ?part m ! u" if "u < m" "m \<le> length steps" for u m
    unfolding undone_def using upto [of "length steps"] that by blast
  have "undone steps found ! i = ?part (Suc i) ! i"
    using prefix [of i "Suc i"] assms(1) by simp
  also have "\<dots> = undone_at steps i (?part i) ! i" by simp
  finally have at: "undone steps found ! i = undone_at steps i (?part i) ! i" .
  have pi: "?part i ! i = found ! i" "length (?part i) = length steps" using upto [of i] assms(1) by auto
  have "?part i ! u = undone steps found ! u" if "u < i" for u
    using prefix [of u i] that assms(1) by simp
  then have "find_undoer steps i (?part i) = find_undoer steps i (undone steps found)"
    using assms(1) by (intro find_undoer_cong) auto
  with at pi assms show ?thesis by (simp add: undone_at_def split: option.split)
qed

text \<open>A step is reported not done exactly where its own check says so, or a step before it that undoes
  it is reported not done; so it carries on down a chain of steps each undoing the next.  Then the
  reason says what the board holds and that the earlier step replaces it, or that the earlier step
  comes first.  Every other report is what the check said.\<close>

lemma undone_spec:
  assumes "i < length steps" and "length found = length steps"
  defines "after \<equiv> undone steps found"
  shows "(dn_state (after ! i) = NotDone \<longleftrightarrow> dn_state (found ! i) = NotDone
      \<or> (\<exists>name \<in> set (st_undone_by (steps ! i)). \<exists>u.
            position (\<lambda>step. st_id step = name) (take i steps) = Some u \<and> dn_state (after ! u) = NotDone))
    \<and> (dn_state (found ! i) = NotDone \<or> dn_state (after ! i) \<noteq> NotDone \<longrightarrow> after ! i = found ! i)
    \<and> (dn_state (found ! i) \<noteq> NotDone \<and> dn_state (after ! i) = NotDone \<longrightarrow>
        (\<exists>u < i. dn_state (after ! u) = NotDone \<and> st_id (steps ! u) \<in> set (st_undone_by (steps ! i))
          \<and> dn_why (after ! i) = Some (undone_why (st_undoing (steps ! u)) (found ! i))))"
proof -
  have nth: "after ! i = (if dn_state (found ! i) = NotDone then found ! i
     else case find_undoer steps i after of None \<Rightarrow> found ! i
      | Some u \<Rightarrow> \<lparr>dn_state = NotDone, dn_why = Some (undone_why (st_undoing (steps ! u)) (found ! i))\<rparr>)"
    unfolding after_def by (rule undone_nth [OF assms(1,2)])
  have undoer: "u < i \<and> dn_state (after ! u) = NotDone \<and> st_id (steps ! u) \<in> set (st_undone_by (steps ! i))"
    if "find_undoer steps i after = Some u" for u
    using find_SomeD [OF that [unfolded find_undoer_def]] assms(1)
    by (fastforce simp: List.map_filter_def dest: position_SomeD)
  show ?thesis
  proof (cases "find_undoer steps i after")
    case None
    with nth find_undoer_iff [of steps i after] show ?thesis by auto
  next
    case (Some u)
    then have "\<exists>name \<in> set (st_undone_by (steps ! i)). \<exists>u.
            position (\<lambda>step. st_id step = name) (take i steps) = Some u \<and> dn_state (after ! u) = NotDone"
      using find_undoer_iff [of steps i after] by simp
    with nth undoer [OF Some] Some show ?thesis by auto
  qed
qed

end
