(* ===== verification/Run_System.thy ===== *)
theory Run_System
  imports Run_Engine "HOL-Library.Multiset"
begin

text \<open>
  What holds of a provisioning device however its front ends, its run's tasks, its medium and its
  reboots interleave.  Every property here is of \<open>engine_step\<close>, for any sequence of events: the
  invariant \<open>engine_ok\<close> ties the model to the one task of its generation and to what the medium keeps.
\<close>

section \<open>The states of the steps\<close>

definition states :: "model \<Rightarrow> step_state list" where
  "states m = map en_state (md_steps m)"

lemma length_states [simp]: "length (states m) = length (md_steps m)"
  by (simp add: states_def)

lemma states_nth: "j < length (md_steps m) \<Longrightarrow> states m ! j = en_state (md_steps m ! j)"
  by (simp add: states_def)

text \<open>Nothing is carried out, passed or failed while a chosen step before it has not passed.\<close>

definition in_order :: "step_state list \<Rightarrow> bool" where
  "in_order st \<longleftrightarrow> (\<forall>j < length st. st ! j \<in> {StepRunning, StepPassed, StepFailed} \<longrightarrow>
     (\<forall>i < j. st ! i \<in> {StepUnchosen, StepPassed}))"

definition phase_ok :: "run_state \<Rightarrow> step_state list \<Rightarrow> bool" where
  "phase_ok run st =
     (case run of
        RunIdle \<Rightarrow> set st \<subseteq> {StepUnchosen}
      | RunRunning \<Rightarrow> True
      | RunWaiting \<Rightarrow> False
      | RunFailed \<Rightarrow> StepFailed \<in> set st
      | RunFinished \<Rightarrow> set st \<subseteq> {StepUnchosen, StepPassed})"

text \<open>Where a task that has not been overtaken is in the run: what the model must be at its place.\<close>

definition none_under_way :: "step_state list \<Rightarrow> bool" where
  "none_under_way st \<longleftrightarrow> StepRunning \<notin> set st \<and> StepFailed \<notin> set st"

definition only_under_way :: "nat \<Rightarrow> step_state list \<Rightarrow> bool" where
  "only_under_way i st \<longleftrightarrow> i < length st \<and> st ! i = StepRunning
     \<and> (\<forall>j < length st. j \<noteq> i \<longrightarrow> st ! j \<notin> {StepRunning, StepFailed})"

fun agrees :: "drive_pc \<Rightarrow> run_state \<Rightarrow> step_state list \<Rightarrow> bool" where
  "agrees Top run st = (run = RunRunning \<and> none_under_way st)"
| "agrees (Asking due) run st = (run = RunRunning \<and> none_under_way st \<and> (\<forall>i \<in> set due. i < length st))"
| "agrees Beginning run st = (run = RunRunning \<and> none_under_way st)"
| "agrees (Keeping i) run st = (run = RunRunning \<and> only_under_way i st)"
| "agrees (Carrying i) run st = (run = RunRunning \<and> only_under_way i st)"
| "agrees (Ended i _) run st = (run = RunRunning \<and> only_under_way i st)"
| "agrees (Judging i _) run st = (run = RunRunning \<and> only_under_way i st)"
| "agrees (Failing i _) run st = (run = RunRunning \<and> only_under_way i st)"
| "agrees KeepingPassed run st = (run = RunRunning \<and> none_under_way st \<and> StepPassed \<in> set st)"
| "agrees KeepingFailed run st = (run = RunFailed)"
| "agrees Finishing run st = (run = RunRunning \<and> set st \<subseteq> {StepUnchosen, StepPassed})"
| "agrees Forgetting run st = (run = RunFinished)"
| "agrees Over run st = (run \<noteq> RunRunning)"

text \<open>What the medium keeps is a run recorded of a device with these steps.\<close>

definition stored_ok :: "string list \<Rightarrow> stored \<Rightarrow> bool" where
  "stored_ok names run \<longleftrightarrow>
     (\<exists>m. step_ids m = names \<and> in_order (states m) \<and> set (states m) \<noteq> {} \<and> \<not> set (states m) \<subseteq> {StepUnchosen}
        \<and> StepWaiting \<notin> set (states m) \<and> run = stored_of m)"

text \<open>
  The generations of the tasks spawned and of those an act is about to spawn: no two are the same and
  none is later than the model's.  A task of the run under way is where the model says; or, where it
  was aborted (by a stop of the run before, whose handle it was when the stop came to take one), it may
  have been dropped with the run left as it was.
\<close>

fun spawns :: "act_pc \<Rightarrow> u64 list" where
  "spawns (Spawning g) = [g]"
| "spawns rest = []"

definition run_gens :: "drive_task list \<Rightarrow> act_pc list \<Rightarrow> u64 list" where
  "run_gens ts acts = map tk_generation ts @ concat (map spawns acts)"

definition placed :: "drive_task \<Rightarrow> model \<Rightarrow> bool" where
  "placed t m \<longleftrightarrow> agrees (tk_pc t) (md_state m) (states m) \<or> tk_aborted t \<and> tk_pc t = Over"

definition tasks_ok :: "drive_task list \<Rightarrow> act_pc list \<Rightarrow> model \<Rightarrow> bool" where
  "tasks_ok ts acts m \<longleftrightarrow>
     distinct (run_gens ts acts) \<and>
     (\<forall>g \<in> set (run_gens ts acts). unat g \<le> unat (md_generation m)) \<and>
     (\<forall>t \<in> set ts. tk_generation t = md_generation m \<longrightarrow> placed t m) \<and>
     (Spawning (md_generation m) \<in> set acts \<longrightarrow> agrees Top (md_state m) (states m)) \<and>
     (md_state m = RunRunning \<longrightarrow> md_generation m \<in> set (run_gens ts acts))"

definition run_ok :: "model \<Rightarrow> bool" where
  "run_ok m \<longleftrightarrow> model_ok m \<and> in_order (states m) \<and> phase_ok (md_state m) (states m)"

definition engine_ok :: "inner \<Rightarrow> bool" where
  "engine_ok s \<longleftrightarrow>
     run_ok (in_model s) \<and>
     step_ids (in_model s) = map st_id (in_steps s) \<and> distinct (map st_id (in_steps s)) \<and>
     in_changes s = model_snapshot (in_model s) \<and>
     tasks_ok (in_tasks s) (in_acts s) (in_model s) \<and>
     (\<forall>run. in_store s = Some (Some run) \<longrightarrow> stored_ok (map st_id (in_steps s)) run)"

section \<open>What each change does to the states\<close>

lemma step_ids_length: "step_ids m = step_ids m' \<Longrightarrow> length (md_steps m) = length (md_steps m')"
  by (metis length_map step_ids_def)

lemma states_eqI:
  "length (md_steps m) = length st \<Longrightarrow> (\<And>j. j < length st \<Longrightarrow> en_state (md_steps m ! j) = st ! j) \<Longrightarrow> states m = st"
  by (auto simp: states_def intro: nth_equalityI)

lemma step_ids_eqI:
  "length (md_steps m) = length (md_steps m') \<Longrightarrow>
    (\<And>j. j < length (md_steps m) \<Longrightarrow> en_id (md_steps m ! j) = en_id (md_steps m' ! j)) \<Longrightarrow> step_ids m = step_ids m'"
  by (auto simp: step_ids_def intro: nth_equalityI)

lemma states_on_step:
  "i < length (md_steps m) \<Longrightarrow> states (on_step i f m) = (states m)[i := en_state (f (md_steps m ! i))]"
  by (simp add: states_def on_step_def map_update)

lemma step_ids_on_step:
  "(\<And>e. en_id (f e) = en_id e) \<Longrightarrow> step_ids (on_step i f m) = step_ids m"
  by (rule step_ids_eqI) (simp_all add: on_step_nth)

lemma states_begin_run:
  "states (begin_run chosen m) =
     map (\<lambda>j. if j \<in> set chosen then StepPending else StepUnchosen) [0..<length (md_steps m)]"
  by (rule states_eqI) (simp_all add: begin_run_nth)

lemma step_ids_begin_run: "step_ids (begin_run chosen m) = step_ids m"
  by (rule step_ids_eqI) (simp_all add: begin_run_nth)

lemma states_clear_run: "states (clear_run m) = map (\<lambda>_. StepUnchosen) (md_steps m)"
  by (simp add: states_def clear_run_def)

lemma step_ids_clear_run: "step_ids (clear_run m) = step_ids m"
  by (simp add: step_ids_def clear_run_def comp_def)

lemma states_pass_step: "i < length (md_steps m) \<Longrightarrow> states (pass_step i m) = (states m)[i := StepPassed]"
  by (simp add: pass_step_def states_on_step)

lemma pass_step_fields [simp]:
  "step_ids (pass_step i m) = step_ids m" "md_state (pass_step i m) = md_state m"
  "md_generation (pass_step i m) = md_generation m"
  by (simp_all add: pass_step_def step_ids_on_step)

lemma states_with [simp]:
  "states (m\<lparr>md_state := r\<rparr>) = states m" "states (m\<lparr>md_generation := g\<rparr>) = states m"
  "states (m\<lparr>md_prompts := ps\<rparr>) = states m" "states (m\<lparr>md_answers := a\<rparr>) = states m"
  "states (m\<lparr>md_asked_by := b\<rparr>) = states m"
  "step_ids (m\<lparr>md_state := r\<rparr>) = step_ids m" "step_ids (m\<lparr>md_generation := g\<rparr>) = step_ids m"
  "step_ids (m\<lparr>md_prompts := ps\<rparr>) = step_ids m" "step_ids (m\<lparr>md_answers := a\<rparr>) = step_ids m"
  "step_ids (m\<lparr>md_asked_by := b\<rparr>) = step_ids m"
  by (simp_all add: states_def step_ids_def)

lemma states_fail_step: "i < length (md_steps m) \<Longrightarrow> states (fail_step i r m) = (states m)[i := StepFailed]"
  by (simp add: fail_step_def states_on_step)

lemma step_ids_fail_step: "step_ids (fail_step i r m) = step_ids m"
  by (simp add: fail_step_def step_ids_on_step)

lemma states_finish [simp]: "states (finish m) = states m" "step_ids (finish m) = step_ids m"
    "md_state (finish m) = RunFinished" "md_generation (finish m) = md_generation m"
  by (simp_all add: finish_def states_def step_ids_def)

lemma states_fold_forget [simp]:
  "states (fold forget ks m) = states m" "step_ids (fold forget ks m) = step_ids m"
  by (simp_all add: states_def step_ids_def)

text \<open>Changes that leave the run where it is: what a step does through its context, and a determination.\<close>

definition same_run :: "model \<Rightarrow> model \<Rightarrow> bool" where
  "same_run m m' \<longleftrightarrow> md_state m' = md_state m \<and> md_generation m' = md_generation m
     \<and> step_ids m' = step_ids m \<and> states m' = states m"

lemma same_run_refl [simp]: "same_run m m"
  by (simp add: same_run_def)

lemma same_run_prompts [simp]: "same_run m (m\<lparr>md_prompts := ps\<rparr>)"
  by (simp add: same_run_def)

lemma same_run_forget [simp]: "same_run m (forget k m)"
  by (simp add: same_run_def forget_def)

lemma same_run_on_step:
  "(\<And>e. en_id (f e) = en_id e \<and> en_state (f e) = en_state e) \<Longrightarrow> same_run m (on_step i f m)"
  by (cases "i < length (md_steps m)")
    (simp_all add: same_run_def step_ids_on_step states_on_step states_nth [symmetric],
     simp add: on_step_def list_update_beyond)

lemma same_run_ok: "same_run m m' \<Longrightarrow> model_ok m' \<Longrightarrow> run_ok m \<Longrightarrow> run_ok m'"
  by (simp add: same_run_def run_ok_def)

lemma same_run_tasks: "same_run m m' \<Longrightarrow> tasks_ok ts acts m \<longleftrightarrow> tasks_ok ts acts m'"
  by (simp add: same_run_def tasks_ok_def placed_def)

section \<open>Keeping the order\<close>

lemma none_under_way_iff:
  "none_under_way st \<longleftrightarrow> (\<forall>j < length st. st ! j \<noteq> StepRunning \<and> st ! j \<noteq> StepFailed)"
  by (auto simp: none_under_way_def in_set_conv_nth)

lemma none_under_way_update:
  "(\<And>j. j < length st \<Longrightarrow> j \<noteq> i \<Longrightarrow> st ! j \<notin> {StepRunning, StepFailed}) \<Longrightarrow>
    x \<notin> {StepRunning, StepFailed} \<Longrightarrow> none_under_way (st[i := x])"
  unfolding none_under_way_iff by (metis insert_iff length_list_update nth_list_update_eq nth_list_update_neq)

lemma in_order_at: "in_order st \<Longrightarrow> j < length st \<Longrightarrow> st ! j \<in> {StepRunning, StepPassed, StepFailed} \<Longrightarrow>
    i < j \<Longrightarrow> st ! i \<in> {StepUnchosen, StepPassed}"
  by (auto simp: in_order_def)

lemma in_orderI:
  "(\<And>i j. i < j \<Longrightarrow> j < length st \<Longrightarrow> st ! j \<in> {StepRunning, StepPassed, StepFailed} \<Longrightarrow>
    st ! i \<in> {StepUnchosen, StepPassed}) \<Longrightarrow> in_order st"
  by (auto simp: in_order_def)

lemma in_order_only:
  assumes "in_order st" and "i < length st" and "st ! i \<in> {StepRunning, StepFailed}"
    and "j < length st" and "st ! j \<in> {StepRunning, StepFailed}"
  shows "j = i"
  using in_order_at [OF assms(1), of i j] in_order_at [OF assms(1), of j i] assms
  by (cases i j rule: linorder_cases) auto

lemma in_order_next:
  assumes st: "in_order st" "none_under_way st" "StepWaiting \<notin> set st"
    and i: "i < length st" "st ! i = StepPending" "\<And>j. j < i \<Longrightarrow> st ! j \<noteq> StepPending"
  shows "in_order (st[i := StepRunning]) \<and> only_under_way i (st[i := StepRunning])"
proof
  have quiet: "st ! j \<notin> {StepRunning, StepFailed, StepWaiting}" if "j < length st" for j
    using st that by (auto simp: none_under_way_def dest: nth_mem)
  show "only_under_way i (st[i := StepRunning])"
    using quiet i(1) by (auto simp: only_under_way_def nth_list_update)
  show "in_order (st[i := StepRunning])"
  proof (rule in_orderI)
    fix k j assume kj: "k < j" "j < length (st[i := StepRunning])"
      "st[i := StepRunning] ! j \<in> {StepRunning, StepPassed, StepFailed}"
    show "st[i := StepRunning] ! k \<in> {StepUnchosen, StepPassed}"
    proof (cases "j = i")
      case True
      with kj i quiet [of k] show ?thesis by (cases "st ! k") auto
    next
      case False
      with kj in_order_at [OF st(1), of j i] in_order_at [OF st(1), of j k] i(2) show ?thesis
        by (cases i j rule: linorder_cases) (auto simp: nth_list_update)
    qed
  qed
qed

lemma in_order_pass:
  assumes "in_order st" and "only_under_way i st"
  shows "in_order (st[i := StepPassed]) \<and> none_under_way (st[i := StepPassed]) \<and> StepPassed \<in> set (st[i := StepPassed])"
proof (intro conjI)
  from assms(2) have i: "i < length st" "st ! i = StepRunning"
    and other: "\<And>j. j < length st \<Longrightarrow> j \<noteq> i \<Longrightarrow> st ! j \<notin> {StepRunning, StepFailed}"
    by (auto simp: only_under_way_def)
  show "StepPassed \<in> set (st[i := StepPassed])" using i(1) by (rule set_update_memI)
  show "none_under_way (st[i := StepPassed])"
    using other by (intro none_under_way_update) auto
  show "in_order (st[i := StepPassed])"
  proof (rule in_orderI)
    fix k j assume kj: "k < j" "j < length (st[i := StepPassed])"
      "st[i := StepPassed] ! j \<in> {StepRunning, StepPassed, StepFailed}"
    with in_order_at [OF assms(1), of j k] i show "st[i := StepPassed] ! k \<in> {StepUnchosen, StepPassed}"
      by (auto simp: nth_list_update split: if_splits)
  qed
qed

lemma in_order_fail:
  assumes "in_order st" and "only_under_way i st"
  shows "in_order (st[i := StepFailed]) \<and> StepFailed \<in> set (st[i := StepFailed])"
proof
  from assms(2) have i: "i < length st" "st ! i = StepRunning" by (auto simp: only_under_way_def)
  show "StepFailed \<in> set (st[i := StepFailed])" using i(1) by (rule set_update_memI)
  show "in_order (st[i := StepFailed])"
  proof (rule in_orderI)
    fix k j assume kj: "k < j" "j < length (st[i := StepFailed])"
      "st[i := StepFailed] ! j \<in> {StepRunning, StepPassed, StepFailed}"
    with in_order_at [OF assms(1), of j k] i show "st[i := StepFailed] ! k \<in> {StepUnchosen, StepPassed}"
      by (auto simp: nth_list_update split: if_splits)
  qed
qed

lemma in_order_retry:
  assumes st: "in_order st" and i: "i < length st" "st ! i = StepFailed"
  shows "in_order (st[i := StepPending]) \<and> none_under_way (st[i := StepPending])"
proof
  show "none_under_way (st[i := StepPending])"
  proof (rule none_under_way_update)
    fix j assume "j < length st" "j \<noteq> i"
    with in_order_only [OF st i(1) _ \<open>j < length st\<close>] i(2) show "st ! j \<notin> {StepRunning, StepFailed}" by blast
  qed simp
  show "in_order (st[i := StepPending])"
  proof (rule in_orderI)
    fix k j assume kj: "k < j" "j < length (st[i := StepPending])"
      "st[i := StepPending] ! j \<in> {StepRunning, StepPassed, StepFailed}"
    then have "j \<noteq> i" "st ! j \<in> {StepRunning, StepPassed, StepFailed}" using i(1) by (auto simp: nth_list_update split: if_splits)
    with in_order_at [OF st, of j k] in_order_at [OF st, of j i] kj i
    show "st[i := StepPending] ! k \<in> {StepUnchosen, StepPassed}"
      by (auto simp: nth_list_update split: if_splits)
  qed
qed

lemma in_order_quiet:
  assumes "set st \<subseteq> {StepUnchosen, StepPending}"
  shows "in_order st \<and> none_under_way st"
proof -
  have "st ! j \<in> {StepUnchosen, StepPending}" if "j < length st" for j
    using assms nth_mem [OF that] by blast
  then have "in_order st" by (fastforce simp: in_order_def)
  moreover have "none_under_way st" using assms by (auto simp: none_under_way_def)
  ultimately show ?thesis ..
qed

lemma in_order_resumed: "in_order st \<Longrightarrow> in_order (map resumed_state st)"
proof (rule in_orderI)
  fix i j assume st: "in_order st" and ij: "i < j" "j < length (map resumed_state st)"
    and "map resumed_state st ! j \<in> {StepRunning, StepPassed, StepFailed}"
  then have "st ! j \<in> {StepRunning, StepPassed, StepFailed}"
    by (cases "st ! j") (simp_all add: resumed_state_def)
  with in_order_at [OF st, of j i] ij show "map resumed_state st ! i \<in> {StepUnchosen, StepPassed}"
    by (auto simp: resumed_state_def)
qed

lemma model_ok_states: "model_ok m \<Longrightarrow> StepWaiting \<notin> set (states m)"
  by (auto simp: model_ok_def states_def)

section \<open>One move of a task\<close>

text \<open>A task of a run that has ended changes nothing.\<close>

lemma mutate_stale: "md_generation (in_model s) \<noteq> g \<Longrightarrow> mutate g f s = (None, s)"
  by (simp add: mutate_def)

lemma mutate_current:
  "md_generation (in_model s) = g \<Longrightarrow>
     mutate g f s = (Some (fst (f (in_model s))), publish (s\<lparr>in_model := snd (f (in_model s))\<rparr>))"
  by (simp add: mutate_def case_prod_unfold Let_def)

lemma ctx_step_stale: "md_generation (in_model s) \<noteq> g \<Longrightarrow> ctx_step g i op s = s"
  by (cases op) (simp_all add: ctx_progress_def ctx_result_def ctx_need_def ctx_ask_later_def ctx_take_text_def
      ctx_forget_def ctx_notice_def notice_drop_def mutate_stale split: option.split)

lemma record_run_stale: "md_generation (in_model s) \<noteq> g \<Longrightarrow> snd (record_run g outcome s) = s"
  by (simp add: record_run_def split: option.split)

lemma forget_run_stale: "md_generation (in_model s) \<noteq> g \<Longrightarrow> forget_run g ok s = s"
  by (simp add: forget_run_def split: option.split)

lemma drive_move_stale: "md_generation (in_model s) \<noteq> g \<Longrightarrow> snd (drive_move err g env pc s) = s"
  by (cases "(err, g, env, pc, s)" rule: drive_move.cases)
    (auto simp: mutate_stale ctx_step_stale record_run_stale forget_run_stale case_prod_unfold Let_def
      split: drive_env.split option.split)

text \<open>What a step does through its context leaves the run where it is.\<close>

lemma take_text_run: "model_ok m \<Longrightarrow> same_run m (snd (take_text k d m)) \<and> model_ok (snd (take_text k d m))"
  using close_key_ok [of m k] by (auto simp: take_text_def close_key_def split: option.split)

lemma need_answer_run: "same_run m (snd (need_answer i key kind text channel m))"
  by (simp add: need_answer_def split: option.split)

definition same_but :: "inner \<Rightarrow> model \<Rightarrow> inner" where
  "same_but s m = s\<lparr>in_model := m, in_changes := model_snapshot m\<rparr>"

lemma publish_same_but: "publish (s\<lparr>in_model := m\<rparr>) = same_but s m"
  by (simp add: publish_def same_but_def Let_def)

lemma publish_same: "in_changes s = model_snapshot (in_model s) \<Longrightarrow> publish s = s"
  by (simp add: publish_def)

lemma same_but_fields [simp]:
  "in_model (same_but s m) = m" "in_steps (same_but s m) = in_steps s" "in_store (same_but s m) = in_store s"
  "in_task (same_but s m) = in_task s" "in_tasks (same_but s m) = in_tasks s"
  "in_acts (same_but s m) = in_acts s" "in_changes (same_but s m) = model_snapshot m"
  by (simp_all add: same_but_def)

lemma ctx_step_run:
  assumes "md_generation (in_model s) = g" and "model_ok (in_model s)" and "i < length (md_steps (in_model s))"
    and "in_changes s = model_snapshot (in_model s)"
  shows "\<exists>m. ctx_step g i op s = same_but s m \<and> same_run (in_model s) m \<and> model_ok m"
proof -
  have eq: "same_but s (in_model s) = s" using assms(4) by (simp add: same_but_def)
  note mutated = mutate_current [OF assms(1)] publish_same_but
  show ?thesis
  proof (cases op)
    case (CtxProgress f)
    then show ?thesis using assms
      by (auto simp: ctx_progress_def mutated intro!: exI [of _ "on_step i (\<lambda>e. e\<lparr>en_progress := Some (clamp_fraction f)\<rparr>) (in_model s)"]
          same_run_on_step on_step_model_ok)
  next
    case (CtxResult r)
    then show ?thesis using assms
      by (auto simp: ctx_result_def mutated intro!: exI [of _ "on_step i (\<lambda>e. e\<lparr>en_result := Some r\<rparr>) (in_model s)"]
          same_run_on_step on_step_model_ok)
  next
    case (CtxNeed key kind words channel)
    then show ?thesis using assms
      by (auto simp: ctx_need_def mutated intro!: exI [of _ "snd (need_answer i key kind words channel (in_model s))"]
          need_answer_run need_answer_ok)
  next
    case (CtxAskLater q)
    then show ?thesis using assms ask_later_ok [OF assms(2,3), of q]
      by (auto simp: ctx_ask_later_def mutated ask_later_def Let_def intro!: exI [of _ "ask_later i q (in_model s)"])
  next
    case (CtxTakeText key d)
    then show ?thesis using take_text_run [OF assms(2), of key d]
      by (auto simp: ctx_take_text_def mutated)
  next
    case (CtxForget key)
    then show ?thesis using assms
      by (auto simp: ctx_forget_def mutated intro!: exI [of _ "forget key (in_model s)"] forget_ok)
  next
    case (CtxNotice key words)
    then show ?thesis using notice_ok [OF assms(2,3), of key words]
      by (auto simp: ctx_notice_def mutated notice_def Let_def)
  next
    case (CtxNoticeDrop p)
    show ?thesis
    proof (cases p)
      case None
      with CtxNoticeDrop assms eq show ?thesis
        by (auto simp: notice_drop_def intro!: exI [of _ "in_model s"])
    next
      case (Some q)
      with CtxNoticeDrop assms show ?thesis
        using close_ok [OF assms(2), of q]
        by (auto simp: notice_drop_def mutated close_def intro!: exI [of _ "close q (in_model s)"])
    qed
  qed
qed

text \<open>
  What a move of the task of the present generation leaves: \<open>moved s pc s'\<close>, the device after it, with
  the task at \<open>pc\<close>.
\<close>

definition moved :: "inner \<Rightarrow> drive_pc \<Rightarrow> inner \<Rightarrow> bool" where
  "moved s pc s' \<longleftrightarrow>
     run_ok (in_model s') \<and> step_ids (in_model s') = step_ids (in_model s) \<and>
     md_generation (in_model s') = md_generation (in_model s) \<and>
     agrees pc (md_state (in_model s')) (states (in_model s')) \<and>
     in_changes s' = model_snapshot (in_model s') \<and> in_steps s' = in_steps s \<and>
     in_tasks s' = in_tasks s \<and> in_acts s' = in_acts s \<and>
     (\<forall>run. in_store s' = Some (Some run) \<longrightarrow>
        in_store s = Some (Some run) \<or> stored_ok (map st_id (in_steps s)) run)"

lemma moved_model:
  assumes "run_ok m" and "step_ids m = step_ids (in_model s)" and "md_generation m = md_generation (in_model s)"
    and "agrees pc (md_state m) (states m)"
  shows "moved s pc (same_but s m)"
  using assms by (simp add: moved_def)

lemma moved_pc:
  assumes "engine_ok s" and "agrees pc (md_state (in_model s)) (states (in_model s))"
  shows "moved s pc s"
  using assms by (simp add: moved_def engine_ok_def)

lemma stored_of_ok:
  assumes "run_ok m" and "\<not> set (states m) \<subseteq> {StepUnchosen}"
  shows "stored_ok (step_ids m) (stored_of m)"
  using assms model_ok_states [of m] by (auto simp: stored_ok_def run_ok_def)

lemma moved_record:
  assumes ok: "engine_ok s" and pc: "agrees pc (md_state (in_model s)) (states (in_model s))"
    and some: "\<not> set (states (in_model s)) \<subseteq> {StepUnchosen}"
  shows "moved s pc (snd (record_run g outcome s))"
proof (cases "in_store s")
  case None
  with moved_pc [OF ok pc] show ?thesis by (simp add: record_run_def)
next
  case (Some kept)
  have "stored_ok (map st_id (in_steps s)) (stored_of (in_model s))"
    using stored_of_ok [of "in_model s"] ok some by (simp add: engine_ok_def)
  then have "stored_ok (map st_id (in_steps s)) run"
    if "snd (store_save outcome (stored_of (in_model s)) kept) = Some run" "kept \<noteq> Some run" for run
    using that by (cases outcome) auto
  with moved_pc [OF ok pc] Some show ?thesis
    by (auto simp: record_run_def moved_def case_prod_unfold Let_def)
qed

lemma moved_forget:
  "engine_ok s \<Longrightarrow> agrees pc (md_state (in_model s)) (states (in_model s)) \<Longrightarrow> moved s pc (forget_run g ok s)"
  by (auto simp: forget_run_def moved_def engine_ok_def store_clear_def split: option.split)

lemma moved_ctx:
  assumes ok: "engine_ok s" and pc: "agrees pc (md_state (in_model s)) (states (in_model s))"
    and g: "md_generation (in_model s) = g" and i: "i < length (md_steps (in_model s))"
  shows "moved s pc (ctx_step g i op s)"
proof -
  from ok obtain m where m: "ctx_step g i op s = same_but s m" "same_run (in_model s) m" "model_ok m"
    using ctx_step_run [OF g _ i] by (auto simp: engine_ok_def run_ok_def)
  then have "run_ok m" using same_run_ok ok by (auto simp: engine_ok_def)
  with m pc show ?thesis by (simp add: same_run_def moved_model)
qed

lemma only_under_way_some: "only_under_way i st \<Longrightarrow> \<not> set st \<subseteq> {StepUnchosen}"
  by (metis insertE nth_mem only_under_way_def singletonD step_state.distinct(3) subsetD empty_iff)

lemma begin_next_run:
  assumes m: "run_ok m" "md_state m = RunRunning" "none_under_way (states m)"
  shows "begin_next m = (None, m) \<and> set (states m) \<subseteq> {StepUnchosen, StepPassed}
    \<or> (\<exists>i m'. begin_next m = (Some i, m') \<and> run_ok m' \<and> step_ids m' = step_ids m
        \<and> md_generation m' = md_generation m \<and> md_state m' = RunRunning \<and> only_under_way i (states m'))"
proof (cases "next_step m")
  case None
  then have "StepPending \<notin> set (states m)"
    by (auto simp: next_step_def position_None_iff states_def)
  with m model_ok_states [of m] have "x \<in> {StepUnchosen, StepPassed}" if "x \<in> set (states m)" for x
    using that by (cases x) (auto simp: none_under_way_def run_ok_def)
  with None show ?thesis by (auto simp: begin_next_def)
next
  case (Some i)
  let ?f = "\<lambda>e. e\<lparr>en_state := StepRunning, en_progress := None, en_reason := None, en_result := None\<rparr>"
  from Some have i: "i < length (md_steps m)" "states m ! i = StepPending"
    "\<And>j. j < i \<Longrightarrow> states m ! j \<noteq> StepPending"
    using position_first [of "\<lambda>e. en_state e = StepPending" "md_steps m" i]
    by (auto simp: next_step_def states_def dest: position_SomeD)
  have eq: "begin_next m = (Some i, on_step i ?f m)" using Some by (simp add: begin_next_def)
  have st: "states (on_step i ?f m) = (states m)[i := StepRunning]"
    using i(1) by (simp add: states_on_step)
  have "in_order ((states m)[i := StepRunning]) \<and> only_under_way i ((states m)[i := StepRunning])"
    using m i model_ok_states [of m] by (intro in_order_next) (auto simp: run_ok_def)
  moreover have "model_ok (on_step i ?f m)" using m(1) by (auto simp: run_ok_def intro!: on_step_model_ok)
  ultimately have "run_ok (on_step i ?f m)" using m(2) by (simp add: run_ok_def st phase_ok_def)
  with eq st \<open>in_order ((states m)[i := StepRunning]) \<and> only_under_way i ((states m)[i := StepRunning])\<close>
  show ?thesis using m(2) by (simp add: step_ids_on_step)
qed

lemma pass_step_run:
  assumes "run_ok m" "md_state m = RunRunning" "only_under_way i (states m)"
  shows "run_ok (pass_step i m) \<and> agrees KeepingPassed RunRunning (states (pass_step i m))"
proof -
  from assms(3) have i: "i < length (md_steps m)" by (simp add: only_under_way_def)
  with assms in_order_pass [of "states m" i] show ?thesis
    by (simp add: run_ok_def states_pass_step pass_step_ok phase_ok_def)
qed

lemma fail_step_run:
  assumes "run_ok m" "only_under_way i (states m)"
  shows "run_ok (fail_step i r m)"
proof -
  from assms(2) have i: "i < length (md_steps m)" by (simp add: only_under_way_def)
  with assms in_order_fail [of "states m" i] show ?thesis
    by (simp add: run_ok_def states_fail_step fail_step_ok phase_ok_def)
qed

lemma release_run: "run_ok m \<Longrightarrow> run_ok (release i m) \<and> same_run m (release i m)"
proof -
  assume m: "run_ok m"
  have "same_run m (release i m)" by (simp add: release_def)
  with m same_run_ok release_ok show ?thesis by (auto simp: run_ok_def)
qed

lemma drive_move_moved:
  assumes ok: "engine_ok s" and pc: "agrees pc (md_state (in_model s)) (states (in_model s))"
    and g: "md_generation (in_model s) = g"
  shows "moved s (fst (drive_move err g env pc s)) (snd (drive_move err g env pc s))"
proof -
  let ?m = "in_model s"
  have run: "run_ok ?m" and len: "length (in_steps s) = length (md_steps ?m)"
    and snap: "publish s = s"
    using ok by (auto simp: engine_ok_def step_ids_def publish_same dest: arg_cong [of _ _ length])
  note mut = mutate_current [OF g] publish_same_but
  show ?thesis
  proof (cases pc)
    case Top
    have "\<forall>i \<in> set (due_to_ask s). i < length (md_steps ?m)"
      by (auto simp: due_to_ask_def Let_def len)
    with Top pc g show ?thesis by (auto intro!: moved_pc [OF ok])
  next
    case (Asking due)
    with pc g show ?thesis
      by (cases due) (auto intro!: moved_pc [OF ok] moved_ctx [OF ok] split: drive_env.split)
  next
    case Beginning
    with pc have under: "md_state ?m = RunRunning" "none_under_way (states ?m)" by auto
    from begin_next_run [OF run this] show ?thesis
    proof
      assume none: "begin_next ?m = (None, ?m) \<and> set (states ?m) \<subseteq> {StepUnchosen, StepPassed}"
      have "moved s Finishing s" using none under by (intro moved_pc [OF ok]) simp
      with none Beginning show ?thesis by (simp add: mut snap)
    next
      assume "\<exists>i m'. begin_next ?m = (Some i, m') \<and> run_ok m' \<and> step_ids m' = step_ids ?m
        \<and> md_generation m' = md_generation ?m \<and> md_state m' = RunRunning \<and> only_under_way i (states m')"
      then obtain i m' where i: "begin_next ?m = (Some i, m')" "run_ok m'" "step_ids m' = step_ids ?m"
        "md_generation m' = md_generation ?m" "md_state m' = RunRunning" "only_under_way i (states m')" by blast
      then have "moved s (Keeping i) (same_but s m')" by (intro moved_model) auto
      with i Beginning show ?thesis by (simp add: mut)
    qed
  next
    case (Keeping i)
    with pc only_under_way_some [of i "states ?m"] show ?thesis
      by (auto simp: case_prod_unfold Let_def intro!: moved_pc [OF ok] moved_record [OF ok] split: drive_env.split)
  next
    case (Carrying i)
    with pc g show ?thesis
      by (auto simp: only_under_way_def intro!: moved_pc [OF ok] moved_ctx [OF ok] split: drive_env.split)
  next
    case (Ended i outcome)
    have rel: "run_ok (release i ?m)" "same_run ?m (release i ?m)" using release_run [OF run] by auto
    then have "moved s (Judging i outcome) (same_but s (release i ?m))"
      using Ended pc by (intro moved_model) (auto simp: same_run_def)
    with Ended show ?thesis by (simp add: mut)
  next
    case (Judging i outcome)
    show ?thesis
    proof (cases outcome)
      case StepOk
      have "moved s KeepingPassed (same_but s (pass_step i ?m))"
        using pass_step_run [OF run] Judging pc by (intro moved_model) auto
      with StepOk Judging show ?thesis by (simp add: mut)
    qed (use Judging pc in \<open>auto intro!: moved_pc [OF ok]\<close>)
  next
    case KeepingPassed
    with pc have "\<not> set (states ?m) \<subseteq> {StepUnchosen}" by auto
    with KeepingPassed pc show ?thesis
      by (auto intro!: moved_pc [OF ok] moved_record [OF ok] split: drive_env.split)
  next
    case (Failing i reason)
    have "moved s KeepingFailed (same_but s (fail_step i reason ?m))"
      using fail_step_run [OF run] Failing pc by (intro moved_model) (auto simp: step_ids_fail_step)
    with Failing show ?thesis by (simp add: mut)
  next
    case KeepingFailed
    with pc run have "\<not> set (states ?m) \<subseteq> {StepUnchosen}" by (auto simp: run_ok_def phase_ok_def)
    with KeepingFailed pc show ?thesis
      by (auto intro!: moved_pc [OF ok] moved_record [OF ok] split: drive_env.split)
  next
    case Finishing
    have "moved s Forgetting (same_but s (finish ?m))"
      using run Finishing pc finish_ok [of ?m]
      by (intro moved_model) (auto simp: run_ok_def phase_ok_def)
    with Finishing show ?thesis by (simp add: mut)
  next
    case Forgetting
    with pc show ?thesis
      by (auto intro!: moved_pc [OF ok] moved_forget [OF ok] split: drive_env.split)
  next
    case Over
    with pc show ?thesis by (auto intro!: moved_pc [OF ok])
  qed
qed

section \<open>Every event keeps the invariant\<close>

lemma distinct_generation:
  "distinct (map tk_generation ts) \<Longrightarrow> i < length ts \<Longrightarrow> j < length ts \<Longrightarrow>
     tk_generation (ts ! i) = tk_generation (ts ! j) \<Longrightarrow> i = j"
  by (metis length_map nth_eq_iff_index_eq nth_map)

lemma in_run_gens:
  "g \<in> set (run_gens ts acts) \<longleftrightarrow> (\<exists>t \<in> set ts. tk_generation t = g) \<or> Spawning g \<in> set acts"
proof -
  have "g \<in> set (spawns a) \<longleftrightarrow> a = Spawning g" for a by (cases a) auto
  then show ?thesis by (auto simp: run_gens_def)
qed

lemma tasks_ok_at:
  assumes "tasks_ok ts acts m" and "i < length ts" and "tk_generation (ts ! i) = md_generation m"
  shows "placed (ts ! i) m" and "Spawning (md_generation m) \<notin> set acts"
    and "j < length ts \<Longrightarrow> tk_generation (ts ! j) = md_generation m \<Longrightarrow> j = i"
proof -
  have dist: "distinct (run_gens ts acts)" using assms(1) by (simp add: tasks_ok_def)
  show "placed (ts ! i) m" using assms by (simp add: tasks_ok_def)
  show "Spawning (md_generation m) \<notin> set acts"
  proof
    assume "Spawning (md_generation m) \<in> set acts"
    then have "md_generation m \<in> set (concat (map spawns acts))" by force
    moreover have "md_generation m \<in> set (map tk_generation ts)"
      using assms(2,3) by (metis in_set_conv_nth length_map nth_map)
    ultimately show False using dist unfolding run_gens_def distinct_append by blast
  qed
  show "j < length ts \<Longrightarrow> tk_generation (ts ! j) = md_generation m \<Longrightarrow> j = i"
    using distinct_generation [of ts j i] dist assms(2,3) by (simp add: run_gens_def)
qed

text \<open>The same generations, with the tasks of the run under way where they should be.\<close>

lemma tasks_ok_gens:
  assumes ok: "tasks_ok ts acts m" and gens: "mset (run_gens ts' acts') = mset (run_gens ts acts)"
    and gen: "md_generation m' = md_generation m"
    and running: "md_state m' = RunRunning \<Longrightarrow> md_generation m \<in> set (run_gens ts acts)"
    and tasks: "\<And>t. t \<in> set ts' \<Longrightarrow> tk_generation t = md_generation m \<Longrightarrow> placed t m'"
    and acts: "Spawning (md_generation m) \<in> set acts' \<Longrightarrow> agrees Top (md_state m') (states m')"
  shows "tasks_ok ts' acts' m'"
proof -
  have "set (run_gens ts' acts') = set (run_gens ts acts)" using gens by (rule mset_eq_setD)
  moreover have "distinct (run_gens ts' acts') \<longleftrightarrow> distinct (run_gens ts acts)"
    using gens by (rule mset_eq_imp_distinct_iff)
  ultimately show ?thesis using ok running tasks acts unfolding tasks_ok_def gen by simp
qed

lemma tasks_ok_update:
  assumes ok: "tasks_ok ts acts m" and i: "i < length ts"
    and t: "tk_generation t = tk_generation (ts ! i)"
    and gen: "md_generation m' = md_generation m"
    and same: "tk_generation (ts ! i) \<noteq> md_generation m \<Longrightarrow> md_state m' = md_state m \<and> states m' = states m"
    and placed: "tk_generation (ts ! i) = md_generation m \<Longrightarrow> placed t m'"
  shows "tasks_ok (ts[i := t]) acts m'"
proof (rule tasks_ok_gens [OF ok _ gen])
  have "map tk_generation (ts[i := t]) = map tk_generation ts"
    unfolding map_update t(1) using i by (metis list_update_id nth_map)
  then show "mset (run_gens (ts[i := t]) acts) = mset (run_gens ts acts)" by (simp add: run_gens_def)
  show "md_state m' = RunRunning \<Longrightarrow> md_generation m \<in> set (run_gens ts acts)"
  proof (cases "tk_generation (ts ! i) = md_generation m")
    case True
    with i show ?thesis by (auto simp: in_run_gens intro: nth_mem)
  next
    case False
    then show "md_state m' = RunRunning \<Longrightarrow> md_generation m \<in> set (run_gens ts acts)"
      using same ok by (simp add: tasks_ok_def)
  qed
  show "placed u m'" if u: "u \<in> set (ts[i := t])" "tk_generation u = md_generation m" for u
  proof -
    from u(1) obtain j where j: "j < length ts" "u = ts[i := t] ! j" by (auto simp: in_set_conv_nth)
    show ?thesis
    proof (cases "j = i")
      case True
      with j i u(2) t placed show ?thesis by simp
    next
      case False
      with j u(2) i have at: "tk_generation (ts ! j) = md_generation m" by simp
      with tasks_ok_at(3) [OF ok i _ j(1)] False have "tk_generation (ts ! i) \<noteq> md_generation m" by auto
      with same tasks_ok_at(1) [OF ok j(1) at] False j(2) i show ?thesis by (simp add: placed_def)
    qed
  qed
  show "Spawning (md_generation m) \<in> set acts \<Longrightarrow> agrees Top (md_state m') (states m')"
    using tasks_ok_at(2) [OF ok i] same ok by (cases "tk_generation (ts ! i) = md_generation m") (auto simp: tasks_ok_def)
qed

text \<open>The task of the run under way, and what it leaves when it moves.\<close>

lemma current_moved:
  assumes ok: "engine_ok s" and i: "i < length (in_tasks s)"
    and current: "tk_generation (in_tasks s ! i) = md_generation (in_model s)"
    and live: "\<not> (tk_aborted (in_tasks s ! i) \<and> tk_pc (in_tasks s ! i) = Over)"
  shows "agrees (tk_pc (in_tasks s ! i)) (md_state (in_model s)) (states (in_model s))"
    and "moved s (fst (drive_move err (tk_generation (in_tasks s ! i)) env (tk_pc (in_tasks s ! i)) s))
           (snd (drive_move err (tk_generation (in_tasks s ! i)) env (tk_pc (in_tasks s ! i)) s))"
proof -
  have "tasks_ok (in_tasks s) (in_acts s) (in_model s)" using ok by (simp add: engine_ok_def)
  from tasks_ok_at(1) [OF this i current] live
  show pc: "agrees (tk_pc (in_tasks s ! i)) (md_state (in_model s)) (states (in_model s))" by (auto simp: placed_def)
  show "moved s (fst (drive_move err (tk_generation (in_tasks s ! i)) env (tk_pc (in_tasks s ! i)) s))
           (snd (drive_move err (tk_generation (in_tasks s ! i)) env (tk_pc (in_tasks s ! i)) s))"
    using drive_move_moved [OF ok pc] current by simp
qed

lemma dropped_moves:
  assumes "tk_pc (in_tasks s ! i) = Over"
  shows "engine_step s (Moves i err env) = s"
proof -
  have same: "(in_tasks s ! i)\<lparr>tk_pc := Over\<rparr> = in_tasks s ! i" using assms by (cases "in_tasks s ! i") simp
  show ?thesis
  proof (cases "i < length (in_tasks s)")
    case True
    then have "engine_step s (Moves i err env) = s\<lparr>in_tasks := (in_tasks s)[i := (in_tasks s ! i)\<lparr>tk_pc := Over\<rparr>]\<rparr>"
      using assms by (simp add: Let_def)
    then show ?thesis unfolding same by (cases s) simp
  qed simp
qed

lemma moves_ok:
  assumes "engine_ok s"
  shows "engine_ok (engine_step s (Moves i err env))"
proof (cases "i < length (in_tasks s) \<and> tk_pc (in_tasks s ! i) \<noteq> Over")
  case True
  then have i: "i < length (in_tasks s)" by simp
  define t where "t = in_tasks s ! i"
  define pc' where "pc' = fst (drive_move err (tk_generation t) env (tk_pc t) s)"
  define s' where "s' = snd (drive_move err (tk_generation t) env (tk_pc t) s)"
  have step: "engine_step s (Moves i err env) = s'\<lparr>in_tasks := (in_tasks s')[i := t\<lparr>tk_pc := pc'\<rparr>]\<rparr>"
    using i by (simp add: t_def pc'_def s'_def Let_def case_prod_unfold)
  have ts: "tasks_ok (in_tasks s) (in_acts s) (in_model s)" using assms by (simp add: engine_ok_def)
  show ?thesis
  proof (cases "tk_generation t = md_generation (in_model s)")
    case False
    then have "s' = s" by (simp add: s'_def drive_move_stale)
    moreover have "tasks_ok ((in_tasks s)[i := t\<lparr>tk_pc := pc'\<rparr>]) (in_acts s) (in_model s)"
      using ts i False by (intro tasks_ok_update) (auto simp: t_def)
    ultimately show ?thesis unfolding step using assms by (simp add: engine_ok_def)
  next
    case current: True
    have moved: "moved s pc' s'"
      unfolding pc'_def s'_def t_def using current_moved(2) [OF assms i] current True by (simp add: t_def)
    then have "tasks_ok ((in_tasks s)[i := t\<lparr>tk_pc := pc'\<rparr>]) (in_acts s) (in_model s')"
      using ts i current by (intro tasks_ok_update [where m = "in_model s"]) (auto simp: t_def moved_def placed_def)
    with moved assms show ?thesis unfolding step by (auto simp: engine_ok_def moved_def)
  qed
next
  case False
  then show ?thesis using assms dropped_moves [of s i err env] by (cases "i < length (in_tasks s)") auto
qed

lemma tasks_ok_new:
  assumes "tasks_ok ts acts m" and "md_generation m' = md_generation m + 1" and "unat (md_generation m) + 1 < 2 ^ 64"
  shows "agrees Top (md_state m') (states m') \<Longrightarrow> tasks_ok ts (acts @ [Spawning (md_generation m')]) m'"
    and "md_state m' \<noteq> RunRunning \<Longrightarrow> tasks_ok ts (acts @ [Aborting g]) m'"
proof -
  have next_gen: "unat (md_generation m') = unat (md_generation m) + 1"
    using assms(2,3) by (simp add: unat_word_ariths)
  have dist: "distinct (run_gens ts acts)" and old: "\<And>g. g \<in> set (run_gens ts acts) \<Longrightarrow> unat g \<le> unat (md_generation m)"
    using assms(1) by (simp_all add: tasks_ok_def)
  have fresh: "md_generation m' \<notin> set (run_gens ts acts)"
    using old [of "md_generation m'"] next_gen by auto
  then have none: "\<And>t. t \<in> set ts \<Longrightarrow> tk_generation t \<noteq> md_generation m'"
    "Spawning (md_generation m') \<notin> set acts" by (auto simp: in_run_gens)
  have le: "unat g \<le> unat (md_generation m')" if "g \<in> set (run_gens ts acts)" for g
    using old [OF that] next_gen by simp
  have gens: "run_gens ts (acts @ [Spawning (md_generation m')]) = run_gens ts acts @ [md_generation m']"
    "run_gens ts (acts @ [Aborting g]) = run_gens ts acts" by (simp_all add: run_gens_def)
  show "tasks_ok ts (acts @ [Spawning (md_generation m')]) m'" if "agrees Top (md_state m') (states m')"
    unfolding tasks_ok_def gens using dist le fresh none that by auto
  show "tasks_ok ts (acts @ [Aborting g]) m'" if "md_state m' \<noteq> RunRunning"
    unfolding tasks_ok_def gens using dist le none that by auto
qed

lemma begin_run_top:
  "agrees Top (md_state (begin_run chosen m)) (states (begin_run chosen m)) \<and> (model_ok m \<longrightarrow> run_ok (begin_run chosen m))"
proof -
  have "set (states (begin_run chosen m)) \<subseteq> {StepUnchosen, StepPending}"
    by (auto simp: states_begin_run)
  from in_order_quiet [OF this] show ?thesis
    by (simp add: run_ok_def phase_ok_def begin_run_ok)
qed

lemma clear_run_quiet: "model_ok m \<Longrightarrow> run_ok (clear_run m)"
  using in_order_quiet [of "states (clear_run m)"] clear_run_ok [of m]
  by (auto simp: run_ok_def phase_ok_def states_clear_run)

lemma retry_top:
  assumes "run_ok m" and "md_state m = RunFailed"
  shows "\<exists>m'. snd (retry m) = m' \<and> run_ok m' \<and> agrees Top (md_state m') (states m')
    \<and> step_ids m' = step_ids m \<and> md_generation m' = md_generation m + 1"
proof -
  from assms have "StepFailed \<in> set (states m)" by (simp add: run_ok_def phase_ok_def)
  then obtain e where e: "e \<in> set (md_steps m)" "en_state e = StepFailed" by (auto simp: states_def)
  from position_ex [where P = "\<lambda>e. en_state e = StepFailed", OF e]
  obtain i where p: "position (\<lambda>e. en_state e = StepFailed) (md_steps m) = Some i" by blast
  then have i: "i < length (md_steps m)" "states m ! i = StepFailed"
    by (auto simp: states_def dest: position_SomeD)
  define m1 where "m1 = fold forget (map fst (filter (\<lambda>(_, step). step = i) (md_asked_by m)))
       (on_step i (\<lambda>e. e\<lparr>en_state := StepPending, en_reason := None\<rparr>) m)"
  have eq: "snd (retry m) = m1\<lparr>md_state := RunRunning, md_generation := md_generation m1 + 1\<rparr>"
    using retry_at [OF p] by (simp add: m1_def)
  have st: "states m1 = (states m)[i := StepPending]" "step_ids m1 = step_ids m" "md_generation m1 = md_generation m"
    using i(1) by (simp_all add: m1_def states_on_step step_ids_on_step)
  have "in_order ((states m)[i := StepPending]) \<and> none_under_way ((states m)[i := StepPending])"
    using assms(1) i by (intro in_order_retry) (auto simp: run_ok_def)
  with eq st retry_ok [of m] assms(1) show ?thesis
    by (simp add: run_ok_def phase_ok_def)
qed

lemma dropped_ok:
  assumes "engine_ok s"
  shows "engine_ok (engine_step s (Dropped i))"
proof (cases "i < length (in_tasks s) \<and> tk_aborted (in_tasks s ! i) \<and> tk_pc (in_tasks s ! i) \<noteq> Forgetting")
  case True
  have "tasks_ok (in_tasks s) (in_acts s) (in_model s)" using assms by (simp add: engine_ok_def)
  then have "tasks_ok ((in_tasks s)[i := (in_tasks s ! i)\<lparr>tk_pc := Over\<rparr>]) (in_acts s) (in_model s)"
    using True by (intro tasks_ok_update) (auto simp: placed_def)
  with True assms show ?thesis by (simp add: engine_ok_def)
qed (use assms in auto)

text \<open>The changes that follow an act: what it has still to do gives way to what is left of it.\<close>

lemma followed_gens:
  assumes "i < length acts"
  shows "mset (run_gens ts (take i acts @ rest @ drop (i + 1) acts)) + mset (spawns (acts ! i))
    = mset (run_gens ts acts) + mset (concat (map spawns rest))"
proof -
  have "acts = take i acts @ acts ! i # drop (i + 1) acts" using id_take_nth_drop [OF assms] by simp
  then have "concat (map spawns acts)
      = concat (map spawns (take i acts)) @ spawns (acts ! i) @ concat (map spawns (drop (i + 1) acts))"
    by (metis concat.simps(2) concat_append list.simps(9) map_append)
  then show ?thesis by (simp add: run_gens_def)
qed

lemma followed_acts:
  "i < length acts \<Longrightarrow> a \<in> set (take i acts @ rest @ drop (i + 1) acts) \<Longrightarrow> a \<notin> set rest \<Longrightarrow> a \<in> set acts"
  by (auto dest: in_set_takeD in_set_dropD)

lemma abort_task_tasks:
  "mset (map tk_generation (in_tasks (abort_task s))) = mset (map tk_generation (in_tasks s))"
  "u \<in> set (in_tasks (abort_task s)) \<Longrightarrow> \<exists>t. (t \<in> set (in_tasks s)) \<and> (u = t \<or> u = t\<lparr>tk_aborted := True\<rparr>)"
proof -
  have "map tk_generation (in_tasks (abort_task s)) = map tk_generation (in_tasks s)"
  proof (cases "in_task s")
    case (Some i)
    then show ?thesis
      by (cases "i < length (in_tasks s)")
        (simp_all add: abort_task_def map_update list_update_beyond, metis list_update_id nth_map)
  qed (simp add: abort_task_def)
  then show "mset (map tk_generation (in_tasks (abort_task s))) = mset (map tk_generation (in_tasks s))" by simp
  show "\<exists>t. (t \<in> set (in_tasks s)) \<and> (u = t \<or> u = t\<lparr>tk_aborted := True\<rparr>)" if "u \<in> set (in_tasks (abort_task s))"
  proof (cases "in_task s")
    case (Some i)
    show ?thesis
    proof (cases "i < length (in_tasks s)")
      case True
      with that Some show ?thesis
        by (auto simp: abort_task_def in_set_conv_nth nth_list_update split: if_splits)
    qed (use that Some in \<open>auto simp: abort_task_def list_update_beyond\<close>)
  qed (use that in \<open>auto simp: abort_task_def\<close>)
qed

lemma follows_tasks:
  fixes cleared
  assumes ok: "tasks_ok (in_tasks s) (in_acts s) (in_model s)" and i: "i < length (in_acts s)"
  defines "acts' \<equiv> take i (in_acts s) @ (case fst (act_move cleared (in_acts s ! i) s) of None \<Rightarrow> [] | Some a \<Rightarrow> [a])
      @ drop (i + 1) (in_acts s)"
  shows "tasks_ok (in_tasks (snd (act_move cleared (in_acts s ! i) s))) acts' (in_model s)"
proof (rule tasks_ok_gens [OF ok _ refl])
  let ?ts = "in_tasks (snd (act_move cleared (in_acts s ! i) s))"
  note gens = followed_gens [OF i, of "in_tasks s"]
  have stored: "in_tasks (forget_run g c s) = in_tasks s" for g c by (simp add: forget_run_def split: option.split)
  have here: "in_acts s ! i \<in> set (in_acts s)" using i by simp
  show "mset (run_gens ?ts acts') = mset (run_gens (in_tasks s) (in_acts s))"
  proof (cases "in_acts s ! i")
    case (Spawning g)
    then show ?thesis using gens [of "[Holding (length (in_tasks s))]"]
      by (simp add: acts'_def run_gens_def spawn_task_def)
  next
    case (Holding j)
    then show ?thesis using gens [of "[]"] by (simp add: acts'_def run_gens_def hold_task_def)
  next
    case (Aborting g)
    then show ?thesis using gens [of "[Discarding g]"] abort_task_tasks(1) [of s]
      by (simp add: acts'_def run_gens_def)
  next
    case (Discarding g)
    then show ?thesis using gens [of "[]"] by (simp add: acts'_def run_gens_def stored)
  qed
  show "md_state (in_model s) = RunRunning \<Longrightarrow> md_generation (in_model s) \<in> set (run_gens (in_tasks s) (in_acts s))"
    using ok by (simp add: tasks_ok_def)
  show "placed u (in_model s)" if u: "u \<in> set ?ts" "tk_generation u = md_generation (in_model s)" for u
  proof (cases "in_acts s ! i")
    case (Spawning g)
    with u consider "u \<in> set (in_tasks s)" | "u = \<lparr>tk_generation = g, tk_pc = Top, tk_aborted = False\<rparr>"
      by (auto simp: spawn_task_def)
    then show ?thesis
    proof cases
      case 2
      with u(2) Spawning here have "Spawning (md_generation (in_model s)) \<in> set (in_acts s)" by simp
      with ok 2 show ?thesis by (simp add: tasks_ok_def placed_def)
    qed (use ok u in \<open>simp add: tasks_ok_def\<close>)
  next
    case (Aborting g)
    with u(1) abort_task_tasks(2) [of u s] obtain t where t: "t \<in> set (in_tasks s)" "u = t \<or> u = t\<lparr>tk_aborted := True\<rparr>"
      by auto
    with u(2) ok have "placed t (in_model s)" by (auto simp: tasks_ok_def)
    with t(2) show ?thesis by (auto simp: placed_def)
  qed (use ok u in \<open>auto simp: tasks_ok_def hold_task_def stored\<close>)
  show "agrees Top (md_state (in_model s)) (states (in_model s))"
    if "Spawning (md_generation (in_model s)) \<in> set acts'"
  proof -
    have "Spawning (md_generation (in_model s)) \<in> set (in_acts s)"
      using that i by (cases "in_acts s ! i") (auto simp: acts'_def dest: in_set_takeD in_set_dropD)
    with ok show ?thesis by (simp add: tasks_ok_def)
  qed
qed

lemma act_move_store:
  "in_store (snd (act_move cleared a s)) = Some (Some run) \<Longrightarrow> in_store s = Some (Some run)"
  by (cases a) (auto simp: spawn_task_def hold_task_def forget_run_def store_clear_def split: option.splits if_splits)

lemma follows_ok:
  assumes "engine_ok s"
  shows "engine_ok (engine_step s (Follows i cleared))"
proof (cases "i < length (in_acts s)")
  case True
  have "tasks_ok (in_tasks s) (in_acts s) (in_model s)" using assms by (simp add: engine_ok_def)
  from follows_tasks [OF this True, of cleared] True assms act_move_store [of cleared "in_acts s ! i" s]
  show ?thesis by (auto simp: engine_ok_def case_prod_unfold Let_def)
qed (use assms in simp)

lemma determine_run:
  assumes "length found = length (md_steps m)"
  shows "same_run m (m\<lparr>md_steps := map2 (\<lambda>e d. e\<lparr>en_done := d\<rparr>) (md_steps m) found @ drop (length found) (md_steps m),
    md_checked := True\<rparr>)"
  using assms by (auto simp: same_run_def states_def step_ids_def intro!: nth_equalityI)

lemma undone_length [simp]: "length (undone steps found) = length found"
proof -
  have "length (fold (undone_at steps) is found) = length found" for "is"
    by (induction "is" arbitrary: found) simp_all
  then show ?thesis by (simp add: undone_def)
qed

lemma determines_same:
  assumes "engine_ok s"
  shows "same_run (in_model s) (in_model (determine checks s))"
proof (cases "at_rest (in_model s)")
  case True
  have "length (in_steps s) = length (md_steps (in_model s))"
    using assms by (auto simp: engine_ok_def step_ids_def dest: arg_cong [of _ _ length])
  then show ?thesis
    using True determine_run [of "undone (in_steps s) (map (\<lambda>i. check_found (checks i)) [0..<length (in_steps s)])" "in_model s"]
    by (simp add: determine_def Let_def)
qed (simp add: determine_def)

lemma determines_ok:
  assumes "engine_ok s"
  shows "engine_ok (engine_step s (Determines checks))"
proof (cases "at_rest (in_model s)")
  case True
  define found where "found = undone (in_steps s) (map (\<lambda>i. check_found (checks i)) [0..<length (in_steps s)])"
  define m where "m = (in_model s)\<lparr>md_steps := map2 (\<lambda>e d. e\<lparr>en_done := d\<rparr>) (md_steps (in_model s)) found
      @ drop (length found) (md_steps (in_model s)), md_checked := True\<rparr>"
  have step: "engine_step s (Determines checks) = same_but s m"
    using True by (simp add: determine_def Let_def m_def found_def publish_same_but)
  have "step_ids (in_model s) = map st_id (in_steps s)" using assms by (simp add: engine_ok_def)
  then have len: "length found = length (md_steps (in_model s))"
    by (auto simp: found_def step_ids_def dest: arg_cong [of _ _ length])
  then have same: "same_run (in_model s) m" unfolding m_def by (rule determine_run)
  have "StepWaiting \<notin> set (states m)"
    using model_ok_states [of "in_model s"] same assms by (simp add: same_run_def engine_ok_def run_ok_def)
  then have "en_state e \<noteq> StepWaiting" if "e \<in> set (md_steps m)" for e
    using that by (force simp: states_def)
  then have "model_ok m"
    using assms len by (auto simp: engine_ok_def run_ok_def model_ok_def m_def)
  then have "run_ok m" using same_run_ok same assms by (auto simp: engine_ok_def)
  with same assms same_run_tasks [OF same] show ?thesis
    unfolding step by (auto simp: engine_ok_def same_run_def)
qed (use assms in \<open>simp add: determine_def\<close>)

lemma in_order_one_failed:
  "in_order (states m) \<Longrightarrow> i < length (md_steps m) \<Longrightarrow> j < length (md_steps m) \<Longrightarrow>
    en_state (md_steps m ! i) = StepFailed \<Longrightarrow> en_state (md_steps m ! j) = StepFailed \<Longrightarrow> i = j"
  using in_order_only [of "states m" j i] by (simp add: states_nth)

lemma adopt_model_ok: "model_ok m \<Longrightarrow> model_ok (snd (adopt run m))"
proof -
  assume m: "model_ok m"
  have "model_ok (fold pass_step ps m')" if "model_ok m'" for ps m'
    using that by (induction ps arbitrary: m') (simp_all add: pass_step_ok)
  with m show ?thesis
    by (auto simp: adopt_def Let_def begin_run_ok clear_run_ok fail_step_ok split: option.split)
qed

lemma engine_start_ok:
  assumes "distinct (map st_id steps)"
    and "\<And>run. store = Some (Some run) \<Longrightarrow> stored_ok (map st_id steps) run"
  shows "engine_ok (engine_start steps store built load cleared) \<and>
    unat (md_generation (in_model (engine_start steps store built load cleared))) \<le> 1"
proof -
  define m0 where "m0 = model_of_steps steps built"
  define s0 where "s0 = \<lparr>in_steps = steps, in_model = m0, in_changes = model_snapshot m0, in_store = store,
               in_task = None, in_tasks = [], in_acts = [], in_sent = []\<rparr>"
  have ids: "step_ids m0 = map st_id steps" and m0: "model_ok m0" and idle: "md_state m0 = RunIdle"
    and gen: "md_generation m0 = 0" and unchosen: "set (states m0) \<subseteq> {StepUnchosen}"
    by (auto simp: m0_def model_of_steps_def model_new_ok) (auto simp: model_new_def step_ids_def states_def comp_def case_prod_unfold)
  have s0: "engine_ok s0"
    using ids m0 idle unchosen assms in_order_quiet [of "states m0"]
    by (auto simp: engine_ok_def s0_def run_ok_def phase_ok_def tasks_ok_def run_gens_def)
  show ?thesis
  proof (cases "case store of None \<Rightarrow> None | Some kept \<Rightarrow> store_load load kept")
    case None
    then have "engine_start steps store built load cleared = s0"
      by (simp add: engine_start_def engine_resume_def Let_def s0_def m0_def)
    with s0 gen show ?thesis by (simp add: s0_def)
  next
    case (Some run)
    then have "store = Some (Some run)" by (cases store; cases load) auto
    with assms(2) obtain m where m: "step_ids m = map st_id steps" "in_order (states m)"
      "\<not> set (states m) \<subseteq> {StepUnchosen}" "StepWaiting \<notin> set (states m)" "run = stored_of m"
      by (auto simp: stored_ok_def)
    define m' where "m' = snd (adopt run m0)"
    have len: "length (md_steps m0) = length (md_steps m)" using ids m(1) by (simp add: step_ids_length)
    have some: "\<exists>e \<in> set (md_steps m). en_state e \<noteq> StepUnchosen" using m(3) by (auto simp: states_def)
    have same_ids: "step_ids m0 = step_ids m" "distinct (step_ids m)" using ids m(1) assms(1) by simp_all
    have "m' = snd (adopt (stored_of m) m0)" by (simp add: m'_def m(5))
    note adopted = adopt_stored_of [OF same_ids some in_order_one_failed [OF m(2)] this]
    have ad: "fst (adopt run m0)" "length (md_steps m') = length (md_steps m)" "md_generation m' = md_generation m0 + 1"
      "md_state m' = (if \<exists>e \<in> set (md_steps m). en_state e = StepFailed then RunFailed else RunRunning)"
      "md_prompts m' = []"
      unfolding m(5) using adopted by blast+
    have "md_steps m' ! j = (md_steps m0 ! j)
        \<lparr>en_state := resumed_state (en_state (md_steps m ! j)), en_progress := None,
         en_reason := (if en_state (md_steps m ! j) = StepFailed
           then Some (case en_reason (md_steps m ! j) of None \<Rightarrow> [] | Some r \<Rightarrow> r) else None),
         en_result := None\<rparr>" if "j < length (md_steps m)" for j
      using adopted that by blast
    then have nth: "\<forall>j < length (md_steps m). en_state (md_steps m' ! j) = resumed_state (en_state (md_steps m ! j))
        \<and> en_id (md_steps m' ! j) = en_id (md_steps m0 ! j)"
      by simp
    have st: "states m' = map resumed_state (states m)"
      using ad(2) nth by (auto simp: states_def intro!: nth_equalityI)
    have ids': "step_ids m' = map st_id steps"
      unfolding ids [symmetric] using ad(2) nth len by (intro step_ids_eqI) auto
    have failed: "StepFailed \<in> set (states m') \<longleftrightarrow> (\<exists>e \<in> set (md_steps m). en_state e = StepFailed)"
    proof -
      have "StepFailed = resumed_state x \<longleftrightarrow> x = StepFailed" for x by (auto simp: resumed_state_def)
      then have "StepFailed \<in> set (states m') \<longleftrightarrow> StepFailed \<in> set (states m)" by (simp add: st image_iff)
      also have "\<dots> \<longleftrightarrow> (\<exists>e \<in> set (md_steps m). en_state e = StepFailed)" by (force simp: states_def)
      finally show ?thesis .
    qed
    have "model_ok m'" unfolding m'_def by (rule adopt_model_ok [OF m0])
    then have run_ok: "run_ok m'"
      using in_order_resumed [OF m(2)] failed ad(4) by (auto simp: run_ok_def st phase_ok_def)
    have nowhere: "StepRunning \<notin> set (states m')" by (auto simp: st resumed_state_def)
    have waits: "model_run m' = RunFailed \<longleftrightarrow> md_state m' = RunFailed" using ad(5) by (simp add: model_run_def)
    have base: "in_tasks s0 = []" "in_acts s0 = []" "in_steps s0 = steps" "in_store s0 = store" "in_model s0 = m0"
      by (simp_all add: s0_def)
    have start: "engine_start steps store built load cleared = engine_resume load cleared s0"
      by (simp add: engine_start_def s0_def m0_def Let_def)
    have "publish (s0\<lparr>in_model := m'\<rparr>) = same_but s0 m'" by (rule publish_same_but)
    then have eq: "engine_start steps store built load cleared =
      (if md_state m' = RunFailed then same_but s0 m' else drive_soon (md_generation m') (same_but s0 m'))"
      unfolding start engine_resume_def using Some ad(1) waits base
      by (simp add: Let_def case_prod_unfold m'_def [symmetric])
    show ?thesis
    proof (cases "md_state m' = RunFailed")
      case True
      then have "tasks_ok [] [] m'" by (simp add: tasks_ok_def run_gens_def)
      with True run_ok ids' assms ad(3) gen base show ?thesis
        by (auto simp: eq engine_ok_def)
    next
      case False
      then have "md_state m' = RunRunning" "StepFailed \<notin> set (states m')" using ad(4) failed by (auto split: if_splits)
      then have "tasks_ok [\<lparr>tk_generation = md_generation m', tk_pc = Top, tk_aborted = False\<rparr>] [] m'"
        using nowhere by (simp add: tasks_ok_def none_under_way_def run_gens_def placed_def)
      with False run_ok ids' assms ad(3) gen base show ?thesis
        by (auto simp: eq engine_ok_def)
    qed
  qed
qed

lemma asks_ok:
  assumes ok: "engine_ok s" and room: "unat (md_generation (in_model s)) < 2 ^ 64 - 1"
  shows "engine_ok (engine_step s (Asks act)) \<and>
    unat (md_generation (in_model (engine_step s (Asks act)))) \<le> unat (md_generation (in_model s)) + 1"
proof (cases "fst (act_step act s)")
  case (Inl refusal)
  then have "snd (act_step act s) = s" by (rule act_decided [THEN conjunct1, rule_format])
  with ok show ?thesis by simp
next
  case (Inr u)
  let ?m = "in_model s"
  have run: "run_ok ?m" and tasks: "tasks_ok (in_tasks s) (in_acts s) ?m" and model: "model_ok ?m"
    using ok by (auto simp: engine_ok_def run_ok_def)
  have room': "unat (md_generation ?m) + 1 < 2 ^ 64" using room by simp
  have gen: "unat (md_generation m) \<le> unat (md_generation ?m) + 1" if "md_generation m = md_generation ?m + 1" for m
    using that room' by (simp add: unat_word_ariths)
  have started: "engine_ok (then_act (Spawning (md_generation m)) (publish (s\<lparr>in_model := m\<rparr>)))"
    if m: "run_ok m" "agrees Top (md_state m) (states m)" "step_ids m = step_ids ?m"
      "md_generation m = md_generation ?m + 1" for m
    using tasks_ok_new(1) [OF tasks m(4) room' m(2)] ok m by (simp add: engine_ok_def)
  from Inr obtain kind where kind: "act_read (ac_act act) = Some kind" "accepted_in kind (model_run ?m)"
    by (auto simp: act_step_def Let_def split: option.splits if_splits)
  show ?thesis
  proof (cases kind)
    case StartAct
    with Inr kind obtain ix where
      "snd (act_step act s) = then_act (Spawning (md_generation (begin_run ix ?m))) (publish (s\<lparr>in_model := begin_run ix ?m\<rparr>))"
      by (auto simp: act_step_def Let_def split: if_splits sum.splits)
    with started [of "begin_run ix ?m"] begin_run_top [of ix ?m] model gen [of "begin_run ix ?m"] show ?thesis
      by (simp add: step_ids_begin_run)
  next
    case AnswerAct
    obtain r m sent where ans: "answer_prompt (ac_prompt act) (ac_value act) ?m = (r, m, sent)"
      by (metis prod.exhaust)
    have same: "same_run ?m m"
      using ans by (auto simp: answer_prompt_def Let_def same_run_def split: option.splits if_splits)
    have "model_ok m" using answer_prompt_ok [OF model, of "ac_prompt act" "ac_value act"] ans by simp
    with same run have "run_ok m" by (metis same_run_ok)
    with same same_run_tasks [OF same] ok ans kind AnswerAct show ?thesis
      by (auto simp: act_step_def Let_def engine_ok_def same_run_def split: sum.split)
  next
    case RetryAct
    with kind(2) have "md_state ?m = RunFailed" by (auto simp: model_run_def split: if_splits)
    from retry_top [OF run this] obtain m where m: "snd (retry ?m) = m" "run_ok m" "agrees Top (md_state m) (states m)"
      "step_ids m = step_ids ?m" "md_generation m = md_generation ?m + 1" by blast
    with RetryAct kind have "snd (act_step act s) = then_act (Spawning (md_generation m)) (publish (s\<lparr>in_model := m\<rparr>))"
      by (simp add: act_step_def Let_def)
    with started m gen [of m] show ?thesis by simp
  next
    have ended: ?thesis if "kind = StopAct \<or> kind = AcknowledgeAct"
    proof -
      define m where "m = (clear_run ?m)\<lparr>md_generation := md_generation ?m + 1\<rparr>"
      have step: "snd (act_step act s) = then_act (Aborting (md_generation m)) (publish (s\<lparr>in_model := m\<rparr>))"
        using kind that by (auto simp: act_step_def Let_def m_def)
      have m: "md_generation m = md_generation ?m + 1" "md_state m = RunIdle" "step_ids m = step_ids ?m"
        by (simp_all add: m_def step_ids_clear_run)
      have "model_ok m" using clear_run_ok [OF model] by (simp add: m_def model_ok_def)
      with clear_run_quiet [OF model] have "run_ok m" by (simp add: m_def run_ok_def)
      moreover have "tasks_ok (in_tasks s) (in_acts s @ [Aborting (md_generation m)]) m"
        using tasks_ok_new(2) [OF tasks m(1) room'] m(2) by simp
      ultimately show ?thesis using ok gen [OF m(1)] by (simp add: step m engine_ok_def)
    qed
    { case StopAct then show ?thesis by (rule ended [OF disjI1]) }
    { case AcknowledgeAct then show ?thesis by (rule ended [OF disjI2]) }
  qed
qed

lemma other_generations:
  assumes "engine_ok s"
  shows "unat (md_generation (in_model (engine_step s (Moves i err env)))) = unat (md_generation (in_model s))"
    and "md_generation (in_model (engine_step s (Dropped i))) = md_generation (in_model s)"
    and "md_generation (in_model (engine_step s (Follows i cleared))) = md_generation (in_model s)"
    and "md_generation (in_model (engine_step s (Determines checks))) = md_generation (in_model s)"
proof -
  show "unat (md_generation (in_model (engine_step s (Moves i err env)))) = unat (md_generation (in_model s))"
  proof (cases "i < length (in_tasks s)")
    case True
    let ?t = "in_tasks s ! i"
    have "md_generation (in_model (snd (drive_move err (tk_generation ?t) env (tk_pc ?t) s))) = md_generation (in_model s)"
    proof (cases "tk_generation ?t = md_generation (in_model s) \<and> \<not> (tk_aborted ?t \<and> tk_pc ?t = Over)")
      case current: True
      with current_moved(2) [OF assms True] show ?thesis by (auto simp: moved_def)
    qed (auto simp: drive_move_stale)
    with True show ?thesis by (simp add: Let_def case_prod_unfold)
  qed simp
qed (simp_all add: case_prod_unfold determine_def Let_def)

interpretation device: metered_machine engine_step engine_ok "\<lambda>s. unat (md_generation (in_model s))" "2 ^ 64 - 1"
proof unfold_locales
  fix s e
  assume ok: "engine_ok s" and room: "unat (md_generation (in_model s)) < 2 ^ 64 - 1"
  have boot: "engine_ok (engine_step s (Reboots load cleared)) \<and>
      unat (md_generation (in_model (engine_step s (Reboots load cleared)))) \<le> 1" for load cleared
    using ok engine_start_ok [of "in_steps s" "in_store s"] by (simp add: engine_ok_def)
  show "engine_ok (engine_step s e)"
    by (cases e) (use ok asks_ok [OF ok room] moves_ok dropped_ok follows_ok determines_ok boot in blast)+
  show "unat (md_generation (in_model (engine_step s e))) \<le> unat (md_generation (in_model s)) + 1"
  proof (cases e)
    case (Reboots load cleared)
    then show ?thesis using boot [of load cleared] by simp
  qed (use asks_ok [OF ok room] other_generations [OF ok] in \<open>simp_all del: engine_step.simps\<close>)
qed

section \<open>Properties\<close>

text \<open>A device started on a fresh medium, or on none, and every state it comes to.\<close>

lemma started_ok:
  assumes "distinct (map st_id steps)" and "store = None \<or> store = Some None" and "length es < 2 ^ 64 - 2"
  shows "engine_ok (foldl engine_step (engine_start steps store built load cleared) es)"
proof -
  have "engine_ok (engine_start steps store built load cleared) \<and>
    unat (md_generation (in_model (engine_start steps store built load cleared))) \<le> 1"
    using assms(1,2) by (intro engine_start_ok) auto
  with device.metered_run [of "engine_start steps store built load cleared" es] assms(3) show ?thesis by simp
qed

text \<open>What a stopped run's task does is not taken for the next run's: a move of a task of any
  generation but the present one, whatever its step reports, asks for or ends with, changes the
  place of that task and nothing else.\<close>

lemma ended_run_changes_nothing:
  assumes "i < length (in_tasks s)" and "tk_generation (in_tasks s ! i) \<noteq> md_generation (in_model s)"
  shows "\<exists>pc. engine_step s (Moves i err env) = s\<lparr>in_tasks := (in_tasks s)[i := (in_tasks s ! i)\<lparr>tk_pc := pc\<rparr>]\<rparr>"
proof
  let ?t = "in_tasks s ! i"
  show "engine_step s (Moves i err env) = s\<lparr>in_tasks := (in_tasks s)[i :=
      ?t\<lparr>tk_pc := fst (drive_move err (tk_generation ?t) env (tk_pc ?t) s)\<rparr>]\<rparr>"
    using assms by (simp add: Let_def case_prod_unfold drive_move_stale)
qed

text \<open>C1. Whatever acts are asked for and however the rest of them is delayed, however steps end, the medium
  fails and the device reboots, the steps of the run under way are carried out one at a time in the
  device's order: none is under way, passed or failed before every chosen step ahead of it has passed.
  At most one task is of the run under way, and the step it carries out is the one reported as running,
  with no other running or failed.  A task of a run that has ended may still be at its step until the act
  that ended the run comes to abort it, or until it notices; nothing it does reaches the model, what is
  published, the medium or another task: only its own place changes.\<close>

theorem steps_carried_in_order:
  fixes steps store built load cleared es
  assumes "distinct (map st_id steps)" and "store = None \<or> store = Some None" and "length es < 2 ^ 64 - 2"
  defines "s \<equiv> foldl engine_step (engine_start steps store built load cleared) es"
  shows "(\<forall>i j. i < j \<and> j < length (md_steps (in_model s))
        \<and> en_state (md_steps (in_model s) ! j) \<in> {StepRunning, StepPassed, StepFailed} \<longrightarrow>
        en_state (md_steps (in_model s) ! i) \<in> {StepUnchosen, StepPassed})
    \<and> (\<forall>k l. k < length (in_tasks s) \<and> l < length (in_tasks s)
        \<and> tk_generation (in_tasks s ! k) = md_generation (in_model s)
        \<and> tk_generation (in_tasks s ! l) = md_generation (in_model s) \<longrightarrow> k = l)
    \<and> (\<forall>t \<in> set (in_tasks s). \<forall>i. tk_generation t = md_generation (in_model s) \<and> tk_pc t = Carrying i \<longrightarrow>
        en_state (md_steps (in_model s) ! i) = StepRunning
        \<and> (\<forall>j < length (md_steps (in_model s)). j \<noteq> i \<longrightarrow>
            en_state (md_steps (in_model s) ! j) \<notin> {StepRunning, StepFailed}))
    \<and> (\<forall>k err env. k < length (in_tasks s) \<and> tk_generation (in_tasks s ! k) \<noteq> md_generation (in_model s) \<longrightarrow>
        (\<exists>pc. engine_step s (Moves k err env) = s\<lparr>in_tasks := (in_tasks s)[k := (in_tasks s ! k)\<lparr>tk_pc := pc\<rparr>]\<rparr>))"
proof (intro conjI)
  have ok: "engine_ok s" unfolding s_def by (rule started_ok [OF assms(1-3)])
  then have order: "in_order (states (in_model s))" and ts: "tasks_ok (in_tasks s) (in_acts s) (in_model s)"
    by (simp_all add: engine_ok_def run_ok_def)
  show "\<forall>i j. i < j \<and> j < length (md_steps (in_model s))
        \<and> en_state (md_steps (in_model s) ! j) \<in> {StepRunning, StepPassed, StepFailed} \<longrightarrow>
        en_state (md_steps (in_model s) ! i) \<in> {StepUnchosen, StepPassed}"
    using in_order_at [OF order] by (fastforce simp: states_nth)
  show "\<forall>k l. k < length (in_tasks s) \<and> l < length (in_tasks s)
        \<and> tk_generation (in_tasks s ! k) = md_generation (in_model s)
        \<and> tk_generation (in_tasks s ! l) = md_generation (in_model s) \<longrightarrow> k = l"
    using tasks_ok_at(3) [OF ts] by blast
  have "only_under_way i (states (in_model s))"
    if "t \<in> set (in_tasks s)" "tk_generation t = md_generation (in_model s)" "tk_pc t = Carrying i" for t i
    using ts that by (auto simp: tasks_ok_def placed_def)
  then show "\<forall>t \<in> set (in_tasks s). \<forall>i. tk_generation t = md_generation (in_model s) \<and> tk_pc t = Carrying i \<longrightarrow>
        en_state (md_steps (in_model s) ! i) = StepRunning
        \<and> (\<forall>j < length (md_steps (in_model s)). j \<noteq> i \<longrightarrow>
            en_state (md_steps (in_model s) ! j) \<notin> {StepRunning, StepFailed})"
    by (fastforce simp: only_under_way_def states_nth)
  show "\<forall>k err env. k < length (in_tasks s) \<and> tk_generation (in_tasks s ! k) \<noteq> md_generation (in_model s) \<longrightarrow>
        (\<exists>pc. engine_step s (Moves k err env) = s\<lparr>in_tasks := (in_tasks s)[k := (in_tasks s ! k)\<lparr>tk_pc := pc\<rparr>]\<rparr>)"
    using ended_run_changes_nothing by blast
qed

definition example_run :: "engine_event list" where
  "example_run = [Asks (start_of [''name'', ''disk'']), Follows 0 True, Follows 0 True, Moves 0 [] Go, Moves 0 [] Go, Moves 0 [] Go,
     Moves 0 [] (Keeps Saved), Moves 0 [] (Uses (CtxNeed ''wipe'' Confirm ''Wipe the disk?'' 0))]"

theorem steps_carried_in_order_witness:
  "let s = foldl engine_step (engine_start example_steps (Some None) (2026, 1, 1) Loaded True) example_run
   in tk_pc (in_tasks s ! 0) = Carrying 0 \<and> en_state (md_steps (in_model s) ! 0) = StepRunning"
proof -
  let ?s = "foldl engine_step (engine_start example_steps (Some None) (2026, 1, 1) Loaded True) example_run"
  have "distinct (map st_id example_steps)" "length example_run < 2 ^ 64 - 2"
    by code_simp (simp add: example_run_def)
  moreover have "length (in_tasks ?s) = 1" "tk_pc (in_tasks ?s ! 0) = Carrying 0"
    "tk_generation (in_tasks ?s ! 0) = md_generation (in_model ?s)" by code_simp+
  moreover from this have "in_tasks ?s ! 0 \<in> set (in_tasks ?s)" by simp
  ultimately show ?thesis
    using steps_carried_in_order [of example_steps "Some None" example_run "(2026, 1, 1)" Loaded True]
    by (simp only: Let_def) blast
qed

text \<open>A run under way always has exactly one task of its generation, or an act that is about to spawn
  it: none is left without one to carry it out, and no second one carries it out beside it.  What is
  published is always the model as it stands.\<close>

lemma run_has_one_task:
  fixes steps store built load cleared es
  assumes "distinct (map st_id steps)" and "store = None \<or> store = Some None" and "length es < 2 ^ 64 - 2"
  defines "s \<equiv> foldl engine_step (engine_start steps store built load cleared) es"
  shows "(md_state (in_model s) = RunRunning \<longrightarrow>
        count_list (run_gens (in_tasks s) (in_acts s)) (md_generation (in_model s)) = 1)
    \<and> (\<forall>t \<in> set (in_tasks s). tk_generation t = md_generation (in_model s) \<and> md_state (in_model s) = RunRunning
        \<and> tk_pc t = Over \<longrightarrow> tk_aborted t)
    \<and> in_changes s = model_snapshot (in_model s)"
proof -
  have ok: "engine_ok s" unfolding s_def by (rule started_ok [OF assms(1-3)])
  have "count_list xs x = 1" if "distinct xs" "x \<in> set xs" for xs :: "u64 list" and x
    using that by (simp add: distinct_count_atmost_1 count_mset [symmetric])
  with ok show ?thesis by (auto simp: engine_ok_def tasks_ok_def placed_def)
qed

text \<open>
  What it does not promise: a stop lets go of the model before it takes the task held, so another front
  end's start may come in between, and then it is the new run's task that the stop aborts.  The new run
  stays running, with no task left to carry it out and no act that will spawn one; no act but an answer
  is accepted of it, and it has no prompt to answer.
\<close>

definition overtaken :: "engine_event list" where
  "overtaken =
     [Asks (start_of [''disk'']), Follows 0 True, Follows 0 True, Moves 0 [] Go, Moves 0 [] Go, Moves 0 [] Go,
      Moves 0 [] (Keeps Saved), Moves 0 [] (Ends (StepErr ''no disk'')), Moves 0 [] Go, Moves 0 [] Go, Moves 0 [] Go,
      Moves 0 [] (Keeps Saved),
      Asks \<lparr>ac_act = ''stop'', ac_steps = None, ac_prompt = None, ac_value = None\<rparr>,
      Asks (start_of [''disk'']), Follows 1 True, Follows 1 True, Follows 0 True, Dropped 1, Follows 0 True]"

lemma overtaken_run_is_left:
  "let s = foldl engine_step (engine_start example_steps (Some None) (2026, 1, 1) Loaded True) overtaken in
     model_run (in_model s) = RunRunning \<and> map tk_pc (in_tasks s) = [Over, Over] \<and> in_acts s = []
     \<and> md_prompts (in_model s) = [] \<and> (\<forall>kind. accepted_in kind (model_run (in_model s)) \<longrightarrow> kind = AnswerAct)"
proof -
  let ?s = "foldl engine_step (engine_start example_steps (Some None) (2026, 1, 1) Loaded True) overtaken"
  have run: "model_run (in_model ?s) = RunRunning" by code_simp
  moreover have "map tk_pc (in_tasks ?s) = [Over, Over]" "in_acts ?s = []" "md_prompts (in_model ?s) = []"
    by code_simp+
  moreover have "kind = AnswerAct" if "accepted_in kind RunRunning" for kind
    using that by (cases kind) simp_all
  ultimately show ?thesis unfolding Let_def run by blast
qed

section \<open>What the medium keeps\<close>

text \<open>Events in which the medium can be read and cleared when the device does so.\<close>

fun medium_works :: "engine_event \<Rightarrow> bool" where
  "medium_works (Moves i err (Clears ok)) = ok"
| "medium_works (Follows i ok) = ok"
| "medium_works (Reboots load ok) = (load = Loaded \<and> ok)"
| "medium_works _ = True"

text \<open>A run kept is the run under way or failed, or is about to be discarded.\<close>

definition discarding :: "inner \<Rightarrow> bool" where
  "discarding s \<longleftrightarrow> Aborting (md_generation (in_model s)) \<in> set (in_acts s)
     \<or> Discarding (md_generation (in_model s)) \<in> set (in_acts s)
     \<or> (\<exists>t \<in> set (in_tasks s). tk_generation t = md_generation (in_model s) \<and> tk_pc t = Forgetting)"

definition kept_ok :: "inner \<Rightarrow> bool" where
  "kept_ok s \<longleftrightarrow> md_state (in_model s) \<in> {RunRunning, RunFailed} \<or> discarding s
     \<or> in_store s = None \<or> in_store s = Some None"

lemma over_from:
  assumes "md_generation (in_model s) = g" and "fst (drive_move err g env pc s) = Over"
  shows "pc = Over \<or> pc = KeepingFailed \<or> (\<exists>ok. pc = Forgetting \<and> env = Clears ok)"
  using assms(2)
  by (cases "(err, g, env, pc, s)" rule: drive_move.cases)
    (auto simp: mutate_current [OF assms(1)] case_prod_unfold Let_def
      split: drive_env.splits option.splits if_splits)

lemma moves_kept:
  assumes ok: "engine_ok s" and kept: "kept_ok s" and works: "medium_works (Moves i err env)"
  shows "kept_ok (engine_step s (Moves i err env))"
proof (cases "i < length (in_tasks s) \<and> tk_pc (in_tasks s ! i) \<noteq> Over")
  case live: True
  then have True: "i < length (in_tasks s)" by simp
  define t where "t = in_tasks s ! i"
  define pc' where "pc' = fst (drive_move err (tk_generation t) env (tk_pc t) s)"
  define s' where "s' = snd (drive_move err (tk_generation t) env (tk_pc t) s)"
  have step: "engine_step s (Moves i err env) = s'\<lparr>in_tasks := (in_tasks s')[i := t\<lparr>tk_pc := pc'\<rparr>]\<rparr>"
    using True by (simp add: t_def pc'_def s'_def Let_def case_prod_unfold)
  show ?thesis
  proof (cases "tk_generation t = md_generation (in_model s)")
    case False
    then have s': "s' = s" by (simp add: s'_def drive_move_stale)
    have "u \<in> set ((in_tasks s)[i := t\<lparr>tk_pc := pc'\<rparr>])"
      if "u \<in> set (in_tasks s)" "tk_generation u = md_generation (in_model s)" for u
    proof -
      from that obtain j where j: "j < length (in_tasks s)" "u = in_tasks s ! j" by (auto simp: in_set_conv_nth)
      with that False have "j \<noteq> i" by (auto simp: t_def)
      with j show ?thesis by (auto simp: in_set_conv_nth nth_list_update intro!: exI [of _ j])
    qed
    with kept show ?thesis unfolding step s' by (auto simp: kept_ok_def discarding_def)
  next
    case current: True
    have pc: "agrees (tk_pc t) (md_state (in_model s)) (states (in_model s))"
      using current_moved(1) [OF ok True] current live by (simp add: t_def)
    have moved: "moved s pc' s'"
      unfolding pc'_def s'_def using drive_move_moved [OF ok pc] current by simp
    have here: "t\<lparr>tk_pc := pc'\<rparr> \<in> set ((in_tasks s)[i := t\<lparr>tk_pc := pc'\<rparr>])"
      using True by (rule set_update_memI)
    show ?thesis
    proof (cases "pc' = Over")
      case False
      with moved consider "md_state (in_model s') \<in> {RunRunning, RunFailed}" | "pc' = Forgetting"
        by (cases pc') (auto simp: moved_def)
      then show ?thesis
      proof cases
        case 2
        with here moved current have "discarding (s'\<lparr>in_tasks := (in_tasks s')[i := t\<lparr>tk_pc := pc'\<rparr>]\<rparr>)"
          by (fastforce simp: discarding_def moved_def)
        then show ?thesis unfolding step by (simp add: kept_ok_def)
      next
        case 1
        then show ?thesis unfolding step by (simp add: kept_ok_def)
      qed
    next
      case over: True
      have "fst (drive_move err (tk_generation t) env (tk_pc t) s) = Over" using over by (simp add: pc'_def)
      from over_from [OF current [symmetric] this]
      consider "tk_pc t = Over" | "tk_pc t = KeepingFailed" | ok where "tk_pc t = Forgetting" "env = Clears ok" by blast
      then show ?thesis
      proof cases
        case 1
        then have same: "s' = s" "t\<lparr>tk_pc := pc'\<rparr> = t" using over by (simp_all add: s'_def)
        then show ?thesis using kept unfolding step by (simp add: t_def)
      next
        case 2
        then have "md_state (in_model s') = RunFailed"
          using pc by (auto simp: s'_def record_run_def case_prod_unfold Let_def split: drive_env.split option.split)
        then show ?thesis unfolding step by (simp add: kept_ok_def)
      next
        case 3
        with works current have "in_store s' = None \<or> in_store s' = Some None"
          by (auto simp: s'_def forget_run_def store_clear_def split: option.split)
        then show ?thesis unfolding step by (auto simp: kept_ok_def)
      qed
    qed
  qed
next
  case False
  then show ?thesis using kept dropped_moves [of s i err env] by (cases "i < length (in_tasks s)") auto
qed

lemma asks_kept:
  assumes ok: "engine_ok s" and kept: "kept_ok s"
  shows "kept_ok (engine_step s (Asks act))"
proof (cases "fst (act_step act s)")
  case (Inl refusal)
  then have "snd (act_step act s) = s" by (rule act_decided [THEN conjunct1, rule_format])
  with kept show ?thesis by simp
next
  case (Inr u)
  then obtain kind where kind: "act_read (ac_act act) = Some kind" "accepted_in kind (model_run (in_model s))"
    by (auto simp: act_step_def Let_def split: option.splits if_splits)
  show ?thesis
  proof (cases kind)
    case StartAct
    with Inr kind show ?thesis
      by (auto simp: act_step_def Let_def kept_ok_def split: if_splits sum.splits)
  next
    case AnswerAct
    obtain r m sent where ans: "answer_prompt (ac_prompt act) (ac_value act) (in_model s) = (r, m, sent)"
      by (metis prod.exhaust)
    then have "md_state m = md_state (in_model s)"
      by (auto simp: answer_prompt_def Let_def split: option.splits if_splits)
    moreover have "md_state (in_model s) \<in> {RunRunning, RunFailed}"
      using kind AnswerAct ok by (auto simp: model_run_def engine_ok_def run_ok_def model_ok_def split: if_splits)
    ultimately show ?thesis using kind AnswerAct ans kept
      by (auto simp: act_step_def Let_def kept_ok_def split: sum.split)
  next
    case RetryAct
    with kind(2) have "md_state (in_model s) = RunFailed" by (auto simp: model_run_def split: if_splits)
    then have "\<exists>i. position (\<lambda>e. en_state e = StepFailed) (md_steps (in_model s)) = Some i"
      using ok position_ex [of _ "md_steps (in_model s)" "\<lambda>e. en_state e = StepFailed"]
      by (force simp: engine_ok_def run_ok_def phase_ok_def states_def)
    with RetryAct kind show ?thesis
      by (auto simp: act_step_def Let_def kept_ok_def retry_at)
  qed (use kind in \<open>auto simp: act_step_def Let_def kept_ok_def discarding_def\<close>)
qed

lemma abort_task_keeps:
  "t \<in> set (in_tasks s) \<Longrightarrow> \<exists>u \<in> set (in_tasks (abort_task s)). tk_generation u = tk_generation t \<and> tk_pc u = tk_pc t"
proof -
  assume "t \<in> set (in_tasks s)"
  then obtain j where j: "j < length (in_tasks s)" "t = in_tasks s ! j" by (auto simp: in_set_conv_nth)
  show ?thesis
  proof (rule bexI [of _ "in_tasks (abort_task s) ! j"])
    show "in_tasks (abort_task s) ! j \<in> set (in_tasks (abort_task s))" using j(1) by simp
    show "tk_generation (in_tasks (abort_task s) ! j) = tk_generation t \<and> tk_pc (in_tasks (abort_task s) ! j) = tk_pc t"
      using j by (cases "in_task s = Some j") (auto simp: abort_task_def split: option.split)
  qed
qed

lemma others_kept:
  assumes ok: "engine_ok s" and kept: "kept_ok s"
  shows "kept_ok (engine_step s (Dropped i))" and "kept_ok (engine_step s (Follows i True))"
    and "kept_ok (engine_step s (Determines checks))"
proof -
  show "kept_ok (engine_step s (Dropped i))"
  proof (cases "i < length (in_tasks s) \<and> tk_aborted (in_tasks s ! i) \<and> tk_pc (in_tasks s ! i) \<noteq> Forgetting")
    case True
    have "u \<in> set ((in_tasks s)[i := (in_tasks s ! i)\<lparr>tk_pc := Over\<rparr>])"
      if "u \<in> set (in_tasks s)" "tk_pc u = Forgetting" for u
    proof -
      from that obtain j where j: "j < length (in_tasks s)" "u = in_tasks s ! j" by (auto simp: in_set_conv_nth)
      with that True have "j \<noteq> i" by auto
      with j show ?thesis by (auto simp: in_set_conv_nth nth_list_update intro!: exI [of _ j])
    qed
    with True kept show ?thesis by (auto simp: kept_ok_def discarding_def)
  qed (use kept in auto)
  show "kept_ok (engine_step s (Follows i True))"
  proof (cases "i < length (in_acts s)")
    case True
    define a where "a = in_acts s ! i"
    have split: "in_acts s = take i (in_acts s) @ a # drop (i + 1) (in_acts s)"
      using id_take_nth_drop [OF True] by (simp add: a_def)
    have left: "x \<in> set (take i (in_acts s)) \<union> set (drop (i + 1) (in_acts s))" if "x \<in> set (in_acts s)" "x \<noteq> a" for x
      using that arg_cong [OF split, of set] by auto
    have kept': "md_state (in_model s) \<in> {RunRunning, RunFailed} \<or> Aborting (md_generation (in_model s)) \<in> set (in_acts s)
        \<or> Discarding (md_generation (in_model s)) \<in> set (in_acts s)
        \<or> (\<exists>t \<in> set (in_tasks s). tk_generation t = md_generation (in_model s) \<and> tk_pc t = Forgetting)
        \<or> in_store s = None \<or> in_store s = Some None"
      using kept by (auto simp: kept_ok_def discarding_def)
    have step: "engine_step s (Follows i True) = (snd (act_move True a s))\<lparr>in_acts := take i (in_acts s)
        @ (case fst (act_move True a s) of None \<Rightarrow> [] | Some b \<Rightarrow> [b]) @ drop (i + 1) (in_acts s)\<rparr>"
      using True by (simp add: a_def case_prod_unfold Let_def)
    note stay = left [of "Aborting (md_generation (in_model s))"] left [of "Discarding (md_generation (in_model s))"]
    show ?thesis
    proof (cases a)
      case (Spawning g)
      with kept' stay show ?thesis unfolding step
        by (auto simp: kept_ok_def discarding_def spawn_task_def)
    next
      case (Holding j)
      with kept' stay show ?thesis unfolding step
        by (auto simp: kept_ok_def discarding_def hold_task_def)
    next
      case (Aborting g)
      have "\<exists>t \<in> set (in_tasks (abort_task s)). tk_generation t = md_generation (in_model s) \<and> tk_pc t = Forgetting"
        if "\<exists>t \<in> set (in_tasks s). tk_generation t = md_generation (in_model s) \<and> tk_pc t = Forgetting"
        using that abort_task_keeps by fastforce
      with Aborting kept' stay show ?thesis unfolding step
        by (auto simp: kept_ok_def discarding_def)
    next
      case (Discarding g)
      with kept' stay show ?thesis unfolding step
        by (auto simp: kept_ok_def discarding_def forget_run_def store_clear_def split: option.split)
    qed
  qed (use kept in simp)
  have "md_state (in_model (determine checks s)) = md_state (in_model s)"
    "md_generation (in_model (determine checks s)) = md_generation (in_model s)"
    "in_tasks (determine checks s) = in_tasks s" "in_acts (determine checks s) = in_acts s"
    "in_store (determine checks s) = in_store s"
    by (simp_all add: determine_def Let_def)
  with kept show "kept_ok (engine_step s (Determines checks))" by (simp add: kept_ok_def discarding_def)
qed

lemma boot_kept:
  assumes "distinct (map st_id steps)"
    and "\<And>run. store = Some (Some run) \<Longrightarrow> stored_ok (map st_id steps) run"
  shows "kept_ok (engine_start steps store built Loaded True)"
proof (cases store)
  case None
  then show ?thesis by (simp add: engine_start_def engine_resume_def Let_def kept_ok_def)
next
  case (Some kept)
  show ?thesis
  proof (cases kept)
    case None
    with Some show ?thesis by (simp add: engine_start_def engine_resume_def Let_def kept_ok_def)
  next
    case kept: (Some run)
    have "md_state (snd (adopt run m)) \<in> {RunRunning, RunFailed}" if "fst (adopt run m)" for m
      using that by (auto simp: adopt_def Let_def split: option.splits if_splits)
    with Some kept show ?thesis
      by (auto simp: engine_start_def engine_resume_def Let_def kept_ok_def case_prod_unfold store_clear_def)
  qed
qed

lemma events_kept:
  assumes "engine_ok s" and "kept_ok s" and "medium_works e"
  shows "kept_ok (engine_step s e)"
proof (cases e)
  case (Reboots load cleared)
  with assms show ?thesis using boot_kept [of "in_steps s" "in_store s"] by (simp add: engine_ok_def)
qed (use assms asks_kept moves_kept others_kept in \<open>auto simp del: engine_step.simps\<close>)

lemma run_kept:
  "engine_ok s \<Longrightarrow> kept_ok s \<Longrightarrow> list_all medium_works es \<Longrightarrow>
    unat (md_generation (in_model s)) + length es \<le> 2 ^ 64 - 1 \<Longrightarrow> kept_ok (foldl engine_step s es)"
proof (induction es rule: rev_induct)
  case (snoc e es)
  then have kept: "kept_ok (foldl engine_step s es)" by simp
  have "engine_ok (foldl engine_step s es)"
    using device.metered_run [OF snoc.prems(1), of es] snoc.prems(4) by simp
  with kept snoc.prems(3) show ?case by (simp add: events_kept)
qed simp

text \<open>C27. A run that has ended does not come back: where the medium can be read and cleared, a device that
  is idle or finished and has nothing left to discard keeps no run, so no write for a run that has
  ended lands after its clearing, and a reboot does not take an ended run up again.\<close>

theorem ended_run_is_discarded:
  fixes steps store built es
  assumes "distinct (map st_id steps)" and "store = None \<or> store = Some None" and "length es < 2 ^ 64 - 2"
    and "list_all medium_works es"
  defines "s \<equiv> foldl engine_step (engine_start steps store built Loaded True) es"
  assumes "at_rest (in_model s)" and "\<not> discarding s"
  shows "in_store s = None \<or> in_store s = Some None"
proof -
  let ?s0 = "engine_start steps store built Loaded True"
  have "engine_ok ?s0 \<and> unat (md_generation (in_model ?s0)) \<le> 1"
    using assms(1,2) by (intro engine_start_ok) auto
  moreover have "kept_ok ?s0" using assms(1,2) by (intro boot_kept) auto
  ultimately have "kept_ok s" unfolding s_def using assms(3,4) by (intro run_kept) auto
  with assms(6,7) show ?thesis by (auto simp: kept_ok_def at_rest_def)
qed

theorem ended_run_is_discarded_witness:
  "let s = foldl engine_step (engine_start example_steps (Some None) (2026, 1, 1) Loaded True)
        (example_run @ [Asks \<lparr>ac_act = ''stop'', ac_steps = None, ac_prompt = None, ac_value = None\<rparr>, Follows 0 True, Follows 0 True,
           Moves 0 [] (Ends StepOk), Moves 0 [] Go, Moves 0 [] Go])
   in in_store s = Some None"
proof -
  let ?es = "example_run @ [Asks \<lparr>ac_act = ''stop'', ac_steps = None, ac_prompt = None, ac_value = None\<rparr>, Follows 0 True, Follows 0 True,
           Moves 0 [] (Ends StepOk), Moves 0 [] Go, Moves 0 [] Go]"
  let ?s = "foldl engine_step (engine_start example_steps (Some None) (2026, 1, 1) Loaded True) ?es"
  have "distinct (map st_id example_steps)" "length ?es < 2 ^ 64 - 2"
    by code_simp (simp add: example_run_def)
  moreover have "list_all medium_works ?es" "at_rest (in_model ?s)" "\<not> discarding ?s" "in_store ?s \<noteq> None"
    by code_simp+
  ultimately show ?thesis
    using ended_run_is_discarded [of example_steps "Some None" ?es "(2026, 1, 1)"] by (simp only: Let_def) blast
qed

end
