(* ===== verification/Config.thy ===== *)
theory Config
  imports Json Report
begin

text \<open>
  A device's network configuration, \<open>crates/bliti-core/src/channel/config.rs\<close>: the document a client
  sends, read from JSON with the rules no device can waive, and written back.  A fault names the
  member at fault by its path and gives its words; where those words quote a value of the document,
  the value stands for its quotation.
\<close>

section \<open>Faults\<close>

datatype cfg_reason = Words string | AlreadyDynamic string | NamedTwice string

record invalid =
  iv_at :: string
  iv_reason :: cfg_reason

definition invalid_at :: "string \<Rightarrow> cfg_reason \<Rightarrow> invalid" where
  "invalid_at at reason = \<lparr>iv_at = at, iv_reason = reason\<rparr>"

text \<open>\<open>?\<close> on a result, and \<open>map_err\<close>.\<close>

definition try_r :: "'e + 'a \<Rightarrow> ('a \<Rightarrow> 'e + 'b) \<Rightarrow> 'e + 'b" where
  "try_r r f = (case r of Inl e \<Rightarrow> Inl e | Inr x \<Rightarrow> f x)"

definition map_err :: "('e \<Rightarrow> 'f) \<Rightarrow> 'e + 'a \<Rightarrow> 'f + 'a" where
  "map_err f r = (case r of Inl e \<Rightarrow> Inl (f e) | Inr x \<Rightarrow> Inr x)"

lemma try_r_Inr [simp]: "try_r (Inr x) f = f x" and try_r_Inl [simp]: "try_r (Inl e) f = Inl e"
  by (simp_all add: try_r_def)

lemma map_err_Inr [simp]: "map_err f (Inr x) = Inr x" and map_err_Inl [simp]: "map_err f (Inl e) = Inl (f e)"
  by (simp_all add: map_err_def)

lemma try_r_eq_Inr: "try_r r f = Inr y \<longleftrightarrow> (\<exists>x. r = Inr x \<and> f x = Inr y)"
  by (cases r) simp_all

lemma try_r_eq_Inl: "try_r r f = Inl e \<longleftrightarrow> r = Inl e \<or> (\<exists>x. r = Inr x \<and> f x = Inl e)"
  by (cases r) auto

lemma map_err_eq_Inr: "map_err f r = Inr x \<longleftrightarrow> r = Inr x"
  by (cases r) simp_all

lemma map_err_eq_Inl: "map_err f r = Inl e \<longleftrightarrow> (\<exists>e'. r = Inl e' \<and> e = f e')"
  by (cases r) auto

section \<open>Outcomes and failures\<close>

datatype outcome_of = Verifying | Applied | ConfigFailed

fun outcome_as_str :: "outcome_of \<Rightarrow> string" where
  "outcome_as_str Verifying = ''verifying''"
| "outcome_as_str Applied = ''applied''"
| "outcome_as_str ConfigFailed = ''failed''"

definition outcome_read :: "string \<Rightarrow> string + outcome_of" where
  "outcome_read name =
     (if name = ''verifying'' then Inr Verifying
      else if name = ''applied'' then Inr Applied
      else if name = ''failed'' then Inr ConfigFailed
      else Inl name)"

record failure =
  fl_at :: string
  fl_reason :: string
  fl_reached :: "string option"

definition failure_to_map :: "failure \<Rightarrow> jmap" where
  "failure_to_map f =
     (let m = bt_insert ''at'' (JString (fl_at f)) [];
          m = bt_insert ''reason'' (JString (fl_reason f)) m
      in case fl_reached f of None \<Rightarrow> m | Some r \<Rightarrow> bt_insert ''reached'' (JString r) m)"

definition failure_string :: "jmap \<Rightarrow> string \<Rightarrow> string + string" where
  "failure_string m member =
     (case bt_get m member of
        Some (JString v) \<Rightarrow> Inr v
      | _ \<Rightarrow> Inl (''a failure carries a string `'' @ member @ ''`''))"

definition failure_read :: "jmap \<Rightarrow> string + failure" where
  "failure_read m =
     try_r (failure_string m ''at'') (\<lambda>at.
     try_r (failure_string m ''reason'') (\<lambda>reason.
     try_r (case bt_get m ''reached'' of
              None \<Rightarrow> Inr None
            | Some JNull \<Rightarrow> Inr None
            | Some (JString reached) \<Rightarrow> Inr (Some reached)
            | Some _ \<Rightarrow> Inl ''`reached` is a string'') (\<lambda>reached.
     Inr \<lparr>fl_at = at, fl_reason = reason, fl_reached = reached\<rparr>)))"

section \<open>Members\<close>

definition string_member :: "jmap \<Rightarrow> string \<Rightarrow> cfg_reason + string" where
  "string_member m member =
     (case Option.bind (bt_get m member) as_str of
        Some s \<Rightarrow> Inr s
      | None \<Rightarrow> Inl (Words (''a string `'' @ member @ ''`'')))"

definition optional_string :: "jmap \<Rightarrow> string \<Rightarrow> cfg_reason + string option" where
  "optional_string m member =
     (case bt_get m member of
        None \<Rightarrow> Inr None
      | Some JNull \<Rightarrow> Inr None
      | Some (JString v) \<Rightarrow> Inr (Some v)
      | Some _ \<Rightarrow> Inl (Words (''`'' @ member @ ''` is a string'')))"

definition string_array :: "jmap \<Rightarrow> string \<Rightarrow> cfg_reason + string list" where
  "string_array m member =
     (let wrong = Inl (Words (''`'' @ member @ ''` is an array of strings'')) in
      case bt_get m member of
        None \<Rightarrow> Inr []
      | Some JNull \<Rightarrow> Inr []
      | Some (JArray items) \<Rightarrow> (case those (map as_str items) of Some ss \<Rightarrow> Inr ss | None \<Rightarrow> wrong)
      | Some _ \<Rightarrow> wrong)"

definition bool_member :: "jmap \<Rightarrow> string \<Rightarrow> cfg_reason + bool option" where
  "bool_member m member =
     (case bt_get m member of
        None \<Rightarrow> Inr None
      | Some JNull \<Rightarrow> Inr None
      | Some (JBool v) \<Rightarrow> Inr (Some v)
      | Some _ \<Rightarrow> Inl (Words (''`'' @ member @ ''` is a boolean'')))"

type_synonym u32 = "32 word"

definition u32_try_from :: "u64 \<Rightarrow> u32 option" where
  "u32_try_from n = (if unat n < 2 ^ 32 then Some (ucast n) else None)"

definition u32_member :: "jmap \<Rightarrow> string \<Rightarrow> cfg_reason + u32 option" where
  "u32_member m member =
     (case bt_get m member of
        None \<Rightarrow> Inr None
      | Some JNull \<Rightarrow> Inr None
      | Some v \<Rightarrow> (case Option.bind (as_u64 v) u32_try_from of
          Some n \<Rightarrow> Inr (Some n)
        | None \<Rightarrow> Inl (Words (''`'' @ member @ ''` is a whole number''))))"

section \<open>Security\<close>

datatype security = Psk string | Sae string | PskSae string | Enterprise jmap

fun security_tag :: "security \<Rightarrow> string" where
  "security_tag (Psk _) = ''psk''"
| "security_tag (Sae _) = ''sae''"
| "security_tag (PskSae _) = ''psk-sae''"
| "security_tag (Enterprise _) = ''enterprise''"

definition attachment_at :: "nat \<Rightarrow> string \<Rightarrow> string" where
  "attachment_at index member = path [Name ''attachments'', Index index, Name member]"

definition security_at :: "nat \<Rightarrow> string \<Rightarrow> string" where
  "security_at index member = path [Name ''attachments'', Index index, Name ''security'', Name member]"

definition security_passphrase :: "jmap \<Rightarrow> nat \<Rightarrow> string \<Rightarrow> invalid + string" where
  "security_passphrase m index kind =
     (case Option.bind (bt_get m ''passphrase'') as_str of
        Some p \<Rightarrow> Inr p
      | None \<Rightarrow> Inl (invalid_at (security_at index ''passphrase'')
          (Words (''a '' @ kind @ '' network carries a passphrase''))))"

definition security_parse :: "jmap \<Rightarrow> nat \<Rightarrow> invalid + security" where
  "security_parse m index =
     (let kind = Option.bind (bt_get m ''kind'') as_str in
      if kind = Some ''psk'' then try_r (security_passphrase m index ''psk'') (\<lambda>p. Inr (Psk p))
      else if kind = Some ''sae'' then try_r (security_passphrase m index ''sae'') (\<lambda>p. Inr (Sae p))
      else if kind = Some ''psk-sae'' then try_r (security_passphrase m index ''psk-sae'') (\<lambda>p. Inr (PskSae p))
      else if kind = Some ''enterprise'' then Inr (Enterprise m)
      else Inl (invalid_at (security_at index ''kind'')
        (Words ''security is one of `psk`, `sae`, `psk-sae` or `enterprise`'')))"

definition with_passphrase :: "security \<Rightarrow> string \<Rightarrow> jmap" where
  "with_passphrase s p =
     bt_insert ''passphrase'' (JString p) (bt_insert ''kind'' (JString (security_tag s)) [])"

fun security_to_json :: "security \<Rightarrow> jmap" where
  "security_to_json (Psk p) = with_passphrase (Psk p) p"
| "security_to_json (Sae p) = with_passphrase (Sae p) p"
| "security_to_json (PskSae p) = with_passphrase (PskSae p) p"
| "security_to_json (Enterprise members) = members"

section \<open>Wireless networks\<close>

record wireless =
  wl_ssid :: string
  wl_security :: security
  wl_hidden :: "bool option"
  wl_interface :: "string option"
  wl_bands :: "string list"

text \<open>The first element that is also before it.\<close>

definition named_twice :: "string list \<Rightarrow> string option" where
  "named_twice xs =
     map_option (\<lambda>i. xs ! i) (List.find (\<lambda>i. xs ! i \<in> set (take i xs)) [0..<length xs])"

definition security_member :: "jmap \<Rightarrow> nat \<Rightarrow> invalid + security" where
  "security_member m index =
     (case bt_get m ''security'' of
        Some (JObject object) \<Rightarrow> security_parse object index
      | _ \<Rightarrow> Inl (invalid_at (attachment_at index ''security'')
          (Words ''a wireless candidate carries a `security` object'')))"

definition hidden_member :: "jmap \<Rightarrow> nat \<Rightarrow> invalid + bool option" where
  "hidden_member m index =
     (case bt_get m ''hidden'' of
        None \<Rightarrow> Inr None
      | Some JNull \<Rightarrow> Inr None
      | Some (JBool hidden) \<Rightarrow> Inr (Some hidden)
      | Some _ \<Rightarrow> Inl (invalid_at (attachment_at index ''hidden'') (Words ''`hidden` is a boolean'')))"

definition wireless_parse :: "jmap \<Rightarrow> nat \<Rightarrow> invalid + wireless" where
  "wireless_parse m index =
     (let at = attachment_at index in
      try_r (map_err (invalid_at (at ''ssid'')) (string_member m ''ssid'')) (\<lambda>ssid.
      try_r (security_member m index) (\<lambda>security.
      try_r (hidden_member m index) (\<lambda>hidden.
      try_r (map_err (invalid_at (at ''interface'')) (optional_string m ''interface'')) (\<lambda>interface.
      try_r (map_err (invalid_at (at ''bands'')) (string_array m ''bands'')) (\<lambda>bands.
      if bt_has m ''bands'' \<and> bands = []
      then Inl (invalid_at (at ''bands'') (Words ''`bands` names at least one band''))
      else case named_twice bands of
        Some twice \<Rightarrow> Inl (invalid_at (at ''bands'') (NamedTwice twice))
      | None \<Rightarrow>
          Inr \<lparr>wl_ssid = ssid, wl_security = security, wl_hidden = hidden, wl_interface = interface,
            wl_bands = bands\<rparr>))))))"

definition put_some :: "string \<Rightarrow> ('a \<Rightarrow> json) \<Rightarrow> 'a option \<Rightarrow> jmap \<Rightarrow> jmap" where
  "put_some member f v m = (case v of None \<Rightarrow> m | Some x \<Rightarrow> bt_insert member (f x) m)"

definition put_list :: "string \<Rightarrow> string list \<Rightarrow> jmap \<Rightarrow> jmap" where
  "put_list member xs m = (if xs = [] then m else bt_insert member (JArray (map JString xs)) m)"

definition wireless_write_into :: "wireless \<Rightarrow> jmap \<Rightarrow> jmap" where
  "wireless_write_into w m =
     put_list ''bands'' (wl_bands w)
       (put_some ''interface'' JString (wl_interface w)
         (put_some ''hidden'' JBool (wl_hidden w)
           (bt_insert ''security'' (JObject (security_to_json (wl_security w)))
             (bt_insert ''ssid'' (JString (wl_ssid w)) m))))"

section \<open>Attachments\<close>

datatype attachment_kind =
    Wireless wireless
  | WiredDynamic string
  | WiredStatic string "string list" string

fun kind_tag :: "attachment_kind \<Rightarrow> string" where
  "kind_tag (Wireless _) = ''wireless''"
| "kind_tag (WiredDynamic _) = ''wired-dynamic''"
| "kind_tag (WiredStatic _ _ _) = ''wired-static''"

record attachment =
  at_label :: string
  at_enabled :: bool
  at_verify :: bool
  at_nameservers :: "string list"
  at_kind :: attachment_kind

definition required_bool :: "string \<Rightarrow> jmap \<Rightarrow> string \<Rightarrow> string \<Rightarrow> invalid + bool" where
  "required_bool at m member words =
     (case bt_get m member of
        Some (JBool b) \<Rightarrow> Inr b
      | _ \<Rightarrow> Inl (invalid_at at (Words words)))"

definition static_parse :: "jmap \<Rightarrow> nat \<Rightarrow> invalid + attachment_kind" where
  "static_parse m index =
     (let at = attachment_at index in
      try_r (map_err (invalid_at (at ''interface'')) (string_member m ''interface'')) (\<lambda>interface.
      try_r (map_err (invalid_at (at ''addresses'')) (string_array m ''addresses'')) (\<lambda>addresses.
      if addresses = []
      then Inl (invalid_at (at ''addresses'') (Words ''a static candidate carries at least one address''))
      else case Option.bind (bt_get m ''gateway'') as_str of
        Some gateway \<Rightarrow> Inr (WiredStatic interface addresses gateway)
      | None \<Rightarrow> Inl (invalid_at (at ''gateway'') (Words ''a static candidate carries a gateway'')))))"

definition kind_parse :: "jmap \<Rightarrow> nat \<Rightarrow> invalid + attachment_kind" where
  "kind_parse m index =
     (let at = attachment_at index; kind = Option.bind (bt_get m ''kind'') as_str in
      if kind = Some ''wireless'' then try_r (wireless_parse m index) (\<lambda>w. Inr (Wireless w))
      else if kind = Some ''wired-dynamic''
      then try_r (map_err (invalid_at (at ''interface'')) (string_member m ''interface''))
        (\<lambda>interface. Inr (WiredDynamic interface))
      else if kind = Some ''wired-static'' then static_parse m index
      else Inl (invalid_at (at ''kind'')
        (Words ''a candidate's kind is `wireless`, `wired-dynamic` or `wired-static`'')))"

definition attachment_parse :: "jmap \<Rightarrow> nat \<Rightarrow> invalid + attachment" where
  "attachment_parse m index =
     (let at = attachment_at index in
      try_r (map_err (invalid_at (at ''label'')) (string_member m ''label'')) (\<lambda>label.
      try_r (required_bool (at ''enabled'') m ''enabled'' ''a candidate carries `enabled`, a boolean'') (\<lambda>enabled.
      try_r (required_bool (at ''verify'') m ''verify'' ''a candidate carries `verify`, a boolean'') (\<lambda>verify.
      try_r (map_err (invalid_at (at ''nameservers'')) (string_array m ''nameservers'')) (\<lambda>nameservers.
      try_r (kind_parse m index) (\<lambda>kind.
      Inr \<lparr>at_label = label, at_enabled = enabled, at_verify = verify, at_nameservers = nameservers,
        at_kind = kind\<rparr>))))))"

definition attachment_to_json :: "attachment \<Rightarrow> json" where
  "attachment_to_json a =
     (let m = bt_insert ''kind'' (JString (kind_tag (at_kind a))) [];
          m = bt_insert ''label'' (JString (at_label a)) m;
          m = bt_insert ''enabled'' (JBool (at_enabled a)) m;
          m = bt_insert ''verify'' (JBool (at_verify a)) m;
          m = put_list ''nameservers'' (at_nameservers a) m
      in JObject (case at_kind a of
           Wireless w \<Rightarrow> wireless_write_into w m
         | WiredDynamic interface \<Rightarrow> bt_insert ''interface'' (JString interface) m
         | WiredStatic interface addresses gateway \<Rightarrow>
             bt_insert ''gateway'' (JString gateway)
               (bt_insert ''addresses'' (JArray (map JString addresses))
                 (bt_insert ''interface'' (JString interface) m))))"

section \<open>The hotspot\<close>

record hotspot =
  hs_enabled :: bool
  hs_ssid :: string
  hs_passphrase :: string
  hs_interface :: "string option"
  hs_share_upstream :: "bool option"
  hs_isolate_clients :: "bool option"
  hs_dhcp_range :: "string option"
  hs_band :: "string option"
  hs_channel :: "u32 option"
  hs_channel_width :: "u32 option"

definition hotspot_at :: "string \<Rightarrow> string" where
  "hotspot_at member = path [Name ''hotspot'', Name member]"

definition hotspot_string :: "jmap \<Rightarrow> string \<Rightarrow> string \<Rightarrow> invalid + string option" where
  "hotspot_string m member words =
     (case bt_get m member of
        None \<Rightarrow> Inr None
      | Some JNull \<Rightarrow> Inr None
      | Some (JString s) \<Rightarrow> Inr (Some s)
      | Some _ \<Rightarrow> Inl (invalid_at (hotspot_at member) (Words words)))"

definition hotspot_parse :: "jmap \<Rightarrow> invalid + hotspot" where
  "hotspot_parse m =
     try_r (required_bool (hotspot_at ''enabled'') m ''enabled'' ''the hotspot carries `enabled`, a boolean'') (\<lambda>enabled.
     try_r (map_err (invalid_at (hotspot_at ''ssid'')) (string_member m ''ssid'')) (\<lambda>ssid.
     try_r (map_err (invalid_at (hotspot_at ''passphrase'')) (string_member m ''passphrase'')) (\<lambda>passphrase.
     try_r (map_err (invalid_at (hotspot_at ''interface'')) (optional_string m ''interface'')) (\<lambda>interface.
     try_r (map_err (invalid_at (hotspot_at ''share-upstream'')) (bool_member m ''share-upstream'')) (\<lambda>share.
     try_r (map_err (invalid_at (hotspot_at ''isolate-clients'')) (bool_member m ''isolate-clients'')) (\<lambda>isolate.
     try_r (hotspot_string m ''dhcp-range'' ''the DHCP range is a string'') (\<lambda>range.
     try_r (hotspot_string m ''band'' ''the band is a string'') (\<lambda>band.
     try_r (map_err (invalid_at (hotspot_at ''channel'')) (u32_member m ''channel'')) (\<lambda>channel.
     try_r (map_err (invalid_at (hotspot_at ''channel-width'')) (u32_member m ''channel-width'')) (\<lambda>width.
     Inr \<lparr>hs_enabled = enabled, hs_ssid = ssid, hs_passphrase = passphrase, hs_interface = interface,
       hs_share_upstream = share, hs_isolate_clients = isolate, hs_dhcp_range = range, hs_band = band,
       hs_channel = channel, hs_channel_width = width\<rparr>))))))))))"

definition json_u32 :: "u32 \<Rightarrow> json" where
  "json_u32 n = JNumber (PosInt (ucast n))"

definition hotspot_to_json :: "hotspot \<Rightarrow> jmap" where
  "hotspot_to_json h =
     (let m = bt_insert ''enabled'' (JBool (hs_enabled h)) [];
          m = bt_insert ''ssid'' (JString (hs_ssid h)) m;
          m = bt_insert ''passphrase'' (JString (hs_passphrase h)) m;
          m = put_some ''interface'' JString (hs_interface h) m;
          m = put_some ''share-upstream'' JBool (hs_share_upstream h) m;
          m = put_some ''isolate-clients'' JBool (hs_isolate_clients h) m;
          m = put_some ''dhcp-range'' JString (hs_dhcp_range h) m;
          m = put_some ''band'' JString (hs_band h) m;
          m = put_some ''channel'' json_u32 (hs_channel h) m
      in put_some ''channel-width'' json_u32 (hs_channel_width h) m)"

section \<open>Documents\<close>

record document =
  dc_attachments :: "attachment list"
  dc_hotspot :: "hotspot option"
  dc_regulatory_domain :: "string option"

definition enabled_hotspot :: "document \<Rightarrow> hotspot option" where
  "enabled_hotspot d =
     (case dc_hotspot d of None \<Rightarrow> None | Some h \<Rightarrow> if hs_enabled h then Some h else None)"

fun as_object :: "json \<Rightarrow> jmap option" where
  "as_object (JObject m) = Some m"
| "as_object _ = None"

text \<open>The loop over the candidates, from position \<open>index\<close>, with the interfaces a dynamic one was found on.\<close>

fun attachments_parse :: "json list \<Rightarrow> nat \<Rightarrow> string list \<Rightarrow> invalid + attachment list" where
  "attachments_parse [] index dynamic = Inr []"
| "attachments_parse (item # items) index dynamic =
     (case as_object item of
        None \<Rightarrow> Inl (invalid_at (path [Name ''attachments'', Index index]) (Words ''a candidate is an object''))
      | Some candidate \<Rightarrow>
          try_r (attachment_parse candidate index) (\<lambda>a.
          try_r (case at_kind a of
                   WiredDynamic interface \<Rightarrow>
                     (if interface \<in> set dynamic
                      then Inl (invalid_at (attachment_at index ''interface'') (AlreadyDynamic interface))
                      else Inr (dynamic @ [interface]))
                 | _ \<Rightarrow> Inr dynamic) (\<lambda>dynamic.
          try_r (attachments_parse items (index + 1) dynamic) (\<lambda>rest. Inr (a # rest)))))"

definition hotspot_member :: "jmap \<Rightarrow> invalid + hotspot option" where
  "hotspot_member m =
     (case bt_get m ''hotspot'' of
        None \<Rightarrow> Inr None
      | Some JNull \<Rightarrow> Inr None
      | Some (JObject object) \<Rightarrow> try_r (hotspot_parse object) (\<lambda>h. Inr (Some h))
      | Some _ \<Rightarrow> Inl (invalid_at (path [Name ''hotspot'']) (Words ''the hotspot is an object'')))"

definition domain_member :: "jmap \<Rightarrow> invalid + string option" where
  "domain_member m =
     (case bt_get m ''regulatory-domain'' of
        None \<Rightarrow> Inr None
      | Some JNull \<Rightarrow> Inr None
      | Some (JString code) \<Rightarrow> Inr (Some code)
      | Some _ \<Rightarrow> Inl (invalid_at (path [Name ''regulatory-domain'']) (Words ''the regulatory domain is a string'')))"

definition document_parse :: "jmap \<Rightarrow> invalid + document" where
  "document_parse m =
     (case bt_get m ''attachments'' of
        Some (JArray items) \<Rightarrow>
          try_r (attachments_parse items 0 []) (\<lambda>attachments.
          try_r (hotspot_member m) (\<lambda>hotspot.
          try_r (domain_member m) (\<lambda>domain.
          Inr \<lparr>dc_attachments = attachments, dc_hotspot = hotspot, dc_regulatory_domain = domain\<rparr>)))
      | _ \<Rightarrow> Inl (invalid_at (path [Name ''attachments'']) (Words ''the document carries an array `attachments`'')))"

definition document_to_json :: "document \<Rightarrow> jmap" where
  "document_to_json d =
     put_some ''regulatory-domain'' JString (dc_regulatory_domain d)
       (put_some ''hotspot'' (\<lambda>h. JObject (hotspot_to_json h)) (dc_hotspot d)
         (bt_insert ''attachments'' (JArray (map attachment_to_json (dc_attachments d))) []))"

section \<open>What a parsed document is\<close>

definition security_ok :: "security \<Rightarrow> bool" where
  "security_ok s = (case s of Enterprise m \<Rightarrow> bt_get m ''kind'' = Some (JString ''enterprise'') | _ \<Rightarrow> True)"

definition kind_ok :: "attachment_kind \<Rightarrow> bool" where
  "kind_ok k =
     (case k of
        Wireless w \<Rightarrow> security_ok (wl_security w) \<and> distinct (wl_bands w)
      | WiredDynamic _ \<Rightarrow> True
      | WiredStatic _ addresses _ \<Rightarrow> addresses \<noteq> [])"

definition dynamic_interface :: "attachment \<Rightarrow> string option" where
  "dynamic_interface a = (case at_kind a of WiredDynamic interface \<Rightarrow> Some interface | _ \<Rightarrow> None)"

definition dynamic_interfaces :: "attachment list \<Rightarrow> string list" where
  "dynamic_interfaces as = List.map_filter dynamic_interface as"

definition document_ok :: "document \<Rightarrow> bool" where
  "document_ok d \<longleftrightarrow> list_all (\<lambda>a. kind_ok (at_kind a)) (dc_attachments d)
     \<and> distinct (dynamic_interfaces (dc_attachments d))"

section \<open>Reading back what is written\<close>

lemma bt_get_put_some [simp]:
  "bt_get (put_some k f v m) q = (if q = k then (case v of None \<Rightarrow> bt_get m q | Some x \<Rightarrow> Some (f x)) else bt_get m q)"
  by (simp add: put_some_def split: option.split)

lemma bt_get_put_list [simp]:
  "bt_get (put_list k xs m) q =
     (if q = k then (if xs = [] then bt_get m q else Some (JArray (map JString xs))) else bt_get m q)"
  by (simp add: put_list_def)

named_theorems reads \<open>what a member reads as, from what the object holds\<close>

lemma string_member_reads [reads]: "bt_get m k = Some (JString s) \<Longrightarrow> string_member m k = Inr s"
  by (simp add: string_member_def)

lemma optional_string_reads [reads]: "bt_get m k = map_option JString v \<Longrightarrow> optional_string m k = Inr v"
  by (cases v) (simp_all add: optional_string_def)

lemma those_strings [simp]: "those (map (as_str \<circ> JString) xs) = Some xs"
  by (induction xs) simp_all

lemma string_array_reads [reads]:
  "bt_get m k = (if xs = [] then None else Some (JArray (map JString xs))) \<Longrightarrow> string_array m k = Inr xs"
  by (simp add: string_array_def Let_def split: if_splits)

lemma string_array_some [reads]: "bt_get m k = Some (JArray (map JString xs)) \<Longrightarrow> string_array m k = Inr xs"
  by (simp add: string_array_def Let_def)

lemma bool_member_reads [reads]: "bt_get m k = map_option JBool v \<Longrightarrow> bool_member m k = Inr v"
  by (cases v) (simp_all add: bool_member_def)

lemma hotspot_string_reads [reads]: "bt_get m k = map_option JString v \<Longrightarrow> hotspot_string m k w = Inr v"
  by (cases v) (simp_all add: hotspot_string_def)

lemma required_bool_reads [reads]: "bt_get m k = Some (JBool b) \<Longrightarrow> required_bool at m k w = Inr b"
  by (simp add: required_bool_def)

lemma u32_of_u64 [simp]: "u32_try_from (ucast (n :: u32)) = Some n"
proof -
  have lt: "unat n < 2 ^ 32" using unsigned_less [of n] by simp
  then have t64: "take_bit 64 (unat n) = unat n" by (intro take_bit_nat_eq_self) simp
  then have up: "unat (ucast n :: u64) = unat n" by (simp add: unsigned_ucast_eq)
  have "take_bit 32 (unat n) = unat n" using lt by (rule take_bit_nat_eq_self)
  then have "ucast (ucast n :: u64) = n" by (simp add: word_unat_eq_iff unsigned_ucast_eq unsigned_take_bit_eq t64)
  with lt up show ?thesis by (simp add: u32_try_from_def)
qed

lemma u32_member_reads [reads]: "bt_get m k = map_option json_u32 v \<Longrightarrow> u32_member m k = Inr v"
  by (cases v) (simp_all add: u32_member_def json_u32_def)

lemma security_roundtrip: "security_ok s \<Longrightarrow> security_parse (security_to_json s) i = Inr s"
  by (cases s) (simp_all add: security_ok_def security_parse_def security_passphrase_def with_passphrase_def Let_def)

lemma named_twice_None: "named_twice xs = None \<longleftrightarrow> distinct xs"
proof -
  have "named_twice xs = None \<longleftrightarrow> (\<forall>i < length xs. xs ! i \<notin> set (take i xs))"
    by (auto simp: named_twice_def find_None_iff')
  also have "\<dots> \<longleftrightarrow> distinct xs"
    by (auto simp: distinct_conv_nth in_set_conv_nth) (metis nat_neq_iff order.strict_trans)+
  finally show ?thesis .
qed

lemma wireless_parse_reads:
  assumes "bt_get m ''ssid'' = Some (JString (wl_ssid w))"
    and "bt_get m ''security'' = Some (JObject (security_to_json (wl_security w)))"
    and "bt_get m ''hidden'' = map_option JBool (wl_hidden w)"
    and "bt_get m ''interface'' = map_option JString (wl_interface w)"
    and "bt_get m ''bands'' = (if wl_bands w = [] then None else Some (JArray (map JString (wl_bands w))))"
    and "security_ok (wl_security w)" and "distinct (wl_bands w)"
  shows "wireless_parse m i = Inr w"
proof -
  have "hidden_member m i = Inr (wl_hidden w)"
    using assms(3) by (cases "wl_hidden w") (simp_all add: hidden_member_def)
  moreover have "security_member m i = Inr (wl_security w)"
    using assms(2) by (simp add: security_member_def security_roundtrip [OF assms(6)])
  moreover have "bt_has m ''bands'' \<longleftrightarrow> wl_bands w \<noteq> []" using assms(5) by (simp add: bt_has_def)
  ultimately show ?thesis
    using named_twice_None [of "wl_bands w"] assms(7)
    by (simp add: wireless_parse_def Let_def reads assms(1)
        optional_string_reads [OF assms(4)] string_array_reads [OF assms(5)])
qed

lemma attachment_roundtrip:
  assumes "kind_ok (at_kind a)"
  shows "\<exists>m. attachment_to_json a = JObject m \<and> attachment_parse m i = Inr a"
proof (cases "at_kind a")
  case (Wireless w)
  define m where "m = wireless_write_into w (put_list ''nameservers'' (at_nameservers a)
    (bt_insert ''verify'' (JBool (at_verify a)) (bt_insert ''enabled'' (JBool (at_enabled a))
      (bt_insert ''label'' (JString (at_label a)) (bt_insert ''kind'' (JString ''wireless'') [])))))"
  have json: "attachment_to_json a = JObject m" by (simp add: attachment_to_json_def Let_def Wireless m_def)
  have "wireless_parse m i = Inr w"
    by (rule wireless_parse_reads)
      (use assms Wireless in \<open>auto simp: m_def wireless_write_into_def kind_ok_def split: option.split\<close>)
  moreover have "bt_get m ''kind'' = Some (JString ''wireless'')" "bt_get m ''label'' = Some (JString (at_label a))"
    "bt_get m ''enabled'' = Some (JBool (at_enabled a))" "bt_get m ''verify'' = Some (JBool (at_verify a))"
    "bt_get m ''nameservers'' = (if at_nameservers a = [] then None else Some (JArray (map JString (at_nameservers a))))"
    by (auto simp: m_def wireless_write_into_def)
  ultimately have "attachment_parse m i = Inr a"
    by (simp add: attachment_parse_def kind_parse_def Let_def reads Wireless [symmetric])
  with json show ?thesis by blast
next
  case (WiredDynamic interface)
  define m where "m = bt_insert ''interface'' (JString interface) (put_list ''nameservers'' (at_nameservers a)
    (bt_insert ''verify'' (JBool (at_verify a)) (bt_insert ''enabled'' (JBool (at_enabled a))
      (bt_insert ''label'' (JString (at_label a)) (bt_insert ''kind'' (JString ''wired-dynamic'') [])))))"
  have json: "attachment_to_json a = JObject m" by (simp add: attachment_to_json_def Let_def WiredDynamic m_def)
  have "bt_get m ''kind'' = Some (JString ''wired-dynamic'')" "bt_get m ''label'' = Some (JString (at_label a))"
    "bt_get m ''enabled'' = Some (JBool (at_enabled a))" "bt_get m ''verify'' = Some (JBool (at_verify a))"
    "bt_get m ''nameservers'' = (if at_nameservers a = [] then None else Some (JArray (map JString (at_nameservers a))))"
    "bt_get m ''interface'' = Some (JString interface)"
    by (auto simp: m_def)
  then have "attachment_parse m i = Inr a"
    by (simp add: attachment_parse_def kind_parse_def Let_def reads WiredDynamic [symmetric])
  with json show ?thesis by blast
next
  case (WiredStatic interface addresses gateway)
  define m where "m = bt_insert ''gateway'' (JString gateway) (bt_insert ''addresses'' (JArray (map JString addresses))
    (bt_insert ''interface'' (JString interface) (put_list ''nameservers'' (at_nameservers a)
    (bt_insert ''verify'' (JBool (at_verify a)) (bt_insert ''enabled'' (JBool (at_enabled a))
      (bt_insert ''label'' (JString (at_label a)) (bt_insert ''kind'' (JString ''wired-static'') [])))))))"
  have json: "attachment_to_json a = JObject m" by (simp add: attachment_to_json_def Let_def WiredStatic m_def)
  have some: "addresses \<noteq> []" using assms WiredStatic by (simp add: kind_ok_def)
  have "bt_get m ''kind'' = Some (JString ''wired-static'')" "bt_get m ''label'' = Some (JString (at_label a))"
    "bt_get m ''enabled'' = Some (JBool (at_enabled a))" "bt_get m ''verify'' = Some (JBool (at_verify a))"
    "bt_get m ''nameservers'' = (if at_nameservers a = [] then None else Some (JArray (map JString (at_nameservers a))))"
    "bt_get m ''interface'' = Some (JString interface)" "bt_get m ''gateway'' = Some (JString gateway)"
    "bt_get m ''addresses'' = (if addresses = [] then None else Some (JArray (map JString addresses)))"
    using some by (auto simp: m_def)
  then have "attachment_parse m i = Inr a"
    using some by (simp add: attachment_parse_def kind_parse_def static_parse_def Let_def reads WiredStatic [symmetric])
  with json show ?thesis by blast
qed

lemma hotspot_roundtrip: "hotspot_parse (hotspot_to_json h) = Inr h"
proof -
  let ?m = "hotspot_to_json h"
  have "bt_get ?m ''enabled'' = Some (JBool (hs_enabled h))" "bt_get ?m ''ssid'' = Some (JString (hs_ssid h))"
    "bt_get ?m ''passphrase'' = Some (JString (hs_passphrase h))"
    "bt_get ?m ''interface'' = map_option JString (hs_interface h)"
    "bt_get ?m ''share-upstream'' = map_option JBool (hs_share_upstream h)"
    "bt_get ?m ''isolate-clients'' = map_option JBool (hs_isolate_clients h)"
    "bt_get ?m ''dhcp-range'' = map_option JString (hs_dhcp_range h)"
    "bt_get ?m ''band'' = map_option JString (hs_band h)"
    "bt_get ?m ''channel'' = map_option json_u32 (hs_channel h)"
    "bt_get ?m ''channel-width'' = map_option json_u32 (hs_channel_width h)"
    by (simp_all add: hotspot_to_json_def Let_def split: option.split)
  then show ?thesis by (simp add: hotspot_parse_def reads)
qed

text \<open>The loop over the candidates, in both directions.\<close>

lemma dynamic_interfaces_simps [simp]:
  "dynamic_interfaces [] = []"
  "dynamic_interfaces (a # as) =
     (case at_kind a of WiredDynamic interface \<Rightarrow> interface # dynamic_interfaces as
      | _ \<Rightarrow> dynamic_interfaces as)"
  by (simp_all add: dynamic_interfaces_def dynamic_interface_def split: attachment_kind.split)

lemma attachments_roundtrip:
  assumes "list_all (\<lambda>a. kind_ok (at_kind a)) as"
    and "distinct (dynamic_interfaces as)"
    and "set dynamic \<inter> set (dynamic_interfaces as) = {}"
  shows "attachments_parse (map attachment_to_json as) i dynamic = Inr as"
  using assms
proof (induction "as" arbitrary: i dynamic)
  case (Cons a "as")
  from Cons.prems(1) attachment_roundtrip [of a i] obtain m where
    m: "attachment_to_json a = JObject m" "attachment_parse m i = Inr a" by auto
  show ?case
  proof (cases "at_kind a")
    case (WiredDynamic interface)
    with Cons.prems have "interface \<notin> set dynamic"
      "set (dynamic @ [interface]) \<inter> set (dynamic_interfaces as) = {}"
      by auto
    with Cons m WiredDynamic show ?thesis by simp
  qed (use Cons m in simp_all)
qed simp

lemma security_parse_ok: "security_parse m i = Inr s \<Longrightarrow> security_ok s"
  by (auto simp: security_parse_def security_ok_def Let_def try_r_eq_Inr bind_eq_Some_conv
      elim: as_str.elims split: if_splits)

lemma security_member_ok: "security_member m i = Inr s \<Longrightarrow> security_ok s"
  by (auto simp: security_member_def dest: security_parse_ok split: option.splits json.splits)

lemma wireless_parse_ok:
  "wireless_parse m i = Inr w \<Longrightarrow> security_ok (wl_security w) \<and> distinct (wl_bands w)"
  by (auto simp: wireless_parse_def Let_def try_r_eq_Inr named_twice_None security_member_ok
      split: option.splits if_splits)

lemma kind_parse_ok: "kind_parse m i = Inr k \<Longrightarrow> kind_ok k"
  by (auto simp: kind_parse_def static_parse_def Let_def kind_ok_def try_r_eq_Inr
      dest: wireless_parse_ok split: if_splits option.splits)

lemma attachment_parse_ok: "attachment_parse m i = Inr a \<Longrightarrow> kind_ok (at_kind a)"
  by (auto simp: attachment_parse_def Let_def try_r_eq_Inr kind_parse_ok)

lemma attachments_parse_ok:
  "attachments_parse items i dynamic = Inr as \<Longrightarrow>
    list_all (\<lambda>a. kind_ok (at_kind a)) as \<and> distinct (dynamic_interfaces as)
    \<and> set dynamic \<inter> set (dynamic_interfaces as) = {}"
proof (induction items i dynamic arbitrary: "as" rule: attachments_parse.induct)
  case (2 item items i dynamic)
  from 2(2) obtain m a dynamic' rest where m: "as_object item = Some m" "attachment_parse m i = Inr a"
    and d: "(case at_kind a of
              WiredDynamic interface \<Rightarrow>
                (if interface \<in> set dynamic
                 then Inl (invalid_at (attachment_at i ''interface'') (AlreadyDynamic interface))
                 else Inr (dynamic @ [interface]))
            | _ \<Rightarrow> Inr dynamic) = Inr dynamic'"
    and rest: "attachments_parse items (i + 1) dynamic' = Inr rest" "as = a # rest"
    by (auto simp: try_r_eq_Inr split: option.splits)
  have IH: "list_all (\<lambda>a. kind_ok (at_kind a)) rest \<and> distinct (dynamic_interfaces rest)
    \<and> set dynamic' \<inter> set (dynamic_interfaces rest) = {}"
    by (rule 2(1) [OF m(1) rest(1)])
  show ?case
  proof (cases "at_kind a")
    case (WiredDynamic interface)
    with d have "interface \<notin> set dynamic" "dynamic' = dynamic @ [interface]" by (auto split: if_splits)
    with IH m rest WiredDynamic attachment_parse_ok [OF m(2)] show ?thesis
      by auto
  qed (use d IH m rest attachment_parse_ok [OF m(2)] in auto)
qed simp

lemma document_parse_ok: "document_parse m = Inr d \<Longrightarrow> document_ok d"
  by (auto simp: document_parse_def document_ok_def try_r_eq_Inr dest: attachments_parse_ok
      split: option.splits json.splits)

lemma document_roundtrip: "document_ok d \<Longrightarrow> document_parse (document_to_json d) = Inr d"
  using attachments_roundtrip [of "dc_attachments d" "[]" 0]
  by (cases "dc_hotspot d"; cases "dc_regulatory_domain d")
    (simp_all add: document_parse_def hotspot_member_def domain_member_def document_to_json_def document_ok_def
      hotspot_roundtrip)

section \<open>Where a fault is\<close>

definition in_candidate :: "nat \<Rightarrow> invalid \<Rightarrow> bool" where
  "in_candidate i e \<longleftrightarrow> (\<exists>rest. iv_at e = path (Name ''attachments'' # Index i # rest))"

lemma in_candidate_at [simp]:
  "in_candidate i (invalid_at (attachment_at i k) r)" "in_candidate i (invalid_at (security_at i k) r)"
  "in_candidate i (invalid_at (path [Name ''attachments'', Index i]) r)"
  by (auto simp: in_candidate_def invalid_at_def attachment_at_def security_at_def)

lemma required_bool_Inl: "required_bool at m k w = Inl e \<Longrightarrow> e = invalid_at at (Words w)"
  by (auto simp: required_bool_def split: option.splits json.splits)

lemma security_parse_Inl: "security_parse m i = Inl e \<Longrightarrow> in_candidate i e"
  by (auto simp: security_parse_def security_passphrase_def Let_def try_r_eq_Inl split: if_splits option.splits)

lemma try_r_InlE:
  assumes "try_r r f = Inl e"
  obtains (stops) "r = Inl e" | (goes_on) x where "r = Inr x" "f x = Inl e"
  using assms by (auto simp: try_r_eq_Inl)

lemma hidden_member_Inl: "hidden_member m i = Inl e \<Longrightarrow> in_candidate i e"
  by (auto simp: hidden_member_def split: option.splits json.splits)

lemma security_member_Inl: "security_member m i = Inl e \<Longrightarrow> in_candidate i e"
  by (auto simp: security_member_def dest: security_parse_Inl split: option.splits json.splits)

lemma wireless_parse_Inl: "wireless_parse m i = Inl e \<Longrightarrow> in_candidate i e"
  unfolding wireless_parse_def Let_def
  by (elim try_r_InlE)
    (auto simp: map_err_eq_Inl dest!: hidden_member_Inl security_member_Inl split: if_splits option.splits)

lemma kind_parse_Inl: "kind_parse m i = Inl e \<Longrightarrow> in_candidate i e"
  by (auto simp: kind_parse_def static_parse_def Let_def try_r_eq_Inl map_err_eq_Inl dest: wireless_parse_Inl
      split: if_splits option.splits)

lemma attachment_parse_Inl: "attachment_parse m i = Inl e \<Longrightarrow> in_candidate i e"
  by (auto simp: attachment_parse_def Let_def try_r_eq_Inl map_err_eq_Inl dest!: kind_parse_Inl required_bool_Inl)

lemma attachments_parse_Inl:
  "attachments_parse items i dynamic = Inl e \<Longrightarrow>
    \<exists>k < length items. in_candidate (i + k) e
      \<and> (\<forall>j < k. \<exists>c a. as_object (items ! j) = Some c \<and> attachment_parse c (i + j) = Inr a)"
proof (induction items i dynamic rule: attachments_parse.induct)
  case (2 item items i dynamic)
  show ?case
  proof (cases "in_candidate i e")
    case True
    then show ?thesis by (intro exI [of _ 0]) simp
  next
    case False
    have "as_object item \<noteq> None" using 2(2) False by (cases "as_object item") auto
    then obtain c where c: "as_object item = Some c" by blast
    have "attachment_parse c i \<noteq> Inl e" using False attachment_parse_Inl by blast
    with 2(2) c obtain a where a: "attachment_parse c i = Inr a"
      by (cases "attachment_parse c i") auto
    with 2(2) c False obtain dynamic' where d: "(case at_kind a of
              WiredDynamic interface \<Rightarrow>
                (if interface \<in> set dynamic
                 then Inl (invalid_at (attachment_at i ''interface'') (AlreadyDynamic interface))
                 else Inr (dynamic @ [interface]))
            | _ \<Rightarrow> Inr dynamic) = Inr dynamic'" and rest: "attachments_parse items (i + 1) dynamic' = Inl e"
      by (auto simp: try_r_eq_Inl split: attachment_kind.splits if_splits)
    from 2(1) [OF c rest] obtain k where k: "k < length items" "in_candidate (i + 1 + k) e"
      "\<forall>j < k. \<exists>c a. as_object (items ! j) = Some c \<and> attachment_parse c (i + 1 + j) = Inr a" by blast
    have "\<exists>c a. as_object ((item # items) ! j) = Some c \<and> attachment_parse c (i + j) = Inr a" if "j < Suc k" for j
      using that k(3) c a by (cases j) auto
    with k show ?thesis by (intro exI [of _ "Suc k"]) auto
  qed
qed simp

lemma hotspot_string_Inl: "hotspot_string m k w = Inl e \<Longrightarrow> e = invalid_at (hotspot_at k) (Words w)"
  by (auto simp: hotspot_string_def split: option.splits json.splits)

lemma hotspot_parse_Inl: "hotspot_parse m = Inl e \<Longrightarrow> \<exists>k. iv_at e = path [Name ''hotspot'', Name k]"
  unfolding hotspot_parse_def
  by (elim try_r_InlE)
    (auto simp: map_err_eq_Inl hotspot_at_def invalid_at_def dest!: required_bool_Inl hotspot_string_Inl)

section \<open>Properties\<close>

text \<open>C35. A document accepted satisfies the rules no device waives: every static candidate has an address,
  no wireless one names a band twice, an enterprise network keeps the kind it came with, and at most
  one dynamic candidate names an interface.  Exactly those documents are what writing and reading
  give back unchanged, so what a device stores it reads again as it was.\<close>

theorem document_reads_back:
  "(document_parse m = Inr d \<longrightarrow> document_ok d)
    \<and> (document_parse (document_to_json d) = Inr d \<longleftrightarrow> document_ok d)"
  using document_parse_ok document_roundtrip by blast

definition example_document :: document where
  "example_document =
     \<lparr>dc_attachments =
        [\<lparr>at_label = ''home'', at_enabled = True, at_verify = False, at_nameservers = [''9.9.9.9''],
          at_kind = Wireless \<lparr>wl_ssid = ''bes'', wl_security = Sae ''secret'', wl_hidden = None,
            wl_interface = None, wl_bands = [''5GHz'']\<rparr>\<rparr>,
         \<lparr>at_label = ''port'', at_enabled = True, at_verify = True, at_nameservers = [],
          at_kind = WiredDynamic ''eth0''\<rparr>],
      dc_hotspot = None, dc_regulatory_domain = Some ''NZ''\<rparr>"

theorem document_reads_back_witness:
  "document_parse (document_to_json example_document) = Inr example_document \<and> document_ok example_document"
proof -
  have "document_ok example_document" by code_simp
  with document_reads_back [of _ example_document] show ?thesis by simp
qed

text \<open>A refusal of a document names a place in it: one of its three members, a member of the hotspot,
  or a place within a candidate the document has, and then every candidate before that one reads
  well by itself.\<close>

lemma invalid_names_a_place:
  assumes "document_parse m = Inl e"
  shows "iv_at e \<in> {path [Name ''attachments''], path [Name ''hotspot''], path [Name ''regulatory-domain'']}
    \<or> (\<exists>k. iv_at e = path [Name ''hotspot'', Name k])
    \<or> (\<exists>items k rest. bt_get m ''attachments'' = Some (JArray items) \<and> k < length items
        \<and> iv_at e = path (Name ''attachments'' # Index k # rest)
        \<and> (\<forall>j < k. \<exists>c a. as_object (items ! j) = Some c \<and> attachment_parse c j = Inr a))"
proof -
  consider (outer) "iv_at e \<in> {path [Name ''attachments''], path [Name ''hotspot''], path [Name ''regulatory-domain'']}"
    | (hotspot) object where "hotspot_parse object = Inl e"
    | (candidate) items where "bt_get m ''attachments'' = Some (JArray items)" "attachments_parse items 0 [] = Inl e"
  proof (cases "bt_get m ''attachments''")
    case None
    with assms have "iv_at e = path [Name ''attachments'']" by (auto simp: document_parse_def invalid_at_def)
    with outer show ?thesis by simp
  next
    case (Some v)
    show ?thesis
    proof (cases v)
      case (JArray items)
      with assms Some have "try_r (attachments_parse items 0 []) (\<lambda>attachments.
          try_r (hotspot_member m) (\<lambda>hotspot. try_r (domain_member m) (\<lambda>domain.
          Inr \<lparr>dc_attachments = attachments, dc_hotspot = hotspot, dc_regulatory_domain = domain\<rparr>))) = Inl e"
        by (simp add: document_parse_def)
      then show ?thesis
      proof (elim try_r_InlE)
        assume "attachments_parse items 0 [] = Inl e"
        with candidate Some JArray show ?thesis by blast
      next
        assume "hotspot_member m = Inl e"
        with outer hotspot show ?thesis
          by (auto simp: hotspot_member_def invalid_at_def try_r_eq_Inl split: option.splits json.splits)
      next
        assume "domain_member m = Inl e"
        with outer show ?thesis
          by (auto simp: domain_member_def invalid_at_def split: option.splits json.splits)
      qed simp
    qed (use assms Some in \<open>auto simp: document_parse_def invalid_at_def intro: outer\<close>)
  qed
  then show ?thesis
  proof cases
    case hotspot
    then show ?thesis using hotspot_parse_Inl by blast
  next
    case candidate
    from attachments_parse_Inl [OF candidate(2)] candidate(1) show ?thesis
      by (auto simp: in_candidate_def)
  qed simp
qed

lemma failure_roundtrip: "failure_read (failure_to_map f) = Inr f"
  by (cases "fl_reached f") (simp_all add: failure_read_def failure_to_map_def failure_string_def Let_def)

end
