(* ===== verification/Selector.thy ===== *)
theory Selector
  imports Config "HOL-Library.Product_Lexorder"
begin

text \<open>
  Candidate selection, \<open>crates/bliti/src/network/select.rs\<close> with \<open>select/check.rs\<close> and
  \<open>select/place.rs\<close>: which of a document's candidates are up, on which interfaces, from what the
  device observes.  The maps of the source are \<open>BTreeMap\<close>s and are kept in key order here too, since
  attempts are numbered in it.  Where the source's words for an operator quote a value, the value
  stands for its quotation.
\<close>

section \<open>Hardware\<close>

datatype alongside = Independent | SharedChannel | OneAtATime

record radio =
  rd_station :: string
  rd_access_point :: "alongside option"

record hardware =
  hw_wired :: "string list"
  hw_radios :: "radio list"

text \<open>A channel of the renderer, \<open>crates/bliti/src/network/render.rs\<close>.\<close>

datatype band = TwoPointFour | Five

record channel =
  ch_band :: band
  ch_number :: u32

section \<open>Stages, attempts and states\<close>

datatype stage = Carrier | Association | Addressing | Gateway

fun stage_rank :: "stage \<Rightarrow> nat" where
  "stage_rank Carrier = 0"
| "stage_rank Association = 1"
| "stage_rank Addressing = 2"
| "stage_rank Gateway = 3"

fun stage_as_str :: "stage \<Rightarrow> string" where
  "stage_as_str Carrier = ''carrier''"
| "stage_as_str Association = ''association''"
| "stage_as_str Addressing = ''addressing''"
| "stage_as_str Gateway = ''gateway''"

definition stage_failed :: "stage \<Rightarrow> string \<Rightarrow> string \<Rightarrow> failure" where
  "stage_failed st at reason = \<lparr>fl_at = at, fl_reason = reason, fl_reached = Some (stage_as_str st)\<rparr>"

text \<open>\<open>derive(PartialOrd, Ord)\<close>: the stages in the order they are passed.\<close>

instantiation stage :: linorder
begin

definition less_eq_stage :: "stage \<Rightarrow> stage \<Rightarrow> bool" where
  "less_eq_stage a b \<longleftrightarrow> stage_rank a \<le> stage_rank b"

definition less_stage :: "stage \<Rightarrow> stage \<Rightarrow> bool" where
  "less_stage a b \<longleftrightarrow> stage_rank a < stage_rank b"

instance
proof
  fix a b :: stage
  show "a \<le> b \<Longrightarrow> b \<le> a \<Longrightarrow> a = b"
    by (cases a; cases b) (simp_all add: less_eq_stage_def)
qed (auto simp: less_eq_stage_def less_stage_def)

end

fun stage_next :: "stage \<Rightarrow> bool \<Rightarrow> stage option" where
  "stage_next Carrier wireless = Some (if wireless then Association else Addressing)"
| "stage_next Association wireless = Some Addressing"
| "stage_next Addressing wireless = Some Gateway"
| "stage_next Gateway wireless = None"

type_synonym attempt = u64

record link =
  lk_candidate :: nat
  lk_attempt :: attempt

text \<open>Why a candidate is not available, in the source's words or those of the caller.\<close>

datatype state_reason =
    NoCarrier string
  | OutOfRange string "string option"
  | Reported string

datatype cand_state =
    DefaultRoute
  | Up
  | VerifyingAt stage
  | Standby
  | Off
  | Unavailable stage "segment list" state_reason

datatype hotspot_channel = Own | Follows nat "channel option"

record placement =
  pl_radio :: string
  pl_channel :: hotspot_channel

record decision =
  de_links :: "(string, link) bt"
  de_hotspot :: "placement option"
  de_default_route :: "nat option"
  de_states :: "cand_state list"

datatype change =
    LinkChange string "link option"
  | HotspotChange "placement option"
  | DefaultRouteChange "nat option"
  | StateChange nat cand_state

datatype sel_event =
    CarrierEvent string bool
  | InRangeEvent string string int
  | OutOfRangeEvent string string
  | PassedEvent attempt stage
  | FailedEvent attempt stage "segment list" string
  | StationChannelEvent string "channel option"
  | RetryEvent nat

record held =
  hd_link :: link
  hd_at :: "stage option"

record selector =
  se_hardware :: hardware
  se_document :: document
  se_carrier :: "(string, unit) bt"
  se_heard :: "(string \<times> string, int) bt"
  se_channels :: "(string, channel) bt"
  se_failures :: "(nat, stage \<times> segment list \<times> string) bt"
  se_held :: "(string, held) bt"
  se_next_attempt :: u64
  se_decision :: decision

section \<open>Radios\<close>

definition find_radio :: "hardware \<Rightarrow> string \<Rightarrow> radio option" where
  "find_radio hw station = List.find (\<lambda>r. rd_station r = station) (hw_radios hw)"

definition none_or :: "string option \<Rightarrow> string \<Rightarrow> bool" where
  "none_or interface name \<longleftrightarrow> interface = None \<or> interface = Some name"

definition radios_for :: "hardware \<Rightarrow> string option \<Rightarrow> radio list" where
  "radios_for hw interface = filter (\<lambda>r. none_or interface (rd_station r)) (hw_radios hw)"

definition hotspot_radios :: "hardware \<Rightarrow> hotspot \<Rightarrow> radio list" where
  "hotspot_radios hw h = filter (\<lambda>r. rd_access_point r \<noteq> None) (radios_for hw (hs_interface h))"

definition wants_station :: "attachment \<Rightarrow> string \<Rightarrow> bool" where
  "wants_station a station =
     (case at_kind a of Wireless w \<Rightarrow> at_enabled a \<and> none_or (wl_interface w) station | _ \<Rightarrow> False)"

definition hotspot_hosts :: "hardware \<Rightarrow> document \<Rightarrow> hotspot \<Rightarrow> radio list" where
  "hotspot_hosts hw d h =
     (let chooses = hs_band h \<noteq> None \<or> hs_channel h \<noteq> None \<or> hs_channel_width h \<noteq> None in
      filter (\<lambda>r. \<not> chooses \<or> rd_access_point r \<noteq> Some SharedChannel
          \<or> \<not> list_ex (\<lambda>a. wants_station a (rd_station r)) (dc_attachments d))
        (hotspot_radios hw h))"

fun is_wireless :: "attachment_kind \<Rightarrow> bool" where
  "is_wireless (Wireless _) = True"
| "is_wireless _ = False"

section \<open>What the hardware rules out\<close>

datatype check_reason =
    NotWired string
  | NoWireless
  | NotARadio string
  | CannotRunHotspot string
  | NoHotspot

definition candidate_check :: "hardware \<Rightarrow> nat \<Rightarrow> attachment \<Rightarrow> (string \<times> check_reason) option" where
  "candidate_check hw rank a =
     (let at = (\<lambda>member. path [Name ''attachments'', Index rank, Name member]);
          wired = (\<lambda>interface. if interface \<in> set (hw_wired hw) then None
            else Some (at ''interface'', NotWired interface))
      in case at_kind a of
           WiredDynamic interface \<Rightarrow> wired interface
         | WiredStatic interface _ _ \<Rightarrow> wired interface
         | Wireless w \<Rightarrow>
             (if hw_radios hw = [] then Some (at ''kind'', NoWireless)
              else case wl_interface w of
                Some interface \<Rightarrow>
                  if find_radio hw interface = None then Some (at ''interface'', NotARadio interface) else None
              | None \<Rightarrow> None))"

definition hotspot_check :: "hardware \<Rightarrow> hotspot \<Rightarrow> (string \<times> check_reason) option" where
  "hotspot_check hw h =
     (let at = path (case hs_interface h of Some _ \<Rightarrow> [Name ''hotspot'', Name ''interface''] | None \<Rightarrow> [Name ''hotspot'']);
          none = (if hotspot_radios hw h = [] then Some (at, NoHotspot) else None)
      in case hs_interface h of
           None \<Rightarrow> none
         | Some interface \<Rightarrow>
             (case find_radio hw interface of
                None \<Rightarrow> Some (at, NotARadio interface)
              | Some r \<Rightarrow> if rd_access_point r = None then Some (at, CannotRunHotspot interface) else none))"

text \<open>The first fault, or none.\<close>

definition sel_check :: "document \<Rightarrow> hardware \<Rightarrow> (string \<times> check_reason) option" where
  "sel_check d hw =
     (case List.find (\<lambda>i. candidate_check hw i (dc_attachments d ! i) \<noteq> None) [0..<length (dc_attachments d)] of
        Some i \<Rightarrow> candidate_check hw i (dc_attachments d ! i)
      | None \<Rightarrow> (case dc_hotspot d of None \<Rightarrow> None | Some h \<Rightarrow> hotspot_check hw h))"

section \<open>Placing candidates\<close>

text \<open>Why the candidate at \<open>rank\<close> is not to be tried, where it failed.\<close>

definition failed_state :: "selector \<Rightarrow> nat \<Rightarrow> cand_state option" where
  "failed_state s rank =
     map_option (\<lambda>(reached, member, reason). Unavailable reached member (Reported reason))
       (bt_get (se_failures s) rank)"

definition place_wired :: "selector \<Rightarrow> nat \<Rightarrow> string \<Rightarrow> (string, nat) bt \<Rightarrow> cand_state + string" where
  "place_wired s rank interface links =
     (if \<not> bt_has (se_carrier s) interface then Inl (Unavailable Carrier [] (NoCarrier interface))
      else case failed_state s rank of
        Some state \<Rightarrow> Inl state
      | None \<Rightarrow> if bt_has links interface then Inl Standby else Inr interface)"

text \<open>Whether a wireless candidate taking \<open>r\<close> leaves the hotspot a radio to run on.\<close>

definition spares_hotspot :: "selector \<Rightarrow> radio \<Rightarrow> (string, nat) bt \<Rightarrow> bool" where
  "spares_hotspot s r links =
     (case enabled_hotspot (se_document s) of
        None \<Rightarrow> True
      | Some h \<Rightarrow>
          rd_access_point r \<noteq> Some OneAtATime \<or>
          list_ex (\<lambda>other. rd_station other \<noteq> rd_station r
              \<and> \<not> (rd_access_point other = Some OneAtATime \<and> bt_has links (rd_station other)))
            (hotspot_hosts (se_hardware s) (se_document s) h))"

text \<open>The radios that hear a network, each with the signal, which a hidden network has none of.\<close>

definition radios_hearing :: "selector \<Rightarrow> wireless \<Rightarrow> (radio \<times> int option) list" where
  "radios_hearing s w =
     List.map_filter (\<lambda>r.
       case bt_get (se_heard s) (rd_station r, wl_ssid w) of
         Some signal \<Rightarrow> Some (r, Some signal)
       | None \<Rightarrow> if wl_hidden w = Some True then Some (r, None) else None)
       (radios_for (se_hardware s) (wl_interface w))"

text \<open>The order of \<open>Reverse(Option<i32>)\<close>: a stronger signal first and none last.\<close>

fun heard_before :: "int option \<Rightarrow> int option \<Rightarrow> bool" where
  "heard_before (Some a) (Some b) = (a > b)"
| "heard_before (Some a) None = True"
| "heard_before None _ = False"

text \<open>\<open>min_by_key\<close>: the first of the least.\<close>

fun best_heard :: "(radio \<times> int option) list \<Rightarrow> (radio \<times> int option) option" where
  "best_heard [] = None"
| "best_heard (x # xs) =
     (case best_heard xs of
        None \<Rightarrow> Some x
      | Some y \<Rightarrow> if heard_before (snd y) (snd x) then Some y else Some x)"

definition held_on :: "selector \<Rightarrow> nat \<Rightarrow> string option" where
  "held_on s rank = map_option fst (List.find (\<lambda>(_, h). lk_candidate (hd_link h) = rank) (se_held s))"

definition radios_free :: "selector \<Rightarrow> wireless \<Rightarrow> (string, nat) bt \<Rightarrow> (radio \<times> int option) list" where
  "radios_free s w links =
     filter (\<lambda>(r, _). \<not> bt_has links (rd_station r) \<and> spares_hotspot s r links) (radios_hearing s w)"

definition place_wireless :: "selector \<Rightarrow> nat \<Rightarrow> wireless \<Rightarrow> (string, nat) bt \<Rightarrow> cand_state + string" where
  "place_wireless s rank w links =
     (if radios_hearing s w = [] then Inl (Unavailable Carrier [] (OutOfRange (wl_ssid w) (wl_interface w)))
      else case failed_state s rank of
        Some state \<Rightarrow> Inl state
      | None \<Rightarrow>
          (let free = radios_free s w links;
               best = (case best_heard free of Some (r, _) \<Rightarrow> Inr (rd_station r) | None \<Rightarrow> Inl Standby)
           in case held_on s rank of
                Some current \<Rightarrow> if list_ex (\<lambda>(r, _). rd_station r = current) free then Inr current else best
              | None \<Rightarrow> best))"

definition place_one :: "selector \<Rightarrow> nat \<Rightarrow> attachment \<Rightarrow> (string, nat) bt \<Rightarrow> cand_state + string" where
  "place_one s rank a links =
     (if \<not> at_enabled a then Inl Off
      else case at_kind a of
        WiredDynamic interface \<Rightarrow> place_wired s rank interface links
      | WiredStatic interface _ _ \<Rightarrow> place_wired s rank interface links
      | Wireless w \<Rightarrow> place_wireless s rank w links)"

record placed =
  pd_links :: "(string, nat) bt"
  pd_idle :: "(nat, cand_state) bt"

definition place_step :: "selector \<Rightarrow> nat \<Rightarrow> placed \<Rightarrow> placed" where
  "place_step s rank p =
     (case place_one s rank (dc_attachments (se_document s) ! rank) (pd_links p) of
        Inr interface \<Rightarrow> p\<lparr>pd_links := bt_insert interface rank (pd_links p)\<rparr>
      | Inl state \<Rightarrow> p\<lparr>pd_idle := bt_insert rank state (pd_idle p)\<rparr>)"

definition place :: "selector \<Rightarrow> placed" where
  "place s = fold (place_step s) [0..<length (dc_attachments (se_document s))] \<lparr>pd_links = [], pd_idle = []\<rparr>"

section \<open>Placing the hotspot\<close>

text \<open>The channel the wireless client on a radio is associated on, once it is.\<close>

definition associated :: "selector \<Rightarrow> string \<Rightarrow> channel option" where
  "associated s station =
     (case bt_get (se_held s) station of
        None \<Rightarrow> None
      | Some h \<Rightarrow>
          (case hd_at h of
             Some at \<Rightarrow> if at \<le> Association then None else bt_get (se_channels s) station
           | None \<Rightarrow> bt_get (se_channels s) station))"

definition hotspot_tier :: "selector \<Rightarrow> radio \<Rightarrow> nat option" where
  "hotspot_tier s r =
     (case rd_access_point r of
        None \<Rightarrow> None
      | Some beside \<Rightarrow>
          (if \<not> bt_has (se_held s) (rd_station r) then Some 0
           else case beside of Independent \<Rightarrow> Some 1 | SharedChannel \<Rightarrow> Some 2 | OneAtATime \<Rightarrow> None))"

definition hotspot_options :: "selector \<Rightarrow> hotspot \<Rightarrow> (radio \<times> nat) list" where
  "hotspot_options s h =
     List.map_filter (\<lambda>r. map_option (\<lambda>tier. (r, tier)) (hotspot_tier s r))
       (hotspot_hosts (se_hardware s) (se_document s) h)"

definition hotspot_channel_on :: "selector \<Rightarrow> radio \<Rightarrow> hotspot_channel" where
  "hotspot_channel_on s r =
     (case bt_get (se_held s) (rd_station r) of
        Some h \<Rightarrow>
          (if rd_access_point r = Some SharedChannel
           then Follows (lk_candidate (hd_link h)) (associated s (rd_station r)) else Own)
      | None \<Rightarrow> Own)"

definition best_hosts :: "selector \<Rightarrow> hotspot \<Rightarrow> radio list" where
  "best_hosts s h =
     (let options = hotspot_options s h in
      map fst (filter (\<lambda>(_, tier). tier = Min (set (map snd options))) options))"

definition place_hotspot :: "selector \<Rightarrow> placement option" where
  "place_hotspot s =
     (case enabled_hotspot (se_document s) of
        None \<Rightarrow> None
      | Some h \<Rightarrow>
          (case best_hosts s h of
             [] \<Rightarrow> None
           | first # rest \<Rightarrow>
               (let current = map_option pl_radio (de_hotspot (se_decision s));
                    r = (case List.find (\<lambda>r. Some (rd_station r) = current) (first # rest) of
                           Some r \<Rightarrow> r | None \<Rightarrow> first)
                in Some \<lparr>pl_radio = rd_station r, pl_channel = hotspot_channel_on s r\<rparr>)))"

section \<open>Settling\<close>

definition decision_default :: decision where
  "decision_default = \<lparr>de_links = [], de_hotspot = None, de_default_route = None, de_states = []\<rparr>"

text \<open>Keep the attempt an interface holds where its candidate is the same, else number a new one.\<close>

definition settle_link :: "selector \<Rightarrow> string \<times> nat \<Rightarrow> (string, held) bt \<times> u64 \<Rightarrow> (string, held) bt \<times> u64" where
  "settle_link s = (\<lambda>(interface, candidate) (held, next).
     (case bt_get (se_held s) interface of
        Some old \<Rightarrow>
          (if lk_candidate (hd_link old) = candidate then (bt_insert interface old held, next)
           else (bt_insert interface \<lparr>hd_link = \<lparr>lk_candidate = candidate, lk_attempt = next + 1\<rparr>,
               hd_at = stage_next Carrier (is_wireless (at_kind (dc_attachments (se_document s) ! candidate)))\<rparr> held,
             next + 1))
      | None \<Rightarrow>
          (bt_insert interface \<lparr>hd_link = \<lparr>lk_candidate = candidate, lk_attempt = next + 1\<rparr>,
             hd_at = stage_next Carrier (is_wireless (at_kind (dc_attachments (se_document s) ! candidate)))\<rparr> held,
           next + 1)))"

definition settle_held :: "selector \<Rightarrow> (string, held) bt \<times> u64" where
  "settle_held s = fold (settle_link s) (pd_links (place s)) ([], se_next_attempt s)"

definition default_route :: "(string, held) bt \<Rightarrow> nat option" where
  "default_route held =
     (let up = map (\<lambda>h. lk_candidate (hd_link h)) (filter (\<lambda>h. hd_at h = None) (bt_values held))
      in if up = [] then None else Some (Min (set up)))"

definition held_state :: "nat option \<Rightarrow> held \<Rightarrow> cand_state" where
  "held_state route h =
     (case hd_at h of
        Some at \<Rightarrow> VerifyingAt at
      | None \<Rightarrow> if Some (lk_candidate (hd_link h)) = route then DefaultRoute else Up)"

definition settle_states :: "(nat, cand_state) bt \<Rightarrow> (string, held) bt \<Rightarrow> (nat, cand_state) bt" where
  "settle_states idle held =
     fold (\<lambda>h states. bt_insert (lk_candidate (hd_link h)) (held_state (default_route held) h) states)
       (bt_values held) idle"

definition diff_links :: "(string, link) bt \<Rightarrow> (string, link) bt \<Rightarrow> change list" where
  "diff_links old new =
     (let interfaces = bt_keys (bt_collect (map (\<lambda>k. (k, ())) (bt_keys old @ bt_keys new))) in
      map (\<lambda>k. LinkChange k (bt_get new k)) (filter (\<lambda>k. bt_get old k \<noteq> bt_get new k) interfaces))"

definition nth_opt :: "'a list \<Rightarrow> nat \<Rightarrow> 'a option" where
  "nth_opt xs i = (if i < length xs then Some (xs ! i) else None)"

definition diff :: "decision \<Rightarrow> decision \<Rightarrow> change list" where
  "diff old new =
     diff_links (de_links old) (de_links new)
     @ (if de_hotspot old \<noteq> de_hotspot new then [HotspotChange (de_hotspot new)] else [])
     @ (if de_default_route old \<noteq> de_default_route new then [DefaultRouteChange (de_default_route new)] else [])
     @ map (\<lambda>(i, st). StateChange i st)
         (filter (\<lambda>(i, st). nth_opt (de_states old) i \<noteq> Some st) (enumerate 0 (de_states new)))"

definition settle :: "selector \<Rightarrow> change list \<times> selector" where
  "settle s =
     (let placed = place s;
          (held, next) = settle_held s;
          channels = bt_retain (\<lambda>r _. case bt_get (se_held s) r of
              None \<Rightarrow> False | Some old \<Rightarrow> bt_get held r = Some old) (se_channels s);
          s' = s\<lparr>se_channels := channels, se_held := held, se_next_attempt := next\<rparr>;
          decision = \<lparr>de_links = map (\<lambda>(i, h). (i, hd_link h)) held, de_hotspot = place_hotspot s',
            de_default_route = default_route held, de_states = bt_values (settle_states (pd_idle placed) held)\<rparr>
      in (diff (se_decision s) decision, s'\<lparr>se_decision := decision\<rparr>))"

section \<open>The selector's operations\<close>

definition selector_blank :: "hardware \<Rightarrow> document \<Rightarrow> selector" where
  "selector_blank hw d =
     \<lparr>se_hardware = hw, se_document = d, se_carrier = [], se_heard = [], se_channels = [], se_failures = [],
      se_held = [], se_next_attempt = 0, se_decision = decision_default\<rparr>"

definition selector_new :: "hardware \<Rightarrow> document \<Rightarrow> (string \<times> check_reason) + selector" where
  "selector_new hw d =
     (case sel_check d hw of
        Some e \<Rightarrow> Inl e
      | None \<Rightarrow> Inr (snd (settle (selector_blank hw d))))"

text \<open>Where each old candidate is among the new ones, each taken once, in order.\<close>

fun moved_to :: "attachment list \<Rightarrow> attachment list \<Rightarrow> nat list \<Rightarrow> nat option list" where
  "moved_to [] new taken = []"
| "moved_to (old # olds) new taken =
     (case List.find (\<lambda>i. i \<notin> set taken \<and> new ! i = old) [0..<length new] of
        Some i \<Rightarrow> Some i # moved_to olds new (i # taken)
      | None \<Rightarrow> None # moved_to olds new taken)"

definition move_held :: "(nat \<Rightarrow> nat option) \<Rightarrow> (string, held) bt \<Rightarrow> (string, held) bt" where
  "move_held mv held =
     List.map_filter (\<lambda>(interface, h).
       map_option (\<lambda>i. (interface, h\<lparr>hd_link := (hd_link h)\<lparr>lk_candidate := i\<rparr>\<rparr>)) (mv (lk_candidate (hd_link h)))) held"

definition move_failures :: "(nat \<Rightarrow> nat option) \<Rightarrow> (nat, 'f) bt \<Rightarrow> (nat, 'f) bt" where
  "move_failures mv fs = bt_collect (List.map_filter (\<lambda>(old, f). map_option (\<lambda>i. (i, f)) (mv old)) fs)"

definition configure :: "document \<Rightarrow> selector \<Rightarrow> (string \<times> check_reason) + change list \<times> selector" where
  "configure d s =
     (case sel_check d (se_hardware s) of
        Some e \<Rightarrow> Inl e
      | None \<Rightarrow>
          (if d = se_document s then Inr ([], s)
           else let moved = moved_to (dc_attachments (se_document s)) (dc_attachments d) [];
                    mv = (\<lambda>old. Option.bind (nth_opt moved old) (\<lambda>x. x))
                in Inr (settle (s\<lparr>se_held := move_held mv (se_held s),
                     se_failures := move_failures mv (se_failures s), se_document := d,
                     se_decision := (se_decision s)\<lparr>de_states := []\<rparr>\<rparr>))))"

definition forget_failures :: "(attachment \<Rightarrow> bool) \<Rightarrow> selector \<Rightarrow> selector" where
  "forget_failures P s =
     (let ranks = filter (\<lambda>i. P (dc_attachments (se_document s) ! i)) [0..<length (dc_attachments (se_document s))]
      in s\<lparr>se_failures := fold bt_remove ranks (se_failures s)\<rparr>)"

definition wired_on :: "string \<Rightarrow> attachment \<Rightarrow> bool" where
  "wired_on interface a =
     (case at_kind a of
        WiredDynamic on \<Rightarrow> on = interface
      | WiredStatic on _ _ \<Rightarrow> on = interface
      | Wireless _ \<Rightarrow> False)"

definition on_carrier :: "string \<Rightarrow> bool \<Rightarrow> selector \<Rightarrow> selector" where
  "on_carrier interface up s =
     (if interface \<notin> set (hw_wired (se_hardware s)) then s
      else if \<not> up then s\<lparr>se_carrier := bt_remove interface (se_carrier s)\<rparr>
      else let had = bt_has (se_carrier s) interface;
               s = s\<lparr>se_carrier := bt_insert interface () (se_carrier s)\<rparr>
           in if had then s else forget_failures (wired_on interface) s)"

definition in_range :: "string \<Rightarrow> string \<Rightarrow> int \<Rightarrow> selector \<Rightarrow> selector" where
  "in_range interface ssid signal s =
     (if find_radio (se_hardware s) interface = None then s
      else let had = bt_has (se_heard s) (interface, ssid);
               s = s\<lparr>se_heard := bt_insert (interface, ssid) signal (se_heard s)\<rparr>
           in if had then s
              else forget_failures (\<lambda>a. case at_kind a of
                  Wireless w \<Rightarrow> wl_ssid w = ssid \<and> none_or (wl_interface w) interface
                | _ \<Rightarrow> False) s)"

definition find_attempt :: "attempt \<Rightarrow> (string, held) bt \<Rightarrow> (string \<times> held) option" where
  "find_attempt attempt held = List.find (\<lambda>(_, h). lk_attempt (hd_link h) = attempt) held"

definition on_passed :: "attempt \<Rightarrow> stage \<Rightarrow> selector \<Rightarrow> selector" where
  "on_passed attempt st s =
     (case find_attempt attempt (se_held s) of
        None \<Rightarrow> s
      | Some (interface, h) \<Rightarrow>
          (if hd_at h = Some st
           then s\<lparr>se_held := bt_insert interface (h\<lparr>hd_at := stage_next st
               (is_wireless (at_kind (dc_attachments (se_document s) ! lk_candidate (hd_link h))))\<rparr>) (se_held s)\<rparr>
           else s))"

definition on_failed :: "attempt \<Rightarrow> stage \<Rightarrow> segment list \<Rightarrow> string \<Rightarrow> selector \<Rightarrow> selector" where
  "on_failed attempt st member reason s =
     (case find_attempt attempt (se_held s) of
        None \<Rightarrow> s
      | Some (_, h) \<Rightarrow> s\<lparr>se_failures := bt_insert (lk_candidate (hd_link h)) (st, member, reason) (se_failures s)\<rparr>)"

definition on_station_channel :: "string \<Rightarrow> channel option \<Rightarrow> selector \<Rightarrow> selector" where
  "on_station_channel interface channel s =
     (if find_radio (se_hardware s) interface = None then s
      else s\<lparr>se_channels := (case channel of
          Some c \<Rightarrow> bt_insert interface c (se_channels s)
        | None \<Rightarrow> bt_remove interface (se_channels s))\<rparr>)"

fun observe :: "sel_event \<Rightarrow> selector \<Rightarrow> selector" where
  "observe (CarrierEvent interface up) s = on_carrier interface up s"
| "observe (InRangeEvent interface ssid signal) s = in_range interface ssid signal s"
| "observe (OutOfRangeEvent interface ssid) s = s\<lparr>se_heard := bt_remove (interface, ssid) (se_heard s)\<rparr>"
| "observe (PassedEvent attempt st) s = on_passed attempt st s"
| "observe (FailedEvent attempt st member reason) s = on_failed attempt st member reason s"
| "observe (StationChannelEvent interface channel) s = on_station_channel interface channel s"
| "observe (RetryEvent candidate) s = s\<lparr>se_failures := bt_remove candidate (se_failures s)\<rparr>"

definition sel_handle :: "sel_event \<Rightarrow> selector \<Rightarrow> change list \<times> selector" where
  "sel_handle e s = settle (observe e s)"

record selection =
  sl_links :: "(string, nat) bt"
  sl_hotspot :: "string option"
  sl_channels :: "(string, channel) bt"

definition selection_of :: "selector \<Rightarrow> selection" where
  "selection_of s =
     \<lparr>sl_links = map (\<lambda>(i, l). (i, lk_candidate l)) (de_links (se_decision s)),
      sl_hotspot = (case de_hotspot (se_decision s) of
          None \<Rightarrow> None
        | Some p \<Rightarrow> (case pl_channel p of Follows _ None \<Rightarrow> None | _ \<Rightarrow> Some (pl_radio p))),
      sl_channels = bt_collect (List.map_filter
          (\<lambda>r. map_option (\<lambda>c. (rd_station r, c)) (associated s (rd_station r))) (hw_radios (se_hardware s)))\<rparr>"

text \<open>What happens to a selector: an observation, or another document.\<close>

datatype sel_step = Observes sel_event | Configures document

fun sel_run :: "selector \<Rightarrow> sel_step \<Rightarrow> selector" where
  "sel_run s (Observes e) = snd (sel_handle e s)"
| "sel_run s (Configures d) = (case configure d s of Inl _ \<Rightarrow> s | Inr (_, s') \<Rightarrow> s')"

end
