(* ===== verification/Placement.thy ===== *)
theory Placement
  imports Selector
begin

text \<open>
  What placing candidates comes to: each interface carries the highest candidate available on it, no
  candidate goes on two, and the hotspot always keeps a radio to run on.
\<close>

section \<open>The ranks, one after another\<close>

abbreviation cands :: "selector \<Rightarrow> attachment list" where
  "cands s \<equiv> dc_attachments (se_document s)"

definition place_upto :: "selector \<Rightarrow> nat \<Rightarrow> placed" where
  "place_upto s k = fold (place_step s) [0..<k] \<lparr>pd_links = [], pd_idle = []\<rparr>"

abbreviation links_upto :: "selector \<Rightarrow> nat \<Rightarrow> (string, nat) bt" where
  "links_upto s k \<equiv> pd_links (place_upto s k)"

lemma place_upto_0 [simp]: "place_upto s 0 = \<lparr>pd_links = [], pd_idle = []\<rparr>"
  by (simp add: place_upto_def)

lemma place_upto_Suc: "place_upto s (Suc k) = place_step s k (place_upto s k)"
  by (simp add: place_upto_def)

lemma place_eq: "place s = place_upto s (length (cands s))"
  by (simp add: place_def place_upto_def)

lemma links_Suc:
  "links_upto s (Suc k) =
     (case place_one s k (cands s ! k) (links_upto s k) of
        Inr interface \<Rightarrow> bt_insert interface k (links_upto s k)
      | Inl _ \<Rightarrow> links_upto s k)"
  by (simp add: place_upto_Suc place_step_def split: sum.split)

lemma idle_Suc:
  "pd_idle (place_upto s (Suc k)) =
     (case place_one s k (cands s ! k) (links_upto s k) of
        Inr _ \<Rightarrow> pd_idle (place_upto s k)
      | Inl state \<Rightarrow> bt_insert k state (pd_idle (place_upto s k)))"
  by (simp add: place_upto_Suc place_step_def split: sum.split)

lemma best_heard_in: "best_heard xs = Some x \<Longrightarrow> x \<in> set xs"
  by (induction xs arbitrary: x) (auto split: option.splits if_splits)

lemma best_heard_None [simp]: "best_heard xs = None \<longleftrightarrow> xs = []"
  by (cases xs) (auto split: option.splits)

text \<open>What it takes to be placed.\<close>

definition available_on :: "selector \<Rightarrow> attachment \<Rightarrow> string \<Rightarrow> bool" where
  "available_on s a interface \<longleftrightarrow>
     (case at_kind a of
        Wireless w \<Rightarrow> interface \<in> (\<lambda>(r, _). rd_station r) ` set (radios_hearing s w)
      | WiredDynamic on \<Rightarrow> on = interface \<and> bt_has (se_carrier s) interface
      | WiredStatic on _ _ \<Rightarrow> on = interface \<and> bt_has (se_carrier s) interface)"

lemma place_wired_Inr:
  "place_wired s r on links = Inr i \<longleftrightarrow>
     on = i \<and> bt_has (se_carrier s) i \<and> bt_get (se_failures s) r = None \<and> \<not> bt_has links i"
  by (auto simp: place_wired_def failed_state_def split: option.splits)

lemma place_wireless_Inr:
  assumes "place_wireless s r w links = Inr i"
  shows "bt_get (se_failures s) r = None \<and> (\<exists>(rd, sig) \<in> set (radios_free s w links). rd_station rd = i)"
proof -
  from assms have ok: "bt_get (se_failures s) r = None" "radios_hearing s w \<noteq> []"
    by (auto simp: place_wireless_def failed_state_def split: if_splits option.splits)
  show ?thesis
  proof (cases "\<exists>c. held_on s r = Some c \<and> list_ex (\<lambda>(rd, _). rd_station rd = c) (radios_free s w links)")
    case True
    then obtain c where c: "held_on s r = Some c" "list_ex (\<lambda>(rd, _). rd_station rd = c) (radios_free s w links)"
      by blast
    with assms ok have "i = c" by (simp add: place_wireless_def failed_state_def)
    with c(2) ok(1) show ?thesis unfolding list_ex_iff by blast
  next
    case False
    with assms ok obtain rd sig where "best_heard (radios_free s w links) = Some (rd, sig)" "rd_station rd = i"
      by (auto simp: place_wireless_def failed_state_def Let_def split: option.splits if_splits)
    with ok show ?thesis by (auto dest: best_heard_in)
  qed
qed

lemma place_wireless_Standby:
  assumes "place_wireless s r w links = Inl st" and "bt_get (se_failures s) r = None" and "radios_hearing s w \<noteq> []"
  shows "radios_free s w links = []"
  using assms
  by (auto simp: place_wireless_def failed_state_def Let_def split: option.splits if_splits)

lemma radios_free_iff:
  "(rd, sig) \<in> set (radios_free s w links) \<longleftrightarrow>
     (rd, sig) \<in> set (radios_hearing s w) \<and> \<not> bt_has links (rd_station rd) \<and> spares_hotspot s rd links"
  by (auto simp: radios_free_def)

lemma place_one_Inr:
  assumes "place_one s r a links = Inr i"
  shows "at_enabled a \<and> bt_get (se_failures s) r = None \<and> available_on s a i \<and> \<not> bt_has links i"
proof (cases "at_kind a")
  case (Wireless w)
  with assms have on: "at_enabled a" "place_wireless s r w links = Inr i"
    by (auto simp: place_one_def split: if_splits)
  from place_wireless_Inr [OF on(2)] obtain rd sig where "bt_get (se_failures s) r = None"
    "(rd, sig) \<in> set (radios_free s w links)" "rd_station rd = i" by blast
  with on Wireless show ?thesis by (force simp: available_on_def radios_free_iff)
qed (use assms in \<open>auto simp: place_one_def place_wired_Inr available_on_def split: if_splits\<close>)

text \<open>An interface once taken stays taken, and what a rank was placed on is what is linked in the end.\<close>

lemma links_mono_Suc: "bt_get (links_upto s k) i = Some r \<Longrightarrow> bt_get (links_upto s (Suc k)) i = Some r"
  using place_one_Inr [of s k "cands s ! k" "links_upto s k"]
  by (auto simp: links_Suc bt_has_def split: sum.split)

lemma links_mono: "bt_get (links_upto s k) i = Some r \<Longrightarrow> k \<le> k' \<Longrightarrow> bt_get (links_upto s k') i = Some r"
  by (induction k' rule: nat_induct) (auto simp: le_Suc_eq links_mono_Suc)

lemma links_rank: "bt_get (links_upto s k) i = Some r \<Longrightarrow> r < k \<and> place_one s r (cands s ! r) (links_upto s r) = Inr i"
proof (induction k)
  case (Suc k)
  then show ?case
    by (auto simp: links_Suc less_Suc_eq split: sum.splits if_splits)
qed simp

lemma links_iff:
  "bt_get (links_upto s k) i = Some r \<longleftrightarrow> r < k \<and> place_one s r (cands s ! r) (links_upto s r) = Inr i"
proof
  assume r: "r < k \<and> place_one s r (cands s ! r) (links_upto s r) = Inr i"
  then have "bt_get (links_upto s (Suc r)) i = Some r" by (simp add: links_Suc)
  with r show "bt_get (links_upto s k) i = Some r" by (auto intro: links_mono)
qed (rule links_rank)

lemma idle_iff:
  "bt_get (pd_idle (place_upto s k)) r = Some st \<longleftrightarrow> r < k \<and> place_one s r (cands s ! r) (links_upto s r) = Inl st"
  by (induction k) (auto simp: idle_Suc less_Suc_eq split: sum.splits)

lemma links_ok: "bt_ok (links_upto s k)" and idle_ok: "bt_ok (pd_idle (place_upto s k))"
  by (induction k) (auto simp: links_Suc idle_Suc split: sum.split)

lemma links_inj: "bt_get (links_upto s k) i = Some r \<Longrightarrow> bt_get (links_upto s k) j = Some r \<Longrightarrow> i = j"
  by (simp add: links_iff)

section \<open>The highest available candidate\<close>

text \<open>Why a wireless candidate is kept off a radio: it would take the hotspot's last one.\<close>

definition last_for_hotspot :: "selector \<Rightarrow> string \<Rightarrow> (string \<Rightarrow> nat option) \<Rightarrow> nat \<Rightarrow> bool" where
  "last_for_hotspot s station on r \<longleftrightarrow>
     (\<exists>h. enabled_hotspot (se_document s) = Some h
        \<and> (\<exists>rd \<in> set (hw_radios (se_hardware s)). rd_station rd = station \<and> rd_access_point rd = Some OneAtATime)
        \<and> (\<forall>other \<in> set (hotspot_hosts (se_hardware s) (se_document s) h). rd_station other = station
             \<or> rd_access_point other = Some OneAtATime \<and> (\<exists>r' < r. on (rd_station other) = Some r')))"

lemma radios_hearing_radio: "(rd, sig) \<in> set (radios_hearing s w) \<Longrightarrow> rd \<in> set (hw_radios (se_hardware s))"
  by (auto simp: radios_hearing_def radios_for_def List.map_filter_def split: option.splits if_splits)

lemma links_at_rank:
  "k \<le> length (cands s) \<Longrightarrow> bt_has (links_upto s k) i \<Longrightarrow> \<exists>r < k. bt_get (pd_links (place s)) i = Some r"
  by (auto simp: bt_has_def place_eq dest: links_rank intro: links_mono)

lemma placed_highest:
  assumes r: "r < length (cands s)" and on: "at_enabled (cands s ! r)" "bt_get (se_failures s) r = None"
    and av: "available_on s (cands s ! r) i"
  shows "(\<exists>r' \<le> r. bt_get (pd_links (place s)) i = Some r')
    \<or> (\<exists>i'. bt_get (pd_links (place s)) i' = Some r)
    \<or> is_wireless (at_kind (cands s ! r)) \<and> last_for_hotspot s i (bt_get (pd_links (place s))) r"
proof (cases "\<exists>i'. bt_get (pd_links (place s)) i' = Some r")
  case False
  then obtain st where st: "place_one s r (cands s ! r) (links_upto s r) = Inl st"
    using r by (cases "place_one s r (cands s ! r) (links_upto s r)") (auto simp: place_eq links_iff)
  have taken: "\<exists>r' \<le> r. bt_get (pd_links (place s)) i = Some r'" if "bt_has (links_upto s r) i"
    using links_at_rank [of r s i] that r by auto
  show ?thesis
  proof (cases "at_kind (cands s ! r)")
    case (Wireless w)
    with av obtain rd sig where rd: "(rd, sig) \<in> set (radios_hearing s w)" "rd_station rd = i"
      by (auto simp: available_on_def)
    from st on Wireless have "place_wireless s r w (links_upto s r) = Inl st" by (simp add: place_one_def)
    moreover have "radios_hearing s w \<noteq> []" using rd(1) by auto
    ultimately have "radios_free s w (links_upto s r) = []" using on(2) by (intro place_wireless_Standby)
    with rd have "bt_has (links_upto s r) i \<or> \<not> spares_hotspot s rd (links_upto s r)"
      using radios_free_iff [of rd sig s w "links_upto s r"] by auto
    then show ?thesis
    proof
      assume spare: "\<not> spares_hotspot s rd (links_upto s r)"
      then obtain h where h: "enabled_hotspot (se_document s) = Some h" "rd_access_point rd = Some OneAtATime"
        and none: "\<forall>other \<in> set (hotspot_hosts (se_hardware s) (se_document s) h). rd_station other = i
             \<or> rd_access_point other = Some OneAtATime \<and> bt_has (links_upto s r) (rd_station other)"
        using rd(2) by (auto simp: spares_hotspot_def list_ex_iff split: option.splits)
      with rd radios_hearing_radio [OF rd(1)] links_at_rank [of r s] r
      have "last_for_hotspot s i (bt_get (pd_links (place s))) r"
        unfolding last_for_hotspot_def by (intro exI [of _ h]) force
      with Wireless show ?thesis by simp
    qed (use taken in simp)
  next
    case (WiredDynamic on')
    with av on st have "bt_has (links_upto s r) i"
      by (auto simp: available_on_def place_one_def place_wired_def failed_state_def split: if_splits)
    with taken show ?thesis by simp
  next
    case (WiredStatic on' addresses gateway)
    with av on st have "bt_has (links_upto s r) i"
      by (auto simp: available_on_def place_one_def place_wired_def failed_state_def split: if_splits)
    with taken show ?thesis by simp
  qed
qed simp
end
