(* ===== verification/Selection.thy ===== *)
theory Selection
  imports Placement
begin

text \<open>
  The selector over its life: what settling keeps and numbers, that settling again changes nothing,
  what the changes it reports are worth, and what holds of every selector that is reached from a
  new one by observations and new documents.
\<close>

section \<open>Settling\<close>

lemma settle_link_eq:
  "settle_link s (i, c) (held, n) =
     (if \<exists>old. bt_get (se_held s) i = Some old \<and> lk_candidate (hd_link old) = c
      then (bt_insert i (the (bt_get (se_held s) i)) held, n)
      else (bt_insert i \<lparr>hd_link = \<lparr>lk_candidate = c, lk_attempt = n + 1\<rparr>,
          hd_at = stage_next Carrier (is_wireless (at_kind (cands s ! c)))\<rparr> held, n + 1))"
  by (auto simp: settle_link_def split: option.splits)

definition candidate_on :: "(string, held) bt \<Rightarrow> string \<Rightarrow> nat option" where
  "candidate_on held i = map_option (\<lambda>h. lk_candidate (hd_link h)) (bt_get held i)"

lemma settle_link_ok: "bt_ok held \<Longrightarrow> bt_ok (fst (settle_link s p (held, n)))"
  by (cases p) (simp add: settle_link_eq)

lemma fold_settle_ok: "bt_ok held \<Longrightarrow> bt_ok (fst (fold (settle_link s) xs (held, n)))"
proof (induction xs arbitrary: held n)
  case (Cons p xs)
  then show ?case using settle_link_ok [of held s p n]
    by (cases "settle_link s p (held, n)") simp
qed simp

lemma settle_held_ok [simp]: "bt_ok (fst (settle_held s))"
  unfolding settle_held_def by (rule fold_settle_ok) simp

text \<open>What one interface holds after the fold: what it held where the candidate is the same.\<close>

lemma fold_settle_other:
  "i \<notin> fst ` set xs \<Longrightarrow> bt_get (fst (fold (settle_link s) xs (held, n))) i = bt_get held i"
proof (induction xs arbitrary: held n)
  case (Cons p xs)
  then show ?case by (cases p) (auto simp: settle_link_eq)
qed simp

lemma fold_settle_get:
  "distinct (map fst xs) \<Longrightarrow> (i, c) \<in> set xs \<Longrightarrow>
     \<exists>h. bt_get (fst (fold (settle_link s) xs (held, n))) i = Some h \<and> lk_candidate (hd_link h) = c
       \<and> (\<forall>old. bt_get (se_held s) i = Some old \<and> lk_candidate (hd_link old) = c \<longrightarrow> h = old)
       \<and> (bt_get (se_held s) i = Some h
          \<or> hd_at h = stage_next Carrier (is_wireless (at_kind (cands s ! c))))"
proof (induction xs arbitrary: held n)
  case (Cons p xs)
  obtain j d where p: "p = (j, d)" by (cases p)
  show ?case
  proof (cases "(i, c) \<in> set xs")
    case True
    with Cons.IH [of "fst (settle_link s p (held, n))" "snd (settle_link s p (held, n))"] Cons.prems
    show ?thesis by simp
  next
    case False
    with Cons.prems p have here: "j = i" "d = c" "i \<notin> fst ` set xs" by auto
    then show ?thesis
      by (simp add: p settle_link_eq fold_settle_other del: stage_next.simps) (auto split: if_splits)
  qed
qed simp

lemma settle_held_get:
  assumes "bt_get (pd_links (place s)) i = Some c"
  obtains h where "bt_get (fst (settle_held s)) i = Some h" "lk_candidate (hd_link h) = c"
    "\<forall>old. bt_get (se_held s) i = Some old \<and> lk_candidate (hd_link old) = c \<longrightarrow> h = old"
    "bt_get (se_held s) i = Some h \<or> hd_at h = stage_next Carrier (is_wireless (at_kind (cands s ! c)))"
proof -
  from assms have "(i, c) \<in> set (pd_links (place s))" by (rule bt_get_SomeD)
  moreover have "distinct (map fst (pd_links (place s)))" by (simp add: place_eq links_ok bt_ok_distinct)
  ultimately have "\<exists>h. bt_get (fst (settle_held s)) i = Some h \<and> lk_candidate (hd_link h) = c
       \<and> (\<forall>old. bt_get (se_held s) i = Some old \<and> lk_candidate (hd_link old) = c \<longrightarrow> h = old)
       \<and> (bt_get (se_held s) i = Some h
          \<or> hd_at h = stage_next Carrier (is_wireless (at_kind (cands s ! c))))"
    unfolding settle_held_def by (intro fold_settle_get)
  then show thesis by (elim exE conjE) (rule that)
qed

lemma settle_held_None: "bt_get (pd_links (place s)) i = None \<Longrightarrow> bt_get (fst (settle_held s)) i = None"
  unfolding settle_held_def by (simp add: bt_get_None_iff fold_settle_other)

lemma candidate_on_settled: "candidate_on (fst (settle_held s)) i = bt_get (pd_links (place s)) i"
proof (cases "bt_get (pd_links (place s)) i")
  case None
  then show ?thesis by (simp add: candidate_on_def settle_held_None)
next
  case (Some c)
  from settle_held_get [OF this] Some show ?thesis by (auto simp: candidate_on_def)
qed

text \<open>The fields of a settled selector.\<close>

definition settled :: "selector \<Rightarrow> selector" where
  "settled s = snd (settle s)"

lemma settled_simps [simp]:
  "se_hardware (settled s) = se_hardware s" "se_document (settled s) = se_document s"
  "se_carrier (settled s) = se_carrier s" "se_heard (settled s) = se_heard s"
  "se_failures (settled s) = se_failures s" "se_held (settled s) = fst (settle_held s)"
  "se_next_attempt (settled s) = snd (settle_held s)"
  "se_channels (settled s) = bt_retain (\<lambda>r _. case bt_get (se_held s) r of
              None \<Rightarrow> False | Some old \<Rightarrow> bt_get (fst (settle_held s)) r = Some old) (se_channels s)"
  by (simp_all add: settled_def settle_def Let_def case_prod_unfold)

section \<open>Settling again\<close>

lemma held_on_iff:
  assumes "bt_ok (se_held s)" and inj: "\<And>i j. candidate_on (se_held s) i = Some r \<Longrightarrow> candidate_on (se_held s) j = Some r \<Longrightarrow> i = j"
  shows "held_on s r = Some i \<longleftrightarrow> candidate_on (se_held s) i = Some r"
proof
  assume "held_on s r = Some i"
  then obtain h where "(i, h) \<in> set (se_held s)" "lk_candidate (hd_link h) = r"
    by (auto simp: held_on_def dest!: find_SomeD)
  with assms(1) show "candidate_on (se_held s) i = Some r"
    by (simp add: candidate_on_def bt_ok_get_iff [symmetric])
next
  assume i: "candidate_on (se_held s) i = Some r"
  then obtain h where "(i, h) \<in> set (se_held s)" "lk_candidate (hd_link h) = r"
    by (auto simp: candidate_on_def dest: bt_get_SomeD)
  then have "List.find (\<lambda>(_, h). lk_candidate (hd_link h) = r) (se_held s) \<noteq> None"
    unfolding find_None_iff' by fastforce
  then have "held_on s r \<noteq> None" by (simp add: held_on_def)
  then obtain j where j: "held_on s r = Some j" by blast
  then obtain h where "(j, h) \<in> set (se_held s)" "lk_candidate (hd_link h) = r"
    by (auto simp: held_on_def dest!: find_SomeD)
  with assms(1) have "candidate_on (se_held s) j = Some r"
    by (simp add: candidate_on_def bt_ok_get_iff [symmetric])
  with inj [OF i this] j show "held_on s r = Some i" by simp
qed

lemma candidate_on_inj:
  "candidate_on (fst (settle_held s)) i = Some r \<Longrightarrow> candidate_on (fst (settle_held s)) j = Some r \<Longrightarrow> i = j"
  by (simp add: candidate_on_settled place_eq links_inj)

lemma held_on_settled: "held_on (settled s) r = Some i \<longleftrightarrow> bt_get (pd_links (place s)) i = Some r"
  using held_on_iff [of "settled s" r i] candidate_on_inj [of s _ r] by (simp add: candidate_on_settled)

text \<open>Which candidates are placed and where turns only on these fields.\<close>

lemma spares_settled [simp]: "spares_hotspot (settled s) r links = spares_hotspot s r links"
  by (simp add: spares_hotspot_def split: option.split)

lemma radios_hearing_settled [simp]: "radios_hearing (settled s) w = radios_hearing s w"
  by (simp add: radios_hearing_def)

lemma radios_free_settled [simp]: "radios_free (settled s) w links = radios_free s w links"
  by (simp add: radios_free_def)

lemma failed_settled [simp]: "failed_state (settled s) r = failed_state s r"
  by (simp add: failed_state_def)

lemma place_wireless_settled:
  assumes "\<forall>i. place_wireless s r w links = Inr i \<longleftrightarrow> held_on (settled s) r = Some i"
  shows "place_wireless (settled s) r w links = place_wireless s r w links"
proof (cases "place_wireless s r w links")
  case (Inr i)
  with assms have on: "held_on (settled s) r = Some i" by blast
  from place_wireless_Inr [OF Inr] have "list_ex (\<lambda>(rd, _). rd_station rd = i) (radios_free s w links)"
    and "failed_state s r = None" "radios_hearing s w \<noteq> []"
    by (auto simp: list_ex_iff failed_state_def radios_free_def)
  with on Inr show ?thesis by (simp add: place_wireless_def [of "settled s"])
next
  case (Inl st)
  with assms have "held_on (settled s) r = None" by (metis Inl_Inr_False not_None_eq)
  moreover have "radios_free s w links = []" if "failed_state s r = None" "radios_hearing s w \<noteq> []"
    using place_wireless_Standby [OF Inl] that by (simp add: failed_state_def)
  ultimately show ?thesis
    by (auto simp: place_wireless_def Let_def split: option.splits)
qed

lemma place_upto_settled: "k \<le> length (cands s) \<Longrightarrow> place_upto (settled s) k = place_upto s k"
proof (induction k)
  case (Suc k)
  let ?L = "links_upto s k"
  have on: "place_one s k (cands s ! k) ?L = Inr i \<longleftrightarrow> held_on (settled s) k = Some i" for i
    using Suc.prems by (simp add: held_on_settled place_eq links_iff)
  have "place_one (settled s) k (cands s ! k) ?L = place_one s k (cands s ! k) ?L"
  proof (cases "at_enabled (cands s ! k)")
    case enabled: True
    show ?thesis
    proof (cases "at_kind (cands s ! k)")
      case (Wireless w)
      with enabled on have "\<forall>i. place_wireless s k w ?L = Inr i \<longleftrightarrow> held_on (settled s) k = Some i"
        by (simp add: place_one_def)
      from place_wireless_settled [OF this] Wireless show ?thesis by (simp add: place_one_def)
    qed (simp_all add: place_one_def place_wired_def)
  qed (simp add: place_one_def)
  with Suc show ?case by (simp add: place_upto_Suc place_step_def)
qed simp

lemma place_settled [simp]: "place (settled s) = place s"
  by (simp add: place_eq place_upto_settled)

lemma settle_held_settled [simp]: "settle_held (settled s) = settle_held s"
proof -
  have keep: "\<exists>old. bt_get (fst (settle_held s)) i = Some old \<and> lk_candidate (hd_link old) = c"
    if ic: "(i, c) \<in> set (pd_links (place s))" for i c
  proof -
    from ic have "bt_get (pd_links (place s)) i = Some c"
      by (simp add: bt_ok_get_iff place_eq links_ok)
    from settle_held_get [OF this] show ?thesis by blast
  qed
  have fold: "fold (settle_link (settled s)) xs (m, n) =
      (fold (\<lambda>(i, c) m. bt_insert i (the (bt_get (fst (settle_held s)) i)) m) xs m, n)"
    if "set xs \<subseteq> set (pd_links (place s))" for xs m n
    using that
  proof (induction xs arbitrary: m)
    case (Cons p xs)
    obtain i c where p: "p = (i, c)" by (cases p)
    with Cons.prems keep have "\<exists>old. bt_get (fst (settle_held s)) i = Some old \<and> lk_candidate (hd_link old) = c" by auto
    with Cons p show ?case by (simp add: settle_link_eq)
  qed simp
  have ok: "bt_ok (fold (\<lambda>(i, c) m. bt_insert i (f i) m) xs m)" if "bt_ok m" for f :: "string \<Rightarrow> held" and xs :: "(string, nat) bt" and m
    using that by (induction xs arbitrary: m) auto
  have get: "bt_get (fold (\<lambda>(i, c) m. bt_insert i (f i) m) xs m) k = (if k \<in> fst ` set xs then Some (f k) else bt_get m k)"
    for f :: "string \<Rightarrow> held" and xs :: "(string, nat) bt" and m k
    by (induction xs arbitrary: m) auto
  have "fst (settle_held (settled s)) = fst (settle_held s)"
  proof (rule bt_ext)
    fix k
    have "k \<in> fst ` set (pd_links (place s)) \<longleftrightarrow> bt_get (fst (settle_held s)) k \<noteq> None"
      using candidate_on_settled [of s k] bt_get_None_iff [of "pd_links (place s)" k]
      by (cases "bt_get (fst (settle_held s)) k") (simp_all add: candidate_on_def, force)
    then show "bt_get (fst (settle_held (settled s))) k = bt_get (fst (settle_held s)) k"
      by (auto simp: settle_held_def [of "settled s"] fold get)
  qed simp_all
  moreover have "snd (settle_held (settled s)) = snd (settle_held s)"
    by (simp add: settle_held_def [of "settled s"] fold)
  ultimately show ?thesis by (rule prod_eqI)
qed

section \<open>The hotspot's place\<close>

text \<open>What the placing of the hotspot reads.\<close>

definition same_for_hotspot :: "selector \<Rightarrow> selector \<Rightarrow> bool" where
  "same_for_hotspot s t \<longleftrightarrow> se_hardware s = se_hardware t \<and> se_document s = se_document t
     \<and> se_held s = se_held t \<and> se_channels s = se_channels t"

lemma hotspot_reads:
  assumes "same_for_hotspot s t"
  shows "best_hosts s h = best_hosts t h" and "hotspot_channel_on s r = hotspot_channel_on t r"
proof -
  have "hotspot_tier s = hotspot_tier t"
    using assms by (intro ext) (simp add: same_for_hotspot_def hotspot_tier_def split: option.split)
  with assms show "best_hosts s h = best_hosts t h"
    by (simp add: best_hosts_def hotspot_options_def same_for_hotspot_def)
  have "associated s = associated t"
    using assms by (intro ext) (simp add: same_for_hotspot_def associated_def split: option.split)
  with assms show "hotspot_channel_on s r = hotspot_channel_on t r"
    by (simp add: hotspot_channel_on_def same_for_hotspot_def split: option.split)
qed

text \<open>What was found is found again by its own key, and so is the first where nothing was.\<close>

lemma find_again:
  fixes x :: 'a and xs :: "'a list" and f :: "'a \<Rightarrow> 'k" and cur :: "'k option"
  defines "r \<equiv> case List.find (\<lambda>y. Some (f y) = cur) (x # xs) of Some y \<Rightarrow> y | None \<Rightarrow> x"
  shows "List.find (\<lambda>y. f y = f r) (x # xs) = Some r"
proof (cases "List.find (\<lambda>y. Some (f y) = cur) (x # xs)")
  case None
  then have "r = x" by (simp only: r_def option.case)
  then show ?thesis by simp
next
  case (Some y)
  then have "r = y" by (simp only: r_def option.case)
  moreover have "cur = Some (f y)" using find_SomeD [OF Some] by simp
  ultimately show ?thesis using Some by (simp only: option.inject)
qed

text \<open>The hotspot stays where it is.\<close>

lemma place_hotspot_stays:
  assumes same: "same_for_hotspot s t" and "de_hotspot (se_decision t) = place_hotspot s"
  shows "place_hotspot t = place_hotspot s"
proof (cases "enabled_hotspot (se_document s)")
  case None
  with same show ?thesis by (simp add: place_hotspot_def same_for_hotspot_def)
next
  case (Some h)
  show ?thesis
  proof (cases "best_hosts s h")
    case Nil
    with Some same show ?thesis by (simp add: place_hotspot_def same_for_hotspot_def hotspot_reads [OF same, symmetric])
  next
    case (Cons first rest)
    define r where "r = (case List.find (\<lambda>r. Some (rd_station r) = map_option pl_radio (de_hotspot (se_decision s)))
        (first # rest) of Some r \<Rightarrow> r | None \<Rightarrow> first)"
    have s: "place_hotspot s = Some \<lparr>pl_radio = rd_station r, pl_channel = hotspot_channel_on s r\<rparr>"
      using Some Cons by (simp only: place_hotspot_def Let_def option.case list.case r_def)
    have again: "List.find (\<lambda>r'. rd_station r' = rd_station r) (first # rest) = Some r"
      unfolding r_def by (rule find_again)
    have "best_hosts t h = first # rest" "enabled_hotspot (se_document t) = Some h"
      using Some Cons same by (simp_all add: hotspot_reads [OF same, symmetric] same_for_hotspot_def)
    moreover have "map_option pl_radio (de_hotspot (se_decision t)) = Some (rd_station r)"
      using assms(2) s by simp
    ultimately have "place_hotspot t = Some \<lparr>pl_radio = rd_station r, pl_channel = hotspot_channel_on t r\<rparr>"
      by (simp only: place_hotspot_def Let_def option.case list.case option.inject again)
    with s show ?thesis by (simp only: hotspot_reads(2) [OF same])
  qed
qed

lemma diff_same [simp]: "diff d d = []"
proof -
  have "filter (\<lambda>(i, st). nth_opt xs i \<noteq> Some st) (enumerate 0 xs) = []" for xs :: "cand_state list"
    by (auto simp: filter_empty_conv in_set_enumerate_eq nth_opt_def)
  then show ?thesis by (simp add: diff_def diff_links_def)
qed

text \<open>Settling puts the new attempts and channels in place, then decides on the hotspot.\<close>

definition reheld :: "selector \<Rightarrow> selector" where
  "reheld s = s\<lparr>se_channels := se_channels (settled s), se_held := fst (settle_held s),
     se_next_attempt := snd (settle_held s)\<rparr>"

lemma settle_eq:
  "settle s =
     (let d = \<lparr>de_links = map (\<lambda>(i, h). (i, hd_link h)) (fst (settle_held s)), de_hotspot = place_hotspot (reheld s),
        de_default_route = default_route (fst (settle_held s)),
        de_states = bt_values (settle_states (pd_idle (place s)) (fst (settle_held s)))\<rparr>
      in (diff (se_decision s) d, (reheld s)\<lparr>se_decision := d\<rparr>))"
  by (simp add: settle_def reheld_def Let_def case_prod_unfold)

lemma settled_decision:
  "de_links (se_decision (settled s)) = map (\<lambda>(i, h). (i, hd_link h)) (fst (settle_held s))"
  "de_hotspot (se_decision (settled s)) = place_hotspot (reheld s)"
  "de_default_route (se_decision (settled s)) = default_route (fst (settle_held s))"
  "de_states (se_decision (settled s)) = bt_values (settle_states (pd_idle (place s)) (fst (settle_held s)))"
  by (simp_all add: settled_def settle_eq Let_def)

lemma settle_snd: "snd (settle s) = settled s" and settle_fst: "fst (settle s) = diff (se_decision s) (se_decision (settled s))"
  by (simp_all add: settled_def settle_eq Let_def)

lemma channels_settled_again: "se_channels (settled (settled s)) = se_channels (settled s)"
  unfolding settled_simps(8) [of "settled s"] settle_held_settled settled_simps(6) settled_simps(8) [of s]
    bt_retain_def filter_filter
  by (rule filter_cong [OF refl]) (auto split: option.splits)

lemma reheld_settled: "reheld (settled s) = settled s"
  by (rule selector.equality) (simp_all add: reheld_def channels_settled_again del: settled_simps(8))

lemma hotspot_settled: "place_hotspot (settled s) = place_hotspot (reheld s)"
  by (rule place_hotspot_stays) (simp_all add: same_for_hotspot_def settled_decision, simp_all add: reheld_def)

lemma settle_settled: "settle (settled s) = ([], settled s)"
proof -
  have "se_decision (settled s) = \<lparr>de_links = map (\<lambda>(i, h). (i, hd_link h)) (fst (settle_held s)),
      de_hotspot = place_hotspot (reheld (settled s)), de_default_route = default_route (fst (settle_held s)),
      de_states = bt_values (settle_states (pd_idle (place s)) (fst (settle_held s)))\<rparr>"
    by (rule decision.equality) (simp_all add: settled_decision reheld_settled hotspot_settled)
  then have d: "\<lparr>de_links = map (\<lambda>(i, h). (i, hd_link h)) (fst (settle_held (settled s))),
      de_hotspot = place_hotspot (reheld (settled s)), de_default_route = default_route (fst (settle_held (settled s))),
      de_states = bt_values (settle_states (pd_idle (place (settled s))) (fst (settle_held (settled s))))\<rparr>
      = se_decision (settled s)" by simp
  show ?thesis unfolding settle_eq [of "settled s"] d by (simp add: Let_def reheld_settled)
qed

section \<open>Selectors that are reached\<close>

text \<open>
  What an observation or a new document keeps of a selector before it settles: its document is one
  the hardware can carry out, and only wired interfaces have carrier.
\<close>

definition sound :: "hardware \<Rightarrow> selector \<Rightarrow> bool" where
  "sound hw s \<longleftrightarrow> se_hardware s = hw \<and> sel_check (se_document s) hw = None
     \<and> (\<forall>i. bt_has (se_carrier s) i \<longrightarrow> i \<in> set (hw_wired hw)) \<and> bt_ok (se_held s)"

definition settled_well :: "hardware \<Rightarrow> selector \<Rightarrow> bool" where
  "settled_well hw s \<longleftrightarrow> (\<exists>t. sound hw t \<and> s = settled t)"

lemma bt_has_simps [simp]:
  "bt_has (bt_insert k v m) q \<longleftrightarrow> q = k \<or> bt_has m q" "bt_has (bt_remove k m) q \<longleftrightarrow> q \<noteq> k \<and> bt_has m q"
  by (auto simp: bt_has_def)

lemma sound_settled: "sound hw t \<Longrightarrow> sound hw (settled t)"
  by (simp add: sound_def)

lemma forget_failures_simps [simp]:
  "se_hardware (forget_failures P s) = se_hardware s" "se_document (forget_failures P s) = se_document s"
  "se_carrier (forget_failures P s) = se_carrier s" "se_held (forget_failures P s) = se_held s"
  "se_decision (forget_failures P s) = se_decision s" "se_next_attempt (forget_failures P s) = se_next_attempt s"
  by (simp_all add: forget_failures_def Let_def)

lemma sound_observe: "sound hw s \<Longrightarrow> sound hw (observe e s)"
  by (cases e) (auto simp: sound_def on_carrier_def in_range_def on_passed_def on_failed_def on_station_channel_def Let_def
      split: option.split)

lemma observe_keeps [simp]:
  "se_document (observe e s) = se_document s" "se_decision (observe e s) = se_decision s"
  "se_next_attempt (observe e s) = se_next_attempt s"
  by (cases e; simp add: on_carrier_def in_range_def on_passed_def on_failed_def on_station_channel_def Let_def
      split: option.split)+

lemma bt_ok_map_filter:
  "bt_ok (m :: ('k::linorder, 'a) bt) \<Longrightarrow> (\<And>k v k' v'. f (k, v) = Some (k', v') \<Longrightarrow> k' = k) \<Longrightarrow> bt_ok (List.map_filter f m)"
proof (induction m)
  case (Cons kv m)
  have sub: "fst ` set (List.map_filter f m) \<subseteq> fst ` set m"
    using Cons.prems(2) by (force simp: List.map_filter_def)
  obtain k v where kv: "kv = (k, v)" by (cases kv)
  have "\<forall>q \<in> fst ` set m. k < q" using Cons.prems(1) kv by (simp add: bt_ok_Cons)
  with sub have above: "\<forall>q \<in> fst ` set (List.map_filter f m). k < q" by blast
  show ?case
  proof (cases "f kv")
    case None
    with Cons kv show ?thesis by (simp add: List.map_filter_simps bt_ok_Cons)
  next
    case (Some q)
    obtain k' v' where q: "q = (k', v')" by (cases q)
    with Some kv have "k' = k" by (intro Cons.prems(2) [of k v k' v']) simp
    with q Some kv have f: "f (k, v) = Some (k, v')" by simp
    have "bt_ok (List.map_filter f m)" using Cons kv by (simp add: bt_ok_Cons)
    with f kv above show ?thesis by (simp add: List.map_filter_simps bt_ok_Cons)
  qed
qed (simp add: List.map_filter_simps)

lemma bt_ok_move_held: "bt_ok held \<Longrightarrow> bt_ok (move_held mv held)"
  unfolding move_held_def by (rule bt_ok_map_filter) auto

text \<open>What a new document is selected among with: the attempts and the failures carried over.\<close>

definition carried :: "document \<Rightarrow> selector \<Rightarrow> selector" where
  "carried d s =
     (let moved = moved_to (cands s) (dc_attachments d) [];
          mv = (\<lambda>old. Option.bind (nth_opt moved old) (\<lambda>x. x))
      in s\<lparr>se_held := move_held mv (se_held s), se_failures := move_failures mv (se_failures s),
           se_document := d, se_decision := (se_decision s)\<lparr>de_states := []\<rparr>\<rparr>)"

lemma sel_run_Observes: "sel_run s (Observes e) = settled (observe e s)"
  by (simp add: sel_handle_def settle_snd)

lemma configure_eq:
  "configure d s =
     (case sel_check d (se_hardware s) of
        Some e \<Rightarrow> Inl e
      | None \<Rightarrow> if d = se_document s then Inr ([], s) else Inr (settle (carried d s)))"
  by (cases "sel_check d (se_hardware s)") (simp_all add: configure_def carried_def Let_def)

lemma sel_run_Configures:
  "sel_run s (Configures d) =
     (if sel_check d (se_hardware s) \<noteq> None \<or> d = se_document s then s else settled (carried d s))"
  by (auto simp: configure_eq settle_snd [symmetric] case_prod_unfold split: option.splits)

lemma sound_carried: "sound hw s \<Longrightarrow> sel_check d (se_hardware s) = None \<Longrightarrow> sound hw (carried d s)"
  by (simp add: carried_def Let_def sound_def bt_ok_move_held)

lemma settled_well_run:
  assumes "settled_well hw s"
  shows "settled_well hw (sel_run s x)"
proof -
  have s: "sound hw s" using assms by (auto simp: settled_well_def sound_settled)
  show ?thesis
  proof (cases x)
    case (Observes e)
    with sound_observe [OF s, of e] show ?thesis unfolding Observes sel_run_Observes settled_well_def by blast
  next
    case (Configures d)
    show ?thesis
    proof (cases "sel_check d (se_hardware s) \<noteq> None \<or> d = se_document s")
      case True
      with assms Configures show ?thesis by (simp only: sel_run_Configures if_True)
    next
      case False
      then have "sound hw (carried d s)" using sound_carried [OF s] by blast
      with False Configures show ?thesis unfolding settled_well_def by (auto simp only: sel_run_Configures if_False)
    qed
  qed
qed

lemma settled_well_new: "selector_new hw d = Inr s \<Longrightarrow> settled_well hw s"
  by (auto simp: settled_well_def selector_new_def settle_snd sound_def selector_blank_def bt_has_def
      split: option.splits intro!: exI [of _ "selector_blank hw d"])

interpretation selecting: event_machine sel_run "settled_well hw" for hw
  by unfold_locales (rule settled_well_run)

lemma reached_well: "selector_new hw d = Inr s0 \<Longrightarrow> settled_well hw (foldl sel_run s0 steps)"
  by (intro selecting.run_inv settled_well_new)

section \<open>The highest available candidate is up\<close>

definition up_on :: "selector \<Rightarrow> string \<Rightarrow> nat option" where
  "up_on s i = map_option lk_candidate (bt_get (de_links (se_decision s)) i)"

lemma links_settled: "bt_get (de_links (se_decision (settled s))) i = map_option hd_link (bt_get (fst (settle_held s)) i)"
  by (simp add: settled_decision bt_get_map_snd)

lemma up_on_settled: "up_on (settled s) i = bt_get (pd_links (place s)) i"
  using candidate_on_settled [of s i] by (simp add: up_on_def links_settled candidate_on_def option.map_comp comp_def)

definition usable_on :: "selector \<Rightarrow> nat \<Rightarrow> string \<Rightarrow> bool" where
  "usable_on s r i \<longleftrightarrow> r < length (cands s) \<and> at_enabled (cands s ! r) \<and> bt_get (se_failures s) r = None
     \<and> available_on s (cands s ! r) i"

lemma usable_on_settled [simp]: "usable_on (settled s) r i = usable_on s r i"
  by (simp add: usable_on_def available_on_def split: attachment_kind.split)

lemma last_for_hotspot_settled [simp]: "last_for_hotspot (settled s) i on r = last_for_hotspot s i on r"
  by (simp add: last_for_hotspot_def)

lemma settled_highest:
  "(up_on (settled s) i = Some r \<longrightarrow> usable_on s r i \<and> (\<forall>j. up_on (settled s) j = Some r \<longrightarrow> j = i))
    \<and> (usable_on s r i \<longrightarrow> (\<exists>r' \<le> r. up_on (settled s) i = Some r') \<or> (\<exists>j. up_on (settled s) j = Some r)
         \<or> is_wireless (at_kind (cands s ! r)) \<and> last_for_hotspot s i (up_on (settled s)) r)"
proof (intro conjI impI)
  assume on: "up_on (settled s) i = Some r"
  then have "r < length (cands s)" "place_one s r (cands s ! r) (links_upto s r) = Inr i"
    by (simp_all add: up_on_settled place_eq links_iff)
  with place_one_Inr [OF this(2)] show "usable_on s r i" by (simp add: usable_on_def)
  show "\<forall>j. up_on (settled s) j = Some r \<longrightarrow> j = i"
    using on by (auto simp: up_on_settled place_eq dest: links_inj)
next
  assume "usable_on s r i"
  with placed_highest [of r s i]
  show "(\<exists>r' \<le> r. up_on (settled s) i = Some r') \<or> (\<exists>j. up_on (settled s) j = Some r)
         \<or> is_wireless (at_kind (cands s ! r)) \<and> last_for_hotspot s i (up_on (settled s)) r"
    by (simp add: usable_on_def up_on_settled ext [OF up_on_settled])
qed

section \<open>The hotspot's radio\<close>

definition hardware_ok :: "hardware \<Rightarrow> bool" where
  "hardware_ok hw \<longleftrightarrow> distinct (map rd_station (hw_radios hw))
     \<and> set (hw_wired hw) \<inter> set (map rd_station (hw_radios hw)) = {}"

lemma hotspot_hosts_radio:
  "r \<in> set (hotspot_hosts hw d h) \<Longrightarrow> r \<in> set (hw_radios hw) \<and> rd_access_point r \<noteq> None"
  by (auto simp: hotspot_hosts_def hotspot_radios_def radios_for_def Let_def)

lemma hotspot_options_Nil:
  "hotspot_options s h = [] \<longleftrightarrow>
     (\<forall>r \<in> set (hotspot_hosts (se_hardware s) (se_document s) h). hotspot_tier s r = None)"
  by (auto simp: hotspot_options_def List.map_filter_def filter_empty_conv)

lemma best_hosts_Nil: "best_hosts s h = [] \<longleftrightarrow> hotspot_options s h = []"
proof -
  have "filter (\<lambda>(_, tier). tier = Min (set (map snd xs))) xs \<noteq> []" if "xs \<noteq> []" for xs :: "(radio \<times> nat) list"
  proof -
    have "Min (snd ` set xs) \<in> snd ` set xs" using that by (intro Min_in) auto
    then obtain x where "x \<in> set xs" "snd x = Min (set (map snd xs))" by (metis imageE set_map)
    then have "x \<in> set (filter (\<lambda>(_, tier). tier = Min (set (map snd xs))) xs)" by (simp add: case_prod_unfold)
    then show ?thesis by (metis empty_iff empty_set)
  qed
  then show ?thesis unfolding best_hosts_def Let_def map_is_Nil_conv by (cases "hotspot_options s h = []") simp_all
qed

lemma best_hosts_in:
  "r \<in> set (best_hosts s h) \<Longrightarrow>
     r \<in> set (hotspot_hosts (se_hardware s) (se_document s) h) \<and> hotspot_tier s r \<noteq> None"
  by (auto simp: best_hosts_def hotspot_options_def List.map_filter_def Let_def)

lemma place_hotspot_in:
  assumes "place_hotspot s = Some p"
  shows "\<exists>h. enabled_hotspot (se_document s) = Some h \<and> (\<exists>r \<in> set (best_hosts s h). rd_station r = pl_radio p)"
proof -
  from assms obtain h first rest where h: "enabled_hotspot (se_document s) = Some h" and
    best: "best_hosts s h = first # rest"
    by (auto simp: place_hotspot_def split: option.splits list.splits)
  define r where "r = (case List.find (\<lambda>r. Some (rd_station r) = map_option pl_radio (de_hotspot (se_decision s)))
      (first # rest) of Some r \<Rightarrow> r | None \<Rightarrow> first)"
  have "p = \<lparr>pl_radio = rd_station r, pl_channel = hotspot_channel_on s r\<rparr>"
    using assms h best unfolding r_def place_hotspot_def Let_def by (simp only: option.case list.case option.inject)
  moreover have "r \<in> set (first # rest)"
  proof (cases "List.find (\<lambda>r. Some (rd_station r) = map_option pl_radio (de_hotspot (se_decision s))) (first # rest)")
    case (Some y)
    with find_SomeD [OF Some] show ?thesis by (simp only: r_def option.case)
  qed (simp only: r_def option.case list.set insertI1)
  ultimately show ?thesis using h best by auto
qed

text \<open>The last host to be taken would not have been spared.\<close>

lemma host_left_free:
  assumes s: "sound hw s" and hw: "hardware_ok hw"
    and h: "enabled_hotspot (se_document s) = Some h" and hosts: "hotspot_hosts hw (se_document s) h \<noteq> []"
  shows "\<exists>r \<in> set (hotspot_hosts hw (se_document s) h).
     \<not> (rd_access_point r = Some OneAtATime \<and> bt_get (pd_links (place s)) (rd_station r) \<noteq> None)"
proof (rule ccontr)
  let ?hosts = "set (hotspot_hosts hw (se_document s) h)" and ?on = "bt_get (pd_links (place s))"
  assume "\<not> ?thesis"
  then have taken: "\<forall>r \<in> ?hosts. rd_access_point r = Some OneAtATime \<and> ?on (rd_station r) \<noteq> None" by blast
  define rank where "rank r = the (?on (rd_station r))" for r :: radio
  from hosts have "rank ` ?hosts \<noteq> {}" "finite (rank ` ?hosts)" by auto
  then obtain r where r: "r \<in> ?hosts" "rank r = Max (rank ` ?hosts)" by (metis (no_types, lifting) Max_in imageE)
  with taken have on: "?on (rd_station r) = Some (rank r)" by (auto simp: rank_def)
  then have n: "rank r < length (cands s)"
    and one: "place_one s (rank r) (cands s ! rank r) (links_upto s (rank r)) = Inr (rd_station r)"
    by (simp_all add: place_eq links_iff)
  have rad: "r \<in> set (hw_radios hw)" using hotspot_hosts_radio [OF r(1)] by blast
  have "\<not> bt_has (se_carrier s) (rd_station r)"
    using s hw rad by (auto simp: sound_def hardware_ok_def)
  with place_one_Inr [OF one] obtain w where w: "at_kind (cands s ! rank r) = Wireless w"
    by (auto simp: available_on_def split: attachment_kind.splits)
  with one have "place_wireless s (rank r) w (links_upto s (rank r)) = Inr (rd_station r)"
    by (auto simp: place_one_def split: if_splits)
  from place_wireless_Inr [OF this] obtain rd sig where rd: "(rd, sig) \<in> set (radios_free s w (links_upto s (rank r)))"
    "rd_station rd = rd_station r" by blast
  then have "rd \<in> set (hw_radios hw)" using s by (auto simp: radios_free_iff sound_def dest: radios_hearing_radio)
  with rd(2) rad hw have "rd = r" by (auto simp: hardware_ok_def distinct_map inj_on_def)
  with rd(1) have "spares_hotspot s r (links_upto s (rank r))" by (simp add: radios_free_iff)
  with h taken r(1) s obtain other where other: "other \<in> ?hosts" "rd_station other \<noteq> rd_station r"
    "\<not> bt_has (links_upto s (rank r)) (rd_station other)"
    by (auto simp: spares_hotspot_def list_ex_iff sound_def)
  from other(1) taken have o: "?on (rd_station other) = Some (rank other)" by (auto simp: rank_def)
  from r(2) other(1) have "rank other \<le> rank r" by simp
  moreover have "rank other \<noteq> rank r"
    using on o other(2) links_inj [of s "length (cands s)" "rd_station other" "rank r" "rd_station r"] by (auto simp: place_eq)
  ultimately have "rank other < rank r" by simp
  with o have "bt_get (links_upto s (rank r)) (rd_station other) = Some (rank other)"
    by (auto simp: place_eq links_iff)
  with other(3) show False by (simp add: bt_has_def)
qed

lemma held_reheld [simp]: "se_held (reheld s) = fst (settle_held s)" "se_hardware (reheld s) = se_hardware s"
  "se_document (reheld s) = se_document s"
  by (simp_all add: reheld_def)

lemma bt_has_held: "bt_has (fst (settle_held s)) i \<longleftrightarrow> bt_get (pd_links (place s)) i \<noteq> None"
  unfolding bt_has_def candidate_on_settled [of s i, symmetric] by (simp add: candidate_on_def)

lemma hotspot_tier_settled:
  "hotspot_tier (reheld s) r = None \<longleftrightarrow>
     rd_access_point r = None \<or> rd_access_point r = Some OneAtATime \<and> bt_get (pd_links (place s)) (rd_station r) \<noteq> None"
  by (auto simp: hotspot_tier_def bt_has_held split: option.splits alongside.splits)

lemma place_hotspot_None:
  "place_hotspot s = None \<longleftrightarrow>
     (case enabled_hotspot (se_document s) of None \<Rightarrow> True | Some h \<Rightarrow> best_hosts s h = [])"
  by (auto simp: place_hotspot_def Let_def split: option.splits list.splits)

lemma settled_hotspot:
  assumes s: "sound hw s" and hw: "hardware_ok hw"
  defines "hosts \<equiv> (case enabled_hotspot (se_document s) of None \<Rightarrow> [] | Some h \<Rightarrow> hotspot_hosts hw (se_document s) h)"
  shows "de_hotspot (se_decision (settled s)) = None \<longleftrightarrow> hosts = []"
    and "de_hotspot (se_decision (settled s)) = Some p \<Longrightarrow>
      \<exists>r \<in> set hosts. rd_station r = pl_radio p \<and> (rd_access_point r = Some OneAtATime \<longrightarrow> up_on (settled s) (pl_radio p) = None)"
proof -
  have hwe: "se_hardware s = hw" using s by (simp add: sound_def)
  show "de_hotspot (se_decision (settled s)) = None \<longleftrightarrow> hosts = []"
  proof (cases "enabled_hotspot (se_document s)")
    case (Some h)
    have "best_hosts (reheld s) h \<noteq> []" if "hosts \<noteq> []"
    proof -
      from that Some have "hotspot_hosts hw (se_document s) h \<noteq> []" by (simp add: hosts_def)
      from host_left_free [OF s hw Some this] obtain r where r: "r \<in> set (hotspot_hosts hw (se_document s) h)"
        "\<not> (rd_access_point r = Some OneAtATime \<and> bt_get (pd_links (place s)) (rd_station r) \<noteq> None)" by blast
      with hotspot_hosts_radio [OF r(1)] have "hotspot_tier (reheld s) r \<noteq> None" by (simp add: hotspot_tier_settled)
      with r(1) show ?thesis by (auto simp: best_hosts_Nil hotspot_options_Nil hwe)
    qed
    moreover have "best_hosts (reheld s) h = []" if "hosts = []"
      using that Some by (simp add: hosts_def best_hosts_Nil hotspot_options_Nil hwe)
    ultimately show ?thesis using Some by (auto simp: settled_decision place_hotspot_None)
  qed (simp add: settled_decision place_hotspot_None hosts_def)
  assume "de_hotspot (se_decision (settled s)) = Some p"
  then obtain h r where h: "enabled_hotspot (se_document s) = Some h" and
    r: "r \<in> set (best_hosts (reheld s) h)" "rd_station r = pl_radio p"
    by (auto simp: settled_decision dest: place_hotspot_in)
  from best_hosts_in [OF r(1)] h hwe have "r \<in> set hosts" "hotspot_tier (reheld s) r \<noteq> None"
    by (simp_all add: hosts_def)
  with r(2) show "\<exists>r \<in> set hosts. rd_station r = pl_radio p \<and> (rd_access_point r = Some OneAtATime \<longrightarrow> up_on (settled s) (pl_radio p) = None)"
    by (intro bexI [of _ r]) (auto simp: hotspot_tier_settled up_on_settled)
qed

section \<open>What the states say\<close>

lemma bt_values_upto:
  assumes ok: "bt_ok m" and has: "\<And>k. bt_has m k \<longleftrightarrow> k < n"
  shows "length (bt_values m) = n \<and> (\<forall>k < n. bt_get m k = Some (bt_values m ! k))"
proof -
  have "bt_keys m = [0..<n]"
  proof (rule sorted_distinct_set_unique)
    show "set (bt_keys m) = set [0..<n]" using has by (simp add: bt_has_iff set_eq_iff)
  qed (use ok in \<open>simp_all add: bt_ok_def bt_keys_def strict_sorted_iff\<close>)
  then have keys: "map fst m = [0..<n]" by (simp add: bt_keys_def)
  then have len: "length m = n" by (metis length_map length_upt minus_nat.diff_0)
  have "bt_get m k = Some (snd (m ! k))" if "k < n" for k
  proof -
    have "fst (m ! k) = k" using that len keys by (metis add_0 nth_map nth_upt)
    moreover have "m ! k \<in> set m" using that len by simp
    ultimately have "(k, snd (m ! k)) \<in> set m" by (metis prod.collapse)
    then show ?thesis using ok by (simp add: bt_ok_get_iff)
  qed
  with len show ?thesis by (simp add: bt_values_def)
qed

lemma fold_insert_get:
  "distinct (map f hs) \<Longrightarrow> h \<in> set hs \<Longrightarrow> bt_get (fold (\<lambda>h m. bt_insert (f h) (g h) m) hs m) (f h) = Some (g h)"
  "r \<notin> f ` set hs \<Longrightarrow> bt_get (fold (\<lambda>h m. bt_insert (f h) (g h) m) hs m) r = bt_get m r"
proof -
  show other: "r \<notin> f ` set hs \<Longrightarrow> bt_get (fold (\<lambda>h m. bt_insert (f h) (g h) m) hs m) r = bt_get m r" for r hs m
    by (induction hs arbitrary: m) auto
  show "distinct (map f hs) \<Longrightarrow> h \<in> set hs \<Longrightarrow> bt_get (fold (\<lambda>h m. bt_insert (f h) (g h) m) hs m) (f h) = Some (g h)"
    by (induction hs arbitrary: m) (auto simp: other)
qed

lemma fold_insert_ok: "bt_ok m \<Longrightarrow> bt_ok (fold (\<lambda>h m. bt_insert (f h) (g h) m) hs m)"
  by (induction hs arbitrary: m) auto

text \<open>The attempts held, each on its own candidate.\<close>

abbreviation attempts_of :: "selector \<Rightarrow> held list" where
  "attempts_of s \<equiv> bt_values (fst (settle_held s))"

abbreviation candidate_of :: "held \<Rightarrow> nat" where
  "candidate_of h \<equiv> lk_candidate (hd_link h)"

lemma attempts_iff: "h \<in> set (attempts_of s) \<longleftrightarrow> (\<exists>i. bt_get (fst (settle_held s)) i = Some h)"
  by (force simp: bt_values_def bt_ok_get_iff)

lemma distinct_candidates: "distinct (map candidate_of (attempts_of s))"
proof -
  let ?m = "fst (settle_held s)"
  have "inj_on (\<lambda>(_, h). candidate_of h) (set ?m)"
  proof (rule inj_onI, clarify)
    fix i h j k assume "(i, h) \<in> set ?m" "(j, k) \<in> set ?m" "candidate_of h = candidate_of k"
    then have i: "bt_get ?m i = Some h" and j: "bt_get ?m j = Some k" and eq: "candidate_of h = candidate_of k"
      by (simp_all add: bt_ok_get_iff)
    then have "i = j" by (intro candidate_on_inj [of s i "candidate_of h" j]) (simp_all add: candidate_on_def)
    with i j show "i = j \<and> h = k" by simp
  qed
  moreover have "distinct ?m" using bt_ok_distinct [of ?m] by (simp add: distinct_map)
  ultimately have "distinct (map (\<lambda>(_, h). candidate_of h) ?m)" by (simp add: distinct_map)
  then show ?thesis by (simp add: bt_values_def comp_def case_prod_unfold)
qed

definition states_of :: "selector \<Rightarrow> (nat, cand_state) bt" where
  "states_of s = settle_states (pd_idle (place s)) (fst (settle_held s))"

lemma states_held:
  "bt_get (fst (settle_held s)) i = Some h \<Longrightarrow>
     bt_get (states_of s) (candidate_of h) = Some (held_state (default_route (fst (settle_held s))) h)"
  unfolding states_of_def settle_states_def by (rule fold_insert_get) (auto simp: distinct_candidates attempts_iff)

lemma states_idle:
  assumes "\<And>i. bt_get (pd_links (place s)) i \<noteq> Some r"
  shows "bt_get (states_of s) r = bt_get (pd_idle (place s)) r"
  unfolding states_of_def settle_states_def
proof (rule fold_insert_get(2), clarify)
  fix h assume "h \<in> set (attempts_of s)" "r = candidate_of h"
  then obtain i where "candidate_on (fst (settle_held s)) i = Some r" by (auto simp: attempts_iff candidate_on_def)
  with assms show False by (simp add: candidate_on_settled)
qed

lemma idle_states:
  "place_one s r a links = Inl st \<Longrightarrow> (st = Off \<longleftrightarrow> \<not> at_enabled a) \<and> (st = Off \<or> st = Standby \<or> (\<exists>c m w. st = Unavailable c m w))"
  by (auto simp: place_one_def place_wired_def place_wireless_def failed_state_def Let_def
      split: if_splits attachment_kind.splits option.splits)

lemma states_upto:
  "length (bt_values (states_of s)) = length (cands s)
    \<and> (\<forall>r < length (cands s). bt_get (states_of s) r = Some (bt_values (states_of s) ! r))"
proof (rule bt_values_upto)
  show "bt_ok (states_of s)"
    unfolding states_of_def settle_states_def by (intro fold_insert_ok) (simp add: place_eq idle_ok)
  fix r
  show "bt_has (states_of s) r \<longleftrightarrow> r < length (cands s)"
  proof (cases "\<exists>i. bt_get (pd_links (place s)) i = Some r")
    case True
    then obtain i where i: "bt_get (pd_links (place s)) i = Some r" by blast
    then obtain h where "bt_get (fst (settle_held s)) i = Some h" "candidate_of h = r" by (rule settle_held_get)
    with states_held i show ?thesis by (auto simp: bt_has_def place_eq links_iff)
  next
    case False
    then have no: "bt_get (pd_links (place s)) i \<noteq> Some r" for i by blast
    then have "bt_get (states_of s) r = bt_get (pd_idle (place s)) r" by (rule states_idle)
    moreover have "bt_get (pd_idle (place s)) r \<noteq> None \<longleftrightarrow> r < length (cands s)"
      using no idle_iff [of s "length (cands s)" r] links_iff [of s "length (cands s)" _ r]
      by (cases "place_one s r (cands s ! r) (links_upto s r)") (auto simp: place_eq)
    ultimately show ?thesis by (simp add: bt_has_def)
  qed
qed

lemma default_route_Some:
  "default_route held = Some r \<longleftrightarrow>
     (\<exists>h \<in> set (bt_values held). hd_at h = None \<and> candidate_of h = r)
     \<and> (\<forall>h \<in> set (bt_values held). hd_at h = None \<longrightarrow> r \<le> candidate_of h)"
proof -
  let ?up = "candidate_of ` {h \<in> set (bt_values held). hd_at h = None}"
  have "default_route held = (if ?up = {} then None else Some (Min ?up))"
    by (auto simp: default_route_def Let_def filter_empty_conv)
  moreover have "?up \<noteq> {} \<Longrightarrow> Min ?up = r \<longleftrightarrow> r \<in> ?up \<and> (\<forall>x \<in> ?up. r \<le> x)"
    by (intro Min_eq_iff) auto
  ultimately show ?thesis by auto
qed

definition established :: "cand_state \<Rightarrow> bool" where
  "established st \<longleftrightarrow> st = DefaultRoute \<or> st = Up"

definition verifying :: "cand_state \<Rightarrow> bool" where
  "verifying st \<longleftrightarrow> (\<exists>at. st = VerifyingAt at)"

lemma settled_states:
  assumes r: "r < length (cands s)"
  defines "st \<equiv> de_states (se_decision (settled s)) ! r"
  shows "st = Off \<longleftrightarrow> \<not> at_enabled (cands s ! r)"
    and "established st \<or> verifying st \<longleftrightarrow> (\<exists>i. up_on (settled s) i = Some r)"
    and "st = DefaultRoute \<longleftrightarrow> de_default_route (se_decision (settled s)) = Some r"
    and "established st \<longleftrightarrow> (\<exists>h \<in> set (attempts_of s). hd_at h = None \<and> candidate_of h = r)"
proof -
  let ?on = "bt_get (pd_links (place s))" and ?route = "default_route (fst (settle_held s))"
  have st: "bt_get (states_of s) r = Some st"
    using states_upto r by (simp add: st_def settled_decision states_of_def)
  have "(st = Off \<longleftrightarrow> \<not> at_enabled (cands s ! r)) \<and> (established st \<or> verifying st \<longleftrightarrow> (\<exists>i. ?on i = Some r))
      \<and> (st = DefaultRoute \<longleftrightarrow> ?route = Some r)
      \<and> (established st \<longleftrightarrow> (\<exists>h \<in> set (attempts_of s). hd_at h = None \<and> candidate_of h = r))"
  proof (cases "\<exists>i. ?on i = Some r")
    case True
    then obtain i where i: "?on i = Some r" by blast
    then obtain h where h: "bt_get (fst (settle_held s)) i = Some h" "candidate_of h = r" by (rule settle_held_get)
    from states_held [OF h(1)] h(2) st have hs: "st = held_state ?route h" by simp
    have mem: "h \<in> set (attempts_of s)" using h(1) by (auto simp: attempts_iff)
    have only: "k = h" if "k \<in> set (attempts_of s)" "candidate_of k = r" for k
      using distinct_candidates [of s] that mem h(2) by (auto simp: distinct_map inj_on_def)
    have "at_enabled (cands s ! r)" using i place_one_Inr by (auto simp: place_eq links_iff)
    moreover have "?route = Some r \<Longrightarrow> hd_at h = None" using only by (auto simp: default_route_Some)
    moreover have "(\<exists>k \<in> set (attempts_of s). hd_at k = None \<and> candidate_of k = r) \<longleftrightarrow> hd_at h = None"
      using only mem h(2) by blast
    ultimately show ?thesis using True h(2) unfolding hs
      by (cases "hd_at h") (simp_all add: held_state_def established_def verifying_def, metis)
  next
    case False
    then have no: "?on i \<noteq> Some r" for i by blast
    have none: "candidate_of k \<noteq> r" if "k \<in> set (attempts_of s)" for k
    proof -
      from that obtain i where "candidate_on (fst (settle_held s)) i = Some (candidate_of k)"
        by (auto simp: attempts_iff candidate_on_def)
      with no [of i] show ?thesis by (auto simp: candidate_on_settled)
    qed
    from no st have "bt_get (pd_idle (place s)) r = Some st" by (simp add: states_idle)
    then have "place_one s r (cands s ! r) (links_upto s r) = Inl st" by (simp add: place_eq idle_iff)
    from idle_states [OF this] False none show ?thesis
      by (auto simp: established_def verifying_def default_route_Some)
  qed
  then show "st = Off \<longleftrightarrow> \<not> at_enabled (cands s ! r)"
    and "established st \<or> verifying st \<longleftrightarrow> (\<exists>i. up_on (settled s) i = Some r)"
    and "st = DefaultRoute \<longleftrightarrow> de_default_route (se_decision (settled s)) = Some r"
    and "established st \<longleftrightarrow> (\<exists>h \<in> set (attempts_of s). hd_at h = None \<and> candidate_of h = r)"
    unfolding up_on_settled settled_decision by blast+
qed

section \<open>Following the changes\<close>

text \<open>
  What one who follows the changes makes of the decision they knew: the links, the hotspot and the
  route as each change gives them, and the states in place, or in order where none was known.
\<close>

fun apply_change :: "decision \<Rightarrow> change \<Rightarrow> decision" where
  "apply_change d (LinkChange i l) =
     d\<lparr>de_links := (case l of None \<Rightarrow> bt_remove i (de_links d) | Some l \<Rightarrow> bt_insert i l (de_links d))\<rparr>"
| "apply_change d (HotspotChange p) = d\<lparr>de_hotspot := p\<rparr>"
| "apply_change d (DefaultRouteChange r) = d\<lparr>de_default_route := r\<rparr>"
| "apply_change d (StateChange i st) =
     d\<lparr>de_states := (if i < length (de_states d) then (de_states d)[i := st] else de_states d @ [st])\<rparr>"

definition put_links :: "(string \<Rightarrow> link option) \<Rightarrow> string list \<Rightarrow> (string, link) bt \<Rightarrow> (string, link) bt" where
  "put_links f ks m = fold (\<lambda>k m. case f k of None \<Rightarrow> bt_remove k m | Some l \<Rightarrow> bt_insert k l m) ks m"

lemma apply_links: "foldl apply_change d (map (\<lambda>k. LinkChange k (f k)) ks) = d\<lparr>de_links := put_links f ks (de_links d)\<rparr>"
  by (induction ks arbitrary: d) (simp_all add: put_links_def)

lemma put_links_ok: "bt_ok m \<Longrightarrow> bt_ok (put_links f ks m)"
  unfolding put_links_def by (induction ks arbitrary: m) (simp_all split: option.split)

lemma put_links_get: "bt_get (put_links f ks m) k = (if k \<in> set ks then f k else bt_get m k)"
  unfolding put_links_def by (induction ks arbitrary: m) (auto split: option.split)

lemma apply_diff_links:
  assumes old: "bt_ok (de_links d)" and new: "bt_ok new"
  shows "foldl apply_change d (diff_links (de_links d) new) = d\<lparr>de_links := new\<rparr>"
proof -
  define ks where "ks = filter (\<lambda>k. bt_get (de_links d) k \<noteq> bt_get new k)
      (bt_keys (bt_collect (map (\<lambda>k. (k, ())) (bt_keys (de_links d) @ bt_keys new))))"
  have keys: "set (bt_keys (bt_collect (map (\<lambda>k. (k, ())) xs))) = set xs" for xs :: "string list"
  proof -
    have "k \<in> set (bt_keys (bt_collect (map (\<lambda>k. (k, ())) xs))) \<longleftrightarrow> k \<in> set xs" for k
      unfolding bt_has_iff [symmetric] bt_has_def bt_get_collect map_of_eq_None_iff by force
    then show ?thesis by blast
  qed
  have "k \<in> set (bt_keys m) \<longleftrightarrow> bt_get m k \<noteq> None" for k and m :: "(string, link) bt"
    by (simp only: bt_has_iff [symmetric] bt_has_def)
  then have ks: "k \<in> set ks \<longleftrightarrow> bt_get (de_links d) k \<noteq> bt_get new k" for k
    unfolding ks_def set_filter keys set_append mem_Collect_eq Un_iff by metis
  have "diff_links (de_links d) new = map (\<lambda>k. LinkChange k (bt_get new k)) ks"
    by (simp add: diff_links_def ks_def Let_def)
  moreover have "put_links (bt_get new) ks (de_links d) = new"
    by (rule bt_ext) (use old new ks in \<open>auto simp: put_links_ok put_links_get\<close>)
  ultimately show ?thesis by (simp add: apply_links)
qed

lemma apply_states:
  assumes "length old = length new \<or> old = []" and "k \<le> length new" and "de_states d = old"
  shows "foldl apply_change d (map (\<lambda>(i, st). StateChange i st)
      (filter (\<lambda>(i, st). nth_opt old i \<noteq> Some st) (enumerate 0 (take k new)))) 
    = d\<lparr>de_states := (if old = [] then take k new else take k new @ drop k old)\<rparr>"
  using assms(2)
proof (induction k)
  case (Suc k)
  have t: "take (Suc k) new = take k new @ [new ! k]" using Suc.prems by (simp add: take_Suc_conv_app_nth)
  have e: "enumerate 0 (take k new @ [new ! k]) = enumerate 0 (take k new) @ [(k, new ! k)]"
    using Suc.prems by (simp add: enumerate_append_eq)
  show ?case
  proof (cases "old = []")
    case True
    with Suc assms(3) show ?thesis by (simp add: t e nth_opt_def)
  next
    case False
    with assms(1) Suc.prems have k: "k < length old" "drop k old = old ! k # drop (Suc k) old"
      by (simp_all add: Cons_nth_drop_Suc)
    with Suc False assms(3) show ?thesis by (auto simp: t e nth_opt_def list_update_append)
  qed
qed (use assms(3) in \<open>cases d, simp\<close>)

lemma apply_diff:
  assumes "bt_ok (de_links old)" "bt_ok (de_links new)"
    and "length (de_states old) = length (de_states new) \<or> de_states old = []"
  shows "foldl apply_change old (diff old new) = new"
proof -
  have states: "foldl apply_change d (map (\<lambda>(i, st). StateChange i st)
      (filter (\<lambda>(i, st). nth_opt (de_states old) i \<noteq> Some st) (enumerate 0 (de_states new)))) = d\<lparr>de_states := de_states new\<rparr>"
    if "de_states d = de_states old" for d
    using apply_states [OF assms(3), of "length (de_states new)" d] that assms(3) by auto
  show ?thesis
    by (simp add: diff_def apply_diff_links [OF assms(1,2)] states)
qed

section \<open>How attempts are numbered\<close>

abbreviation attempt_of :: "held \<Rightarrow> attempt" where
  "attempt_of h \<equiv> lk_attempt (hd_link h)"

text \<open>The invariant of the fold over the placed candidates: an attempt is an old one or a new number.\<close>

definition numbered :: "selector \<Rightarrow> (string, held) bt \<Rightarrow> u64 \<Rightarrow> bool" where
  "numbered s held n \<longleftrightarrow> unat (se_next_attempt s) \<le> unat n
     \<and> (\<forall>i h. bt_get held i = Some h \<longrightarrow> unat (attempt_of h) \<le> unat n
          \<and> (bt_get (se_held s) i = Some h \<or> unat (se_next_attempt s) < unat (attempt_of h)))
     \<and> (\<forall>i j h k. bt_get held i = Some h \<longrightarrow> bt_get held j = Some k \<longrightarrow> attempt_of h = attempt_of k \<longrightarrow> i = j)"

text \<open>What holds of the attempts of a selector at rest.\<close>

definition attempts_ok :: "selector \<Rightarrow> bool" where
  "attempts_ok s \<longleftrightarrow>
     (\<forall>i h. bt_get (se_held s) i = Some h \<longrightarrow> unat (attempt_of h) \<le> unat (se_next_attempt s))
     \<and> (\<forall>i j h k. bt_get (se_held s) i = Some h \<longrightarrow> bt_get (se_held s) j = Some k \<longrightarrow>
          attempt_of h = attempt_of k \<longrightarrow> i = j)"

lemma unat_next: "unat (n :: u64) + 1 < 2 ^ 64 \<Longrightarrow> unat (n + 1) = unat n + 1"
  by (simp add: unat_word_ariths)

lemma numbered_insert:
  assumes num: "numbered s held n" and "unat n \<le> unat n'" and "unat (attempt_of h) \<le> unat n'"
    and "bt_get (se_held s) i = Some h \<or> unat (se_next_attempt s) < unat (attempt_of h)"
    and "\<And>j k. bt_get held j = Some k \<Longrightarrow> attempt_of k = attempt_of h \<Longrightarrow> j = i"
  shows "numbered s (bt_insert i h held) n'"
  unfolding numbered_def
proof (intro conjI allI impI)
  show "unat (se_next_attempt s) \<le> unat n'" using assms by (simp add: numbered_def)
next
  fix j k assume k: "bt_get (bt_insert i h held) j = Some k"
  show "unat (attempt_of k) \<le> unat n'"
    using assms(2,3) num k by (auto simp: numbered_def split: if_splits intro: order_trans)
  show "bt_get (se_held s) j = Some k \<or> unat (se_next_attempt s) < unat (attempt_of k)"
    using assms(4) num k by (auto simp: numbered_def split: if_splits)
next
  fix j j' k k' assume k: "bt_get (bt_insert i h held) j = Some k" "bt_get (bt_insert i h held) j' = Some k'"
    "attempt_of k = attempt_of k'"
  have "j = j'" if "j \<noteq> i" "j' \<noteq> i" using num that k by (auto simp: numbered_def)
  with k assms(5) [of j k] assms(5) [of j' k'] show "j = j'" by (auto split: if_splits)
qed

lemma numbered_link:
  assumes ok: "attempts_ok s" and num: "numbered s held n" and room: "unat n + 1 < 2 ^ 64"
  shows "numbered s (fst (settle_link s (i, c) (held, n))) (snd (settle_link s (i, c) (held, n)))
    \<and> unat (snd (settle_link s (i, c) (held, n))) \<le> unat n + 1"
proof (cases "\<exists>old. bt_get (se_held s) i = Some old \<and> lk_candidate (hd_link old) = c")
  case True
  then obtain old where old: "bt_get (se_held s) i = Some old" "lk_candidate (hd_link old) = c" by blast
  have low: "unat (attempt_of old) \<le> unat (se_next_attempt s)" using ok old(1) by (auto simp: attempts_ok_def)
  have same: "j = i" if k: "bt_get held j = Some k" "attempt_of k = attempt_of old" for j k
  proof -
    have "bt_get (se_held s) j = Some k" using num k low unfolding numbered_def by (metis not_less)
    with ok old(1) k(2) show ?thesis unfolding attempts_ok_def by blast
  qed
  have "unat (se_next_attempt s) \<le> unat n" using num by (simp add: numbered_def)
  with low old same num have "numbered s (bt_insert i old held) n"
    by (intro numbered_insert [where n = n]) auto
  with old True show ?thesis by (simp add: settle_link_eq)
next
  case False
  let ?h = "\<lparr>hd_link = \<lparr>lk_candidate = c, lk_attempt = n + 1\<rparr>,
      hd_at = stage_next Carrier (is_wireless (at_kind (cands s ! c)))\<rparr>"
  have n: "unat (n + 1) = unat n + 1" using room by (rule unat_next)
  have eq: "settle_link s (i, c) (held, n) = (bt_insert i ?h held, n + 1)"
    using False by (simp add: settle_link_eq)
  have fresh: "attempt_of k \<noteq> n + 1" if "bt_get held j = Some k" for j k
    using num that n unfolding numbered_def by (metis Suc_eq_plus1 Suc_n_not_le_n)
  have "unat (se_next_attempt s) \<le> unat n" using num by (simp add: numbered_def)
  with fresh n num have "numbered s (bt_insert i ?h held) (n + 1)"
    by (intro numbered_insert [where n = n]) auto
  with n eq show ?thesis by simp
qed

lemma numbered_fold:
  assumes ok: "attempts_ok s"
  shows "numbered s held n \<Longrightarrow> unat n + length xs < 2 ^ 64 \<Longrightarrow>
    numbered s (fst (fold (settle_link s) xs (held, n))) (snd (fold (settle_link s) xs (held, n)))
    \<and> unat (snd (fold (settle_link s) xs (held, n))) \<le> unat n + length xs"
proof (induction xs arbitrary: held n)
  case (Cons p xs)
  obtain i c where p: "p = (i, c)" by (cases p)
  obtain held' n' where l: "settle_link s (i, c) (held, n) = (held', n')" by fastforce
  have one: "numbered s held' n'" "unat n' \<le> unat n + 1"
    using numbered_link [OF ok Cons.prems(1), of i c] Cons.prems l by auto
  from Cons.IH [OF one(1)] one(2) Cons.prems p l show ?case by auto
qed simp

text \<open>No more are placed than there are interfaces.\<close>

definition interfaces :: "hardware \<Rightarrow> nat" where
  "interfaces hw = length (hw_wired hw) + length (hw_radios hw)"

lemma links_at_most: "sound hw s \<Longrightarrow> length (pd_links (place s)) \<le> interfaces hw"
proof -
  assume s: "sound hw s"
  have "i \<in> set (hw_wired hw) \<union> rd_station ` set (hw_radios hw)" if "i \<in> fst ` set (pd_links (place s))" for i
  proof -
    from that obtain r where "bt_get (pd_links (place s)) i = Some r"
      using bt_get_None_iff [of "pd_links (place s)" i] by auto
    then have "place_one s r (cands s ! r) (links_upto s r) = Inr i" by (simp add: place_eq links_iff)
    from place_one_Inr [OF this] have "available_on s (cands s ! r) i" by simp
    with s show ?thesis
      by (auto simp: available_on_def sound_def dest!: radios_hearing_radio split: attachment_kind.splits)
  qed
  then have "set (map fst (pd_links (place s))) \<subseteq> set (hw_wired hw @ map rd_station (hw_radios hw))" by auto
  then have "card (set (map fst (pd_links (place s)))) \<le> card (set (hw_wired hw @ map rd_station (hw_radios hw)))"
    by (intro card_mono) auto
  also have "\<dots> \<le> interfaces hw"
    using card_length [of "hw_wired hw @ map rd_station (hw_radios hw)"] by (simp add: interfaces_def)
  finally show ?thesis
    using distinct_card [of "map fst (pd_links (place s))"] by (simp add: place_eq links_ok bt_ok_distinct)
qed

lemma settled_numbered:
  assumes s: "sound hw s" and ok: "attempts_ok s" and room: "unat (se_next_attempt s) + interfaces hw < 2 ^ 64"
  shows "numbered s (se_held (settled s)) (se_next_attempt (settled s))"
    and "unat (se_next_attempt (settled s)) \<le> unat (se_next_attempt s) + interfaces hw"
    and "attempts_ok (settled s)"
proof -
  have n: "numbered s [] (se_next_attempt s)" by (simp add: numbered_def)
  from numbered_fold [OF ok n, of "pd_links (place s)"] links_at_most [OF s] room
  show num: "numbered s (se_held (settled s)) (se_next_attempt (settled s))"
    and "unat (se_next_attempt (settled s)) \<le> unat (se_next_attempt s) + interfaces hw"
    by (auto simp: settle_held_def)
  then show "attempts_ok (settled s)" by (auto simp: numbered_def attempts_ok_def)
qed

section \<open>What an attempt is of\<close>

text \<open>The candidate, as the document has it, that an interface attempts under a number.\<close>

definition attempting :: "selector \<Rightarrow> attempt \<Rightarrow> string \<Rightarrow> attachment \<Rightarrow> bool" where
  "attempting s n i a \<longleftrightarrow>
     (\<exists>h. bt_get (se_held s) i = Some h \<and> attempt_of h = n
        \<and> candidate_of h < length (cands s) \<and> cands s ! candidate_of h = a)"

lemma attempting_settled:
  assumes s: "sound hw s" and ok: "attempts_ok s" and room: "unat (se_next_attempt s) + interfaces hw < 2 ^ 64"
    and at: "attempting (settled s) n i a"
  shows "attempting s n i a \<or> unat (se_next_attempt s) < unat n"
proof -
  from at obtain h where h: "bt_get (se_held (settled s)) i = Some h" "attempt_of h = n"
    "candidate_of h < length (cands s)" "cands s ! candidate_of h = a" by (auto simp: attempting_def)
  with settled_numbered(1) [OF s ok room] show ?thesis by (auto simp: numbered_def attempting_def)
qed

text \<open>What is taken in leaves the attempts as they are.\<close>

lemma bt_get_map_filter:
  assumes "bt_ok (m :: ('k::linorder, 'a) bt)"
  shows "bt_get (List.map_filter (\<lambda>(k, v). map_option (\<lambda>x. (k, f v x)) (g v)) m) k
    = Option.bind (bt_get m k) (\<lambda>v. map_option (f v) (g v))"
  using assms
proof (induction m)
  case (Cons kv m)
  obtain q v where kv: "kv = (q, v)" by (cases kv)
  have "bt_get m q = None" using Cons.prems kv by (auto simp: bt_ok_Cons bt_get_None_iff)
  with Cons kv show ?case by (cases "g v") (auto simp: List.map_filter_simps bt_ok_Cons)
qed (simp add: List.map_filter_simps)

lemma moved_to_Some:
  "nth_opt (moved_to olds new taken) k = Some (Some i) \<Longrightarrow> i < length new \<and> k < length olds \<and> new ! i = olds ! k"
proof (induction olds new taken arbitrary: k rule: moved_to.induct)
  case (2 old olds new taken)
  show ?case
  proof (cases k)
    case 0
    with "2.prems" show ?thesis by (auto simp: nth_opt_def split: option.splits dest!: find_SomeD)
  next
    case (Suc j)
    with "2.prems" have "\<exists>taken'. nth_opt (moved_to olds new taken') j = Some (Some i)
        \<and> (taken' = taken \<and> List.find (\<lambda>i. i \<notin> set taken \<and> new ! i = old) [0..<length new] = None
          \<or> (\<exists>x. taken' = x # taken \<and> List.find (\<lambda>i. i \<notin> set taken \<and> new ! i = old) [0..<length new] = Some x))"
      by (auto simp: nth_opt_def split: option.splits if_splits)
    with "2.IH" Suc show ?thesis by fastforce
  qed
qed (simp add: nth_opt_def)

lemma held_carried:
  assumes "sound hw s" and "bt_get (se_held (carried d s)) i = Some h"
  obtains old where "bt_get (se_held s) i = Some old" "attempt_of h = attempt_of old"
    "candidate_of old < length (cands s)" "candidate_of h < length (dc_attachments d)"
    "dc_attachments d ! candidate_of h = cands s ! candidate_of old"
proof -
  define mv where "mv old = Option.bind (nth_opt (moved_to (cands s) (dc_attachments d) []) old) (\<lambda>x. x)" for old
  have "bt_get (se_held (carried d s)) i
      = Option.bind (bt_get (se_held s) i) (\<lambda>h. map_option (\<lambda>c. h\<lparr>hd_link := (hd_link h)\<lparr>lk_candidate := c\<rparr>\<rparr>) (mv (candidate_of h)))"
    using assms(1) bt_get_map_filter [of "se_held s" "\<lambda>h c. h\<lparr>hd_link := (hd_link h)\<lparr>lk_candidate := c\<rparr>\<rparr>" "\<lambda>h. mv (candidate_of h)" i]
    by (simp add: carried_def Let_def move_held_def sound_def mv_def)
  with assms(2) obtain old c where old: "bt_get (se_held s) i = Some old" and c: "mv (candidate_of old) = Some c"
    and h: "h = old\<lparr>hd_link := (hd_link old)\<lparr>lk_candidate := c\<rparr>\<rparr>"
    by (auto simp: bind_eq_Some_conv)
  from c have "nth_opt (moved_to (cands s) (dc_attachments d) []) (candidate_of old) = Some (Some c)"
    by (auto simp: mv_def bind_eq_Some_conv)
  from moved_to_Some [OF this] old h show thesis by (intro that [of old]) simp_all
qed

lemma carried_attempts:
  assumes s: "sound hw s" and ok: "attempts_ok s"
  shows "attempts_ok (carried d s)" and "attempting (carried d s) n i a \<Longrightarrow> attempting s n i a"
    and "se_next_attempt (carried d s) = se_next_attempt s"
proof -
  show nx: "se_next_attempt (carried d s) = se_next_attempt s" by (simp add: carried_def Let_def)
  show "attempts_ok (carried d s)"
    unfolding attempts_ok_def nx
    using ok by (auto simp: attempts_ok_def elim!: held_carried [OF s])
  have "cands (carried d s) = dc_attachments d" by (simp add: carried_def Let_def)
  then show "attempting (carried d s) n i a \<Longrightarrow> attempting s n i a"
    by (auto simp: attempting_def elim!: held_carried [OF s])
qed

lemma observe_links: "map_option hd_link (bt_get (se_held (observe e s)) i) = map_option hd_link (bt_get (se_held s) i)"
  if "bt_ok (se_held s)"
proof (cases e)
  case (PassedEvent n st)
  show ?thesis
  proof (cases "find_attempt n (se_held s)")
    case (Some p)
    then obtain j h where p: "p = (j, h)" "(j, h) \<in> set (se_held s)"
      by (cases p) (auto simp: find_attempt_def dest!: find_SomeD)
    then have "bt_get (se_held s) j = Some h" using that by (simp add: bt_ok_get_iff)
    with PassedEvent Some p show ?thesis by (simp add: on_passed_def)
  qed (simp add: PassedEvent on_passed_def)
qed (auto simp: on_carrier_def in_range_def on_failed_def on_station_channel_def Let_def split: option.split)

lemma observed_attempts:
  assumes s: "sound hw s" and ok: "attempts_ok s"
  shows "attempts_ok (observe e s)" and "attempting (observe e s) n i a \<Longrightarrow> attempting s n i a"
proof -
  have links: "\<exists>k. bt_get (se_held s) i = Some k \<and> hd_link k = hd_link h" if "bt_get (se_held (observe e s)) i = Some h" for i h
    using observe_links [of s e i] s that by (cases "bt_get (se_held s) i") (simp_all add: sound_def)
  show "attempts_ok (observe e s)"
    unfolding attempts_ok_def observe_keeps
  proof (intro conjI allI impI)
    fix i h assume "bt_get (se_held (observe e s)) i = Some h"
    from links [OF this] ok show "unat (attempt_of h) \<le> unat (se_next_attempt s)"
      unfolding attempts_ok_def by metis
  next
    fix i j h k assume h: "bt_get (se_held (observe e s)) i = Some h" "bt_get (se_held (observe e s)) j = Some k"
      "attempt_of h = attempt_of k"
    from links [OF h(1)] links [OF h(2)] h(3) ok show "i = j" unfolding attempts_ok_def by metis
  qed
  show "attempting (observe e s) n i a \<Longrightarrow> attempting s n i a"
    using links unfolding attempting_def observe_keeps by metis
qed

section \<open>A run of the selector\<close>

definition at_rest :: "hardware \<Rightarrow> selector \<Rightarrow> bool" where
  "at_rest hw s \<longleftrightarrow> sound hw s \<and> attempts_ok s"

lemma at_rest_step:
  assumes rest: "at_rest hw s" and room: "unat (se_next_attempt s) + interfaces hw < 2 ^ 64"
  shows "at_rest hw (sel_run s x)"
    and "unat (se_next_attempt s) \<le> unat (se_next_attempt (sel_run s x))"
    and "unat (se_next_attempt (sel_run s x)) \<le> unat (se_next_attempt s) + interfaces hw"
    and "attempting (sel_run s x) n i a \<Longrightarrow> attempting s n i a \<or> unat (se_next_attempt s) < unat n"
proof -
  have s: "sound hw s" and ok: "attempts_ok s" using rest by (simp_all add: at_rest_def)
  have "at_rest hw (sel_run s x) \<and> unat (se_next_attempt s) \<le> unat (se_next_attempt (sel_run s x))
    \<and> unat (se_next_attempt (sel_run s x)) \<le> unat (se_next_attempt s) + interfaces hw
    \<and> (attempting (sel_run s x) n i a \<longrightarrow> attempting s n i a \<or> unat (se_next_attempt s) < unat n)"
  proof (cases "sel_run s x = s")
    case True
    with rest show ?thesis by simp
  next
    case False
    then obtain t where run: "sel_run s x = settled t" and t: "sound hw t" "attempts_ok t"
      "se_next_attempt t = se_next_attempt s" and at: "attempting t n i a \<longrightarrow> attempting s n i a"
    proof (cases x)
      case (Observes e)
      with that sound_observe [OF s] observed_attempts [OF s ok] show thesis
        unfolding Observes sel_run_Observes by (metis observe_keeps(3))
    next
      case (Configures d)
      with False have "sel_check d (se_hardware s) = None" "sel_run s x = settled (carried d s)"
        unfolding Configures sel_run_Configures by (metis (full_types))+
      with that sound_carried [OF s] carried_attempts [OF s ok] show thesis by metis
    qed
    from room t(3) have room': "unat (se_next_attempt t) + interfaces hw < 2 ^ 64" by simp
    from settled_numbered [OF t(1,2) room'] t(3) sound_settled [OF t(1)] attempting_settled [OF t(1,2) room', of n i a] at
    show ?thesis unfolding run at_rest_def by (auto simp: numbered_def)
  qed
  then show "at_rest hw (sel_run s x)"
    and "unat (se_next_attempt s) \<le> unat (se_next_attempt (sel_run s x))"
    and "unat (se_next_attempt (sel_run s x)) \<le> unat (se_next_attempt s) + interfaces hw"
    and "attempting (sel_run s x) n i a \<Longrightarrow> attempting s n i a \<or> unat (se_next_attempt s) < unat n"
    by simp_all
qed

lemma at_rest_run:
  "at_rest hw s \<Longrightarrow> unat (se_next_attempt s) + length xs * interfaces hw < 2 ^ 64 \<Longrightarrow>
     at_rest hw (foldl sel_run s xs)
     \<and> unat (se_next_attempt s) \<le> unat (se_next_attempt (foldl sel_run s xs))
     \<and> unat (se_next_attempt (foldl sel_run s xs)) \<le> unat (se_next_attempt s) + length xs * interfaces hw
     \<and> (attempting (foldl sel_run s xs) n i a \<longrightarrow> attempting s n i a \<or> unat (se_next_attempt s) < unat n)"
proof (induction xs arbitrary: s)
  case (Cons x xs)
  have room: "unat (se_next_attempt s) + interfaces hw < 2 ^ 64" using Cons.prems(2) by simp
  note step = at_rest_step [OF Cons.prems(1) room, of x]
  from Cons.IH [OF step(1)] step(2-4) Cons.prems(2) show ?case by fastforce
qed simp

lemma attempting_number: "at_rest hw s \<Longrightarrow> attempting s n i a \<Longrightarrow> unat n \<le> unat (se_next_attempt s)"
  by (auto simp: at_rest_def attempts_ok_def attempting_def)

lemma new_at_rest:
  assumes "selector_new hw d = Inr s" and "interfaces hw < 2 ^ 64"
  shows "at_rest hw s \<and> unat (se_next_attempt s) \<le> interfaces hw"
proof -
  let ?t = "selector_blank hw d"
  from assms(1) have s: "s = settled ?t" and t: "sound hw ?t"
    by (auto simp: selector_new_def settle_snd sound_def selector_blank_def bt_has_def split: option.splits)
  have ok: "attempts_ok ?t" and n: "unat (se_next_attempt ?t) = 0"
    by (simp_all add: attempts_ok_def selector_blank_def)
  from n assms(2) have "unat (se_next_attempt ?t) + interfaces hw < 2 ^ 64" by simp
  from settled_numbered [OF t ok this] n sound_settled [OF t] s show ?thesis by (simp add: at_rest_def)
qed

section \<open>Properties\<close>

text \<open>C11. Each interface carries the highest candidate it can. Whatever was observed, what is up afterwards on
  an interface is a candidate that is turned on, has not failed since it was last available, and has
  carrier or is heard there, and it is up nowhere else.  And a candidate that could be used on an
  interface is kept off it only by one at or above it there, by being up on another, or, a wireless one,
  because it would take the last radio the hotspot could run on.\<close>

theorem highest_available_is_up:
  "let s' = snd (sel_handle e s) in
     (\<forall>i r. up_on s' i = Some r \<longrightarrow> usable_on s' r i \<and> (\<forall>j. up_on s' j = Some r \<longrightarrow> j = i))
     \<and> (\<forall>i r. usable_on s' r i \<longrightarrow> (\<exists>r' \<le> r. up_on s' i = Some r') \<or> (\<exists>j. up_on s' j = Some r)
          \<or> is_wireless (at_kind (cands s' ! r)) \<and> last_for_hotspot s' i (up_on s') r)"
  using settled_highest [of "observe e s"]
  unfolding Let_def sel_handle_def settle_snd usable_on_settled last_for_hotspot_settled settled_simps by blast

definition demo_hardware :: hardware where
  "demo_hardware =
     \<lparr>hw_wired = [''eth0''],
      hw_radios = [\<lparr>rd_station = ''wlan0'', rd_access_point = Some OneAtATime\<rparr>,
        \<lparr>rd_station = ''wlan1'', rd_access_point = Some SharedChannel\<rparr>]\<rparr>"

definition demo_wireless :: "string \<Rightarrow> attachment" where
  "demo_wireless ssid =
     \<lparr>at_label = ssid, at_enabled = True, at_verify = True, at_nameservers = [],
      at_kind = Wireless \<lparr>wl_ssid = ssid, wl_security = Sae ''secret'', wl_hidden = None, wl_interface = None,
        wl_bands = []\<rparr>\<rparr>"

definition demo_hotspot :: hotspot where
  "demo_hotspot =
     \<lparr>hs_enabled = True, hs_ssid = ''tamanu'', hs_passphrase = ''secret'', hs_interface = None,
      hs_share_upstream = None, hs_isolate_clients = None, hs_dhcp_range = None, hs_band = None,
      hs_channel = None, hs_channel_width = None\<rparr>"

definition demo_document :: document where
  "demo_document =
     \<lparr>dc_attachments =
        [\<lparr>at_label = ''port'', at_enabled = True, at_verify = True, at_nameservers = [], at_kind = WiredDynamic ''eth0''\<rparr>,
         demo_wireless ''a'', demo_wireless ''b''],
      dc_hotspot = Some demo_hotspot, dc_regulatory_domain = None\<rparr>"

definition demo_selector :: selector where
  "demo_selector = projr (selector_new demo_hardware demo_document)"

definition demo_heard :: "sel_step list" where
  "demo_heard = [Observes (InRangeEvent ''wlan0'' ''a'' (- 40)), Observes (InRangeEvent ''wlan1'' ''b'' (- 50)),
     Observes (CarrierEvent ''eth0'' True)]"

lemmas demo_defs = demo_hardware_def demo_document_def demo_wireless_def demo_hotspot_def

lemma demo_new: "selector_new demo_hardware demo_document = Inr demo_selector"
  by code_simp

theorem highest_available_is_up_witness:
  "up_on (snd (sel_handle (CarrierEvent ''eth0'' True) (foldl sel_run demo_selector (take 2 demo_heard)))) ''eth0'' = Some 0
   \<and> usable_on (snd (sel_handle (CarrierEvent ''eth0'' True) (foldl sel_run demo_selector (take 2 demo_heard)))) 0 ''eth0''"
proof -
  let ?s = "foldl sel_run demo_selector (take 2 demo_heard)"
  have "up_on (snd (sel_handle (CarrierEvent ''eth0'' True) ?s)) ''eth0'' = Some 0" by code_simp
  with highest_available_is_up [of "CarrierEvent ''eth0'' True" ?s] show ?thesis unfolding Let_def by blast
qed

text \<open>C15. The hotspot always has a radio.  However a selector came to be, its hotspot runs exactly when
  one is turned on and some radio may host it, whatever wireless candidates were taken up meanwhile;
  it runs on a radio that may host it, and never on one that carries a wireless client where the radio
  runs only one at a time.\<close>

theorem hotspot_always_has_a_radio:
  fixes steps :: "sel_step list"
  assumes "hardware_ok hw" and "selector_new hw d = Inr s0"
  defines "s \<equiv> foldl sel_run s0 steps"
  defines "hosts \<equiv> (case enabled_hotspot (se_document s) of None \<Rightarrow> [] | Some h \<Rightarrow> hotspot_hosts hw (se_document s) h)"
  shows "(de_hotspot (se_decision s) \<noteq> None \<longleftrightarrow> hosts \<noteq> [])
    \<and> (\<forall>p. de_hotspot (se_decision s) = Some p \<longrightarrow>
        (\<exists>r \<in> set hosts. rd_station r = pl_radio p \<and> (rd_access_point r = Some OneAtATime \<longrightarrow> up_on s (pl_radio p) = None)))"
proof -
  obtain t where t: "sound hw t" and s: "s = settled t"
    using reached_well [OF assms(2), of steps] unfolding s_def settled_well_def by blast
  show ?thesis
    unfolding hosts_def s settled_simps
    by (intro conjI allI impI) (simp only: settled_hotspot(1) [OF t assms(1)], rule settled_hotspot(2) [OF t assms(1)])
qed

theorem hotspot_always_has_a_radio_witness:
  "\<exists>p. de_hotspot (se_decision (foldl sel_run demo_selector demo_heard)) = Some p"
proof -
  let ?s = "foldl sel_run demo_selector demo_heard"
  have hw: "hardware_ok demo_hardware" by code_simp
  have "(case enabled_hotspot (se_document ?s) of None \<Rightarrow> [] | Some h \<Rightarrow> hotspot_hosts demo_hardware (se_document ?s) h) \<noteq> []"
    by code_simp
  with hotspot_always_has_a_radio [OF hw demo_new, of demo_heard] show ?thesis by blast
qed

text \<open>A selector at rest stays at rest.  However it came to be, settling it again changes nothing: so
  a report against an attempt that is no longer held changes nothing and answers no changes, whether it
  passed or failed, and neither does a stage that the attempt is not waiting for, nor the document
  already in force, which is never refused.\<close>

lemma stale_reports_change_nothing:
  fixes steps :: "sel_step list"
  assumes "selector_new hw d = Inr s0"
  defines "s \<equiv> foldl sel_run s0 steps"
  shows "(\<forall>n. (\<forall>i l. bt_get (de_links (se_decision s)) i = Some l \<longrightarrow> lk_attempt l \<noteq> n) \<longrightarrow>
        (\<forall>st member reason. sel_handle (PassedEvent n st) s = ([], s) \<and> sel_handle (FailedEvent n st member reason) s = ([], s)))
    \<and> (\<forall>i h n st. find_attempt n (se_held s) = Some (i, h) \<and> hd_at h \<noteq> Some st \<longrightarrow> sel_handle (PassedEvent n st) s = ([], s))
    \<and> configure (se_document s) s = Inr ([], s)"
proof -
  obtain t where t: "sound hw t" and s: "s = settled t"
    using reached_well [OF assms(1), of steps] unfolding s_def settled_well_def by blast
  have rest: "settle s = ([], s)" unfolding s by (rule settle_settled)
  have gone: "find_attempt n (se_held s) = None"
    if "\<forall>i l. bt_get (de_links (se_decision s)) i = Some l \<longrightarrow> lk_attempt l \<noteq> n" for n
  proof (rule ccontr)
    assume "find_attempt n (se_held s) \<noteq> None"
    then obtain i h where "find_attempt n (se_held s) = Some (i, h)" by auto
    then have "(i, h) \<in> set (se_held s)" "attempt_of h = n" by (auto simp: find_attempt_def dest!: find_SomeD)
    then have "bt_get (se_held s) i = Some h" "attempt_of h = n" by (simp_all add: s bt_ok_get_iff)
    then have "bt_get (de_links (se_decision s)) i = Some (hd_link h)" "attempt_of h = n"
      by (simp_all add: s links_settled)
    with that show False by blast
  qed
  have "sel_check (se_document s) (se_hardware s) = None" using t by (simp add: s sound_def)
  then show ?thesis
    by (auto simp: sel_handle_def on_passed_def on_failed_def rest configure_eq dest!: gone)
qed

text \<open>C32. An attempt is one candidate's, on one interface, and is never taken up again.  As long as no more
  than 2 to the 64 can have been numbered, an attempt under a number given by some point of a selector's life, held at a
  later point, was held at the earlier one too, for the same candidate of the document on the same
  interface; so one superseded never comes back, and a late report is never taken for another's.\<close>

theorem attempts_are_never_reused:
  fixes before later :: "sel_step list"
  assumes "selector_new hw d = Inr s0" and "(length before + length later + 1) * interfaces hw < 2 ^ 64"
  defines "s \<equiv> foldl sel_run s0 before" and "s' \<equiv> foldl sel_run s0 (before @ later)"
  shows "(\<forall>n i a. attempting s' n i a \<and> unat n \<le> unat (se_next_attempt s) \<longrightarrow> attempting s n i a)
    \<and> (\<forall>n i a. attempting s n i a \<longrightarrow> unat n \<le> unat (se_next_attempt s))
    \<and> (\<forall>n i j a b. attempting s n i a \<and> attempting s' n j b \<longrightarrow> i = j \<and> a = b)"
proof -
  have "interfaces hw < 2 ^ 64" using assms(2) by (simp add: algebra_simps)
  from new_at_rest [OF assms(1) this] have r0: "at_rest hw s0" "unat (se_next_attempt s0) \<le> interfaces hw" by simp_all
  with assms(2) have "unat (se_next_attempt s0) + length before * interfaces hw < 2 ^ 64" by (simp add: algebra_simps)
  note b = at_rest_run [OF r0(1) this]
  have "at_rest hw s" "unat (se_next_attempt s) \<le> unat (se_next_attempt s0) + length before * interfaces hw"
    unfolding s_def using b by simp_all
  with r0(2) have r: "at_rest hw s" "unat (se_next_attempt s) \<le> interfaces hw + length before * interfaces hw" by simp_all
  with assms(2) have "unat (se_next_attempt s) + length later * interfaces hw < 2 ^ 64" by (simp add: algebra_simps)
  from at_rest_run [OF r(1) this] have earlier: "attempting s' n i a \<Longrightarrow> unat n \<le> unat (se_next_attempt s) \<Longrightarrow> attempting s n i a" for n i a
    by (fastforce simp: s'_def s_def)
  have one: "i = j \<and> a = b" if "attempting s n i a" "attempting s n j b" for n i j a b
    using r(1) that unfolding at_rest_def attempts_ok_def attempting_def by fastforce
  from earlier one attempting_number [OF r(1)] show ?thesis by blast
qed

theorem attempts_are_never_reused_witness:
  "\<not> attempting (foldl sel_run demo_selector (demo_heard @ [Observes (CarrierEvent ''eth0'' False), Observes (CarrierEvent ''eth0'' True)]))
       3 ''eth0'' (dc_attachments demo_document ! 0)
   \<and> attempting (foldl sel_run demo_selector demo_heard) 3 ''eth0'' (dc_attachments demo_document ! 0)"
proof -
  let ?off = "[Observes (CarrierEvent ''eth0'' False)]" and ?on = "[Observes (CarrierEvent ''eth0'' True)]"
  let ?s = "foldl sel_run demo_selector demo_heard"
  have room: "(length (demo_heard @ ?off) + length ?on + 1) * interfaces demo_hardware < 2 ^ 64"
    by (simp add: demo_heard_def interfaces_def demo_hardware_def)
  have gone: "bt_get (se_held (foldl sel_run demo_selector (demo_heard @ ?off))) ''eth0'' = None"
    and nx: "3 \<le> se_next_attempt (foldl sel_run demo_selector (demo_heard @ ?off))"
    and held: "bt_get (se_held ?s) ''eth0'' = Some \<lparr>hd_link = \<lparr>lk_candidate = 0, lk_attempt = 3\<rparr>, hd_at = Some Addressing\<rparr>"
    and doc: "cands ?s = dc_attachments demo_document" and some: "0 < length (dc_attachments demo_document)"
    by code_simp+
  from nx have "unat (3 :: u64) \<le> unat (se_next_attempt (foldl sel_run demo_selector (demo_heard @ ?off)))"
    by (simp only: word_le_nat_alt)
  moreover from gone have "\<not> attempting (foldl sel_run demo_selector (demo_heard @ ?off)) 3 ''eth0'' (dc_attachments demo_document ! 0)"
    by (simp add: attempting_def)
  ultimately have "\<not> attempting (foldl sel_run demo_selector ((demo_heard @ ?off) @ ?on)) 3 ''eth0'' (dc_attachments demo_document ! 0)"
    using attempts_are_never_reused [OF demo_new room] by blast
  moreover have "attempting ?s 3 ''eth0'' (dc_attachments demo_document ! 0)"
    using held doc some by (simp add: attempting_def)
  ultimately show ?thesis by simp
qed

text \<open>C34. What a selector says of its candidates is what is up.  However it came to be, it has a state for each
  candidate of the document in order; one is off exactly when it is turned off, up or being verified
  exactly when an interface brings it up, and carries the default route exactly when the decision says
  so.  The default route is the highest established candidate, and there is none exactly when no
  candidate is established.\<close>

theorem states_say_what_is_up:
  fixes steps :: "sel_step list"
  assumes "selector_new hw d = Inr s0"
  defines "s \<equiv> foldl sel_run s0 steps"
  shows "length (de_states (se_decision s)) = length (cands s)
    \<and> (\<forall>r < length (cands s).
         (de_states (se_decision s) ! r = Off \<longleftrightarrow> \<not> at_enabled (cands s ! r))
         \<and> (established (de_states (se_decision s) ! r) \<or> verifying (de_states (se_decision s) ! r) \<longleftrightarrow> (\<exists>i. up_on s i = Some r))
         \<and> (de_states (se_decision s) ! r = DefaultRoute \<longleftrightarrow> de_default_route (se_decision s) = Some r))
    \<and> (\<forall>r. de_default_route (se_decision s) = Some r \<longleftrightarrow>
         r < length (cands s) \<and> established (de_states (se_decision s) ! r) \<and> (\<forall>r' < r. \<not> established (de_states (se_decision s) ! r')))"
proof -
  obtain t where s: "s = settled t"
    using reached_well [OF assms(1), of steps] unfolding s_def settled_well_def by blast
  have len: "length (de_states (se_decision s)) = length (cands s)"
    using states_upto [of t] by (simp add: s settled_decision states_of_def)
  have inside: "candidate_of h < length (cands t)" if "h \<in> set (attempts_of t)" for h
  proof -
    from that obtain i where "candidate_on (fst (settle_held t)) i = Some (candidate_of h)"
      by (auto simp: attempts_iff candidate_on_def)
    then show ?thesis by (simp add: candidate_on_settled place_eq links_iff)
  qed
  have "de_default_route (se_decision s) = Some r \<longleftrightarrow> r < length (cands s)
      \<and> established (de_states (se_decision s) ! r) \<and> (\<forall>r' < r. \<not> established (de_states (se_decision s) ! r'))" for r
  proof
    assume route: "de_default_route (se_decision s) = Some r"
    then have r: "\<exists>h \<in> set (attempts_of t). hd_at h = None \<and> candidate_of h = r"
      and least: "\<forall>h \<in> set (attempts_of t). hd_at h = None \<longrightarrow> r \<le> candidate_of h"
      by (simp_all add: s settled_decision default_route_Some)
    from r inside have lt: "r < length (cands t)" by blast
    have "\<not> established (de_states (se_decision s) ! r')" if "r' < r" for r'
      using settled_states(4) [of r' t] that lt least unfolding s by fastforce
    with lt r settled_states(4) [of r t]
    show "r < length (cands s) \<and> established (de_states (se_decision s) ! r) \<and> (\<forall>r' < r. \<not> established (de_states (se_decision s) ! r'))"
      unfolding s settled_simps by blast
  next
    assume r: "r < length (cands s) \<and> established (de_states (se_decision s) ! r) \<and> (\<forall>r' < r. \<not> established (de_states (se_decision s) ! r'))"
    then have "\<exists>h \<in> set (attempts_of t). hd_at h = None \<and> candidate_of h = r"
      using settled_states(4) [of r t] unfolding s settled_simps by blast
    moreover have "r \<le> candidate_of h" if "h \<in> set (attempts_of t)" "hd_at h = None" for h
      using settled_states(4) [of "candidate_of h" t] inside [OF that(1)] that r unfolding s settled_simps
      by (metis not_less)
    ultimately have "default_route (fst (settle_held t)) = Some r" unfolding default_route_Some by blast
    then show "de_default_route (se_decision s) = Some r" by (simp add: s settled_decision)
  qed
  then show ?thesis using len settled_states(1-3) [of _ t] unfolding s settled_simps by blast
qed

theorem states_say_what_is_up_witness:
  "let s = foldl sel_run demo_selector (demo_heard @ [Observes (PassedEvent 3 Addressing), Observes (PassedEvent 3 Gateway)]) in
     length (de_states (se_decision s)) = 3 \<and> (\<exists>r. de_default_route (se_decision s) = Some r \<and> established (de_states (se_decision s) ! r))"
proof -
  let ?steps = "demo_heard @ [Observes (PassedEvent 3 Addressing), Observes (PassedEvent 3 Gateway)]"
  have n: "length (cands (foldl sel_run demo_selector ?steps)) = 3"
    and route: "de_default_route (se_decision (foldl sel_run demo_selector ?steps)) = Some 0" by code_simp+
  show ?thesis
    using states_say_what_is_up [OF demo_new, of ?steps] route unfolding Let_def n by blast
qed

lemma settled_links_ok: "bt_ok (de_links (se_decision (settled s)))"
  by (simp add: settled_decision bt_ok_map_snd)

lemma settled_states_length: "length (de_states (se_decision (settled s))) = length (cands s)"
  using states_upto [of s] by (simp add: settled_decision states_of_def)

lemma diff_differs:
  assumes "c \<in> set (diff old new)"
  shows "apply_change old c \<noteq> old"
proof -
  have link: "apply_change old (LinkChange k l) \<noteq> old" if "bt_get (de_links old) k \<noteq> l" for k l
  proof
    assume "apply_change old (LinkChange k l) = old"
    then have "bt_get (de_links (apply_change old (LinkChange k l))) k = bt_get (de_links old) k" by simp
    with that show False by (cases l) auto
  qed
  have state: "apply_change old (StateChange i st) \<noteq> old" if "nth_opt (de_states old) i \<noteq> Some st" for i st
  proof
    assume "apply_change old (StateChange i st) = old"
    then have "de_states (apply_change old (StateChange i st)) = de_states old" by simp
    with that show False by (auto simp: nth_opt_def split: if_splits) (metis nth_list_update_eq)
  qed
  have whole: "old\<lparr>de_hotspot := p\<rparr> \<noteq> old" if "de_hotspot old \<noteq> p" for p
    using that by (metis decision.select_convs(2) decision.surjective decision.update_convs(2))
  have route: "old\<lparr>de_default_route := p\<rparr> \<noteq> old" if "de_default_route old \<noteq> p" for p
    using that by (metis decision.select_convs(3) decision.surjective decision.update_convs(3))
  from assms link state whole route show ?thesis
    by (auto simp: diff_def diff_links_def Let_def simp del: apply_change.simps(1,4) split: if_splits)
qed

text \<open>C33. The changes reported are exactly the decision's.  One who knew a selector's decision and follows
  the changes an observation answers has the decision that is in force afterwards, and none of them
  is idle; and one who forgets the states when another document is configured, as every state is
  reported then, has the decision in force after it too.\<close>

theorem changes_carry_the_decision:
  fixes steps :: "sel_step list"
  assumes "selector_new hw d = Inr s0"
  defines "s \<equiv> foldl sel_run s0 steps"
  shows "foldl apply_change (se_decision s) (fst (sel_handle e s)) = se_decision (snd (sel_handle e s))
    \<and> (\<forall>c \<in> set (fst (sel_handle e s)). apply_change (se_decision s) c \<noteq> se_decision s)
    \<and> (case configure d' s of Inl _ \<Rightarrow> True
       | Inr (changes, s') \<Rightarrow>
           foldl apply_change (if d' = se_document s then se_decision s else (se_decision s)\<lparr>de_states := []\<rparr>) changes
             = se_decision s')"
proof -
  obtain t where s: "s = settled t"
    using reached_well [OF assms(1), of steps] unfolding s_def settled_well_def by blast
  have links: "bt_ok (de_links (se_decision s))" by (simp add: s settled_links_ok)
  have handle: "sel_handle e s = (diff (se_decision s) (se_decision (settled (observe e s))), settled (observe e s))"
    using settle_fst [of "observe e s"] by (intro prod_eqI) (simp_all add: sel_handle_def settle_snd)
  have "foldl apply_change (se_decision s) (fst (sel_handle e s)) = se_decision (snd (sel_handle e s))"
    unfolding handle fst_conv snd_conv
    by (rule apply_diff) (simp_all only: links settled_links_ok settled_states_length observe_keeps, simp add: s settled_states_length)
  moreover have "\<forall>c \<in> set (fst (sel_handle e s)). apply_change (se_decision s) c \<noteq> se_decision s"
    unfolding handle fst_conv using diff_differs by blast
  moreover have "foldl apply_change ((se_decision s)\<lparr>de_states := []\<rparr>) (fst (settle (carried d' s))) = se_decision (snd (settle (carried d' s)))"
  proof -
    have "se_decision (carried d' s) = (se_decision s)\<lparr>de_states := []\<rparr>" by (simp add: carried_def Let_def)
    then show ?thesis
      unfolding settle_fst settle_snd by (simp only:) (intro apply_diff, simp_all add: links settled_links_ok)
  qed
  ultimately show ?thesis by (auto simp: configure_eq split: option.split prod.split)
qed

theorem changes_carry_the_decision_witness:
  "let s = foldl sel_run demo_selector (take 2 demo_heard); e = CarrierEvent ''eth0'' True in
     fst (sel_handle e s) = [LinkChange ''eth0'' (Some \<lparr>lk_candidate = 0, lk_attempt = 3\<rparr>), StateChange 0 (VerifyingAt Addressing)]
     \<and> foldl apply_change (se_decision s) (fst (sel_handle e s)) = se_decision (snd (sel_handle e s))"
proof -
  have "fst (sel_handle (CarrierEvent ''eth0'' True) (foldl sel_run demo_selector (take 2 demo_heard)))
      = [LinkChange ''eth0'' (Some \<lparr>lk_candidate = 0, lk_attempt = 3\<rparr>), StateChange 0 (VerifyingAt Addressing)]" by code_simp
  with changes_carry_the_decision [OF demo_new, of "take 2 demo_heard" "CarrierEvent ''eth0'' True"]
  show ?thesis unfolding Let_def by blast
qed

end
