(* ===== verification/Run_Liveness.thy ===== *)
theory Run_Liveness
  imports Run_System
begin

text \<open>
  That a run ends: how often its task is let on at most, whatever the steps do and whatever the device
  does beside it, and that a run left to itself with every step passing comes to its end with
  everything chosen carried out.
\<close>

section \<open>What lets a task move on\<close>

text \<open>
  What a task waits for at its place: the medium, the step it carries out, or nothing.  A step that
  uses its context, or a wait that is not over yet, lets nothing on.
\<close>

fun lets_on :: "drive_pc \<Rightarrow> drive_env \<Rightarrow> bool" where
  "lets_on Over env = False"
| "lets_on (Asking (i # due)) env = (case env of Uses _ \<Rightarrow> False | _ \<Rightarrow> True)"
| "lets_on (Keeping i) env = (case env of Keeps _ \<Rightarrow> True | _ \<Rightarrow> False)"
| "lets_on KeepingPassed env = (case env of Keeps _ \<Rightarrow> True | _ \<Rightarrow> False)"
| "lets_on KeepingFailed env = (case env of Keeps _ \<Rightarrow> True | _ \<Rightarrow> False)"
| "lets_on (Carrying i) env = (case env of Ends _ \<Rightarrow> True | _ \<Rightarrow> False)"
| "lets_on Forgetting env = (case env of Clears _ \<Rightarrow> True | _ \<Rightarrow> False)"
| "lets_on pc env = True"

text \<open>The moves of a run of moves in which the task is let on.\<close>

fun moved_on :: "u64 \<Rightarrow> (string \<times> drive_env) list \<Rightarrow> drive_pc \<Rightarrow> inner \<Rightarrow> nat" where
  "moved_on g [] pc s = 0"
| "moved_on g ((err, env) # xs) pc s =
     (let (pc', s') = drive_move err g env pc s
      in (if lets_on pc env then 1 else 0) + moved_on g xs pc' s')"

fun drive_all :: "u64 \<Rightarrow> (string \<times> drive_env) list \<Rightarrow> drive_pc \<Rightarrow> inner \<Rightarrow> drive_pc \<times> inner" where
  "drive_all g [] pc s = (pc, s)"
| "drive_all g ((err, env) # xs) pc s = (let (pc', s') = drive_move err g env pc s in drive_all g xs pc' s')"

section \<open>The measure\<close>

definition pending :: "inner \<Rightarrow> nat" where
  "pending s = count_list (states (in_model s)) StepPending"

fun left_at :: "nat \<Rightarrow> drive_pc \<Rightarrow> nat" where
  "left_at n Over = 0"
| "left_at n KeepingFailed = 1"
| "left_at n Forgetting = 1"
| "left_at n Finishing = 2"
| "left_at n (Failing i reason) = 2"
| "left_at n Beginning = 3"
| "left_at n (Asking due) = 4 + length due"
| "left_at n Top = n + 5"
| "left_at n KeepingPassed = n + 6"
| "left_at n (Judging i ended) = n + 7"
| "left_at n (Ended i ended) = n + 8"
| "left_at n (Carrying i) = n + 9"
| "left_at n (Keeping i) = n + 10"

definition left :: "drive_pc \<Rightarrow> inner \<Rightarrow> nat" where
  "left pc s = pending s * (length (in_steps s) + 8) + left_at (length (in_steps s)) pc"

lemma count_list_update_le:
  "x \<noteq> y \<Longrightarrow> count_list (xs[i := y]) x \<le> count_list xs x"
  by (induction xs arbitrary: i) (auto split: nat.split)

lemma count_list_update_less:
  "i < length xs \<Longrightarrow> xs ! i = x \<Longrightarrow> x \<noteq> y \<Longrightarrow> count_list (xs[i := y]) x + 1 = count_list xs x"
proof (induction xs arbitrary: i)
  case (Cons z zs)
  then show ?case by (cases i) auto
qed simp

lemma states_on_step_any: "(\<And>e. en_state (f e) = en_state e) \<Longrightarrow> states (on_step i f m) = states m"
  by (cases "i < length (md_steps m)")
    (simp_all add: states_def on_step_def map_update list_update_beyond, metis length_map list_update_id nth_map)

lemma states_set_step: "(\<And>e. en_state (f e) = st) \<Longrightarrow> states (on_step i f m) = (states m)[i := st]"
  by (simp add: states_def on_step_def map_update)

text \<open>A use of the context leaves the states of the steps.\<close>

lemma states_mutate:
  "(\<And>m. states (snd (f m)) = states m) \<Longrightarrow> states (in_model (snd (mutate g f s))) = states (in_model s)"
  by (simp add: mutate_def case_prod_unfold Let_def)

lemma ctx_step_states: "states (in_model (ctx_step g i op s)) = states (in_model s)"
proof -
  have take: "states (snd (take_text k d m)) = states m" for k d m
    by (simp add: take_text_def close_key_def split: option.split)
  have need: "states (snd (need_answer i key kind words channel m)) = states m" for i key kind words channel m
    by (simp add: need_answer_def split: option.split)
  have later: "states (ask_later i q m) = states m" for i q m by (simp add: ask_later_def Let_def)
  have noted: "states (snd (notice i k words m)) = states m" for i k words m by (simp add: notice_def Let_def)
  show ?thesis
    by (cases op) (auto simp: ctx_progress_def ctx_result_def ctx_need_def ctx_ask_later_def ctx_take_text_def
        ctx_forget_def ctx_notice_def notice_drop_def case_prod_unfold Let_def close_def forget_def take need later noted
        intro!: states_mutate states_on_step_any split: option.split)
qed

lemma ctx_step_steps: "in_steps (ctx_step g i op s) = in_steps s"
  by (cases op) (simp_all add: ctx_progress_def ctx_result_def ctx_need_def ctx_ask_later_def ctx_take_text_def
      ctx_forget_def ctx_notice_def notice_drop_def mutate_def case_prod_unfold Let_def split: option.split)

lemma pending_ctx [simp]: "pending (ctx_step g i op s) = pending s"
  by (simp add: pending_def ctx_step_states)

lemma mutate_steps [simp]: "in_steps (snd (mutate g f s)) = in_steps s"
  by (simp add: mutate_def case_prod_unfold Let_def)

lemma pending_mutate_le:
  "(\<And>m. count_list (states (snd (f m))) StepPending \<le> count_list (states m) StepPending) \<Longrightarrow>
     pending (snd (mutate g f s)) \<le> pending s"
  by (simp add: mutate_def pending_def case_prod_unfold Let_def)

lemma record_run_keeps [simp]:
  "in_steps (snd (record_run g outcome s)) = in_steps s" "in_model (snd (record_run g outcome s)) = in_model s"
  by (simp_all add: record_run_def case_prod_unfold Let_def split: option.split)

lemma forget_run_keeps [simp]:
  "in_steps (forget_run g ok s) = in_steps s" "in_model (forget_run g ok s) = in_model s"
  by (simp_all add: forget_run_def split: option.split)

lemma pending_record [simp]: "pending (snd (record_run g outcome s)) = pending s"
  and pending_forget [simp]: "pending (forget_run g ok s) = pending s"
  by (simp_all add: pending_def)

lemma pending_set_step:
  "(\<And>e. en_state (f e) = st) \<Longrightarrow> st \<noteq> StepPending \<Longrightarrow>
     count_list (states (on_step i f m)) StepPending \<le> count_list (states m) StepPending"
  by (simp add: states_set_step count_list_update_le)

lemma pending_pass: "pending (snd (mutate g (\<lambda>m. ((), pass_step i m)) s)) \<le> pending s"
  by (rule pending_mutate_le) (simp add: pass_step_def pending_set_step)

lemma pending_fail: "pending (snd (mutate g (\<lambda>m. ((), fail_step i reason m)) s)) \<le> pending s"
  by (rule pending_mutate_le) (simp add: fail_step_def pending_set_step)

lemma pending_release: "pending (snd (mutate g (\<lambda>m. ((), release i m)) s)) \<le> pending s"
  by (rule pending_mutate_le) (simp add: release_def)

lemma pending_finish: "pending (snd (mutate g (\<lambda>m. ((), finish m)) s)) \<le> pending s"
  by (rule pending_mutate_le) simp

lemma begin_next_Some:
  assumes "fst (begin_next m) = Some i"
  shows "i < length (md_steps m)" and "states m ! i = StepPending"
    and "states (snd (begin_next m)) = (states m)[i := StepRunning]"
proof -
  from assms have i: "next_step m = Some i" by (simp add: begin_next_def split: option.splits)
  then show lt: "i < length (md_steps m)" and "states m ! i = StepPending"
    by (auto simp: next_step_def states_def dest: position_SomeD)
  show "states (snd (begin_next m)) = (states m)[i := StepRunning]"
    by (simp add: begin_next_def i states_set_step)
qed

lemma begin_next_None:
  "fst (begin_next m) = None \<longleftrightarrow> StepPending \<notin> set (states m)"
  "fst (begin_next m) = None \<Longrightarrow> snd (begin_next m) = m"
proof -
  have "next_step m = None \<longleftrightarrow> StepPending \<notin> set (states m)"
    by (simp add: next_step_def position_None_iff states_def image_iff) metis
  then show "fst (begin_next m) = None \<longleftrightarrow> StepPending \<notin> set (states m)"
    by (cases "next_step m") (simp_all add: begin_next_def)
  show "fst (begin_next m) = None \<Longrightarrow> snd (begin_next m) = m"
    by (simp add: begin_next_def split: option.splits)
qed

lemma left_le:
  assumes "pending s' \<le> pending s" and "in_steps s' = in_steps s"
  shows "left_at (length (in_steps s)) pc' \<le> left_at (length (in_steps s)) pc \<Longrightarrow> left pc' s' \<le> left pc s"
    and "left_at (length (in_steps s)) pc' < left_at (length (in_steps s)) pc \<Longrightarrow> left pc' s' < left pc s"
  using mult_le_mono1 [OF assms(1), of "length (in_steps s) + 8"] unfolding left_def assms(2) by linarith+

lemma left_beginning:
  "left (fst (drive_move err g env Beginning s)) (snd (drive_move err g env Beginning s)) < left Beginning s"
proof (cases "md_generation (in_model s) = g")
  case True
  note mutated = mutate_current [OF True, of begin_next]
  show ?thesis
  proof (cases "fst (begin_next (in_model s))")
    case None
    with mutated begin_next_None(2) [OF None]
    have "drive_move err g env Beginning s = (Finishing, publish (s\<lparr>in_model := in_model s\<rparr>))" by simp
    then show ?thesis by (simp add: left_le pending_def)
  next
    case (Some i)
    note new = begin_next_Some [OF Some]
    let ?s = "publish (s\<lparr>in_model := snd (begin_next (in_model s))\<rparr>)" and ?n = "length (in_steps s) + 8"
    have lt: "i < length (states (in_model s))" using new(1) by simp
    then have "pending ?s + 1 = pending s"
      using count_list_update_less [OF lt new(2)] by (simp add: pending_def new(3))
    then have "pending ?s * ?n + ?n = pending s * ?n" by (metis mult.commute mult_Suc_right Suc_eq_plus1 add.commute)
    moreover have "drive_move err g env Beginning s = (Keeping i, ?s)" using mutated Some by simp
    ultimately show ?thesis by (simp add: left_def)
  qed
next
  case False
  then show ?thesis by (simp add: mutate_stale left_le)
qed

lemma due_at_most: "length (due_to_ask s) \<le> length (in_steps s)"
proof -
  have "length (filter P (filter Q [0..<n])) \<le> n" for P Q and n :: nat
    using length_filter_le [of P "filter Q [0..<n]"] length_filter_le [of Q "[0..<n]"] by simp
  then show ?thesis unfolding due_to_ask_def Let_def .
qed

text \<open>A move never leaves more to do, and one that is let on leaves less.\<close>

lemma left_moved:
  assumes "left_at (length (in_steps s)) pc' < left_at (length (in_steps s)) pc" "pending s' \<le> pending s" "in_steps s' = in_steps s"
  shows "left pc' s' \<le> left pc s \<and> (b \<longrightarrow> left pc' s' < left pc s)"
  using left_le [OF assms(2,3)] assms(1) by simp

lemma left_stays: "pending s' \<le> pending s \<Longrightarrow> in_steps s' = in_steps s \<Longrightarrow> left pc s' \<le> left pc s"
  by (rule left_le) simp_all

lemma left_move:
  "left (fst (drive_move err g env pc s)) (snd (drive_move err g env pc s)) \<le> left pc s
    \<and> (lets_on pc env \<longrightarrow> left (fst (drive_move err g env pc s)) (snd (drive_move err g env pc s)) < left pc s)"
proof (cases "(err, g, env, pc, s)" rule: drive_move.cases)
  case (1 err g env s)
  then show ?thesis using due_at_most [of s]
    by (cases "md_generation (in_model s) = g") (simp_all add: left_le)
next
  case (2 err g env s)
  then show ?thesis by (simp add: left_le)
next
  case (3 err g env i due s)
  then show ?thesis by (cases env) (simp_all add: left_le left_stays ctx_step_steps)
next
  case (4 err g env s)
  with left_beginning [of err g env s] show ?thesis by auto
next
  case (5 err g env i s)
  then show ?thesis by (cases env) (simp_all add: case_prod_unfold Let_def left_le left_stays)
next
  case (6 err g env i s)
  then show ?thesis by (cases env) (simp_all add: left_le left_stays ctx_step_steps)
next
  case (7 err g env i ended s)
  with pending_release [of g i s] show ?thesis by (simp add: left_le)
next
  case (8 err g env i s)
  with pending_pass [of g i s] show ?thesis
    by (cases "fst (mutate g (\<lambda>m. ((), pass_step i m)) s)") (simp_all add: case_prod_unfold left_le)
next
  case (11 err g env s)
  then show ?thesis by (cases env) (simp_all add: left_le left_stays)
next
  case (12 err g env i reason s)
  with pending_fail [of g i reason s] show ?thesis
    by (cases "fst (mutate g (\<lambda>m. ((), fail_step i reason m)) s)") (simp_all add: case_prod_unfold left_le)
next
  case (13 err g env s)
  then show ?thesis by (cases env) (simp_all add: left_le left_stays)
next
  case (14 err g env s)
  with pending_finish [of g s] show ?thesis
    by (cases "fst (mutate g (\<lambda>m. ((), finish m)) s)") (simp_all add: case_prod_unfold left_le)
next
  case (15 err g env s)
  then show ?thesis by (cases env) (simp_all add: left_le left_stays)
qed (simp_all add: left_le)

lemma moved_on_le: "moved_on g xs pc s \<le> left pc s"
proof (induction xs arbitrary: pc s)
  case (Cons x xs)
  obtain err env where x: "x = (err, env)" by (cases x)
  with left_move [of err g env pc s] Cons.IH [of "fst (drive_move err g env pc s)" "snd (drive_move err g env pc s)"]
  show ?case by (auto simp: case_prod_unfold Let_def)
qed simp

section \<open>A run left to itself\<close>

text \<open>What a task waits for, coming out well.\<close>

fun goes_well :: "drive_pc \<Rightarrow> drive_env \<Rightarrow> bool" where
  "goes_well (Keeping i) env = (case env of Keeps outcome \<Rightarrow> outcome = Saved | _ \<Rightarrow> False)"
| "goes_well (Carrying i) env = (case env of Ends outcome \<Rightarrow> outcome = StepOk | _ \<Rightarrow> False)"
| "goes_well Forgetting env = (case env of Clears ok \<Rightarrow> ok | _ \<Rightarrow> False)"
| "goes_well pc env = lets_on pc env"

text \<open>Every move goes well until the task is over.\<close>

fun all_well :: "u64 \<Rightarrow> (string \<times> drive_env) list \<Rightarrow> drive_pc \<Rightarrow> inner \<Rightarrow> bool" where
  "all_well g [] pc s = True"
| "all_well g ((err, env) # xs) pc s =
     ((pc = Over \<or> goes_well pc env) \<and> (let (pc', s') = drive_move err g env pc s in all_well g xs pc' s'))"

lemma goes_well_lets_on: "goes_well pc env \<Longrightarrow> lets_on pc env"
  by (cases "(pc, env)" rule: goes_well.cases) (auto split: drive_env.splits)

definition all_passed :: "step_state list \<Rightarrow> step_state list" where
  "all_passed = map (\<lambda>st. if st = StepPending then StepPassed else st)"

text \<open>How far a run has got from where it began: each step as it was, or passed where it was pending.\<close>

definition on_the_way :: "step_state list \<Rightarrow> step_state list \<Rightarrow> bool" where
  "on_the_way st0 st \<longleftrightarrow> length st = length st0
     \<and> (\<forall>j < length st0. st ! j = st0 ! j \<or> st0 ! j = StepPending \<and> st ! j = StepPassed)"

lemma on_the_way_end: "on_the_way st0 st \<Longrightarrow> StepPending \<notin> set st \<Longrightarrow> st = all_passed st0"
  by (rule nth_equalityI) (auto simp: on_the_way_def all_passed_def in_set_conv_nth)

lemma on_the_way_refl [simp]: "on_the_way st st"
  by (simp add: on_the_way_def)

definition carrying :: "step_state list \<Rightarrow> nat \<Rightarrow> step_state list \<Rightarrow> bool" where
  "carrying st0 i st \<longleftrightarrow> i < length st0 \<and> st0 ! i = StepPending \<and> on_the_way st0 (st[i := StepPassed])"

fun well :: "step_state list \<Rightarrow> drive_pc \<Rightarrow> run_state \<Rightarrow> step_state list \<Rightarrow> bool" where
  "well st0 (Keeping i) run st = (run = RunRunning \<and> carrying st0 i st)"
| "well st0 (Carrying i) run st = (run = RunRunning \<and> carrying st0 i st)"
| "well st0 (Ended i ended) run st = (ended = StepOk \<and> run = RunRunning \<and> carrying st0 i st)"
| "well st0 (Judging i ended) run st = (ended = StepOk \<and> run = RunRunning \<and> carrying st0 i st)"
| "well st0 Finishing run st = (run = RunRunning \<and> st = all_passed st0)"
| "well st0 Forgetting run st = (run = RunFinished \<and> st = all_passed st0)"
| "well st0 Over run st = (run = RunFinished \<and> st = all_passed st0)"
| "well st0 (Failing i reason) run st = False"
| "well st0 KeepingFailed run st = False"
| "well st0 pc run st = (run = RunRunning \<and> on_the_way st0 st)"

definition runs_well :: "u64 \<Rightarrow> step_state list \<Rightarrow> drive_pc \<Rightarrow> inner \<Rightarrow> bool" where
  "runs_well g st0 pc s \<longleftrightarrow> md_generation (in_model s) = g
     \<and> well st0 pc (md_state (in_model s)) (states (in_model s))
     \<and> (pc = Over \<longrightarrow> (\<forall>kept. in_store s = Some kept \<longrightarrow> kept = None))"

lemma mutated_fields:
  assumes "md_generation (in_model s) = g"
  shows "fst (mutate g f s) = Some (fst (f (in_model s)))"
    and "in_model (snd (mutate g f s)) = snd (f (in_model s))"
    and "in_store (snd (mutate g f s)) = in_store s"
  by (simp_all add: mutate_current [OF assms])

lemma runs_well_beginning:
  assumes "runs_well g st0 Beginning s"
  shows "runs_well g st0 (fst (drive_move err g env Beginning s)) (snd (drive_move err g env Beginning s))"
proof -
  from assms have g: "md_generation (in_model s) = g" and run: "md_state (in_model s) = RunRunning"
    and way: "on_the_way st0 (states (in_model s))" by (simp_all add: runs_well_def)
  note mutated = mutated_fields [OF g, of begin_next]
  show ?thesis
  proof (cases "fst (begin_next (in_model s))")
    case None
    with mutated begin_next_None(2) [OF None] begin_next_None(1) [of "in_model s"] on_the_way_end [OF way] g run
    show ?thesis by (simp add: runs_well_def case_prod_unfold)
  next
    case (Some i)
    note new = begin_next_Some [OF Some]
    have i: "i < length st0" "states (in_model s) ! i = StepPending" using new way by (simp_all add: on_the_way_def)
    then have pend: "st0 ! i = StepPending" using way by (auto simp: on_the_way_def)
    have "on_the_way st0 ((states (in_model s))[i := StepPassed])"
      using way i(1) pend by (simp add: on_the_way_def nth_list_update)
    with i(1) pend have "carrying st0 i (states (snd (begin_next (in_model s))))" by (simp add: carrying_def new(3))
    moreover have "md_generation (snd (begin_next m)) = md_generation m" "md_state (snd (begin_next m)) = md_state m" for m
      by (simp_all add: begin_next_def split: option.split)
    ultimately show ?thesis using mutated Some g run by (simp add: runs_well_def case_prod_unfold)
  qed
qed

lemma runs_well_record:
  "runs_well g st0 pc s \<Longrightarrow> well st0 pc' (md_state (in_model s)) (states (in_model s)) \<Longrightarrow> pc' \<noteq> Over \<Longrightarrow>
     runs_well g st0 pc' (snd (record_run g outcome s))"
  by (simp add: runs_well_def)

lemma record_saved: "fst (record_run g Saved s)"
  by (simp add: record_run_def case_prod_unfold Let_def split: option.split)

lemma runs_well_move:
  assumes ok: "runs_well g st0 pc s" and env: "pc = Over \<or> goes_well pc env"
  shows "runs_well g st0 (fst (drive_move err g env pc s)) (snd (drive_move err g env pc s))"
proof -
  have g: "md_generation (in_model s) = g" using ok by (simp add: runs_well_def)
  note mutated = mutated_fields [OF g]
  show ?thesis
  proof (cases pc)
    case (Asking due)
    with ok env show ?thesis by (cases due; cases env) (auto simp: runs_well_def)
  next
    case Beginning
    with runs_well_beginning ok show ?thesis by blast
  next
    case (Keeping i)
    with env have "env = Keeps Saved" by (cases env) simp_all
    with Keeping ok record_saved [of g s] show ?thesis
      by (simp add: case_prod_unfold Let_def runs_well_def)
  next
    case (Carrying i)
    with ok env show ?thesis by (cases env) (simp_all add: runs_well_def)
  next
    case (Ended i ended)
    have "states (release i m) = states m" "md_state (release i m) = md_state m" "md_generation (release i m) = md_generation m" for m
      by (simp_all add: release_def)
    with Ended ok mutated [of "\<lambda>m. ((), release i m)"] show ?thesis by (simp add: runs_well_def)
  next
    case (Judging i ended)
    with ok have e: "ended = StepOk" and c: "carrying st0 i (states (in_model s))" by (simp_all add: runs_well_def)
    then have "states (pass_step i (in_model s)) = (states (in_model s))[i := StepPassed]"
      by (intro states_pass_step) (auto simp: carrying_def on_the_way_def)
    moreover have "fst (mutate g (\<lambda>m. ((), pass_step i m)) s) = Some ()"
      using mutated(1) [of "\<lambda>m. ((), pass_step i m)"] by simp
    ultimately show ?thesis using Judging e c ok mutated [of "\<lambda>m. ((), pass_step i m)"]
      by (simp add: runs_well_def case_prod_unfold carrying_def)
  next
    case KeepingPassed
    with ok env show ?thesis by (cases env) (auto simp: runs_well_def)
  next
    case Finishing
    moreover have "md_state (finish m) = RunFinished" "md_generation (finish m) = md_generation m" for m
      by (simp_all add: finish_def)
    ultimately show ?thesis using ok mutated [of "\<lambda>m. ((), finish m)"]
      by (simp add: runs_well_def case_prod_unfold)
  next
    case Forgetting
    with ok env g show ?thesis
      by (cases env) (auto simp: runs_well_def forget_run_def store_clear_def split: option.split)
  qed (use ok g in \<open>auto simp: runs_well_def\<close>)
qed

lemma well_all:
  "runs_well g st0 pc s \<Longrightarrow> all_well g xs pc s \<Longrightarrow>
     runs_well g st0 (fst (drive_all g xs pc s)) (snd (drive_all g xs pc s))
     \<and> (fst (drive_all g xs pc s) = Over \<or> moved_on g xs pc s = length xs)"
proof (induction xs arbitrary: pc s)
  case (Cons x xs)
  obtain err env where x: "x = (err, env)" by (cases x)
  let ?m = "drive_move err g env pc s"
  have "runs_well g st0 (fst ?m) (snd ?m)" using Cons.prems x by (intro runs_well_move) auto
  moreover have "all_well g xs (fst ?m) (snd ?m)" using Cons.prems(2) x by (simp add: case_prod_unfold Let_def)
  ultimately have ih: "runs_well g st0 (fst (drive_all g xs (fst ?m) (snd ?m))) (snd (drive_all g xs (fst ?m) (snd ?m)))
     \<and> (fst (drive_all g xs (fst ?m) (snd ?m)) = Over \<or> moved_on g xs (fst ?m) (snd ?m) = length xs)"
    by (rule Cons.IH)
  have over: "fst (drive_all g xs Over t) = Over" for t
    by (induction xs arbitrary: t) (auto simp: case_prod_unfold Let_def)
  show ?case
  proof (cases "pc = Over")
    case True
    with ih over show ?thesis by (simp add: x case_prod_unfold Let_def)
  next
    case False
    with Cons.prems(2) x have "lets_on pc env" using goes_well_lets_on by auto
    with ih show ?thesis by (simp add: x case_prod_unfold Let_def)
  qed
qed simp

section \<open>A task beside everything else the device does\<close>

text \<open>
  How often the task \<open>i\<close> is let on in a run of the device's events, whatever other events come between.
\<close>

fun let_on :: "nat \<Rightarrow> inner \<Rightarrow> engine_event list \<Rightarrow> nat" where
  "let_on i s [] = 0"
| "let_on i s (e # es) =
     (case e of
        Moves j err env \<Rightarrow>
          (if j = i \<and> i < length (in_tasks s) \<and> lets_on (tk_pc (in_tasks s ! i)) env then 1 else 0)
      | _ \<Rightarrow> 0) + let_on i (engine_step s e) es"

fun reboots :: "engine_event \<Rightarrow> bool" where
  "reboots (Reboots load cleared) = True"
| "reboots e = False"

text \<open>What is left to do of a task: of a run that has ended, only to notice.\<close>

definition left_of :: "nat \<Rightarrow> inner \<Rightarrow> nat" where
  "left_of i s =
     (if tk_generation (in_tasks s ! i) = md_generation (in_model s) then pending s * (length (in_steps s) + 8) else 0)
     + left_at (length (in_steps s)) (tk_pc (in_tasks s ! i))"

lemma left_of_same:
  assumes "tk_generation (in_tasks s' ! i) = tk_generation (in_tasks s ! i)"
    and "left_at (length (in_steps s)) (tk_pc (in_tasks s' ! i)) \<le> left_at (length (in_steps s)) (tk_pc (in_tasks s ! i))"
    and "in_steps s' = in_steps s" and "states (in_model s') = states (in_model s)"
    and "md_generation (in_model s') = md_generation (in_model s)"
  shows "left_of i s' \<le> left_of i s"
  using assms by (simp add: left_of_def pending_def)

lemma left_of_ended:
  assumes "in_tasks s' = in_tasks s" and "in_steps s' = in_steps s"
    and "tk_generation (in_tasks s ! i) \<noteq> md_generation (in_model s')"
  shows "left_of i s' \<le> left_of i s"
  using assms by (simp add: left_of_def)

lemma left_of_moves:
  assumes ok: "engine_ok s" and i: "i < length (in_tasks s)"
  shows "left_of i (engine_step s (Moves j err env)) + let_on i s [Moves j err env] \<le> left_of i s"
proof (cases "j < length (in_tasks s) \<and> tk_pc (in_tasks s ! j) \<noteq> Over")
  case True
  then have j: "j < length (in_tasks s)" by simp
  define t where "t = in_tasks s ! j"
  define pc' where "pc' = fst (drive_move err (tk_generation t) env (tk_pc t) s)"
  define s' where "s' = snd (drive_move err (tk_generation t) env (tk_pc t) s)"
  have step: "engine_step s (Moves j err env) = s'\<lparr>in_tasks := (in_tasks s')[j := t\<lparr>tk_pc := pc'\<rparr>]\<rparr>"
    using j by (simp add: t_def pc'_def s'_def Let_def case_prod_unfold)
  note less = left_move [of err "tk_generation t" env "tk_pc t" s, folded pc'_def s'_def]
  have ts: "tasks_ok (in_tasks s) (in_acts s) (in_model s)" using ok by (simp add: engine_ok_def)
  show ?thesis
  proof (cases "tk_generation t = md_generation (in_model s)")
    case False
    then have s': "s' = s" by (simp add: s'_def drive_move_stale)
    with less have "left_at (length (in_steps s)) pc' \<le> left_at (length (in_steps s)) (tk_pc t)
        \<and> (lets_on (tk_pc t) env \<longrightarrow> left_at (length (in_steps s)) pc' < left_at (length (in_steps s)) (tk_pc t))"
      by (simp add: left_def)
    with False i j show ?thesis unfolding step s'
      by (cases "j = i") (auto simp: left_of_def t_def pending_def)
  next
    case current: True
    have m: "in_steps s' = in_steps s" "in_tasks s' = in_tasks s" "md_generation (in_model s') = md_generation (in_model s)"
      using current_moved(2) [OF ok j] current True by (simp_all add: t_def s'_def moved_def)
    show ?thesis
    proof (cases "j = i")
      case same: True
      from less have "left pc' s' \<le> left (tk_pc t) s" "lets_on (tk_pc t) env \<Longrightarrow> left pc' s' < left (tk_pc t) s"
        by simp_all
      then show ?thesis using current i same m unfolding step
        by (cases "lets_on (tk_pc t) env") (simp_all add: left_of_def left_def t_def pending_def)
    next
      case other: False
      then have "tk_generation (in_tasks s ! i) \<noteq> md_generation (in_model s)"
        using tasks_ok_at(3) [OF ts j _ i] current by (auto simp: t_def)
      with m other show ?thesis unfolding step by (simp add: left_of_def)
    qed
  qed
next
  case False
  then have "engine_step s (Moves j err env) = s" using dropped_moves [of s j err env] by (cases "j < length (in_tasks s)") auto
  moreover have "let_on i s [Moves j err env] = 0" using False i by auto
  ultimately show ?thesis by simp
qed

lemma acted_generation:
  "md_generation (in_model (snd (act_step act s))) = md_generation (in_model s) + 1
     \<or> md_generation (in_model (snd (act_step act s))) = md_generation (in_model s)
       \<and> states (in_model (snd (act_step act s))) = states (in_model s)"
proof (cases "fst (act_step act s)")
  case (Inl refusal)
  then have "snd (act_step act s) = s" by (rule act_decided [THEN conjunct1, rule_format])
  then show ?thesis by simp
next
  case (Inr u)
  then obtain kind where kind: "act_read (ac_act act) = Some kind" "accepted_in kind (model_run (in_model s))"
    by (auto simp: act_step_def Let_def split: option.splits if_splits)
  show ?thesis
  proof (cases kind)
    case AnswerAct
    obtain r m sent where ans: "answer_prompt (ac_prompt act) (ac_value act) (in_model s) = (r, m, sent)"
      by (metis prod.exhaust)
    then have "same_run (in_model s) m"
      by (auto simp: answer_prompt_def Let_def same_run_def split: option.splits if_splits)
    then show ?thesis using kind AnswerAct ans
      by (auto simp: act_step_def Let_def same_run_def split: sum.split)
  next
    case RetryAct
    have "md_generation (snd (retry m)) = md_generation m + 1
        \<or> md_generation (snd (retry m)) = md_generation m \<and> states (snd (retry m)) = states m" for m
      by (simp add: retry_def Let_def split: option.split)
    with RetryAct kind show ?thesis by (simp add: act_step_def Let_def)
  qed (use kind Inr in \<open>auto simp: act_step_def Let_def split: if_splits sum.splits\<close>)
qed

lemma acted_tasks:
  "in_tasks (snd (act_step act s)) = in_tasks s" "in_steps (snd (act_step act s)) = in_steps s"
proof -
  have "in_tasks (snd (act_step act s)) = in_tasks s \<and> in_steps (snd (act_step act s)) = in_steps s"
    by (cases "answer_prompt (ac_prompt act) (ac_value act) (in_model s)"; cases "fst (answer_prompt (ac_prompt act) (ac_value act) (in_model s))")
      (simp_all add: act_step_def Let_def split: option.split act_kind.split sum.split)
  then show "in_tasks (snd (act_step act s)) = in_tasks s" "in_steps (snd (act_step act s)) = in_steps s" by simp_all
qed

lemma left_of_others:
  assumes ok: "engine_ok s" and i: "i < length (in_tasks s)" and room: "unat (md_generation (in_model s)) < 2 ^ 64 - 1"
  shows "left_of i (engine_step s (Asks act)) \<le> left_of i s" and "left_of i (engine_step s (Dropped j)) \<le> left_of i s"
    and "left_of i (engine_step s (Follows j cleared)) \<le> left_of i s"
    and "left_of i (engine_step s (Determines checks)) \<le> left_of i s"
proof -
  have ts: "tasks_ok (in_tasks s) (in_acts s) (in_model s)" using ok by (simp add: engine_ok_def)
  have "tk_generation (in_tasks s ! i) \<in> set (run_gens (in_tasks s) (in_acts s))"
    using i by (auto simp: in_run_gens)
  with ts have le: "unat (tk_generation (in_tasks s ! i)) \<le> unat (md_generation (in_model s))"
    unfolding tasks_ok_def by blast
  show "left_of i (engine_step s (Asks act)) \<le> left_of i s"
    using acted_generation [of act s]
  proof
    assume g: "md_generation (in_model (snd (act_step act s))) = md_generation (in_model s) + 1"
    then have "unat (md_generation (in_model (snd (act_step act s)))) = unat (md_generation (in_model s)) + 1"
      using room by (simp add: unat_word_ariths)
    with le have "tk_generation (in_tasks s ! i) \<noteq> md_generation (in_model (snd (act_step act s)))" by auto
    then show ?thesis by (intro left_of_ended) (simp_all add: acted_tasks)
  next
    assume "md_generation (in_model (snd (act_step act s))) = md_generation (in_model s)
       \<and> states (in_model (snd (act_step act s))) = states (in_model s)"
    then show ?thesis by (intro left_of_same) (simp_all add: acted_tasks)
  qed
  show "left_of i (engine_step s (Dropped j)) \<le> left_of i s"
    using i by (intro left_of_same) (auto simp: nth_list_update)
  show "left_of i (engine_step s (Determines checks)) \<le> left_of i s"
    using determines_same [OF ok, of checks] by (intro left_of_same) (auto simp: determine_def Let_def same_run_def)
  have "tk_generation (in_tasks (snd (act_move cleared a s)) ! i) = tk_generation (in_tasks s ! i)
      \<and> tk_pc (in_tasks (snd (act_move cleared a s)) ! i) = tk_pc (in_tasks s ! i)" for a
  proof (cases a)
    case (Aborting g)
    then show ?thesis using i by (cases "in_task s = Some i") (auto simp: abort_task_def split: option.split)
  qed (use i in \<open>simp_all add: spawn_task_def hold_task_def forget_run_def nth_append split: option.split\<close>)
  then show "left_of i (engine_step s (Follows j cleared)) \<le> left_of i s"
    by (intro left_of_same) (simp_all add: case_prod_unfold Let_def)
qed

lemma tasks_stay:
  "\<not> reboots e \<Longrightarrow> engine_ok s \<Longrightarrow> i < length (in_tasks s) \<Longrightarrow> i < length (in_tasks (engine_step s e))"
proof (cases e)
  case (Moves j err env)
  assume ok: "engine_ok s" and i: "i < length (in_tasks s)"
  show ?thesis
  proof (cases "j < length (in_tasks s) \<and> tk_pc (in_tasks s ! j) \<noteq> Over")
    case True
    let ?t = "in_tasks s ! j"
    have "in_tasks (snd (drive_move err (tk_generation ?t) env (tk_pc ?t) s)) = in_tasks s"
    proof (cases "tk_generation ?t = md_generation (in_model s)")
      case current: True
      with current_moved(2) [OF ok _ current] True show ?thesis by (auto simp: moved_def)
    qed (simp add: drive_move_stale)
    with Moves True i show ?thesis by (simp add: case_prod_unfold Let_def)
  next
    case False
    with Moves i dropped_moves [of s j err env] show ?thesis by (cases "j < length (in_tasks s)") auto
  qed
next
  case (Follows j cleared)
  assume i: "i < length (in_tasks s)"
  have "i < length (in_tasks (snd (act_move cleared a s)))" for a
    using i by (cases a) (simp_all add: spawn_task_def hold_task_def forget_run_def split: option.split)
  with Follows i show ?thesis by (simp add: case_prod_unfold Let_def)
qed (auto simp: acted_tasks determine_def Let_def)

lemma let_on_left:
  assumes "engine_ok s" and "i < length (in_tasks s)" and "unat (md_generation (in_model s)) + length es < 2 ^ 64"
    and "list_all (\<lambda>e. \<not> reboots e) es"
  shows "let_on i s es + left_of i (foldl engine_step s es) \<le> left_of i s"
  using assms
proof (induction es arbitrary: s)
  case (Cons e es)
  have room: "unat (md_generation (in_model s)) < 2 ^ 64 - 1" using Cons.prems(3) by simp
  have e: "left_of i (engine_step s e) + let_on i s [e] \<le> left_of i s"
    using left_of_moves [OF Cons.prems(1,2)] left_of_others [OF Cons.prems(1,2) room] Cons.prems(4)
    by (cases e) (auto simp del: engine_step.simps)
  have "engine_ok (engine_step s e)" "unat (md_generation (in_model (engine_step s e))) \<le> unat (md_generation (in_model s)) + 1"
    using device.metered_inv [OF Cons.prems(1) room] device.metered_next [OF Cons.prems(1) room] by auto
  then have "let_on i (engine_step s e) es + left_of i (foldl engine_step (engine_step s e) es) \<le> left_of i (engine_step s e)"
    using Cons.prems tasks_stay [of e s i] by (intro Cons.IH) auto
  with e show ?case by (simp del: engine_step.simps)
qed simp

text \<open>C29. A task never goes on for ever, whatever the device does beside it.  From any state a device comes to,
  a task at the top of its loop is let on - by the medium answering, its step ending, or its own next
  change - at most as often as a bound that only the steps of the run give, however long the device
  goes on with acts, other tasks, determinations and aborts in between, as long as it is not rebooted;
  and until the task is over it has been let on less often than that.\<close>

theorem task_terminates:
  fixes steps store built load cleared es0 es i
  assumes "distinct (map st_id steps)" and "store = None \<or> store = Some None" and "length es0 + length es < 2 ^ 64 - 2"
  defines "s \<equiv> foldl engine_step (engine_start steps store built load cleared) es0"
  assumes "i < length (in_tasks s)" and "tk_pc (in_tasks s ! i) = Top" and "list_all (\<lambda>e. \<not> reboots e) es"
  shows "let_on i s es \<le> count_list (states (in_model s)) StepPending * (length (in_steps s) + 8) + length (in_steps s) + 5
    \<and> (tk_pc (in_tasks (foldl engine_step s es) ! i) \<noteq> Over \<longrightarrow>
       let_on i s es < count_list (states (in_model s)) StepPending * (length (in_steps s) + 8) + length (in_steps s) + 5)"
proof -
  have start: "engine_ok (engine_start steps store built load cleared) \<and>
    unat (md_generation (in_model (engine_start steps store built load cleared))) \<le> 1"
    using assms(1,2) by (intro engine_start_ok) auto
  then have "engine_ok s \<and> unat (md_generation (in_model s)) \<le> 1 + length es0"
    unfolding s_def using device.metered_run [of "engine_start steps store built load cleared" es0] assms(3) by fastforce
  with assms(3,5,7) have all: "let_on i s es + left_of i (foldl engine_step s es) \<le> left_of i s"
    by (intro let_on_left) auto
  have "left_of i s \<le> count_list (states (in_model s)) StepPending * (length (in_steps s) + 8) + length (in_steps s) + 5"
    using assms(6) by (simp add: left_of_def pending_def)
  moreover have "left_of i s' \<noteq> 0" if "tk_pc (in_tasks s' ! i) \<noteq> Over" for s'
    using that by (cases "tk_pc (in_tasks s' ! i)") (simp_all add: left_of_def)
  ultimately show ?thesis using all by fastforce
qed

definition beside :: "engine_event list" where
  "beside =
     [Moves 0 [] Go, Follows 0 True, Moves 0 [] Go, Determines (\<lambda>_. None), Moves 0 [] Go, Moves 0 [] (Keeps Saved),
      Moves 0 [] (Uses (CtxNeed ''wipe'' Confirm ''Wipe the disk?'' 0)),
      Asks \<lparr>ac_act = ''answer'', ac_steps = None, ac_prompt = Some ''p0'', ac_value = Some (JBool True)\<rparr>,
      Moves 0 [] (Ends StepOk), Moves 0 [] Go, Moves 0 [] Go, Moves 0 [] (Keeps Saved),
      Moves 0 [] Go, Moves 0 [] Go, Moves 0 [] Go, Moves 0 [] (Keeps Saved), Moves 0 [] (Ends (StepErr ''no name'')),
      Moves 0 [] Go, Moves 0 [] Go, Moves 0 [] Go,
      Asks \<lparr>ac_act = ''retry'', ac_steps = None, ac_prompt = None, ac_value = None\<rparr>, Follows 0 True, Follows 0 True,
      Moves 1 [] Go, Moves 0 [] (Keeps Saved), Moves 0 [] Go]"

theorem task_terminates_witness:
  "let s = foldl engine_step (engine_start example_steps (Some None) (2026, 1, 1) Loaded True)
             [Asks (start_of [''name'', ''disk'']), Follows 0 True];
       s' = foldl engine_step s beside
   in let_on 0 s beside \<le> 27 \<and> tk_pc (in_tasks s' ! 0) = Over \<and> map tk_pc (in_tasks s') = [Over, Asking []]"
proof -
  let ?es = "[Asks (start_of [''name'', ''disk'']), Follows 0 True]"
  let ?s = "foldl engine_step (engine_start example_steps (Some None) (2026, 1, 1) Loaded True) ?es"
  have d: "distinct (map st_id example_steps)" by code_simp
  have n: "length ?es + length beside < 2 ^ 64 - 2" by (simp add: beside_def)
  have len: "length (in_tasks ?s) = 1" and top: "tk_pc (in_tasks ?s ! 0) = Top"
    and es: "list_all (\<lambda>e. \<not> reboots e) beside"
    and st: "states (in_model ?s) = [StepPending, StepPending]" and steps: "length (in_steps ?s) = 2"
    by code_simp+
  have "0 < length (in_tasks ?s)" unfolding len by simp
  note bound = task_terminates [OF d _ n this top es, THEN conjunct1]
  have at: "count_list [StepPending, StepPending] StepPending * (2 + 8) + 2 + 5 = (27::nat)" by simp
  have "let_on 0 ?s beside \<le> 27" using bound unfolding st steps at by blast
  moreover have "tk_pc (in_tasks (foldl engine_step ?s beside) ! 0) = Over"
    "map tk_pc (in_tasks (foldl engine_step ?s beside)) = [Over, Asking []]" by code_simp+
  ultimately show ?thesis by (simp only: Let_def)
qed

text \<open>C28. A run left to itself comes to its end.  From the start or the resumption of a run, moves that all
  go well, as many as the bound, finish it: every step that was pending has passed, every other is as it
  was, the run is finished and nothing of it is left on the medium.\<close>

theorem run_left_alone_finishes:
  assumes "md_generation (in_model s) = g" and "md_state (in_model s) = RunRunning" and "all_well g xs Top s"
    and "length xs > count_list (states (in_model s)) StepPending * (length (in_steps s) + 8) + length (in_steps s) + 5"
  defines "s' \<equiv> snd (drive_all g xs Top s)"
  shows "fst (drive_all g xs Top s) = Over \<and> md_state (in_model s') = RunFinished
    \<and> states (in_model s') = map (\<lambda>st. if st = StepPending then StepPassed else st) (states (in_model s))
    \<and> (\<forall>kept. in_store s' = Some kept \<longrightarrow> kept = None)"
proof -
  have "runs_well g (states (in_model s)) Top s" using assms(1,2) by (simp add: runs_well_def)
  from well_all [OF this assms(3)] moved_on_le [of g xs Top s] assms(4)
  have "fst (drive_all g xs Top s) = Over" "runs_well g (states (in_model s)) Over s'"
    by (auto simp: left_def pending_def s'_def)
  then show ?thesis by (simp add: runs_well_def all_passed_def)
qed

definition left_alone :: "(string \<times> drive_env) list" where
  "left_alone =
     (let carried = [Go, Go, Go, Keeps Saved, Ends StepOk, Go, Go, Keeps Saved]
      in map (\<lambda>env. ('''', env)) (carried @ carried @ [Go, Go, Go, Go, Clears True] @ replicate 8 Go))"

definition example_started :: inner where
  "example_started = snd (act_step \<lparr>ac_act = ''start'', ac_steps = Some [''disk'', ''name''], ac_prompt = None, ac_value = None\<rparr>
     example_engine)"

theorem run_left_alone_finishes_witness:
  "let s = snd (drive_all 1 left_alone Top example_started) in
     states (in_model example_started) = [StepPending, StepPending]
     \<and> states (in_model s) = [StepPassed, StepPassed] \<and> md_state (in_model s) = RunFinished"
proof -
  have st: "states (in_model example_started) = [StepPending, StepPending]"
    and g: "md_generation (in_model example_started) = 1" and run: "md_state (in_model example_started) = RunRunning"
    and well: "all_well 1 left_alone Top example_started"
    and n: "length (in_steps example_started) = 2" and len: "length left_alone = 29"
    by code_simp+
  have "length left_alone > count_list (states (in_model example_started)) StepPending * (length (in_steps example_started) + 8)
      + length (in_steps example_started) + 5"
    by (simp add: st n len)
  from run_left_alone_finishes [OF g run well this] st show ?thesis by (simp add: Let_def)
qed

end
