(* ===== verification/Envelope.thy ===== *)
theory Envelope
  imports Config
begin

text \<open>
  The application message envelope, \<open>crates/bliti-core/src/channel/envelope.rs\<close>: how a message read
  off a stream is told apart as one to act on, one to pass over, one to refuse, and a fault that
  closes the stream.  The JSON reader and writer (\<open>serde_json\<close>) are parameters, and so is the set of
  messages, the trait \<open>MessageSet\<close>, as a record of its functions.  A \<open>BTreeSet\<close> is the map in key
  order with nothing at the keys.
\<close>

section \<open>Names\<close>

definition ascii_between :: "nat \<Rightarrow> nat \<Rightarrow> char \<Rightarrow> bool" where
  "ascii_between a b c \<longleftrightarrow> a \<le> (of_char c :: nat) \<and> (of_char c :: nat) \<le> b"

definition is_ascii_lowercase :: "char \<Rightarrow> bool" where "is_ascii_lowercase = ascii_between 97 122"
definition is_ascii_uppercase :: "char \<Rightarrow> bool" where "is_ascii_uppercase = ascii_between 65 90"
definition is_ascii_digit :: "char \<Rightarrow> bool" where "is_ascii_digit = ascii_between 48 57"

definition ascii_lower :: "char \<Rightarrow> char" where
  "ascii_lower c = (if is_ascii_uppercase c then char_of (of_char c + 32 :: nat) else c)"

definition ascii_upper :: "char \<Rightarrow> char" where
  "ascii_upper c = (if is_ascii_lowercase c then char_of (of_char c - 32 :: nat) else c)"

definition to_ascii_lowercase :: "string \<Rightarrow> string" where "to_ascii_lowercase = map ascii_lower"
definition to_ascii_uppercase :: "string \<Rightarrow> string" where "to_ascii_uppercase = map ascii_upper"

definition name_char :: "char \<Rightarrow> bool" where
  "name_char c \<longleftrightarrow> is_ascii_lowercase c \<or> is_ascii_uppercase c \<or> is_ascii_digit c \<or> c = CHR ''-''"

definition classify :: "string \<Rightarrow> bool option" where
  "classify name =
     (if name = [] then None
      else if \<not> list_all name_char name then None
      else let has_lower = list_ex is_ascii_lowercase name; has_upper = list_ex is_ascii_uppercase name
           in if has_lower \<and> has_upper then None else Some has_upper)"

section \<open>Faults and readings\<close>

datatype env_fault =
    NotUtf8
  | NotJson string
  | NotObject
  | MalformedName string
  | DuplicateName string
  | NoType
  | TypeNotString
  | CriticalNotAllowed string string
  | CriticalRequired string string
  | Malformed string string

datatype refused_for = CriticalType string | CriticalMembers string "string list"

datatype 'm reading = Message 'm | Skipped string | Refused refused_for

datatype criticality = Unconstrained | Exactly "string list"

text \<open>The trait \<open>MessageSet\<close>: the types known, what is pinned critical and written so, and the type's own JSON.\<close>

record 'm message_set =
  ms_known :: "string list"
  ms_criticality :: "string \<Rightarrow> criticality"
  ms_critical :: "string \<Rightarrow> string list"
  ms_read :: "json \<Rightarrow> string + 'm"
  ms_write :: "'m \<Rightarrow> json"

definition ms_knows :: "'m message_set \<Rightarrow> string \<Rightarrow> bool" where
  "ms_knows ms name \<longleftrightarrow> name \<in> set (ms_known ms)"

section \<open>JSON as it arrived\<close>

datatype raw = RObject "(string \<times> raw) list" | RArray "raw list" | ROther json

type_synonym sset = "(string, unit) bt"

definition push_segment :: "string \<Rightarrow> string \<Rightarrow> string" where
  "push_segment here_at segment = (if here_at = [] then segment else here_at @ ''.'' @ segment)"

function (sequential) normalise :: "raw \<Rightarrow> string \<Rightarrow> sset \<Rightarrow> env_fault + json \<times> sset"
  and normalise_entries :: "(string \<times> raw) list \<Rightarrow> string \<Rightarrow> string list \<Rightarrow> jmap \<Rightarrow> sset \<Rightarrow> env_fault + jmap \<times> sset"
  and normalise_items :: "raw list \<Rightarrow> nat \<Rightarrow> string \<Rightarrow> sset \<Rightarrow> env_fault + json list \<times> sset" where
  "normalise (RObject entries) here_at critical =
     try_r (normalise_entries entries here_at [] [] critical) (\<lambda>(object, critical). Inr (JObject object, critical))"
| "normalise (RArray items) here_at critical =
     try_r (normalise_items items 0 here_at critical) (\<lambda>(out, critical). Inr (JArray out, critical))"
| "normalise (ROther v) here_at critical = Inr (v, critical)"
| "normalise_entries [] here_at seen object critical = Inr (object, critical)"
| "normalise_entries ((name, v) # entries) here_at seen object critical =
     (case classify name of
        None \<Rightarrow> Inl (MalformedName name)
      | Some is_critical \<Rightarrow>
          (let lowered = to_ascii_lowercase name in
           if lowered \<in> set seen then Inl (DuplicateName lowered)
           else let here = push_segment here_at lowered;
                    critical = (if is_critical then bt_insert here () critical else critical)
                in try_r (normalise v here critical) (\<lambda>(v, critical).
                   normalise_entries entries here_at (lowered # seen) (bt_insert lowered v object) critical)))"
| "normalise_items [] index here_at critical = Inr ([], critical)"
| "normalise_items (item # items) index here_at critical =
     try_r (normalise item (push_segment here_at (decimal index)) critical) (\<lambda>(v, critical).
     try_r (normalise_items items (index + 1) here_at critical) (\<lambda>(out, critical). Inr (v # out, critical)))"
  by pat_completeness auto
termination
  by (relation "measure (\<lambda>x. case x of Inl (r, _) \<Rightarrow> size r | Inr (Inl (es, _)) \<Rightarrow> size_list (size_prod (\<lambda>_. 0) size) es
     | Inr (Inr (rs, _)) \<Rightarrow> size_list size rs)") auto

text \<open>The paths of the members the input carried that the round trip does not.\<close>

function (sequential) collect_unknown :: "json \<Rightarrow> json \<Rightarrow> string \<Rightarrow> sset \<Rightarrow> sset"
  and collect_members :: "(string \<times> json) list \<Rightarrow> jmap \<Rightarrow> string \<Rightarrow> sset \<Rightarrow> sset"
  and collect_items :: "json list \<Rightarrow> json list \<Rightarrow> nat \<Rightarrow> string \<Rightarrow> sset \<Rightarrow> sset" where
  "collect_unknown input round here_at out =
     (case input of
        JObject input \<Rightarrow> (case round of JObject round \<Rightarrow> collect_members input round here_at out | _ \<Rightarrow> out)
      | JArray input \<Rightarrow> (case round of JArray round \<Rightarrow> collect_items input round 0 here_at out | _ \<Rightarrow> out)
      | _ \<Rightarrow> out)"
| "collect_members [] round here_at out = out"
| "collect_members ((name, v) # input) round here_at out =
     (let here = push_segment here_at name in
      collect_members input round here_at
        (case bt_get round name of None \<Rightarrow> bt_insert here () out | Some r \<Rightarrow> collect_unknown v r here out))"
| "collect_items [] round index here_at out = out"
| "collect_items (v # input) round index here_at out =
     collect_items input round (index + 1) here_at
       (if index < length round then collect_unknown v (round ! index) (push_segment here_at (decimal index)) out else out)"
  by pat_completeness auto
termination
  by (relation "measure (\<lambda>x. case x of Inl (v, _) \<Rightarrow> size v | Inr (Inl (es, _)) \<Rightarrow> size_list (size_prod (\<lambda>_. 0) size) es
     | Inr (Inr (vs, _)) \<Rightarrow> size_list size vs)") auto

section \<open>Reading and writing\<close>

text \<open>Where MSG pins what is critical on a type, what breaks it.\<close>

definition joined :: "string list \<Rightarrow> string" where
  "joined names = (case names of [] \<Rightarrow> [] | name # names \<Rightarrow> name @ concat (map (\<lambda>name. '', '' @ name) names))"

definition criticality_fault :: "criticality \<Rightarrow> string \<Rightarrow> jmap \<Rightarrow> sset \<Rightarrow> env_fault option" where
  "criticality_fault pinned type_name object critical =
     (case pinned of
        Unconstrained \<Rightarrow> None
      | Exactly required \<Rightarrow>
          (let surplus = filter (\<lambda>name. name \<notin> set required) (bt_keys critical);
               plain = filter (\<lambda>name. bt_has object name \<and> \<not> bt_has critical name) required
           in if surplus \<noteq> [] then Some (CriticalNotAllowed type_name (joined surplus))
              else if plain \<noteq> [] then Some (CriticalRequired type_name (joined plain))
              else None))"

definition read_object :: "'m message_set \<Rightarrow> jmap \<Rightarrow> sset \<Rightarrow> env_fault + 'm reading" where
  "read_object ms object critical =
     (case bt_get object ''type'' of
        None \<Rightarrow> Inl NoType
      | Some (JString type_name) \<Rightarrow>
          (if \<not> ms_knows ms type_name
           then Inr (if bt_has critical ''type'' then Refused (CriticalType type_name) else Skipped type_name)
           else case criticality_fault (ms_criticality ms type_name) type_name object critical of
             Some fault \<Rightarrow> Inl fault
           | None \<Rightarrow>
               (case ms_read ms (JObject object) of
                  Inl detail \<Rightarrow> Inl (Malformed type_name detail)
                | Inr message \<Rightarrow>
                    (let unknown = collect_unknown (JObject object) (ms_write ms message) [] [];
                         refused = filter (bt_has unknown) (bt_keys critical)
                     in if refused = [] then Inr (Message message)
                        else Inr (Refused (CriticalMembers type_name refused)))))
      | Some _ \<Rightarrow> Inl TypeNotString)"

definition read_raw :: "'m message_set \<Rightarrow> raw \<Rightarrow> env_fault + 'm reading" where
  "read_raw ms r =
     try_r (normalise r [] []) (\<lambda>(v, critical).
       case v of JObject object \<Rightarrow> read_object ms object critical | _ \<Rightarrow> Inl NotObject)"

definition env_read ::
  "(bytes \<Rightarrow> string option) \<Rightarrow> (string \<Rightarrow> string + raw) \<Rightarrow> 'm message_set \<Rightarrow> bytes \<Rightarrow> env_fault + 'm reading" where
  "env_read from_utf8 from_str ms bs =
     (case from_utf8 bs of
        None \<Rightarrow> Inl NotUtf8
      | Some text \<Rightarrow> (case from_str text of Inl err \<Rightarrow> Inl (NotJson err) | Inr r \<Rightarrow> read_raw ms r))"

text \<open>The members written critical go out in upper case.\<close>

definition raise_case :: "string \<Rightarrow> jmap \<Rightarrow> jmap" where
  "raise_case name object =
     (case bt_get object name of
        None \<Rightarrow> object
      | Some v \<Rightarrow> bt_insert (to_ascii_uppercase name) v (bt_remove name object))"

definition cased :: "'m message_set \<Rightarrow> json \<Rightarrow> json" where
  "cased ms v =
     (case v of
        JObject object \<Rightarrow>
          (let type_name = (case Option.bind (bt_get object ''type'') as_str of None \<Rightarrow> [] | Some t \<Rightarrow> t)
           in JObject (fold raise_case (ms_critical ms type_name) object))
      | _ \<Rightarrow> v)"

definition env_write :: "(json \<Rightarrow> bytes) \<Rightarrow> 'm message_set \<Rightarrow> 'm \<Rightarrow> bytes" where
  "env_write to_vec ms message = to_vec (cased ms (ms_write ms message))"

text \<open>The paths a message loses on being written, read and written again.\<close>

definition round_trip_omissions :: "'m message_set \<Rightarrow> 'm \<Rightarrow> string list" where
  "round_trip_omissions ms message =
     (let written = ms_write ms message in
      case ms_read ms written of
        Inl _ \<Rightarrow> [''<does not round trip>'']
      | Inr parsed \<Rightarrow> bt_keys (collect_unknown written (ms_write ms parsed) [] []))"

declare collect_unknown.simps [simp del]

lemma collect_unknown_simps [simp]:
  "collect_unknown (JObject input) (JObject round) p out = collect_members input round p out"
  "collect_unknown (JArray items) (JArray rounds) p out = collect_items items rounds 0 p out"
  by (simp_all add: collect_unknown.simps)

section \<open>Where things are\<close>

text \<open>A place in a message, as the segments below it, and its spelling in a path.\<close>

definition spell :: "segment \<Rightarrow> string" where
  "spell seg = (case seg of Name n \<Rightarrow> n | Index i \<Rightarrow> decimal i)"

definition spelled :: "string \<Rightarrow> segment list \<Rightarrow> string" where
  "spelled p segs = foldl (\<lambda>p seg. push_segment p (spell seg)) p segs"

lemma spelled_simps [simp]:
  "spelled p [] = p" "spelled p (seg # segs) = spelled (push_segment p (spell seg)) segs"
  by (simp_all add: spelled_def)

fun json_at :: "json \<Rightarrow> segment list \<Rightarrow> json option" where
  "json_at v [] = Some v"
| "json_at (JObject object) (Name n # segs) = Option.bind (bt_get object n) (\<lambda>v. json_at v segs)"
| "json_at (JArray items) (Index i # segs) = (if i < length items then json_at (items ! i) segs else None)"
| "json_at _ _ = None"

text \<open>The places of a message as it arrived whose members are marked critical.\<close>

fun critical_at :: "raw \<Rightarrow> segment list \<Rightarrow> bool" where
  "critical_at (RObject entries) (Name n # segs) =
     (\<exists>(name, v) \<in> set entries. to_ascii_lowercase name = n
        \<and> (if segs = [] then classify name = Some True else critical_at v segs))"
| "critical_at (RArray items) (Index i # segs) = (i < length items \<and> segs \<noteq> [] \<and> critical_at (items ! i) segs)"
| "critical_at _ _ = False"

text \<open>A member of the input that the round trip does not have, though it has the object it is in.\<close>

definition unknown_at :: "json \<Rightarrow> json \<Rightarrow> segment list \<Rightarrow> bool" where
  "unknown_at input round segs \<longleftrightarrow>
     (\<exists>parent n object v. segs = parent @ [Name n] \<and> json_at input segs = Some v
        \<and> json_at round parent = Some (JObject object) \<and> bt_get object n = None)"

section \<open>Everything marked critical is noted\<close>

lemma bt_has_insert_mono: "bt_has m k \<Longrightarrow> bt_has (bt_insert q v m) k"
  by (auto simp: bt_has_def)


definition grows :: "sset \<Rightarrow> sset \<Rightarrow> bool" where
  "grows c c' \<longleftrightarrow> (\<forall>k. bt_has c k \<longrightarrow> bt_has c' k)"

lemma grows_refl [simp]: "grows c c"
  and grows_trans: "grows c c' \<Longrightarrow> grows c' c'' \<Longrightarrow> grows c c''"
  and grows_insert: "grows (bt_insert k () c) c' \<Longrightarrow> grows c c' \<and> bt_has c' k"
  by (auto simp: grows_def bt_has_def)

text \<open>One entry, and what the others leave of it.\<close>

definition entry_noted :: "string \<Rightarrow> jmap \<Rightarrow> sset \<Rightarrow> string \<times> raw \<Rightarrow> bool" where
  "entry_noted p ob c' = (\<lambda>(name, w). \<exists>critical c1 v c2.
     classify name = Some critical
     \<and> (critical \<longrightarrow> bt_has c' (push_segment p (to_ascii_lowercase name)))
     \<and> normalise w (push_segment p (to_ascii_lowercase name)) c1 = Inr (v, c2) \<and> grows c2 c'
     \<and> bt_get ob (to_ascii_lowercase name) = Some v)"

definition steady :: "raw \<Rightarrow> bool" where
  "steady w \<longleftrightarrow> (\<forall>p c v c'. normalise w p c = Inr (v, c') \<longrightarrow> grows c c')"

lemma steadyD: "steady w \<Longrightarrow> normalise w p c = Inr (v, c') \<Longrightarrow> grows c c'"
  by (simp add: steady_def)

lemma entries_noted:
  assumes mono: "\<forall>(name, w) \<in> set es. steady w"
  shows "normalise_entries es p seen ob c = Inr (ob', c') \<Longrightarrow>
     grows c c' \<and> (\<forall>e \<in> set es. entry_noted p ob' c' e) \<and> (\<forall>k \<in> set seen. bt_get ob' k = bt_get ob k)"
  using mono
proof (induction es arbitrary: seen ob c)
  case (Cons e es)
  obtain name w where e: "e = (name, w)" by (cases e)
  let ?low = "to_ascii_lowercase name"
  let ?here = "push_segment p ?low"
  from Cons.prems(1) e obtain critical v c1 where critical: "classify name = Some critical" and new: "?low \<notin> set seen"
    and here: "normalise w ?here (if critical then bt_insert ?here () c else c) = Inr (v, c1)"
    and rest: "normalise_entries es p (?low # seen) (bt_insert ?low v ob) c1 = Inr (ob', c')"
    by (auto simp: try_r_eq_Inr Let_def split: option.splits if_splits)
  from Cons.prems(2) e have steady: "steady w" "\<forall>(name, w) \<in> set es. steady w" by simp_all
  from steadyD [OF steady(1) here] have "grows (if critical then bt_insert ?here () c else c) c1" .
  moreover from Cons.IH [OF rest steady(2)] have ih: "grows c1 c'" "\<forall>e \<in> set es. entry_noted p ob' c' e"
    "\<forall>k \<in> set (?low # seen). bt_get ob' k = bt_get (bt_insert ?low v ob) k" by blast+
  ultimately have "grows c c' \<and> (critical \<longrightarrow> bt_has c' ?here)"
    by (cases critical) (auto dest: grows_trans grows_insert)
  moreover have "bt_get ob' ?low = Some v" using ih(3) by simp
  ultimately have "entry_noted p ob' c' e" "grows c c'"
    using critical here ih(1) unfolding entry_noted_def e by auto
  moreover have "\<forall>k \<in> set seen. bt_get ob' k = bt_get ob k" using ih(3) new by auto
  ultimately show ?case using ih(2) by simp
qed simp

lemma items_noted:
  assumes mono: "\<forall>w \<in> set rs. steady w"
  shows "normalise_items rs i p c = Inr (vs, c') \<Longrightarrow>
     grows c c' \<and> length vs = length rs \<and> (\<forall>k < length rs. \<exists>c1 c2.
       normalise (rs ! k) (push_segment p (decimal (i + k))) c1 = Inr (vs ! k, c2) \<and> grows c2 c')"
  using mono
proof (induction rs arbitrary: i c vs)
  case (Cons r rs)
  from Cons.prems(1) obtain v c1 out where here: "normalise r (push_segment p (decimal i)) c = Inr (v, c1)"
    and rest: "normalise_items rs (i + 1) p c1 = Inr (out, c')" and vs: "vs = v # out"
    by (auto simp: try_r_eq_Inr)
  from Cons.prems(2) have steady: "steady r" "\<forall>w \<in> set rs. steady w" by simp_all
  from Cons.IH [OF rest steady(2)] have ih: "grows c1 c'" "length out = length rs"
    "\<forall>k < length rs. \<exists>d1 d2. normalise (rs ! k) (push_segment p (decimal (i + 1 + k))) d1 = Inr (out ! k, d2) \<and> grows d2 c'"
    by blast+
  from steadyD [OF steady(1) here] have "grows c c1" .
  then have "grows c c'" using ih(1) by (rule grows_trans)
  moreover have "\<exists>d1 d2. normalise ((r # rs) ! k) (push_segment p (decimal (i + k))) d1 = Inr (vs ! k, d2) \<and> grows d2 c'"
    if "k < length (r # rs)" for k
  proof (cases k)
    case 0
    with here vs ih(1) show ?thesis by auto
  next
    case (Suc j)
    with that ih(3) vs show ?thesis by simp
  qed
  ultimately show ?case using ih(2) vs by simp
qed simp

lemma all_steady: "steady r"
proof (induction r)
  case (RObject entries)
  then have "\<forall>(name, w) \<in> set entries. steady w" by auto
  from entries_noted [OF this] show ?case by (auto simp: steady_def try_r_eq_Inr)
next
  case (RArray items)
  then have "\<forall>w \<in> set items. steady w" by blast
  from items_noted [OF this] show ?case by (auto simp: steady_def try_r_eq_Inr)
qed (simp add: steady_def)

lemma normalise_object:
  assumes "normalise (RObject entries) p c = Inr (v, c')"
  obtains ob where "v = JObject ob" "\<forall>e \<in> set entries. entry_noted p ob c' e"
proof -
  from assms obtain ob where v: "v = JObject ob" and ob: "normalise_entries entries p [] [] c = Inr (ob, c')"
    by (auto simp: try_r_eq_Inr)
  have "\<forall>(name, w) \<in> set entries. steady w" by (simp add: all_steady)
  from entries_noted [OF this ob] v show thesis by (intro that) blast+
qed

lemma normalise_array:
  assumes "normalise (RArray items) p c = Inr (v, c')"
  obtains vs where "v = JArray vs" "length vs = length items" "\<forall>k < length items. \<exists>c1 c2.
       normalise (items ! k) (push_segment p (decimal k)) c1 = Inr (vs ! k, c2) \<and> grows c2 c'"
proof -
  from assms obtain vs where v: "v = JArray vs" and vs: "normalise_items items 0 p c = Inr (vs, c')"
    by (auto simp: try_r_eq_Inr)
  have "\<forall>w \<in> set items. steady w" by (simp add: all_steady)
  from items_noted [OF this vs] have "length vs = length items" "\<forall>k < length items. \<exists>c1 c2.
       normalise (items ! k) (push_segment p (decimal (0 + k))) c1 = Inr (vs ! k, c2) \<and> grows c2 c'" by blast+
  with v show thesis by (intro that) simp_all
qed

text \<open>Every member marked critical is noted by its path, and is there in what is read.\<close>

lemma critical_noted:
  "normalise r p c = Inr (v, c') \<Longrightarrow> critical_at r segs \<Longrightarrow> bt_has c' (spelled p segs) \<and> json_at v segs \<noteq> None"
proof (induction r arbitrary: p c v c' segs)
  case (RObject entries)
  from RObject.prems(2) obtain n q name w where segs: "segs = Name n # q" and e: "(name, w) \<in> set entries"
    "to_ascii_lowercase name = n" and w: "if q = [] then classify name = Some True else critical_at w q"
    by (auto elim: critical_at.elims)
  from normalise_object [OF RObject.prems(1)] obtain ob where v: "v = JObject ob" and
    all: "\<forall>e \<in> set entries. entry_noted p ob c' e" by blast
  from all e obtain cr c1 x c2 where noted: "classify name = Some cr" "cr \<longrightarrow> bt_has c' (push_segment p n)"
    "normalise w (push_segment p n) c1 = Inr (x, c2)" "grows c2 c'" "bt_get ob n = Some x"
    unfolding entry_noted_def by blast
  show ?case
  proof (cases "q = []")
    case True
    with w noted segs v show ?thesis by (simp add: spell_def)
  next
    case False
    with w have deep: "critical_at w q" by simp
    have "bt_has c2 (spelled (push_segment p n) q) \<and> json_at x q \<noteq> None"
      by (rule RObject.IH [OF e(1) _ noted(3) deep]) simp
    with noted(4,5) segs v show ?thesis by (simp add: spell_def grows_def)
  qed
next
  case (RArray items)
  from RArray.prems(2) obtain i q where segs: "segs = Index i # q" and i: "i < length items" and w: "critical_at (items ! i) q"
    by (auto elim: critical_at.elims)
  obtain vs where v: "v = JArray vs" "length vs = length items" and all: "\<forall>k < length items. \<exists>c1 c2.
       normalise (items ! k) (push_segment p (decimal k)) c1 = Inr (vs ! k, c2) \<and> grows c2 c'"
    by (rule normalise_array [OF RArray.prems(1)])
  from all i obtain c1 c2 where here: "normalise (items ! i) (push_segment p (decimal i)) c1 = Inr (vs ! i, c2)" "grows c2 c'"
    by blast
  have "bt_has c2 (spelled (push_segment p (decimal i)) q) \<and> json_at (vs ! i) q \<noteq> None"
    by (rule RArray.IH [OF _ here(1) w]) (use i in simp)
  with i here(2) segs v show ?case by (simp add: spell_def grows_def)
qed simp

section \<open>Everything unknown is collected\<close>

definition collect_steady :: "json \<Rightarrow> bool" where
  "collect_steady w \<longleftrightarrow> (\<forall>round p out. grows out (collect_unknown w round p out))"

lemma collect_steadyD: "collect_steady w \<Longrightarrow> grows out (collect_unknown w round p out)"
  by (simp add: collect_steady_def)

definition member_collected :: "jmap \<Rightarrow> string \<Rightarrow> sset \<Rightarrow> string \<times> json \<Rightarrow> bool" where
  "member_collected round p c' = (\<lambda>(name, w).
     (bt_get round name = None \<longrightarrow> bt_has c' (push_segment p name))
     \<and> (\<forall>r. bt_get round name = Some r \<longrightarrow> (\<exists>o'. grows (collect_unknown w r (push_segment p name) o') c')))"

lemma collect_grows_members:
  assumes "\<forall>(name, w) \<in> set es. collect_steady w"
  shows "grows out (collect_members es round p out)
    \<and> (\<forall>e \<in> set es. member_collected round p (collect_members es round p out) e)"
  using assms
proof (induction es arbitrary: out)
  case (Cons e es)
  obtain name w where e: "e = (name, w)" by (cases e)
  have all: "\<forall>(name, w) \<in> set es. collect_steady w" and w: "collect_steady w" using Cons.prems e by simp_all
  show ?case
  proof (cases "bt_get round name")
    case None
    let ?out = "bt_insert (push_segment p name) () out"
    have eq: "collect_members (e # es) round p out = collect_members es round p ?out" by (simp add: e Let_def None)
    from Cons.IH [OF all, of ?out] have ih: "grows ?out (collect_members es round p ?out)"
      "\<forall>e \<in> set es. member_collected round p (collect_members es round p ?out) e" by blast+
    from grows_insert [OF ih(1)] have "member_collected round p (collect_members es round p ?out) e"
      by (simp add: member_collected_def e None)
    with ih(2) grows_insert [OF ih(1)] show ?thesis unfolding eq by simp
  next
    case (Some r)
    let ?out = "collect_unknown w r (push_segment p name) out"
    have eq: "collect_members (e # es) round p out = collect_members es round p ?out" by (simp add: e Let_def Some)
    from Cons.IH [OF all, of ?out] have ih: "grows ?out (collect_members es round p ?out)"
      "\<forall>e \<in> set es. member_collected round p (collect_members es round p ?out) e" by blast+
    from ih(1) have "\<exists>o'. grows (collect_unknown w r (push_segment p name) o') (collect_members es round p ?out)" ..
    then have "member_collected round p (collect_members es round p ?out) e"
      by (simp add: member_collected_def e Some)
    moreover from grows_trans [OF collect_steadyD [OF w] ih(1)] have "grows out (collect_members es round p ?out)" .
    ultimately show ?thesis using ih(2) unfolding eq by simp
  qed
qed simp

lemma collect_grows_items:
  assumes "\<forall>w \<in> set vs. collect_steady w"
  shows "grows out (collect_items vs round i p out)
    \<and> (\<forall>k < length vs. i + k < length round \<longrightarrow>
         (\<exists>o'. grows (collect_unknown (vs ! k) (round ! (i + k)) (push_segment p (decimal (i + k))) o') (collect_items vs round i p out)))"
  using assms
proof (induction vs arbitrary: i out)
  case (Cons w vs)
  let ?out = "if i < length round then collect_unknown w (round ! i) (push_segment p (decimal i)) out else out"
  have all: "\<forall>w \<in> set vs. collect_steady w" and w: "collect_steady w" using Cons.prems by simp_all
  have eq: "collect_items (w # vs) round i p out = collect_items vs round (i + 1) p ?out" by simp
  from Cons.IH [OF all, of ?out "i + 1"] have ih: "grows ?out (collect_items vs round (i + 1) p ?out)"
    "\<forall>k < length vs. i + 1 + k < length round \<longrightarrow> (\<exists>o'. grows (collect_unknown (vs ! k) (round ! (i + 1 + k))
       (push_segment p (decimal (i + 1 + k))) o') (collect_items vs round (i + 1) p ?out))" by blast+
  have "grows out ?out" using collect_steadyD [OF w] by simp
  then have "grows out (collect_items vs round (i + 1) p ?out)" using ih(1) by (rule grows_trans)
  moreover have "\<exists>o'. grows (collect_unknown ((w # vs) ! k) (round ! (i + k)) (push_segment p (decimal (i + k))) o')
      (collect_items vs round (i + 1) p ?out)" if "k < length (w # vs)" "i + k < length round" for k
  proof (cases k)
    case 0
    with ih(1) that(2) show ?thesis by auto
  next
    case (Suc j)
    with that have "j < length vs" "i + 1 + j < length round" by simp_all
    with ih(2) have "\<exists>o'. grows (collect_unknown (vs ! j) (round ! (i + 1 + j))
       (push_segment p (decimal (i + 1 + j))) o') (collect_items vs round (i + 1) p ?out)" by blast
    with Suc show ?thesis by simp
  qed
  ultimately show ?case unfolding eq by blast
qed simp

lemma all_collect_steady: "collect_steady v"
proof (induction v)
  case (JObject es)
  then have "\<forall>(name, w) \<in> set es. collect_steady w" by auto
  from collect_grows_members [OF this] show ?case unfolding collect_steady_def
    by (intro allI, rename_tac round p out, case_tac round) (simp_all add: collect_unknown.simps)
next
  case (JArray vs)
  then have "\<forall>w \<in> set vs. collect_steady w" by blast
  from collect_grows_items [OF this] show ?case unfolding collect_steady_def
    by (intro allI, rename_tac round p out, case_tac round) (simp_all add: collect_unknown.simps)
qed (simp_all add: collect_steady_def collect_unknown.simps)

lemma unknown_collected:
  "unknown_at v round segs \<Longrightarrow> bt_has (collect_unknown v round p out) (spelled p segs)"
proof (induction segs arbitrary: v round p out)
  case (Cons seg q)
  from Cons.prems obtain parent n ob x where q: "seg # q = parent @ [Name n]" and at: "json_at v (seg # q) = Some x"
    and ob: "json_at round parent = Some (JObject ob)" "bt_get ob n = None" by (auto simp: unknown_at_def)
  show ?case
  proof (cases seg)
    case (Name m)
    with at obtain es w where v: "v = JObject es" and w: "bt_get es m = Some w" "json_at w q = Some x"
      by (cases v) (auto simp: bind_eq_Some_conv)
    then have mem: "(m, w) \<in> set es" by (auto dest: bt_get_SomeD)
    have all: "\<forall>(name, w) \<in> set es. collect_steady w" by (simp add: all_collect_steady)
    show ?thesis
    proof (cases parent)
      case Nil
      with q Name ob have "q = []" "m = n" "round = JObject ob" by auto
      with collect_grows_members [OF all, of out ob p] mem ob(2) v Name show ?thesis
        by (fastforce simp: spell_def member_collected_def)
    next
      case (Cons s rest)
      with q Name ob obtain rob r where r: "round = JObject rob" "bt_get rob m = Some r" "json_at r rest = Some (JObject ob)"
        and q': "q = rest @ [Name n]" by (cases round) (auto simp: bind_eq_Some_conv)
      have "unknown_at w r q" unfolding unknown_at_def using q' w r ob(2) by auto
      then have ih: "bt_has (collect_unknown w r (push_segment p m) o') (spelled (push_segment p m) q)" for o'
        by (rule Cons.IH)
      from collect_grows_members [OF all, of out rob p] mem
      have "member_collected rob p (collect_members es rob p out) (m, w)" by blast
      with r(2) obtain o' where "grows (collect_unknown w r (push_segment p m) o') (collect_members es rob p out)"
        by (auto simp: member_collected_def)
      with ih [of o'] v r Name show ?thesis by (auto simp: spell_def grows_def)
    qed
  next
    case (Index i)
    with at obtain vs where v: "v = JArray vs" and i: "i < length vs" "json_at (vs ! i) q = Some x"
      by (cases v) (auto split: if_splits)
    from q Index obtain rest where p: "parent = Index i # rest" and q': "q = rest @ [Name n]" by (cases parent) auto
    with ob obtain rs where r: "round = JArray rs" "i < length rs" "json_at (rs ! i) rest = Some (JObject ob)"
      by (cases round) (auto split: if_splits)
    have "unknown_at (vs ! i) (rs ! i) q" unfolding unknown_at_def using q' i r ob(2) by auto
    then have ih: "bt_has (collect_unknown (vs ! i) (rs ! i) p' o') (spelled p' q)" for p' o' by (rule Cons.IH)
    have all: "\<forall>w \<in> set vs. collect_steady w" by (simp add: all_collect_steady)
    from conjunct2 [OF collect_grows_items [OF all, of out rs 0 p], rule_format, of i] i r
    obtain o' where "grows (collect_unknown (vs ! i) (rs ! i) (push_segment p (decimal i)) o') (collect_items vs rs 0 p out)"
      by auto
    with ih v r Index show ?thesis by (auto simp: spell_def grows_def)
  qed
qed (simp add: unknown_at_def)


section \<open>Acted on only as wholly read\<close>

lemma bt_has_filter_Nil: "filter (bt_has u) (bt_keys c) = [] \<Longrightarrow> bt_has c k \<Longrightarrow> \<not> bt_has u k"
  by (auto simp: bt_has_iff filter_empty_conv)

lemma read_object_Message:
  assumes "read_object ms object critical = Inr (Message m)"
  shows "ms_read ms (JObject object) = Inr m"
    and "filter (bt_has (collect_unknown (JObject object) (ms_write ms m) [] [])) (bt_keys critical) = []"
  using assms by (auto simp: read_object_def Let_def split: option.splits json.splits if_splits sum.splits)

text \<open>A message is acted on only where every member marked critical is one its type keeps.\<close>

lemma acted_on_as_read:
  assumes read: "env_read from_utf8 from_str ms bs = Inr (Message m)"
    and bs: "from_utf8 bs = Some t" "from_str t = Inr r"
  shows "\<exists>object. ms_read ms (JObject object) = Inr m
    \<and> (\<forall>segs. critical_at r segs \<longrightarrow> json_at (JObject object) segs \<noteq> None \<and> \<not> unknown_at (JObject object) (ms_write ms m) segs)"
proof -
  from read bs obtain v critical where n: "normalise r [] [] = Inr (v, critical)"
    and v: "(case v of JObject object \<Rightarrow> read_object ms object critical | _ \<Rightarrow> Inl NotObject) = Inr (Message m)"
    by (auto simp: env_read_def read_raw_def try_r_eq_Inr)
  then obtain object where ob: "v = JObject object" and get: "read_object ms object critical = Inr (Message m)"
    by (cases v) auto
  have "json_at (JObject object) segs \<noteq> None \<and> \<not> unknown_at (JObject object) (ms_write ms m) segs"
    if "critical_at r segs" for segs
    using critical_noted [OF n that] unknown_collected [of "JObject object" "ms_write ms m" segs "[]" "[]"]
      bt_has_filter_Nil [OF read_object_Message(2) [OF get]] ob by blast
  with read_object_Message(1) [OF get] show ?thesis by blast
qed


section \<open>What is written reads back\<close>

text \<open>A value as it arrives when nothing changes it on the way.\<close>

primrec raw_of :: "json \<Rightarrow> raw" where
  "raw_of JNull = ROther JNull"
| "raw_of (JBool b) = ROther (JBool b)"
| "raw_of (JNumber n) = ROther (JNumber n)"
| "raw_of (JString s) = ROther (JString s)"
| "raw_of (JArray items) = RArray (map raw_of items)"
| "raw_of (JObject object) = RObject (map (map_prod id raw_of) object)"

text \<open>A value whose members are all named in lower case, the way the envelope gives them to a type.\<close>

primrec tidy :: "json \<Rightarrow> bool" where
  "tidy JNull = True"
| "tidy (JBool b) = True"
| "tidy (JNumber n) = True"
| "tidy (JString s) = True"
| "tidy (JArray items) = list_all id (map tidy items)"
| "tidy (JObject object) =
     (bt_ok object \<and> list_all (\<lambda>(name, ok). classify name = Some False \<and> ok) (map (map_prod id tidy) object))"

lemma tidy_object: "tidy (JObject object) \<longleftrightarrow>
    bt_ok object \<and> (\<forall>(name, v) \<in> set object. classify name = Some False \<and> tidy v)"
  by (auto simp: list_all_iff)

lemma tidy_array: "tidy (JArray items) \<longleftrightarrow> (\<forall>v \<in> set items. tidy v)"
  by (auto simp: list_all_iff)

declare tidy.simps(5,6) [simp del]

lemma ascii_lower_id: "\<not> is_ascii_uppercase c \<Longrightarrow> ascii_lower c = c"
  by (simp add: ascii_lower_def)

lemma classify_None_iff: "classify name = Some False \<longleftrightarrow>
    name \<noteq> [] \<and> (\<forall>c \<in> set name. name_char c \<and> \<not> is_ascii_uppercase c)"
  by (auto simp: classify_def Let_def list_all_iff list_ex_iff)

lemma plain_lowered: "classify name = Some False \<Longrightarrow> to_ascii_lowercase name = name"
  by (auto simp: classify_None_iff to_ascii_lowercase_def intro!: map_idI ascii_lower_id)

definition note_entry :: "string \<Rightarrow> string \<times> json \<Rightarrow> sset \<Rightarrow> sset" where
  "note_entry p = (\<lambda>(name, v) c. if classify name = Some True
     then bt_insert (push_segment p (to_ascii_lowercase name)) () c else c)"

text \<open>Entries whose values are tidy come out lowered, with the ones in upper case noted.\<close>

lemma normalise_entries_lowered:
  assumes "\<forall>(name, v) \<in> set es. classify name \<noteq> None \<and> (\<forall>p c. normalise (raw_of v) p c = Inr (v, c))"
    and "distinct (map (to_ascii_lowercase \<circ> fst) es)" and "set (map (to_ascii_lowercase \<circ> fst) es) \<inter> set seen = {}"
  shows "normalise_entries (map (map_prod id raw_of) es) p seen ob c =
    Inr (fold (\<lambda>(name, v) m. bt_insert (to_ascii_lowercase name) v m) es ob, fold (note_entry p) es c)"
  using assms
proof (induction es arbitrary: seen ob c)
  case (Cons e es)
  obtain name v where e: "e = (name, v)" by (cases e)
  obtain cr where cr: "classify name = Some cr" using Cons.prems(1) e by auto
  from Cons.prems have "to_ascii_lowercase name \<notin> set seen"
    "set (map (to_ascii_lowercase \<circ> fst) es) \<inter> set (to_ascii_lowercase name # seen) = {}" by (auto simp: e)
  then show ?case using Cons.IH [of "to_ascii_lowercase name # seen"] Cons.prems cr
    by (auto simp: e Let_def note_entry_def)
qed simp


lemma collect_lowered:
  assumes ob: "bt_ok ob" and es: "distinct (map (to_ascii_lowercase \<circ> fst) es)"
    and same: "(\<lambda>(name, v). (to_ascii_lowercase name, v)) ` set es = set ob"
  shows "fold (\<lambda>(name, v) m. bt_insert (to_ascii_lowercase name) v m) es [] = ob"
proof -
  let ?es = "map (\<lambda>(name, v). (to_ascii_lowercase name, v)) es"
  have fst: "map fst ?es = map (to_ascii_lowercase \<circ> fst) es" by (induction es) auto
  with es have distinct: "distinct (map fst ?es)" by metis
  have "fold (\<lambda>(name, v) m. bt_insert (to_ascii_lowercase name) v m) es m = fold (\<lambda>(k, v) m. bt_insert k v m) ?es m" for m
    by (induction es arbitrary: m) auto
  then have "fold (\<lambda>(name, v) m. bt_insert (to_ascii_lowercase name) v m) es [] = bt_collect ?es"
    by (simp add: bt_collect_def)
  also have "bt_collect ?es = ob"
  proof (rule bt_ext)
    show "bt_get (bt_collect ?es) k = bt_get ob k" for k
    proof -
      have "map_of (rev ?es) = map_of ?es" using distinct by (rule map_of_rev)
      moreover have "map_of ?es = map_of ob"
        using distinct same bt_ok_distinct [OF ob] by (subst map_of_inject_set) (simp_all only: set_map)
      ultimately show ?thesis unfolding bt_get_collect by (simp add: bt_get_def)
    qed
  qed (use ob in simp_all)
  finally show ?thesis .
qed

lemma note_plain: "\<forall>(name, v) \<in> set es. classify name = Some False \<Longrightarrow> fold (note_entry p) es c = c"
  by (induction es arbitrary: c) (auto simp: note_entry_def)

lemma tidy_items: "\<forall>v \<in> set items. \<forall>p c. normalise (raw_of v) p c = Inr (v, c) \<Longrightarrow>
    normalise_items (map raw_of items) i p c = Inr (items, c)"
  by (induction items arbitrary: i) simp_all

lemma tidy_normalises: "tidy v \<Longrightarrow> normalise (raw_of v) p c = Inr (v, c)"
proof (induction v arbitrary: p c)
  case (JObject es)
  then have ok: "bt_ok es" and plain: "\<forall>(name, v) \<in> set es. classify name = Some False"
    and tidy: "\<forall>(name, v) \<in> set es. tidy v" by (auto simp: tidy_object)
  have names: "map (to_ascii_lowercase \<circ> fst) es = map fst es"
    by (rule map_cong [OF refl]) (use plain in \<open>force intro: plain_lowered\<close>)
  have pairs: "(\<lambda>(name, v). (to_ascii_lowercase name, v)) ` set es = set es"
    using plain by (force simp: plain_lowered image_iff)
  have steady: "\<forall>(name, v) \<in> set es. classify name \<noteq> None \<and> (\<forall>p c. normalise (raw_of v) p c = Inr (v, c))"
  proof (clarify)
    fix name v assume mem: "(name, v) \<in> set es"
    with plain tidy have "classify name = Some False" "tidy v" by auto
    with JObject.IH [OF mem] show "classify name \<noteq> None \<and> (\<forall>p c. normalise (raw_of v) p c = Inr (v, c))" by simp
  qed
  have "normalise_entries (map (map_prod id raw_of) es) p [] [] c = Inr (es, c)"
    using normalise_entries_lowered [OF steady] collect_lowered [OF ok _ pairs] note_plain [OF plain]
      names bt_ok_distinct [OF ok] by simp
  then show ?case by simp
next
  case (JArray items)
  then have "\<forall>v \<in> set items. \<forall>p c. normalise (raw_of v) p c = Inr (v, c)" by (simp add: tidy_array)
  from tidy_items [OF this] show ?case by simp
qed simp_all

lemma collect_self: "tidy v \<Longrightarrow> collect_unknown v v p out = out"
proof (induction v arbitrary: p out)
  case (JObject es)
  then have ok: "bt_ok es" by (simp add: tidy_object)
  have "collect_members fs es p out = out" if "set fs \<subseteq> set es" for fs
    using that
  proof (induction fs)
    case (Cons f fs)
    obtain name v where f: "f = (name, v)" by (cases f)
    with Cons.prems have mem: "(name, v) \<in> set es" by simp
    with JObject.prems have "tidy v" by (auto simp: tidy_object)
    with JObject.IH [OF mem] have "collect_unknown v v q out = out" for q by simp
    moreover have "bt_get es name = Some v" using mem ok by (simp add: bt_ok_get_iff)
    ultimately show ?case using Cons by (simp add: f Let_def)
  qed simp
  then show ?case by simp
next
  case (JArray items)
  have "collect_items (drop i items) items i p out = out" for i
  proof (induction "length items - i" arbitrary: i)
    case (Suc n)
    then have i: "i < length items" by simp
    then have "items ! i \<in> set items" by simp
    moreover with JArray.prems have "tidy (items ! i)" by (simp add: tidy_array)
    ultimately have here: "collect_unknown (items ! i) (items ! i) q out = out" for q using JArray.IH by blast
    have "collect_items (drop (i + 1) items) items (i + 1) p out = out" using Suc by (intro Suc.hyps(1)) simp
    then show ?case using i here by (simp add: Cons_nth_drop_Suc [OF i, symmetric])
  qed simp
  from this [of 0] show ?case by simp
qed (simp_all add: collect_unknown.simps)


text \<open>A name the envelope can mark critical: lower case, and with a letter to raise.\<close>

definition markable :: "string \<Rightarrow> bool" where
  "markable name \<longleftrightarrow> classify name = Some False \<and> list_ex is_ascii_lowercase name"

lemma upper_char:
  "is_ascii_lowercase c \<Longrightarrow> is_ascii_uppercase (ascii_upper c) \<and> ascii_lower (ascii_upper c) = c"
proof -
  assume low: "is_ascii_lowercase c"
  then have range: "97 \<le> (of_char c :: nat)" "(of_char c :: nat) \<le> 122"
    by (simp_all add: is_ascii_lowercase_def ascii_between_def)
  then have "(of_char (char_of (of_char c - 32 :: nat)) :: nat) = of_char c - 32" by (simp add: of_char_of)
  with low have up: "(of_char (ascii_upper c) :: nat) = of_char c - 32" by (simp add: ascii_upper_def)
  have "is_ascii_uppercase (ascii_upper c)"
    unfolding is_ascii_uppercase_def ascii_between_def up using range by linarith
  moreover from this range up have "ascii_lower (ascii_upper c) = c" by (simp add: ascii_lower_def)
  ultimately show ?thesis ..
qed

lemma upper_id: "\<not> is_ascii_lowercase c \<Longrightarrow> ascii_upper c = c"
  by (simp add: ascii_upper_def)

lemma upper_not_lower: "\<not> is_ascii_lowercase (ascii_upper c)"
  by (cases "is_ascii_lowercase c")
    (auto simp: ascii_upper_def is_ascii_lowercase_def ascii_between_def of_char_of)

lemma lower_upper: "classify name = Some False \<Longrightarrow> to_ascii_lowercase (to_ascii_uppercase name) = name"
proof -
  assume "classify name = Some False"
  then have "\<forall>c \<in> set name. \<not> is_ascii_uppercase c" by (simp add: classify_None_iff)
  then have "ascii_lower (ascii_upper c) = c" if "c \<in> set name" for c
    using that by (cases "is_ascii_lowercase c") (auto simp: upper_char upper_id ascii_lower_id)
  then show ?thesis by (auto simp: to_ascii_lowercase_def to_ascii_uppercase_def intro: map_idI)
qed

lemma upper_critical: "markable name \<Longrightarrow> classify (to_ascii_uppercase name) = Some True"
proof -
  assume m: "markable name"
  then have plain: "name \<noteq> []" "\<forall>c \<in> set name. name_char c" and some: "list_ex is_ascii_lowercase name"
    by (auto simp: markable_def classify_None_iff)
  have "list_all name_char (to_ascii_uppercase name)"
    using plain(2) by (auto simp: to_ascii_uppercase_def list_all_iff name_char_def upper_id dest: upper_char)
      (metis upper_char upper_id)+
  moreover have "list_ex is_ascii_uppercase (to_ascii_uppercase name)"
    using some by (auto simp: to_ascii_uppercase_def list_ex_iff dest: upper_char)
  moreover have "\<not> list_ex is_ascii_lowercase (to_ascii_uppercase name)"
    by (simp add: to_ascii_uppercase_def list_ex_iff upper_not_lower)
  ultimately show ?thesis using plain(1) by (simp add: classify_def to_ascii_uppercase_def)
qed

text \<open>What raising leaves: each entry once, the critical ones renamed.\<close>

definition raised :: "string list \<Rightarrow> string \<times> json \<Rightarrow> string \<times> json" where
  "raised cs = (\<lambda>(name, v). (if name \<in> set cs then to_ascii_uppercase name else name, v))"

lemma upper_fresh: "markable c \<Longrightarrow> classify name = Some False \<Longrightarrow> to_ascii_uppercase c \<noteq> name"
  using upper_critical by fastforce

lemma set_bt_insert: "bt_ok m \<Longrightarrow> bt_get m k = None \<Longrightarrow> set (bt_insert k v m) = insert (k, v) (set m)"
  by (induction k v m rule: bt_insert.induct) (auto simp: bt_ok_Cons split: if_splits)

lemma set_raise_case:
  assumes ok: "bt_ok object" and fresh: "bt_get object (to_ascii_uppercase c) = None"
  shows "set (raise_case c object) = raised [c] ` set object" and "bt_ok (raise_case c object)"
proof -
  show "set (raise_case c object) = raised [c] ` set object"
  proof (cases "bt_get object c")
    case None
    then have "\<forall>e \<in> set object. raised [c] e = e" by (force simp: raised_def bt_get_None_iff)
    with None show ?thesis by (simp add: raise_case_def)
  next
    case (Some v)
    let ?rest = "set (bt_remove c object)"
    have "set object = insert (c, v) ?rest"
      using Some by (auto simp: bt_remove_def bt_ok_get_iff [OF ok, symmetric])
    moreover have "\<forall>e \<in> ?rest. raised [c] e = e" by (auto simp: bt_remove_def raised_def)
    ultimately have raised: "raised [c] ` set object = insert (to_ascii_uppercase c, v) ?rest"
      by (simp add: raised_def)
    have "set (raise_case c object) = insert (to_ascii_uppercase c, v) (set (bt_remove c object))"
      unfolding raise_case_def Some option.case
      by (rule set_bt_insert) (use ok fresh in simp_all)
    with raised show ?thesis by simp
  qed
  show "bt_ok (raise_case c object)" using ok by (auto simp: raise_case_def split: option.split)
qed


lemma cased_set:
  assumes "bt_ok object" "distinct cs" "\<forall>c \<in> set cs. markable c"
    and "\<forall>c \<in> set cs. bt_get object (to_ascii_uppercase c) = None"
  shows "set (fold raise_case cs object) = raised cs ` set object \<and> bt_ok (fold raise_case cs object)"
  using assms
proof (induction cs arbitrary: object)
  case Nil
  then show ?case by (force simp: raised_def image_iff)
next
  case (Cons c cs)
  let ?object = "raise_case c object"
  have first: "set ?object = raised [c] ` set object" "bt_ok ?object"
    using Cons.prems set_raise_case [of object c] by auto
  have neq: "to_ascii_uppercase d \<noteq> to_ascii_uppercase c" if "d \<in> set cs" for d
  proof
    assume "to_ascii_uppercase d = to_ascii_uppercase c"
    moreover have "classify d = Some False" "classify c = Some False"
      using that Cons.prems(3) by (simp_all add: markable_def)
    ultimately have "d = c" using lower_upper by metis
    with that Cons.prems(2) show False by simp
  qed
  have fresh: "bt_get ?object (to_ascii_uppercase d) = None" if "d \<in> set cs" for d
    using that neq [OF that] Cons.prems(4) first(1) unfolding bt_get_None_iff by (force simp: raised_def)
  have "set (fold raise_case cs ?object) = raised cs ` set ?object \<and> bt_ok (fold raise_case cs ?object)"
    by (rule Cons.IH) (use Cons.prems first(2) fresh in auto)
  moreover have "raised cs (raised [c] e) = raised (c # cs) e" if "e \<in> set object" for e
    using Cons.prems upper_fresh [of c] by (cases e) (auto simp: raised_def markable_def)
  then have "raised cs ` raised [c] ` set object = raised (c # cs) ` set object"
    unfolding image_image by (rule image_cong [OF refl])
  ultimately show ?case using first(1) by simp
qed

text \<open>Read back, the entries are the ones written and the critical ones are noted.\<close>

lemma fold_note_keys: "bt_has (fold (note_entry []) es c) k \<longleftrightarrow>
    bt_has c k \<or> (\<exists>(name, v) \<in> set es. classify name = Some True \<and> to_ascii_lowercase name = k)"
proof (induction es arbitrary: c)
  case (Cons e es)
  then show ?case by (cases e) (auto simp: note_entry_def push_segment_def bt_has_def)
qed simp

lemma raised_back: "markable c \<or> c \<notin> set cs \<Longrightarrow> classify c = Some False \<Longrightarrow>
    (case raised cs (c, v) of (name, v) \<Rightarrow> (to_ascii_lowercase name, v)) = (c, v)"
  by (auto simp: raised_def lower_upper plain_lowered)

lemma cased_normalises:
  assumes ob: "tidy (JObject object)" and cs: "distinct cs" "\<forall>c \<in> set cs. markable c"
  shows "\<exists>critical. normalise (raw_of (JObject (fold raise_case cs object))) [] [] = Inr (JObject object, critical)
    \<and> (\<forall>k. bt_has critical k \<longleftrightarrow> k \<in> set cs \<and> bt_has object k)"
proof -
  let ?es = "fold raise_case cs object"
  from ob have ok: "bt_ok object" and plain: "\<And>name v. (name, v) \<in> set object \<Longrightarrow> classify name = Some False \<and> tidy v"
    by (auto simp: tidy_object)
  have "bt_get object (to_ascii_uppercase c) = None" if "c \<in> set cs" for c
    using that cs(2) plain upper_fresh [of c] unfolding bt_get_None_iff by fastforce
  with cased_set [OF ok cs] have es: "set ?es = raised cs ` set object" "bt_ok ?es" by blast+
  have lowered: "(case raised cs (name, v) of (name, v) \<Rightarrow> (to_ascii_lowercase name, v)) = (name, v)"
    if "(name, v) \<in> set object" for name v
    using raised_back [of name cs v] cs(2) plain [OF that] by blast
  have same: "(\<lambda>(name, v). (to_ascii_lowercase name, v)) ` set ?es = set object"
    unfolding es(1) image_image using lowered by (force simp: image_iff)
  have len: "length ?es = length object"
    using bt_ok_distinct [OF es(2)] bt_ok_distinct [OF ok] es(1) same
    by (metis card_image_le distinct_card distinct_map le_antisym List.finite_set)
  have "distinct (map (to_ascii_lowercase \<circ> fst) ?es)"
  proof (rule card_distinct)
    have "set (map (to_ascii_lowercase \<circ> fst) ?es) = fst ` set object"
      unfolding same [symmetric] by (force simp: image_iff)
    also have "card \<dots> = length object"
      using bt_ok_distinct [OF ok] by (metis distinct_card length_map list.set_map)
    finally show "card (set (map (to_ascii_lowercase \<circ> fst) ?es)) = length (map (to_ascii_lowercase \<circ> fst) ?es)"
      using len by simp
  qed
  moreover have "\<forall>(name, v) \<in> set ?es. classify name \<noteq> None \<and> (\<forall>p c. normalise (raw_of v) p c = Inr (v, c))"
    unfolding es(1) using plain cs(2)
    by (auto simp: raised_def upper_critical tidy_normalises dest!: plain split: if_splits)
  ultimately have "normalise_entries (map (map_prod id raw_of) ?es) [] [] [] [] = Inr (object, fold (note_entry []) ?es [])"
    using normalise_entries_lowered [of ?es "[]" "[]" "[]" "[]"] collect_lowered [OF ok _ same] by simp
  moreover have "bt_has (fold (note_entry []) ?es []) k \<longleftrightarrow> k \<in> set cs \<and> bt_has object k" for k
  proof -
    have "bt_has (fold (note_entry []) ?es []) k \<longleftrightarrow>
      (\<exists>(name, v) \<in> set object. name \<in> set cs \<and> name = k)"
      unfolding fold_note_keys es(1) using plain cs(2) lowered
      by (fastforce simp: raised_def upper_critical bt_has_def lower_upper split: if_splits)
    also have "\<dots> \<longleftrightarrow> k \<in> set cs \<and> bt_has object k" by (force simp: bt_has_iff bt_keys_def)
    finally show ?thesis .
  qed
  ultimately show ?thesis by (simp add: exI [where x = "fold (note_entry []) ?es []"])
qed


section \<open>The interface\<close>

text \<open>
  What the envelope relies on of a set of messages: each writes an object with its \<open>type\<close>, its names
  in lower case, that the set reads back; what it writes critical can be marked so, and is what it
  pins critical where it pins any.
\<close>

locale message_laws =
  fixes ms :: "'m message_set" and ok :: "'m \<Rightarrow> bool"
  assumes written: "ok m \<Longrightarrow> \<exists>object t. ms_write ms m = JObject object \<and> tidy (JObject object)
      \<and> bt_get object ''type'' = Some (JString t) \<and> ms_knows ms t"
    and reads: "ok m \<Longrightarrow> ms_read ms (ms_write ms m) = Inr m"
    and marks: "distinct (ms_critical ms t) \<and> (\<forall>c \<in> set (ms_critical ms t). markable c)"
    and pinned: "ms_criticality ms t = Exactly required \<Longrightarrow> set required = set (ms_critical ms t)"
begin

lemma critical_as_pinned:
  assumes "\<forall>k. bt_has critical k \<longleftrightarrow> k \<in> set (ms_critical ms t) \<and> bt_has object k"
  shows "criticality_fault (ms_criticality ms t) t object critical = None"
proof (cases "ms_criticality ms t")
  case (Exactly required)
  with assms pinned [of t required] have "filter (\<lambda>name. name \<notin> set required) (bt_keys critical) = []"
    "filter (\<lambda>name. bt_has object name \<and> \<not> bt_has critical name) required = []"
    by (auto simp: filter_empty_conv bt_has_iff)
  with Exactly show ?thesis by (simp add: criticality_fault_def)
qed (simp add: criticality_fault_def)

lemma written_reads_back:
  assumes m: "ok m"
  shows "read_raw ms (raw_of (cased ms (ms_write ms m))) = Inr (Message m)"
proof -
  from written [OF m] obtain object t where ob: "ms_write ms m = JObject object" "tidy (JObject object)"
    and t: "bt_get object ''type'' = Some (JString t)" "ms_knows ms t" by blast
  have "cased ms (ms_write ms m) = JObject (fold raise_case (ms_critical ms t) object)"
    by (simp add: cased_def ob t)
  moreover from cased_normalises [OF ob(2)] marks [of t] obtain critical where
    n: "normalise (raw_of (JObject (fold raise_case (ms_critical ms t) object))) [] [] = Inr (JObject object, critical)"
    and c: "\<forall>k. bt_has critical k \<longleftrightarrow> k \<in> set (ms_critical ms t) \<and> bt_has object k" by blast
  moreover have "read_object ms object critical = Inr (Message m)"
    using t ob reads [OF m] collect_self [OF ob(2)] critical_as_pinned [OF c]
    by (simp add: read_object_def Let_def bt_has_def)
  ultimately show ?thesis by (simp add: read_raw_def)
qed

lemma nothing_omitted: "ok m \<Longrightarrow> round_trip_omissions ms m = []"
  using reads [of m] written [of m] by (auto simp: round_trip_omissions_def collect_self bt_keys_def simp del: collect_unknown_simps)

lemma sent_is_received:
  assumes m: "ok m" and bs: "from_utf8 (env_write to_vec ms m) = Some t"
    "from_str t = Inr (raw_of (cased ms (ms_write ms m)))"
  shows "env_read from_utf8 from_str ms (env_write to_vec ms m) = Inr (Message m)"
  using bs written_reads_back [OF m] by (simp add: env_read_def)

end

end
