(* ===== verification/Readings.thy ===== *)
theory Readings
  imports Config
begin

text \<open>
  The one shape of everything a device reports about itself, a fact or a reading:
  \<open>Entry\<close> of \<open>crates/bliti-core/src/channel/readings.rs\<close>, how it is built, how its status ties
  whether it carries a value, and how it is written into a message and read from one.  The rounding of
  measured numbers is not modelled: an entry is built from the JSON its value is.
\<close>

section \<open>Entries\<close>

record nfo_entry =
  en_at :: u64
  en_name :: string
  en_traits :: jmap
  en_kind :: string
  en_unit :: "string option"
  en_value :: "json option"

datatype entry_status = Passed | Warning | Failed | Skipped | Broken | Ended

fun entry_status_as_str :: "entry_status \<Rightarrow> string" where
  "entry_status_as_str Passed = ''passed''"
| "entry_status_as_str Warning = ''warning''"
| "entry_status_as_str Failed = ''failed''"
| "entry_status_as_str Skipped = ''skipped''"
| "entry_status_as_str Broken = ''broken''"
| "entry_status_as_str Ended = ''ended''"

definition carries_value :: "entry_status \<Rightarrow> bool" where
  "carries_value s \<longleftrightarrow> s \<in> {Passed, Warning, Failed}"

definition told_apart_by_value :: "nfo_entry \<Rightarrow> bool" where
  "told_apart_by_value e \<longleftrightarrow> en_name e \<in> set [''network-address'']"

definition set_status :: "entry_status \<Rightarrow> string option \<Rightarrow> nfo_entry \<Rightarrow> nfo_entry" where
  "set_status s reason e =
     (let object = bt_insert ''is'' (JString (entry_status_as_str s)) [];
          object = put_some ''reason'' JString reason object;
          e = e\<lparr>en_traits := bt_insert ''status'' (JObject object) (en_traits e)\<rparr>
      in if \<not> carries_value s then e\<lparr>en_value := None\<rparr> else e)"

definition entry_new :: "u64 \<Rightarrow> string \<Rightarrow> string \<Rightarrow> json \<Rightarrow> nfo_entry" where
  "entry_new at name kind v = set_status Passed None
     \<lparr>en_at = at, en_name = name, en_traits = [], en_kind = kind, en_unit = None, en_value = Some v\<rparr>"

definition entry_text :: "u64 \<Rightarrow> string \<Rightarrow> string \<Rightarrow> nfo_entry" where
  "entry_text at name t = entry_new at name ''text'' (JString t)"

definition entry_boolean :: "u64 \<Rightarrow> string \<Rightarrow> bool \<Rightarrow> nfo_entry" where
  "entry_boolean at name b = entry_new at name ''boolean'' (JBool b)"

definition entry_datetime :: "u64 \<Rightarrow> string \<Rightarrow> string \<Rightarrow> nfo_entry" where
  "entry_datetime at name rfc3339 = entry_new at name ''datetime'' (JString rfc3339)"

definition entry_address :: "u64 \<Rightarrow> string \<Rightarrow> string \<Rightarrow> string \<Rightarrow> nfo_entry" where
  "entry_address at name kind ip = entry_new at name kind (JString ip)"

definition with_trait :: "string \<Rightarrow> json \<Rightarrow> nfo_entry \<Rightarrow> nfo_entry" where
  "with_trait name v e = e\<lparr>en_traits := bt_insert name v (en_traits e)\<rparr>"

definition entry_warning :: "string \<Rightarrow> nfo_entry \<Rightarrow> nfo_entry" where
  "entry_warning reason = set_status Warning (Some reason)"

definition entry_failed :: "string \<Rightarrow> nfo_entry \<Rightarrow> nfo_entry" where
  "entry_failed reason = set_status Failed (Some reason)"

definition entry_skipped :: "u64 \<Rightarrow> string \<Rightarrow> string \<Rightarrow> string \<Rightarrow> nfo_entry" where
  "entry_skipped at name kind reason = set_status Skipped (Some reason)
     \<lparr>en_at = at, en_name = name, en_traits = [], en_kind = kind, en_unit = None, en_value = None\<rparr>"

definition entry_broken :: "u64 \<Rightarrow> string \<Rightarrow> string \<Rightarrow> string \<Rightarrow> nfo_entry" where
  "entry_broken at name kind reason = set_status Broken (Some reason)
     \<lparr>en_at = at, en_name = name, en_traits = [], en_kind = kind, en_unit = None, en_value = None\<rparr>"

definition entry_ended :: "u64 \<Rightarrow> string \<Rightarrow> nfo_entry \<Rightarrow> nfo_entry" where
  "entry_ended at reason self =
     (let e = set_status Ended (Some reason) (self\<lparr>en_at := at\<rparr>)
      in if told_apart_by_value self then e\<lparr>en_value := en_value self\<rparr> else e)"

definition json_get :: "json \<Rightarrow> string \<Rightarrow> json option" where
  "json_get v member = (case v of JObject m \<Rightarrow> bt_get m member | _ \<Rightarrow> None)"

definition entry_status :: "nfo_entry \<Rightarrow> string option" where
  "entry_status e = Option.bind (Option.bind (bt_get (en_traits e) ''status'') (\<lambda>s. json_get s ''is'')) as_str"

definition entry_reason :: "nfo_entry \<Rightarrow> string option" where
  "entry_reason e = Option.bind (Option.bind (bt_get (en_traits e) ''status'') (\<lambda>s. json_get s ''reason'')) as_str"

section \<open>In a message\<close>

definition entry_write_into :: "string \<Rightarrow> nfo_entry \<Rightarrow> jmap \<Rightarrow> jmap" where
  "entry_write_into name_member e m =
     (let m = bt_insert ''at'' (JNumber (PosInt (en_at e))) m;
          m = bt_insert name_member (JString (en_name e)) m;
          m = bt_insert ''traits'' (JObject (en_traits e)) m;
          m = bt_insert ''kind'' (JString (en_kind e)) m;
          m = put_some ''unit'' JString (en_unit e) m
      in put_some ''value'' (\<lambda>v. v) (en_value e) m)"

definition ok_or :: "'e \<Rightarrow> 'a option \<Rightarrow> 'e + 'a" where
  "ok_or e v = (case v of None \<Rightarrow> Inl e | Some x \<Rightarrow> Inr x)"

lemma ok_or_simps [simp]: "ok_or e (Some x) = Inr x" "ok_or e None = Inl e"
  by (simp_all add: ok_or_def)

definition entry_read_from :: "string \<Rightarrow> jmap \<Rightarrow> string + nfo_entry" where
  "entry_read_from name_member m =
     try_r (ok_or ''an entry carries a number `at`'' (Option.bind (bt_get m ''at'') as_u64)) (\<lambda>at.
     try_r (ok_or (''an entry carries a string `'' @ name_member @ ''`'') (Option.bind (bt_get m name_member) as_str)) (\<lambda>name.
     try_r (case bt_get m ''traits'' of
              Some (JObject traits) \<Rightarrow> Inr traits
            | _ \<Rightarrow> Inl ''an entry carries an object `traits`'') (\<lambda>traits.
     try_r (ok_or ''an entry carries a string `kind`'' (Option.bind (bt_get m ''kind'') as_str)) (\<lambda>kind.
     try_r (case bt_get m ''unit'' of
              None \<Rightarrow> Inr None
            | Some JNull \<Rightarrow> Inr None
            | Some (JString u) \<Rightarrow> Inr (Some u)
            | Some _ \<Rightarrow> Inl ''`unit` is a string'') (\<lambda>u.
     Inr \<lparr>en_at = at, en_name = name, en_traits = traits, en_kind = kind, en_unit = u,
       en_value = bt_get m ''value''\<rparr>)))))"

section \<open>Lemmas\<close>

lemma put_some_simps [simp]: "put_some k f None m = m" "put_some k f (Some x) m = bt_insert k (f x) m"
  by (simp_all add: put_some_def)

lemma bt_ok_put_some [simp, intro]: "bt_ok m \<Longrightarrow> bt_ok (put_some k f v m)"
  by (cases v) simp_all

lemma entry_reads_back:
  assumes fresh: "name_member \<notin> {''at'', ''traits'', ''kind'', ''unit'', ''value''}"
    and m: "bt_get m ''unit'' = None" "bt_get m ''value'' = None"
  shows "entry_read_from name_member (entry_write_into name_member e m) = Inr e"
  using assms
  by (cases e; cases "en_unit e"; cases "en_value e")
    (auto simp: entry_read_from_def entry_write_into_def)

text \<open>Every way to build an entry keeps its value and its status together.\<close>

definition status_tied :: "nfo_entry \<Rightarrow> bool" where
  "status_tied e \<longleftrightarrow> (\<exists>s. entry_status e = Some (entry_status_as_str s)
     \<and> (carries_value s \<longrightarrow> en_value e \<noteq> None)
     \<and> (\<not> carries_value s \<longrightarrow> en_value e \<noteq> None \<longrightarrow> s = Ended \<and> told_apart_by_value e))"

lemma entry_status_set [simp]: "entry_status (set_status s reason e) = Some (entry_status_as_str s)"
  by (cases reason) (simp_all add: set_status_def entry_status_def json_get_def Let_def)

lemma en_set_status [simp]:
  "en_value (set_status s reason e) = (if carries_value s then en_value e else None)"
  "en_name (set_status s reason e) = en_name e" "en_kind (set_status s reason e) = en_kind e"
  "en_unit (set_status s reason e) = en_unit e" "en_at (set_status s reason e) = en_at e"
  by (simp_all add: set_status_def Let_def)

lemma status_tied_built:
  "status_tied (entry_new at name kind v)"
  "status_tied (entry_skipped at name kind reason)"
  "status_tied (entry_broken at name kind reason)"
  "status_tied (entry_ended at reason e)"
  by (auto simp: status_tied_def entry_new_def entry_skipped_def entry_broken_def entry_ended_def carries_value_def
      told_apart_by_value_def Let_def entry_status_def json_get_def set_status_def intro: exI [of _ Passed] exI [of _ Skipped]
      exI [of _ Broken] exI [of _ Ended])

lemma status_tied_downgraded:
  assumes "en_value e \<noteq> None"
  shows "status_tied (entry_warning reason e)" "status_tied (entry_failed reason e)"
  using assms by (auto simp: status_tied_def entry_warning_def entry_failed_def carries_value_def
      intro: exI [of _ Warning] exI [of _ Failed])

end
