(* ===== verification/Messages.thy ===== *)
theory Messages
  imports Envelope Readings
begin

text \<open>
  The application messages, \<open>crates/bliti-core/src/channel/messages.rs\<close>: the one set both ends speak,
  how each is written as a JSON object and read back by its type's name, and which of its members go
  out critical.  A step's report and a prompt's are written and read by the code \<open>serde\<close> derives for
  \<open>crates/bliti-core/src/provisioning/report.rs\<close>: an object by its members, or an array in their
  order.  What \<open>serde_json\<close> makes of a float, and \<open>jiff\<close> of a date, are parameters, with the words
  \<open>serde\<close> says of a member it cannot read.
\<close>

section \<open>What the libraries do\<close>

record wire =
  w_from_f64 :: "f64 \<Rightarrow> jnumber option"
  w_as_f64 :: "jnumber \<Rightarrow> f64"
  w_date :: "date \<Rightarrow> string"
  w_read_date :: "string \<Rightarrow> date option"
  w_err :: "string \<Rightarrow> json \<Rightarrow> string"

definition number_of :: "wire \<Rightarrow> f64 \<Rightarrow> json" where
  "number_of w x = (case w_from_f64 w x of None \<Rightarrow> JNull | Some n \<Rightarrow> JNumber n)"

definition as_f64 :: "wire \<Rightarrow> json \<Rightarrow> f64 option" where
  "as_f64 w v = (case v of JNumber n \<Rightarrow> Some (w_as_f64 w n) | _ \<Rightarrow> None)"

section \<open>The messages\<close>

record span =
  sp_duration :: f64
  sp_margin :: f64

datatype (plugins only: code size) message =
    Hello string string
  | Subscribe string
  | Fact nfo_entry
  | ReadingOf nfo_entry
  | EndOfBatch
  | Configure
  | Configuration jmap "jmap option"
  | StateOf bool outcome_of "failure option" "json list" "jmap option"
  | CannotAct string string string
  | CannotConfigure string string
  | Scan "string option"
  | Survey "string option"
  | Networks "json list"
  | Spectrum jmap
  | Power
  | Acts "string list"
  | Act string
  | Accepted
  | GoingAway string string
  | Curve
  | Curves "json option" "span option" "span option"
  | Load json
  | Reset
  | Tailscale
  | TailscaleActs "string list"
  | TailscaleAct string "string option" "string option" "string option" "string option"
  | TailscaleAccepted
  | TailscaleLoginLink string
  | TailscaleResult jmap
  | TailscaleFailed string
  | Tamanu
  | TamanuActs "string list"
  | TamanuAct string
  | TamanuAccepted
  | TamanuFailed string
  | Provision
  | ProvisionState u32 date run_state bool bool "step_report list" "prompt_report list"
  | ProvisionAct string "string list option" "string option" "answer option"
  | ProvisionAccepted

section \<open>Written\<close>

definition span_to_json :: "wire \<Rightarrow> span \<Rightarrow> json" where
  "span_to_json w sp = JObject (bt_insert ''margin'' (number_of w (sp_margin sp))
     (bt_insert ''duration'' (number_of w (sp_duration sp)) []))"

definition step_report_to_json :: "wire \<Rightarrow> step_report \<Rightarrow> json" where
  "step_report_to_json w r =
     (let m = bt_insert ''id'' (JString (sr_id r)) [];
          m = bt_insert ''title'' (JString (sr_title r)) m;
          m = bt_insert ''done'' (JString (done_state_as_str (sr_done r))) m;
          m = put_some ''why'' JString (sr_why r) m;
          m = bt_insert ''state'' (JString (step_state_as_str (sr_state r))) m;
          m = put_some ''progress'' (number_of w) (sr_progress r) m;
          m = put_some ''reason'' JString (sr_reason r) m
      in JObject (put_some ''result'' JObject (sr_result r) m))"

definition prompt_report_to_json :: "prompt_report \<Rightarrow> json" where
  "prompt_report_to_json r =
     (let m = bt_insert ''id'' (JString (pr_id r)) [];
          m = bt_insert ''step'' (JString (pr_step r)) m;
          m = bt_insert ''kind'' (JString (prompt_kind_as_str (pr_kind r))) m;
          m = bt_insert ''text'' (JString (pr_text r)) m;
          m = bt_insert ''blocking'' (JBool (pr_blocking r)) m
      in JObject (put_some ''default'' JString (pr_default r) m))"

definition str_array :: "string list \<Rightarrow> json" where
  "str_array xs = JArray (map JString xs)"

definition insert_interface :: "jmap \<Rightarrow> string option \<Rightarrow> jmap" where
  "insert_interface m interface = put_some ''interface'' JString interface m"

definition typed :: "string \<Rightarrow> jmap" where
  "typed t = bt_insert ''type'' (JString t) []"

definition state_to_map :: "bool \<Rightarrow> outcome_of \<Rightarrow> failure option \<Rightarrow> json list \<Rightarrow> jmap option \<Rightarrow> jmap" where
  "state_to_map busy outcome failure attachments capabilities =
     (let m = bt_insert ''busy'' (JBool busy) (typed ''state'');
          m = bt_insert ''outcome'' (JString (outcome_as_str outcome)) m;
          m = put_some ''failure'' (\<lambda>f. JObject (failure_to_map f)) failure m;
          m = bt_insert ''attachments'' (JArray attachments) m
      in put_some ''capabilities'' JObject capabilities m)"

definition curves_to_map :: "wire \<Rightarrow> json option \<Rightarrow> span option \<Rightarrow> span option \<Rightarrow> jmap" where
  "curves_to_map w document lasts recharge =
     put_some ''recharge'' (span_to_json w) recharge
       (put_some ''lasts'' (span_to_json w) lasts
         (put_some ''document'' (\<lambda>v. v) document (typed ''curves'')))"

definition tailscale_act_to_map ::
  "string \<Rightarrow> string option \<Rightarrow> string option \<Rightarrow> string option \<Rightarrow> string option \<Rightarrow> jmap" where
  "tailscale_act_to_map act method key name peer =
     fold (\<lambda>(member, v). put_some member JString v)
       [(''method'', method), (''key'', key), (''name'', name), (''peer'', peer)]
       (bt_insert ''act'' (JString act) (typed ''tailscale-act''))"

definition provision_state_to_map ::
  "wire \<Rightarrow> u32 \<Rightarrow> date \<Rightarrow> run_state \<Rightarrow> bool \<Rightarrow> bool \<Rightarrow> step_report list \<Rightarrow> prompt_report list \<Rightarrow> jmap" where
  "provision_state_to_map w revision built run checked provisioned steps prompts =
     (let m = bt_insert ''revision'' (JNumber (PosInt (ucast revision))) (typed ''provision-state'');
          m = bt_insert ''built'' (JString (w_date w built)) m;
          m = bt_insert ''run'' (JString (run_state_as_str run)) m;
          m = bt_insert ''checked'' (JBool checked) m;
          m = bt_insert ''provisioned'' (JBool provisioned) m;
          m = bt_insert ''steps'' (JArray (map (step_report_to_json w) steps)) m
      in bt_insert ''prompts'' (JArray (map prompt_report_to_json prompts)) m)"

definition provision_act_to_map ::
  "string \<Rightarrow> string list option \<Rightarrow> string option \<Rightarrow> answer option \<Rightarrow> jmap" where
  "provision_act_to_map act steps prompt v =
     put_some ''value'' (\<lambda>v. v) v
       (put_some ''prompt'' JString prompt
         (put_some ''steps'' str_array steps
           (bt_insert ''act'' (JString act) (typed ''provision-act''))))"

primrec to_map :: "wire \<Rightarrow> message \<Rightarrow> jmap" where
  "to_map w (Hello name version) =
     bt_insert ''version'' (JString version) (bt_insert ''name'' (JString name) (typed ''hello''))"
| "to_map w (Subscribe topic) = bt_insert ''topic'' (JString topic) (typed ''subscribe'')"
| "to_map w (Fact e) = entry_write_into ''fact'' e (typed ''fact'')"
| "to_map w EndOfBatch = typed ''end-of-batch''"
| "to_map w (ReadingOf e) = entry_write_into ''measurement'' e (typed ''reading'')"
| "to_map w Configure = typed ''configure''"
| "to_map w (Configuration document capabilities) =
     put_some ''capabilities'' JObject capabilities
       (bt_insert ''document'' (JObject document) (typed ''configuration''))"
| "to_map w (StateOf busy outcome failure attachments capabilities) =
     state_to_map busy outcome failure attachments capabilities"
| "to_map w (CannotAct act at reason) =
     bt_insert ''reason'' (JString reason) (bt_insert ''at'' (JString at)
       (bt_insert ''act'' (JString act) (typed ''cannot-act'')))"
| "to_map w (CannotConfigure at reason) =
     bt_insert ''reason'' (JString reason) (bt_insert ''at'' (JString at) (typed ''cannot-configure''))"
| "to_map w (Scan interface) = insert_interface (typed ''scan'') interface"
| "to_map w (Survey interface) = insert_interface (typed ''survey'') interface"
| "to_map w (Networks access_points) = bt_insert ''access-points'' (JArray access_points) (typed ''networks'')"
| "to_map w (Spectrum spectrum) = bt_insert ''spectrum'' (JObject spectrum) (typed ''spectrum'')"
| "to_map w Power = typed ''power''"
| "to_map w (Acts acts) = bt_insert ''acts'' (str_array acts) (typed ''acts'')"
| "to_map w (Act act) = bt_insert ''act'' (JString act) (typed ''act'')"
| "to_map w Accepted = typed ''accepted''"
| "to_map w (GoingAway act cause) =
     bt_insert ''cause'' (JString cause) (bt_insert ''act'' (JString act) (typed ''going-away''))"
| "to_map w Curve = typed ''curve''"
| "to_map w (Curves document lasts recharge) = curves_to_map w document lasts recharge"
| "to_map w (Load document) = bt_insert ''document'' document (typed ''load'')"
| "to_map w Reset = typed ''reset''"
| "to_map w Tailscale = typed ''tailscale''"
| "to_map w (TailscaleActs acts) = bt_insert ''acts'' (str_array acts) (typed ''tailscale-acts'')"
| "to_map w (TailscaleAct act method key name peer) = tailscale_act_to_map act method key name peer"
| "to_map w TailscaleAccepted = typed ''tailscale-accepted''"
| "to_map w (TailscaleLoginLink url) = bt_insert ''url'' (JString url) (typed ''tailscale-login-link'')"
| "to_map w (TailscaleResult result) = bt_insert ''result'' (JObject result) (typed ''tailscale-result'')"
| "to_map w (TailscaleFailed reason) = bt_insert ''reason'' (JString reason) (typed ''tailscale-failed'')"
| "to_map w Tamanu = typed ''tamanu''"
| "to_map w (TamanuActs acts) = bt_insert ''acts'' (str_array acts) (typed ''tamanu-acts'')"
| "to_map w (TamanuAct act) = bt_insert ''act'' (JString act) (typed ''tamanu-act'')"
| "to_map w TamanuAccepted = typed ''tamanu-accepted''"
| "to_map w (TamanuFailed reason) = bt_insert ''reason'' (JString reason) (typed ''tamanu-failed'')"
| "to_map w Provision = typed ''provision''"
| "to_map w (ProvisionState revision built run checked provisioned steps prompts) =
     provision_state_to_map w revision built run checked provisioned steps prompts"
| "to_map w (ProvisionAct act steps prompt v) = provision_act_to_map act steps prompt v"
| "to_map w ProvisionAccepted = typed ''provision-accepted''"

section \<open>Read\<close>

text \<open>
  \<open>de::Error::custom\<close> and \<open>err.to_string()\<close> give the words as they are; where they quote a value, the
  value stands for its quotation.
\<close>

definition m_string :: "jmap \<Rightarrow> string \<Rightarrow> string + string" where
  "m_string m member =
     ok_or (''this message carries a string `'' @ member @ ''`'') (Option.bind (bt_get m member) as_str)"

definition m_boolean :: "jmap \<Rightarrow> string \<Rightarrow> string + bool" where
  "m_boolean m member =
     ok_or (''this message carries a boolean `'' @ member @ ''`'') (Option.bind (bt_get m member) as_bool)"

definition m_optional_string :: "jmap \<Rightarrow> string \<Rightarrow> string + string option" where
  "m_optional_string m member =
     (case bt_get m member of
        None \<Rightarrow> Inr None
      | Some JNull \<Rightarrow> Inr None
      | Some (JString v) \<Rightarrow> Inr (Some v)
      | Some _ \<Rightarrow> Inl (''`'' @ member @ ''` is a string''))"

definition m_object :: "jmap \<Rightarrow> string \<Rightarrow> string + jmap" where
  "m_object m member =
     (case bt_get m member of
        Some (JObject object) \<Rightarrow> Inr object
      | _ \<Rightarrow> Inl (''this message carries an object `'' @ member @ ''`''))"

definition m_optional_object :: "jmap \<Rightarrow> string \<Rightarrow> string + jmap option" where
  "m_optional_object m member =
     (case bt_get m member of
        None \<Rightarrow> Inr None
      | Some JNull \<Rightarrow> Inr None
      | Some (JObject object) \<Rightarrow> Inr (Some object)
      | Some _ \<Rightarrow> Inl (''`'' @ member @ ''` is an object''))"

definition m_optional_failure :: "jmap \<Rightarrow> string \<Rightarrow> string + failure option" where
  "m_optional_failure m member =
     try_r (m_optional_object m member) (\<lambda>f. case f of
        None \<Rightarrow> Inr None
      | Some failure \<Rightarrow> try_r (failure_read failure) (\<lambda>f. Inr (Some f)))"

definition m_array :: "jmap \<Rightarrow> string \<Rightarrow> string + json list" where
  "m_array m member =
     (case bt_get m member of
        Some (JArray items) \<Rightarrow> Inr items
      | _ \<Rightarrow> Inl (''this message carries an array `'' @ member @ ''`''))"

definition m_strings :: "jmap \<Rightarrow> string \<Rightarrow> string + string list" where
  "m_strings m member =
     try_r (m_array m member) (\<lambda>items.
       ok_or (''`'' @ member @ ''` holds strings'') (those (map as_str items)))"

definition span_seconds :: "wire \<Rightarrow> jmap \<Rightarrow> string \<Rightarrow> string \<Rightarrow> string + f64" where
  "span_seconds w sp member name =
     ok_or (''`'' @ member @ ''` carries a number `'' @ name @ ''`'') (Option.bind (bt_get sp name) (as_f64 w))"

definition m_optional_span :: "wire \<Rightarrow> jmap \<Rightarrow> string \<Rightarrow> string + span option" where
  "m_optional_span w m member =
     try_r (m_optional_object m member) (\<lambda>sp. case sp of
        None \<Rightarrow> Inr None
      | Some sp \<Rightarrow>
          try_r (span_seconds w sp member ''duration'') (\<lambda>duration.
          try_r (span_seconds w sp member ''margin'') (\<lambda>margin.
          Inr (Some \<lparr>sp_duration = duration, sp_margin = margin\<rparr>))))"

text \<open>
  What \<open>serde\<close> derives to read a struct of these members: an object's members by name, or the items
  of an array no longer than them, in their order.
\<close>

definition struct_member :: "string list \<Rightarrow> json \<Rightarrow> string \<Rightarrow> json option" where
  "struct_member names v name =
     (case v of
        JObject m \<Rightarrow> bt_get m name
      | JArray items \<Rightarrow> map_of (zip names items) name
      | _ \<Rightarrow> None)"

definition is_struct :: "string list \<Rightarrow> json \<Rightarrow> bool" where
  "is_struct names v \<longleftrightarrow>
     (case v of JObject _ \<Rightarrow> True | JArray items \<Rightarrow> length items \<le> length names | _ \<Rightarrow> False)"

definition optional_of :: "(json \<Rightarrow> 'a option) \<Rightarrow> json option \<Rightarrow> 'a option option" where
  "optional_of f v = (case v of None \<Rightarrow> Some None | Some JNull \<Rightarrow> Some None | Some v \<Rightarrow> map_option Some (f v))"

definition as_object :: "json \<Rightarrow> jmap option" where
  "as_object v = (case v of JObject m \<Rightarrow> Some m | _ \<Rightarrow> None)"

definition step_report_members :: "string list" where
  "step_report_members =
     [''id'', ''title'', ''done'', ''why'', ''state'', ''progress'', ''reason'', ''result'']"

definition step_report_read :: "wire \<Rightarrow> json \<Rightarrow> step_report option" where
  "step_report_read w v =
     (let get = struct_member step_report_members v in
      if \<not> is_struct step_report_members v then None
      else Option.bind (Option.bind (get ''id'') as_str) (\<lambda>id.
           Option.bind (Option.bind (get ''title'') as_str) (\<lambda>title.
           Option.bind (Option.bind (Option.bind (get ''done'') as_str) done_state_read) (\<lambda>done.
           Option.bind (optional_of as_str (get ''why'')) (\<lambda>why.
           Option.bind (Option.bind (Option.bind (get ''state'') as_str) step_state_read) (\<lambda>state.
           Option.bind (optional_of (as_f64 w) (get ''progress'')) (\<lambda>progress.
           Option.bind (optional_of as_str (get ''reason'')) (\<lambda>reason.
           Option.bind (optional_of as_object (get ''result'')) (\<lambda>result.
           Some \<lparr>sr_id = id, sr_title = title, sr_done = done, sr_why = why, sr_state = state,
             sr_progress = progress, sr_reason = reason, sr_result = result\<rparr>)))))))))"

definition prompt_report_members :: "string list" where
  "prompt_report_members = [''id'', ''step'', ''kind'', ''text'', ''blocking'', ''default'']"

definition prompt_report_read :: "json \<Rightarrow> prompt_report option" where
  "prompt_report_read v =
     (let get = struct_member prompt_report_members v in
      if \<not> is_struct prompt_report_members v then None
      else Option.bind (Option.bind (get ''id'') as_str) (\<lambda>id.
           Option.bind (Option.bind (get ''step'') as_str) (\<lambda>step.
           Option.bind (Option.bind (get ''kind'') as_str) (\<lambda>kind.
           Option.bind (Option.bind (get ''text'') as_str) (\<lambda>t.
           Option.bind (Option.bind (get ''blocking'') as_bool) (\<lambda>blocking.
           Option.bind (optional_of as_str (get ''default'')) (\<lambda>default.
           Some \<lparr>pr_id = id, pr_step = step, pr_kind = prompt_kind_read kind, pr_text = t,
             pr_blocking = blocking, pr_default = default\<rparr>)))))))"

text \<open>A member read as the type that owns its shape.\<close>

definition from_member :: "wire \<Rightarrow> (json \<Rightarrow> 'a option) \<Rightarrow> jmap \<Rightarrow> string \<Rightarrow> string + 'a" where
  "from_member w f m member =
     (case bt_get m member of
        None \<Rightarrow> Inl (''this message carries `'' @ member @ ''`'')
      | Some v \<Rightarrow> ok_or (''`'' @ member @ ''`: '' @ w_err w member v) (f v))"

definition list_of :: "(json \<Rightarrow> 'a option) \<Rightarrow> json \<Rightarrow> 'a list option" where
  "list_of f v = (case v of JArray items \<Rightarrow> those (map f items) | _ \<Rightarrow> None)"

text \<open>\<open>visit_map\<close>, by the name of the type; the ones with much to read apart.\<close>

definition configuration_read :: "jmap \<Rightarrow> string + message" where
  "configuration_read m =
     try_r (m_object m ''document'') (\<lambda>document.
     try_r (m_optional_object m ''capabilities'') (\<lambda>capabilities. Inr (Configuration document capabilities)))"

definition state_read :: "jmap \<Rightarrow> string + message" where
  "state_read m =
     try_r (m_boolean m ''busy'') (\<lambda>busy.
     try_r (try_r (m_string m ''outcome'') outcome_read) (\<lambda>outcome.
     try_r (m_optional_failure m ''failure'') (\<lambda>failure.
     try_r (m_array m ''attachments'') (\<lambda>attachments.
     try_r (m_optional_object m ''capabilities'') (\<lambda>capabilities.
     Inr (StateOf busy outcome failure attachments capabilities))))))"

definition curves_read :: "wire \<Rightarrow> jmap \<Rightarrow> string + message" where
  "curves_read w m =
     (let document = (case bt_get m ''document'' of None \<Rightarrow> None | Some JNull \<Rightarrow> None | Some document \<Rightarrow> Some document) in
      try_r (m_optional_span w m ''lasts'') (\<lambda>lasts.
      try_r (m_optional_span w m ''recharge'') (\<lambda>recharge. Inr (Curves document lasts recharge))))"

definition tailscale_act_read :: "jmap \<Rightarrow> string + message" where
  "tailscale_act_read m =
     try_r (m_string m ''act'') (\<lambda>act.
     try_r (m_optional_string m ''method'') (\<lambda>method.
     try_r (m_optional_string m ''key'') (\<lambda>key.
     try_r (m_optional_string m ''name'') (\<lambda>name.
     try_r (m_optional_string m ''peer'') (\<lambda>peer. Inr (TailscaleAct act method key name peer))))))"

definition provision_state_read :: "wire \<Rightarrow> jmap \<Rightarrow> string + message" where
  "provision_state_read w m =
     try_r (from_member w (\<lambda>v. Option.bind (as_u64 v) u32_try_from) m ''revision'') (\<lambda>revision.
     try_r (from_member w (\<lambda>v. Option.bind (as_str v) (w_read_date w)) m ''built'') (\<lambda>built.
     try_r (from_member w (\<lambda>v. Option.bind (as_str v) run_state_read) m ''run'') (\<lambda>run.
     try_r (m_boolean m ''checked'') (\<lambda>checked.
     try_r (m_boolean m ''provisioned'') (\<lambda>provisioned.
     try_r (from_member w (list_of (step_report_read w)) m ''steps'') (\<lambda>steps.
     try_r (from_member w (list_of prompt_report_read) m ''prompts'') (\<lambda>prompts.
     Inr (ProvisionState revision built run checked provisioned steps prompts))))))))"

definition provision_act_read :: "jmap \<Rightarrow> string + message" where
  "provision_act_read m =
     try_r (m_string m ''act'') (\<lambda>act.
     try_r (case bt_get m ''steps'' of
              None \<Rightarrow> Inr None
            | Some JNull \<Rightarrow> Inr None
            | Some _ \<Rightarrow> try_r (m_strings m ''steps'') (\<lambda>steps. Inr (Some steps))) (\<lambda>steps.
     try_r (m_optional_string m ''prompt'') (\<lambda>prompt.
     Inr (ProvisionAct act steps prompt
       (case bt_get m ''value'' of None \<Rightarrow> None | Some JNull \<Rightarrow> None | Some v \<Rightarrow> Some v)))))"

definition visit_map :: "wire \<Rightarrow> jmap \<Rightarrow> string \<Rightarrow> string + message" where
  "visit_map w m t =
     (if t = ''hello'' then
        try_r (m_string m ''name'') (\<lambda>name. try_r (m_string m ''version'') (\<lambda>version. Inr (Hello name version)))
      else if t = ''subscribe'' then try_r (m_string m ''topic'') (\<lambda>topic. Inr (Subscribe topic))
      else if t = ''fact'' then try_r (entry_read_from ''fact'' m) (\<lambda>e. Inr (Fact e))
      else if t = ''reading'' then try_r (entry_read_from ''measurement'' m) (\<lambda>e. Inr (ReadingOf e))
      else if t = ''end-of-batch'' then Inr EndOfBatch
      else if t = ''configure'' then Inr Configure
      else if t = ''configuration'' then configuration_read m
      else if t = ''state'' then state_read m
      else if t = ''cannot-act'' then
        try_r (m_string m ''act'') (\<lambda>act. try_r (m_string m ''at'') (\<lambda>at.
        try_r (m_string m ''reason'') (\<lambda>reason. Inr (CannotAct act at reason))))
      else if t = ''cannot-configure'' then
        try_r (m_string m ''at'') (\<lambda>at. try_r (m_string m ''reason'') (\<lambda>reason. Inr (CannotConfigure at reason)))
      else if t = ''scan'' then try_r (m_optional_string m ''interface'') (\<lambda>interface. Inr (Scan interface))
      else if t = ''survey'' then try_r (m_optional_string m ''interface'') (\<lambda>interface. Inr (Survey interface))
      else if t = ''networks'' then try_r (m_array m ''access-points'') (\<lambda>access_points. Inr (Networks access_points))
      else if t = ''spectrum'' then try_r (m_object m ''spectrum'') (\<lambda>spectrum. Inr (Spectrum spectrum))
      else if t = ''power'' then Inr Power
      else if t = ''acts'' then try_r (m_strings m ''acts'') (\<lambda>acts. Inr (Acts acts))
      else if t = ''act'' then try_r (m_string m ''act'') (\<lambda>act. Inr (Act act))
      else if t = ''accepted'' then Inr Accepted
      else if t = ''going-away'' then
        try_r (m_string m ''act'') (\<lambda>act. try_r (m_string m ''cause'') (\<lambda>cause. Inr (GoingAway act cause)))
      else if t = ''curve'' then Inr Curve
      else if t = ''curves'' then curves_read w m
      else if t = ''load'' then
        try_r (ok_or ''this message carries a `document`'' (bt_get m ''document'')) (\<lambda>document. Inr (Load document))
      else if t = ''reset'' then Inr Reset
      else if t = ''tailscale'' then Inr Tailscale
      else if t = ''tailscale-acts'' then try_r (m_strings m ''acts'') (\<lambda>acts. Inr (TailscaleActs acts))
      else if t = ''tailscale-act'' then tailscale_act_read m
      else if t = ''tailscale-accepted'' then Inr TailscaleAccepted
      else if t = ''tailscale-login-link'' then try_r (m_string m ''url'') (\<lambda>url. Inr (TailscaleLoginLink url))
      else if t = ''tailscale-result'' then try_r (m_object m ''result'') (\<lambda>result. Inr (TailscaleResult result))
      else if t = ''tailscale-failed'' then try_r (m_string m ''reason'') (\<lambda>reason. Inr (TailscaleFailed reason))
      else if t = ''tamanu'' then Inr Tamanu
      else if t = ''tamanu-acts'' then try_r (m_strings m ''acts'') (\<lambda>acts. Inr (TamanuActs acts))
      else if t = ''tamanu-act'' then try_r (m_string m ''act'') (\<lambda>act. Inr (TamanuAct act))
      else if t = ''tamanu-accepted'' then Inr TamanuAccepted
      else if t = ''tamanu-failed'' then try_r (m_string m ''reason'') (\<lambda>reason. Inr (TamanuFailed reason))
      else if t = ''provision'' then Inr Provision
      else if t = ''provision-state'' then provision_state_read w m
      else if t = ''provision-act'' then provision_act_read m
      else if t = ''provision-accepted'' then Inr ProvisionAccepted
      else Inl (''unknown message type '' @ t))"

definition message_read :: "wire \<Rightarrow> json \<Rightarrow> string + message" where
  "message_read w v =
     (case v of
        JObject entries \<Rightarrow>
          (let m = bt_collect entries in
           try_r (ok_or ''a message carries a string `type`'' (Option.bind (bt_get m ''type'') as_str)) (visit_map w m))
      | _ \<Rightarrow> Inl ''expected a bliti application message'')"

section \<open>The set\<close>

definition known_types :: "string list" where
  "known_types =
     [''hello'', ''subscribe'', ''fact'', ''reading'', ''end-of-batch'', ''configure'', ''configuration'',
      ''state'', ''cannot-act'', ''cannot-configure'', ''scan'', ''survey'', ''networks'', ''spectrum'',
      ''power'', ''acts'', ''act'', ''accepted'', ''going-away'', ''curve'', ''curves'', ''load'', ''reset'',
      ''tailscale'', ''tailscale-acts'', ''tailscale-act'', ''tailscale-accepted'', ''tailscale-login-link'',
      ''tailscale-result'', ''tailscale-failed'', ''tamanu'', ''tamanu-acts'', ''tamanu-act'',
      ''tamanu-accepted'', ''tamanu-failed'', ''provision'', ''provision-state'', ''provision-act'',
      ''provision-accepted'']"

definition message_criticality :: "string \<Rightarrow> criticality" where
  "message_criticality t =
     (if t = ''hello'' then Exactly []
      else if t = ''subscribe'' then Exactly [''topic'']
      else Unconstrained)"

definition critical_members :: "string \<Rightarrow> string list" where
  "critical_members t =
     (if t = ''subscribe'' then [''topic'']
      else if t = ''configuration'' then [''document'']
      else if t = ''act'' then [''act'']
      else if t = ''tailscale-act'' then [''act'', ''method'', ''key'', ''name'', ''peer'']
      else if t = ''tamanu-act'' then [''act'']
      else if t = ''provision-act'' then [''act'', ''steps'', ''prompt'', ''value'']
      else [])"

definition messages :: "wire \<Rightarrow> message message_set" where
  "messages w = \<lparr>ms_known = known_types, ms_criticality = message_criticality, ms_critical = critical_members,
     ms_read = message_read w, ms_write = (\<lambda>m. JObject (to_map w m))\<rparr>"

section \<open>What can be sent\<close>

text \<open>
  A message its sender means to be read as it is: what it carries as raw JSON names its members the
  way the envelope does, its floats are numbers JSON has, its date is one a date is read from, and no
  optional member is there as null.
\<close>

definition float_ok :: "wire \<Rightarrow> f64 \<Rightarrow> bool" where
  "float_ok w x \<longleftrightarrow> (case w_from_f64 w x of None \<Rightarrow> False | Some n \<Rightarrow> w_as_f64 w n = x)"

definition tidy_map :: "jmap \<Rightarrow> bool" where "tidy_map m \<longleftrightarrow> tidy (JObject m)"

definition span_ok :: "wire \<Rightarrow> span \<Rightarrow> bool" where
  "span_ok w sp \<longleftrightarrow> float_ok w (sp_duration sp) \<and> float_ok w (sp_margin sp)"

definition some_json :: "json \<Rightarrow> bool" where "some_json v \<longleftrightarrow> tidy v \<and> (case v of JNull \<Rightarrow> False | _ \<Rightarrow> True)"

definition entry_ok :: "nfo_entry \<Rightarrow> bool" where
  "entry_ok e \<longleftrightarrow> tidy_map (en_traits e) \<and> pred_option tidy (en_value e)"

definition step_report_ok :: "wire \<Rightarrow> step_report \<Rightarrow> bool" where
  "step_report_ok w r \<longleftrightarrow> pred_option (float_ok w) (sr_progress r) \<and> pred_option tidy_map (sr_result r)"

definition prompt_report_ok :: "prompt_report \<Rightarrow> bool" where
  "prompt_report_ok r \<longleftrightarrow> (case pr_kind r of
     OtherKind name \<Rightarrow> name \<notin> set [''notice'', ''confirm'', ''text'', ''secret''] | _ \<Rightarrow> True)"

definition sendable :: "wire \<Rightarrow> message \<Rightarrow> bool" where
  "sendable w m =
     (case m of
        Fact e \<Rightarrow> entry_ok e
      | ReadingOf e \<Rightarrow> entry_ok e
      | Configuration document capabilities \<Rightarrow> tidy_map document \<and> pred_option tidy_map capabilities
      | StateOf busy outcome failure attachments capabilities \<Rightarrow>
          list_all tidy attachments \<and> pred_option tidy_map capabilities
      | Networks access_points \<Rightarrow> list_all tidy access_points
      | Spectrum spectrum \<Rightarrow> tidy_map spectrum
      | Curves document lasts recharge \<Rightarrow>
          pred_option some_json document \<and> pred_option (span_ok w) lasts \<and> pred_option (span_ok w) recharge
      | Load document \<Rightarrow> tidy document
      | TailscaleResult result \<Rightarrow> tidy_map result
      | ProvisionState revision built run checked provisioned steps prompts \<Rightarrow>
          (case w_read_date w (w_date w built) of None \<Rightarrow> False | Some d \<Rightarrow> d = built)
          \<and> list_all (step_report_ok w) steps \<and> list_all prompt_report_ok prompts
      | ProvisionAct act steps prompt v \<Rightarrow> pred_option some_json v
      | _ \<Rightarrow> True)"

section \<open>Names are lower case throughout\<close>

lemma names_plain: "list_all (\<lambda>n. classify n = Some False)
    [''type'', ''name'', ''version'', ''topic'', ''at'', ''fact'', ''measurement'', ''traits'', ''kind'', ''unit'',
     ''value'', ''document'', ''capabilities'', ''busy'', ''outcome'', ''failure'', ''attachments'', ''act'',
     ''reason'', ''interface'', ''access-points'', ''spectrum'', ''acts'', ''cause'', ''lasts'', ''recharge'',
     ''method'', ''key'', ''peer'', ''url'', ''result'', ''revision'', ''built'', ''run'', ''checked'', ''provisioned'',
     ''steps'', ''prompts'', ''prompt'', ''duration'', ''margin'', ''id'', ''title'', ''done'', ''why'', ''state'',
     ''progress'', ''step'', ''text'', ''blocking'', ''default'', ''reached'']"
  by code_simp

lemma names_markable: "list_all markable
    [''topic'', ''document'', ''act'', ''method'', ''key'', ''name'', ''peer'', ''steps'', ''prompt'', ''value'']"
  by code_simp

declare bt_insert.simps [simp del] bt_get_put_some [simp del]

lemma bt_get_put [simp]:
  "q \<noteq> k \<Longrightarrow> bt_get (put_some k f v m) q = bt_get m q"
  "bt_get m k = None \<Longrightarrow> bt_get (put_some k f v m) k = map_option f v"
  by (cases v; simp)+

lemmas tidy_names = names_plain [unfolded list.pred_inject]

lemma tidy_map_Nil [simp]: "tidy_map []"
  by (simp add: tidy_map_def tidy_object bt_ok_def)

lemma tidy_map_insert: "classify k = Some False \<Longrightarrow> tidy v \<Longrightarrow> tidy_map m \<Longrightarrow> tidy_map (bt_insert k v m)"
  unfolding tidy_map_def tidy_object
  by (auto simp: bt_ok_get_iff [symmetric] split: if_splits)

lemma tidy_map_put: "classify k = Some False \<Longrightarrow> pred_option (tidy \<circ> f) v \<Longrightarrow> tidy_map m \<Longrightarrow> tidy_map (put_some k f v m)"
  by (cases v) (simp_all add: tidy_map_insert)

lemma tidy_JObject: "tidy (JObject m) \<longleftrightarrow> tidy_map m"
  by (simp add: tidy_map_def)

lemma tidy_str_array [simp]: "tidy (str_array xs)"
  by (simp add: str_array_def tidy_array)

lemma tidy_number [simp]: "tidy (number_of w x)"
  by (simp add: number_of_def split: option.split)

lemmas tidy_rules = tidy_map_insert tidy_map_put tidy_JObject tidy_names typed_def

lemma tidy_reports:
  "step_report_ok w r \<Longrightarrow> tidy (step_report_to_json w r)"
  "prompt_report_ok p \<Longrightarrow> tidy (prompt_report_to_json p)"
  "tidy (span_to_json w sp)" "tidy_map (failure_to_map f)"
  "entry_ok e \<Longrightarrow> tidy_map m \<Longrightarrow> classify member = Some False \<Longrightarrow> tidy_map (entry_write_into member e m)"
  by (auto simp: step_report_to_json_def prompt_report_to_json_def span_to_json_def failure_to_map_def entry_write_into_def
      step_report_ok_def entry_ok_def Let_def tidy_rules comp_def option.pred_True pred_option_def split: option.split)

text \<open>Each message is an object of such names, with its type.\<close>

lemma to_map_tidy: "sendable w m \<Longrightarrow> tidy_map (to_map w m)"
  by (cases m) (simp_all add: sendable_def tidy_rules tidy_reports state_to_map_def curves_to_map_def
    tailscale_act_to_map_def provision_state_to_map_def provision_act_to_map_def insert_interface_def Let_def
    comp_def tidy_array list_all_iff pred_option_def some_json_def)

lemma to_map_type: "\<exists>t. bt_get (to_map w m) ''type'' = Some (JString t) \<and> t \<in> set known_types"
  by (cases m) (simp_all add: typed_def known_types_def state_to_map_def curves_to_map_def entry_write_into_def
    tailscale_act_to_map_def provision_state_to_map_def provision_act_to_map_def insert_interface_def Let_def)

section \<open>Members read back\<close>

lemma those_as_str [simp]: "those (map (as_str \<circ> JString) xs) = Some xs"
  by (induction xs) simp_all

lemma those_Some: "(\<forall>x \<in> set xs. f (g x) = Some x) \<Longrightarrow> those (map (f \<circ> g) xs) = Some xs"
  by (induction xs) simp_all

lemma m_reads [simp]:
  "bt_get m k = Some (JString s) \<Longrightarrow> m_string m k = Inr s"
  "bt_get m k = Some (JBool b) \<Longrightarrow> m_boolean m k = Inr b"
  "bt_get m k = Some (JObject ob) \<Longrightarrow> m_object m k = Inr ob"
  "bt_get m k = Some (JArray vs) \<Longrightarrow> m_array m k = Inr vs"
  "bt_get m k = Some (str_array ss) \<Longrightarrow> m_strings m k = Inr ss"
  by (simp_all add: m_string_def m_boolean_def m_object_def m_array_def m_strings_def str_array_def)

lemma m_optional_reads [simp]:
  "bt_get m k = None \<Longrightarrow> m_optional_string m k = Inr None"
  "bt_get m k = Some (JString s) \<Longrightarrow> m_optional_string m k = Inr (Some s)"
  "bt_get m k = None \<Longrightarrow> m_optional_object m k = Inr None"
  "bt_get m k = Some (JObject ob) \<Longrightarrow> m_optional_object m k = Inr (Some ob)"
  by (simp_all add: m_optional_string_def m_optional_object_def)

lemma as_f64_number_of: "float_ok w x \<Longrightarrow> as_f64 w (number_of w x) = Some x"
  by (simp add: float_ok_def as_f64_def number_of_def split: option.splits)

lemma number_of_not_null: "float_ok w x \<Longrightarrow> \<exists>n. number_of w x = JNumber n"
  by (simp add: float_ok_def number_of_def split: option.splits)

lemma span_reads [simp]:
  "bt_get m k = None \<Longrightarrow> m_optional_span w m k = Inr None"
  "bt_get m k = Some (span_to_json w sp) \<Longrightarrow> span_ok w sp \<Longrightarrow> m_optional_span w m k = Inr (Some sp)"
  by (simp_all add: m_optional_span_def span_to_json_def span_seconds_def span_ok_def as_f64_number_of)

lemma step_report_reads_back: "step_report_ok w r \<Longrightarrow> step_report_read w (step_report_to_json w r) = Some r"
proof -
  assume ok: "step_report_ok w r"
  have progress: "optional_of (as_f64 w) (map_option (number_of w) (sr_progress r)) = Some (sr_progress r)"
  proof (cases "sr_progress r")
    case (Some x)
    with ok have "float_ok w x" by (simp add: step_report_ok_def)
    with number_of_not_null [OF this] Some show ?thesis
      by (auto simp: optional_of_def as_f64_number_of dest: as_f64_number_of)
  qed (simp add: optional_of_def)
  have str: "optional_of as_str (map_option JString v) = Some v" for v
    by (cases v) (simp_all add: optional_of_def)
  have ob: "optional_of as_object (map_option JObject v) = Some v" for v
    by (cases v) (simp_all add: optional_of_def as_object_def)
  obtain m where m: "step_report_to_json w r = JObject m" and m_def: "JObject m = step_report_to_json w r"
    by (simp add: step_report_to_json_def Let_def)
  have get: "bt_get m ''id'' = Some (JString (sr_id r))" "bt_get m ''title'' = Some (JString (sr_title r))"
      "bt_get m ''done'' = Some (JString (done_state_as_str (sr_done r)))"
      "bt_get m ''why'' = map_option JString (sr_why r)"
      "bt_get m ''state'' = Some (JString (step_state_as_str (sr_state r)))"
      "bt_get m ''progress'' = map_option (number_of w) (sr_progress r)"
      "bt_get m ''reason'' = map_option JString (sr_reason r)"
      "bt_get m ''result'' = map_option JObject (sr_result r)"
    using m_def by (simp_all add: step_report_to_json_def Let_def)
  show ?thesis
    unfolding step_report_read_def m
    by (simp add: is_struct_def struct_member_def get progress str ob done_names.read_as_str step_names.read_as_str)
qed

lemma prompt_report_reads_back: "prompt_report_ok r \<Longrightarrow> prompt_report_read (prompt_report_to_json r) = Some r"
proof -
  assume ok: "prompt_report_ok r"
  have kind: "prompt_kind_read (prompt_kind_as_str (pr_kind r)) = pr_kind r"
    using ok by (cases "pr_kind r") (simp_all add: prompt_report_ok_def prompt_kind_read_def)
  have str: "optional_of as_str (map_option JString v) = Some v" for v
    by (cases v) (simp_all add: optional_of_def)
  obtain m where m: "prompt_report_to_json r = JObject m" and m_def: "JObject m = prompt_report_to_json r"
    by (simp add: prompt_report_to_json_def Let_def)
  have get: "bt_get m ''id'' = Some (JString (pr_id r))" "bt_get m ''step'' = Some (JString (pr_step r))"
      "bt_get m ''kind'' = Some (JString (prompt_kind_as_str (pr_kind r)))"
      "bt_get m ''text'' = Some (JString (pr_text r))" "bt_get m ''blocking'' = Some (JBool (pr_blocking r))"
      "bt_get m ''default'' = map_option JString (pr_default r)"
    using m_def by (simp_all add: prompt_report_to_json_def Let_def)
  show ?thesis
    unfolding prompt_report_read_def m by (simp add: is_struct_def struct_member_def get str kind)
qed

lemma list_reads_back: "list_all ok xs \<Longrightarrow> (\<And>x. ok x \<Longrightarrow> f (g x) = Some x) \<Longrightarrow> list_of f (JArray (map g xs)) = Some xs"
  by (simp add: list_of_def those_Some list_all_iff)

section \<open>Messages read back\<close>

lemma failure_member_reads:
  "bt_get m k = map_option (\<lambda>f. JObject (failure_to_map f)) f \<Longrightarrow> m_optional_failure m k = Inr f"
  by (cases f) (simp_all add: m_optional_failure_def failure_roundtrip)

lemma optional_member_reads [simp]:
  "bt_get m k = map_option JObject v \<Longrightarrow> m_optional_object m k = Inr v"
  "bt_get m k = map_option JString s \<Longrightarrow> m_optional_string m k = Inr s"
  by (cases v; simp) (cases s; simp)

lemma span_member_reads:
  "bt_get m k = map_option (span_to_json w) sp \<Longrightarrow> pred_option (span_ok w) sp \<Longrightarrow> m_optional_span w m k = Inr sp"
  by (cases sp) simp_all

lemma state_reads_back: "state_read (state_to_map busy outcome failure attachments capabilities) =
    Inr (StateOf busy outcome failure attachments capabilities)"
proof -
  have "outcome_read (outcome_as_str outcome) = Inr outcome" by (cases outcome) (simp_all add: outcome_read_def)
  then show ?thesis
    by (simp add: state_read_def state_to_map_def Let_def typed_def failure_member_reads [where f = failure])
qed

lemma curves_reads_back:
  assumes "sendable w (Curves document lasts recharge)"
  shows "curves_read w (curves_to_map w document lasts recharge) = Inr (Curves document lasts recharge)"
proof -
  let ?m = "curves_to_map w document lasts recharge"
  have get: "bt_get ?m ''document'' = document" "bt_get ?m ''lasts'' = map_option (span_to_json w) lasts"
    "bt_get ?m ''recharge'' = map_option (span_to_json w) recharge"
    by (simp_all add: curves_to_map_def typed_def option.map_ident)
  have doc: "(case document of None \<Rightarrow> None | Some JNull \<Rightarrow> None | Some d \<Rightarrow> Some d) = document"
    using assms by (auto simp: sendable_def some_json_def split: option.split json.splits)
  show ?thesis using assms span_member_reads [OF get(2)] span_member_reads [OF get(3)]
    by (simp add: curves_read_def get(1) doc sendable_def)
qed

lemma tailscale_act_reads_back:
  "tailscale_act_read (tailscale_act_to_map act method key name peer) = Inr (TailscaleAct act method key name peer)"
  by (simp add: tailscale_act_read_def tailscale_act_to_map_def typed_def)

lemma from_member_reads: "bt_get m k = Some v \<Longrightarrow> f v = Some x \<Longrightarrow> from_member w f m k = Inr x"
  by (simp add: from_member_def)

lemma provision_state_reads_back:
  assumes "sendable w (ProvisionState revision built run checked provisioned steps prompts)"
  shows "provision_state_read w (provision_state_to_map w revision built run checked provisioned steps prompts) =
    Inr (ProvisionState revision built run checked provisioned steps prompts)"
proof -
  let ?m = "provision_state_to_map w revision built run checked provisioned steps prompts"
  from assms have ok: "w_read_date w (w_date w built) = Some built" "list_all (step_report_ok w) steps"
    "list_all prompt_report_ok prompts" by (auto simp: sendable_def split: option.splits)
  have "from_member w (\<lambda>v. Option.bind (as_u64 v) u32_try_from) ?m ''revision'' = Inr revision"
    "from_member w (\<lambda>v. Option.bind (as_str v) (w_read_date w)) ?m ''built'' = Inr built"
    "from_member w (\<lambda>v. Option.bind (as_str v) run_state_read) ?m ''run'' = Inr run"
    "m_boolean ?m ''checked'' = Inr checked" "m_boolean ?m ''provisioned'' = Inr provisioned"
    by (simp_all add: from_member_def provision_state_to_map_def Let_def ok run_names.read_as_str)
  moreover have "from_member w (list_of (step_report_read w)) ?m ''steps'' = Inr steps"
    using list_reads_back [OF ok(2), of "step_report_read w" "step_report_to_json w"] step_report_reads_back
    by (intro from_member_reads) (auto simp: provision_state_to_map_def Let_def)
  moreover have "from_member w (list_of prompt_report_read) ?m ''prompts'' = Inr prompts"
    using list_reads_back [OF ok(3), of prompt_report_read prompt_report_to_json] prompt_report_reads_back
    by (intro from_member_reads) (auto simp: provision_state_to_map_def Let_def)
  ultimately show ?thesis by (simp add: provision_state_read_def)
qed

lemma provision_act_reads_back:
  assumes "sendable w (ProvisionAct act steps prompt v)"
  shows "provision_act_read (provision_act_to_map act steps prompt v) = Inr (ProvisionAct act steps prompt v)"
proof -
  let ?m = "provision_act_to_map act steps prompt v"
  have get: "bt_get ?m ''act'' = Some (JString act)" "bt_get ?m ''steps'' = map_option str_array steps"
    "bt_get ?m ''prompt'' = map_option JString prompt" "bt_get ?m ''value'' = v"
    by (simp_all add: provision_act_to_map_def typed_def option.map_ident)
  have v: "(case v of None \<Rightarrow> None | Some JNull \<Rightarrow> None | Some d \<Rightarrow> Some d) = v"
    using assms by (auto simp: sendable_def some_json_def split: option.split json.splits)
  have "(case bt_get ?m ''steps'' of None \<Rightarrow> Inr None | Some JNull \<Rightarrow> Inr None
      | Some _ \<Rightarrow> try_r (m_strings ?m ''steps'') (\<lambda>steps. Inr (Some steps))) = Inr steps"
  proof (cases steps)
    case (Some xs)
    with get(2) have steps: "bt_get ?m ''steps'' = Some (str_array xs)" by simp
    then have "m_strings ?m ''steps'' = Inr xs" by (rule m_reads)
    then show ?thesis unfolding steps using Some by (simp add: str_array_def)
  next
    case None
    with get(2) have "bt_get ?m ''steps'' = None" by simp
    then show ?thesis using None by simp
  qed
  then show ?thesis by (simp add: provision_act_read_def get v)
qed

lemma entries_read_back:
  "entry_read_from ''fact'' (entry_write_into ''fact'' e (typed ''fact'')) = Inr e"
  "entry_read_from ''measurement'' (entry_write_into ''measurement'' e (typed ''reading'')) = Inr e"
  by (rule entry_reads_back; simp add: typed_def)+

lemma typed_get: "bt_get (typed t) k = (if k = ''type'' then Some (JString t) else None)"
  by (simp add: typed_def)

lemma types_written:
  "bt_get (state_to_map busy outcome failure attachments capabilities) ''type'' = Some (JString ''state'')"
  "bt_get (curves_to_map w document lasts recharge) ''type'' = Some (JString ''curves'')"
  "bt_get (tailscale_act_to_map act method key name peer) ''type'' = Some (JString ''tailscale-act'')"
  "bt_get (provision_state_to_map w revision built run checked provisioned steps prompts) ''type'' = Some (JString ''provision-state'')"
  "bt_get (provision_act_to_map act chosen prompt v) ''type'' = Some (JString ''provision-act'')"
  "bt_get (entry_write_into ''fact'' e (typed t)) ''type'' = Some (JString t)"
  "bt_get (entry_write_into ''measurement'' e (typed t)) ''type'' = Some (JString t)"
  by (simp_all add: state_to_map_def curves_to_map_def tailscale_act_to_map_def provision_state_to_map_def
    provision_act_to_map_def entry_write_into_def Let_def typed_get)

lemma message_reads_back:
  assumes m: "sendable w m"
  shows "message_read w (JObject (to_map w m)) = Inr m"
proof -
  have collect: "bt_collect (to_map w m) = to_map w m"
    using to_map_tidy [OF m] by (simp add: tidy_map_def tidy_object bt_collect_id)
  show ?thesis unfolding message_read_def json.case collect Let_def using m
    by (cases m) (simp_all add: visit_map_def typed_get types_written entries_read_back configuration_read_def
      insert_interface_def state_reads_back curves_reads_back tailscale_act_reads_back provision_state_reads_back
      provision_act_reads_back)
qed

section \<open>The set keeps what the envelope relies on\<close>

lemma critical_members_markable: "distinct (critical_members t) \<and> (\<forall>c \<in> set (critical_members t). markable c)"
  using names_markable by (simp add: critical_members_def)

interpretation sendables: message_laws "messages w" "sendable w"
proof unfold_locales
  show "\<exists>object t. ms_write (messages w) m = JObject object \<and> tidy (JObject object)
      \<and> bt_get object ''type'' = Some (JString t) \<and> ms_knows (messages w) t" if "sendable w m" for m
    using to_map_tidy [OF that] to_map_type [of w m] by (auto simp: messages_def tidy_map_def ms_knows_def)
  show "ms_read (messages w) (ms_write (messages w) m) = Inr m" if "sendable w m" for m
    using message_reads_back [OF that] by (simp add: messages_def)
  show "distinct (ms_critical (messages w) t) \<and> (\<forall>c \<in> set (ms_critical (messages w) t). markable c)" for t
    using critical_members_markable by (simp add: messages_def)
  show "set required = set (ms_critical (messages w) t)" if "ms_criticality (messages w) t = Exactly required" for t required
    using that by (auto simp: messages_def message_criticality_def critical_members_def split: if_splits)
qed

lemma message_keeps_members: "sendable w m \<Longrightarrow> round_trip_omissions (messages w) m = []"
  by (rule sendables.nothing_omitted)

text \<open>A writer and a reader of JSON that agree on one value.\<close>

definition carries :: "(bytes \<Rightarrow> string option) \<Rightarrow> (string \<Rightarrow> string + raw) \<Rightarrow> (json \<Rightarrow> bytes) \<Rightarrow> json \<Rightarrow> bool" where
  "carries from_utf8 from_str to_vec v \<longleftrightarrow>
     (case from_utf8 (to_vec v) of None \<Rightarrow> False | Some t \<Rightarrow> from_str t = Inr (raw_of v))"

text \<open>C9. Every message an end can send is read by its peer as that message, whichever of the
  thirty-nine types it is and whichever of its members go out critical: written to JSON with its
  critical members in upper case and read back, it is not skipped, not refused and not a fault.\<close>

theorem sent_message_is_read:
  assumes "sendable w m" and "carries from_utf8 from_str to_vec (cased (messages w) (JObject (to_map w m)))"
  shows "env_read from_utf8 from_str (messages w) (env_write to_vec (messages w) m) = Inr (Message m)"
proof -
  have written: "ms_write (messages w) m = JObject (to_map w m)" by (simp add: messages_def)
  from assms(2) obtain t where t: "from_utf8 (env_write to_vec (messages w) m) = Some t"
    "from_str t = Inr (raw_of (cased (messages w) (ms_write (messages w) m)))"
    by (auto simp: carries_def env_write_def written split: option.splits)
  show ?thesis using assms(1) t by (rule sendables.sent_is_received)
qed

text \<open>C10. A message is acted on only where every member its sender marked critical, at any depth, is there in
  what was read, and is kept by the message wherever the message keeps the object that carries it.  An end
  so never acts on a message of which it has left out a critical member of an object it does read; an
  object it knows nothing of and may ignore is passed over with all its members, critical or not.  (A
  critical member it does not know within a nested object stops the whole message, where the
  specification of the messages has that part left out and the rest read.)\<close>

theorem critical_members_are_read:
  assumes "env_read from_utf8 from_str (messages w) bs = Inr (Message m)"
    and "from_utf8 bs = Some t" "from_str t = Inr r"
  shows "\<exists>object. message_read w (JObject object) = Inr m
    \<and> (\<forall>segs. critical_at r segs \<longrightarrow>
          json_at (JObject object) segs \<noteq> None \<and> \<not> unknown_at (JObject object) (JObject (to_map w m)) segs)"
  using acted_on_as_read [OF assms] by (simp add: messages_def)

section \<open>Witnesses\<close>

definition plain_wire :: wire where
  "plain_wire = \<lparr>w_from_f64 = (\<lambda>x. Some (PosInt x)), w_as_f64 = (\<lambda>n. case n of PosInt x \<Rightarrow> x | NegInt x \<Rightarrow> x | Float _ \<Rightarrow> 0),
     w_date = (\<lambda>_. []), w_read_date = (\<lambda>_. None), w_err = (\<lambda>_ _. [])\<rparr>"

definition request :: message where
  "request = ProvisionAct ''answer'' None (Some ''pin'') (Some (JBool True))"

definition arrived :: raw where
  "arrived = RObject [(''ACT'', ROther (JString ''answer'')), (''PROMPT'', ROther (JString ''pin'')),
     (''VALUE'', ROther (JBool True)), (''type'', ROther (JString ''provision-act''))]"

theorem sent_message_is_read_witness:
  "env_read (\<lambda>_. Some []) (\<lambda>_. Inr arrived) (messages plain_wire) (env_write (\<lambda>_. []) (messages plain_wire) request)
    = Inr (Message request)"
proof (rule sent_message_is_read)
  show "sendable plain_wire request"
    by (simp add: sendable_def request_def some_json_def)
  have "cased (messages plain_wire) (JObject (to_map plain_wire request)) =
      JObject [(''ACT'', JString ''answer''), (''PROMPT'', JString ''pin''), (''VALUE'', JBool True),
        (''type'', JString ''provision-act'')]" by code_simp
  then show "carries (\<lambda>_. Some []) (\<lambda>_. Inr arrived) (\<lambda>_. []) (cased (messages plain_wire) (JObject (to_map plain_wire request)))"
    by (simp add: carries_def arrived_def)
qed

lemma request_is_read: "env_read (\<lambda>_. Some []) (\<lambda>_. Inr arrived) (messages plain_wire) [] = Inr (Message request)"
  by code_simp

theorem critical_members_are_read_witness:
  "\<exists>object. message_read plain_wire (JObject object) = Inr request
    \<and> (\<forall>segs. critical_at arrived segs \<longrightarrow>
          json_at (JObject object) segs \<noteq> None \<and> \<not> unknown_at (JObject object) (JObject (to_map plain_wire request)) segs)"
  by (rule critical_members_are_read [OF request_is_read, where t = "[]"]) simp_all


end
