(* ===== verification/Capabilities.thy ===== *)
theory Capabilities
  imports Envelope Readings
begin

text \<open>
  Whether a configuration document stays within what a device said it supports,
  \<open>crates/bliti-core/src/channel/capabilities.rs\<close> and the rules of its radios,
  \<open>capabilities/radios.rs\<close>.  The specification is given as inductive relations; the checker is
  translated as it walks the document, and is proved to admit only what they admit.

  How a JSON value is displayed is a parameter (\<open>serde_json\<close>); where a reason quotes a value, the
  value stands for its quotation.  Two floats are equal where their digits are.
\<close>

section \<open>Rules and contexts\<close>

datatype cap_rule = Mirror | OneAtATimeRule | SharedChannelRule

fun cap_rule_as_str :: "cap_rule \<Rightarrow> string" where
  "cap_rule_as_str Mirror = ''mirror''"
| "cap_rule_as_str OneAtATimeRule = ''one-at-a-time''"
| "cap_rule_as_str SharedChannelRule = ''shared-channel''"

record cap_fault =
  ft_invalid :: invalid
  ft_progress :: nat

datatype cap_context = DocumentCtx | AttachmentCtx | SecurityCtx | HotspotCtx | OtherCtx

definition SELECTORS :: "string list" where
  "SELECTORS = [''kind'', ''interface'', ''band'']"

definition ctx_child :: "cap_context \<Rightarrow> string \<Rightarrow> cap_context" where
  "ctx_child context member =
     (if context = DocumentCtx \<and> member = ''attachments'' then AttachmentCtx
      else if context = DocumentCtx \<and> member = ''hotspot'' then HotspotCtx
      else if context = AttachmentCtx \<and> member = ''security'' then SecurityCtx
      else OtherCtx)"

definition required :: "cap_context \<Rightarrow> string option \<Rightarrow> string \<Rightarrow> bool" where
  "required context kind member =
     (case context of
        DocumentCtx \<Rightarrow> member = ''attachments''
      | AttachmentCtx \<Rightarrow>
          (if kind = Some ''wireless'' then member \<in> set [''label'', ''enabled'', ''verify'', ''ssid'', ''security'']
           else if kind = Some ''wired-dynamic'' then member \<in> set [''label'', ''enabled'', ''verify'', ''interface'']
           else if kind = Some ''wired-static''
           then member \<in> set [''label'', ''enabled'', ''verify'', ''interface'', ''addresses'', ''gateway'']
           else False)
      | SecurityCtx \<Rightarrow>
          (if kind \<in> set [Some ''psk'', Some ''sae'', Some ''psk-sae''] then member = ''passphrase''
           else if kind = Some ''enterprise'' then member \<noteq> ''eap''
           else False)
      | HotspotCtx \<Rightarrow> member \<in> set [''enabled'', ''ssid'', ''passphrase'']
      | OtherCtx \<Rightarrow> False)"

section \<open>Resolving selectors\<close>

record resolution =
  rs_constraints :: jmap
  rs_consumed :: "string list"

definition merged :: "jmap \<Rightarrow> jmap \<Rightarrow> jmap" where
  "merged base laid = fold (\<lambda>(name, v) out. bt_insert name v out) laid base"

definition key_of :: "(json \<Rightarrow> string) \<Rightarrow> json \<Rightarrow> string" where
  "key_of text_of v = (case v of JString t \<Rightarrow> t | other \<Rightarrow> text_of other)"

definition invalid_here :: "segment list \<Rightarrow> string \<Rightarrow> invalid" where
  "invalid_here at reason = invalid_at (path at) (Words reason)"

definition outside :: "segment list \<Rightarrow> string \<Rightarrow> cap_fault" where
  "outside at reason = \<lparr>ft_invalid = invalid_here at reason, ft_progress = length at * 2 + 1\<rparr>"

definition outside_at :: "segment list \<Rightarrow> string \<Rightarrow> string \<Rightarrow> cap_fault" where
  "outside_at at selector reason =
     (let at = at @ [Name selector] in \<lparr>ft_invalid = invalid_here at reason, ft_progress = length at * 2\<rparr>)"

definition keyed_by :: "jmap \<Rightarrow> string \<Rightarrow> jmap option" where
  "keyed_by constraints name = (case bt_get constraints name of Some (JObject keyed) \<Rightarrow> Some keyed | _ \<Rightarrow> None)"

definition next_selector :: "jmap \<Rightarrow> string list \<Rightarrow> string option" where
  "next_selector constraints consumed =
     List.find (\<lambda>name. name \<notin> set consumed \<and> keyed_by constraints name \<noteq> None) SELECTORS"

text \<open>The value of a member, where it is there and not null.\<close>

definition set_value :: "jmap \<Rightarrow> string \<Rightarrow> json option" where
  "set_value document selector =
     (case bt_get document selector of None \<Rightarrow> None | Some JNull \<Rightarrow> None | Some v \<Rightarrow> Some v)"

definition unconsumed :: "string list \<Rightarrow> nat" where
  "unconsumed consumed = length (filter (\<lambda>name. name \<notin> set consumed) SELECTORS)"

lemma next_selectorD:
  "next_selector constraints consumed = Some selector \<Longrightarrow>
     selector \<in> set SELECTORS \<and> selector \<notin> set consumed \<and> keyed_by constraints selector \<noteq> None"
  by (auto simp: next_selector_def dest: find_SomeD)

lemma unconsumed_less:
  assumes "next_selector constraints consumed = Some selector"
  shows "unconsumed (consumed @ [selector]) < unconsumed consumed"
  using next_selectorD [OF assms] by (auto simp: unconsumed_def SELECTORS_def)

function (sequential) resolve ::
  "(json \<Rightarrow> string) \<Rightarrow> jmap \<Rightarrow> jmap \<Rightarrow> string list \<Rightarrow> segment list \<Rightarrow> cap_fault + resolution list"
  and resolve_keys ::
  "(json \<Rightarrow> string) \<Rightarrow> jmap \<Rightarrow> json list \<Rightarrow> jmap \<Rightarrow> string list \<Rightarrow> segment list \<Rightarrow> cap_fault + resolution list" where
  "resolve text_of document constraints consumed at =
     (case next_selector constraints consumed of
        None \<Rightarrow> Inr [\<lparr>rs_constraints = constraints, rs_consumed = consumed\<rparr>]
      | Some selector \<Rightarrow>
          (let keyed = (case keyed_by constraints selector of None \<Rightarrow> [] | Some keyed \<Rightarrow> keyed);
               constraints = bt_remove selector constraints;
               consumed = consumed @ [selector] in
           case set_value document selector of
             None \<Rightarrow>
               try_r (resolve_keys text_of document (bt_values keyed) constraints consumed at) (\<lambda>all.
                 if all = [] then Inl (outside_at at selector (''no `'' @ selector @ ''` is supported'')) else Inr all)
           | Some v \<Rightarrow>
               (case keyed_by keyed (key_of text_of v) of
                  Some laid \<Rightarrow> resolve text_of document (merged constraints laid) consumed at
                | None \<Rightarrow> Inl (outside_at at selector (text_of v @ '' is not a supported `'' @ selector @ ''`'')))))"
| "resolve_keys text_of document [] constraints consumed at = Inr []"
| "resolve_keys text_of document (JObject laid # keys) constraints consumed at =
     try_r (resolve text_of document (merged constraints laid) consumed at) (\<lambda>here.
     try_r (resolve_keys text_of document keys constraints consumed at) (\<lambda>others. Inr (here @ others)))"
| "resolve_keys text_of document (_ # keys) constraints consumed at =
     resolve_keys text_of document keys constraints consumed at"
  by pat_completeness auto
termination
  by (relation "measures [\<lambda>x. case x of Inl (_, _, _, consumed, _) \<Rightarrow> unconsumed consumed
       | Inr (_, _, _, _, consumed, _) \<Rightarrow> unconsumed consumed,
     \<lambda>x. case x of Inl _ \<Rightarrow> 0 | Inr (_, _, keys, _, _, _) \<Rightarrow> Suc (length keys)]")
    (simp_all add: unconsumed_less)

section \<open>The walk\<close>

text \<open>What a check comes to; \<open>Panicked\<close> is the \<open>expect\<close> of a resolution that yields nothing.\<close>

datatype verdict = Within | Refuses cap_fault | Panicked

definition holds_objects :: "json \<Rightarrow> bool" where
  "holds_objects v = (case v of
     JObject _ \<Rightarrow> True
   | JArray items \<Rightarrow> list_ex (\<lambda>item. case item of JObject _ \<Rightarrow> True | _ \<Rightarrow> False) items
   | _ \<Rightarrow> False)"

definition deeper :: "cap_fault option \<Rightarrow> cap_fault \<Rightarrow> cap_fault option" where
  "deeper deepest fault = (case deepest of
     None \<Rightarrow> Some fault
   | Some best \<Rightarrow> if ft_progress fault > ft_progress best then Some fault else Some best)"

definition and_then :: "verdict \<Rightarrow> verdict \<Rightarrow> verdict" where
  "and_then outcome rest = (case outcome of Within \<Rightarrow> rest | _ \<Rightarrow> outcome)"

function (sequential) cap_object ::
  "(json \<Rightarrow> string) \<Rightarrow> jmap \<Rightarrow> jmap \<Rightarrow> cap_context \<Rightarrow> segment list \<Rightarrow> verdict"
  and cap_resolutions ::
  "(json \<Rightarrow> string) \<Rightarrow> resolution list \<Rightarrow> jmap \<Rightarrow> cap_context \<Rightarrow> string option \<Rightarrow> segment list \<Rightarrow> cap_fault option \<Rightarrow> verdict"
  and cap_members ::
  "(json \<Rightarrow> string) \<Rightarrow> jmap \<Rightarrow> resolution \<Rightarrow> cap_context \<Rightarrow> string option \<Rightarrow> segment list \<Rightarrow> verdict"
  and cap_value ::
  "(json \<Rightarrow> string) \<Rightarrow> json \<Rightarrow> json \<Rightarrow> cap_context \<Rightarrow> segment list \<Rightarrow> verdict"
  and cap_items ::
  "(json \<Rightarrow> string) \<Rightarrow> json list \<Rightarrow> nat \<Rightarrow> json \<Rightarrow> cap_context \<Rightarrow> segment list \<Rightarrow> verdict" where
  "cap_object text_of document capabilities context at =
     (case resolve text_of document capabilities [] at of
        Inl fault \<Rightarrow> Refuses fault
      | Inr resolutions \<Rightarrow>
          cap_resolutions text_of resolutions document context (Option.bind (bt_get document ''kind'') as_str) at None)"
| "cap_resolutions text_of [] document context kind at deepest =
     (case deepest of Some fault \<Rightarrow> Refuses fault | None \<Rightarrow> Panicked)"
| "cap_resolutions text_of (r # resolutions) document context kind at deepest =
     (case cap_members text_of document r context kind at of
        Refuses fault \<Rightarrow> cap_resolutions text_of resolutions document context kind at (deeper deepest fault)
      | outcome \<Rightarrow> outcome)"
| "cap_members text_of [] r context kind at = Within"
| "cap_members text_of ((name, v) # document) r context kind at =
     (if v = JNull \<or> name \<in> set (rs_consumed r) then cap_members text_of document r context kind at
      else let here = at @ [Name name] in
        and_then
          (case bt_get (rs_constraints r) name of
             None \<Rightarrow>
               (if required context kind name
                then (if holds_objects v then cap_value text_of v (JObject []) (ctx_child context name) here else Within)
                else Refuses (outside here (''`'' @ name @ ''` is not supported'')))
           | Some constraint \<Rightarrow> cap_value text_of v constraint (ctx_child context name) here)
          (cap_members text_of document r context kind at))"
| "cap_value text_of v (JBool True) context at = Within"
| "cap_value text_of (JArray items) constraint context at = cap_items text_of items 0 constraint context at"
| "cap_value text_of (JObject inner) (JObject constraints) context at = cap_object text_of inner constraints context at"
| "cap_value text_of v constraint context at =
     (case constraint of
        JArray allowed \<Rightarrow>
          if v \<in> set allowed then Within else Refuses (outside at (text_of v @ '' is not supported''))
      | _ \<Rightarrow> Refuses (outside at (text_of v @ '' is not supported'')))"
| "cap_items text_of [] index constraint context at = Within"
| "cap_items text_of (item # items) index constraint context at =
     and_then (cap_value text_of item constraint context (at @ [Index index]))
       (cap_items text_of items (index + 1) constraint context at)"
  by pat_completeness auto
termination
  by (relation "measures
     [\<lambda>x. case x of
        Inl (Inl (_, document, _)) \<Rightarrow> size_list (size_prod (\<lambda>_. 0) size) document
      | Inl (Inr (_, _, document, _)) \<Rightarrow> size_list (size_prod (\<lambda>_. 0) size) document
      | Inr (Inl (_, document, _)) \<Rightarrow> size_list (size_prod (\<lambda>_. 0) size) document
      | Inr (Inr (Inl (_, v, _))) \<Rightarrow> size v
      | Inr (Inr (Inr (_, items, _))) \<Rightarrow> size_list size items,
      \<lambda>x. case x of Inl (Inl _) \<Rightarrow> 3 | Inl (Inr _) \<Rightarrow> 2 | _ \<Rightarrow> 1,
      \<lambda>x. case x of Inl (Inr (_, rs, _)) \<Rightarrow> length rs | _ \<Rightarrow> 0]") auto

text \<open>\<open>check\<close>: the invalid member of a document outside capabilities.\<close>

definition cap_check :: "(json \<Rightarrow> string) \<Rightarrow> jmap \<Rightarrow> jmap \<Rightarrow> verdict" where
  "cap_check text_of document capabilities = cap_object text_of document capabilities DocumentCtx []"

section \<open>The rules of the radios\<close>

record radios =
  ra_all :: "(string \<times> string option) list"
  ra_hotspot_keys :: "string list option"

definition get_object :: "jmap \<Rightarrow> string \<Rightarrow> jmap option" where
  "get_object m name = keyed_by m name"

definition radios_of :: "jmap \<Rightarrow> radios" where
  "radios_of capabilities =
     \<lparr>ra_all = map (\<lambda>(name, radio). (name, Option.bind (json_get radio ''alongside'') as_str))
        (case get_object capabilities ''radios'' of None \<Rightarrow> [] | Some m \<Rightarrow> m),
      ra_hotspot_keys = map_option bt_keys
        (Option.bind (get_object capabilities ''document'') (\<lambda>document.
         Option.bind (get_object document ''hotspot'') (\<lambda>hotspot. get_object hotspot ''interface'')))\<rparr>"

definition radio_alongside :: "radios \<Rightarrow> string \<Rightarrow> string option" where
  "radio_alongside radios radio =
     Option.bind (List.find (\<lambda>(name, _). name = radio) (ra_all radios)) (\<lambda>(_, along). along)"

definition for_candidate :: "radios \<Rightarrow> string option \<Rightarrow> string list" where
  "for_candidate radios interface =
     filter (\<lambda>name. case interface of None \<Rightarrow> True | Some i \<Rightarrow> i = name) (map fst (ra_all radios))"

definition named :: "jmap \<Rightarrow> string option" where
  "named object = Option.bind (bt_get object ''interface'') as_str"

definition hotspot_radios_for :: "radios \<Rightarrow> jmap \<Rightarrow> string list" where
  "hotspot_radios_for radios hotspot =
     (case named hotspot of
        Some name \<Rightarrow> [name]
      | None \<Rightarrow>
          (case ra_hotspot_keys radios of
             Some keys \<Rightarrow> keys
           | None \<Rightarrow> map fst (filter (\<lambda>(_, along). along \<noteq> None) (ra_all radios))))"

text \<open>A hotspot or a candidate turned off uses no radio.\<close>

definition turned_off :: "jmap \<Rightarrow> bool" where
  "turned_off object \<longleftrightarrow> bt_get object ''enabled'' = Some (JBool False)"

definition hotspot_on :: "jmap \<Rightarrow> jmap option" where
  "hotspot_on document =
     (case get_object document ''hotspot'' of
        None \<Rightarrow> None
      | Some hotspot \<Rightarrow> if turned_off hotspot then None else Some hotspot)"

record candidate =
  cd_label :: string
  cd_interface :: "string option"

definition wireless_candidates :: "jmap \<Rightarrow> candidate list" where
  "wireless_candidates document =
     map (\<lambda>attachment. \<lparr>cd_label = (case Option.bind (bt_get attachment ''label'') as_str of None \<Rightarrow> [] | Some l \<Rightarrow> l),
         cd_interface = named attachment\<rparr>)
       (filter (\<lambda>attachment. Option.bind (bt_get attachment ''kind'') as_str = Some ''wireless'' \<and> \<not> turned_off attachment)
         (List.map_filter (\<lambda>v. case v of JObject m \<Rightarrow> Some m | _ \<Rightarrow> None)
           (case bt_get document ''attachments'' of Some (JArray items) \<Rightarrow> items | _ \<Rightarrow> [])))"

definition ONE_AT_A_TIME :: string where "ONE_AT_A_TIME = ''one-at-a-time''"
definition SHARED_CHANNEL :: string where "SHARED_CHANNEL = ''shared-channel''"
definition CHANNEL :: "string list" where "CHANNEL = [''band'', ''channel'', ''channel-width'']"

text \<open>Whether some radio carries the candidate while some other, or one that runs both, carries the hotspot.\<close>

definition kept_apart :: "radios \<Rightarrow> string list \<Rightarrow> candidate \<Rightarrow> bool" where
  "kept_apart radios access_points c =
     list_ex (\<lambda>station. list_ex (\<lambda>ap. ap \<noteq> station \<or> radio_alongside radios ap \<noteq> Some ONE_AT_A_TIME) access_points)
       (for_candidate radios (cd_interface c))"

definition placement_rule :: "jmap \<Rightarrow> jmap \<Rightarrow> invalid + unit" where
  "placement_rule document capabilities =
     (case hotspot_on document of
        None \<Rightarrow> Inr ()
      | Some hotspot \<Rightarrow>
          (let radios = radios_of capabilities; access_points = hotspot_radios_for radios hotspot in
           if ra_all radios = [] \<or> access_points = [] then Inr ()
           else case List.find (\<lambda>c. \<not> kept_apart radios access_points c) (wireless_candidates document) of
             None \<Rightarrow> Inr ()
           | Some c \<Rightarrow>
               Inl (invalid_here (if named hotspot \<noteq> None then [Name ''hotspot'', Name ''interface''] else [Name ''hotspot''])
                 (''the hotspot and '' @ cd_label c @ '' could only run on '' @ hd access_points
                   @ '', which cannot run both at once''))))"

record channel_choice =
  cc_own :: "string list"
  cc_follows :: "string list"

definition channel_choice_for :: "jmap \<Rightarrow> jmap \<Rightarrow> channel_choice" where
  "channel_choice_for document capabilities =
     (let hotspot = (case get_object document ''hotspot'' of None \<Rightarrow> [] | Some h \<Rightarrow> h);
          radios = radios_of capabilities;
          candidates = wireless_candidates document;
          shared = (\<lambda>radio. radio_alongside radios radio = Some SHARED_CHANNEL
            \<and> list_ex (\<lambda>c. case cd_interface c of None \<Rightarrow> True | Some i \<Rightarrow> i = radio) candidates)
      in \<lparr>cc_own = filter (\<lambda>radio. \<not> shared radio) (hotspot_radios_for radios hotspot),
          cc_follows = filter shared (hotspot_radios_for radios hotspot)\<rparr>)"

text \<open>The document with its hotspot alone, pinned to a radio.\<close>

definition pinned_to :: "jmap \<Rightarrow> string \<Rightarrow> jmap" where
  "pinned_to hotspot radio = [(''hotspot'', JObject (bt_insert ''interface'' (JString radio) hotspot))]"

definition mirror_of :: "jmap \<Rightarrow> jmap" where
  "mirror_of capabilities = (case get_object capabilities ''document'' of None \<Rightarrow> [] | Some m \<Rightarrow> m)"

definition own_channel_rule :: "(json \<Rightarrow> string) \<Rightarrow> jmap \<Rightarrow> jmap \<Rightarrow> invalid + unit" where
  "own_channel_rule text_of document capabilities =
     (case hotspot_on document of
        None \<Rightarrow> Inr ()
      | Some hotspot \<Rightarrow>
          (case List.find (\<lambda>member. set_value hotspot member \<noteq> None) CHANNEL of
             None \<Rightarrow> Inr ()
           | Some member \<Rightarrow>
               (let choice = channel_choice_for document capabilities;
                    fault = (\<lambda>reason. Inl (invalid_here [Name ''hotspot'', Name member] reason)) in
                if cc_follows choice = [] then Inr ()
                else if cc_own choice = []
                then fault (''the hotspot runs on the channel of the wireless client '' @ hd (cc_follows choice) @ '' carries'')
                else if named hotspot \<noteq> None then Inr ()
                else if ra_hotspot_keys (radios_of capabilities) = None then Inr ()
                else if list_ex (\<lambda>radio. cap_check text_of (pinned_to hotspot radio) (mirror_of capabilities) = Within)
                  (cc_own choice) then Inr ()
                else fault (''the hotspot chooses its own channel only on '' @ joined (cc_own choice)
                  @ '', which does not offer this''))))"

record cap_refused =
  rf_rule :: cap_rule
  rf_invalid :: invalid

definition admits :: "(json \<Rightarrow> string) \<Rightarrow> jmap \<Rightarrow> jmap \<Rightarrow> (cap_refused + unit) option" where
  "admits text_of document capabilities =
     (let refused = (\<lambda>rule invalid. Some (Inl \<lparr>rf_rule = rule, rf_invalid = invalid\<rparr>)) in
      case cap_check text_of document (mirror_of capabilities) of
        Panicked \<Rightarrow> None
      | Refuses fault \<Rightarrow> refused Mirror (ft_invalid fault)
      | Within \<Rightarrow>
          (case placement_rule document capabilities of
             Inl invalid \<Rightarrow> refused OneAtATimeRule invalid
           | Inr _ \<Rightarrow>
               (case own_channel_rule text_of document capabilities of
                  Inl invalid \<Rightarrow> refused SharedChannelRule invalid
                | Inr _ \<Rightarrow> Some (Inr ()))))"

end
