(* ===== verification/Capability_Rules.thy ===== *)
theory Capability_Rules
  imports Capabilities
begin

text \<open>
  What it is for a document to be within capabilities, as the network specification gives it, and
  that the checker of \<open>crates/bliti-core/src/channel/capabilities.rs\<close> admits only such documents, names
  a place of the document in every refusal and always answers.
\<close>

section \<open>The specification\<close>

text \<open>A way of resolving an object's selectors: one set takes its own key, one unset takes any.\<close>

inductive selects :: "(json \<Rightarrow> string) \<Rightarrow> jmap \<Rightarrow> jmap \<Rightarrow> string list \<Rightarrow> resolution \<Rightarrow> bool"
  for text_of document where
  resolved: "next_selector constraints consumed = None \<Longrightarrow>
    selects text_of document constraints consumed \<lparr>rs_constraints = constraints, rs_consumed = consumed\<rparr>"
| selected: "next_selector constraints consumed = Some selector \<Longrightarrow> keyed_by constraints selector = Some keyed \<Longrightarrow>
    (key, JObject laid) \<in> set keyed \<Longrightarrow>
    (\<forall>v. set_value document selector = Some v \<longrightarrow> key = key_of text_of v) \<Longrightarrow>
    selects text_of document (merged (bt_remove selector constraints) laid) (consumed @ [selector]) r \<Longrightarrow>
    selects text_of document constraints consumed r"

text \<open>
  An object is within its constraints where, under some resolution, each member it carries is: one
  constrained is within its constraint, and one not constrained is required and, where it holds
  objects, carries nothing beyond what they require.
\<close>

inductive in_object :: "(json \<Rightarrow> string) \<Rightarrow> cap_context \<Rightarrow> jmap \<Rightarrow> jmap \<Rightarrow> bool"
  and in_value :: "(json \<Rightarrow> string) \<Rightarrow> cap_context \<Rightarrow> json \<Rightarrow> json \<Rightarrow> bool"
  for text_of where
  object_in: "selects text_of document capabilities [] r \<Longrightarrow>
    (\<And>name v c. (name, v) \<in> set document \<Longrightarrow> v \<noteq> JNull \<Longrightarrow> name \<notin> set (rs_consumed r) \<Longrightarrow>
       bt_get (rs_constraints r) name = Some c \<Longrightarrow> in_value text_of (ctx_child context name) v c) \<Longrightarrow>
    (\<And>name v. (name, v) \<in> set document \<Longrightarrow> v \<noteq> JNull \<Longrightarrow> name \<notin> set (rs_consumed r) \<Longrightarrow>
       bt_get (rs_constraints r) name = None \<Longrightarrow> required context (Option.bind (bt_get document ''kind'') as_str) name) \<Longrightarrow>
    (\<And>name v. (name, v) \<in> set document \<Longrightarrow> v \<noteq> JNull \<Longrightarrow> name \<notin> set (rs_consumed r) \<Longrightarrow>
       bt_get (rs_constraints r) name = None \<Longrightarrow> holds_objects v \<Longrightarrow> in_value text_of (ctx_child context name) v (JObject [])) \<Longrightarrow>
    in_object text_of context document capabilities"
| any_value: "in_value text_of context v (JBool True)"
| items_in: "(\<And>item. item \<in> set items \<Longrightarrow> in_value text_of context item c) \<Longrightarrow> in_value text_of context (JArray items) c"
| inner_in: "in_object text_of context inner constraints \<Longrightarrow> in_value text_of context (JObject inner) (JObject constraints)"
| listed: "v \<in> set allowed \<Longrightarrow> in_value text_of context v (JArray allowed)"

section \<open>Resolving\<close>

declare resolve.simps [simp del]

lemma keyed_by_Some: "keyed_by m name = Some keyed \<longleftrightarrow> bt_get m name = Some (JObject keyed)"
  by (auto simp: keyed_by_def split: option.splits json.splits)

lemma resolve_selects:
  "resolve text_of document constraints consumed at = Inr rs \<Longrightarrow>
     rs \<noteq> [] \<and> (\<forall>r \<in> set rs. selects text_of document constraints consumed r)"
  "resolve_keys text_of document keys constraints consumed at = Inr rs \<Longrightarrow>
     \<forall>r \<in> set rs. \<exists>laid. JObject laid \<in> set keys \<and> selects text_of document (merged constraints laid) consumed r"
proof (induction text_of document constraints consumed at and text_of document keys constraints consumed at
    arbitrary: rs and rs rule: resolve_resolve_keys.induct)
  case (1 text_of document constraints consumed at)
  show ?case
  proof (cases "next_selector constraints consumed")
    case None
    with "1.prems" show ?thesis by (auto simp: resolve.simps intro: selects.resolved)
  next
    case (Some selector)
    from next_selectorD [OF Some] obtain keyed where keyed: "keyed_by constraints selector = Some keyed" by blast
    show ?thesis
    proof (cases "set_value document selector")
      case None
      with "1.prems" Some keyed have rs: "rs \<noteq> []"
        "resolve_keys text_of document (bt_values keyed) (bt_remove selector constraints) (consumed @ [selector]) at = Inr rs"
        by (auto simp: resolve.simps Let_def try_r_eq_Inr split: if_splits)
      from "1.IH"(1) [OF Some refl refl refl None] rs(2) keyed
      have "\<forall>r \<in> set rs. \<exists>laid. JObject laid \<in> set (bt_values keyed)
        \<and> selects text_of document (merged (bt_remove selector constraints) laid) (consumed @ [selector]) r" by simp
      then have "\<forall>r \<in> set rs. selects text_of document constraints consumed r"
        using None by (fastforce simp: bt_values_def intro: selects.selected [OF Some keyed])
      with rs(1) show ?thesis by blast
    next
      case (Some v)
      note set = this
      from "1.prems" \<open>next_selector constraints consumed = Some selector\<close> keyed set obtain laid where
        laid: "keyed_by keyed (key_of text_of v) = Some laid"
        and rs: "resolve text_of document (merged (bt_remove selector constraints) laid) (consumed @ [selector]) at = Inr rs"
        by (auto simp: resolve.simps Let_def split: option.splits)
      from "1.IH"(2) [OF \<open>next_selector constraints consumed = Some selector\<close> refl refl refl set] laid rs keyed
      have "rs \<noteq> [] \<and> (\<forall>r \<in> set rs.
        selects text_of document (merged (bt_remove selector constraints) laid) (consumed @ [selector]) r)" by simp
      moreover have "(key_of text_of v, JObject laid) \<in> set keyed"
        using laid by (auto simp: keyed_by_Some dest: bt_get_SomeD)
      ultimately show ?thesis
        using set by (auto intro: selects.selected [OF \<open>next_selector constraints consumed = Some selector\<close> keyed])
    qed
  qed
next
  case (3 text_of document laid keys constraints consumed at)
  then show ?case by (auto simp: try_r_eq_Inr) blast+
qed auto

section \<open>What the walk admits\<close>

lemma and_then_Within [simp]: "and_then a b = Within \<longleftrightarrow> a = Within \<and> b = Within"
  by (cases a) (simp_all add: and_then_def)

definition member_in :: "(json \<Rightarrow> string) \<Rightarrow> resolution \<Rightarrow> cap_context \<Rightarrow> string option \<Rightarrow> string \<times> json \<Rightarrow> bool" where
  "member_in text_of r context kind = (\<lambda>(name, v). v = JNull \<or> name \<in> set (rs_consumed r)
     \<or> (case bt_get (rs_constraints r) name of
          Some c \<Rightarrow> in_value text_of (ctx_child context name) v c
        | None \<Rightarrow> required context kind name
            \<and> (holds_objects v \<longrightarrow> in_value text_of (ctx_child context name) v (JObject []))))"

lemma in_object_members:
  assumes "selects text_of document capabilities [] r"
    and "\<forall>e \<in> set document. member_in text_of r context (Option.bind (bt_get document ''kind'') as_str) e"
  shows "in_object text_of context document capabilities"
proof (rule object_in [OF assms(1)])
  fix name v assume e: "(name, v) \<in> set document" "v \<noteq> JNull" "name \<notin> set (rs_consumed r)"
  with assms(2) have m: "member_in text_of r context (Option.bind (bt_get document ''kind'') as_str) (name, v)" by blast
  from m e show "bt_get (rs_constraints r) name = Some c \<Longrightarrow> in_value text_of (ctx_child context name) v c" for c
    by (simp add: member_in_def)
  from m e show "bt_get (rs_constraints r) name = None \<Longrightarrow> required context (Option.bind (bt_get document ''kind'') as_str) name"
    by (simp add: member_in_def)
  from m e show "bt_get (rs_constraints r) name = None \<Longrightarrow> holds_objects v \<Longrightarrow> in_value text_of (ctx_child context name) v (JObject [])"
    by (simp add: member_in_def)
qed

lemma walk_admits:
  "cap_object text_of document capabilities context at = Within \<Longrightarrow> in_object text_of context document capabilities"
  "cap_resolutions text_of rs document context kind at deepest = Within \<Longrightarrow>
     \<exists>r \<in> set rs. \<forall>e \<in> set document. member_in text_of r context kind e"
  "cap_members text_of entries r context kind at = Within \<Longrightarrow> \<forall>e \<in> set entries. member_in text_of r context kind e"
  "cap_value text_of v c context at = Within \<Longrightarrow> in_value text_of context v c"
  "cap_items text_of items index c context at = Within \<Longrightarrow> \<forall>item \<in> set items. in_value text_of context item c"
proof (induction text_of document capabilities "context" at and text_of rs document "context" kind at deepest
    and text_of entries r "context" kind at and text_of v c "context" at and text_of items index c "context" at
    rule: cap_object_cap_resolutions_cap_members_cap_value_cap_items.induct)
  case (1 text_of document capabilities ctx at)
  then obtain rs where rs: "resolve text_of document capabilities [] at = Inr rs"
    and "cap_resolutions text_of rs document ctx (Option.bind (bt_get document ''kind'') as_str) at None = Within"
    by (auto split: sum.splits)
  with "1.IH" [OF rs] obtain r where r: "r \<in> set rs"
    "\<forall>e \<in> set document. member_in text_of r ctx (Option.bind (bt_get document ''kind'') as_str) e" by blast
  from resolve_selects(1) [OF rs] r(1) have "selects text_of document capabilities [] r" by blast
  from in_object_members [OF this r(2)] show ?case .
next
  case (2 text_of document ctx kind at deepest)
  then show ?case by (auto split: option.splits)
next
  case (3 text_of r rs document ctx kind at deepest)
  show ?case
  proof (cases "cap_members text_of document r ctx kind at")
    case Within
    with "3.IH"(1) show ?thesis by auto
  next
    case (Refuses fault)
    with "3.IH"(2) [OF Refuses] "3.prems" show ?thesis by auto
  qed (use "3.prems" in auto)
next
  case (5 text_of name v entries r ctx kind at)
  show ?case
  proof (cases "v = JNull \<or> name \<in> set (rs_consumed r)")
    case True
    with 5 show ?thesis by (auto simp: member_in_def)
  next
    case False
    then have rest: "\<forall>e \<in> set entries. member_in text_of r ctx kind e" using 5 by (auto simp: Let_def)
    have "member_in text_of r ctx kind (name, v)"
    proof (cases "bt_get (rs_constraints r) name")
      case None
      with False 5 show ?thesis by (auto simp: Let_def member_in_def split: if_splits)
    next
      case (Some c)
      with False 5 show ?thesis by (auto simp: Let_def member_in_def split: if_splits)
    qed
    with rest show ?thesis by simp
  qed
qed (auto intro: any_value listed items_in inner_in split: json.splits if_splits)

section \<open>It always answers\<close>

lemma deeper_Some [simp]: "deeper d f \<noteq> None"
  by (auto simp: deeper_def split: option.split)

lemma and_then_Panicked: "and_then a b = Panicked \<longleftrightarrow> a = Panicked \<or> a = Within \<and> b = Panicked"
  by (cases a) (auto simp: and_then_def)

lemma never_panics:
  "cap_object text_of document capabilities ctx at \<noteq> Panicked"
  "rs \<noteq> [] \<or> deepest \<noteq> None \<Longrightarrow> cap_resolutions text_of rs document ctx kind at deepest \<noteq> Panicked"
  "cap_members text_of entries r ctx kind at \<noteq> Panicked"
  "cap_value text_of v c ctx at \<noteq> Panicked"
  "cap_items text_of items index c ctx at \<noteq> Panicked"
proof (induction text_of document capabilities ctx at and text_of rs document ctx kind at deepest
    and text_of entries r ctx kind at and text_of v c ctx at and text_of items index c ctx at
    rule: cap_object_cap_resolutions_cap_members_cap_value_cap_items.induct)
  case (1 text_of document capabilities ctx at)
  show ?case
  proof (cases "resolve text_of document capabilities [] at")
    case (Inr rs)
    with 1 [OF Inr] resolve_selects(1) [OF Inr] show ?thesis by simp
  qed simp
next
  case (5 text_of name v entries r ctx kind at)
  then show ?case by (auto simp: Let_def and_then_Panicked split: option.splits if_splits)
qed (auto simp: and_then_Panicked split: option.splits verdict.splits json.splits if_splits)

section \<open>Where a refusal is\<close>

text \<open>Objects hold each member once, in key order, at every depth.\<close>

primrec keyed_well :: "json \<Rightarrow> bool" where
  "keyed_well JNull = True"
| "keyed_well (JBool b) = True"
| "keyed_well (JNumber n) = True"
| "keyed_well (JString s) = True"
| "keyed_well (JArray items) = list_all id (map keyed_well items)"
| "keyed_well (JObject object) = (bt_ok object \<and> list_all snd (map (map_prod id keyed_well) object))"

lemma keyed_well_iff:
  "keyed_well (JArray items) \<longleftrightarrow> (\<forall>v \<in> set items. keyed_well v)"
  "keyed_well (JObject object) \<longleftrightarrow> bt_ok object \<and> (\<forall>(name, v) \<in> set object. keyed_well v)"
  by (auto simp: list_all_iff)

declare keyed_well.simps(5,6) [simp del]

text \<open>A place of a document: a value in it, or a selector an object of it has or leaves out.\<close>

definition is_place :: "json \<Rightarrow> segment list \<Rightarrow> bool" where
  "is_place v segs \<longleftrightarrow> json_at v segs \<noteq> None
     \<or> (\<exists>p selector object. segs = p @ [Name selector] \<and> selector \<in> set SELECTORS \<and> json_at v p = Some (JObject object))"

definition faults_in :: "json \<Rightarrow> segment list \<Rightarrow> cap_fault \<Rightarrow> bool" where
  "faults_in v at fault \<longleftrightarrow> (\<exists>segs. iv_at (ft_invalid fault) = path (at @ segs) \<and> is_place v segs)"

lemma place_here [simp]: "is_place v []"
  by (simp add: is_place_def)

lemma place_selector: "selector \<in> set SELECTORS \<Longrightarrow> is_place (JObject object) [Name selector]"
  by (force simp: is_place_def)

lemma place_member: "bt_get object name = Some v \<Longrightarrow> is_place v segs \<Longrightarrow> is_place (JObject object) (Name name # segs)"
  unfolding is_place_def by (auto simp: bind_eq_Some_conv intro: exI [of _ "Name name # _"])

lemma place_item: "index < length items \<Longrightarrow> is_place (items ! index) segs \<Longrightarrow> is_place (JArray items) (Index index # segs)"
  unfolding is_place_def by (auto intro: exI [of _ "Index index # _"])

lemma iv_outside [simp]:
  "iv_at (ft_invalid (outside at reason)) = path at"
  "iv_at (ft_invalid (outside_at at selector reason)) = path (at @ [Name selector])"
  by (simp_all add: outside_def outside_at_def invalid_here_def invalid_at_def Let_def)

lemma resolve_faults:
  "resolve text_of document constraints consumed at = Inl fault \<Longrightarrow>
     \<exists>selector \<in> set SELECTORS. iv_at (ft_invalid fault) = path (at @ [Name selector])"
  "resolve_keys text_of document keys constraints consumed at = Inl fault \<Longrightarrow>
     \<exists>selector \<in> set SELECTORS. iv_at (ft_invalid fault) = path (at @ [Name selector])"
proof (induction text_of document constraints consumed at and text_of document keys constraints consumed at
    rule: resolve_resolve_keys.induct)
  case (1 text_of document constraints consumed at)
  then show ?case
    by (auto simp: resolve.simps [of _ _ constraints] Let_def try_r_eq_Inl dest: next_selectorD split: option.splits if_splits)
next
  case (3 text_of document laid keys constraints consumed at)
  then show ?case by (auto simp: try_r_eq_Inl)
qed auto

lemma deeper_cases: "deeper d f = Some g \<Longrightarrow> g = f \<or> d = Some g"
  by (auto simp: deeper_def split: option.splits if_splits)

lemma faults_in_deeper:
  "faults_in v (at @ [Name name]) fault \<Longrightarrow> bt_get object name = Some v \<Longrightarrow> faults_in (JObject object) at fault"
  by (auto simp: faults_in_def intro: place_member exI [of _ "Name name # _"])

lemma faults_in_here: "iv_at (ft_invalid fault) = path at \<Longrightarrow> faults_in v at fault"
  by (auto simp: faults_in_def intro: exI [of _ "[]"])

lemma faults_in_selector:
  "selector \<in> set SELECTORS \<Longrightarrow> iv_at (ft_invalid fault) = path (at @ [Name selector]) \<Longrightarrow> faults_in (JObject object) at fault"
  by (auto simp: faults_in_def intro: place_selector exI [of _ "[Name selector]"])

definition faults_in_items :: "json list \<Rightarrow> nat \<Rightarrow> segment list \<Rightarrow> cap_fault \<Rightarrow> bool" where
  "faults_in_items items index at fault \<longleftrightarrow>
     (\<exists>k < length items. \<exists>segs. iv_at (ft_invalid fault) = path (at @ Index (index + k) # segs) \<and> is_place (items ! k) segs)"

lemma faults_in_items_Cons:
  "faults_in item (at @ [Index index]) fault \<Longrightarrow> faults_in_items (item # items) index at fault"
  "faults_in_items items (Suc index) at fault \<Longrightarrow> faults_in_items (item # items) index at fault"
proof -
  assume "faults_in item (at @ [Index index]) fault"
  then show "faults_in_items (item # items) index at fault"
    by (auto simp: faults_in_def faults_in_items_def intro!: exI [of _ 0])
next
  assume "faults_in_items items (Suc index) at fault"
  then obtain k segs where "k < length items" "iv_at (ft_invalid fault) = path (at @ Index (Suc index + k) # segs)"
    "is_place (items ! k) segs" by (auto simp: faults_in_items_def)
  then show "faults_in_items (item # items) index at fault"
    by (auto simp: faults_in_items_def intro!: exI [of _ "Suc k"])
qed

lemma faults_in_array: "faults_in_items items 0 at fault \<Longrightarrow> faults_in (JArray items) at fault"
  by (auto simp: faults_in_items_def faults_in_def intro: place_item)

lemma and_then_Refuses: "and_then a b = Refuses f \<longleftrightarrow> a = Refuses f \<or> a = Within \<and> b = Refuses f"
  by (cases a) (auto simp: and_then_def)

lemma walk_faults:
  "cap_object text_of document capabilities ctx at = Refuses fault \<Longrightarrow> keyed_well (JObject document) \<Longrightarrow>
     faults_in (JObject document) at fault"
  "cap_resolutions text_of rs document ctx kind at deepest = Refuses fault \<Longrightarrow> keyed_well (JObject document) \<Longrightarrow>
     faults_in (JObject document) at fault \<or> deepest = Some fault"
  "cap_members text_of entries r ctx kind at = Refuses fault \<Longrightarrow>
     \<forall>(name, v) \<in> set entries. bt_get whole name = Some v \<and> keyed_well v \<Longrightarrow> faults_in (JObject whole) at fault"
  "cap_value text_of v c ctx at = Refuses fault \<Longrightarrow> keyed_well v \<Longrightarrow> faults_in v at fault"
  "cap_items text_of items index c ctx at = Refuses fault \<Longrightarrow> \<forall>v \<in> set items. keyed_well v \<Longrightarrow>
     faults_in_items items index at fault"
proof (induction text_of document capabilities ctx at and text_of rs document ctx kind at deepest
    and text_of entries r ctx kind at and text_of v c ctx at and text_of items index c ctx at
    arbitrary: fault and fault and fault whole and fault and fault
    rule: cap_object_cap_resolutions_cap_members_cap_value_cap_items.induct)
  case (1 text_of document capabilities ctx at)
  show ?case
  proof (cases "resolve text_of document capabilities [] at")
    case (Inl f)
    with resolve_faults(1) [OF Inl] 1 show ?thesis by (auto intro: faults_in_selector)
  next
    case (Inr rs)
    with 1 show ?thesis by auto
  qed
next
  case (2 text_of document ctx kind at deepest)
  then show ?case by (auto split: option.splits)
next
  case (3 text_of r rs document ctx kind at deepest)
  show ?case
  proof (cases "cap_members text_of document r ctx kind at")
    case (Refuses f)
    have "\<forall>(name, v) \<in> set document. bt_get document name = Some v \<and> keyed_well v"
      using "3.prems"(2) by (auto simp: keyed_well_iff bt_ok_get_iff)
    from "3.IH"(1) [OF Refuses this] have here: "faults_in (JObject document) at f" .
    from "3.IH"(2) [OF Refuses _ "3.prems"(2), of fault] "3.prems"(1) Refuses
    have "faults_in (JObject document) at fault \<or> deeper deepest f = Some fault" by simp
    with here show ?thesis by (auto dest: deeper_cases)
  qed (use "3.prems" in auto)
next
  case (5 text_of name v entries r ctx kind at)
  have get: "bt_get whole name = Some v" "keyed_well v"
    and rest: "\<forall>(name, v) \<in> set entries. bt_get whole name = Some v \<and> keyed_well v" using "5.prems"(2) by auto
  show ?case
  proof (cases "v = JNull \<or> name \<in> set (rs_consumed r)")
    case True
    with 5 rest show ?thesis by auto
  next
    case skip: False
    let ?here = "at @ [Name name]"
    consider "cap_members text_of entries r ctx kind at = Refuses fault"
      | "iv_at (ft_invalid fault) = path ?here"
      | c where "cap_value text_of v c (ctx_child ctx name) ?here = Refuses fault"
          "bt_get (rs_constraints r) name = Some c"
      | "cap_value text_of v (JObject []) (ctx_child ctx name) ?here = Refuses fault"
          "bt_get (rs_constraints r) name = None" "required ctx kind name" "holds_objects v"
      using "5.prems"(1) skip by (auto simp: Let_def and_then_Refuses split: option.splits if_splits)
    then show ?thesis
    proof cases
      case 1
      with "5.IH" skip rest show ?thesis by auto
    next
      case 2
      then show ?thesis using get by (auto intro: faults_in_deeper faults_in_here)
    next
      case 3
      with "5.IH" skip get have "faults_in v ?here fault" by auto
      then show ?thesis using get(1) by (rule faults_in_deeper)
    next
      case 4
      with "5.IH" skip get have "faults_in v ?here fault" by auto
      then show ?thesis using get(1) by (rule faults_in_deeper)
    qed
  qed
qed (auto simp: and_then_Refuses keyed_well_iff intro: faults_in_array faults_in_here faults_in_items_Cons
    split: json.splits if_splits)

section \<open>Properties\<close>

lemma placement_apart:
  assumes "placement_rule document capabilities = Inr ()" and "hotspot_on document = Some hotspot"
    and "ra_all (radios_of capabilities) \<noteq> []" and "hotspot_radios_for (radios_of capabilities) hotspot \<noteq> []"
    and "c \<in> set (wireless_candidates document)"
  shows "kept_apart (radios_of capabilities) (hotspot_radios_for (radios_of capabilities) hotspot) c"
  using assms by (auto simp: placement_rule_def Let_def find_None_iff' split: option.splits if_splits)

lemma admits_Inr:
  assumes "admits text_of document capabilities = Some (Inr ())"
  shows "cap_check text_of document (mirror_of capabilities) = Within" "placement_rule document capabilities = Inr ()"
  using assms by (auto simp: admits_def Let_def split: verdict.splits sum.splits)

text \<open>C12. A document a device admits is within what it said it supports: under some way of resolving its
  selectors every member it sets, at any depth, is covered.  And where it turns the hotspot on, the device
  lists its radios and one of them could host the hotspot asked for, each wireless candidate can be
  carried by a radio while the hotspot runs on another, or on one that runs both.  (A device that lists no
  radios, or a hotspot no radio listed can host, is left to the rest of the check: the rule of the radios
  says nothing of it, here as in the code.)\<close>

theorem admitted_is_within:
  assumes "admits text_of document capabilities = Some (Inr ())"
  shows "in_object text_of DocumentCtx document (mirror_of capabilities)
    \<and> (\<forall>hotspot. hotspot_on document = Some hotspot \<longrightarrow> ra_all (radios_of capabilities) \<noteq> [] \<longrightarrow>
        hotspot_radios_for (radios_of capabilities) hotspot \<noteq> [] \<longrightarrow>
        (\<forall>c \<in> set (wireless_candidates document). \<exists>station \<in> set (for_candidate (radios_of capabilities) (cd_interface c)).
           \<exists>ap \<in> set (hotspot_radios_for (radios_of capabilities) hotspot).
             ap \<noteq> station \<or> radio_alongside (radios_of capabilities) ap \<noteq> Some ONE_AT_A_TIME))"
  using walk_admits(1) [OF admits_Inr(1) [OF assms, unfolded cap_check_def]] placement_apart [OF admits_Inr(2) [OF assms]]
  by (simp add: kept_apart_def list_ex_iff)

lemma hotspot_on_get: "hotspot_on document = Some hotspot \<Longrightarrow> bt_get document ''hotspot'' = Some (JObject hotspot)"
  by (auto simp: hotspot_on_def get_object_def keyed_by_Some split: option.splits if_splits)

lemma rule_places:
  "placement_rule document capabilities = Inl invalid \<Longrightarrow> \<exists>segs. iv_at invalid = path segs \<and> is_place (JObject document) segs"
  "own_channel_rule text_of document capabilities = Inl invalid \<Longrightarrow> \<exists>segs. iv_at invalid = path segs \<and> is_place (JObject document) segs"
proof -
  assume "placement_rule document capabilities = Inl invalid"
  then obtain hotspot where h: "hotspot_on document = Some hotspot" and
    "iv_at invalid = path (if named hotspot \<noteq> None then [Name ''hotspot'', Name ''interface''] else [Name ''hotspot''])"
    by (auto simp: placement_rule_def invalid_here_def invalid_at_def Let_def split: option.splits if_splits)
  moreover have "is_place (JObject document) [Name ''hotspot'']"
    "named hotspot \<noteq> None \<Longrightarrow> is_place (JObject document) [Name ''hotspot'', Name ''interface'']"
    using hotspot_on_get [OF h] by (auto simp: is_place_def named_def bind_eq_Some_conv)
  ultimately show "\<exists>segs. iv_at invalid = path segs \<and> is_place (JObject document) segs" by (auto split: if_splits)
next
  assume "own_channel_rule text_of document capabilities = Inl invalid"
  then obtain hotspot member where h: "hotspot_on document = Some hotspot"
    and m: "List.find (\<lambda>member. set_value hotspot member \<noteq> None) CHANNEL = Some member"
    and at: "iv_at invalid = path [Name ''hotspot'', Name member]"
    by (auto simp: own_channel_rule_def invalid_here_def invalid_at_def Let_def split: option.splits if_splits)
  from find_SomeD [OF m] have "is_place (JObject document) [Name ''hotspot'', Name member]"
    using hotspot_on_get [OF h] by (auto simp: is_place_def set_value_def split: option.splits)
  with at show "\<exists>segs. iv_at invalid = path segs \<and> is_place (JObject document) segs" by blast
qed

text \<open>The check always answers, and a refusal names a place of the document: a value it carries, or
  a selector of an object it carries, whichever of the three rules refused it.\<close>

lemma refusal_names_a_place:
  assumes "keyed_well (JObject document)"
  shows "\<exists>answer. admits text_of document capabilities = Some answer
    \<and> (\<forall>refused. answer = Inl refused \<longrightarrow>
         (\<exists>segs. iv_at (rf_invalid refused) = path segs \<and> is_place (JObject document) segs))"
proof (cases "cap_check text_of document (mirror_of capabilities)")
  case Within
  then show ?thesis
    using rule_places by (auto simp: admits_def Let_def split: sum.split)
next
  case (Refuses fault)
  then have "faults_in (JObject document) [] fault"
    using walk_faults(1) assms by (simp add: cap_check_def)
  with Refuses show ?thesis by (auto simp: admits_def Let_def faults_in_def)
next
  case Panicked
  then show ?thesis using never_panics(1) by (simp add: cap_check_def)
qed

section \<open>A band only the second radio offers\<close>

text \<open>Two radios, each offering the hotspot a band of its own, and a hotspot that names a band and no radio.\<close>

definition on_band :: "string \<Rightarrow> json" where
  "on_band band = JObject [(''band'', JObject [(band, JObject [])])]"

definition two_radios :: jmap where
  "two_radios = [(''hotspot'', JObject [(''interface'',
     JObject [(''wlan0'', on_band ''2ghz''), (''wlan1'', on_band ''5ghz'')])])]"

definition five_ghz :: jmap where
  "five_ghz = [(''hotspot'', JObject [(''band'', JString ''5ghz''), (''enabled'', JBool True)])]"

text \<open>A document that leaves a keyed member unset is within capabilities where any of that member's
  keys admits the rest, and the check refuses one: a hotspot naming no radio and a band only the
  second radio offers is refused at its band, since the first radio tried does not key it.\<close>

lemma unset_interface_refused:
  "in_object text_of DocumentCtx five_ghz two_radios
    \<and> (\<exists>fault. cap_check text_of five_ghz two_radios = Refuses fault
        \<and> iv_at (ft_invalid fault) = path [Name ''hotspot'', Name ''band''])"
proof
  let ?spot = "[(''band'', JString ''5ghz''), (''enabled'', JBool True)]"
  let ?keyed = "[(''interface'', JObject [(''wlan0'', on_band ''2ghz''), (''wlan1'', on_band ''5ghz'')])]"
  have top: "selects text_of five_ghz two_radios [] \<lparr>rs_constraints = two_radios, rs_consumed = []\<rparr>"
    by (rule selects.resolved) (simp add: next_selector_def SELECTORS_def keyed_by_def two_radios_def)
  have band: "selects text_of ?spot [(''band'', JObject [(''5ghz'', JObject [])])] [''interface'']
      \<lparr>rs_constraints = [], rs_consumed = [''interface'', ''band'']\<rparr>"
  proof (rule selects.selected [where selector = "''band''" and keyed = "[(''5ghz'', JObject [])]" and key = "''5ghz''" and laid = "[]"])
    show "selects text_of ?spot (merged (bt_remove ''band'' [(''band'', JObject [(''5ghz'', JObject [])])]) [])
        ([''interface''] @ [''band'']) \<lparr>rs_constraints = [], rs_consumed = [''interface'', ''band'']\<rparr>"
      using selects.resolved [of "[]" "[''interface'', ''band'']" text_of ?spot]
      by (simp add: next_selector_def SELECTORS_def keyed_by_def merged_def bt_remove_def)
  qed (simp_all add: next_selector_def SELECTORS_def keyed_by_def set_value_def key_of_def)
  have spot: "selects text_of ?spot ?keyed [] \<lparr>rs_constraints = [], rs_consumed = [''interface'', ''band'']\<rparr>"
  proof (rule selects.selected [where selector = "''interface''" and key = "''wlan1''"
      and keyed = "[(''wlan0'', on_band ''2ghz''), (''wlan1'', on_band ''5ghz'')]" and laid = "[(''band'', JObject [(''5ghz'', JObject [])])]"])
    show "selects text_of ?spot (merged (bt_remove ''interface'' ?keyed) [(''band'', JObject [(''5ghz'', JObject [])])])
        ([] @ [''interface'']) \<lparr>rs_constraints = [], rs_consumed = [''interface'', ''band'']\<rparr>"
      using band by (simp add: merged_def bt_remove_def)
  qed (simp_all add: next_selector_def SELECTORS_def keyed_by_def set_value_def on_band_def)
  have "in_object text_of HotspotCtx ?spot ?keyed"
    by (rule object_in [OF spot]) (auto simp: required_def holds_objects_def)
  then show "in_object text_of DocumentCtx five_ghz two_radios"
    by (intro object_in [OF top]) (auto simp: five_ghz_def two_radios_def ctx_child_def intro: inner_in)
next
  have inner: "cap_object text_of [(''band'', JString ''5ghz''), (''enabled'', JBool True)]
      [(''interface'', JObject [(''wlan0'', on_band ''2ghz''), (''wlan1'', on_band ''5ghz'')])] HotspotCtx [Name ''hotspot'']
    = Refuses (outside_at [Name ''hotspot''] ''band'' (text_of (JString ''5ghz'') @ '' is not a supported `'' @ ''band'' @ ''`''))"
    by (simp add: resolve.simps next_selector_def SELECTORS_def keyed_by_def set_value_def on_band_def bt_values_def
      merged_def bt_remove_def key_of_def Let_def)
  show "\<exists>fault. cap_check text_of five_ghz two_radios = Refuses fault
        \<and> iv_at (ft_invalid fault) = path [Name ''hotspot'', Name ''band'']"
    using inner
    by (simp add: cap_check_def five_ghz_def two_radios_def resolve.simps next_selector_def SELECTORS_def keyed_by_def Let_def
      ctx_child_def deeper_def and_then_def)
qed

section \<open>Witnesses\<close>

text \<open>Two radios that each do one thing at a time, a wireless candidate on the first and the hotspot on.\<close>

definition apart :: jmap where
  "apart =
     [(''attachments'', JArray [JObject [(''interface'', JString ''wlan0''), (''kind'', JString ''wireless''), (''label'', JString ''ward'')]]),
      (''hotspot'', JObject [(''band'', JString ''5ghz''), (''enabled'', JBool True), (''interface'', JString ''wlan1'')])]"

definition one_at_a_time :: json where
  "one_at_a_time = JObject [(''alongside'', JString ''one-at-a-time'')]"

definition apart_capabilities :: jmap where
  "apart_capabilities =
     [(''document'', JObject ((''attachments'', JObject [(''kind'', JObject [(''wireless'',
          JObject [(''interface'', JArray [JString ''wlan0'', JString ''wlan1'']), (''label'', JBool True)])])]) # two_radios)),
      (''radios'', JObject [(''wlan0'', one_at_a_time), (''wlan1'', one_at_a_time)])]"

lemma apart_admitted: "admits (\<lambda>_. []) apart apart_capabilities = Some (Inr ())"
  by code_simp

theorem admitted_is_within_witness:
  "in_object (\<lambda>_. []) DocumentCtx apart (mirror_of apart_capabilities)
    \<and> wireless_candidates apart = [\<lparr>cd_label = ''ward'', cd_interface = Some ''wlan0''\<rparr>]
    \<and> radio_alongside (radios_of apart_capabilities) ''wlan1'' = Some ONE_AT_A_TIME
    \<and> (\<exists>station \<in> set (for_candidate (radios_of apart_capabilities) (Some ''wlan0'')). ''wlan1'' \<noteq> station)"
proof -
  obtain hotspot where on: "hotspot_on apart = Some hotspot" "hotspot_radios_for (radios_of apart_capabilities) hotspot = [''wlan1'']"
  proof -
    have "hotspot_on apart = Some [(''band'', JString ''5ghz''), (''enabled'', JBool True), (''interface'', JString ''wlan1'')]"
      by code_simp
    moreover have "hotspot_radios_for (radios_of apart_capabilities)
        [(''band'', JString ''5ghz''), (''enabled'', JBool True), (''interface'', JString ''wlan1'')] = [''wlan1'']" by code_simp
    ultimately show thesis by (rule that)
  qed
  have all: "ra_all (radios_of apart_capabilities) \<noteq> []" by code_simp
  have one: "wireless_candidates apart = [\<lparr>cd_label = ''ward'', cd_interface = Some ''wlan0''\<rparr>]" by code_simp
  have along: "radio_alongside (radios_of apart_capabilities) ''wlan1'' = Some ONE_AT_A_TIME" by code_simp
  from admitted_is_within [OF apart_admitted] on all one along show ?thesis by (simp, metis)
qed

end
