(* ===== verification/Net_Held.thy ===== *)
theory Net_Held
  imports Capability_Rules
begin

text \<open>
  The one configuration a device holds: what the store records of it,
  \<open>crates/bliti/src/network/session/store.rs\<close>, and how a proposal is refused or saved and a verification
  settled, \<open>held.rs\<close>.  The file system is a parameter: the outcome of each write, which may fail with the
  file replaced or not.  Replacing the file is one step, as the rename over it is.
\<close>

section \<open>The store\<close>

record stored_config =
  sc_document :: jmap
  sc_outcome :: outcome_of
  sc_failure :: "failure option"
  sc_replaced :: "jmap option"

definition stored_to_json :: "stored_config \<Rightarrow> json" where
  "stored_to_json s =
     (let file = bt_insert ''document'' (JObject (sc_document s)) [];
          file = bt_insert ''outcome'' (JString (outcome_as_str (sc_outcome s))) file;
          file = put_some ''failure'' (\<lambda>f. JObject (failure_to_map f)) (sc_failure s) file
      in JObject (put_some ''replaced'' JObject (sc_replaced s) file))"

definition stored_object :: "jmap \<Rightarrow> string \<Rightarrow> string + jmap option" where
  "stored_object file member =
     (case bt_get file member of
        Some (JObject object) \<Rightarrow> Inr (Some object)
      | None \<Rightarrow> Inr None
      | Some _ \<Rightarrow> Inl (''`'' @ member @ ''` is not an object''))"

definition stored_from_json :: "json \<Rightarrow> string + stored_config" where
  "stored_from_json file =
     (case file of
        JObject file \<Rightarrow>
          try_r (try_r (stored_object file ''document'') (ok_or ''no `document`'')) (\<lambda>document.
          try_r (try_r (stored_object file ''failure'') (\<lambda>f. case f of
                   None \<Rightarrow> Inr None
                 | Some f \<Rightarrow> try_r (failure_read f) (\<lambda>f. Inr (Some f)))) (\<lambda>failure.
          try_r (stored_object file ''replaced'') (\<lambda>replaced.
          try_r (case bt_get file ''outcome'' of
                   Some (JString outcome) \<Rightarrow> outcome_read outcome
                 | _ \<Rightarrow> Inl ''no `outcome`'') (\<lambda>outcome.
          Inr \<lparr>sc_document = document, sc_outcome = outcome, sc_failure = failure, sc_replaced = replaced\<rparr>))))
      | _ \<Rightarrow> Inl ''not an object'')"

text \<open>The file: not there, holding JSON, or not one to be read or not JSON.\<close>

datatype disk_file = NoFile | Holds json | Unreadable

definition config_load :: "disk_file \<Rightarrow> string + stored_config option" where
  "config_load file =
     (case file of
        NoFile \<Rightarrow> Inr None
      | Unreadable \<Rightarrow> Inl []
      | Holds v \<Rightarrow> try_r (stored_from_json v) (\<lambda>s. Inr (Some s)))"

text \<open>A write that fails may have replaced the file: the directory is synced after the rename.\<close>

datatype write_outcome = Written | WriteFailed bool string

definition config_record :: "write_outcome \<Rightarrow> stored_config \<Rightarrow> disk_file \<Rightarrow> string option \<times> disk_file" where
  "config_record outcome s file =
     (case outcome of
        Written \<Rightarrow> (None, Holds (stored_to_json s))
      | WriteFailed replaced err \<Rightarrow> (Some err, if replaced then Holds (stored_to_json s) else file))"

section \<open>The configuration held\<close>

record proposal =
  pp_raw :: jmap
  pp_document :: document

definition proposal_parse :: "jmap \<Rightarrow> invalid + proposal" where
  "proposal_parse raw = try_r (document_parse raw) (\<lambda>document. Inr \<lparr>pp_raw = raw, pp_document = document\<rparr>)"

record net_state =
  ns_held :: proposal
  ns_outcome :: outcome_of
  ns_failure :: "failure option"
  ns_replaced :: "proposal option"
  ns_revision :: u64
  ns_disk :: disk_file

record held_view =
  hv_revision :: u64
  hv_document :: jmap
  hv_outcome :: outcome_of
  hv_failure :: "failure option"

definition state_stored :: "disk_file \<Rightarrow> stored_config \<Rightarrow> invalid + net_state" where
  "state_stored file stored =
     try_r (proposal_parse (sc_document stored)) (\<lambda>held.
     try_r (case sc_replaced stored of
              None \<Rightarrow> Inr None
            | Some raw \<Rightarrow> try_r (proposal_parse raw) (\<lambda>p. Inr (Some p))) (\<lambda>replaced.
     Inr \<lparr>ns_held = held, ns_outcome = sc_outcome stored, ns_failure = sc_failure stored,
       ns_replaced = replaced, ns_revision = 0, ns_disk = file\<rparr>))"

definition state_default :: "disk_file \<Rightarrow> jmap \<Rightarrow> invalid + net_state" where
  "state_default file fallback =
     try_r (proposal_parse fallback) (\<lambda>held.
       Inr \<lparr>ns_held = held, ns_outcome = Applied, ns_failure = None, ns_replaced = None,
         ns_revision = 0, ns_disk = file\<rparr>)"

definition state_load :: "disk_file \<Rightarrow> jmap \<Rightarrow> invalid + net_state" where
  "state_load file fallback =
     (case config_load file of
        Inr (Some stored) \<Rightarrow>
          (case state_stored file stored of Inr state \<Rightarrow> Inr state | Inl _ \<Rightarrow> state_default file fallback)
      | _ \<Rightarrow> state_default file fallback)"

definition cannot_run :: "failure \<Rightarrow> net_state \<Rightarrow> net_state" where
  "cannot_run failure s = s\<lparr>ns_outcome := ConfigFailed, ns_failure := Some failure\<rparr>"

definition empty_document :: document where
  "empty_document = \<lparr>dc_attachments = [], dc_hotspot = None, dc_regulatory_domain = None\<rparr>"

text \<open>What the configuration a restart interrupted is judged against again.\<close>

definition replaced_document :: "net_state \<Rightarrow> document" where
  "replaced_document s = (case ns_replaced s of None \<Rightarrow> empty_document | Some p \<Rightarrow> pp_document p)"

definition held_now :: "net_state \<Rightarrow> held_view" where
  "held_now s = \<lparr>hv_revision = ns_revision s, hv_document = pp_raw (ns_held s), hv_outcome = ns_outcome s,
     hv_failure = ns_failure s\<rparr>"

definition stored_now :: "net_state \<Rightarrow> stored_config" where
  "stored_now s = \<lparr>sc_document = pp_raw (ns_held s), sc_outcome = ns_outcome s, sc_failure = ns_failure s,
     sc_replaced = map_option pp_raw (ns_replaced s)\<rparr>"

text \<open>
  What refuses a proposal: its own form, what the device offers, and what the backend says of it.  The
  check of the capabilities never panics (\<open>admits_total\<close> below), so its \<open>None\<close> stands for no run.
\<close>

definition refusal_of ::
  "(json \<Rightarrow> string) \<Rightarrow> jmap \<Rightarrow> (document \<Rightarrow> invalid + unit) \<Rightarrow> jmap \<Rightarrow> invalid + proposal" where
  "refusal_of text_of capabilities backend_check raw =
     try_r (proposal_parse raw) (\<lambda>p.
     try_r (case admits text_of (pp_raw p) capabilities of
              Some (Inl refused) \<Rightarrow> Inl (rf_invalid refused)
            | _ \<Rightarrow> Inr ()) (\<lambda>_.
     try_r (backend_check (pp_document p)) (\<lambda>_. Inr p)))"

definition judged_against :: "net_state \<Rightarrow> proposal" where
  "judged_against s =
     (case (ns_outcome s, ns_replaced s) of
        (Verifying, Some replaced) \<Rightarrow> replaced
      | _ \<Rightarrow> ns_held s)"

definition net_save ::
  "(json \<Rightarrow> string) \<Rightarrow> jmap \<Rightarrow> (document \<Rightarrow> invalid + unit) \<Rightarrow> write_outcome \<Rightarrow> jmap \<Rightarrow> net_state
    \<Rightarrow> (invalid + document \<times> document) \<times> net_state" where
  "net_save text_of capabilities backend_check outcome raw s =
     (case refusal_of text_of capabilities backend_check raw of
        Inl invalid \<Rightarrow> (Inl invalid, s)
      | Inr p \<Rightarrow>
          (let replaced = judged_against s;
               saved = \<lparr>sc_document = pp_raw p, sc_outcome = Verifying, sc_failure = None,
                 sc_replaced = Some (pp_raw replaced)\<rparr>
           in case config_record outcome saved (ns_disk s) of
                (Some err, file) \<Rightarrow>
                  (Inl (invalid_at (path []) (Words (''could not record the configuration: '' @ err))), s\<lparr>ns_disk := file\<rparr>)
              | (None, file) \<Rightarrow>
                  (Inr (pp_document p, pp_document replaced),
                   s\<lparr>ns_held := p, ns_outcome := Verifying, ns_failure := None, ns_replaced := Some replaced,
                     ns_revision := ns_revision s + 1, ns_disk := file\<rparr>)))"

definition net_settle :: "failure option \<Rightarrow> write_outcome \<Rightarrow> net_state \<Rightarrow> net_state" where
  "net_settle verdict outcome s =
     (let s = (case verdict of
             None \<Rightarrow> s\<lparr>ns_outcome := Applied, ns_failure := None\<rparr>
           | Some failure \<Rightarrow> s\<lparr>ns_outcome := ConfigFailed, ns_failure := Some failure\<rparr>);
          s = s\<lparr>ns_replaced := None\<rparr>
      in s\<lparr>ns_disk := snd (config_record outcome (stored_now s) (ns_disk s))\<rparr>)"

section \<open>Lemmas\<close>

lemma admits_total: "admits text_of document capabilities \<noteq> None"
  using never_panics(1) [of text_of document "mirror_of capabilities" DocumentCtx "[]"]
  by (auto simp: admits_def cap_check_def Let_def split: verdict.splits sum.splits)

lemma stored_reads_back: "stored_from_json (stored_to_json s) = Inr s"
proof -
  have object: "stored_object m k = Inr v" if "bt_get m k = map_option JObject v" for m k v
    using that by (cases v) (simp_all add: stored_object_def)
  have outcome: "outcome_read (outcome_as_str (sc_outcome s)) = Inr (sc_outcome s)"
    by (cases "sc_outcome s") (simp_all add: outcome_read_def)
  have some: "stored_object m k = Inr (Some v)" if "bt_get m k = Some (JObject v)" for m k v
    using that by (simp add: stored_object_def)
  show ?thesis
    by (cases s; cases "sc_failure s"; cases "sc_replaced s")
      (use outcome in \<open>simp_all add: stored_to_json_def stored_from_json_def Let_def some object failure_roundtrip\<close>)
qed

end
