(* ===== verification/Net_Task.thy ===== *)
theory Net_Task
  imports Net_Held Selector Messages
begin

text \<open>
  The task that owns the backend, the store and the configuration held,
  \<open>crates/bliti/src/network/session/task.rs\<close>, as it is started by \<open>session.rs\<close>, with the backend that
  configures nothing, \<open>backend.rs\<close>.  The task takes one command, verdict, act or change of the states
  at a time; what the backend says when it is asked is part of the event.  Which of two events that are
  both ready is taken first is for the runtime, so every sequence of events is a run.
\<close>

section \<open>Reasons in words\<close>

text \<open>How the standard library quotes a string, \<open>{:?}\<close>, is a parameter.\<close>

definition reason_text :: "(string \<Rightarrow> string) \<Rightarrow> cfg_reason \<Rightarrow> string" where
  "reason_text quoted reason =
     (case reason of
        Words s \<Rightarrow> s
      | AlreadyDynamic interface \<Rightarrow> ''interface '' @ quoted interface @ '' already has a dynamic candidate''
      | NamedTwice twice \<Rightarrow> quoted twice @ '' is named twice'')"

definition state_reason_text :: "(string \<Rightarrow> string) \<Rightarrow> state_reason \<Rightarrow> string" where
  "state_reason_text quoted reason =
     (case reason of
        NoCarrier interface \<Rightarrow> interface @ '' has no carrier''
      | OutOfRange ssid (Some interface) \<Rightarrow> quoted ssid @ '' is out of range of '' @ interface
      | OutOfRange ssid None \<Rightarrow> quoted ssid @ '' is out of range''
      | Reported words \<Rightarrow> words)"

text \<open>A candidate's state as an entry of \<open>state\<close>.\<close>

definition entry_of :: "(string \<Rightarrow> string) \<Rightarrow> cand_state \<Rightarrow> json" where
  "entry_of quoted state =
     (let is = (\<lambda>name. JObject (bt_collect [(''is'', JString name)])) in
      case state of
        DefaultRoute \<Rightarrow> is ''default-route''
      | Up \<Rightarrow> is ''up''
      | VerifyingAt _ \<Rightarrow> is ''verifying''
      | Standby \<Rightarrow> is ''standby''
      | Off \<Rightarrow> is ''off''
      | Unavailable reached _ reason \<Rightarrow>
          JObject (bt_collect [(''is'', JString ''unavailable''), (''reached'', JString (stage_as_str reached)),
            (''reason'', JString (state_reason_text quoted reason))]))"

section \<open>The backend\<close>

text \<open>What the backend answers when it is asked, at one moment.\<close>

record net_backend =
  bk_capabilities :: jmap
  bk_check :: "document \<Rightarrow> invalid + unit"
  bk_states :: "json list option"
  bk_scan :: "string option \<Rightarrow> invalid + json list"
  bk_survey :: "string option \<Rightarrow> invalid + jmap option"

definition INERT :: string where
  "INERT = ''this build of bliti cannot configure the network''"

definition inert :: net_backend where
  "inert = \<lparr>bk_capabilities = bt_collect [(''document'', JObject []), (''acts'', JObject [])],
     bk_check = (\<lambda>_. Inl (invalid_at (path []) (Words INERT))),
     bk_states = None,
     bk_scan = (\<lambda>_. Inl (invalid_at (path []) (Words ''this build of bliti cannot scan for wireless networks''))),
     bk_survey = (\<lambda>_. Inr None)\<rparr>"

definition inert_apply :: "document \<Rightarrow> document \<Rightarrow> failure option" where
  "inert_apply document replacing = Some \<lparr>fl_at = path [], fl_reason = INERT, fl_reached = None\<rparr>"

definition inert_restore :: "document \<Rightarrow> failure option" where
  "inert_restore document = None"

section \<open>Acts\<close>

datatype net_act = ScanAct "string option" | SurveyAct "string option"

fun act_name :: "net_act \<Rightarrow> string" where
  "act_name (ScanAct _) = ''scan''"
| "act_name (SurveyAct _) = ''survey''"

fun act_interface :: "net_act \<Rightarrow> string option" where
  "act_interface (ScanAct interface) = interface"
| "act_interface (SurveyAct interface) = interface"

definition offered :: "(json \<Rightarrow> string) \<Rightarrow> jmap \<Rightarrow> net_act \<Rightarrow> invalid + unit" where
  "offered text_of capabilities act =
     (let message = (case act_interface act of None \<Rightarrow> [] | Some interface \<Rightarrow> [(''interface'', JString interface)]) in
      case Option.bind (Option.bind (bt_get capabilities ''acts'') as_object) (\<lambda>acts. bt_get acts (act_name act)) of
        Some (JBool True) \<Rightarrow> Inr ()
      | Some (JObject mirror) \<Rightarrow>
          (case cap_check text_of message mirror of
             Refuses fault \<Rightarrow> Inl (ft_invalid fault)
           | _ \<Rightarrow> Inr ())
      | _ \<Rightarrow> Inl (invalid_at (path []) (Words (''this device does not offer `'' @ act_name act @ ''`''))))"

definition carry_out :: "(json \<Rightarrow> string) \<Rightarrow> net_backend \<Rightarrow> net_act \<Rightarrow> invalid + message" where
  "carry_out text_of backend act =
     try_r (offered text_of (bk_capabilities backend) act) (\<lambda>_.
     case act of
       ScanAct interface \<Rightarrow> try_r (bk_scan backend interface) (\<lambda>access_points. Inr (Networks access_points))
     | SurveyAct interface \<Rightarrow>
         try_r (bk_survey backend interface) (\<lambda>spectrum. case spectrum of
           Some spectrum \<Rightarrow> Inr (Spectrum spectrum)
         | None \<Rightarrow> Inl (invalid_at (path []) (Words ''no radio asked can survey its spectrum''))))"

section \<open>What is published\<close>

record net_snapshot =
  sn_held :: held_view
  sn_capabilities :: jmap
  sn_attachments :: "json list option"

definition held_document :: "net_state \<Rightarrow> document" where
  "held_document s = pp_document (ns_held s)"

definition snapshot_of :: "net_backend \<Rightarrow> net_state \<Rightarrow> net_snapshot" where
  "snapshot_of backend s =
     \<lparr>sn_held = held_now s,
      sn_capabilities = bk_capabilities backend,
      sn_attachments =
        (case bk_states backend of
           None \<Rightarrow> Some []
         | Some entries \<Rightarrow> if length entries = length (dc_attachments (held_document s)) then Some entries else None)\<rparr>"

section \<open>The task\<close>

text \<open>Acts under way are named by the reply each is for.\<close>

record net_task =
  tk_state :: net_state
  tk_verifying :: "(document \<times> document) option"
  tk_acts :: "(nat \<times> net_act) list"
  tk_observing :: bool
  tk_published :: net_snapshot

datatype net_reply = SaveReply "invalid + unit" | ActReply "invalid + message"

text \<open>
  An event is what one pass of the loop takes up.  A proposal is checked against one moment of the backend
  and published with a later one, as its record is written in between.
\<close>

datatype task_event =
    ProposeCommand nat jmap net_backend write_outcome net_backend
  | ActCommand nat net_act
  | VerdictComes "failure option" write_outcome net_backend
  | ActEnds nat net_backend
  | StatesChange net_backend
  | StatesClose net_backend

definition task_publish :: "net_backend \<Rightarrow> net_task \<Rightarrow> net_task" where
  "task_publish backend t = t\<lparr>tk_published := snapshot_of backend (tk_state t)\<rparr>"

definition verification_of :: "net_state \<Rightarrow> (document \<times> document) option" where
  "verification_of s = (if ns_outcome s = Verifying then Some (held_document s, replaced_document s) else None)"

definition task_new :: "net_backend \<Rightarrow> net_state \<Rightarrow> net_task" where
  "task_new backend s = \<lparr>tk_state = s, tk_verifying = verification_of s, tk_acts = [], tk_observing = True,
     tk_published = snapshot_of backend s\<rparr>"

fun task_step :: "(json \<Rightarrow> string) \<Rightarrow> net_task \<Rightarrow> task_event \<Rightarrow> net_task \<times> (nat \<times> net_reply) list" where
  "task_step text_of t (ProposeCommand reply raw backend outcome after) =
     (let (saved, s) = net_save text_of (bk_capabilities backend) (bk_check backend) outcome raw (tk_state t);
          t = task_publish after (t\<lparr>tk_state := s\<rparr>)
      in case saved of
           Inr verify \<Rightarrow> (t\<lparr>tk_verifying := Some verify\<rparr>, [(reply, SaveReply (Inr ()))])
         | Inl invalid \<Rightarrow> (t, [(reply, SaveReply (Inl invalid))]))"
| "task_step text_of t (ActCommand reply act) = (t\<lparr>tk_acts := tk_acts t @ [(reply, act)]\<rparr>, [])"
| "task_step text_of t (VerdictComes verdict outcome backend) =
     (if tk_verifying t = None then (t, [])
      else (task_publish backend (t\<lparr>tk_verifying := None, tk_state := net_settle verdict outcome (tk_state t)\<rparr>), []))"
| "task_step text_of t (ActEnds reply backend) =
     (case List.find (\<lambda>(r, _). r = reply) (tk_acts t) of
        None \<Rightarrow> (t, [])
      | Some (r, act) \<Rightarrow>
          (t\<lparr>tk_acts := remove1 (r, act) (tk_acts t)\<rparr>, [(reply, ActReply (carry_out text_of backend act))]))"
| "task_step text_of t (StatesChange backend) = (if tk_observing t then task_publish backend t else t, [])"
| "task_step text_of t (StatesClose backend) =
     (if tk_observing t then task_publish backend (t\<lparr>tk_observing := False\<rparr>) else t, [])"

text \<open>\<open>Configurator::start\<close>: what was held is loaded and, where it was settled, put back in force.\<close>

definition task_start ::
  "net_backend \<Rightarrow> (document \<Rightarrow> failure option) \<Rightarrow> disk_file \<Rightarrow> jmap \<Rightarrow> invalid + net_task" where
  "task_start backend restore file fallback =
     try_r (state_load file fallback) (\<lambda>s.
     let s = (if ns_outcome s \<noteq> Verifying
              then (case restore (held_document s) of Some failure \<Rightarrow> cannot_run failure s | None \<Rightarrow> s)
              else s)
     in Inr (task_new backend s))"

definition task_next :: "(json \<Rightarrow> string) \<Rightarrow> net_task \<Rightarrow> task_event \<Rightarrow> net_task" where
  "task_next text_of t e = fst (task_step text_of t e)"

end
