(* ===== verification/Net_Restart.thy ===== *)
theory Net_Restart
  imports Net_Task
begin

text \<open>
  What holds of the task over every run: that its parts agree, that what is verified is judged against
  the configuration last judged, and that a restart finds what was held.
\<close>

section \<open>Well-formed\<close>

definition settled_ok :: "outcome_of \<Rightarrow> failure option \<Rightarrow> 'a option \<Rightarrow> bool" where
  "settled_ok outcome failure replaced =
     (case outcome of
        Verifying \<Rightarrow> failure = None \<and> replaced \<noteq> None
      | Applied \<Rightarrow> failure = None \<and> replaced = None
      | ConfigFailed \<Rightarrow> failure \<noteq> None \<and> replaced = None)"

definition proposal_ok :: "proposal \<Rightarrow> bool" where
  "proposal_ok p \<longleftrightarrow> document_parse (pp_raw p) = Inr (pp_document p)"

definition parses :: "jmap \<Rightarrow> bool" where
  "parses raw \<longleftrightarrow> \<not> isl (document_parse raw)"

definition stored_ok :: "stored_config \<Rightarrow> bool" where
  "stored_ok sc \<longleftrightarrow> settled_ok (sc_outcome sc) (sc_failure sc) (sc_replaced sc) \<and> parses (sc_document sc)
     \<and> pred_option parses (sc_replaced sc)"

definition disk_ok :: "disk_file \<Rightarrow> bool" where
  "disk_ok file \<longleftrightarrow> (case config_load file of Inr (Some sc) \<Rightarrow> stored_ok sc | _ \<Rightarrow> True)"

definition state_ok :: "net_state \<Rightarrow> bool" where
  "state_ok s \<longleftrightarrow> settled_ok (ns_outcome s) (ns_failure s) (ns_replaced s) \<and> proposal_ok (ns_held s)
     \<and> pred_option proposal_ok (ns_replaced s) \<and> disk_ok (ns_disk s)"

text \<open>
  What is published is what is held, with what one backend offers and says of the candidates: nothing where
  it says nothing, its word on each where it has one for every candidate, and no word where it has not.
\<close>

definition published_by :: "net_backend \<Rightarrow> net_state \<Rightarrow> net_snapshot \<Rightarrow> bool" where
  "published_by backend s n \<longleftrightarrow>
     sn_held n = held_now s \<and> sn_capabilities n = bk_capabilities backend
     \<and> (case bk_states backend of
          None \<Rightarrow> sn_attachments n = Some []
        | Some entries \<Rightarrow>
            sn_attachments n = (if length entries = length (dc_attachments (held_document s)) then Some entries else None))"

definition published_ok :: "net_state \<Rightarrow> net_snapshot \<Rightarrow> bool" where
  "published_ok s n \<longleftrightarrow> (\<exists>backend. published_by backend s n)"

definition task_ok :: "net_task \<Rightarrow> bool" where
  "task_ok t \<longleftrightarrow> state_ok (tk_state t) \<and> tk_verifying t = verification_of (tk_state t)
     \<and> published_ok (tk_state t) (tk_published t)"

lemma proposal_parse_ok: "proposal_parse raw = Inr p \<longleftrightarrow> pp_raw p = raw \<and> proposal_ok p"
  by (cases p) (auto simp: proposal_parse_def proposal_ok_def try_r_eq_Inr)

lemma proposal_ok_parses: "proposal_ok p \<Longrightarrow> parses (pp_raw p)"
  by (simp add: proposal_ok_def parses_def)

lemma parses_proposal: "parses raw \<Longrightarrow> \<exists>p. proposal_parse raw = Inr p"
  by (auto simp: parses_def proposal_parse_def isl_def split: sum.splits) (metis sum.exhaust try_r_Inr)

lemma reparsed: "proposal_ok p \<Longrightarrow> proposal_parse (pp_raw p) = Inr p"
  by (simp add: proposal_parse_ok)

lemma refusal_of_ok: "refusal_of text_of capabilities check raw = Inr p \<Longrightarrow> proposal_ok p"
  by (auto simp: refusal_of_def try_r_eq_Inr proposal_parse_ok)

lemma judged_ok: "state_ok s \<Longrightarrow> proposal_ok (judged_against s)"
  by (auto simp: state_ok_def judged_against_def split: outcome_of.splits option.splits)

lemma load_written [simp]: "config_load (Holds (stored_to_json sc)) = Inr (Some sc)"
  by (simp add: config_load_def stored_reads_back)

lemma written_ok: "stored_ok sc \<Longrightarrow> disk_ok (Holds (stored_to_json sc))"
  by (simp add: disk_ok_def)

lemma recorded_ok: "stored_ok sc \<Longrightarrow> disk_ok file \<Longrightarrow> disk_ok (snd (config_record outcome sc file))"
  by (simp add: config_record_def written_ok split: write_outcome.splits)

lemma stored_now_ok: "state_ok s \<Longrightarrow> stored_ok (stored_now s)"
  by (cases "ns_replaced s")
    (auto simp: state_ok_def stored_ok_def stored_now_def settled_ok_def proposal_ok_parses split: outcome_of.splits)

text \<open>What a save does, on each of its branches.\<close>

definition saved_config :: "proposal \<Rightarrow> net_state \<Rightarrow> stored_config" where
  "saved_config p s = \<lparr>sc_document = pp_raw p, sc_outcome = Verifying, sc_failure = None,
     sc_replaced = Some (pp_raw (judged_against s))\<rparr>"

definition saved_state :: "proposal \<Rightarrow> net_state \<Rightarrow> net_state" where
  "saved_state p s = s\<lparr>ns_held := p, ns_outcome := Verifying, ns_failure := None,
     ns_replaced := Some (judged_against s), ns_revision := ns_revision s + 1,
     ns_disk := Holds (stored_to_json (saved_config p s))\<rparr>"

definition unwritten :: "string \<Rightarrow> invalid" where
  "unwritten err = invalid_at (path []) (Words (''could not record the configuration: '' @ err))"

lemma net_save_refused:
  "refusal_of text_of capabilities check raw = Inl invalid \<Longrightarrow>
     net_save text_of capabilities check outcome raw s = (Inl invalid, s)"
  by (simp add: net_save_def)

lemma net_save_written:
  "refusal_of text_of capabilities check raw = Inr p \<Longrightarrow>
     net_save text_of capabilities check Written raw s
       = (Inr (pp_document p, pp_document (judged_against s)), saved_state p s)"
  by (simp add: net_save_def Let_def config_record_def saved_state_def saved_config_def)

lemma net_save_unwritten:
  "refusal_of text_of capabilities check raw = Inr p \<Longrightarrow>
     net_save text_of capabilities check (WriteFailed replaced err) raw s
       = (Inl (unwritten err),
          s\<lparr>ns_disk := if replaced then Holds (stored_to_json (saved_config p s)) else ns_disk s\<rparr>)"
  by (simp add: net_save_def Let_def config_record_def saved_config_def unwritten_def)

lemmas net_save_cases = net_save_refused net_save_written net_save_unwritten

lemma saved_config_ok: "proposal_ok p \<Longrightarrow> state_ok s \<Longrightarrow> stored_ok (saved_config p s)"
  by (simp add: stored_ok_def saved_config_def settled_ok_def proposal_ok_parses judged_ok)

lemma saved_state_ok:
  assumes "proposal_ok p" "state_ok s" shows "state_ok (saved_state p s)"
  using assms judged_ok [OF assms(2)] written_ok [OF saved_config_ok [OF assms]]
  by (simp add: saved_state_def state_ok_def settled_ok_def)

lemma disk_changes_ok: "state_ok s \<Longrightarrow> disk_ok file \<Longrightarrow> state_ok (s\<lparr>ns_disk := file\<rparr>)"
  by (simp add: state_ok_def)

lemma net_settle_ok:
  assumes "state_ok s" shows "state_ok (net_settle verdict outcome s)"
proof -
  let ?s = "(case verdict of
       None \<Rightarrow> s\<lparr>ns_outcome := Applied, ns_failure := None\<rparr>
     | Some failure \<Rightarrow> s\<lparr>ns_outcome := ConfigFailed, ns_failure := Some failure\<rparr>)\<lparr>ns_replaced := None\<rparr>"
  have "state_ok ?s" using assms by (auto simp: state_ok_def settled_ok_def split: option.splits)
  moreover from this have "stored_ok (stored_now ?s)" by (rule stored_now_ok)
  ultimately show ?thesis
    by (auto simp: net_settle_def Let_def state_ok_def intro: recorded_ok)
qed

lemma verification_settled [simp]: "verification_of (net_settle verdict outcome s) = None"
  by (simp add: net_settle_def Let_def verification_of_def split: option.splits)

lemma snapshot_by: "published_by backend s (snapshot_of backend s)"
  by (simp add: published_by_def snapshot_of_def split: option.split)

lemma snapshot_ok: "published_ok s (snapshot_of backend s)"
  using snapshot_by by (auto simp: published_ok_def)

lemma published_disk [simp]:
  "published_by b (s\<lparr>ns_disk := file\<rparr>) n = published_by b s n" "published_ok (s\<lparr>ns_disk := file\<rparr>) n = published_ok s n"
proof -
  have "held_now (s\<lparr>ns_disk := file\<rparr>) = held_now s" "held_document (s\<lparr>ns_disk := file\<rparr>) = held_document s"
    by (simp_all add: held_now_def held_document_def)
  then show "published_by b (s\<lparr>ns_disk := file\<rparr>) n = published_by b s n" "published_ok (s\<lparr>ns_disk := file\<rparr>) n = published_ok s n"
    by (simp_all only: published_ok_def published_by_def)
qed

lemma task_new_ok: "state_ok s \<Longrightarrow> task_ok (task_new backend s)"
  by (simp add: task_ok_def task_new_def snapshot_ok)

lemma task_publish_ok:
  "state_ok (tk_state t) \<Longrightarrow> tk_verifying t = verification_of (tk_state t) \<Longrightarrow> task_ok (task_publish backend t)"
  by (simp add: task_ok_def task_publish_def snapshot_ok)

lemma task_step_ok:
  assumes t: "task_ok t" shows "task_ok (task_next text_of t e)"
proof (cases e)
  case (ProposeCommand reply raw backend outcome after)
  have s: "state_ok (tk_state t)" and v: "tk_verifying t = verification_of (tk_state t)"
    using t by (simp_all add: task_ok_def)
  show ?thesis
  proof (cases "refusal_of text_of (bk_capabilities backend) (bk_check backend) raw")
    case (Inl invalid)
    with s v ProposeCommand show ?thesis
      by (simp add: task_next_def net_save_refused Let_def task_publish_ok)
  next
    case (Inr p)
    note p = refusal_of_ok [OF Inr]
    show ?thesis
    proof (cases outcome)
      case Written
      with ProposeCommand Inr saved_state_ok [OF p s] show ?thesis
        by (simp add: task_next_def net_save_written [OF Inr] Let_def task_ok_def task_publish_def snapshot_ok)
          (simp add: verification_of_def saved_state_def held_document_def replaced_document_def)
    next
      case (WriteFailed replaced err)
      have "state_ok ((tk_state t)\<lparr>ns_disk := if replaced then Holds (stored_to_json (saved_config p (tk_state t)))
          else ns_disk (tk_state t)\<rparr>)"
        using s written_ok [OF saved_config_ok [OF p s]] by (simp add: state_ok_def)
      with ProposeCommand WriteFailed v show ?thesis
        by (simp add: task_next_def net_save_unwritten [OF Inr] Let_def task_ok_def task_publish_def snapshot_ok del: if_split_asm)
          (simp add: verification_of_def held_document_def replaced_document_def)
    qed
  qed
next
  case VerdictComes
  with t show ?thesis by (auto simp: task_next_def task_ok_def task_publish_def snapshot_ok net_settle_ok)
qed (use t in \<open>auto simp: task_next_def task_ok_def task_publish_def snapshot_ok split: option.splits\<close>)

text \<open>Which backend an event publishes with.\<close>

fun asked :: "task_event \<Rightarrow> net_backend list" where
  "asked (ProposeCommand reply raw backend outcome after) = [after]"
| "asked (VerdictComes verdict outcome backend) = [backend]"
| "asked (StatesChange backend) = [backend]"
| "asked (StatesClose backend) = [backend]"
| "asked e = []"

text \<open>An event leaves what is held and published as they were, or publishes what is held after it.\<close>

lemma task_step_published:
  "(\<exists>b \<in> set (asked e). tk_published (task_next text_of t e) = snapshot_of b (tk_state (task_next text_of t e)))
    \<or> tk_published (task_next text_of t e) = tk_published t \<and> tk_state (task_next text_of t e) = tk_state t"
  by (cases e) (simp_all add: task_next_def task_publish_def Let_def case_prod_unfold split: sum.split option.split)

lemma run_published:
  "published_by b (tk_state t) (tk_published t) \<Longrightarrow>
    \<exists>b' \<in> set (b # concat (map asked es)). published_by b' (tk_state (foldl (task_next text_of) t es))
      (tk_published (foldl (task_next text_of) t es))"
proof (induction es arbitrary: b t)
  case (Cons e es)
  from task_step_published [of e text_of t] obtain b' where "b' \<in> set (b # asked e)"
    "published_by b' (tk_state (task_next text_of t e)) (tk_published (task_next text_of t e))"
    using Cons.prems snapshot_by by (metis list.set_intros(1,2))
  with Cons.IH [of b' "task_next text_of t e"] show ?case by auto
qed simp

interpretation task: event_machine "task_next text_of" task_ok
  by unfold_locales (rule task_step_ok)

text \<open>What is loaded is well formed where what is on the disk is.\<close>

lemma state_load_cases:
  assumes "state_load file fallback = Inr s"
  obtains sc where "config_load file = Inr (Some sc)" "state_stored file sc = Inr s"
  | "state_default file fallback = Inr s"
  using assms by (auto simp: state_load_def split: sum.splits option.splits)

lemma default_ok: "disk_ok file \<Longrightarrow> state_default file fallback = Inr s \<Longrightarrow> state_ok s"
  by (auto simp: state_default_def try_r_eq_Inr proposal_parse_ok state_ok_def settled_ok_def)

lemma state_stored_ok:
  assumes "disk_ok file" "stored_ok sc" "state_stored file sc = Inr s" shows "state_ok s"
  using assms
  by (cases "sc_replaced sc")
    (auto simp: state_stored_def try_r_eq_Inr proposal_parse_ok state_ok_def stored_ok_def settled_ok_def
      split: outcome_of.splits)

lemma state_load_ok:
  assumes d: "disk_ok file" and s: "state_load file fallback = Inr s" shows "state_ok s"
  using s
proof (cases rule: state_load_cases)
  case (1 sc)
  from d 1(1) have "stored_ok sc" by (simp add: disk_ok_def)
  with d 1(2) show ?thesis by (intro state_stored_ok)
qed (rule default_ok [OF d])

lemma cannot_run_ok: "state_ok s \<Longrightarrow> ns_outcome s \<noteq> Verifying \<Longrightarrow> state_ok (cannot_run failure s)"
  by (auto simp: state_ok_def cannot_run_def settled_ok_def split: outcome_of.splits)

lemma task_start_ok: "disk_ok file \<Longrightarrow> task_start backend restore file fallback = Inr t \<Longrightarrow> task_ok t"
  by (auto simp: task_start_def try_r_eq_Inr Let_def cannot_run_ok state_load_ok intro!: task_new_ok split: option.splits)

section \<open>What is verified, and against what\<close>

text \<open>
  The promise: the device holds one configuration that was judged, and at most one on trial, which is
  judged against it however many trials it replaced.
\<close>

record trial =
  tr_judged :: proposal
  tr_trial :: "proposal option"

definition trial_of :: "net_state \<Rightarrow> trial" where
  "trial_of s = \<lparr>tr_judged = judged_against s, tr_trial = (if ns_outcome s = Verifying then Some (ns_held s) else None)\<rparr>"

definition accepted :: "(json \<Rightarrow> string) \<Rightarrow> task_event \<Rightarrow> proposal option" where
  "accepted text_of e =
     (case e of
        ProposeCommand _ raw backend outcome _ \<Rightarrow>
          (case refusal_of text_of (bk_capabilities backend) (bk_check backend) raw of
             Inr p \<Rightarrow> if outcome = Written then Some p else None
           | Inl _ \<Rightarrow> None)
      | _ \<Rightarrow> None)"

definition trial_step :: "(json \<Rightarrow> string) \<Rightarrow> trial \<Rightarrow> task_event \<Rightarrow> trial" where
  "trial_step text_of r e =
     (case (accepted text_of e, e, tr_trial r) of
        (Some p, _, _) \<Rightarrow> r\<lparr>tr_trial := Some p\<rparr>
      | (None, VerdictComes _ _ _, Some p) \<Rightarrow> \<lparr>tr_judged = p, tr_trial = None\<rparr>
      | _ \<Rightarrow> r)"

definition on_trial :: "trial \<Rightarrow> (document \<times> document) option" where
  "on_trial r = map_option (\<lambda>p. (pp_document p, pp_document (tr_judged r))) (tr_trial r)"

lemma trial_unwritten [simp]: "trial_of (s\<lparr>ns_disk := file\<rparr>) = trial_of s"
  by (simp add: trial_of_def judged_against_def split: outcome_of.splits option.splits)

lemma trial_held: "tr_trial (trial_of s) = Some p \<Longrightarrow> p = ns_held s"
  by (simp add: trial_of_def split: if_splits)

lemma trial_saved [simp]: "trial_of (saved_state p s) = (trial_of s)\<lparr>tr_trial := Some p\<rparr>"
  by (simp add: trial_of_def judged_against_def saved_state_def)

lemma trial_settled [simp]: "trial_of (net_settle verdict outcome s) = \<lparr>tr_judged = ns_held s, tr_trial = None\<rparr>"
  by (simp add: trial_of_def judged_against_def net_settle_def Let_def split: option.splits)

lemma on_trial_verifying: "task_ok t \<Longrightarrow> tk_verifying t = on_trial (trial_of (tk_state t))"
  by (auto simp: task_ok_def state_ok_def settled_ok_def verification_of_def on_trial_def trial_of_def
      judged_against_def replaced_document_def held_document_def split: outcome_of.splits option.splits)

lemma state_publish [simp]: "tk_state (task_publish backend t) = tk_state t"
  by (simp add: task_publish_def)

lemma trial_simulated:
  assumes t: "task_ok t" shows "trial_of (tk_state (task_next text_of t e)) = trial_step text_of (trial_of (tk_state t)) e"
proof (cases e)
  case (ProposeCommand reply raw backend outcome after)
  show ?thesis
  proof (cases "refusal_of text_of (bk_capabilities backend) (bk_check backend) raw")
    case (Inl invalid)
    with ProposeCommand show ?thesis
      by (simp add: task_next_def net_save_refused Let_def trial_step_def accepted_def)
  next
    case (Inr p)
    with ProposeCommand show ?thesis
      by (cases outcome)
        (simp_all add: task_next_def net_save_written [OF Inr] net_save_unwritten [OF Inr] Let_def trial_step_def
          accepted_def)
  qed
next
  case (VerdictComes verdict outcome backend)
  have "tk_verifying t = None \<longleftrightarrow> tr_trial (trial_of (tk_state t)) = None"
    using on_trial_verifying [OF t] by (simp add: on_trial_def)
  with VerdictComes show ?thesis
    by (cases "tr_trial (trial_of (tk_state t))")
      (auto simp: task_next_def trial_step_def accepted_def dest: trial_held)
qed (auto simp: task_next_def trial_step_def accepted_def split: option.splits)

lemma run_simulated:
  "task_ok t \<Longrightarrow>
     trial_of (tk_state (foldl (task_next text_of) t es)) = foldl (trial_step text_of) (trial_of (tk_state t)) es"
  by (induction es arbitrary: t) (simp_all add: task_step_ok trial_simulated)

section \<open>A restart\<close>

fun written :: "task_event \<Rightarrow> bool" where
  "written (ProposeCommand _ _ _ outcome _) = (outcome = Written)"
| "written (VerdictComes _ outcome _) = (outcome = Written)"
| "written _ = True"

definition reloads :: "jmap \<Rightarrow> net_task \<Rightarrow> bool" where
  "reloads fallback t \<longleftrightarrow> task_ok t
     \<and> state_load (ns_disk (tk_state t)) fallback = Inr ((tk_state t)\<lparr>ns_revision := 0\<rparr>)"

lemma stored_state:
  assumes "state_ok s" shows "state_stored file (stored_now s) = Inr (s\<lparr>ns_revision := 0, ns_disk := file\<rparr>)"
  using assms
  by (cases s; cases "ns_replaced s") (simp_all add: state_stored_def stored_now_def state_ok_def reparsed)

lemma load_stored:
  "state_ok s \<Longrightarrow> state_load (Holds (stored_to_json (stored_now s))) fallback
     = Inr (s\<lparr>ns_revision := 0, ns_disk := Holds (stored_to_json (stored_now s))\<rparr>)"
  by (simp add: state_load_def stored_state)

lemma saved_now: "saved_config p s = stored_now (saved_state p s)"
  by (simp add: saved_config_def stored_now_def saved_state_def)

lemma saved_reloads:
  assumes "proposal_ok p" "state_ok s"
  shows "state_load (ns_disk (saved_state p s)) fallback = Inr ((saved_state p s)\<lparr>ns_revision := 0\<rparr>)"
proof -
  have d: "ns_disk (saved_state p s) = Holds (stored_to_json (stored_now (saved_state p s)))"
    by (subst saved_now [symmetric]) (simp add: saved_state_def)
  show ?thesis
    unfolding d load_stored [OF saved_state_ok [OF assms]] by (simp flip: d)
qed

lemma settled_written:
  "ns_disk (net_settle verdict Written s) = Holds (stored_to_json (stored_now (net_settle verdict Written s)))"
  by (simp add: net_settle_def Let_def config_record_def stored_now_def)

lemma settled_reloads:
  assumes "state_ok s"
  shows "state_load (ns_disk (net_settle verdict Written s)) fallback
    = Inr ((net_settle verdict Written s)\<lparr>ns_revision := 0\<rparr>)"
  unfolding settled_written load_stored [OF net_settle_ok [OF assms]] by (simp flip: settled_written)

text \<open>A step whose writes succeed leaves what is held as it was, or writes what it leaves.\<close>

lemma step_writes:
  assumes t: "task_ok t" and w: "written e"
  shows "tk_state (task_next text_of t e) = tk_state t \<or> reloads fallback (task_next text_of t e)"
proof -
  have s: "state_ok (tk_state t)" and ok: "task_ok (task_next text_of t e)"
    using t by (simp_all add: task_ok_def [of t] task_step_ok)
  show ?thesis
  proof (cases e)
    case (ProposeCommand reply raw backend outcome after)
    then have o: "outcome = Written" using w by simp
    show ?thesis
    proof (cases "refusal_of text_of (bk_capabilities backend) (bk_check backend) raw")
      case (Inl invalid)
      with ProposeCommand show ?thesis by (simp add: task_next_def net_save_refused Let_def)
    next
      case (Inr p)
      with ok ProposeCommand o saved_reloads [OF refusal_of_ok [OF Inr] s] show ?thesis
        by (simp add: reloads_def task_next_def net_save_written Let_def)
    qed
  next
    case (VerdictComes verdict outcome backend)
    with w ok settled_reloads [OF s] show ?thesis by (auto simp: reloads_def task_next_def)
  qed (auto simp: task_next_def split: option.splits)
qed

lemma run_writes:
  "task_ok t \<Longrightarrow> list_all written es \<Longrightarrow>
     tk_state (foldl (task_next text_of) t es) = tk_state t \<or> reloads fallback (foldl (task_next text_of) t es)"
proof (induction es rule: rev_induct)
  case (snoc e es)
  let ?t = "foldl (task_next text_of) t es"
  have ok: "task_ok ?t" using task.run_inv [OF snoc.prems(1)] by simp
  from snoc have before: "tk_state ?t = tk_state t \<or> reloads fallback ?t" and w: "written e" by simp_all
  from step_writes [OF ok w, of text_of fallback] show ?case
  proof
    assume same: "tk_state (task_next text_of ?t e) = tk_state ?t"
    from before show ?thesis
    proof
      assume "reloads fallback ?t"
      then have "reloads fallback (task_next text_of ?t e)"
        using same task_step_ok [OF ok, of text_of e] by (simp add: reloads_def)
      then show ?thesis by simp
    qed (use same in simp)
  qed simp
qed simp

lemma loaded_revision: "state_load file fallback = Inr s \<Longrightarrow> ns_revision s = 0 \<and> ns_disk s = file"
  by (erule state_load_cases) (auto simp: state_stored_def state_default_def try_r_eq_Inr)

text \<open>What a start comes to hold of what it loaded: a restore that fails is told, and not recorded.\<close>

definition restored :: "(document \<Rightarrow> failure option) \<Rightarrow> net_state \<Rightarrow> net_state" where
  "restored restore s =
     (if ns_outcome s \<noteq> Verifying
      then (case restore (held_document s) of Some failure \<Rightarrow> cannot_run failure s | None \<Rightarrow> s)
      else s)"

lemma task_start_restored:
  "task_start backend restore file fallback = try_r (state_load file fallback) (\<lambda>s. Inr (task_new backend (restored restore s)))"
  by (simp add: task_start_def restored_def Let_def)

lemma restored_disk: "ns_disk (restored restore s) = ns_disk s"
  by (simp add: restored_def cannot_run_def split: option.split)

section \<open>The properties\<close>

text \<open>C26. Whatever is proposed, whatever the backend says and whichever writes fail, the task's parts stay of
  one piece: it verifies exactly while the outcome is verifying, and then the configuration held against
  the one replaced; a failure is held exactly where the outcome is failed; each document held parses to
  what the device acts on; a restart finds on the disk a configuration of which the same holds; and what is
  published is what is held now, with what a backend asked for the publishing offered and said: its word on
  each candidate where it had as many as there are candidates held, no word where it had another number,
  and none of them where it says nothing of candidates.\<close>

theorem task_parts_agree:
  assumes "disk_ok file" and "task_start backend restore file fallback = Inr t"
  shows "task_ok (foldl (task_next text_of) t es)
    \<and> (\<exists>b \<in> set (backend # concat (map asked es)).
        published_by b (tk_state (foldl (task_next text_of) t es)) (tk_published (foldl (task_next text_of) t es)))"
proof
  show "task_ok (foldl (task_next text_of) t es)"
    by (rule task.run_inv [OF task_start_ok [OF assms]])
  have "published_by backend (tk_state t) (tk_published t)"
    using assms(2) snapshot_by by (auto simp: task_start_restored try_r_eq_Inr task_new_def)
  from run_published [OF this]
  show "\<exists>b \<in> set (backend # concat (map asked es)).
        published_by b (tk_state (foldl (task_next text_of) t es)) (tk_published (foldl (task_next text_of) t es))" .
qed

text \<open>C17. A configuration on trial is judged against the last one that was judged: of every run of the
  task, what is verified is the latest proposal saved since the last verdict, against what that verdict
  was on, however many proposals replaced each other in between and whatever was refused.\<close>

theorem verified_against_last_judged:
  assumes "disk_ok file" and "task_start backend restore file fallback = Inr t"
  shows "tk_verifying (foldl (task_next text_of) t es)
    = on_trial (foldl (trial_step text_of) (trial_of (tk_state t)) es)"
  using run_simulated [OF task_start_ok [OF assms], of text_of es]
    on_trial_verifying [OF task.run_inv [OF task_start_ok [OF assms]], of text_of es] by simp

text \<open>C16. A restart finds what the device held: after any run whose writes succeeded, a task started from the
  file loads the configuration, the outcome and the failure held when the run ended - or, where nothing has
  been saved or judged since the start, what that start loaded, so that a restore that failed then is not
  remembered - and verifies again a configuration whose verification the restart interrupted, against the
  one it replaced.  A configuration already judged is put back in force at each start; a start at which that
  fails holds it as failed for that failure until something is saved.\<close>

theorem restart_finds_what_was_held:
  fixes text_of :: "json \<Rightarrow> string"
  assumes "disk_ok file" and "state_load file fallback = Inr loaded"
    and "task_start backend restore file fallback = Inr t" and "list_all written es"
  defines "s \<equiv> tk_state (foldl (task_next text_of) t es)"
  shows "task_start backend' restore' (ns_disk s) fallback
    = Inr (task_new backend' (restored restore' (if s = restored restore loaded then loaded else s\<lparr>ns_revision := 0\<rparr>)))"
proof -
  have t: "tk_state t = restored restore loaded" using assms(2,3) by (auto simp: task_start_restored task_new_def)
  have "state_load (ns_disk s) fallback = Inr (if s = restored restore loaded then loaded else s\<lparr>ns_revision := 0\<rparr>)"
  proof (cases "s = restored restore loaded")
    case True
    with loaded_revision [OF assms(2)] assms(2) show ?thesis by (simp add: restored_disk)
  next
    case False
    with run_writes [OF task_start_ok [OF assms(1,3)] assms(4), of text_of fallback] t show ?thesis
      by (simp add: reloads_def s_def)
  qed
  then show ?thesis by (simp add: task_start_restored)
qed

text \<open>A proposal whose record fails is refused at the root and changes nothing of what the device holds;
  but where it failed once the file had been replaced, a restart holds the refused configuration and
  verifies it.\<close>

lemma unrecorded_proposal_may_return:
  fixes text_of :: "json \<Rightarrow> string" and reply :: nat and replaced :: bool and err :: string and "after" :: net_backend
  assumes "task_ok t" and "refusal_of text_of (bk_capabilities backend) (bk_check backend) raw = Inr p"
  defines "step \<equiv> task_step text_of t (ProposeCommand reply raw backend (WriteFailed replaced err) after)"
  shows "snd step = [(reply, SaveReply (Inl (invalid_at (path []) (Words (''could not record the configuration: '' @ err)))))]
    \<and> held_now (tk_state (fst step)) = held_now (tk_state t) \<and> tk_verifying (fst step) = tk_verifying t
    \<and> state_load (ns_disk (tk_state (fst step))) fallback
      = (if replaced then Inr ((saved_state p (tk_state t))\<lparr>ns_revision := 0\<rparr>)
         else state_load (ns_disk (tk_state t)) fallback)"
proof -
  have s: "state_ok (tk_state t)" using assms(1) by (simp add: task_ok_def)
  have disk: "ns_disk (saved_state p (tk_state t)) = Holds (stored_to_json (saved_config p (tk_state t)))"
    by (simp add: saved_state_def)
  note saved = saved_reloads [OF refusal_of_ok [OF assms(2)] s, of fallback, unfolded disk]
  show ?thesis
    by (simp add: step_def net_save_unwritten [OF assms(2)] unwritten_def Let_def held_now_def task_publish_def saved)
qed

section \<open>Witnesses\<close>

definition no_candidates :: jmap where
  "no_candidates = [(''attachments'', JArray [])]"

definition in_nz :: jmap where
  "in_nz = bt_collect [(''attachments'', JArray []), (''regulatory-domain'', JString ''NZ'')]"

definition takes_all :: net_backend where
  "takes_all = inert\<lparr>bk_capabilities := [(''document'', JObject (bt_collect [(''attachments'', JBool True),
     (''regulatory-domain'', JBool True)]))], bk_check := (\<lambda>_. Inr ())\<rparr>"

definition as_text :: "json \<Rightarrow> string" where
  "as_text v = (case v of JString s \<Rightarrow> s | _ \<Rightarrow> [])"

definition first_task :: net_task where
  "first_task = projr (task_start takes_all (\<lambda>_. None) NoFile no_candidates)"

definition some_events :: "task_event list" where
  "some_events =
     [ProposeCommand 0 in_nz takes_all Written takes_all, ProposeCommand 1 [] takes_all Written inert,
      ProposeCommand 2 no_candidates takes_all Written takes_all, VerdictComes None Written takes_all,
      ProposeCommand 3 in_nz inert Written inert, StatesClose inert]"

lemma first_starts: "task_start takes_all (\<lambda>_. None) NoFile no_candidates = Inr first_task"
proof -
  have "\<exists>t. task_start takes_all (\<lambda>_. None) NoFile no_candidates = Inr t"
    by (simp add: task_start_def state_load_def config_load_def state_default_def proposal_parse_def try_r_def
        document_parse_def no_candidates_def bt_get_def hotspot_member_def domain_member_def Let_def
        split: sum.splits)
  then show ?thesis by (auto simp: first_task_def)
qed

lemma empty_disk [simp]: "disk_ok NoFile"
  by (simp add: disk_ok_def config_load_def)

lemma in_nz_accepted:
  "refusal_of as_text (bk_capabilities takes_all) (bk_check takes_all) in_nz
     = Inr \<lparr>pp_raw = in_nz, pp_document = empty_document\<lparr>dc_regulatory_domain := Some ''NZ''\<rparr>\<rparr>"
  by code_simp

definition with_states :: "json list \<Rightarrow> net_backend" where
  "with_states entries = takes_all\<lparr>bk_states := Some entries\<rparr>"

theorem task_parts_agree_witness:
  "let t = foldl (task_next as_text) first_task [ProposeCommand 0 in_nz takes_all Written (with_states [JNull]),
      StatesChange (with_states [])] in
   task_ok t \<and> (\<exists>b \<in> {takes_all, with_states [JNull], with_states []}. published_by b (tk_state t) (tk_published t))"
  using task_parts_agree [OF empty_disk first_starts, where text_of = as_text
      and es = "[ProposeCommand 0 in_nz takes_all Written (with_states [JNull]), StatesChange (with_states [])]"] by (simp add: Let_def)

theorem verified_against_last_judged_witness:
  "tk_verifying (foldl (task_next as_text) first_task some_events)
    = on_trial (foldl (trial_step as_text) (trial_of (tk_state first_task)) some_events)"
  by (rule verified_against_last_judged [OF empty_disk first_starts])

definition not_today :: "document \<Rightarrow> failure option" where
  "not_today document = Some \<lparr>fl_at = [], fl_reason = ''no carrier'', fl_reached = None\<rparr>"

definition failed_task :: net_task where
  "failed_task = projr (task_start takes_all not_today NoFile no_candidates)"

theorem restart_finds_what_was_held_witness:
  "let s = tk_state (foldl (task_next as_text) failed_task some_events) in
     ns_outcome (tk_state failed_task) = ConfigFailed
     \<and> task_start takes_all (\<lambda>_. None) (ns_disk s) no_candidates = Inr (task_new takes_all (s\<lparr>ns_revision := 0\<rparr>))"
proof -
  obtain loaded where loaded: "state_load NoFile no_candidates = Inr loaded" "ns_outcome loaded = Applied" "ns_revision loaded = 0"
  proof -
    have "\<exists>s. state_load NoFile no_candidates = Inr s \<and> ns_outcome s = Applied \<and> ns_revision s = 0"
      by (simp add: state_load_def config_load_def state_default_def proposal_parse_def try_r_def
        document_parse_def no_candidates_def bt_get_def hotspot_member_def domain_member_def Let_def
        split: sum.splits)
    then show thesis using that by blast
  qed
  have t: "failed_task = task_new takes_all (restored not_today loaded)"
    and start: "task_start takes_all not_today NoFile no_candidates = Inr failed_task"
    using loaded(1) by (simp_all add: failed_task_def task_start_restored)
  have "ns_outcome (tk_state failed_task) = ConfigFailed"
    using loaded(2) by (simp add: t task_new_def restored_def not_today_def cannot_run_def)
  moreover define s where "s = tk_state (foldl (task_next as_text) failed_task some_events)"
  moreover have "ns_revision s \<noteq> 0" unfolding s_def by code_simp
  then have "s \<noteq> restored not_today loaded" using loaded(2,3) by (auto simp: restored_def not_today_def cannot_run_def)
  moreover have "list_all written some_events" by (simp add: some_events_def)
  ultimately show ?thesis
    using restart_finds_what_was_held [OF empty_disk loaded(1) start, where es = some_events and text_of = as_text
        and backend' = takes_all and restore' = "\<lambda>_. None"]
    by (auto simp: Let_def restored_def)
qed

end
