(* ===== verification/Net_Session.thy ===== *)
theory Net_Session
  imports Net_Restart
begin

text \<open>
  The sessions open on the configuration held: which of them holds it,
  \<open>crates/bliti/src/network/session/holders.rs\<close>, what each tells its client and asks the task,
  \<open>open.rs\<close>, and all of them together with the task, \<open>session.rs\<close>.  A session waits on the task's
  changes, its client's messages and the task's answers in whatever order they come, so every sequence of
  events is a run.  A write to the client that fails ends the session, which may happen at any event.  A
  session's look at what is published is one event: it reads whether it is busy with the snapshot, where the
  code reads it once the first of its messages is sent.
\<close>

section \<open>Which session holds the configuration\<close>

text \<open>
  A session takes its number and is then entered as the newest, which are two changes: another session may
  be entered between them.  \<open>ho_taken\<close> are the numbers taken by sessions not yet entered.
\<close>

record holders =
  ho_open :: "u64 list"
  ho_next :: u64
  ho_taken :: "u64 list"

definition holders_new :: holders where
  "holders_new = \<lparr>ho_open = [], ho_next = 0, ho_taken = []\<rparr>"

definition holders_number :: "holders \<Rightarrow> holders" where
  "holders_number h = h\<lparr>ho_next := ho_next h + 1, ho_taken := ho_taken h @ [ho_next h]\<rparr>"

definition holders_enter :: "nat \<Rightarrow> holders \<Rightarrow> u64 \<times> holders" where
  "holders_enter k h = (ho_taken h ! k, h\<lparr>ho_open := ho_open h @ [ho_taken h ! k],
     ho_taken := take k (ho_taken h) @ drop (k + 1) (ho_taken h)\<rparr>)"

definition registration_busy :: "holders \<Rightarrow> u64 \<Rightarrow> bool" where
  "registration_busy h sid \<longleftrightarrow> (case ho_open h of [] \<Rightarrow> True | first # _ \<Rightarrow> first \<noteq> sid)"

definition registration_drop :: "u64 \<Rightarrow> holders \<Rightarrow> holders" where
  "registration_drop sid h = h\<lparr>ho_open := filter (\<lambda>other. other \<noteq> sid) (ho_open h)\<rparr>"

section \<open>What a session tells its client\<close>

record reported =
  re_busy :: bool
  re_outcome :: outcome_of
  re_failure :: "failure option"
  re_attachments :: "json list"

record open_session =
  os_told :: "jmap option"
  os_revision :: "u64 option"
  os_reported :: "reported option"

definition open_new :: open_session where
  "open_new = \<lparr>os_told = None, os_revision = None, os_reported = None\<rparr>"

definition reported_of :: "bool \<Rightarrow> net_snapshot \<Rightarrow> json list \<Rightarrow> reported" where
  "reported_of busy n attachments = \<lparr>re_busy = busy, re_outcome = hv_outcome (sn_held n),
     re_failure = hv_failure (sn_held n), re_attachments = attachments\<rparr>"

definition sync :: "bool \<Rightarrow> bool \<Rightarrow> net_snapshot \<Rightarrow> open_session \<Rightarrow> message list \<times> open_session" where
  "sync resend busy n s =
     (let capabilities = (if os_told s \<noteq> Some (sn_capabilities n) then Some (sn_capabilities n) else None);
          s = (if capabilities \<noteq> None then s\<lparr>os_told := Some (sn_capabilities n)\<rparr> else s);
          configured = (resend \<or> os_revision s \<noteq> Some (hv_revision (sn_held n)));
          sent = (if configured then [Configuration (hv_document (sn_held n)) capabilities] else []);
          capabilities = (if configured then None else capabilities);
          s = (if configured then s\<lparr>os_revision := Some (hv_revision (sn_held n))\<rparr> else s)
      in case sn_attachments n of
           None \<Rightarrow> (sent, s)
         | Some attachments \<Rightarrow>
             (let r = reported_of busy n attachments in
              if configured \<or> capabilities \<noteq> None \<or> os_reported s \<noteq> Some r
              then (sent @ [StateOf (re_busy r) (re_outcome r) (re_failure r) (re_attachments r) capabilities],
                    s\<lparr>os_reported := Some r\<rparr>)
              else (sent, s)))"

definition BUSY :: string where
  "BUSY = ''another session is configuring this device''"

section \<open>The sessions and the task\<close>

text \<open>What waits for the task, and what it answered, by the number of the one-shot channel each is for.\<close>

datatype command = Propose nat jmap | Carry nat net_act

datatype phase = AtRest | AwaitsSave nat | AwaitsAct nat string

record live =
  lv_open :: open_session
  lv_phase :: phase
  lv_told :: "message list"

record net_system =
  sy_task :: net_task
  sy_queue :: "command list"
  sy_replies :: "(nat \<times> net_reply) list"
  sy_next :: nat
  sy_holders :: holders
  sy_sessions :: "(u64 \<times> live) list"

datatype net_event =
    Numbers
  | Opens nat
  | Wakes u64
  | Hears u64 message
  | Answers u64
  | Closes u64
  | Takes net_backend write_outcome net_backend
  | Judged "failure option" write_outcome net_backend
  | Finishes nat net_backend
  | Moves net_backend
  | Stills net_backend

definition synced :: "bool \<Rightarrow> net_system \<Rightarrow> u64 \<Rightarrow> live \<Rightarrow> live" where
  "synced resend s sid l =
     (let (sent, opened) = sync resend (registration_busy (sy_holders s) sid) (tk_published (sy_task s)) (lv_open l)
      in l\<lparr>lv_open := opened, lv_told := lv_told l @ sent\<rparr>)"

definition tells :: "message \<Rightarrow> live \<Rightarrow> live" where
  "tells m l = l\<lparr>lv_told := lv_told l @ [m]\<rparr>"

definition rests :: "live \<Rightarrow> live" where
  "rests l = l\<lparr>lv_phase := AtRest\<rparr>"

definition cannot_configure :: "(string \<Rightarrow> string) \<Rightarrow> invalid \<Rightarrow> message" where
  "cannot_configure quoted invalid = CannotConfigure (iv_at invalid) (reason_text quoted (iv_reason invalid))"

definition cannot_act :: "(string \<Rightarrow> string) \<Rightarrow> string \<Rightarrow> invalid \<Rightarrow> message" where
  "cannot_act quoted name invalid = CannotAct name (iv_at invalid) (reason_text quoted (iv_reason invalid))"

definition put_session :: "u64 \<Rightarrow> live \<Rightarrow> net_system \<Rightarrow> net_system" where
  "put_session sid l s = s\<lparr>sy_sessions := map (\<lambda>(i, k). (i, if i = sid then l else k)) (sy_sessions s)\<rparr>"

definition propose_doc :: "(string \<Rightarrow> string) \<Rightarrow> jmap \<Rightarrow> u64 \<Rightarrow> live \<Rightarrow> net_system \<Rightarrow> net_system" where
  "propose_doc quoted document sid l s =
     (if registration_busy (sy_holders s) sid
      then put_session sid (synced True s sid (tells (cannot_configure quoted (invalid_at (path []) (Words BUSY))) l)) s
      else put_session sid (l\<lparr>lv_phase := AwaitsSave (sy_next s)\<rparr>)
             (s\<lparr>sy_queue := sy_queue s @ [Propose (sy_next s) document], sy_next := sy_next s + 1\<rparr>))"

definition act_for :: "(string \<Rightarrow> string) \<Rightarrow> net_act \<Rightarrow> u64 \<Rightarrow> live \<Rightarrow> net_system \<Rightarrow> net_system" where
  "act_for quoted act sid l s =
     (if registration_busy (sy_holders s) sid
      then put_session sid (tells (cannot_act quoted (act_name act) (invalid_at (path []) (Words BUSY))) l) s
      else put_session sid (l\<lparr>lv_phase := AwaitsAct (sy_next s) (act_name act)\<rparr>)
             (s\<lparr>sy_queue := sy_queue s @ [Carry (sy_next s) act], sy_next := sy_next s + 1\<rparr>))"

definition handle_message :: "(string \<Rightarrow> string) \<Rightarrow> message \<Rightarrow> u64 \<Rightarrow> live \<Rightarrow> net_system \<Rightarrow> net_system" where
  "handle_message quoted m sid l s =
     (case m of
        Configure \<Rightarrow> put_session sid (synced True s sid (l\<lparr>lv_open := (lv_open l)\<lparr>os_told := None\<rparr>\<rparr>)) s
      | Configuration document _ \<Rightarrow> propose_doc quoted document sid l s
      | Scan interface \<Rightarrow> act_for quoted (ScanAct interface) sid l s
      | Survey interface \<Rightarrow> act_for quoted (SurveyAct interface) sid l s
      | _ \<Rightarrow> s)"

text \<open>The answer to what a session waits for, once the task has given it.\<close>

definition answered :: "(string \<Rightarrow> string) \<Rightarrow> u64 \<Rightarrow> live \<Rightarrow> net_system \<Rightarrow> net_system" where
  "answered quoted sid l s =
     (case lv_phase l of
        AtRest \<Rightarrow> s
      | AwaitsSave reply \<Rightarrow>
          (case map_of (sy_replies s) reply of
             Some (SaveReply (Inr _)) \<Rightarrow> put_session sid (rests l) s
           | Some (SaveReply (Inl invalid)) \<Rightarrow>
               put_session sid (rests (synced True s sid (tells (cannot_configure quoted invalid) l))) s
           | _ \<Rightarrow> s)
      | AwaitsAct reply name \<Rightarrow>
          (case map_of (sy_replies s) reply of
             Some (ActReply (Inr m)) \<Rightarrow> put_session sid (rests (tells m l)) s
           | Some (ActReply (Inl invalid)) \<Rightarrow> put_session sid (rests (tells (cannot_act quoted name invalid) l)) s
           | _ \<Rightarrow> s))"

definition task_does :: "(json \<Rightarrow> string) \<Rightarrow> task_event \<Rightarrow> net_system \<Rightarrow> net_system" where
  "task_does text_of e s =
     (let (t, replies) = task_step text_of (sy_task s) e in s\<lparr>sy_task := t, sy_replies := sy_replies s @ replies\<rparr>)"

definition session_opens :: "nat \<Rightarrow> net_system \<Rightarrow> net_system" where
  "session_opens k s =
     (if k < length (ho_taken (sy_holders s))
      then let (sid, h) = holders_enter k (sy_holders s); s = s\<lparr>sy_holders := h\<rparr>;
               l = synced True s sid \<lparr>lv_open = open_new, lv_phase = AtRest, lv_told = []\<rparr>
           in s\<lparr>sy_sessions := sy_sessions s @ [(sid, l)]\<rparr>
      else s)"

definition session_closes :: "u64 \<Rightarrow> net_system \<Rightarrow> net_system" where
  "session_closes sid s = s\<lparr>sy_holders := registration_drop sid (sy_holders s),
     sy_sessions := filter (\<lambda>(i, _). i \<noteq> sid) (sy_sessions s)\<rparr>"

definition with_session :: "u64 \<Rightarrow> (live \<Rightarrow> net_system \<Rightarrow> net_system) \<Rightarrow> net_system \<Rightarrow> net_system" where
  "with_session sid f s = (case map_of (sy_sessions s) sid of None \<Rightarrow> s | Some l \<Rightarrow> f l s)"

fun net_step :: "(json \<Rightarrow> string) \<Rightarrow> (string \<Rightarrow> string) \<Rightarrow> net_system \<Rightarrow> net_event \<Rightarrow> net_system" where
  "net_step text_of quoted s Numbers = s\<lparr>sy_holders := holders_number (sy_holders s)\<rparr>"
| "net_step text_of quoted s (Opens k) = session_opens k s"
| "net_step text_of quoted s (Wakes sid) = with_session sid (\<lambda>l s. put_session sid (synced False s sid l) s) s"
| "net_step text_of quoted s (Hears sid m) =
     with_session sid (\<lambda>l s. if lv_phase l = AtRest then handle_message quoted m sid l s else s) s"
| "net_step text_of quoted s (Answers sid) = with_session sid (answered quoted sid) s"
| "net_step text_of quoted s (Closes sid) = session_closes sid s"
| "net_step text_of quoted s (Takes backend outcome after) =
     (case sy_queue s of
        [] \<Rightarrow> s
      | Propose reply raw # queue \<Rightarrow> task_does text_of (ProposeCommand reply raw backend outcome after) (s\<lparr>sy_queue := queue\<rparr>)
      | Carry reply act # queue \<Rightarrow> task_does text_of (ActCommand reply act) (s\<lparr>sy_queue := queue\<rparr>))"
| "net_step text_of quoted s (Judged verdict outcome backend) = task_does text_of (VerdictComes verdict outcome backend) s"
| "net_step text_of quoted s (Finishes reply backend) = task_does text_of (ActEnds reply backend) s"
| "net_step text_of quoted s (Moves backend) = task_does text_of (StatesChange backend) s"
| "net_step text_of quoted s (Stills backend) = task_does text_of (StatesClose backend) s"

definition system_new :: "net_task \<Rightarrow> net_system" where
  "system_new t = \<lparr>sy_task = t, sy_queue = [], sy_replies = [], sy_next = 0, sy_holders = holders_new, sy_sessions = []\<rparr>"

end
