(* ===== verification/Net_Client.thy ===== *)
theory Net_Client
  imports Net_Session "HOL-Library.Multiset"
begin

text \<open>
  What a client of a session can rely on: what it is told is the device's, only the session open longest
  changes anything, and where the capabilities it is told of can be out of date.
\<close>

section \<open>What a client knows\<close>

record client_view =
  cv_document :: "jmap option"
  cv_capabilities :: "jmap option"
  cv_state :: "reported option"

definition newer :: "'a option \<Rightarrow> 'a option \<Rightarrow> 'a option" where
  "newer said known = (if said = None then known else said)"

definition hear :: "client_view \<Rightarrow> message \<Rightarrow> client_view" where
  "hear v m =
     (case m of
        Configuration document capabilities \<Rightarrow>
          v\<lparr>cv_document := Some document, cv_capabilities := newer capabilities (cv_capabilities v)\<rparr>
      | StateOf busy outcome failure attachments capabilities \<Rightarrow>
          v\<lparr>cv_state := Some \<lparr>re_busy = busy, re_outcome = outcome, re_failure = failure, re_attachments = attachments\<rparr>,
            cv_capabilities := newer capabilities (cv_capabilities v)\<rparr>
      | _ \<Rightarrow> v)"

definition view_of :: "message list \<Rightarrow> client_view" where
  "view_of = foldl hear \<lparr>cv_document = None, cv_capabilities = None, cv_state = None\<rparr>"

definition live_view :: "live \<Rightarrow> client_view" where
  "live_view l = view_of (lv_told l)"

definition snap_revision :: "net_snapshot \<Rightarrow> u64" where
  "snap_revision n = hv_revision (sn_held n)"

definition snap_document :: "net_snapshot \<Rightarrow> jmap" where
  "snap_document n = hv_document (sn_held n)"

section \<open>One session\<close>

text \<open>What a session remembers of what it told is what its client knows, of the revision held at the latest.\<close>

definition live_ok :: "net_snapshot \<Rightarrow> live \<Rightarrow> bool" where
  "live_ok n l \<longleftrightarrow>
     pred_option (\<lambda>r. unat r \<le> unat (snap_revision n)
       \<and> (r = snap_revision n \<longrightarrow> cv_document (live_view l) = Some (snap_document n))) (os_revision (lv_open l))
     \<and> pred_option (\<lambda>r. cv_state (live_view l) = Some r) (os_reported (lv_open l))"

definition told_ok :: "live \<Rightarrow> bool" where
  "told_ok l \<longleftrightarrow> pred_option (\<lambda>c. cv_capabilities (live_view l) = Some c) (os_told (lv_open l))"

lemma live_view_tells [simp]: "live_view (tells m l) = hear (live_view l) m"
  by (simp add: live_view_def tells_def view_of_def)

lemma live_view_rests [simp]: "live_view (rests l) = live_view l"
  by (simp add: live_view_def rests_def)

lemma live_view_parts [simp]:
  "live_view (l\<lparr>lv_open := opened\<rparr>) = live_view l" "live_view (l\<lparr>lv_phase := p\<rparr>) = live_view l"
  by (simp_all add: live_view_def)

lemma live_open_parts [simp]: "lv_open (tells m l) = lv_open l" "lv_open (rests l) = lv_open l"
  by (simp_all add: tells_def rests_def)

lemma hear_refusals [simp]: "hear v (cannot_configure quoted e) = v" "hear v (cannot_act quoted name e) = v"
  by (simp_all add: hear_def cannot_configure_def cannot_act_def)

lemma live_ok_said [simp]:
  "live_ok n (rests l) = live_ok n l" "told_ok (rests l) = told_ok l"
  "live_ok n (tells (cannot_configure quoted e) l) = live_ok n l" "told_ok (tells (cannot_configure quoted e) l) = told_ok l"
  "live_ok n (tells (cannot_act quoted name e) l) = live_ok n l" "told_ok (tells (cannot_act quoted name e) l) = told_ok l"
  "live_ok n (l\<lparr>lv_phase := p\<rparr>) = live_ok n l" "told_ok (l\<lparr>lv_phase := p\<rparr>) = told_ok l"
  by (simp_all add: live_ok_def told_ok_def)

definition untold :: "live \<Rightarrow> live" where
  "untold l = l\<lparr>lv_open := (lv_open l)\<lparr>os_told := None\<rparr>\<rparr>"

lemma untold_ok [simp]: "live_ok n (untold l) = live_ok n l" "told_ok (untold l)" "live_view (untold l) = live_view l"
  by (simp_all add: live_ok_def told_ok_def untold_def live_view_def)

lemma foldl_hear: "live_view (l\<lparr>lv_open := opened, lv_told := lv_told l @ ms\<rparr>) = foldl hear (live_view l) ms"
  by (simp add: live_view_def view_of_def)

text \<open>After a sync the client knows the configuration held, and the state wherever it is known.\<close>

lemma sync_tells:
  fixes resend s sid l
  defines "n \<equiv> tk_published (sy_task s)" and "l' \<equiv> synced resend s sid l"
  assumes l: "live_ok n l"
  shows "cv_document (live_view l') = Some (snap_document n)"
    and "sn_attachments n = Some a \<Longrightarrow>
      cv_state (live_view l') = Some (reported_of (registration_busy (sy_holders s) sid) n a)"
    and "live_ok n l'"
  using l
  by (auto simp: l'_def n_def synced_def sync_def Let_def live_ok_def foldl_hear hear_def snap_document_def
      snap_revision_def reported_of_def split: option.splits if_splits)

text \<open>And the capabilities, where the states were known whenever it synced.\<close>

lemma sync_told:
  fixes resend s sid l
  defines "n \<equiv> tk_published (sy_task s)" and "l' \<equiv> synced resend s sid l"
  assumes "told_ok l" and "sn_attachments n \<noteq> None"
  shows "told_ok l'" and "cv_capabilities (live_view l') = Some (sn_capabilities n)"
  using assms
  by (auto simp: l'_def n_def synced_def sync_def Let_def told_ok_def foldl_hear hear_def newer_def
      split: option.splits if_splits)

text \<open>What is held moves on at each save, and its document only then.\<close>

definition moves_on :: "net_snapshot \<Rightarrow> net_snapshot \<Rightarrow> bool" where
  "moves_on n n' \<longleftrightarrow>
     snap_revision n' = snap_revision n \<and> snap_document n' = snap_document n \<or> snap_revision n' = snap_revision n + 1"

lemma live_moves:
  assumes "live_ok n l" and "moves_on n n'" and "unat (snap_revision n) < 2 ^ 64 - 1"
  shows "live_ok n' l"
proof -
  have "unat (snap_revision n + 1) = unat (snap_revision n) + 1"
    using assms(3) by (intro unat_add_lem [THEN iffD1, THEN trans]) (auto simp: unat_word_ariths)
  with assms show ?thesis
    by (cases "os_revision (lv_open l)") (auto simp: live_ok_def moves_on_def)
qed

lemma held_settled [simp]:
  "ns_revision (net_settle verdict outcome s) = ns_revision s" "ns_held (net_settle verdict outcome s) = ns_held s"
  by (simp_all add: net_settle_def Let_def split: option.splits)

lemma task_moves_on:
  assumes "task_ok t" shows "moves_on (tk_published t) (tk_published (task_next text_of t e))"
proof -
  have pub: "sn_held (tk_published t') = held_now (tk_state t')" if "task_ok t'" for t'
    using that by (simp add: task_ok_def published_ok_def published_by_def)
  let ?s = "tk_state t" and ?s' = "tk_state (task_next text_of t e)"
  have "ns_revision ?s' = ns_revision ?s \<and> ns_held ?s' = ns_held ?s \<or> ns_revision ?s' = ns_revision ?s + 1"
  proof (cases e)
    case (ProposeCommand reply raw backend outcome after)
    then show ?thesis
      by (cases outcome; cases "refusal_of text_of (bk_capabilities backend) (bk_check backend) raw")
        (simp_all add: task_next_def net_save_cases Let_def saved_state_def)
  qed (auto simp: task_next_def split: option.splits)
  with assms show ?thesis
    by (auto simp: moves_on_def snap_revision_def snap_document_def pub task_step_ok held_now_def)
qed

section \<open>The sessions together\<close>

definition holders_ok :: "u64 list \<Rightarrow> holders \<Rightarrow> bool" where
  "holders_ok sids h \<longleftrightarrow> ho_open h = sids \<and> distinct (sids @ ho_taken h) \<and> list_all (\<lambda>sid. sid < ho_next h) (sids @ ho_taken h)"

text \<open>What the task answers of an act that went well.\<close>

definition found :: "message \<Rightarrow> bool" where
  "found m \<longleftrightarrow> (case m of Networks _ \<Rightarrow> True | Spectrum _ \<Rightarrow> True | _ \<Rightarrow> False)"

definition reply_ok :: "net_reply \<Rightarrow> bool" where
  "reply_ok r \<longleftrightarrow> (case r of ActReply (Inr m) \<Rightarrow> found m | _ \<Rightarrow> True)"

lemma carry_out_found: "carry_out text_of backend act = Inr m \<Longrightarrow> found m"
  by (auto simp: carry_out_def try_r_eq_Inr found_def split: net_act.splits option.splits)

lemma replies_ok: "list_all (\<lambda>(_, r). reply_ok r) (snd (task_step text_of t e))"
  by (cases e) (auto simp: reply_ok_def Let_def split_beta dest: carry_out_found split: option.splits sum.splits)

lemma found_kept [simp]:
  assumes "found m"
  shows "live_ok n (tells m l) = live_ok n l" "told_ok (tells m l) = told_ok l"
proof -
  have "hear v m = v" for v using assms by (auto simp: found_def hear_def split: message.splits)
  then show "live_ok n (tells m l) = live_ok n l" "told_ok (tells m l) = told_ok l"
    by (simp_all add: live_ok_def told_ok_def)
qed

definition system_ok :: "net_system \<Rightarrow> bool" where
  "system_ok s \<longleftrightarrow> task_ok (sy_task s) \<and> list_all (\<lambda>(_, r). reply_ok r) (sy_replies s) \<and> holders_ok (map fst (sy_sessions s)) (sy_holders s)
     \<and> list_all (\<lambda>(sid, l). live_ok (tk_published (sy_task s)) l) (sy_sessions s)"

definition system_meter :: "net_system \<Rightarrow> nat" where
  "system_meter s = max (unat (snap_revision (tk_published (sy_task s)))) (unat (ho_next (sy_holders s)))"

lemma put_keys [simp]: "map fst (sy_sessions (put_session sid l s)) = map fst (sy_sessions s)"
  by (simp add: put_session_def split_beta comp_def)

lemma put_rest [simp]:
  "sy_task (put_session sid l s) = sy_task s" "sy_holders (put_session sid l s) = sy_holders s"
  "sy_queue (put_session sid l s) = sy_queue s" "sy_replies (put_session sid l s) = sy_replies s"
  by (simp_all add: put_session_def)

lemma put_ok:
  "system_ok s \<Longrightarrow> live_ok (tk_published (sy_task s)) l \<Longrightarrow> system_ok (put_session sid l s)"
  by (simp add: system_ok_def) (auto simp: put_session_def list_all_iff)

lemma put_all:
  "list_all (\<lambda>(sid, l). P l) (sy_sessions s) \<Longrightarrow> P l \<Longrightarrow> list_all (\<lambda>(sid, l). P l) (sy_sessions (put_session sid l s))"
  by (auto simp: put_session_def list_all_iff)

lemma synced_ok: "live_ok (tk_published (sy_task s)) l \<Longrightarrow> live_ok (tk_published (sy_task s)) (synced resend s sid l)"
  by (rule sync_tells(3))

lemma queue_ok [simp]:
  "system_ok (s\<lparr>sy_queue := q\<rparr>) = system_ok s"
  "system_ok (s\<lparr>sy_next := i\<rparr>) = system_ok s"
  by (simp_all add: system_ok_def)

lemma synced_parts [simp]:
  "synced resend (s\<lparr>sy_queue := q\<rparr>) sid l = synced resend s sid l" "synced resend (s\<lparr>sy_next := i\<rparr>) sid l = synced resend s sid l"
  by (simp_all add: synced_def)

lemma session_of: "map_of (sy_sessions s) sid = Some l \<Longrightarrow> system_ok s \<Longrightarrow> live_ok (tk_published (sy_task s)) l"
  by (drule map_of_SomeD) (auto simp: system_ok_def list_all_iff)

lemma propose_ok:
  "system_ok s \<Longrightarrow> live_ok (tk_published (sy_task s)) l \<Longrightarrow> system_ok (propose_doc quoted document sid l s)"
  by (auto simp: propose_doc_def intro!: put_ok synced_ok)

lemma act_ok:
  "system_ok s \<Longrightarrow> live_ok (tk_published (sy_task s)) l \<Longrightarrow> system_ok (act_for quoted act sid l s)"
  by (auto simp: act_for_def intro!: put_ok)

lemma handle_ok:
  assumes "system_ok s" "live_ok (tk_published (sy_task s)) l" shows "system_ok (handle_message quoted m sid l s)"
proof -
  have "system_ok (put_session sid (synced True s sid (untold l)) s)"
    using assms by (simp add: put_ok synced_ok)
  with assms show ?thesis
    by (cases m) (simp_all add: handle_message_def propose_ok act_ok flip: untold_def)
qed

lemma reply_found: "map_of (sy_replies s) i = Some (ActReply (Inr m)) \<Longrightarrow> system_ok s \<Longrightarrow> found m"
  by (drule map_of_SomeD) (auto simp: system_ok_def list_all_iff reply_ok_def)

lemma answered_ok:
  "system_ok s \<Longrightarrow> live_ok (tk_published (sy_task s)) l \<Longrightarrow> system_ok (answered quoted sid l s)"
  by (auto simp: answered_def intro!: put_ok synced_ok dest: reply_found split: phase.splits option.splits net_reply.splits sum.splits)

lemma task_does_parts [simp]:
  "sy_task (task_does text_of e s) = task_next text_of (sy_task s) e" "sy_holders (task_does text_of e s) = sy_holders s"
  "sy_sessions (task_does text_of e s) = sy_sessions s" "sy_queue (task_does text_of e s) = sy_queue s"
  by (simp_all add: task_does_def task_next_def split_beta Let_def)

lemma does_ok:
  assumes s: "system_ok s" and m: "system_meter s < 2 ^ 64 - 1" shows "system_ok (task_does text_of e s)"
proof -
  have t: "task_ok (sy_task s)" using s by (simp add: system_ok_def)
  have "unat (snap_revision (tk_published (sy_task s))) < 2 ^ 64 - 1" using m by (simp add: system_meter_def)
  note live = live_moves [OF _ task_moves_on [OF t] this]
  have "sy_replies (task_does text_of e s) = sy_replies s @ snd (task_step text_of (sy_task s) e)"
    by (simp add: task_does_def split_beta Let_def)
  with s t show ?thesis
    using replies_ok [of text_of "sy_task s" e] by (auto simp: system_ok_def task_step_ok list_all_iff intro: live)
qed

lemma next_unat: "unat (w :: u64) < 2 ^ 64 - 1 \<Longrightarrow> unat (w + 1) = unat w + 1"
  by (intro unat_add_lem [THEN iffD1, THEN trans]) (auto simp: unat_word_ariths)

lemma next_less:
  "unat (w :: u64) < 2 ^ 64 - 1 \<Longrightarrow> v < w + 1 \<longleftrightarrow> v \<le> w"
  using next_unat [of w] by (auto simp: word_less_nat_alt word_le_nat_alt)

lemma enter_split:
  "k < length xs \<Longrightarrow> mset (take k xs @ drop (k + 1) xs) + {#xs ! k#} = mset xs"
  by (metis Suc_eq_plus1 add.commute add_mset_add_single id_take_nth_drop mset.simps(2) mset_append union_mset_add_mset_right)

lemma numbers_ok:
  assumes s: "system_ok s" and m: "system_meter s < 2 ^ 64 - 1"
  shows "system_ok (s\<lparr>sy_holders := holders_number (sy_holders s)\<rparr>)"
proof -
  have "unat (ho_next (sy_holders s)) < 2 ^ 64 - 1" using m by (simp add: system_meter_def)
  note less = next_less [OF this]
  let ?h = "sy_holders s" and ?sids = "map fst (sy_sessions s)"
  from s have h: "ho_open ?h = ?sids" "distinct (?sids @ ho_taken ?h)" "\<forall>sid \<in> set (?sids @ ho_taken ?h). sid < ho_next ?h"
    by (simp_all add: system_ok_def holders_ok_def list_all_iff)
  have "ho_next ?h \<notin> set (?sids @ ho_taken ?h)" using h(3) by blast
  then have "distinct (?sids @ ho_taken ?h @ [ho_next ?h])" using h(2) by auto
  moreover have "\<forall>sid \<in> set (?sids @ ho_taken ?h @ [ho_next ?h]). sid < ho_next ?h + 1"
    using h(3) less by (auto intro: less_imp_le)
  moreover have "ho_open (holders_number ?h) = ho_open ?h" "ho_taken (holders_number ?h) = ho_taken ?h @ [ho_next ?h]"
    "ho_next (holders_number ?h) = ho_next ?h + 1" by (simp_all add: holders_number_def)
  ultimately have "holders_ok ?sids (holders_number ?h)"
    using h(1) unfolding holders_ok_def list_all_iff by metis
  with s show ?thesis by (simp add: system_ok_def)
qed

lemma opens_ok:
  assumes s: "system_ok s" shows "system_ok (session_opens k s)"
proof (cases "k < length (ho_taken (sy_holders s))")
  case True
  have new: "live_ok n \<lparr>lv_open = open_new, lv_phase = AtRest, lv_told = []\<rparr>" for n
    by (simp add: live_ok_def open_new_def)
  have live: "live_ok (tk_published (sy_task s)) (synced True (s\<lparr>sy_holders := h\<rparr>) sid \<lparr>lv_open = open_new, lv_phase = AtRest, lv_told = []\<rparr>)"
    for h sid
    using synced_ok [of "s\<lparr>sy_holders := h\<rparr>", OF new] by simp
  let ?h = "sy_holders s" and ?sids = "map fst (sy_sessions s)"
  let ?left = "take k (ho_taken ?h) @ drop (k + 1) (ho_taken ?h)"
  from s have h: "ho_open ?h = ?sids" "distinct (?sids @ ho_taken ?h)" "list_all (\<lambda>sid. sid < ho_next ?h) (?sids @ ho_taken ?h)"
    by (simp_all add: system_ok_def holders_ok_def)
  have same: "mset ((?sids @ [ho_taken ?h ! k]) @ ?left) = mset (?sids @ ho_taken ?h)"
    using enter_split [OF True] by simp
  have "distinct ((?sids @ [ho_taken ?h ! k]) @ ?left)"
    using h(2) mset_eq_imp_distinct_iff [OF same] by blast
  moreover have "list_all (\<lambda>sid. sid < ho_next ?h) ((?sids @ [ho_taken ?h ! k]) @ ?left)"
    using h(3) mset_eq_setD [OF same] unfolding list_all_iff by blast
  ultimately show ?thesis using s True live
    by (simp add: system_ok_def session_opens_def Let_def holders_enter_def holders_ok_def)
qed (use s in \<open>simp add: session_opens_def\<close>)

lemma keys_left: "map fst (filter (\<lambda>(i, _). i \<noteq> sid) sessions) = filter (\<lambda>i. i \<noteq> sid) (map fst sessions)"
  by (induction sessions) auto

lemma closes_ok: "system_ok s \<Longrightarrow> system_ok (session_closes sid s)"
  by (auto simp: system_ok_def session_closes_def registration_drop_def holders_ok_def list_all_iff keys_left)

lemma system_step_ok:
  assumes s: "system_ok s" and m: "system_meter s < 2 ^ 64 - 1" shows "system_ok (net_step text_of quoted s e)"
  by (cases e)
    (use s m in \<open>auto simp: with_session_def opens_ok numbers_ok closes_ok does_ok handle_ok answered_ok put_ok synced_ok
      system_meter_def dest: session_of split: option.splits list.splits command.splits\<close>)

lemma with_session_holders [simp]:
  "(\<And>l. sy_holders (f l s) = sy_holders s) \<Longrightarrow> sy_holders (with_session sid f s) = sy_holders s"
  "(\<And>l. sy_task (f l s) = sy_task s) \<Longrightarrow> sy_task (with_session sid f s) = sy_task s"
  by (simp_all add: with_session_def split: option.splits)

lemma handle_rest [simp]:
  "sy_holders (handle_message quoted m sid l s) = sy_holders s" "sy_task (handle_message quoted m sid l s) = sy_task s"
  by (cases m; simp add: handle_message_def propose_doc_def act_for_def)+

lemma answered_rest [simp]:
  "sy_holders (answered quoted sid l s) = sy_holders s" "sy_task (answered quoted sid l s) = sy_task s"
  by (simp_all add: answered_def split: phase.splits option.splits net_reply.splits sum.splits)

text \<open>How the holders and the task move at one event.\<close>

lemma step_holders:
  "sy_holders (net_step text_of quoted s e) =
     (case e of
        Numbers \<Rightarrow> holders_number (sy_holders s)
      | Opens k \<Rightarrow> if k < length (ho_taken (sy_holders s)) then snd (holders_enter k (sy_holders s)) else sy_holders s
      | Closes sid \<Rightarrow> registration_drop sid (sy_holders s)
      | _ \<Rightarrow> sy_holders s)"
  by (cases e)
    (simp_all add: session_opens_def session_closes_def holders_enter_def Let_def split: list.splits command.splits)

lemma step_task:
  "sy_task (net_step text_of quoted s e) = sy_task s \<or> (\<exists>e'. sy_task (net_step text_of quoted s e) = task_next text_of (sy_task s) e')"
  by (cases e)
    (auto simp: session_opens_def session_closes_def holders_enter_def Let_def split: list.splits command.splits)

lemma system_meter_next:
  assumes s: "system_ok s" and m: "system_meter s < 2 ^ 64 - 1"
  shows "system_meter (net_step text_of quoted s e) \<le> system_meter s + 1"
proof -
  let ?s = "net_step text_of quoted s e"
  have t: "task_ok (sy_task s)" using s by (simp add: system_ok_def)
  have "unat (ho_next (sy_holders ?s)) \<le> unat (ho_next (sy_holders s)) + 1"
    using next_unat [of "ho_next (sy_holders s)"] m
    by (auto simp: step_holders holders_number_def holders_enter_def registration_drop_def system_meter_def split: net_event.splits)
  moreover have "unat (snap_revision (tk_published (sy_task ?s))) \<le> unat (snap_revision (tk_published (sy_task s))) + 1"
    using step_task [of text_of quoted s e]
  proof (elim disjE exE)
    fix e' assume e': "sy_task ?s = task_next text_of (sy_task s) e'"
    show ?thesis
      using task_moves_on [OF t, of text_of e'] next_unat [of "snap_revision (tk_published (sy_task s))"] m
      unfolding e' by (auto simp: moves_on_def system_meter_def)
  qed simp
  ultimately show ?thesis unfolding system_meter_def by linarith
qed

interpretation sessions: metered_machine "net_step text_of quoted" system_ok system_meter "2 ^ 64 - 1"
  by unfold_locales (simp_all only: system_step_ok system_meter_next)

lemma started:
  assumes "task_start backend restore file fallback = Inr t" shows "snap_revision (tk_published t) = 0"
proof -
  from assms obtain x where x: "state_load file fallback = Inr x"
    and t: "t = task_new backend x \<or> (\<exists>failure. t = task_new backend (cannot_run failure x))"
    by (auto simp: task_start_def try_r_eq_Inr Let_def split: option.splits if_splits)
  from loaded_revision [OF x] t show ?thesis
    by (auto simp: task_new_def snapshot_of_def snap_revision_def held_now_def cannot_run_def)
qed

lemma system_new_ok:
  assumes "disk_ok file" and "task_start backend restore file fallback = Inr t"
  shows "system_ok (system_new t) \<and> system_meter (system_new t) = 0"
  using task_start_ok [OF assms] started [OF assms(2)]
  by (simp add: system_ok_def system_new_def system_meter_def holders_ok_def holders_new_def)

text \<open>The capabilities each client knows, as long as the states are known at every event.\<close>

definition all_told :: "net_system \<Rightarrow> bool" where
  "all_told s \<longleftrightarrow> list_all (\<lambda>(sid, l). told_ok l) (sy_sessions s)"

definition states_known :: "net_system \<Rightarrow> bool" where
  "states_known s \<longleftrightarrow> sn_attachments (tk_published (sy_task s)) \<noteq> None"

lemma told_of: "map_of (sy_sessions s) sid = Some l \<Longrightarrow> all_told s \<Longrightarrow> told_ok l"
  by (drule map_of_SomeD) (auto simp: all_told_def list_all_iff)

lemma put_told: "all_told s \<Longrightarrow> told_ok l \<Longrightarrow> all_told (put_session sid l s)"
  unfolding all_told_def by (rule put_all)

lemma synced_told: "states_known s \<Longrightarrow> told_ok l \<Longrightarrow> told_ok (synced resend s sid l)"
  by (rule sync_told(1)) (simp_all add: states_known_def)

lemma all_told_parts [simp]:
  "all_told (s\<lparr>sy_queue := q\<rparr>) = all_told s" "all_told (s\<lparr>sy_next := i\<rparr>) = all_told s"
  "all_told (task_does text_of e s) = all_told s"
  by (simp_all add: all_told_def)

lemma handle_told:
  assumes "all_told s" "told_ok l" "states_known s" shows "all_told (handle_message quoted m sid l s)"
proof -
  have "all_told (put_session sid (synced True s sid (untold l)) s)"
    using assms by (simp add: put_told synced_told)
  with assms show ?thesis
    by (cases m) (simp_all add: handle_message_def propose_doc_def act_for_def put_told synced_told flip: untold_def)
qed

lemma step_told:
  assumes "all_told s" "states_known s" "system_ok s" shows "all_told (net_step text_of quoted s e)"
proof (cases e)
  case (Opens k)
  have "told_ok (synced True (s\<lparr>sy_holders := h\<rparr>) sid \<lparr>lv_open = open_new, lv_phase = AtRest, lv_told = []\<rparr>)" for h sid
    using assms(2) by (intro synced_told) (simp_all add: states_known_def told_ok_def open_new_def)
  with Opens assms(1) show ?thesis by (simp add: session_opens_def Let_def holders_enter_def all_told_def)
next
  case Numbers
  with assms(1) show ?thesis by (simp add: all_told_def)
next
  case (Answers sid)
  with assms show ?thesis
    by (auto simp: with_session_def answered_def told_of [OF _ assms(1)] reply_found [OF _ assms(3)]
        intro!: put_told synced_told split: option.splits phase.splits net_reply.splits sum.splits)
next
  case (Closes sid)
  with assms(1) show ?thesis by (auto simp: session_closes_def all_told_def list_all_iff)
qed (use assms in \<open>auto simp: with_session_def handle_told put_told synced_told dest: told_of
    split: option.splits list.splits command.splits\<close>)

lemma still_holds:
  assumes "\<not> registration_busy (sy_holders s) sid" and "e \<noteq> Closes sid"
  shows "\<not> registration_busy (sy_holders (net_step text_of quoted s e)) sid"
proof -
  from assms(1) obtain rest where "ho_open (sy_holders s) = sid # rest"
    by (auto simp: registration_busy_def split: list.splits)
  with assms(2) show ?thesis
    unfolding step_holders registration_busy_def
    by (cases e) (simp_all add: holders_number_def holders_enter_def registration_drop_def)
qed

lemma answered_queue [simp]: "sy_queue (answered quoted sid l s) = sy_queue s"
  by (simp add: answered_def split: phase.splits option.splits net_reply.splits sum.splits)

lemma handle_queue: "registration_busy (sy_holders s) sid \<Longrightarrow> sy_queue (handle_message quoted m sid l s) = sy_queue s"
  by (cases m) (simp_all add: handle_message_def propose_doc_def act_for_def)

lemma command_from:
  assumes "length (sy_queue s) < length (sy_queue (net_step text_of quoted s e))"
  shows "\<exists>sid m. e = Hears sid m \<and> \<not> registration_busy (sy_holders s) sid"
proof (cases e)
  case (Hears sid m)
  have "\<not> registration_busy (sy_holders s) sid"
    using assms Hears handle_queue [of s sid] by (auto simp: with_session_def split: option.splits if_splits)
  with Hears show ?thesis by blast
next
  case (Takes backend outcome after)
  with assms show ?thesis by (auto split: list.splits command.splits)
qed (use assms in \<open>auto simp: with_session_def session_opens_def session_closes_def holders_enter_def Let_def
    split: option.splits if_splits\<close>)

section \<open>The properties\<close>

text \<open>C18. A client is told what the device holds: once its session has looked at the latest the task published,
  the client knows the document held and, unless its states are still to come, whether it is busy, the
  outcome, the failure and every candidate's state, whatever was sent before; and the capabilities
  too, where the states were known at every event so far.\<close>

theorem client_knows_what_is_held:
  fixes text_of quoted t es
  defines "run \<equiv> foldl (net_step text_of quoted) (system_new t)"
  assumes "disk_ok file" and "task_start backend restore file fallback = Inr t" and "length es \<le> 2 ^ 64 - 1"
    and "map_of (sy_sessions (run es)) sid = Some l"
  defines "n \<equiv> tk_published (sy_task (run es))" and "l' \<equiv> synced False (run es) sid l"
  shows "net_step text_of quoted (run es) (Wakes sid) = put_session sid l' (run es)
    \<and> sn_held n = held_now (tk_state (sy_task (run es)))
    \<and> cv_document (live_view l') = Some (hv_document (sn_held n))
    \<and> (\<forall>a. sn_attachments n = Some a \<longrightarrow>
         cv_state (live_view l') = Some (reported_of (registration_busy (sy_holders (run es)) sid) n a))
    \<and> ((\<forall>i. states_known (run (take i es))) \<longrightarrow> cv_capabilities (live_view l') = Some (sn_capabilities n))"
proof -
  note new = system_new_ok [OF assms(2,3)]
  have ok: "system_ok (run (take i es))" for i
    using sessions.metered_run [of "system_new t" "take i es" text_of quoted] new assms(4) by (simp add: run_def)
  have told: "all_told (run (take i es))" if known: "\<forall>i. states_known (run (take i es))" for i
  proof (induction i)
    case (Suc i)
    show ?case
    proof (cases "i < length es")
      case True
      then show ?thesis
        using step_told [OF Suc known [rule_format] ok] by (simp add: take_Suc_conv_app_nth run_def)
    qed (use Suc in simp)
  qed (simp add: run_def all_told_def system_new_def)
  have s: "system_ok (run es)" using ok [of "length es"] by simp
  note live = session_of [OF assms(5) s]
  have caps: "cv_capabilities (live_view l') = Some (sn_capabilities n)" if "\<forall>i. states_known (run (take i es))"
    using sync_told(2) [OF told_of [OF assms(5)], of "run es" False sid] told [OF that, of "length es"]
      that [rule_format, of "length es"] by (simp add: l'_def n_def states_known_def)
  have "sn_held n = held_now (tk_state (sy_task (run es)))"
    using s by (simp add: system_ok_def task_ok_def published_ok_def published_by_def n_def)
  with caps sync_tells(1,2) [OF live, where resend = False and sid = sid] assms(5) show ?thesis
    by (simp add: with_session_def l'_def n_def snap_document_def)
qed

text \<open>Where sessions are entered in the order of their numbers, they stay in it.\<close>

definition in_turn :: "net_event \<Rightarrow> bool" where
  "in_turn e \<longleftrightarrow> (case e of Opens k \<Rightarrow> k = 0 | _ \<Rightarrow> True)"

lemma step_sorted:
  assumes s: "system_ok s" and m: "system_meter s < 2 ^ 64 - 1" and e: "in_turn e"
    and sorted: "sorted_wrt (<) (ho_open (sy_holders s) @ ho_taken (sy_holders s))"
  shows "sorted_wrt (<) (ho_open (sy_holders (net_step text_of quoted s e)) @ ho_taken (sy_holders (net_step text_of quoted s e)))"
proof (cases e)
  case Numbers
  have "sid < ho_next (sy_holders s)" if "sid \<in> set (ho_open (sy_holders s) @ ho_taken (sy_holders s))" for sid
    using that s by (auto simp: system_ok_def holders_ok_def list_all_iff)
  with sorted Numbers show ?thesis by (auto simp: step_holders holders_number_def sorted_wrt_append)
next
  case (Opens k)
  with e sorted show ?thesis unfolding step_holders
    by (cases "ho_taken (sy_holders s)") (simp_all add: in_turn_def holders_enter_def)
next
  case (Closes sid)
  with sorted show ?thesis unfolding step_holders
    by (auto simp: registration_drop_def sorted_wrt_append intro!: sorted_wrt_filter)
qed (use sorted in \<open>simp_all only: step_holders net_event.case\<close>)

text \<open>How the sessions that are open change, in the order they were entered.\<close>

lemma step_sessions:
  assumes "system_ok s"
  shows "map fst (sy_sessions (net_step text_of quoted s e)) =
     (case e of
        Opens k \<Rightarrow> map fst (sy_sessions s) @ (if k < length (ho_taken (sy_holders s)) then [ho_taken (sy_holders s) ! k] else [])
      | Closes sid \<Rightarrow> filter (\<lambda>i. i \<noteq> sid) (map fst (sy_sessions s))
      | _ \<Rightarrow> map fst (sy_sessions s))"
proof -
  have handled: "map fst (sy_sessions (handle_message quoted m sid l s)) = map fst (sy_sessions s)" for m sid l
    by (cases m) (simp_all add: handle_message_def propose_doc_def act_for_def)
  have given: "map fst (sy_sessions (answered quoted sid l s)) = map fst (sy_sessions s)" for sid l
    by (simp add: answered_def split: phase.splits option.splits net_reply.splits sum.splits)
  show ?thesis
    by (cases e)
      (simp_all add: with_session_def handled given session_opens_def session_closes_def holders_enter_def Let_def keys_left
        split: option.split list.split command.split)
qed

text \<open>C19. Only the session open longest has its proposals and acts taken to the task: a command is sent only on
  a message of the first of the sessions open, which stand in the order they were entered - a session
  entered comes last, and only one that closes leaves - and where no session overtook another between
  taking its number and being entered, that is the one with the lowest number.  A session that holds the
  configuration goes on holding it, whichever sessions open and close, until it closes.\<close>

theorem only_the_longest_open_commands:
  fixes text_of quoted t es
  assumes "disk_ok file" and "task_start backend restore file fallback = Inr t" and "length es \<le> 2 ^ 64 - 1"
  defines "s \<equiv> foldl (net_step text_of quoted) (system_new t) es"
  shows "(length (sy_queue s) < length (sy_queue (net_step text_of quoted s e)) \<longrightarrow>
      (\<exists>sid m. e = Hears sid m \<and> sy_sessions s \<noteq> [] \<and> fst (hd (sy_sessions s)) = sid
        \<and> (list_all in_turn es \<longrightarrow> (\<forall>other \<in> fst ` set (sy_sessions s). sid \<le> other))))
    \<and> map fst (sy_sessions (net_step text_of quoted s e)) =
       (case e of
          Opens k \<Rightarrow> map fst (sy_sessions s) @ (if k < length (ho_taken (sy_holders s)) then [ho_taken (sy_holders s) ! k] else [])
        | Closes sid \<Rightarrow> filter (\<lambda>i. i \<noteq> sid) (map fst (sy_sessions s))
        | _ \<Rightarrow> map fst (sy_sessions s))
    \<and> (\<not> registration_busy (sy_holders s) sid \<longrightarrow> e \<noteq> Closes sid \<longrightarrow>
      \<not> registration_busy (sy_holders (net_step text_of quoted s e)) sid)"
proof -
  note new = system_new_ok [OF assms(1,2)]
  have runs: "system_ok (foldl (net_step text_of quoted) (system_new t) (take i es))
      \<and> (i \<le> length es \<longrightarrow> system_meter (foldl (net_step text_of quoted) (system_new t) (take i es)) \<le> i)" for i
    using sessions.metered_run [of "system_new t" "take i es" text_of quoted] new assms(3) by auto
  have ok: "system_ok s" using runs [of "length es"] by (simp add: s_def)
  then have h: "ho_open (sy_holders s) = map fst (sy_sessions s)" by (simp add: system_ok_def holders_ok_def)
  have sorted: "sorted_wrt (<) (ho_open (sy_holders (foldl (net_step text_of quoted) (system_new t) (take i es)))
      @ ho_taken (sy_holders (foldl (net_step text_of quoted) (system_new t) (take i es))))"
    if turns: "list_all in_turn es" for i
  proof (induction i)
    case (Suc i)
    show ?case
    proof (cases "i < length es")
      case True
      then have turn: "in_turn (es ! i)" using turns by (simp add: list_all_length)
      have "system_meter (foldl (net_step text_of quoted) (system_new t) (take i es)) < 2 ^ 64 - 1"
        using runs [of i] True assms(3) by simp
      from step_sorted [OF runs [of i, THEN conjunct1] this turn Suc] True show ?thesis
        by (simp add: take_Suc_conv_app_nth)
    qed (use Suc in simp)
  qed (simp add: system_new_def holders_new_def)
  have first: "sy_sessions s \<noteq> [] \<and> fst (hd (sy_sessions s)) = i
      \<and> (list_all in_turn es \<longrightarrow> (\<forall>other \<in> fst ` set (sy_sessions s). i \<le> other))"
    if "\<not> registration_busy (sy_holders s) i" for i
  proof -
    have "\<forall>other \<in> fst ` set (sy_sessions s). fst (hd (sy_sessions s)) \<le> other" if "list_all in_turn es"
      using sorted [OF that, of "length es"] h
      by (cases "sy_sessions s") (auto simp: s_def [symmetric] intro: less_imp_le)
    with that h show ?thesis by (cases "sy_sessions s") (auto simp: registration_busy_def)
  qed
  show ?thesis
  proof (intro conjI impI)
    assume "length (sy_queue s) < length (sy_queue (net_step text_of quoted s e))"
    from command_from [OF this] obtain i m where e: "e = Hears i m" and i: "\<not> registration_busy (sy_holders s) i"
      by metis
    show "\<exists>sid m. e = Hears sid m \<and> sy_sessions s \<noteq> [] \<and> fst (hd (sy_sessions s)) = sid
        \<and> (list_all in_turn es \<longrightarrow> (\<forall>other \<in> fst ` set (sy_sessions s). sid \<le> other))"
      by (intro exI [of _ i] exI [of _ m] conjI [OF e] first [OF i])
  next
    show "map fst (sy_sessions (net_step text_of quoted s e)) =
       (case e of
          Opens k \<Rightarrow> map fst (sy_sessions s) @ (if k < length (ho_taken (sy_holders s)) then [ho_taken (sy_holders s) ! k] else [])
        | Closes sid \<Rightarrow> filter (\<lambda>i. i \<noteq> sid) (map fst (sy_sessions s))
        | _ \<Rightarrow> map fst (sy_sessions s))"
      by (rule step_sessions [OF ok])
  qed (rule still_holds)
qed

definition no_acts :: net_backend where
  "no_acts = takes_all\<lparr>bk_states := Some [JNull]\<rparr>"

definition more_acts :: "json list \<Rightarrow> net_backend" where
  "more_acts entries = no_acts\<lparr>bk_capabilities := bt_insert ''acts'' (JObject [(''scan'', JBool True)])
     (bk_capabilities takes_all), bk_states := Some entries\<rparr>"

definition lost_run :: "net_event list" where
  "lost_run = [Numbers, Opens 0, Hears 0 (Configuration in_nz None), Takes takes_all Written no_acts, Answers 0, Wakes 0,
     Moves (more_acts [JNull]), Wakes 0, Judged None Written (more_acts []), Wakes 0]"

text \<open>A change of what the device can do may never be told: where it comes while the states of the configuration
  just saved are still to be observed, the session takes it for told and sends nothing, and once the states
  are known the client hears of them alone.  Here the capabilities change between a save and its first
  states; the client ends up knowing everything but them, and looking again tells it nothing.\<close>

lemma capabilities_can_go_untold:
  defines "s \<equiv> foldl (net_step as_text (\<lambda>w. w)) (system_new first_task) lost_run"
  shows "case map_of (sy_sessions s) 0 of
      None \<Rightarrow> False
    | Some l \<Rightarrow> cv_state (live_view l) = Some (reported_of False (tk_published (sy_task s)) [])
        \<and> cv_capabilities (live_view l) = Some (bk_capabilities takes_all)
        \<and> sn_capabilities (tk_published (sy_task s)) = bk_capabilities (more_acts [])
        \<and> lv_told (synced False s 0 l) = lv_told l"
  unfolding s_def by code_simp

section \<open>Witnesses\<close>

definition one_session :: "net_event list" where
  "one_session = [Numbers, Opens 0, Numbers, Opens 0, Hears 0 (Configuration in_nz None), Takes takes_all Written takes_all, Answers 0]"

lemma session_there:
  "map_of (sy_sessions (foldl (net_step as_text (\<lambda>w. w)) (system_new first_task) one_session)) 0 \<noteq> None"
  by code_simp

theorem client_knows_what_is_held_witness:
  "\<exists>l. map_of (sy_sessions (foldl (net_step as_text (\<lambda>w. w)) (system_new first_task) one_session)) 0 = Some l
     \<and> cv_document (live_view (synced False (foldl (net_step as_text (\<lambda>w. w)) (system_new first_task) one_session) 0 l))
       = Some (hv_document (sn_held (tk_published (sy_task (foldl (net_step as_text (\<lambda>w. w)) (system_new first_task) one_session)))))"
  using session_there client_knows_what_is_held [OF empty_disk first_starts, of one_session as_text "\<lambda>w. w" 0]
  by (auto simp: one_session_def)

theorem only_the_longest_open_commands_witness:
  "\<not> registration_busy (sy_holders (net_step as_text (\<lambda>w. w)
     (foldl (net_step as_text (\<lambda>w. w)) (system_new first_task) one_session) (Closes 1))) 0"
proof -
  have "\<not> registration_busy (sy_holders (foldl (net_step as_text (\<lambda>w. w)) (system_new first_task) one_session)) 0"
    by code_simp
  then show ?thesis
    using only_the_longest_open_commands [OF empty_disk first_starts, of one_session as_text "\<lambda>w. w" "Closes 1" 0]
    by (simp add: one_session_def del: net_step.simps foldl_Cons)
qed

end
