(* ===== verification/Board_Id.thy ===== *)
theory Board_Id
  imports Prelude
begin

text \<open>
  The board ID, \<open>crates/bliti-core/src/board_id.rs\<close>: the kinds of source in their order of precedence, the
  choice of the source a board's ID is read from, and whether a cached derivation still holds.  A backend
  is what its two reads answer.  With the Raspberry Pi serial of \<open>board_id/backends.rs\<close>.
\<close>

section \<open>Kinds of source\<close>

datatype source_kind = TpmEndorsementKey | OneTimeProgrammable | RaspberryPiSerial

definition SOURCE_KINDS :: "source_kind list" where
  "SOURCE_KINDS = [TpmEndorsementKey, OneTimeProgrammable, RaspberryPiSerial]"

fun source_tag :: "source_kind \<Rightarrow> u8" where
  "source_tag TpmEndorsementKey = 1"
| "source_tag OneTimeProgrammable = 2"
| "source_tag RaspberryPiSerial = 3"

fun source_rank :: "source_kind \<Rightarrow> u8" where
  "source_rank TpmEndorsementKey = 3"
| "source_rank OneTimeProgrammable = 2"
| "source_rank RaspberryPiSerial = 1"

definition is_platform_serial :: "source_kind \<Rightarrow> bool" where
  "is_platform_serial kind \<longleftrightarrow> kind = RaspberryPiSerial"

definition is_stronger_than :: "source_kind \<Rightarrow> source_kind \<Rightarrow> bool" where
  "is_stronger_than kind other \<longleftrightarrow> source_rank other < source_rank kind"

fun source_name :: "source_kind \<Rightarrow> string" where
  "source_name TpmEndorsementKey = ''TPM Endorsement Key''"
| "source_name OneTimeProgrammable = ''one-time-programmable memory''"
| "source_name RaspberryPiSerial = ''Raspberry Pi serial''"

section \<open>Board IDs\<close>

datatype board_error =
    NoUsableSource
  | EmptyValue source_kind
  | PlaceholderValue source_kind
  | BackendFailed source_kind string

record board_id =
  bi_kind :: source_kind
  bi_bytes :: bytes

definition is_sentinel :: "bytes \<Rightarrow> bool" where
  "is_sentinel bs \<longleftrightarrow> bs \<noteq> [] \<and> (list_all (\<lambda>b. b = 0) bs \<or> list_all (\<lambda>b. b = 0xFF) bs)"

definition board_id_new :: "source_kind \<Rightarrow> bytes \<Rightarrow> board_error + board_id" where
  "board_id_new kind bs =
     (if bs = [] then Inl (EmptyValue kind)
      else if is_sentinel bs then Inl (PlaceholderValue kind)
      else Inr \<lparr>bi_kind = kind, bi_bytes = bs\<rparr>)"

section \<open>Choosing a source\<close>

datatype presence = Absent | Present | Placeholder

record board_source =
  so_kind :: source_kind
  so_probe :: "board_error + presence"
  so_read :: "board_error + bytes"

fun select_among :: "source_kind list \<Rightarrow> board_source list \<Rightarrow> board_error + board_id" where
  "select_among [] sources = Inl NoUsableSource"
| "select_among (kind # kinds) sources =
     (case List.find (\<lambda>s. so_kind s = kind) sources of
        None \<Rightarrow> select_among kinds sources
      | Some source \<Rightarrow>
          (case so_probe source of
             Inl e \<Rightarrow> Inl e
           | Inr Present \<Rightarrow> (case so_read source of Inl e \<Rightarrow> Inl e | Inr bs \<Rightarrow> board_id_new kind bs)
           | Inr _ \<Rightarrow> select_among kinds sources))"

definition board_select :: "board_source list \<Rightarrow> board_error + board_id" where
  "board_select sources = select_among SOURCE_KINDS sources"

fun strongest_among :: "source_kind list \<Rightarrow> board_source list \<Rightarrow> board_error + source_kind option" where
  "strongest_among [] sources = Inr None"
| "strongest_among (kind # kinds) sources =
     (case List.find (\<lambda>s. so_kind s = kind) sources of
        None \<Rightarrow> strongest_among kinds sources
      | Some source \<Rightarrow>
          (case so_probe source of
             Inl e \<Rightarrow> Inl e
           | Inr p \<Rightarrow> if p = Present then Inr (Some kind) else strongest_among kinds sources))"

definition strongest_present :: "board_source list \<Rightarrow> board_error + source_kind option" where
  "strongest_present sources = strongest_among SOURCE_KINDS sources"

text \<open>
  The Raspberry Pi's serial, once the file is read: \<open>None\<close> where there is none, and otherwise the text with the
  spaces and NULs around it gone, or why it could not be read.  \<open>u64::from_str_radix\<close> takes one plus sign
  and then digits.
\<close>

definition hex_value :: "char \<Rightarrow> int option" where
  "hex_value c = (let n = of_char c :: int in
     if 48 \<le> n \<and> n \<le> 57 then Some (n - 48)
     else if 97 \<le> n \<and> n \<le> 102 then Some (n - 87)
     else if 65 \<le> n \<and> n \<le> 70 then Some (n - 55) else None)"

fun hex_digits :: "string \<Rightarrow> int \<Rightarrow> int option" where
  "hex_digits [] n = Some n"
| "hex_digits (c # cs) n =
     (case hex_value c of
        None \<Rightarrow> None
      | Some d \<Rightarrow> if n * 16 + d < 0x10000000000000000 then hex_digits cs (n * 16 + d) else None)"

definition u64_from_hex :: "string \<Rightarrow> u64 option" where
  "u64_from_hex t =
     (let t = (case t of c # rest \<Rightarrow> if c = CHR ''+'' \<and> rest \<noteq> [] then rest else t | [] \<Rightarrow> t) in
      if t = [] then None else map_option of_int (hex_digits t 0))"

definition u64_bytes :: "u64 \<Rightarrow> bytes" where
  "u64_bytes w = map (\<lambda>i. ucast (drop_bit (8 * (7 - i)) w)) [0..<8]"

datatype serial_file = NoSerialFile | SerialText string | SerialUnreadable string

definition serial_bytes :: "(string \<Rightarrow> string) \<Rightarrow> serial_file \<Rightarrow> board_error + bytes option" where
  "serial_bytes not_hex f =
     (case f of
        NoSerialFile \<Rightarrow> Inr None
      | SerialUnreadable err \<Rightarrow> Inl (BackendFailed RaspberryPiSerial err)
      | SerialText t \<Rightarrow>
          if t = [] then Inr None
          else case u64_from_hex t of
                 None \<Rightarrow> Inl (BackendFailed RaspberryPiSerial (not_hex t))
               | Some w \<Rightarrow> Inr (Some (u64_bytes w)))"

definition serial_probe :: "(string \<Rightarrow> string) \<Rightarrow> serial_file \<Rightarrow> board_error + presence" where
  "serial_probe not_hex f =
     (case serial_bytes not_hex f of
        Inl e \<Rightarrow> Inl e
      | Inr None \<Rightarrow> Inr Absent
      | Inr (Some bs) \<Rightarrow> Inr (if is_sentinel bs then Placeholder else Present))"

definition serial_read :: "(string \<Rightarrow> string) \<Rightarrow> serial_file \<Rightarrow> board_error + bytes" where
  "serial_read not_hex f =
     (case serial_bytes not_hex f of
        Inl e \<Rightarrow> Inl e
      | Inr (Some bs) \<Rightarrow> Inr bs
      | Inr None \<Rightarrow> Inl (BackendFailed RaspberryPiSerial ''serial disappeared between probe and read''))"

definition serial_source :: "(string \<Rightarrow> string) \<Rightarrow> serial_file \<Rightarrow> board_source" where
  "serial_source not_hex f =
     \<lparr>so_kind = RaspberryPiSerial, so_probe = serial_probe not_hex f, so_read = serial_read not_hex f\<rparr>"

section \<open>Whether a cached derivation holds\<close>

record cache_state =
  cs_kind :: source_kind
  cs_serial :: "bytes option"

datatype cache_decision = Fresh | QrDead | Rederive

definition evaluate_cache :: "cache_state option \<Rightarrow> bytes option \<Rightarrow> source_kind option \<Rightarrow> cache_decision" where
  "evaluate_cache cache observed strongest =
     (case cache of
        None \<Rightarrow> Rederive
      | Some cache \<Rightarrow>
          (case strongest of
             None \<Rightarrow> Rederive
           | Some present \<Rightarrow>
               if observed \<noteq> None then
                 (if observed \<noteq> cs_serial cache then Rederive
                  else if present = cs_kind cache then Fresh else QrDead)
               else if present = cs_kind cache then Fresh else QrDead))"

section \<open>Lemmas\<close>

definition source_of :: "board_source list \<Rightarrow> source_kind \<Rightarrow> board_source option" where
  "source_of sources kind = List.find (\<lambda>s. so_kind s = kind) sources"

definition passed_over :: "board_source list \<Rightarrow> source_kind \<Rightarrow> bool" where
  "passed_over sources kind \<longleftrightarrow>
     (case source_of sources kind of None \<Rightarrow> True | Some s \<Rightarrow> so_probe s \<in> {Inr Absent, Inr Placeholder})"

lemma stronger_ranks: "is_stronger_than a b \<longleftrightarrow> (case (a, b) of
    (TpmEndorsementKey, OneTimeProgrammable) \<Rightarrow> True | (TpmEndorsementKey, RaspberryPiSerial) \<Rightarrow> True
  | (OneTimeProgrammable, RaspberryPiSerial) \<Rightarrow> True | _ \<Rightarrow> False)"
  by (cases a; cases b) (simp_all add: is_stronger_than_def)

lemma strongest_first:
  "strongest_among kinds sources = Inr (Some kind) \<longleftrightarrow>
     List.find (\<lambda>k. \<not> passed_over sources k) kinds = Some kind
     \<and> (\<exists>source. source_of sources kind = Some source \<and> so_probe source = Inr Present)"
proof (induction kinds)
  case (Cons k kinds)
  show ?case
  proof (cases "source_of sources k")
    case None
    with Cons.IH show ?thesis by (simp add: source_of_def passed_over_def)
  next
    case (Some source)
    show ?thesis
    proof (cases "so_probe source")
      case (Inr p)
      with Some Cons.IH show ?thesis by (cases p) (auto simp: source_of_def passed_over_def)
    qed (use Some in \<open>auto simp: source_of_def passed_over_def\<close>)
  qed
qed simp

lemma select_as_probed:
  "select_among kinds sources = Inr board \<Longrightarrow> strongest_among kinds sources = Inr (Some (bi_kind board))
    \<and> (\<exists>source. source_of sources (bi_kind board) = Some source \<and> so_read source = Inr (bi_bytes board))
    \<and> bi_bytes board \<noteq> [] \<and> \<not> is_sentinel (bi_bytes board)"
  by (induction kinds)
    (auto simp: source_of_def board_id_new_def split: option.splits sum.splits presence.splits if_splits)

lemma probed_as_selected:
  "strongest_among kinds sources = Inr (Some kind) \<Longrightarrow> source_of sources kind = Some source \<Longrightarrow>
    select_among kinds sources = (case so_read source of Inl e \<Rightarrow> Inl e | Inr bs \<Rightarrow> board_id_new kind bs)"
  by (induction kinds) (auto simp: source_of_def split: option.splits sum.splits presence.splits if_splits)

lemma stronger_kinds_first: "List.find P SOURCE_KINDS = Some kind \<Longrightarrow> is_stronger_than k kind \<Longrightarrow> \<not> P k"
  by (cases k; cases kind) (auto simp: SOURCE_KINDS_def is_stronger_than_def split: if_splits)

section \<open>The properties\<close>

text \<open>A board's ID is read from the strongest source it has: where one is chosen, every stronger source is
  absent or holds a placeholder, the chosen one is present, its value is the one read, and that value
  carries an identity; and the cheap look that reads no value names the same kind.\<close>

lemma selected_is_strongest:
  assumes "board_select sources = Inr board"
  shows "(\<forall>kind. is_stronger_than kind (bi_kind board) \<longrightarrow> passed_over sources kind)
    \<and> (\<exists>source. source_of sources (bi_kind board) = Some source \<and> so_probe source = Inr Present
         \<and> so_read source = Inr (bi_bytes board))
    \<and> bi_bytes board \<noteq> [] \<and> \<not> is_sentinel (bi_bytes board)
    \<and> strongest_present sources = Inr (Some (bi_kind board))"
proof -
  note s = select_as_probed [OF assms [unfolded board_select_def]]
  then have first: "strongest_among SOURCE_KINDS sources = Inr (Some (bi_kind board))" by simp
  have "passed_over sources kind" if "is_stronger_than kind (bi_kind board)" for kind
    using stronger_kinds_first [OF _ that] first by (auto simp: strongest_first)
  with s first show ?thesis
    by (auto simp: strongest_first strongest_present_def)
qed

end
