(* ===== verification/Key_Schedule.thy ===== *)
theory Key_Schedule
  imports Board_Id
begin

unbundle bit_operations_syntax

text \<open>
  The key schedule, \<open>crates/bliti-core/src/key_schedule.rs\<close>: from a board ID to the root, and from the root to
  what a device advertises, proves it holds and prints on its QR code.  The primitives are parameters:
  BLAKE3's key derivation and extendable output, X25519's base multiplication, ML-KEM's key generation
  and argon2id.
\<close>

section \<open>The primitives\<close>

record primitives =
  cr_derive_key :: "string \<Rightarrow> bytes \<Rightarrow> bytes"
  cr_derive_xof :: "string \<Rightarrow> bytes \<Rightarrow> nat \<Rightarrow> bytes"
  cr_mul_base :: "bytes \<Rightarrow> bytes"
  cr_encapsulation_key :: "bytes \<Rightarrow> bytes"
  cr_argon_params :: "32 word \<Rightarrow> 32 word \<Rightarrow> 32 word \<Rightarrow> nat \<Rightarrow> string option"
  cr_argon_hash :: "32 word \<Rightarrow> 32 word \<Rightarrow> 32 word \<Rightarrow> bytes \<Rightarrow> bytes \<Rightarrow> string + bytes"

text \<open>What the libraries document of the lengths of what they give.\<close>

definition primitives_ok :: "primitives \<Rightarrow> bool" where
  "primitives_ok c \<longleftrightarrow>
     (\<forall>ctx m. length (cr_derive_key c ctx m) = 32) \<and> (\<forall>ctx m n. length (cr_derive_xof c ctx m n) = n)
     \<and> (\<forall>k. length (cr_mul_base c k) = 32)
     \<and> (\<forall>m p l pw salt out. cr_argon_hash c m p l pw salt = Inr out \<longrightarrow> length out = 32)"

definition ROOT_SALT :: bytes where
  "ROOT_SALT = [0x3e, 0xdf, 0xe9, 0x5c, 0xeb, 0x86, 0xfa, 0xdd, 0x23, 0xd4, 0x6a, 0x87, 0x34, 0xc7, 0xeb, 0x13]"

definition PRESENCE_TOKEN_CONTEXT :: string where "PRESENCE_TOKEN_CONTEXT = ''bliti presence token''"
definition PRE_SHARED_KEY_CONTEXT :: string where "PRE_SHARED_KEY_CONTEXT = ''bliti pre-shared key''"
definition DEVICE_STATIC_KEY_CONTEXT :: string where "DEVICE_STATIC_KEY_CONTEXT = ''bliti device static key''"
definition DEVICE_KEM_SEED_CONTEXT :: string where "DEVICE_KEM_SEED_CONTEXT = ''bliti device kem seed''"
definition KEM_KEY_DIGEST_CONTEXT :: string where "KEM_KEY_DIGEST_CONTEXT = ''bliti device kem key digest''"
definition KEY_FINGERPRINT_CONTEXT :: string where "KEY_FINGERPRINT_CONTEXT = ''bliti device key fingerprint''"
definition HANDLE_CONTEXT :: string where "HANDLE_CONTEXT = ''bliti advertised handle''"

definition ROOT_MEMORY_KIB :: "32 word" where "ROOT_MEMORY_KIB = 2 * 1024 * 1024"
definition ROOT_MEMORY_BYTES :: u64 where "ROOT_MEMORY_BYTES = ucast ROOT_MEMORY_KIB * 1024"
definition ROOT_PASSES :: "32 word" where "ROOT_PASSES = 1"
definition ROOT_LANES :: "32 word" where "ROOT_LANES = 2"

definition ROOT_LEN :: nat where "ROOT_LEN = 32"
definition PRESENCE_TOKEN_LEN :: nat where "PRESENCE_TOKEN_LEN = 16"
definition DEVICE_KEY_LEN :: nat where "DEVICE_KEY_LEN = 32"
definition KEM_KEY_DIGEST_LEN :: nat where "KEM_KEY_DIGEST_LEN = 32"
definition KEY_FINGERPRINT_LEN :: nat where "KEY_FINGERPRINT_LEN = 18"
definition HANDLE_LEN :: nat where "HANDLE_LEN = 8"

lemmas key_lengths = ROOT_LEN_def PRESENCE_TOKEN_LEN_def DEVICE_KEY_LEN_def KEM_KEY_DIGEST_LEN_def
  KEY_FINGERPRINT_LEN_def HANDLE_LEN_def

section \<open>What descends from the root\<close>

text \<open>Each is the bytes it wraps.\<close>

definition key_prefix :: "nat \<Rightarrow> bytes \<Rightarrow> bytes" where
  "key_prefix n derived = take n derived"

definition presence_token :: "primitives \<Rightarrow> bytes \<Rightarrow> bytes" where
  "presence_token c root = key_prefix PRESENCE_TOKEN_LEN (cr_derive_key c PRESENCE_TOKEN_CONTEXT root)"

definition pre_shared_key :: "primitives \<Rightarrow> bytes \<Rightarrow> bytes" where
  "pre_shared_key c token = cr_derive_key c PRE_SHARED_KEY_CONTEXT token"

definition advertised_handle :: "primitives \<Rightarrow> bytes \<Rightarrow> bytes" where
  "advertised_handle c token = key_prefix HANDLE_LEN (cr_derive_key c HANDLE_CONTEXT token)"

definition device_static_key :: "primitives \<Rightarrow> bytes \<Rightarrow> bytes" where
  "device_static_key c root =
     (let key = cr_derive_key c DEVICE_STATIC_KEY_CONTEXT root;
          key = key[0 := key ! 0 AND 0xF8];
          key = key[31 := key ! 31 AND 0x7F]
      in key[31 := key ! 31 OR 0x40])"

definition device_public_key :: "primitives \<Rightarrow> bytes \<Rightarrow> bytes" where
  "device_public_key c static = cr_mul_base c static"

definition kem_seed :: "primitives \<Rightarrow> bytes \<Rightarrow> bytes" where
  "kem_seed c root = cr_derive_xof c DEVICE_KEM_SEED_CONTEXT root 64"

definition kem_key_digest :: "primitives \<Rightarrow> bytes \<Rightarrow> bytes" where
  "kem_key_digest c seed = cr_derive_key c KEM_KEY_DIGEST_CONTEXT (cr_encapsulation_key c seed)"

definition key_fingerprint :: "primitives \<Rightarrow> bytes \<Rightarrow> bytes \<Rightarrow> bytes" where
  "key_fingerprint c public_key digest =
     key_prefix KEY_FINGERPRINT_LEN (cr_derive_key c KEY_FINGERPRINT_CONTEXT (public_key @ digest))"

record device_keys =
  dk_presence_token :: bytes
  dk_pre_shared_key :: bytes
  dk_static_key :: bytes
  dk_kem_key_digest :: bytes

definition root_device_keys :: "primitives \<Rightarrow> bytes \<Rightarrow> device_keys" where
  "root_device_keys c root =
     (let token = presence_token c root
      in \<lparr>dk_presence_token = token, dk_pre_shared_key = pre_shared_key c token,
          dk_static_key = device_static_key c root, dk_kem_key_digest = kem_key_digest c (kem_seed c root)\<rparr>)"

definition device_fingerprint :: "primitives \<Rightarrow> device_keys \<Rightarrow> bytes" where
  "device_fingerprint c keys = key_fingerprint c (device_public_key c (dk_static_key keys)) (dk_kem_key_digest keys)"

section \<open>The root\<close>

datatype key_error = InsufficientMemory u64 u64 | BadParameters string | DerivationFailed string

definition argon2_password :: "source_kind \<Rightarrow> bytes \<Rightarrow> bytes" where
  "argon2_password kind raw = source_tag kind # raw"

definition check_memory :: "u64 \<Rightarrow> key_error + unit" where
  "check_memory available =
     (if available < ROOT_MEMORY_BYTES then Inl (InsufficientMemory ROOT_MEMORY_BYTES available) else Inr ())"

definition derive_root_with ::
  "primitives \<Rightarrow> 32 word \<Rightarrow> 32 word \<Rightarrow> 32 word \<Rightarrow> bytes \<Rightarrow> key_error + bytes" where
  "derive_root_with c memory passes lanes password =
     (case cr_argon_params c memory passes lanes ROOT_LEN of
        Some err \<Rightarrow> Inl (BadParameters err)
      | None \<Rightarrow>
          (case cr_argon_hash c memory passes lanes password ROOT_SALT of
             Inl err \<Rightarrow> Inl (DerivationFailed err)
           | Inr out \<Rightarrow> Inr out))"

definition derive_root :: "primitives \<Rightarrow> board_id \<Rightarrow> key_error + bytes" where
  "derive_root c board =
     derive_root_with c ROOT_MEMORY_KIB ROOT_PASSES ROOT_LANES (argon2_password (bi_kind board) (bi_bytes board))"

section \<open>Lemmas\<close>

lemma source_tag_inj: "source_tag a = source_tag b \<longleftrightarrow> a = b"
  by (cases a; cases b) simp_all

text \<open>No two board IDs are derived from the same password.\<close>

lemma argon2_password_inj:
  "argon2_password (bi_kind a) (bi_bytes a) = argon2_password (bi_kind b) (bi_bytes b) \<longleftrightarrow> a = (b :: board_id)"
  by (cases a; cases b) (simp add: argon2_password_def source_tag_inj)

lemma derived_root_length: "primitives_ok c \<Longrightarrow> derive_root c board = Inr root \<Longrightarrow> length root = ROOT_LEN"
  by (auto simp: derive_root_def derive_root_with_def primitives_ok_def ROOT_LEN_def split: option.splits sum.splits)

text \<open>Every value has its length.\<close>

lemma device_keys_lengths:
  assumes "primitives_ok c"
  shows "length (presence_token c root) = PRESENCE_TOKEN_LEN" "length (advertised_handle c token) = HANDLE_LEN"
    "length (key_fingerprint c key digest) = KEY_FINGERPRINT_LEN" "length (device_static_key c root) = DEVICE_KEY_LEN"
    "length (kem_key_digest c seed) = KEM_KEY_DIGEST_LEN" "length (device_public_key c key) = DEVICE_KEY_LEN"
  using assms
  by (simp_all add: presence_token_def advertised_handle_def key_fingerprint_def device_static_key_def
      kem_key_digest_def device_public_key_def key_prefix_def key_lengths primitives_ok_def Let_def)

end
