(* ===== verification/Identity.thy ===== *)
theory Identity
  imports Key_Schedule
begin

text \<open>
  Establishing a device's own keys, \<open>crates/bliti/src/identity.rs\<close>: the cache, the choice between it and a new
  derivation, and the payload of a device in provisioning mode.  The file is what it reads as: absent,
  unreadable, not of the cache's shape, or a cache file; hex is a parameter.
\<close>

section \<open>The cache\<close>

record cache_file =
  cf_version :: u8
  cf_kind :: string
  cf_board_id :: string
  cf_platform_serial :: "string option"
  cf_root :: string

datatype cache_read = NoCache | CacheUnreadable string | NotACache | CacheOf cache_file

definition PAYLOAD_VERSION :: u8 where "PAYLOAD_VERSION = 1"

record hex =
  hx_encode :: "bytes \<Rightarrow> string"
  hx_decode :: "string \<Rightarrow> bytes option"

definition hex_ok :: "hex \<Rightarrow> bool" where
  "hex_ok h \<longleftrightarrow> (\<forall>bs. hx_decode h (hx_encode h bs) = Some bs)"

datatype identity_error =
    OfBoardId board_error
  | OfKey key_error
  | QrDeadError "source_kind option" "source_kind option"
  | WrongSource source_kind "source_kind option"
  | UnreadableSource string
  | OfCache string

fun kind_name :: "source_kind \<Rightarrow> string" where
  "kind_name TpmEndorsementKey = ''tpm-endorsement-key''"
| "kind_name OneTimeProgrammable = ''one-time-programmable''"
| "kind_name RaspberryPiSerial = ''raspberry-pi-serial''"

definition kind_from_name :: "string \<Rightarrow> source_kind option" where
  "kind_from_name name = List.find (\<lambda>k. kind_name k = name) SOURCE_KINDS"

definition cache_state_of :: "hex \<Rightarrow> cache_file \<Rightarrow> (cache_state \<times> bytes) option" where
  "cache_state_of h f =
     (if cf_version f \<noteq> PAYLOAD_VERSION then None
      else case (kind_from_name (cf_kind f), hx_decode h (cf_root f)) of
        (Some kind, Some root) \<Rightarrow>
          if length root \<noteq> ROOT_LEN then None
          else if hx_decode h (cf_board_id f) = None then None
          else (case map_option (hx_decode h) (cf_platform_serial f) of
                  Some (Some serial) \<Rightarrow> Some (\<lparr>cs_kind = kind, cs_serial = Some serial\<rparr>, root)
                | Some None \<Rightarrow> None
                | None \<Rightarrow> Some (\<lparr>cs_kind = kind, cs_serial = None\<rparr>, root))
      | _ \<Rightarrow> None)"

definition read_cache :: "hex \<Rightarrow> cache_read \<Rightarrow> identity_error + (cache_state \<times> bytes) option" where
  "read_cache h r =
     (case r of
        NoCache \<Rightarrow> Inr None
      | CacheUnreadable err \<Rightarrow> Inl (OfCache err)
      | NotACache \<Rightarrow> Inr None
      | CacheOf f \<Rightarrow> Inr (cache_state_of h f))"

definition cache_file_of :: "hex \<Rightarrow> board_id \<Rightarrow> bytes option \<Rightarrow> bytes \<Rightarrow> cache_file" where
  "cache_file_of h board serial root =
     \<lparr>cf_version = PAYLOAD_VERSION, cf_kind = kind_name (bi_kind board), cf_board_id = hx_encode h (bi_bytes board),
      cf_platform_serial = map_option (hx_encode h) serial, cf_root = hx_encode h root\<rparr>"

text \<open>Writing goes through a temporary file and a rename: it fails with the cache as it was, or replaces it.\<close>

definition write_cache ::
  "hex \<Rightarrow> string option \<Rightarrow> board_id \<Rightarrow> bytes option \<Rightarrow> bytes \<Rightarrow> cache_read \<Rightarrow> identity_error option \<times> cache_read" where
  "write_cache h failed board serial root disk =
     (case failed of
        Some err \<Rightarrow> (Some (OfCache err), disk)
      | None \<Rightarrow> (None, CacheOf (cache_file_of h board serial root)))"

section \<open>Establishing the keys\<close>

record identity =
  id_keys :: device_keys
  id_kind :: source_kind
  id_derived :: bool

fun platform_serial :: "board_source list \<Rightarrow> identity_error + bytes option" where
  "platform_serial [] = Inr None"
| "platform_serial (source # sources) =
     (if is_platform_serial (so_kind source)
      then (case so_probe source of
              Inl e \<Rightarrow> Inl (OfBoardId e)
            | Inr Present \<Rightarrow> (case so_read source of Inl e \<Rightarrow> Inl (OfBoardId e) | Inr bs \<Rightarrow> Inr (Some bs))
            | Inr _ \<Rightarrow> platform_serial sources)
      else platform_serial sources)"

text \<open>
  What a start finds: the sources, what a build without TPM support refuses, the memory available, and how
  the write of the cache ends.
\<close>

record start_env =
  ev_unreadable :: "string option"
  ev_sources :: "board_source list"
  ev_memory :: u64
  ev_write :: "string option"

definition establish :: "primitives \<Rightarrow> hex \<Rightarrow> start_env \<Rightarrow> cache_read \<Rightarrow> (identity_error + identity) \<times> cache_read" where
  "establish c h env disk =
     (case ev_unreadable env of
        Some detail \<Rightarrow> (Inl (UnreadableSource detail), disk)
      | None \<Rightarrow>
     (case platform_serial (ev_sources env) of
        Inl e \<Rightarrow> (Inl e, disk)
      | Inr serial \<Rightarrow>
     (case strongest_present (ev_sources env) of
        Inl e \<Rightarrow> (Inl (OfBoardId e), disk)
      | Inr strongest \<Rightarrow>
     (case read_cache h disk of
        Inl e \<Rightarrow> (Inl e, disk)
      | Inr cached \<Rightarrow>
     (case evaluate_cache (map_option fst cached) serial strongest of
        Fresh \<Rightarrow>
          (case cached of
             Some (state, root) \<Rightarrow>
               (Inr \<lparr>id_keys = root_device_keys c root, id_kind = cs_kind state, id_derived = False\<rparr>, disk)
           | None \<Rightarrow> (Inl (OfCache ''a fresh cache was read''), disk))
      | QrDead \<Rightarrow> (Inl (QrDeadError (map_option (\<lambda>(state, _). cs_kind state) cached) strongest), disk)
      | Rederive \<Rightarrow>
          (case board_select (ev_sources env) of
             Inl e \<Rightarrow> (Inl (OfBoardId e), disk)
           | Inr board \<Rightarrow>
          (case check_memory (ev_memory env) of
             Inl e \<Rightarrow> (Inl (OfKey e), disk)
           | Inr _ \<Rightarrow>
          (case derive_root c board of
             Inl e \<Rightarrow> (Inl (OfKey e), disk)
           | Inr root \<Rightarrow>
          (case write_cache h (ev_write env) board serial root disk of
             (Some e, disk) \<Rightarrow> (Inl e, disk)
           | (None, disk) \<Rightarrow>
               (Inr \<lparr>id_keys = root_device_keys c root, id_kind = bi_kind board, id_derived = True\<rparr>, disk))))))))))"

text \<open>In provisioning mode: no cache, and only a source of the kind expected.\<close>

record qr_payload =
  qp_version :: u8
  qp_presence_token :: bytes
  qp_fingerprint :: bytes

definition qr_payload_new :: "bytes \<Rightarrow> bytes \<Rightarrow> qr_payload" where
  "qr_payload_new token fingerprint =
     \<lparr>qp_version = PAYLOAD_VERSION, qp_presence_token = token, qp_fingerprint = fingerprint\<rparr>"

definition provisioning_payload ::
  "primitives \<Rightarrow> source_kind \<Rightarrow> board_source list \<Rightarrow> u64 \<Rightarrow> (board_id \<Rightarrow> key_error + bytes)
    \<Rightarrow> identity_error + qr_payload" where
  "provisioning_payload c expected sources memory derive =
     (case strongest_present sources of
        Inl e \<Rightarrow> Inl (OfBoardId e)
      | Inr strongest \<Rightarrow>
          if strongest \<noteq> Some expected then Inl (WrongSource expected strongest)
          else (case check_memory memory of
                  Inl e \<Rightarrow> Inl (OfKey e)
                | Inr _ \<Rightarrow>
               (case board_select sources of
                  Inl e \<Rightarrow> Inl (OfBoardId e)
                | Inr board \<Rightarrow>
               (case derive board of
                  Inl e \<Rightarrow> Inl (OfKey e)
                | Inr root \<Rightarrow>
                    (let keys = root_device_keys c root
                     in Inr (qr_payload_new (dk_presence_token keys) (device_fingerprint c keys)))))))"

section \<open>A device over its starts\<close>

text \<open>
  The starts of a device, one after another on one disk, each with whatever sources, memory and disk it
  finds.  A cache is written only by a start that derived: \<open>writes c env cached\<close> is what such a start
  leaves.
\<close>

definition writes :: "primitives \<Rightarrow> start_env \<Rightarrow> cache_state \<times> bytes \<Rightarrow> bool" where
  "writes c env cached \<longleftrightarrow>
     (\<exists>serial board root. platform_serial (ev_sources env) = Inr serial \<and> board_select (ev_sources env) = Inr board
        \<and> derive_root c board = Inr root \<and> cached = (\<lparr>cs_kind = bi_kind board, cs_serial = serial\<rparr>, root))"

definition start_next :: "primitives \<Rightarrow> hex \<Rightarrow> cache_read \<Rightarrow> start_env \<Rightarrow> cache_read" where
  "start_next c h disk env = snd (establish c h env disk)"

lemma kind_from_name_name [simp]: "kind_from_name (kind_name kind) = Some kind"
  by (cases kind) (simp_all add: kind_from_name_def SOURCE_KINDS_def)

lemma cache_reads_back:
  assumes "primitives_ok c" "hex_ok h" "derive_root c board = Inr root"
  shows "cache_state_of h (cache_file_of h board serial root) = Some (\<lparr>cs_kind = bi_kind board, cs_serial = serial\<rparr>, root)"
  using assms derived_root_length [OF assms(1,3)]
  by (cases serial) (simp_all add: cache_state_of_def cache_file_of_def hex_ok_def)

lemma evaluate_fresh:
  "evaluate_cache cache serial strongest = Fresh \<longleftrightarrow>
     (\<exists>state. cache = Some state \<and> strongest = Some (cs_kind state) \<and> (serial = None \<or> serial = cs_serial state))"
  by (auto simp: evaluate_cache_def split: option.splits)

text \<open>Every way a start that gives an identity goes.\<close>

lemma establish_cases:
  assumes "establish c h env disk = (Inr i, disk')"
  obtains (fresh) serial state root where "platform_serial (ev_sources env) = Inr serial"
      "strongest_present (ev_sources env) = Inr (Some (cs_kind state))" "read_cache h disk = Inr (Some (state, root))"
      "serial = None \<or> serial = cs_serial state" "disk' = disk"
      "i = \<lparr>id_keys = root_device_keys c root, id_kind = cs_kind state, id_derived = False\<rparr>"
  | (derived) serial board root where "platform_serial (ev_sources env) = Inr serial"
      "board_select (ev_sources env) = Inr board" "derive_root c board = Inr root"
      "disk' = CacheOf (cache_file_of h board serial root)"
      "i = \<lparr>id_keys = root_device_keys c root, id_kind = bi_kind board, id_derived = True\<rparr>"
proof -
  from assms obtain serial strongest cached where e: "platform_serial (ev_sources env) = Inr serial"
      "strongest_present (ev_sources env) = Inr strongest" "read_cache h disk = Inr cached"
    by (auto simp: establish_def split: option.splits sum.splits)
  show thesis
  proof (cases "evaluate_cache (map_option fst cached) serial strongest")
    case Fresh
    then obtain state root where s: "cached = Some (state, root)" "strongest = Some (cs_kind state)"
        "serial = None \<or> serial = cs_serial state"
      by (auto simp: evaluate_fresh)
    with assms e Fresh have "disk' = disk" "i = \<lparr>id_keys = root_device_keys c root, id_kind = cs_kind state, id_derived = False\<rparr>"
      by (simp_all add: establish_def split: option.splits)
    with e s that(1) show thesis by simp
  next
    case QrDead
    with assms e show thesis by (simp add: establish_def split: option.splits)
  next
    case Rederive
    with assms e that(2) show thesis
      by (auto simp: establish_def write_cache_def split: option.splits sum.splits)
  qed
qed

text \<open>A start that ends without an identity leaves the cache as it was.\<close>

lemma establish_failed: "establish c h env disk = (Inl e, disk') \<Longrightarrow> disk' = disk"
  by (auto simp: establish_def write_cache_def split: option.splits sum.splits cache_decision.splits prod.splits)

text \<open>What is read of the cache after some starts was there before them or was written by one of them.\<close>

lemma cache_was_written:
  assumes c: "primitives_ok c" and h: "hex_ok h"
  shows "read_cache h (foldl (start_next c h) disk envs) = Inr (Some cached) \<Longrightarrow>
    read_cache h disk = Inr (Some cached) \<or> (\<exists>env \<in> set envs. writes c env cached)"
proof (induction envs arbitrary: disk)
  case (Cons env envs)
  have "read_cache h disk = Inr (Some cached) \<or> writes c env cached"
    if read: "read_cache h (start_next c h disk env) = Inr (Some cached)"
  proof (cases "fst (establish c h env disk)")
    case (Inl e)
    with establish_failed [of c h env disk e] read show ?thesis by (auto simp: start_next_def prod_eq_iff)
  next
    case (Inr i)
    then have "establish c h env disk = (Inr i, start_next c h disk env)" by (simp add: start_next_def prod_eq_iff)
    then show ?thesis
    proof (cases rule: establish_cases)
      case (derived serial board root)
      with read have "cached = (\<lparr>cs_kind = bi_kind board, cs_serial = serial\<rparr>, root)"
        by (simp add: read_cache_def cache_reads_back [OF c h derived(3)])
      with derived show ?thesis by (auto simp: writes_def)
    qed (use read in simp)
  qed
  with Cons show ?case by auto
qed simp

text \<open>Whose keys a start on a board with a serial gives.\<close>

lemma keys_derived:
  assumes ok: "primitives_ok c" "hex_ok h" and disk: "\<And>cached. read_cache h disk \<noteq> Inr (Some cached)"
    and serial: "platform_serial (ev_sources env) = Inr (Some serial)"
    and start: "establish c h env (foldl (start_next c h) disk envs) = (Inr i, disk')"
  shows "strongest_present (ev_sources env) = Inr (Some (id_kind i))
    \<and> (\<exists>env' board root. (env' \<in> set envs \<or> env' = env) \<and> platform_serial (ev_sources env') = Inr (Some serial)
        \<and> board_select (ev_sources env') = Inr board \<and> bi_kind board = id_kind i
        \<and> derive_root c board = Inr root \<and> id_keys i = root_device_keys c root)"
  using start
proof (cases rule: establish_cases)
  case (fresh serial' state root)
  with cache_was_written [OF ok fresh(3)] disk obtain env' where "env' \<in> set envs" "writes c env' (state, root)" by blast
  with fresh serial show ?thesis by (fastforce simp: writes_def)
next
  case (derived serial' board root)
  with selected_is_strongest [OF derived(2)] serial show ?thesis by fastforce
qed

text \<open>The board ID of a kind and a serial does not change over some starts.\<close>

definition same_board :: "bytes \<Rightarrow> board_id \<Rightarrow> start_env list \<Rightarrow> bool" where
  "same_board serial board envs \<longleftrightarrow>
     list_all (\<lambda>env. platform_serial (ev_sources env) = Inr (Some serial) \<longrightarrow>
       (case board_select (ev_sources env) of Inl e \<Rightarrow> True | Inr b \<Rightarrow> bi_kind b = bi_kind board \<longrightarrow> b = board)) envs"

lemma keys_of_same_board:
  assumes "primitives_ok c" "hex_ok h" "\<And>cached. read_cache h disk \<noteq> Inr (Some cached)"
    and "platform_serial (ev_sources env) = Inr (Some serial)"
    and "establish c h env (foldl (start_next c h) disk envs) = (Inr i, disk')"
    and now: "board_select (ev_sources env) = Inr board" and same: "same_board serial board envs"
  shows "bi_kind board = id_kind i \<and> (\<exists>root. derive_root c board = Inr root \<and> id_keys i = root_device_keys c root)"
proof -
  from keys_derived [OF assms(1-5)] selected_is_strongest [OF now] have kind: "bi_kind board = id_kind i" by simp
  from keys_derived [OF assms(1-5)] obtain env' b root where e: "env' \<in> set envs \<or> env' = env"
      "platform_serial (ev_sources env') = Inr (Some serial)" "board_select (ev_sources env') = Inr b"
      "bi_kind b = id_kind i" "derive_root c b = Inr root" "id_keys i = root_device_keys c root" by blast
  have "b = board"
    using e now same kind by (auto simp: same_board_def list_all_iff)
  with e kind show ?thesis by blast
qed

section \<open>The properties\<close>

text \<open>C13. Whose keys a device presents: over any starts from a disk without a cache, on any boards, with sources
  fitted, removed, replaced and failing and the cache not written where it should be, a start that succeeds on a board
  with a serial presents the keys of a root derived, at this start or at an earlier one on a board of the same
  serial, from the board ID selected there, and the source of that board ID is of the kind that is the
  strongest present now.  So a cache is never used on a board of another serial or under another strongest
  kind; and where no earlier start on the serial selected another board ID of the kind, the keys are those
  derived from the board ID of the board now, whether or not this start derived them.  (The cache compares
  only the serial and the kind, so a source replaced by another of its kind on the same board goes
  unnoticed.)\<close>

theorem keys_are_the_boards:
  fixes envs :: "start_env list"
  assumes "primitives_ok c" and "hex_ok h" and "\<And>cached. read_cache h disk \<noteq> Inr (Some cached)"
    and "platform_serial (ev_sources env) = Inr (Some serial)"
    and "establish c h env (foldl (start_next c h) disk envs) = (Inr i, disk')"
  shows "strongest_present (ev_sources env) = Inr (Some (id_kind i))
    \<and> (\<exists>env' board root. (env' \<in> set envs \<or> env' = env) \<and> platform_serial (ev_sources env') = Inr (Some serial)
        \<and> board_select (ev_sources env') = Inr board \<and> bi_kind board = id_kind i
        \<and> derive_root c board = Inr root \<and> id_keys i = root_device_keys c root)
    \<and> (\<forall>board. board_select (ev_sources env) = Inr board \<and> same_board serial board envs \<longrightarrow>
        (\<exists>root. derive_root c board = Inr root \<and> id_keys i = root_device_keys c root))"
  using keys_derived [OF assms] keys_of_same_board [OF assms] by blast

text \<open>C23. The code a device in provisioning mode gives is the one its clients will find: where the board gives a
  provisioning payload, a device started on that board, after whatever starts, answers to that payload - its
  presence token is the payload's and the fingerprint of its keys is the payload's - as long as no earlier
  start on the serial selected another board ID of the kind.\<close>

theorem provisioned_code_is_the_devices:
  fixes envs :: "start_env list"
  assumes "primitives_ok c" and "hex_ok h" and "\<And>cached. read_cache h disk \<noteq> Inr (Some cached)"
    and "platform_serial (ev_sources env) = Inr (Some serial)"
    and "establish c h env (foldl (start_next c h) disk envs) = (Inr i, disk')"
    and "provisioning_payload c expected (ev_sources env) memory (derive_root c) = Inr payload"
    and "\<And>board. board_select (ev_sources env) = Inr board \<Longrightarrow> same_board serial board envs"
  shows "expected = id_kind i \<and> qp_version payload = 1
    \<and> qp_presence_token payload = dk_presence_token (id_keys i)
    \<and> qp_fingerprint payload = device_fingerprint c (id_keys i)"
proof -
  from assms(6) obtain board root where p: "board_select (ev_sources env) = Inr board"
      "strongest_present (ev_sources env) = Inr (Some expected)" "derive_root c board = Inr root"
      "payload = qr_payload_new (dk_presence_token (root_device_keys c root)) (device_fingerprint c (root_device_keys c root))"
    by (auto simp: provisioning_payload_def Let_def split: sum.splits if_splits)
  from keys_of_same_board [OF assms(1-5) p(1) assms(7) [OF p(1)]] p(3)
  have "bi_kind board = id_kind i" "id_keys i = root_device_keys c root" by auto
  with p selected_is_strongest [OF p(1)] show ?thesis by (simp add: qr_payload_new_def PAYLOAD_VERSION_def)
qed

section \<open>Witnesses\<close>

definition plain_primitives :: primitives where
  "plain_primitives = \<lparr>cr_derive_key = (\<lambda>ctx m. take 32 (m @ replicate 32 0)), cr_derive_xof = (\<lambda>ctx m n. replicate n 0),
     cr_mul_base = (\<lambda>k. take 32 (k @ replicate 32 0)), cr_encapsulation_key = (\<lambda>seed. seed),
     cr_argon_params = (\<lambda>_ _ _ _. None), cr_argon_hash = (\<lambda>_ _ _ pw _. Inr (take 32 (pw @ replicate 32 0)))\<rparr>"

definition plain_hex :: hex where
  "plain_hex = \<lparr>hx_encode = map (\<lambda>b. char_of (unat b)), hx_decode = (\<lambda>s. Some (map (\<lambda>c. of_nat (of_char c)) s))\<rparr>"

lemma plain_ok [simp]: "primitives_ok plain_primitives" "hex_ok plain_hex"
proof -
  show "primitives_ok plain_primitives" by (auto simp: primitives_ok_def plain_primitives_def)
  have "of_nat (of_char (char_of (unat b) :: char) :: nat) = b" for b :: u8
  proof -
    have "unat b < 2 ^ LENGTH(8)" by (rule unsigned_less)
    then show ?thesis by simp
  qed
  then show "hex_ok plain_hex" by (simp add: hex_ok_def plain_hex_def comp_def map_idI)
qed

definition serial_start :: start_env where
  "serial_start = \<lparr>ev_unreadable = None,
     ev_sources = [\<lparr>so_kind = RaspberryPiSerial, so_probe = Inr Present, so_read = Inr [1, 2]\<rparr>],
     ev_memory = ROOT_MEMORY_BYTES, ev_write = None\<rparr>"

lemma serial_started:
  obtains i disk' where "establish plain_primitives plain_hex serial_start
      (foldl (start_next plain_primitives plain_hex) NoCache [serial_start]) = (Inr i, disk')"
    "id_derived i = False"
proof -
  have "isl (fst (establish plain_primitives plain_hex serial_start
       (foldl (start_next plain_primitives plain_hex) NoCache [serial_start]))) = False
     \<and> id_derived (projr (fst (establish plain_primitives plain_hex serial_start
       (foldl (start_next plain_primitives plain_hex) NoCache [serial_start])))) = False"
    by code_simp
  then show thesis
    using that by (metis (no_types, lifting) isl_def prod.exhaust_sel sum.exhaust_sel sum.sel(2))
qed

lemma serial_board:
  "platform_serial (ev_sources serial_start) = Inr (Some [1, 2])"
  "board_select (ev_sources serial_start) = Inr \<lparr>bi_kind = RaspberryPiSerial, bi_bytes = [1, 2]\<rparr>"
  "same_board [1, 2] \<lparr>bi_kind = RaspberryPiSerial, bi_bytes = [1, 2]\<rparr> [serial_start]"
  "read_cache plain_hex NoCache \<noteq> Inr (Some cached)"
proof -
  show serial: "platform_serial (ev_sources serial_start) = Inr (Some [1, 2])" by code_simp
  show board: "board_select (ev_sources serial_start) = Inr \<lparr>bi_kind = RaspberryPiSerial, bi_bytes = [1, 2]\<rparr>" by code_simp
  then show "same_board [1, 2] \<lparr>bi_kind = RaspberryPiSerial, bi_bytes = [1, 2]\<rparr> [serial_start]"
    by (simp add: same_board_def)
  show "read_cache plain_hex NoCache \<noteq> Inr (Some cached)" by (simp add: read_cache_def)
qed

theorem keys_are_the_boards_witness:
  "\<exists>i disk'. establish plain_primitives plain_hex serial_start
       (foldl (start_next plain_primitives plain_hex) NoCache [serial_start]) = (Inr i, disk')
     \<and> id_derived i = False
     \<and> id_keys i = root_device_keys plain_primitives (take 32 ([3, 1, 2] @ replicate 32 0))"
proof -
  obtain i disk' where e: "establish plain_primitives plain_hex serial_start
       (foldl (start_next plain_primitives plain_hex) NoCache [serial_start]) = (Inr i, disk')" "id_derived i = False"
    by (rule serial_started)
  from keys_are_the_boards [OF plain_ok serial_board(4,1) e(1)] serial_board(2,3) obtain root
    where r: "derive_root plain_primitives \<lparr>bi_kind = RaspberryPiSerial, bi_bytes = [1, 2]\<rparr> = Inr root"
      and keys: "id_keys i = root_device_keys plain_primitives root" by blast
  from r have "root = take 32 ([3, 1, 2] @ replicate 32 0)"
    by (simp add: derive_root_def derive_root_with_def plain_primitives_def argon2_password_def)
  with e keys show ?thesis by blast
qed

theorem provisioned_code_is_the_devices_witness:
  "\<exists>i disk' payload. establish plain_primitives plain_hex serial_start
       (foldl (start_next plain_primitives plain_hex) NoCache [serial_start]) = (Inr i, disk')
     \<and> provisioning_payload plain_primitives RaspberryPiSerial (ev_sources serial_start) ROOT_MEMORY_BYTES
         (derive_root plain_primitives) = Inr payload
     \<and> qp_fingerprint payload = device_fingerprint plain_primitives (id_keys i)"
proof -
  obtain i disk' where e: "establish plain_primitives plain_hex serial_start
       (foldl (start_next plain_primitives plain_hex) NoCache [serial_start]) = (Inr i, disk')" "id_derived i = False"
    by (rule serial_started)
  have "isl (provisioning_payload plain_primitives RaspberryPiSerial (ev_sources serial_start) ROOT_MEMORY_BYTES
         (derive_root plain_primitives)) = False" by code_simp
  then obtain payload where p: "provisioning_payload plain_primitives RaspberryPiSerial (ev_sources serial_start)
      ROOT_MEMORY_BYTES (derive_root plain_primitives) = Inr payload" by (metis isl_def sum.exhaust_sel)
  have "same_board [1, 2] board [serial_start]" if "board_select (ev_sources serial_start) = Inr board" for board
    using that serial_board(2,3) by simp
  from provisioned_code_is_the_devices [OF plain_ok serial_board(4,1) e(1) p this] e p show ?thesis by blast
qed

end
