(* ===== verification/Credentials.thy ===== *)
theory Credentials
  imports Identity Envelope
begin

text \<open>
  What carries a device's credentials to a client: the versions, \<open>crates/bliti-core/src/version.rs\<close>, the payload
  of its QR code, \<open>qr.rs\<close>, what it advertises, \<open>advertisement.rs\<close>, and the code its hotspot is joined by,
  \<open>wifi_qr.rs\<close>.  Unpadded base32 is a parameter, with what RFC 4648 says of it.  Drawing a code is not
  modelled.
\<close>

section \<open>Versions\<close>

definition VERSION_MARKER :: u8 where "VERSION_MARKER = 1"

definition MARKERS :: "(u8 \<times> u8) list" where "MARKERS = [(1, 1)]"

definition markers_reading :: "u8 \<Rightarrow> u8 list" where
  "markers_reading payload_version = rev (sort (map fst (filter (\<lambda>(_, reads). reads = payload_version) MARKERS)))"

definition markers_all :: "u8 list" where
  "markers_all = rev (sort (map fst MARKERS))"

definition implements :: "u8 \<Rightarrow> bool" where
  "implements marker \<longleftrightarrow> list_ex (\<lambda>(implemented, _). implemented = marker) MARKERS"

definition reads_payload :: "u8 \<Rightarrow> bool" where
  "reads_payload payload_version \<longleftrightarrow> markers_reading payload_version \<noteq> []"

section \<open>Base32\<close>

record base32 =
  b32_encode :: "bytes \<Rightarrow> string"
  b32_decode :: "string \<Rightarrow> bytes option"

definition base32_char :: "char \<Rightarrow> bool" where
  "base32_char c \<longleftrightarrow> is_ascii_uppercase c \<or> ascii_between 50 55 c"

definition base32_ok :: "base32 \<Rightarrow> bool" where
  "base32_ok b \<longleftrightarrow> (\<forall>bs. b32_decode b (b32_encode b bs) = Some bs \<and> list_all base32_char (b32_encode b bs)
     \<and> length (b32_encode b bs) = (length bs * 8 + 4) div 5)
     \<and> (\<forall>bs cs. length bs mod 5 = 0 \<longrightarrow> b32_encode b (bs @ cs) = b32_encode b bs @ b32_encode b cs)"

section \<open>The QR payload\<close>

definition QR_PREFIX :: string where "QR_PREFIX = ''BLITI:''"

definition QR_PAYLOAD_LEN :: nat where "QR_PAYLOAD_LEN = 1 + PRESENCE_TOKEN_LEN + KEY_FINGERPRINT_LEN"

definition ENCODED_LEN :: nat where "ENCODED_LEN = (QR_PAYLOAD_LEN * 8 + 4) div 5"

definition SUFFIX_LEN :: nat where "SUFFIX_LEN = 4"

datatype qr_error = Malformed | UnsupportedVersion u8

definition qr_to_bytes :: "qr_payload \<Rightarrow> bytes" where
  "qr_to_bytes p = qp_version p # qp_presence_token p @ qp_fingerprint p"

definition qr_encoded :: "base32 \<Rightarrow> qr_payload \<Rightarrow> string" where
  "qr_encoded b p = b32_encode b (qr_to_bytes p)"

definition qr_suffix :: "base32 \<Rightarrow> qr_payload \<Rightarrow> string" where
  "qr_suffix b p = (let encoded = qr_encoded b p in drop (length encoded - SUFFIX_LEN) encoded)"

definition qr_to_text :: "base32 \<Rightarrow> qr_payload \<Rightarrow> string" where
  "qr_to_text b p = QR_PREFIX @ qr_encoded b p"

definition qr_from_bytes :: "bytes \<Rightarrow> qr_error + qr_payload" where
  "qr_from_bytes bs =
     (case bs of
        [] \<Rightarrow> Inl Malformed
      | version # rest \<Rightarrow>
          if \<not> reads_payload version then Inl (UnsupportedVersion version)
          else if length rest \<noteq> QR_PAYLOAD_LEN - 1 then Inl Malformed
          else Inr \<lparr>qp_version = version, qp_presence_token = take PRESENCE_TOKEN_LEN rest,
                 qp_fingerprint = drop PRESENCE_TOKEN_LEN rest\<rparr>)"

text \<open>\<open>char::is_whitespace\<close> of the characters a string here holds.\<close>

definition is_whitespace :: "char \<Rightarrow> bool" where
  "is_whitespace c \<longleftrightarrow> ascii_between 9 13 c \<or> of_char c \<in> {32, 0x85, 0xA0 :: nat}"

definition after_colon :: "string \<Rightarrow> string" where
  "after_colon t = rev (takeWhile (\<lambda>c. c \<noteq> CHR '':'') (rev t))"

definition qr_char :: "char \<Rightarrow> char" where
  "qr_char c =
     (let c = ascii_upper c in
      if c = CHR ''0'' then CHR ''O'' else if c = CHR ''1'' then CHR ''I'' else if c = CHR ''8'' then CHR ''B'' else c)"

definition qr_read :: "base32 \<Rightarrow> string \<Rightarrow> qr_error + qr_payload" where
  "qr_read b t =
     (let payload = after_colon t;
          cleaned = map qr_char (filter (\<lambda>c. \<not> is_whitespace c \<and> c \<noteq> CHR ''-'') payload)
      in case b32_decode b cleaned of
           None \<Rightarrow> Inl Malformed
         | Some bs \<Rightarrow> qr_from_bytes bs)"

section \<open>Advertisements\<close>

definition ADVERTISING_BUDGET :: nat where "ADVERTISING_BUDGET = 31"
definition AD_PAYLOAD_LEN :: nat where "AD_PAYLOAD_LEN = 1 + HANDLE_LEN"
definition LOCAL_NAME_LEN :: nat where "LOCAL_NAME_LEN = (AD_PAYLOAD_LEN * 8 + 4) div 5"

record advertised =
  ad_version :: u8
  ad_handle :: bytes

definition advertised_at :: "primitives \<Rightarrow> u8 \<Rightarrow> bytes \<Rightarrow> advertised" where
  "advertised_at c version token = \<lparr>ad_version = version, ad_handle = advertised_handle c token\<rparr>"

definition advertised_new :: "primitives \<Rightarrow> bytes \<Rightarrow> advertised" where
  "advertised_new c token = advertised_at c VERSION_MARKER token"

definition ad_to_bytes :: "advertised \<Rightarrow> bytes" where
  "ad_to_bytes a = ad_version a # ad_handle a"

definition to_local_name :: "base32 \<Rightarrow> advertised \<Rightarrow> string" where
  "to_local_name b a = b32_encode b (ad_to_bytes a)"

definition ad_from_bytes :: "bytes \<Rightarrow> advertised option" where
  "ad_from_bytes bs =
     (if length bs \<noteq> AD_PAYLOAD_LEN then None else Some \<lparr>ad_version = bs ! 0, ad_handle = drop 1 bs\<rparr>)"

definition from_local_name :: "base32 \<Rightarrow> string \<Rightarrow> advertised option" where
  "from_local_name b name =
     (if length name \<noteq> LOCAL_NAME_LEN then None else Option.bind (b32_decode b name) ad_from_bytes)"

definition ad_matches :: "primitives \<Rightarrow> advertised \<Rightarrow> bytes \<Rightarrow> bool" where
  "ad_matches c a token \<longleftrightarrow> advertised_handle c token = ad_handle a"

datatype heard = Matches | Other | Unsupported u8

definition heard_by :: "primitives \<Rightarrow> advertised \<Rightarrow> qr_payload \<Rightarrow> heard" where
  "heard_by c a code =
     (if \<not> implements (ad_version a) then Unsupported (ad_version a)
      else if list_ex (\<lambda>marker. marker = ad_version a) (markers_reading (qp_version code))
              \<and> ad_matches c a (qp_presence_token code) then Matches
      else Other)"

definition local_names :: "primitives \<Rightarrow> base32 \<Rightarrow> qr_payload \<Rightarrow> string list" where
  "local_names c b code =
     map (\<lambda>marker. to_local_name b (advertised_at c marker (qp_presence_token code))) (markers_reading (qp_version code))"

section \<open>Joining the hotspot\<close>

definition wifi_escape :: "string \<Rightarrow> string" where
  "wifi_escape v = concat (map (\<lambda>c. if c \<in> set [CHR 0x5C, CHR '';'', CHR '','', CHR 0x22, CHR '':''] then [CHR 0x5C, c] else [c]) v)"

definition wifi_uri :: "string \<Rightarrow> string \<Rightarrow> string" where
  "wifi_uri ssid passphrase = ''WIFI:T:WPA;S:'' @ wifi_escape ssid @ '';P:'' @ wifi_escape passphrase @ '';;''"

section \<open>Lemmas\<close>

lemma versions_read [simp]: "reads_payload v \<longleftrightarrow> v = 1" "implements v \<longleftrightarrow> v = 1" "markers_reading 1 = [1]"
  by (auto simp: reads_payload_def implements_def markers_reading_def MARKERS_def)

definition qr_payload_ok :: "qr_payload \<Rightarrow> bool" where
  "qr_payload_ok p \<longleftrightarrow> reads_payload (qp_version p) \<and> length (qp_presence_token p) = PRESENCE_TOKEN_LEN
     \<and> length (qp_fingerprint p) = KEY_FINGERPRINT_LEN"

lemma qr_bytes_read: "qr_payload_ok p \<Longrightarrow> qr_from_bytes (qr_to_bytes p) = Inr p"
  by (cases p) (simp add: qr_payload_ok_def qr_from_bytes_def qr_to_bytes_def QR_PAYLOAD_LEN_def)

lemma qr_from_bytes_ok: "qr_from_bytes bs = Inr p \<Longrightarrow> qr_payload_ok p \<and> qr_to_bytes p = bs"
  by (auto simp: qr_from_bytes_def qr_payload_ok_def qr_to_bytes_def QR_PAYLOAD_LEN_def key_lengths
      split: list.splits if_splits)

text \<open>
  What a person may type for an encoded payload: each character in either case, a digit base32 does not use
  for the letter it is mistaken for, and dashes and spaces anywhere.
\<close>

definition typed_char :: "char \<Rightarrow> char \<Rightarrow> bool" where
  "typed_char c e \<longleftrightarrow> c = e \<or> c = ascii_lower e
     \<or> (c, e) \<in> {(CHR ''0'', CHR ''O''), (CHR ''1'', CHR ''I''), (CHR ''8'', CHR ''B'')}"

definition typed_as :: "string \<Rightarrow> string \<Rightarrow> bool" where
  "typed_as t e \<longleftrightarrow> list_all2 typed_char (filter (\<lambda>c. \<not> is_whitespace c \<and> c \<noteq> CHR ''-'') t) e"

definition base32_alphabet :: string where
  "base32_alphabet = ''ABCDEFGHIJKLMNOPQRSTUVWXYZ234567''"

lemma base32_char_in:
  assumes "base32_char e" shows "e \<in> set base32_alphabet"
proof -
  let ?n = "of_char e :: nat"
  have "?n \<in> {65..<91} \<union> {50..<56}"
    using assms by (auto simp: base32_char_def is_ascii_uppercase_def ascii_between_def)
  then have "?n \<in> set ([65..<91] @ [50..<56])" by (simp only: set_append set_upt)
  then have "e \<in> char_of ` set ([65..<91] @ [50..<56])" by (metis char_of_char imageI)
  also have "char_of ` set ([65..<91] @ [50..<56] :: nat list) = set (map char_of ([65..<91] @ [50..<56] :: nat list))" by (simp only: set_map)
  also have "map char_of ([65..<91] @ [50..<56] :: nat list) = base32_alphabet" by code_simp
  finally show ?thesis .
qed

lemma alphabet_read: "list_all (\<lambda>e. qr_char e = e \<and> qr_char (ascii_lower e) = e) base32_alphabet"
  by code_simp

lemma typed_char_read:
  assumes "typed_char c e" and "base32_char e" shows "qr_char c = e"
  using assms(1) base32_char_in [OF assms(2)] alphabet_read
  by (auto simp: typed_char_def list_all_iff) code_simp+

lemma typed_read: "typed_as t e \<Longrightarrow> list_all base32_char e \<Longrightarrow>
    map qr_char (filter (\<lambda>c. \<not> is_whitespace c \<and> c \<noteq> CHR ''-'') t) = e"
  unfolding typed_as_def
  by (induction rule: list_all2_induct) (simp_all add: typed_char_read)

lemma after_colon_prefix: "CHR '':'' \<notin> set t \<Longrightarrow> after_colon t = t \<and> after_colon (pre @ CHR '':'' # t) = t"
proof -
  assume "CHR '':'' \<notin> set t"
  then have "\<forall>c \<in> set (rev t). c \<noteq> CHR '':''" by auto
  then have "takeWhile (\<lambda>c. c \<noteq> CHR '':'') (rev t) = rev t"
    by (simp only: takeWhile_eq_all_conv)
  moreover from \<open>\<forall>c \<in> set (rev t). c \<noteq> CHR '':''\<close>
  have "takeWhile (\<lambda>c. c \<noteq> CHR '':'') (rev t @ CHR '':'' # rev pre) = rev t"
    by (subst takeWhile_append2) auto
  ultimately
  show ?thesis
    by (simp only: after_colon_def rev_append rev.simps append_assoc append_Cons append_Nil rev_rev_ident simp_thms)
qed

text \<open>The last characters of the encoded payload come of its last five bytes.\<close>

lemma encoded_split:
  assumes "base32_ok b" and "qr_payload_ok p"
  shows "\<exists>front. qr_encoded b p = front @ b32_encode b (drop 13 (qp_fingerprint p)) \<and>
    length (b32_encode b (drop 13 (qp_fingerprint p))) = 8"
proof -
  let ?front = "qp_version p # qp_presence_token p @ take 13 (qp_fingerprint p)"
  have "qr_to_bytes p = ?front @ drop 13 (qp_fingerprint p)" by (simp add: qr_to_bytes_def)
  then have "qr_encoded b p = b32_encode b (?front @ drop 13 (qp_fingerprint p))"
    by (simp only: qr_encoded_def)
  also have "\<dots> = b32_encode b ?front @ b32_encode b (drop 13 (qp_fingerprint p))"
  proof -
    have front: "length ?front mod 5 = 0" using assms(2) by (simp add: qr_payload_ok_def key_lengths)
    from assms(1) have c: "length bs mod 5 = 0 \<Longrightarrow> b32_encode b (bs @ cs) = b32_encode b bs @ b32_encode b cs" for bs cs
      by (simp add: base32_ok_def)
    show ?thesis by (rule c [OF front])
  qed
  finally have "qr_encoded b p = b32_encode b ?front @ b32_encode b (drop 13 (qp_fingerprint p))" .
  moreover have "length (b32_encode b (drop 13 (qp_fingerprint p))) = 8"
    using assms by (simp add: base32_ok_def qr_payload_ok_def key_lengths)
  ultimately show ?thesis by blast
qed

section \<open>The properties\<close>

text \<open>C21. A printed code is read however it is typed: after anything up to a colon or with no prefix at all, in
  either case, with 0, 1 and 8 for the letters they are mistaken for, and with dashes and spaces
  anywhere, the payload read is the one printed.\<close>

theorem code_is_read_as_typed:
  assumes "base32_ok b" and "qr_payload_ok p" and "typed_as t (qr_encoded b p)" and "CHR '':'' \<notin> set t"
  shows "qr_read b (pre @ CHR '':'' # t) = Inr p \<and> qr_read b t = Inr p"
proof -
  have e: "list_all base32_char (qr_encoded b p)" "b32_decode b (qr_encoded b p) = Some (qr_to_bytes p)"
    using assms(1) by (simp_all add: base32_ok_def qr_encoded_def)
  show ?thesis
    by (simp add: qr_read_def after_colon_prefix [OF assms(4)] typed_read [OF assms(3) e(1)] e(2)
        qr_bytes_read [OF assms(2)])
qed

text \<open>The characters that name a device say nothing of its credentials: two payloads with the same key
  fingerprint have the same suffix, whatever their presence tokens.\<close>

lemma suffix_says_nothing_of_the_token:
  assumes "base32_ok b" and "qr_payload_ok p" and "qr_payload_ok q" and "qp_fingerprint p = qp_fingerprint q"
  shows "qr_suffix b p = qr_suffix b q"
  using encoded_split [OF assms(1,2)] encoded_split [OF assms(1,3)] assms(4)
  by (auto simp: qr_suffix_def SUFFIX_LEN_def Let_def)

text \<open>C25. A client finds the device whose code it read and no other: what a device advertises is among the names
  the client computes from the code printed for that device, is read back from the name, and is taken
  for the code's device; what is advertised for a token with another handle is not.\<close>

theorem client_finds_its_device:
  fixes token fingerprint :: bytes
  assumes "primitives_ok c" and "base32_ok b"
  defines "code \<equiv> qr_payload_new token fingerprint"
  shows "to_local_name b (advertised_new c token) \<in> set (local_names c b code)
    \<and> from_local_name b (to_local_name b (advertised_new c token)) = Some (advertised_new c token)
    \<and> heard_by c (advertised_new c token) code = Matches
    \<and> (heard_by c (advertised_new c other) code = Matches \<longleftrightarrow> advertised_handle c other = advertised_handle c token)"
proof -
  have "length (ad_to_bytes (advertised_new c token)) = AD_PAYLOAD_LEN"
    by (simp add: ad_to_bytes_def advertised_new_def advertised_at_def AD_PAYLOAD_LEN_def device_keys_lengths [OF assms(1)])
  then have "from_local_name b (to_local_name b (advertised_new c token)) = Some (advertised_new c token)"
    using assms(2)
    by (simp add: from_local_name_def to_local_name_def base32_ok_def LOCAL_NAME_LEN_def ad_from_bytes_def
        ad_to_bytes_def)
  then show ?thesis
    by (auto simp: code_def qr_payload_new_def PAYLOAD_VERSION_def local_names_def advertised_new_def VERSION_MARKER_def
        heard_by_def advertised_at_def ad_matches_def)
qed

text \<open>How a phone reads the code of a hotspot: a backslash takes the character after it as it is.\<close>

fun wifi_field :: "string \<Rightarrow> string \<times> string" where
  "wifi_field [] = ([], [])"
| "wifi_field [c] = (if c = CHR '';'' then ([], []) else ([c], []))"
| "wifi_field (c # d # rest) =
     (if c = CHR '';'' then ([], d # rest)
      else if c = CHR 0x5C then (let (v, rest) = wifi_field rest in (d # v, rest))
      else (let (v, rest) = wifi_field (d # rest) in (c # v, rest)))"

definition wifi_scan :: "string \<Rightarrow> (string \<times> string) option" where
  "wifi_scan uri =
     (if take 13 uri = ''WIFI:T:WPA;S:''
      then let (ssid, rest) = wifi_field (drop 13 uri)
           in if take 2 rest = ''P:'' then Some (ssid, fst (wifi_field (drop 2 rest))) else None
      else None)"

lemma wifi_field_escaped: "wifi_field (wifi_escape v @ CHR '';'' # c # rest) = (v, c # rest)"
proof (induction v)
  case (Cons x v)
  have n: "wifi_escape v @ CHR '';'' # c # rest \<noteq> []" by simp
  then obtain d ds where d: "wifi_escape v @ CHR '';'' # c # rest = d # ds" by (cases "wifi_escape v") auto
  from Cons d show ?case by (auto simp: wifi_escape_def)
qed (simp add: wifi_escape_def)

text \<open>A phone that scans the hotspot's code joins the hotspot: whatever characters its name and passphrase
  hold, both are read back from the code as they are.\<close>

lemma hotspot_code_reads_back: "wifi_scan (wifi_uri ssid passphrase) = Some (ssid, passphrase)"
proof -
  have "wifi_field (wifi_escape ssid @ '';P:'' @ wifi_escape passphrase @ '';;'') = (ssid, ''P:'' @ wifi_escape passphrase @ '';;'')"
    using wifi_field_escaped [of ssid] by simp
  then show ?thesis
    using wifi_field_escaped [of passphrase "CHR '';''" "[]"] by (simp add: wifi_scan_def wifi_uri_def)
qed

section \<open>Witnesses\<close>

text \<open>Base32 as RFC 4648 has it: five bits to a character, the last padded with zeros.\<close>

definition byte_bits :: "u8 \<Rightarrow> bool list" where
  "byte_bits w = map (\<lambda>i. bit w (7 - i)) [0..<8]"

fun bits_value :: "bool list \<Rightarrow> int" where
  "bits_value [] = 0"
| "bits_value (x # xs) = (if x then 2 ^ length xs else 0) + bits_value xs"

function (sequential) five_groups :: "bool list \<Rightarrow> bool list list" where
  "five_groups [] = []"
| "five_groups xs = take 5 (xs @ replicate 4 False) # five_groups (drop 5 xs)"
  by pat_completeness auto
termination by (relation "measure length") auto

definition group_char :: "bool list \<Rightarrow> char" where
  "group_char g = char_of (if bits_value g < 26 then 65 + bits_value g else 24 + bits_value g)"

definition five_bits :: "int \<Rightarrow> bool list" where
  "five_bits n = map (\<lambda>i. bit n (4 - i)) [0..<5]"

definition char_group :: "char \<Rightarrow> bool list option" where
  "char_group c = (let n = of_char c :: int in
     if 65 \<le> n \<and> n < 91 then Some (five_bits (n - 65)) else if 50 \<le> n \<and> n < 56 then Some (five_bits (n - 24)) else None)"

function to_bytes :: "bool list \<Rightarrow> bytes" where
  "to_bytes xs = (if length xs < 8 then [] else of_int (bits_value (take 8 xs)) # to_bytes (drop 8 xs))"
  by pat_completeness auto
termination by (relation "measure length") auto

definition rfc4648 :: base32 where
  "rfc4648 = \<lparr>b32_encode = (\<lambda>bs. map group_char (five_groups (concat (map byte_bits bs)))),
     b32_decode = (\<lambda>s. map_option (\<lambda>gs. to_bytes (concat gs)) (those (map char_group s)))\<rparr>"

declare five_groups.simps(2) [simp del] to_bytes.simps [simp del]

lemma all_groups:
  "list_all (\<lambda>g. char_group (group_char g) = Some g \<and> base32_char (group_char g)) (List.n_lists 5 [False, True])"
  by code_simp

lemma group_char_back: "length g = 5 \<Longrightarrow> char_group (group_char g) = Some g \<and> base32_char (group_char g)"
  using all_groups unfolding list_all_iff set_n_lists by auto

lemma five_groups_step: "xs \<noteq> [] \<Longrightarrow> five_groups xs = take 5 (xs @ replicate 4 False) # five_groups (drop 5 xs)"
  by (metis five_groups.simps(2) list.exhaust)

lemma five_groups_spec:
  "list_all (\<lambda>g. length g = 5) (five_groups xs) \<and> (\<exists>k < 5. concat (five_groups xs) = xs @ replicate k False)
    \<and> length (five_groups xs) = (length xs + 4) div 5"
proof (induction xs rule: measure_induct_rule [of length])
  case (less xs)
  show ?case
  proof (cases "xs = []")
    case False
    note step = five_groups_step [OF False]
    show ?thesis
    proof (cases "length xs \<le> 5")
      case True
      moreover from False have "0 < length xs" by simp
      ultimately have n: "length xs = 1 \<or> length xs = 2 \<or> length xs = 3 \<or> length xs = 4 \<or> length xs = 5" by linarith
      have "take 5 (xs @ replicate 4 False) = xs @ replicate (5 - length xs) False" using n by auto
      moreover have "five_groups (drop 5 xs) = []" using True by simp
      ultimately have groups: "five_groups xs = [xs @ replicate (5 - length xs) False]" by (simp only: step)
      have "(length xs + 4) div 5 = 1" "5 - length xs < 5" "length (xs @ replicate (5 - length xs) False) = 5"
        using n by auto
      then show ?thesis
        unfolding groups using \<open>xs \<noteq> []\<close> by (intro conjI exI [of _ "5 - length xs"]) (simp_all del: length_append)
    next
      case False
      then obtain k where k: "k < 5" "concat (five_groups (drop 5 xs)) = drop 5 xs @ replicate k False"
        and rest: "list_all (\<lambda>g. length g = 5) (five_groups (drop 5 xs))"
          "length (five_groups (drop 5 xs)) = (length xs - 5 + 4) div 5"
        using less [of "drop 5 xs"] \<open>xs \<noteq> []\<close> by auto
      have "take 5 (xs @ replicate 4 False) = take 5 xs" using False by simp
      moreover have "(length xs - 5 + 4) div 5 + 1 = (length xs + 4) div 5" using False by simp
      moreover have "concat (take 5 xs # five_groups (drop 5 xs)) = xs @ replicate k False"
        by (simp add: k(2))
      ultimately show ?thesis unfolding step using False rest k(1) by (intro conjI exI [of _ k]) auto
    qed
  qed simp
qed

lemma five_groups_append: "length xs mod 5 = 0 \<Longrightarrow> five_groups (xs @ ys) = five_groups xs @ five_groups ys"
proof (induction xs rule: measure_induct_rule [of length])
  case (less xs)
  show ?case
  proof (cases "xs = []")
    case False
    with less.prems have "5 \<le> length xs" by (metis length_0_conv mod_less not_le)
    with less.prems less.IH [of "drop 5 xs"] False show ?thesis
      by (simp add: five_groups_step) (metis le_mod_geq)
  qed simp
qed

lemma length_byte_bits [simp]: "length (byte_bits w) = 8"
  by (simp add: byte_bits_def)

lemma eight: "[0..<8] = [0, 1, 2, 3, 4, 5, 6, 7 :: nat]"
  by code_simp

lemma bits_value_byte: "of_int (bits_value (byte_bits w)) = w"
proof -
  have "of_int (bits_value (byte_bits w)) = (horner_sum of_bool 2 (map (bit w) [0..<8]) :: u8)"
    by (simp add: byte_bits_def eight)
  then show ?thesis by (simp add: horner_sum_bit_eq_take_bit take_bit_word_eq_self)
qed

lemma to_bytes_back: "k < 8 \<Longrightarrow> to_bytes (concat (map byte_bits bs) @ replicate k False) = bs"
  by (induction bs) (simp_all add: to_bytes.simps [of "replicate k False"] to_bytes.simps [of "byte_bits _ @ _"] bits_value_byte)

lemma those_groups: "list_all (\<lambda>g. length g = 5) gs \<Longrightarrow> those (map (char_group \<circ> group_char) gs) = Some gs"
  by (induction gs) (simp_all add: group_char_back)

lemma concat_bits_length: "length (concat (map byte_bits bs)) = 8 * length bs"
  by (induction bs) simp_all

lemma rfc4648_ok [simp]: "base32_ok rfc4648"
proof -
  have "b32_decode rfc4648 (b32_encode rfc4648 bs) = Some bs \<and> list_all base32_char (b32_encode rfc4648 bs)
     \<and> length (b32_encode rfc4648 bs) = (length bs * 8 + 4) div 5" for bs
  proof -
    let ?xs = "concat (map byte_bits bs)"
    obtain k where k: "k < 5" "concat (five_groups ?xs) = ?xs @ replicate k False"
      and g: "list_all (\<lambda>g. length g = 5) (five_groups ?xs)" "length (five_groups ?xs) = (length ?xs + 4) div 5"
      using five_groups_spec [of ?xs] by blast
    from k(1) have "to_bytes (?xs @ replicate k False) = bs" by (intro to_bytes_back) simp
    with k g show ?thesis
      by (simp add: rfc4648_def those_groups list_all_iff group_char_back concat_bits_length mult.commute)
  qed
  then show ?thesis
    by (auto simp: base32_ok_def) (simp add: rfc4648_def five_groups_append concat_bits_length mod_mult_right_eq)
qed

definition some_code :: qr_payload where
  "some_code = qr_payload_new (replicate 16 7) (replicate 18 9)"

lemma some_code_ok [simp]: "qr_payload_ok some_code"
  by (simp add: some_code_def qr_payload_ok_def qr_payload_new_def PAYLOAD_VERSION_def key_lengths)

theorem code_is_read_as_typed_witness:
  "qr_read rfc4648 (''code:'' @ ''aedq08yh-a4dqobyh a4dqobyh a4dqsc1j beeqscij beeqscij beeqscij'') = Inr some_code"
proof -
  have t: "typed_as ''aedq08yh-a4dqobyh a4dqobyh a4dqsc1j beeqscij beeqscij beeqscij'' (qr_encoded rfc4648 some_code)" by code_simp
  show ?thesis
    using code_is_read_as_typed [OF rfc4648_ok some_code_ok t, of "''code''"] by simp
qed

theorem client_finds_its_device_witness:
  "heard_by plain_primitives (advertised_new plain_primitives (replicate 16 5))
     (qr_payload_new (replicate 16 5) (replicate 18 9)) = Matches"
  using client_finds_its_device [OF plain_ok(1) rfc4648_ok, of "replicate 16 5" "replicate 18 9"] by blast

end
