(* ===== verification/Noise.thy ===== *)
theory Noise
  imports Identity Framing
begin

text \<open>
  The handshake and the transport it gives, \<open>crates/bliti-core/src/channel/noise.rs\<close>, and the two ends of it over
  a byte transport, \<open>connect_initiator\<close> and \<open>accept_responder\<close> of \<open>channel/stream.rs\<close>.  The Noise library is a
  parameter: its states are of any type, and what each of its calls answers is a function of them.
\<close>

section \<open>The Noise library\<close>

record ('h, 't) snow =
  sw_initiator :: "bytes \<Rightarrow> string + 'h"
  sw_responder :: "bytes \<Rightarrow> bytes \<Rightarrow> string + 'h"
  sw_write :: "'h \<Rightarrow> bytes \<Rightarrow> (string + bytes) \<times> 'h"
  sw_read :: "'h \<Rightarrow> bytes \<Rightarrow> (string + bytes) \<times> 'h"
  sw_remote_static :: "'h \<Rightarrow> bytes option"
  sw_finished :: "'h \<Rightarrow> bool"
  sw_transport :: "'h \<Rightarrow> string + 't"
  sw_encrypt :: "'t \<Rightarrow> bytes \<Rightarrow> (string + bytes) \<times> 't"
  sw_decrypt :: "'t \<Rightarrow> bytes \<Rightarrow> (string + bytes) \<times> 't"

definition NOISE_PARAMS :: string where "NOISE_PARAMS = ''Noise_NXpsk0_25519_ChaChaPoly_BLAKE2s''"
definition MAX_NOISE_MESSAGE :: nat where "MAX_NOISE_MESSAGE = 65535"
definition TAG_LEN :: nat where "TAG_LEN = 16"
definition MAX_PLAINTEXT :: nat where "MAX_PLAINTEXT = MAX_NOISE_MESSAGE - TAG_LEN"

section \<open>The handshake\<close>

datatype role = Initiator "bytes option" | Responder bytes

record 'h handshake =
  hk_state :: 'h
  hk_role :: role
  hk_refused :: bool

definition failed_handshake :: "string + 'a \<Rightarrow> channel_error + 'a" where
  "failed_handshake r = (case r of Inl err \<Rightarrow> Inl (HandshakeFailed err) | Inr x \<Rightarrow> Inr x)"

definition new_handshake :: "role \<Rightarrow> string + 'h \<Rightarrow> channel_error + 'h handshake" where
  "new_handshake role built =
     (case built of
        Inl err \<Rightarrow> Inl (HandshakeFailed err)
      | Inr state \<Rightarrow> Inr \<lparr>hk_state = state, hk_role = role, hk_refused = False\<rparr>)"

definition handshake_initiator :: "('h, 't) snow \<Rightarrow> bytes \<Rightarrow> bytes \<Rightarrow> channel_error + 'h handshake" where
  "handshake_initiator sw psk fingerprint = new_handshake (Initiator (Some fingerprint)) (sw_initiator sw psk)"

definition handshake_unauthenticated :: "('h, 't) snow \<Rightarrow> bytes \<Rightarrow> channel_error + 'h handshake" where
  "handshake_unauthenticated sw psk = new_handshake (Initiator None) (sw_initiator sw psk)"

definition handshake_responder :: "('h, 't) snow \<Rightarrow> bytes \<Rightarrow> bytes \<Rightarrow> bytes \<Rightarrow> channel_error + 'h handshake" where
  "handshake_responder sw psk static digest = new_handshake (Responder digest) (sw_responder sw psk static)"

definition handshake_write :: "('h, 't) snow \<Rightarrow> 'h handshake \<Rightarrow> (channel_error + bytes) \<times> 'h handshake" where
  "handshake_write sw h =
     (let payload = (case hk_role h of Initiator _ \<Rightarrow> [] | Responder digest \<Rightarrow> digest);
          (r, state) = sw_write sw (hk_state h) payload
      in (failed_handshake r, h\<lparr>hk_state := state\<rparr>))"

definition sent_fingerprint :: "primitives \<Rightarrow> ('h, 't) snow \<Rightarrow> 'h handshake \<Rightarrow> bytes \<Rightarrow> bytes option" where
  "sent_fingerprint c sw h payload =
     (case sw_remote_static sw (hk_state h) of
        None \<Rightarrow> None
      | Some static \<Rightarrow>
          if length static = DEVICE_KEY_LEN \<and> length payload = KEM_KEY_DIGEST_LEN
          then Some (key_fingerprint c static payload) else None)"

definition KEYS_DO_NOT_MATCH :: string where
  "KEYS_DO_NOT_MATCH = ''the device's keys do not match its QR code''"

definition handshake_read ::
  "primitives \<Rightarrow> ('h, 't) snow \<Rightarrow> bytes \<Rightarrow> 'h handshake \<Rightarrow> (channel_error + unit) \<times> 'h handshake" where
  "handshake_read c sw message h =
     (case sw_read sw (hk_state h) message of
        (Inl err, state) \<Rightarrow> (Inl (HandshakeFailed err), h\<lparr>hk_state := state\<rparr>)
      | (Inr payload, state) \<Rightarrow>
          (let h = h\<lparr>hk_state := state\<rparr> in
           case hk_role h of
             Responder _ \<Rightarrow>
               if payload \<noteq> [] then (Inl (HandshakeFailed ''the first message carries a payload''), h) else (Inr (), h)
           | Initiator None \<Rightarrow> (Inr (), h)
           | Initiator (Some fingerprint) \<Rightarrow>
               if sent_fingerprint c sw h payload = Some fingerprint then (Inr (), h)
               else (Inl (HandshakeFailed KEYS_DO_NOT_MATCH), h\<lparr>hk_refused := True\<rparr>)))"

definition handshake_finished :: "('h, 't) snow \<Rightarrow> 'h handshake \<Rightarrow> bool" where
  "handshake_finished sw h \<longleftrightarrow> \<not> hk_refused h \<and> sw_finished sw (hk_state h)"

definition into_transport :: "('h, 't) snow \<Rightarrow> 'h handshake \<Rightarrow> channel_error + 't" where
  "into_transport sw h =
     (if hk_refused h then Inl (HandshakeFailed KEYS_DO_NOT_MATCH)
      else failed_handshake (sw_transport sw (hk_state h)))"

section \<open>The transport\<close>

definition transport_encrypt :: "('h, 't) snow \<Rightarrow> 't \<Rightarrow> bytes \<Rightarrow> (channel_error + bytes) \<times> 't" where
  "transport_encrypt sw t plaintext = (let (r, t) = sw_encrypt sw t plaintext in (failed_handshake r, t))"

definition transport_decrypt :: "('h, 't) snow \<Rightarrow> 't \<Rightarrow> bytes \<Rightarrow> (channel_error + bytes) \<times> 't" where
  "transport_decrypt sw t message = (let (r, t) = sw_decrypt sw t message in (failed_handshake r, t))"

section \<open>The two ends of the handshake\<close>

text \<open>
  Over what a byte transport's reads still have to give and a writer given by its \<open>write_all\<close> and \<open>flush\<close>.
  What an I/O error says is a parameter.
\<close>

definition handshake_send ::
  "(io_error \<Rightarrow> string) \<Rightarrow> (bytes \<Rightarrow> 'w \<Rightarrow> unit io_result \<times> 'w) \<Rightarrow> ('w \<Rightarrow> unit io_result \<times> 'w) \<Rightarrow> bytes \<Rightarrow> 'w
    \<Rightarrow> (channel_error + unit) \<times> 'w" where
  "handshake_send says write_all flush message w =
     (case write_delimited TRANSPORT_PREFIX write_all flush message w of
        (Inl err, w) \<Rightarrow> (Inl (HandshakeFailed (says err)), w)
      | (Inr _, w) \<Rightarrow> (Inr (), w))"

definition handshake_receive :: "(io_error \<Rightarrow> string) \<Rightarrow> rstream \<Rightarrow> (channel_error + bytes) \<times> rstream" where
  "handshake_receive says r =
     (case read_delimited TRANSPORT_PREFIX r of
        (Inl err, r) \<Rightarrow> (Inl (HandshakeFailed (says err)), r)
      | (Inr None, r) \<Rightarrow> (Inl (HandshakeFailed ''peer closed during handshake''), r)
      | (Inr (Some message), r) \<Rightarrow> (Inr message, r))"

definition initiate ::
  "primitives \<Rightarrow> ('h, 't) snow \<Rightarrow> (io_error \<Rightarrow> string) \<Rightarrow> (bytes \<Rightarrow> 'w \<Rightarrow> unit io_result \<times> 'w) \<Rightarrow> ('w \<Rightarrow> unit io_result \<times> 'w)
    \<Rightarrow> rstream \<Rightarrow> 'w \<Rightarrow> 'h handshake \<Rightarrow> (channel_error + 't) \<times> rstream \<times> 'w" where
  "initiate c sw says write_all flush r w h =
     (case handshake_write sw h of
        (Inl e, h) \<Rightarrow> (Inl e, r, w)
      | (Inr msg1, h) \<Rightarrow>
     (case handshake_send says write_all flush msg1 w of
        (Inl e, w) \<Rightarrow> (Inl e, r, w)
      | (Inr _, w) \<Rightarrow>
     (case handshake_receive says r of
        (Inl e, r) \<Rightarrow> (Inl e, r, w)
      | (Inr msg2, r) \<Rightarrow>
     (case handshake_read c sw msg2 h of
        (Inl e, h) \<Rightarrow> (Inl e, r, w)
      | (Inr _, h) \<Rightarrow> (into_transport sw h, r, w)))))"

definition connect_initiator ::
  "primitives \<Rightarrow> ('h, 't) snow \<Rightarrow> (io_error \<Rightarrow> string) \<Rightarrow> (bytes \<Rightarrow> 'w \<Rightarrow> unit io_result \<times> 'w) \<Rightarrow> ('w \<Rightarrow> unit io_result \<times> 'w)
    \<Rightarrow> rstream \<Rightarrow> 'w \<Rightarrow> bytes \<Rightarrow> bytes \<Rightarrow> (channel_error + 't) \<times> rstream \<times> 'w" where
  "connect_initiator c sw says write_all flush r w psk fingerprint =
     (case handshake_initiator sw psk fingerprint of
        Inl e \<Rightarrow> (Inl e, r, w)
      | Inr h \<Rightarrow> initiate c sw says write_all flush r w h)"

definition connect_unauthenticated ::
  "primitives \<Rightarrow> ('h, 't) snow \<Rightarrow> (io_error \<Rightarrow> string) \<Rightarrow> (bytes \<Rightarrow> 'w \<Rightarrow> unit io_result \<times> 'w) \<Rightarrow> ('w \<Rightarrow> unit io_result \<times> 'w)
    \<Rightarrow> rstream \<Rightarrow> 'w \<Rightarrow> bytes \<Rightarrow> (channel_error + 't) \<times> rstream \<times> 'w" where
  "connect_unauthenticated c sw says write_all flush r w psk =
     (case handshake_unauthenticated sw psk of
        Inl e \<Rightarrow> (Inl e, r, w)
      | Inr h \<Rightarrow> initiate c sw says write_all flush r w h)"

text \<open>The device reads the first message before it writes the second.\<close>

definition accept_responder ::
  "primitives \<Rightarrow> ('h, 't) snow \<Rightarrow> (io_error \<Rightarrow> string) \<Rightarrow> (bytes \<Rightarrow> 'w \<Rightarrow> unit io_result \<times> 'w) \<Rightarrow> ('w \<Rightarrow> unit io_result \<times> 'w)
    \<Rightarrow> rstream \<Rightarrow> 'w \<Rightarrow> device_keys \<Rightarrow> (channel_error + 't) \<times> rstream \<times> 'w" where
  "accept_responder c sw says write_all flush r w keys =
     (case handshake_responder sw (dk_pre_shared_key keys) (dk_static_key keys) (dk_kem_key_digest keys) of
        Inl e \<Rightarrow> (Inl e, r, w)
      | Inr h \<Rightarrow>
     (case handshake_receive says r of
        (Inl e, r) \<Rightarrow> (Inl e, r, w)
      | (Inr msg1, r) \<Rightarrow>
     (case handshake_read c sw msg1 h of
        (Inl e, h) \<Rightarrow> (Inl e, r, w)
      | (Inr _, h) \<Rightarrow>
     (case handshake_write sw h of
        (Inl e, h) \<Rightarrow> (Inl e, r, w)
      | (Inr msg2, h) \<Rightarrow>
     (case handshake_send says write_all flush msg2 w of
        (Inl e, w) \<Rightarrow> (Inl e, r, w)
      | (Inr _, w) \<Rightarrow> (into_transport sw h, r, w))))))"

section \<open>What the Noise pattern promises\<close>

text \<open>
  Two ends with one pre-shared key complete \<open>NXpsk0\<close>: the initiator's message is read as carrying nothing, the
  responder's as carrying its payload and its static key, and the transports they give are a pair.  Each
  message fits a transport prefix.
\<close>

definition nx_completes ::
  "('h, 't) snow \<Rightarrow> (bytes \<Rightarrow> bytes) \<Rightarrow> ('t \<Rightarrow> 't \<Rightarrow> bool) \<Rightarrow> bytes \<Rightarrow> bytes \<Rightarrow> bytes \<Rightarrow> bool" where
  "nx_completes sw public paired psk static payload \<longleftrightarrow>
     (\<exists>hi hr m1 hi1 hr1 m2 hr2 hi2 ti tr.
        sw_initiator sw psk = Inr hi \<and> sw_responder sw psk static = Inr hr
        \<and> sw_write sw hi [] = (Inr m1, hi1) \<and> length m1 \<le> MAX_NOISE_MESSAGE \<and> sw_read sw hr m1 = (Inr [], hr1)
        \<and> sw_write sw hr1 payload = (Inr m2, hr2) \<and> length m2 \<le> MAX_NOISE_MESSAGE \<and> sw_read sw hi1 m2 = (Inr payload, hi2)
        \<and> sw_remote_static sw hi2 = Some (public static)
        \<and> sw_transport sw hi2 = Inr ti \<and> sw_transport sw hr2 = Inr tr \<and> paired ti tr)"

lemma noise_message_fits: "length m \<le> MAX_NOISE_MESSAGE \<Longrightarrow> fits TRANSPORT_PREFIX m"
  by (simp add: fits_def MAX_NOISE_MESSAGE_def TRANSPORT_PREFIX_def)

lemma handshake_sent:
  "length m \<le> MAX_NOISE_MESSAGE \<Longrightarrow>
     handshake_send says log_write log_flush m w = (Inr (), w @ delimited TRANSPORT_PREFIX m)"
proof -
  assume m: "length m \<le> MAX_NOISE_MESSAGE"
  then have "length m < 2 ^ 64" by (simp add: MAX_NOISE_MESSAGE_def)
  then show ?thesis
    using write_delimited_log [OF usable_widths(1)] noise_message_fits [OF m] by (simp add: handshake_send_def)
qed

lemma handshake_received:
  assumes "length m \<le> MAX_NOISE_MESSAGE" and "concat r = delimited TRANSPORT_PREFIX m" and "[] \<notin> set r"
  shows "handshake_receive says r = (Inr m, [])"
proof -
  have p: "0 < TRANSPORT_PREFIX" by (simp add: TRANSPORT_PREFIX_def)
  have split: "split_delimited TRANSPORT_PREFIX (concat r) = Some (m, [])"
    using split_delimited_frame [OF noise_message_fits [OF assms(1)], of "[]"] by (simp add: assms(2))
  have "delimited TRANSPORT_PREFIX m \<noteq> []" by (simp add: delimited_def TRANSPORT_PREFIX_def be_bytes_eval)
  with read_delimited_spec [OF assms(3) p] split assms(2)
  obtain r' where r': "read_delimited TRANSPORT_PREFIX r = (Inr (Some m), r')" "concat r' = []" "[] \<notin> set r'"
    by auto
  then have "r' = []" by (cases r') auto
  with r' show ?thesis by (simp add: handshake_receive_def)
qed

text \<open>A handshake that has refused a device stays refused, whatever is read and written after.\<close>

lemma refused_stays:
  "hk_refused h \<Longrightarrow> hk_refused (snd (handshake_read c sw m h)) \<and> hk_refused (snd (handshake_write sw h))"
  by (auto simp: handshake_read_def handshake_write_def Let_def split: prod.splits sum.splits role.splits option.splits)

lemma refused_is_no_channel: "hk_refused h \<Longrightarrow> \<not> handshake_finished sw h \<and> isl (into_transport sw h)"
  by (simp add: handshake_finished_def into_transport_def)

section \<open>The properties\<close>

text \<open>C7. A client has a channel only with the device whose QR code it read: connecting succeeds only where the
  Noise library read the peer's message as coming from a static key which, with the digest it carried,
  gives the key fingerprint of the code, and the channel is the one that handshake gives.\<close>

theorem client_checks_the_device:
  assumes "connect_initiator c sw says write_all flush r w psk fingerprint = (Inr t, r', w')"
  shows "\<exists>before message state static digest.
    handshake_receive says r = (Inr message, r') \<and> sw_read sw before message = (Inr digest, state)
    \<and> sw_remote_static sw state = Some static \<and> length static = DEVICE_KEY_LEN \<and> length digest = KEM_KEY_DIGEST_LEN
    \<and> key_fingerprint c static digest = fingerprint \<and> sw_transport sw state = Inr t"
proof -
  from assms obtain h h1 msg1 message h2 where h: "handshake_initiator sw psk fingerprint = Inr h"
    "handshake_write sw h = (Inr msg1, h1)" "handshake_receive says r = (Inr message, r')"
    "handshake_read c sw message h1 = (Inr (), h2)" "into_transport sw h2 = Inr t"
    by (auto simp: connect_initiator_def initiate_def split: sum.splits prod.splits)
  have role: "hk_role h1 = Initiator (Some fingerprint)" "\<not> hk_refused h1"
    using h(1,2) by (auto simp: handshake_initiator_def new_handshake_def handshake_write_def Let_def split: sum.splits prod.splits)
  from h(4) role obtain digest state where read: "sw_read sw (hk_state h1) message = (Inr digest, state)"
    "h2 = h1\<lparr>hk_state := state\<rparr>" "sent_fingerprint c sw h2 digest = Some fingerprint"
    by (auto simp: handshake_read_def Let_def split: sum.splits prod.splits if_splits)
  moreover from h(5) read(2) role(2) have "sw_transport sw state = Inr t"
    by (simp add: into_transport_def failed_handshake_def split: sum.splits)
  ultimately show ?thesis
    using h(3) by (auto simp: sent_fingerprint_def split: option.splits if_splits)
qed

text \<open>C20. A client that read a device's code connects to it, and one that read another code is refused: over any
  transport that carries the bytes, however they are cut into reads, both ends of the handshake come to a
  pair of transports with every byte of it read where the fingerprint is the device's; with any other
  fingerprint the client stops on the device's message, with no channel.\<close>

theorem handshake_connects_the_right_ends:
  fixes fingerprint :: bytes
  assumes "primitives_ok c" and "length (dk_kem_key_digest keys) = KEM_KEY_DIGEST_LEN"
    and "nx_completes sw (device_public_key c) paired (dk_pre_shared_key keys) (dk_static_key keys) (dk_kem_key_digest keys)"
  shows "\<exists>wire1 wire2. \<forall>reads1 reads2. concat reads1 = wire1 \<longrightarrow> concat reads2 = wire2
    \<longrightarrow> [] \<notin> set reads1 \<longrightarrow> [] \<notin> set reads2 \<longrightarrow>
    (\<exists>ti tr. accept_responder c sw says log_write log_flush reads1 [] keys = (Inr tr, [], wire2) \<and> paired ti tr
      \<and> connect_initiator c sw says log_write log_flush reads2 [] (dk_pre_shared_key keys) fingerprint
          = (if fingerprint = device_fingerprint c keys then Inr ti else Inl (HandshakeFailed KEYS_DO_NOT_MATCH),
             [], wire1))"
proof -
  from assms(3) obtain hi hr m1 hi1 hr1 m2 hr2 hi2 ti tr where
    start: "sw_initiator sw (dk_pre_shared_key keys) = Inr hi" "sw_responder sw (dk_pre_shared_key keys) (dk_static_key keys) = Inr hr"
    and one: "sw_write sw hi [] = (Inr m1, hi1)" "length m1 \<le> MAX_NOISE_MESSAGE" "sw_read sw hr m1 = (Inr [], hr1)"
    and two: "sw_write sw hr1 (dk_kem_key_digest keys) = (Inr m2, hr2)" "length m2 \<le> MAX_NOISE_MESSAGE"
      "sw_read sw hi1 m2 = (Inr (dk_kem_key_digest keys), hi2)"
    and fin: "sw_remote_static sw hi2 = Some (device_public_key c (dk_static_key keys))" "sw_transport sw hi2 = Inr ti"
      "sw_transport sw hr2 = Inr tr" "paired ti tr"
    unfolding nx_completes_def by blast
  have pk: "length (device_public_key c (dk_static_key keys)) = DEVICE_KEY_LEN"
    by (rule device_keys_lengths(6) [OF assms(1)])
  have device: "accept_responder c sw says log_write log_flush reads [] keys = (Inr tr, [], delimited TRANSPORT_PREFIX m2)"
    if "concat reads = delimited TRANSPORT_PREFIX m1" "[] \<notin> set reads" for reads
    by (simp add: accept_responder_def handshake_responder_def new_handshake_def start handshake_received [OF one(2) that]
        handshake_read_def one handshake_write_def two failed_handshake_def handshake_sent into_transport_def fin Let_def)
  have client: "connect_initiator c sw says log_write log_flush reads [] (dk_pre_shared_key keys) fingerprint
      = (if fingerprint = device_fingerprint c keys then Inr ti else Inl (HandshakeFailed KEYS_DO_NOT_MATCH),
         [], delimited TRANSPORT_PREFIX m1)"
    if "concat reads = delimited TRANSPORT_PREFIX m2" "[] \<notin> set reads" for reads
    by (simp add: connect_initiator_def initiate_def handshake_initiator_def new_handshake_def start handshake_write_def
        one failed_handshake_def handshake_sent handshake_received [OF two(2) that] handshake_read_def two
        sent_fingerprint_def fin pk assms(2) device_fingerprint_def into_transport_def Let_def)
  show ?thesis
    by (intro exI [of _ "delimited TRANSPORT_PREFIX m1"] exI [of _ "delimited TRANSPORT_PREFIX m2"] allI impI
        exI [of _ ti] exI [of _ tr] conjI device client fin(4))
qed

section \<open>Witnesses\<close>

text \<open>A library that authenticates nothing, to evaluate the model with.\<close>

record plain_state =
  ps_static :: "bytes option"
  ps_remote :: "bytes option"

definition plain_snow :: "(plain_state, nat) snow" where
  "plain_snow =
     \<lparr>sw_initiator = (\<lambda>_. Inr \<lparr>ps_static = None, ps_remote = None\<rparr>),
      sw_responder = (\<lambda>_ static. Inr \<lparr>ps_static = Some static, ps_remote = None\<rparr>),
      sw_write = (\<lambda>h payload. (Inr ((case ps_static h of None \<Rightarrow> [] | Some k \<Rightarrow> take 32 (k @ replicate 32 0)) @ payload), h)),
      sw_read = (\<lambda>h m. if ps_static h = None then (Inr (drop 32 m), h\<lparr>ps_remote := Some (take 32 m)\<rparr>) else (Inr m, h)),
      sw_remote_static = ps_remote, sw_finished = (\<lambda>_. True), sw_transport = (\<lambda>_. Inr 0),
      sw_encrypt = (\<lambda>n m. (Inr (m @ of_nat n # replicate 15 0), n + 1)),
      sw_decrypt = (\<lambda>n m. if 16 \<le> length m \<and> drop (length m - 16) m = of_nat n # replicate 15 0
         then (Inr (take (length m - 16) m), n + 1) else (Inl ''decrypt error'', n))\<rparr>"

definition plain_keys :: device_keys where
  "plain_keys = root_device_keys plain_primitives (replicate 32 3)"

definition says_nothing :: "io_error \<Rightarrow> string" where
  "says_nothing e = []"

lemma plain_completes:
  "nx_completes plain_snow (device_public_key plain_primitives) (=) psk static (replicate 32 4)"
  by (simp add: nx_completes_def plain_snow_def device_public_key_def plain_primitives_def MAX_NOISE_MESSAGE_def min_def)

theorem client_checks_the_device_witness:
  "\<exists>static digest. key_fingerprint plain_primitives static digest = key_fingerprint plain_primitives (replicate 32 1) (replicate 32 4)"
proof -
  have "connect_initiator plain_primitives plain_snow says_nothing log_write log_flush
      [delimited 2 (replicate 32 1 @ replicate 32 4)] [] [] (key_fingerprint plain_primitives (replicate 32 1) (replicate 32 4))
    = (Inr 0, [], [0, 0])"
    by code_simp
  from client_checks_the_device [OF this] show ?thesis by blast
qed

theorem handshake_connects_the_right_ends_witness:
  "\<exists>wire1 wire2. \<forall>reads1 reads2. concat reads1 = wire1 \<longrightarrow> concat reads2 = wire2
    \<longrightarrow> [] \<notin> set reads1 \<longrightarrow> [] \<notin> set reads2 \<longrightarrow>
    (\<exists>ti tr. accept_responder plain_primitives plain_snow says_nothing log_write log_flush reads1 []
        (plain_keys\<lparr>dk_kem_key_digest := replicate 32 4\<rparr>) = (Inr tr, [], wire2) \<and> ti = tr
      \<and> connect_initiator plain_primitives plain_snow says_nothing log_write log_flush reads2 [] (dk_pre_shared_key plain_keys) [1]
          = (if [1] = device_fingerprint plain_primitives (plain_keys\<lparr>dk_kem_key_digest := replicate 32 4\<rparr>) then Inr ti
             else Inl (HandshakeFailed KEYS_DO_NOT_MATCH), [], wire1))"
  using handshake_connects_the_right_ends [OF plain_ok(1), of "plain_keys\<lparr>dk_kem_key_digest := replicate 32 4\<rparr>" plain_snow "(=)"
      says_nothing "[1]"] plain_completes
  by (simp add: KEM_KEY_DIGEST_LEN_def)

end
