(* ===== verification/Noise_Stream.thy ===== *)
theory Noise_Stream
  imports Noise Transport
begin

text \<open>
  The encrypted byte stream, \<open>NoiseStream\<close> of \<open>crates/bliti-core/src/channel/stream.rs\<close>: each write goes out as one
  framed Noise message, and what is read is the messages that arrive, put back together and decrypted.
  What it sits on is a writer given by its polls and what each poll of its reader answers, in order.  The
  locale \<open>byte_writer\<close> is what a layer promises the one above of its writes; the GATT transport and the
  encrypted stream interpret it.
\<close>

section \<open>Writers\<close>

text \<open>
  A writer takes a prefix of what it is given and says how long, and nothing while it is not ready; one that
  fails may have taken some of it.
\<close>

locale byte_writer =
  fixes poll_write :: "'w \<Rightarrow> bytes \<Rightarrow> nat io_result poll \<times> 'w"
    and taken :: "'w \<Rightarrow> bytes"
  assumes took: "poll_write w b = (Ready (Inr n), w') \<Longrightarrow> n \<le> length b \<and> taken w' = taken w @ take n b"
    and waits: "poll_write w b = (Pending, w') \<Longrightarrow> taken w' = taken w"
    and fails: "poll_write w b = (Ready (Inl e), w') \<Longrightarrow> \<exists>n. taken w' = taken w @ take n b"
begin

text \<open>However a drain ends, what has gone out and what waits are what they were, short only by a failure.\<close>

lemma drain_kept:
  assumes "backlog_poll_drain poll_write b w = (r, b', w')" and "backlog_ok b"
  shows "backlog_ok b' \<and> (\<exists>n. taken w' = taken w @ take n (backlog_waiting b))
    \<and> ((\<forall>e. r \<noteq> Ready (Inl e)) \<longrightarrow> taken w' @ backlog_waiting b' = taken w @ backlog_waiting b)
    \<and> (r = Ready (Inr ()) \<longrightarrow> backlog_waiting b' = [])"
  using assms
proof (induction "length (bl_buf b) - bl_sent b" arbitrary: b w rule: less_induct)
  case less
  show ?case
  proof (cases "bl_sent b < length (bl_buf b)")
    case False
    with less.prems show ?thesis
      by (auto simp: backlog_poll_drain.simps [of poll_write b w] backlog_waiting_def backlog_ok_def intro: exI [of _ 0])
  next
    case True
    let ?rest = "drop (bl_sent b) (bl_buf b)"
    obtain p w1 where pw: "poll_write w ?rest = (p, w1)" by (cases "poll_write w ?rest")
    consider "p = Pending" | e where "p = Ready (Inl e)" | "p = Ready (Inr 0)" | n where "p = Ready (Inr n)" "0 < n"
      by (metis neq0_conv poll.exhaust sum.exhaust)
    then show ?thesis
    proof cases
      case 1
      with pw waits have "taken w1 = taken w" by blast
      with 1 less.prems True pw show ?thesis
        by (auto simp: backlog_poll_drain.simps [of poll_write b w] intro: exI [of _ 0])
    next
      case (2 e)
      with pw fails obtain n where "taken w1 = taken w @ take n ?rest" by blast
      with 2 less.prems True pw show ?thesis
        by (auto simp: backlog_poll_drain.simps [of poll_write b w] backlog_waiting_def)
    next
      case 3
      with pw took have "taken w1 = taken w" by fastforce
      with 3 less.prems True pw show ?thesis
        by (auto simp: backlog_poll_drain.simps [of poll_write b w] intro: exI [of _ 0])
    next
      case (4 n)
      let ?b = "b\<lparr>bl_sent := bl_sent b + n\<rparr>"
      have t: "n \<le> length ?rest" "taken w1 = taken w @ take n ?rest" using took pw 4(1) by blast+
      have run: "backlog_poll_drain poll_write ?b w1 = (r, b', w')"
        using less.prems(1) True pw 4 by (simp add: backlog_poll_drain.simps [of poll_write b w])
      have ok: "backlog_ok ?b" and less': "length (bl_buf ?b) - bl_sent ?b < length (bl_buf b) - bl_sent b"
        using t(1) True 4(2) by (auto simp: backlog_ok_def)
      have wait: "backlog_waiting b = take n ?rest @ backlog_waiting ?b" "length (take n ?rest) = n"
        using t(1) by (simp_all add: backlog_waiting_def add.commute flip: drop_drop)
      from less.hyps [OF less' run ok] obtain k where ih: "backlog_ok b'" "taken w' = taken w1 @ take k (backlog_waiting ?b)"
          "(\<forall>e. r \<noteq> Ready (Inl e)) \<longrightarrow> taken w' @ backlog_waiting b' = taken w1 @ backlog_waiting ?b"
          "r = Ready (Inr ()) \<longrightarrow> backlog_waiting b' = []"
        by blast
      have "taken w' = taken w @ take (n + k) (backlog_waiting b)"
        using ih(2) t(2) wait by (simp add: take_add)
      then have "\<exists>n. taken w' = taken w @ take n (backlog_waiting b)" by blast
      moreover have "taken w1 @ backlog_waiting ?b = taken w @ backlog_waiting b"
        using t(2) wait(1) by simp
      ultimately show ?thesis using ih(1,3,4) by simp
    qed
  qed
qed

end

sublocale byte_sink \<subseteq> byte_writer
proof
  show "poll_write w b = (Ready (Inl e), w') \<Longrightarrow> \<exists>n. taken w' = taken w @ take n b" for w b e w'
    using refused [of w b e w'] by (auto intro: exI [of _ 0])
qed (use wrote pending in blast)+

section \<open>The stream\<close>

definition STREAM_READ_CHUNK :: nat where "STREAM_READ_CHUNK = 8192"

definition to_io :: "channel_error \<Rightarrow> io_error" where
  "to_io err = PeerFault err"

text \<open>\<open>nz_sent\<close> is kept for the statements: the plaintext of every message encrypted.\<close>

record ('w, 't) noise_stream =
  nz_inner :: 'w
  nz_reads :: "bytes io_result poll list"
  nz_transport :: 't
  nz_reassembler :: reassembler
  nz_plain :: bytes
  nz_consumed :: nat
  nz_backlog :: backlog
  nz_sent :: "bytes list"

definition noise_new :: "'w \<Rightarrow> bytes io_result poll list \<Rightarrow> 't \<Rightarrow> ('w, 't) noise_stream" where
  "noise_new inner reads transport =
     \<lparr>nz_inner = inner, nz_reads = reads, nz_transport = transport, nz_reassembler = reasm_new, nz_plain = [],
      nz_consumed = 0, nz_backlog = backlog_new, nz_sent = []\<rparr>"

definition noise_drain ::
  "('w \<Rightarrow> bytes \<Rightarrow> nat io_result poll \<times> 'w) \<Rightarrow> ('w, 't) noise_stream \<Rightarrow> unit io_result poll \<times> ('w, 't) noise_stream" where
  "noise_drain poll_write s =
     (let (r, b, w) = backlog_poll_drain poll_write (nz_backlog s) (nz_inner s)
      in (r, s\<lparr>nz_backlog := b, nz_inner := w\<rparr>))"

definition noise_poll_write ::
  "('w \<Rightarrow> bytes \<Rightarrow> nat io_result poll \<times> 'w) \<Rightarrow> ('h, 't) snow \<Rightarrow> ('w, 't) noise_stream \<Rightarrow> bytes
    \<Rightarrow> nat io_result poll \<times> ('w, 't) noise_stream" where
  "noise_poll_write poll_write sw s buf =
     (if buf = [] then (Ready (Inr 0), s)
      else case noise_drain poll_write s of
        (Pending, s) \<Rightarrow> (Pending, s)
      | (Ready (Inl e), s) \<Rightarrow> (Ready (Inl e), s)
      | (Ready (Inr _), s) \<Rightarrow>
          (let chunk = take (min (length buf) MAX_PLAINTEXT) buf in
           case transport_encrypt sw (nz_transport s) chunk of
             (Inl e, t) \<Rightarrow> (Ready (Inl (to_io e)), s\<lparr>nz_transport := t\<rparr>)
           | (Inr ciphertext, t) \<Rightarrow>
               (let s = s\<lparr>nz_transport := t, nz_sent := nz_sent s @ [chunk]\<rparr> in
                case encode_prefix TRANSPORT_PREFIX (length ciphertext) of
                  Inl e \<Rightarrow> (Ready (Inl e), s)
                | Inr prefix \<Rightarrow>
                    (let s = s\<lparr>nz_backlog := backlog_extend ciphertext (backlog_extend prefix (nz_backlog s))\<rparr> in
                     case noise_drain poll_write s of
                       (Ready (Inl e), s) \<Rightarrow> (Ready (Inl e), s)
                     | (_, s) \<Rightarrow> (Ready (Inr (length chunk)), s)))))"

definition noise_poll_flush ::
  "('w \<Rightarrow> bytes \<Rightarrow> nat io_result poll \<times> 'w) \<Rightarrow> ('w \<Rightarrow> unit io_result poll \<times> 'w) \<Rightarrow> ('w, 't) noise_stream
    \<Rightarrow> unit io_result poll \<times> ('w, 't) noise_stream" where
  "noise_poll_flush poll_write poll_flush s =
     (case noise_drain poll_write s of
        (Ready (Inr _), s) \<Rightarrow> (let (r, w) = poll_flush (nz_inner s) in (r, s\<lparr>nz_inner := w\<rparr>))
      | (r, s) \<Rightarrow> (r, s))"

text \<open>\<open>poll_close\<close> is the same with the writer's own close.\<close>

definition noise_poll_close ::
  "('w \<Rightarrow> bytes \<Rightarrow> nat io_result poll \<times> 'w) \<Rightarrow> ('w \<Rightarrow> unit io_result poll \<times> 'w) \<Rightarrow> ('w, 't) noise_stream
    \<Rightarrow> unit io_result poll \<times> ('w, 't) noise_stream" where
  "noise_poll_close poll_write poll_close s =
     (case noise_drain poll_write s of
        (Ready (Inr _), s) \<Rightarrow> (let (r, w) = poll_close (nz_inner s) in (r, s\<lparr>nz_inner := w\<rparr>))
      | (r, s) \<Rightarrow> (r, s))"

text \<open>\<open>poll_read\<close> into a buffer of \<open>n\<close> bytes, answering with what was put in it.\<close>

function noise_poll_read ::
  "('h, 't) snow \<Rightarrow> nat \<Rightarrow> ('w, 't) noise_stream \<Rightarrow> bytes io_result poll \<times> ('w, 't) noise_stream" where
  "noise_poll_read sw n s =
     (if nz_consumed s < length (nz_plain s)
      then let available = drop (nz_consumed s) (nz_plain s);
               k = min (length available) n;
               consumed = nz_consumed s + k
           in (Ready (Inr (take k available)),
               if consumed = length (nz_plain s) then s\<lparr>nz_plain := [], nz_consumed := 0\<rparr>
               else s\<lparr>nz_consumed := consumed\<rparr>)
      else case reasm_take (nz_reassembler s) of
             Some (message, r) \<Rightarrow>
               (case transport_decrypt sw (nz_transport s) message of
                  (Inl e, t) \<Rightarrow> (Ready (Inl (to_io e)), s\<lparr>nz_reassembler := r, nz_transport := t\<rparr>)
                | (Inr plain, t) \<Rightarrow>
                    noise_poll_read sw n
                      (s\<lparr>nz_reassembler := r, nz_transport := t, nz_plain := plain, nz_consumed := 0\<rparr>))
           | None \<Rightarrow>
               (case nz_reads s of
                  [] \<Rightarrow> (Pending, s)
                | Pending # rest \<Rightarrow> (Pending, s\<lparr>nz_reads := rest\<rparr>)
                | Ready (Inl e) # rest \<Rightarrow> (Ready (Inl e), s\<lparr>nz_reads := rest\<rparr>)
                | Ready (Inr bs) # rest \<Rightarrow>
                    if bs = [] then (Ready (Inr []), s\<lparr>nz_reads := rest\<rparr>)
                    else noise_poll_read sw n
                           (s\<lparr>nz_reads := rest, nz_reassembler := reasm_push bs (nz_reassembler s)\<rparr>)))"
  by pat_completeness auto
termination
  by (relation "measures [\<lambda>(_, _, s). length (nz_reads s), \<lambda>(_, _, s). length (r_buf (nz_reassembler s))]")
    (auto dest: reasm_take_shrinks)

declare noise_poll_read.simps [simp del]

section \<open>What a writer has sent\<close>

text \<open>The ciphertexts of the messages encrypted one after another from a state of the transport.\<close>

fun encrypts :: "('h, 't) snow \<Rightarrow> 't \<Rightarrow> bytes list \<Rightarrow> (bytes list \<times> 't) option" where
  "encrypts sw t [] = Some ([], t)"
| "encrypts sw t (p # ps) =
     (case sw_encrypt sw t p of
        (Inr c, t) \<Rightarrow> map_option (\<lambda>(cs, t). (c # cs, t)) (encrypts sw t ps)
      | (Inl _, t) \<Rightarrow> None)"

lemma encrypts_snoc:
  "encrypts sw t ps = Some (cs, t') \<Longrightarrow> sw_encrypt sw t' p = (Inr c, t'') \<Longrightarrow> encrypts sw t (ps @ [p]) = Some (cs @ [c], t'')"
  by (induction ps arbitrary: t cs) (auto split: prod.splits sum.splits)

text \<open>What the library says of a message's length.\<close>

definition tags :: "('h, 't) snow \<Rightarrow> bool" where
  "tags sw \<longleftrightarrow> (\<forall>t p c t'. sw_encrypt sw t p = (Inr c, t') \<longrightarrow> length c = length p + TAG_LEN)"

definition wire_of :: "bytes list \<Rightarrow> bytes" where
  "wire_of cs = concat (map (delimited TRANSPORT_PREFIX) cs)"

context byte_writer
begin

text \<open>What has gone out and what waits are the frames of every message encrypted.\<close>

definition sent_ok :: "('h, 't) snow \<Rightarrow> 't \<Rightarrow> bytes \<Rightarrow> ('w, 't) noise_stream \<Rightarrow> bool" where
  "sent_ok sw t0 before s \<longleftrightarrow> backlog_ok (nz_backlog s)
     \<and> (\<exists>cs. encrypts sw t0 (nz_sent s) = Some (cs, nz_transport s)
         \<and> taken (nz_inner s) @ backlog_waiting (nz_backlog s) = before @ wire_of cs)"

lemma sent_new: "sent_ok sw t (taken w) (noise_new w reads t)"
  by (simp add: sent_ok_def noise_new_def wire_of_def)

lemma noise_drained:
  assumes "noise_drain poll_write s = (r, s')" and "sent_ok sw t0 before s" and "\<forall>e. r \<noteq> Ready (Inl e)"
  shows "sent_ok sw t0 before s' \<and> nz_sent s' = nz_sent s \<and> nz_transport s' = nz_transport s
    \<and> (r = Ready (Inr ()) \<longrightarrow> backlog_waiting (nz_backlog s') = [])"
  using assms drain_kept [of "nz_backlog s" "nz_inner s"]
  by (cases "backlog_poll_drain poll_write (nz_backlog s) (nz_inner s)")
    (auto simp: noise_drain_def sent_ok_def)

lemma noise_wrote:
  assumes tags: "tags sw" and run: "noise_poll_write poll_write sw s buf = (r, s')" and s: "sent_ok sw t0 before s"
    and r: "\<forall>e. r \<noteq> Ready (Inl e)"
  shows "sent_ok sw t0 before s'"
proof (cases "buf = []")
  case True
  with run s show ?thesis by (simp add: noise_poll_write_def)
next
  case False
  obtain d s1 where d: "noise_drain poll_write s = (d, s1)" by (cases "noise_drain poll_write s")
  show ?thesis
  proof (cases "d = Ready (Inr ())")
    case True
    with noise_drained [OF d s] have s1: "sent_ok sw t0 before s1" "backlog_waiting (nz_backlog s1) = []" by simp_all
    let ?chunk = "take (min (length buf) MAX_PLAINTEXT) buf"
    obtain e t where e: "sw_encrypt sw (nz_transport s1) ?chunk = (e, t)" by (cases "sw_encrypt sw (nz_transport s1) ?chunk")
    with run r d True False obtain c where c: "e = Inr c"
      by (cases e) (auto simp: noise_poll_write_def transport_encrypt_def failed_handshake_def Let_def)
    have "length c = length ?chunk + TAG_LEN" using tags e c unfolding tags_def by blast
    then have len: "length c \<le> MAX_NOISE_MESSAGE" by (simp add: MAX_PLAINTEXT_def MAX_NOISE_MESSAGE_def TAG_LEN_def)
    then have "length c < 2 ^ 64" by (simp add: MAX_NOISE_MESSAGE_def)
    with noise_message_fits [OF len] have prefix: "encode_prefix TRANSPORT_PREFIX (length c) = Inr (be_bytes TRANSPORT_PREFIX (length c))"
      using encode_prefix_eq [OF usable_widths(1)] by (simp add: fits_def)
    let ?s2 = "s1\<lparr>nz_transport := t, nz_sent := nz_sent s1 @ [?chunk],
      nz_backlog := backlog_extend c (backlog_extend (be_bytes TRANSPORT_PREFIX (length c)) (nz_backlog s1))\<rparr>"
    obtain d' s3 where d': "noise_drain poll_write ?s2 = (d', s3)" by (cases "noise_drain poll_write ?s2")
    from s1(1) obtain cs where cs: "encrypts sw t0 (nz_sent s1) = Some (cs, nz_transport s1)"
        "taken (nz_inner s1) @ backlog_waiting (nz_backlog s1) = before @ wire_of cs" "backlog_ok (nz_backlog s1)"
      by (auto simp: sent_ok_def)
    have "sent_ok sw t0 before ?s2"
      using encrypts_snoc [OF cs(1)] e c cs(2,3)
      by (auto simp: sent_ok_def backlog_extend_ok backlog_waiting_extend wire_of_def delimited_def intro!: exI [of _ "cs @ [c]"])
    moreover have "s' = s3 \<and> (\<forall>e. d' \<noteq> Ready (Inl e))"
      using run r d True False e c prefix d'
      by (auto simp: noise_poll_write_def transport_encrypt_def failed_handshake_def Let_def split: poll.splits sum.splits)
    ultimately show ?thesis using noise_drained [OF d'] by blast
  next
    case d': False
    with run r d False have "s' = s1 \<and> (\<forall>e. d \<noteq> Ready (Inl e))"
      by (auto simp: noise_poll_write_def split: poll.splits sum.splits)
    with noise_drained [OF d s] show ?thesis by blast
  qed
qed

end

section \<open>A run of writes and flushes\<close>

datatype noise_op = WriteOp bytes | FlushOp

text \<open>What a run of polls answers: the bytes accepted, or the first error.  A poll that waits accepts nothing.\<close>

fun noise_ops ::
  "('w \<Rightarrow> bytes \<Rightarrow> nat io_result poll \<times> 'w) \<Rightarrow> ('w \<Rightarrow> unit io_result poll \<times> 'w) \<Rightarrow> ('h, 't) snow \<Rightarrow> noise_op list
    \<Rightarrow> ('w, 't) noise_stream \<Rightarrow> bytes io_result \<times> ('w, 't) noise_stream" where
  "noise_ops poll_write poll_flush sw [] s = (Inr [], s)"
| "noise_ops poll_write poll_flush sw (WriteOp buf # ops) s =
     (case noise_poll_write poll_write sw s buf of
        (Ready (Inl e), s) \<Rightarrow> (Inl e, s)
      | (Pending, s) \<Rightarrow> noise_ops poll_write poll_flush sw ops s
      | (Ready (Inr n), s) \<Rightarrow>
          (case noise_ops poll_write poll_flush sw ops s of
             (Inl e, s) \<Rightarrow> (Inl e, s)
           | (Inr bs, s) \<Rightarrow> (Inr (take n buf @ bs), s)))"
| "noise_ops poll_write poll_flush sw (FlushOp # ops) s =
     (case noise_poll_flush poll_write poll_flush s of
        (Ready (Inl e), s) \<Rightarrow> (Inl e, s)
      | (_, s) \<Rightarrow> noise_ops poll_write poll_flush sw ops s)"

lemma noise_drain_sent [simp]: "noise_drain poll_write s = (r, s') \<Longrightarrow> nz_sent s' = nz_sent s"
  by (auto simp: noise_drain_def Let_def split: prod.splits)

lemma noise_write_accepts:
  assumes "noise_poll_write poll_write sw s buf = (r, s')"
  shows "(r = Pending \<longrightarrow> nz_sent s' = nz_sent s)
    \<and> (\<forall>n. r = Ready (Inr n) \<longrightarrow> concat (nz_sent s') = concat (nz_sent s) @ take n buf)"
  using assms
  by (auto simp: noise_poll_write_def Let_def min_def split: if_splits prod.splits poll.splits sum.splits)

lemma poll_result_cases:
  obtains "r = Pending" | e where "r = Ready (Inl e)" | x where "r = Ready (Inr x)"
  by (metis poll.exhaust sum.exhaust)

locale byte_transport = byte_writer poll_write taken
  for poll_write :: "'w \<Rightarrow> bytes \<Rightarrow> nat io_result poll \<times> 'w" and taken :: "'w \<Rightarrow> bytes" +
  fixes poll_flush :: "'w \<Rightarrow> unit io_result poll \<times> 'w"
  assumes flushes: "taken (snd (poll_flush w)) = taken w"
begin

lemma noise_flushed:
  assumes "noise_poll_flush poll_write poll_flush s = (r, s')" and s: "sent_ok sw t0 before s" and r: "\<forall>e. r \<noteq> Ready (Inl e)"
  shows "sent_ok sw t0 before s' \<and> nz_sent s' = nz_sent s \<and> (r = Ready (Inr ()) \<longrightarrow> backlog_waiting (nz_backlog s') = [])"
proof -
  obtain d s1 where d: "noise_drain poll_write s = (d, s1)" by (cases "noise_drain poll_write s")
  obtain f w where f: "poll_flush (nz_inner s1) = (f, w)" by (cases "poll_flush (nz_inner s1)")
  show ?thesis
  proof (cases "d = Ready (Inr ())")
    case True
    with d f assms(1) have "s' = s1\<lparr>nz_inner := w\<rparr>" by (simp add: noise_poll_flush_def)
    with True noise_drained [OF d s] flushes [of "nz_inner s1"] f show ?thesis by (auto simp: sent_ok_def)
  next
    case False
    with d assms(1) have "s' = s1 \<and> r = d" by (auto simp: noise_poll_flush_def split: poll.splits sum.splits)
    with False noise_drained [OF d s] r show ?thesis by auto
  qed
qed

lemma ops_sent:
  assumes "tags sw"
  shows "noise_ops poll_write poll_flush sw ops s = (Inr bs, s') \<Longrightarrow> sent_ok sw t0 before s \<Longrightarrow>
    sent_ok sw t0 before s' \<and> concat (nz_sent s') = concat (nz_sent s) @ bs"
proof (induction ops arbitrary: s bs)
  case (Cons op ops)
  show ?case
  proof (cases op)
    case (WriteOp buf)
    obtain r s1 where w: "noise_poll_write poll_write sw s buf = (r, s1)" by (cases "noise_poll_write poll_write sw s buf")
    show ?thesis
    proof (cases r)
      case Pending
      with w WriteOp Cons.prems(1) have "noise_ops poll_write poll_flush sw ops s1 = (Inr bs, s')" by simp
      from Cons.IH [OF this noise_wrote [OF assms w Cons.prems(2)]] Pending noise_write_accepts [OF w] show ?thesis by simp
    next
      case (Ready a)
      with w WriteOp Cons.prems(1) obtain n bs' where n: "a = Inr n" "bs = take n buf @ bs'"
          "noise_ops poll_write poll_flush sw ops s1 = (Inr bs', s')"
        by (auto split: sum.splits prod.splits)
      from Cons.IH [OF n(3) noise_wrote [OF assms w Cons.prems(2)]] Ready n(1,2) noise_write_accepts [OF w]
      show ?thesis by simp
    qed
  next
    case FlushOp
    obtain r s1 where w: "noise_poll_flush poll_write poll_flush s = (r, s1)" by (cases "noise_poll_flush poll_write poll_flush s")
    have n: "(\<forall>e. r \<noteq> Ready (Inl e)) \<and> noise_ops poll_write poll_flush sw ops s1 = (Inr bs, s')"
      using FlushOp Cons.prems(1) w by (cases r rule: poll_result_cases) simp_all
    from noise_flushed [OF w Cons.prems(2) conjunct1 [OF n]] Cons.IH [OF conjunct2 [OF n]] show ?thesis by simp
  qed
qed simp

text \<open>After a run and a flush that is done, what went out is the frames of what was accepted.\<close>

lemma ops_flushed:
  assumes "tags sw" and "noise_ops poll_write poll_flush sw ops (noise_new w reads t) = (Inr bs, s)"
    and "noise_poll_flush poll_write poll_flush s = (Ready (Inr ()), s')"
  shows "\<exists>cs t'. encrypts sw t (nz_sent s') = Some (cs, t') \<and> concat (nz_sent s') = bs
    \<and> taken (nz_inner s') = taken w @ wire_of cs"
proof -
  from ops_sent [OF assms(1,2) sent_new] have s: "sent_ok sw t (taken w) s" "concat (nz_sent s) = bs"
    by (simp_all add: noise_new_def)
  from noise_flushed [OF assms(3) s(1)] s(2) show ?thesis by (auto simp: sent_ok_def)
qed

end

interpretation gatt_bytes: byte_transport gatt_poll_write gatt_sent gatt_poll_flush
proof
  show "gatt_sent (snd (gatt_poll_flush w)) = gatt_sent w" for w
    by (auto simp: gatt_poll_flush_def gatt_sent_def split: list.splits outbound_answer.splits)
qed

section \<open>What a reader is given\<close>

text \<open>
  What the library's authentication promises a receiver of the messages \<open>ms\<close>, each a ciphertext and its
  plaintext: it accepts those and in that order, and anything else leaves it as it was.
\<close>

primrec accepts :: "('h, 't) snow \<Rightarrow> 't \<Rightarrow> (bytes \<times> bytes) list \<Rightarrow> bool" where
  "accepts sw t [] = (\<forall>m. \<exists>e. sw_decrypt sw t m = (Inl e, t))"
| "accepts sw t (cp # ms) =
     ((\<exists>t'. sw_decrypt sw t (fst cp) = (Inr (snd cp), t') \<and> accepts sw t' ms)
      \<and> (\<forall>m. m \<noteq> fst cp \<longrightarrow> (\<exists>e. sw_decrypt sw t m = (Inl e, t))))"

lemma accepts_next:
  assumes "accepts sw t ms" and "sw_decrypt sw t m = (r, t')"
  shows "(\<exists>e. r = Inl e) \<and> t' = t \<or> (\<exists>p ms'. ms = (m, p) # ms' \<and> r = Inr p \<and> accepts sw t' ms')"
proof (cases ms)
  case Nil
  with assms(1) obtain e where "sw_decrypt sw t m = (Inl e, t)" by auto
  with assms(2) show ?thesis by auto
next
  case (Cons cp ms')
  show ?thesis
  proof (cases "m = fst cp")
    case True
    with Cons assms(1) obtain t1 where "sw_decrypt sw t m = (Inr (snd cp), t1)" "accepts sw t1 ms'" by auto
    with Cons True assms(2) show ?thesis by (cases cp) simp
  next
    case False
    with Cons assms(1) obtain e where "sw_decrypt sw t m = (Inl e, t)" by auto
    with assms(2) show ?thesis by auto
  qed
qed

text \<open>What has been read and what waits decrypted are the messages accepted.\<close>

definition read_ok :: "('h, 't) snow \<Rightarrow> (bytes \<times> bytes) list \<Rightarrow> bytes \<Rightarrow> ('w, 't) noise_stream \<Rightarrow> bool" where
  "read_ok sw ms out s \<longleftrightarrow>
     (\<exists>got todo. ms = got @ todo \<and> accepts sw (nz_transport s) todo
        \<and> out @ drop (nz_consumed s) (nz_plain s) = concat (map snd got))"

fun read_out :: "bytes io_result poll \<Rightarrow> bytes" where
  "read_out (Ready (Inr bs)) = bs"
| "read_out _ = []"

lemma noise_read_ok:
  "noise_poll_read sw n s = (r, s') \<Longrightarrow> read_ok sw ms out s \<Longrightarrow> read_ok sw ms (out @ read_out r) s'"
proof (induction sw n s rule: noise_poll_read.induct)
  case (1 sw n s)
  show ?case
  proof (cases "nz_consumed s < length (nz_plain s)")
    case True
    let ?available = "drop (nz_consumed s) (nz_plain s)"
    let ?k = "min (length ?available) n"
    from "1.prems"(1) True have run: "r = Ready (Inr (take ?k ?available))"
      "s' = (if nz_consumed s + ?k = length (nz_plain s) then s\<lparr>nz_plain := [], nz_consumed := 0\<rparr>
             else s\<lparr>nz_consumed := nz_consumed s + ?k\<rparr>)"
      by (simp_all add: noise_poll_read.simps [of sw n s] Let_def)
    have "take ?k ?available @ drop (nz_consumed s') (nz_plain s') = ?available"
      unfolding run(2) by (cases "nz_consumed s + ?k = length (nz_plain s)") (auto simp: take_drop_split min_def)
    moreover have "nz_transport s' = nz_transport s" by (simp add: run(2))
    ultimately show ?thesis using "1.prems"(2) by (simp add: run(1) read_ok_def)
  next
    case False
    then have out: "out @ drop (nz_consumed s) (nz_plain s) = out" by simp
    show ?thesis
    proof (cases "reasm_take (nz_reassembler s)")
      case (Some mr)
      obtain m ra where mr: "mr = (m, ra)" by (cases mr)
      obtain d t where d: "sw_decrypt sw (nz_transport s) m = (d, t)" by (cases "sw_decrypt sw (nz_transport s) m")
      from "1.prems"(2) out obtain got todo where split: "ms = got @ todo" "accepts sw (nz_transport s) todo"
        "out = concat (map snd got)" by (auto simp: read_ok_def)
      from accepts_next [OF split(2) d] show ?thesis
      proof (elim disjE conjE exE)
        fix e assume "d = Inl e" "t = nz_transport s"
        with "1.prems"(1) False Some mr d have "read_out r = [] \<and> s' = s\<lparr>nz_reassembler := ra\<rparr>"
          by (auto simp: noise_poll_read.simps [of sw n s] transport_decrypt_def failed_handshake_def)
        with "1.prems"(2) show ?thesis by (simp add: read_ok_def)
      next
        fix p ms' assume p: "todo = (m, p) # ms'" "d = Inr p" "accepts sw t ms'"
        let ?s = "s\<lparr>nz_reassembler := ra, nz_transport := t, nz_plain := p, nz_consumed := 0\<rparr>"
        have "read_ok sw ms out ?s"
          unfolding read_ok_def by (rule exI [of _ "got @ [(m, p)]"], rule exI [of _ ms']) (use split p in simp)
        moreover have "noise_poll_read sw n ?s = (r, s')"
          using "1.prems"(1) False Some mr d p(2)
          by (simp add: noise_poll_read.simps [of sw n s] transport_decrypt_def failed_handshake_def)
        ultimately show ?thesis
          using "1.IH"(2) [OF False Some mr [symmetric]] d p(2) by (simp add: transport_decrypt_def failed_handshake_def)
      qed
    next
      case None
      show ?thesis
      proof (cases "\<exists>bs rest. nz_reads s = Ready (Inr bs) # rest \<and> bs \<noteq> []")
        case True
        then obtain bs rest where b: "nz_reads s = Ready (Inr bs) # rest" "bs \<noteq> []" by blast
        let ?s = "s\<lparr>nz_reads := rest, nz_reassembler := reasm_push bs (nz_reassembler s)\<rparr>"
        have "noise_poll_read sw n ?s = (r, s')"
          using "1.prems"(1) False None b by (simp add: noise_poll_read.simps [of sw n s])
        moreover have "read_ok sw ms out ?s" using "1.prems"(2) by (simp add: read_ok_def)
        ultimately show ?thesis using "1.IH"(1) [OF False None b(1) refl refl b(2)] by simp
      next
        case none: False
        with "1.prems"(1) False None have "read_out r = []" "nz_transport s' = nz_transport s" "nz_plain s' = nz_plain s"
          "nz_consumed s' = nz_consumed s"
          by (auto simp: noise_poll_read.simps [of sw n s] split: list.splits poll.splits sum.splits)
        with "1.prems"(2) show ?thesis by (simp add: read_ok_def)
      qed
    qed
  qed
qed

text \<open>The results of one read after another, with buffers of these sizes.\<close>

fun noise_reads :: "('h, 't) snow \<Rightarrow> nat list \<Rightarrow> ('w, 't) noise_stream \<Rightarrow> bytes io_result poll list \<times> ('w, 't) noise_stream" where
  "noise_reads sw [] s = ([], s)"
| "noise_reads sw (n # ns) s =
     (let (r, s) = noise_poll_read sw n s; (rs, s) = noise_reads sw ns s in (r # rs, s))"

lemma noise_reads_ok:
  "noise_reads sw ns s = (rs, s') \<Longrightarrow> read_ok sw ms out s \<Longrightarrow> read_ok sw ms (out @ concat (map read_out rs)) s'"
proof (induction ns arbitrary: s rs out)
  case (Cons n ns)
  obtain r s1 where r: "noise_poll_read sw n s = (r, s1)" by (cases "noise_poll_read sw n s")
  with Cons.prems(1) obtain rs' where "noise_reads sw ns s1 = (rs', s')" "rs = r # rs'"
    by (auto simp: Let_def split: prod.splits)
  with Cons.IH [OF _ noise_read_ok [OF r Cons.prems(2)]] show ?case by simp
qed simp

lemma read_ok_new: "accepts sw t ms \<Longrightarrow> read_ok sw ms [] (noise_new w reads t)"
  unfolding read_ok_def by (rule exI [of _ "[]"], rule exI [of _ ms]) (simp add: noise_new_def)

lemma read_ok_prefix:
  assumes "read_ok sw ms out s" shows "\<exists>rest. concat (map snd ms) = out @ rest"
proof -
  from assms obtain got todo where "ms = got @ todo" "out @ drop (nz_consumed s) (nz_plain s) = concat (map snd got)"
    by (auto simp: read_ok_def)
  then have "concat (map snd ms) = out @ drop (nz_consumed s) (nz_plain s) @ concat (map snd todo)"
    by (simp flip: append_assoc)
  then show ?thesis by blast
qed

section \<open>Reads that all arrive\<close>

text \<open>
  What a reader still has in hand when its reads are only bytes: the messages not yet decrypted are the ones in
  the reassembler and in the reads to come.
\<close>

definition chunk_bytes :: "bytes io_result poll list \<Rightarrow> bytes" where
  "chunk_bytes reads = concat (map read_out reads)"

definition all_chunks :: "bytes io_result poll list \<Rightarrow> bool" where
  "all_chunks reads \<longleftrightarrow> (\<forall>r \<in> set reads. \<exists>bs. r = Ready (Inr bs) \<and> bs \<noteq> [])"

text \<open>What the library promises a receiver of the messages its pair encrypted: it decrypts them, in that order.\<close>

primrec decrypts :: "('h, 't) snow \<Rightarrow> 't \<Rightarrow> (bytes \<times> bytes) list \<Rightarrow> bool" where
  "decrypts sw t [] = True"
| "decrypts sw t (cp # ms) = (\<exists>t'. sw_decrypt sw t (fst cp) = (Inr (snd cp), t') \<and> decrypts sw t' ms)"

definition ahead_ok :: "('h, 't) snow \<Rightarrow> (bytes \<times> bytes) list \<Rightarrow> ('w, 't) noise_stream \<Rightarrow> bool" where
  "ahead_ok sw todo s \<longleftrightarrow> all_chunks (nz_reads s) \<and> decrypts sw (nz_transport s) todo
     \<and> (\<forall>(c, p) \<in> set todo. fits TRANSPORT_PREFIX c \<and> p \<noteq> [])
     \<and> r_buf (nz_reassembler s) @ chunk_bytes (nz_reads s) = wire_of (map fst todo)"

definition ahead :: "(bytes \<times> bytes) list \<Rightarrow> ('w, 't) noise_stream \<Rightarrow> bytes" where
  "ahead todo s = drop (nz_consumed s) (nz_plain s) @ concat (map snd todo)"

lemma wire_of_split:
  "wire_of (c # cs) = delimited TRANSPORT_PREFIX c @ wire_of cs" "wire_of [] = []"
  by (simp_all add: wire_of_def)

text \<open>The message at the front of the buffer is the next of those to come.\<close>

lemma reasm_takes_next:
  assumes "reasm_take r = Some (m, r')" and "r_buf r @ later = wire_of (map fst todo)"
    and "\<forall>(c, p) \<in> set todo. fits TRANSPORT_PREFIX c \<and> p \<noteq> []"
  shows "\<exists>p todo'. todo = (m, p) # todo' \<and> p \<noteq> [] \<and> r_buf r' @ later = wire_of (map fst todo')"
proof -
  have split: "split_delimited TRANSPORT_PREFIX (r_buf r) = Some (m, r_buf r')"
    using assms(1) by (auto simp: reasm_take_refines)
  from split_delimited_extend [OF this, of later] assms(2)
  have wire: "split_delimited TRANSPORT_PREFIX (wire_of (map fst todo)) = Some (m, r_buf r' @ later)" by simp
  show ?thesis
  proof (cases todo)
    case Nil
    with wire show ?thesis by (simp add: wire_of_split split_delimited_Nil TRANSPORT_PREFIX_def)
  next
    case (Cons cp todo')
    with wire assms(3) split_delimited_frame [of TRANSPORT_PREFIX "fst cp" "wire_of (map fst todo')"] show ?thesis
      by (cases cp) (auto simp: wire_of_split)
  qed
qed

lemma nothing_left:
  assumes "reasm_take r = None" and "r_buf r = wire_of (map fst todo)"
    and "\<forall>(c, p) \<in> set todo. fits TRANSPORT_PREFIX c \<and> p \<noteq> []"
  shows "todo = []"
proof (cases todo)
  case (Cons cp todo')
  have "split_delimited TRANSPORT_PREFIX (r_buf r) = None" using assms(1) by (simp add: reasm_take_refines)
  with Cons assms(2,3) split_delimited_frame [of TRANSPORT_PREFIX "fst cp" "wire_of (map fst todo')"] show ?thesis
    by (cases cp) (auto simp: wire_of_split)
qed

lemma decrypts_head:
  "decrypts sw t ((c, p) # todo) \<Longrightarrow> \<exists>t'. sw_decrypt sw t c = (Inr p, t') \<and> decrypts sw t' todo"
  by simp

text \<open>Each read gives the next of what is to come, at least a byte of it, until there is no more of it.\<close>

lemma noise_read_ahead:
  assumes "0 < n"
  shows "noise_poll_read sw n s = (r, s') \<Longrightarrow> ahead_ok sw todo s \<Longrightarrow>
    \<exists>todo'. ahead_ok sw todo' s' \<and> ahead todo s = read_out r @ ahead todo' s'
      \<and> (r = Pending \<and> ahead todo s = [] \<or> (\<exists>bs. r = Ready (Inr bs) \<and> bs \<noteq> []))"
  using assms
proof (induction sw n s arbitrary: todo rule: noise_poll_read.induct)
  case (1 sw n s)
  note ok = "1.prems"(2) [unfolded ahead_ok_def]
  show ?case
  proof (cases "nz_consumed s < length (nz_plain s)")
    case True
    let ?available = "drop (nz_consumed s) (nz_plain s)"
    let ?k = "min (length ?available) n"
    from "1.prems"(1) True have run: "r = Ready (Inr (take ?k ?available))"
      "s' = (if nz_consumed s + ?k = length (nz_plain s) then s\<lparr>nz_plain := [], nz_consumed := 0\<rparr>
             else s\<lparr>nz_consumed := nz_consumed s + ?k\<rparr>)"
      by (simp_all add: noise_poll_read.simps [of sw n s] Let_def)
    have "take ?k ?available @ drop (nz_consumed s') (nz_plain s') = ?available"
      unfolding run(2) by (cases "nz_consumed s + ?k = length (nz_plain s)") (auto simp: take_drop_split min_def)
    then have "ahead todo s = read_out r @ ahead todo s'" by (simp add: ahead_def run(1) flip: append_assoc)
    moreover have "ahead_ok sw todo s'" using ok by (simp add: ahead_ok_def run(2))
    moreover have "take ?k ?available \<noteq> []" using True "1.prems"(3) by simp
    ultimately show ?thesis using run(1) by blast
  next
    case False
    show ?thesis
    proof (cases "reasm_take (nz_reassembler s)")
      case (Some mr)
      obtain m ra where mr: "mr = (m, ra)" by (cases mr)
      with Some reasm_takes_next [of "nz_reassembler s" m ra] ok obtain p todo' where
        next_: "todo = (m, p) # todo'" "r_buf ra @ chunk_bytes (nz_reads s) = wire_of (map fst todo')"
        by blast
      have "decrypts sw (nz_transport s) ((m, p) # todo')" using ok next_(1) by simp
      from decrypts_head [OF this] obtain t where t: "sw_decrypt sw (nz_transport s) m = (Inr p, t)" "decrypts sw t todo'" by blast
      let ?s = "s\<lparr>nz_reassembler := ra, nz_transport := t, nz_plain := p, nz_consumed := 0\<rparr>"
      have run: "noise_poll_read sw n ?s = (r, s')"
        using "1.prems"(1) False Some mr t(1)
        by (simp add: noise_poll_read.simps [of sw n s] transport_decrypt_def failed_handshake_def)
      have "ahead_ok sw todo' ?s" using ok next_ t(2) by (simp add: ahead_ok_def)
      moreover have "ahead todo s = ahead todo' ?s" using False next_(1) by (simp add: ahead_def)
      ultimately show ?thesis
        using "1.IH"(2) [OF False Some mr [symmetric], of "Inr p" t p todo'] run "1.prems"(3) t(1)
        by (simp add: transport_decrypt_def failed_handshake_def)
    next
      case None
      show ?thesis
      proof (cases "nz_reads s")
        case Nil
        with ok None nothing_left [of "nz_reassembler s" todo] have "todo = []" by (simp add: chunk_bytes_def)
        with Nil False None "1.prems"(1,2) show ?thesis
          by (auto simp: noise_poll_read.simps [of sw n s] ahead_def intro!: exI [of _ "[]"])
      next
        case (Cons x rest)
        with ok obtain bs where b: "x = Ready (Inr bs)" "bs \<noteq> []" by (auto simp: all_chunks_def)
        let ?s = "s\<lparr>nz_reads := rest, nz_reassembler := reasm_push bs (nz_reassembler s)\<rparr>"
        have run: "noise_poll_read sw n ?s = (r, s')"
          using "1.prems"(1) False None b Cons by (simp add: noise_poll_read.simps [of sw n s])
        have "ahead_ok sw todo ?s" using ok Cons b by (simp add: ahead_ok_def all_chunks_def chunk_bytes_def reasm_push_def)
        moreover have "ahead todo s = ahead todo ?s" by (simp add: ahead_def)
        ultimately show ?thesis using "1.IH"(1) [OF False None Cons b(1) refl b(2) run] "1.prems"(3) by simp
      qed
    qed
  qed
qed

lemma noise_reads_ahead:
  "noise_reads sw ns s = (rs, s') \<Longrightarrow> ahead_ok sw todo s \<Longrightarrow> \<forall>n \<in> set ns. 0 < n \<Longrightarrow>
    \<exists>todo'. ahead_ok sw todo' s' \<and> ahead todo s = concat (map read_out rs) @ ahead todo' s'
      \<and> (ahead todo' s' = [] \<or> length ns \<le> length (concat (map read_out rs)))"
proof (induction ns arbitrary: s rs todo)
  case Nil
  then show ?case by (auto intro!: exI [of _ todo])
next
  case (Cons n ns)
  obtain r s1 where r: "noise_poll_read sw n s = (r, s1)" by (cases "noise_poll_read sw n s")
  with Cons.prems(1) obtain rs' where rs: "noise_reads sw ns s1 = (rs', s')" "rs = r # rs'"
    by (auto simp: Let_def split: prod.splits)
  from noise_read_ahead [OF _ r Cons.prems(2)] Cons.prems(3) obtain todo1 where
    a: "ahead_ok sw todo1 s1" "ahead todo s = read_out r @ ahead todo1 s1"
      "r = Pending \<and> ahead todo s = [] \<or> (\<exists>bs. r = Ready (Inr bs) \<and> bs \<noteq> [])"
    by auto
  from Cons.IH [OF rs(1) a(1)] Cons.prems(3) obtain todo' where
    t: "ahead_ok sw todo' s'" "ahead todo1 s1 = concat (map read_out rs') @ ahead todo' s'"
      "ahead todo' s' = [] \<or> length ns \<le> length (concat (map read_out rs'))"
    by auto
  have "ahead todo' s' = [] \<or> length (n # ns) \<le> length (concat (map read_out rs))"
    using a(3)
  proof (elim disjE conjE exE)
    assume "ahead todo s = []"
    with a(2) t(2) show ?thesis by simp
  next
    fix bs assume "r = Ready (Inr bs)" "bs \<noteq> []"
    with t(3) rs(2) show ?thesis by (cases bs) auto
  qed
  then show ?case using t(1,2) a(2) rs(2) by (intro exI [of _ todo']) simp
qed

section \<open>The properties\<close>

definition short_messages :: "('w, 't) noise_stream \<Rightarrow> bool" where
  "short_messages s \<longleftrightarrow> (\<forall>p \<in> set (nz_sent s). p \<noteq> [] \<and> length p \<le> MAX_PLAINTEXT)"

lemma write_sent:
  assumes "noise_poll_write poll_write sw s buf = (r, s')"
  shows "nz_sent s' = nz_sent s \<or> buf \<noteq> [] \<and> nz_sent s' = nz_sent s @ [take (min (length buf) MAX_PLAINTEXT) buf]"
  using assms by (auto simp: noise_poll_write_def Let_def split: if_splits prod.splits poll.splits sum.splits)

lemma write_short:
  assumes "noise_poll_write poll_write sw s buf = (r, s')" and "short_messages s"
  shows "short_messages s'"
proof -
  have "MAX_PLAINTEXT \<noteq> 0" by (simp add: MAX_PLAINTEXT_def MAX_NOISE_MESSAGE_def TAG_LEN_def)
  then have "buf \<noteq> [] \<Longrightarrow> take (min (length buf) MAX_PLAINTEXT) buf \<noteq> []" by (cases buf) (simp_all add: min_def)
  moreover have "length (take (min (length buf) MAX_PLAINTEXT) buf) \<le> MAX_PLAINTEXT" by simp
  ultimately show ?thesis using write_sent [OF assms(1)] assms(2) unfolding short_messages_def
    by (metis Un_iff empty_iff empty_set insert_iff list.simps(15) set_append)
qed

lemma flush_sent: "noise_poll_flush poll_write poll_flush s = (r, s') \<Longrightarrow> nz_sent s' = nz_sent s"
  by (auto simp: noise_poll_flush_def Let_def split: prod.splits poll.splits sum.splits)

lemma ops_short:
  "noise_ops poll_write poll_flush sw ops s = (r, s') \<Longrightarrow> short_messages s \<Longrightarrow> short_messages s'"
proof (induction ops arbitrary: s r s')
  case (Cons op ops)
  show ?case
  proof (cases op)
    case (WriteOp buf)
    obtain a s1 where w: "noise_poll_write poll_write sw s buf = (a, s1)" by (cases "noise_poll_write poll_write sw s buf")
    obtain r' s2 where o: "noise_ops poll_write poll_flush sw ops s1 = (r', s2)" by (cases "noise_ops poll_write poll_flush sw ops s1")
    have "s' = s1 \<or> s' = s2"
      using Cons.prems(1) WriteOp w o by (auto split: poll.splits sum.splits)
    with write_short [OF w Cons.prems(2)] Cons.IH [OF o] show ?thesis by blast
  next
    case FlushOp
    obtain a s1 where w: "noise_poll_flush poll_write poll_flush s = (a, s1)" by (cases "noise_poll_flush poll_write poll_flush s")
    obtain r' s2 where o: "noise_ops poll_write poll_flush sw ops s1 = (r', s2)" by (cases "noise_ops poll_write poll_flush sw ops s1")
    have "s' = s1 \<or> s' = s2"
      using Cons.prems(1) FlushOp w o by (auto split: poll.splits sum.splits)
    with flush_sent [OF w] Cons.prems(2) Cons.IH [OF o] show ?thesis by (auto simp: short_messages_def)
  qed
qed simp

lemma encrypts_lengths:
  "encrypts sw t ps = Some (cs, t') \<Longrightarrow> tags sw \<Longrightarrow> list_all2 (\<lambda>c p. length c = length p + TAG_LEN) cs ps"
proof (induction ps arbitrary: t cs)
  case (Cons p ps)
  then show ?case by (auto simp: tags_def split: prod.splits sum.splits)
qed simp

lemma chunk_bytes_map: "chunk_bytes (map (\<lambda>c. Ready (Inr c)) chunks) = concat chunks"
  by (simp add: chunk_bytes_def comp_def)

text \<open>What arrives, cut anyhow, of what was encrypted is all there is ahead of a new reader.\<close>

lemma new_ahead:
  assumes "encrypts sw t ps = Some (cs, t')" and "tags sw" and "decrypts sw u (zip cs ps)"
    and "\<forall>p \<in> set ps. p \<noteq> [] \<and> length p \<le> MAX_PLAINTEXT" and "concat chunks = wire_of cs" and "[] \<notin> set chunks"
  shows "ahead_ok sw (zip cs ps) (noise_new w (map (\<lambda>c. Ready (Inr c)) chunks) u)
    \<and> ahead (zip cs ps) (noise_new w (map (\<lambda>c. Ready (Inr c)) chunks) u) = concat ps"
proof -
  have l: "list_all2 (\<lambda>c p. length c = length p + TAG_LEN) cs ps" by (rule encrypts_lengths [OF assms(1,2)])
  then have len: "length cs = length ps" by (rule list_all2_lengthD)
  have "fits TRANSPORT_PREFIX c \<and> p \<noteq> []" if "(c, p) \<in> set (zip cs ps)" for c p
  proof -
    from l that have "length c = length p + TAG_LEN" by (auto simp: list_all2_iff)
    moreover have "p \<noteq> [] \<and> length p \<le> MAX_PLAINTEXT" by (rule bspec [OF assms(4) set_zip_rightD [OF that]])
    ultimately show ?thesis
      by (simp add: fits_def TRANSPORT_PREFIX_def MAX_PLAINTEXT_def MAX_NOISE_MESSAGE_def TAG_LEN_def)
  qed
  moreover have "all_chunks (map (\<lambda>c. Ready (Inr c)) chunks)" using assms(6) by (auto simp: all_chunks_def)
  ultimately show ?thesis
    using assms(3,5) len
    by (auto simp: ahead_ok_def ahead_def noise_new_def chunk_bytes_map reasm_new_def)
qed

text \<open>Whatever reaches a device or a client over the air, and however it is cut, the bytes a session reads are a
  beginning of what the other end encrypted, in its order: nothing altered, injected, replayed or moved is
  ever delivered, and a message that fails leaves the stream where it was.\<close>

lemma only_what_was_sent_is_read:
  assumes "accepts sw u messages"
    and "noise_reads sw ns (noise_new w reads u) = (results, s')"
  shows "\<exists>rest. concat (map snd messages) = concat (map read_out results) @ rest"
  using read_ok_prefix [OF noise_reads_ok [OF assms(2) read_ok_new [OF assms(1)]]] by simp

text \<open>What one end writes the other reads: whatever writes and flushes were made over the GATT transport, as long as
  none failed, once a flush is done the bytes that went over the air are such that the other end, given them
  in any cut, reads exactly the bytes the writes accepted.\<close>

lemma encrypted_stream_delivers:
  assumes "tags sw" and "\<And>ps cs t'. encrypts sw t ps = Some (cs, t') \<Longrightarrow> decrypts sw u (zip cs ps)"
    and "noise_ops gatt_poll_write gatt_poll_flush sw ops (noise_new (gatt_open mtu inbound room) reads t) = (Inr accepted, s)"
    and "noise_poll_flush gatt_poll_write gatt_poll_flush s = (Ready (Inr ()), s')"
    and "concat chunks = gatt_sent (nz_inner s')" and "[] \<notin> set chunks"
    and "\<forall>n \<in> set ns. 0 < n" and "length accepted < length ns"
  shows "concat (map read_out (fst (noise_reads sw ns (noise_new w (map (\<lambda>c. Ready (Inr c)) chunks) u)))) = accepted"
proof -
  let ?r = "noise_new w (map (\<lambda>c. Ready (Inr c)) chunks) u"
  from gatt_bytes.ops_flushed [OF assms(1,3,4)] obtain cs t' where
    cs: "encrypts sw t (nz_sent s') = Some (cs, t')" "concat (nz_sent s') = accepted" "gatt_sent (nz_inner s') = wire_of cs"
    by (auto simp: gatt_open_def gatt_sent_def)
  have "short_messages s'"
    using ops_short [OF assms(3)] flush_sent [OF assms(4)] by (simp add: short_messages_def noise_new_def)
  with new_ahead [OF cs(1) assms(1) assms(2) [OF cs(1)] _ _ assms(6), of w] assms(5) cs(2,3)
  have a: "ahead_ok sw (zip cs (nz_sent s')) ?r" "ahead (zip cs (nz_sent s')) ?r = accepted"
    by (simp_all add: short_messages_def)
  obtain rs s2 where rs: "noise_reads sw ns ?r = (rs, s2)" by (cases "noise_reads sw ns ?r")
  from noise_reads_ahead [OF rs a(1) assms(7)] a(2) obtain rest where
    "accepted = concat (map read_out rs) @ rest" "rest = [] \<or> length ns \<le> length (concat (map read_out rs))"
    by auto
  with assms(8) rs show ?thesis by auto
qed

section \<open>Witnesses\<close>

text \<open>A library that accepts the messages it expects.\<close>

definition scripted_snow :: "(unit, (bytes \<times> bytes) list) snow" where
  "scripted_snow =
     \<lparr>sw_initiator = (\<lambda>_. Inr ()), sw_responder = (\<lambda>_ _. Inr ()), sw_write = (\<lambda>h m. (Inr m, h)), sw_read = (\<lambda>h m. (Inr m, h)),
      sw_remote_static = (\<lambda>_. None), sw_finished = (\<lambda>_. True), sw_transport = (\<lambda>_. Inr []),
      sw_encrypt = (\<lambda>t p. (Inr p, t)),
      sw_decrypt = (\<lambda>t m. case t of [] \<Rightarrow> (Inl ''decrypt error'', t)
         | (c, p) # t' \<Rightarrow> if m = c then (Inr p, t') else (Inl ''decrypt error'', t))\<rparr>"

lemma scripted_accepts: "accepts scripted_snow ms ms"
  by (induction ms) (auto simp: scripted_snow_def)

lemma plain_tags: "tags plain_snow"
  by (simp add: tags_def plain_snow_def TAG_LEN_def)

lemma plain_decrypts: "encrypts plain_snow n ps = Some (cs, t') \<Longrightarrow> decrypts plain_snow n (zip cs ps)"
proof (induction ps arbitrary: n cs)
  case (Cons p ps)
  then obtain cs' where "encrypts plain_snow (n + 1) ps = Some (cs', t')" "cs = (p @ of_nat n # replicate 15 0) # cs'"
    by (auto simp: plain_snow_def split: option.splits)
  with Cons.IH [OF this(1)] show ?case by (simp add: plain_snow_def)
qed simp

lemma plain_prefix: "encode_prefix TRANSPORT_PREFIX 19 = Inr [0, 19]"
  by code_simp

lemmas evaluate_writes = noise_poll_write_def noise_poll_flush_def noise_drain_def noise_new_def gatt_open_def gatt_poll_write_def
  gatt_poll_flush_def backlog_new_def backlog_extend_def transport_encrypt_def failed_handshake_def plain_snow_def
  MAX_PLAINTEXT_def MAX_NOISE_MESSAGE_def TAG_LEN_def plain_prefix

end
