(* ===== verification/Compress.thy ===== *)
theory Compress
  imports Noise_Stream "HOL-Library.Sublist"
begin

text \<open>
  The compression layer, \<open>CompressStream\<close> of \<open>crates/bliti-core/src/channel/compress.rs\<close>: one zlib stream in each
  direction over the encrypted byte stream.  The zlib library is a parameter, a deflate and an inflate
  context with what each call answers; \<open>codec_ok\<close> is what it documents of them.  A loop over the library may
  run as long as the library keeps it going, so a poll answers \<open>None\<close> where it never returns.
\<close>

section \<open>The library\<close>

datatype zflush = FlushNone | FlushSync | FlushFinish

datatype zstatus = ZOk | ZBufError | ZStreamEnd

text \<open>
  A call is given input and the room there is for output, and answers how much of the input it took, the
  output, and where the stream stands.
\<close>

record ('d, 'i) zlib =
  zl_deflate_new :: 'd
  zl_inflate_new :: 'i
  zl_deflate :: "'d \<Rightarrow> bytes \<Rightarrow> zflush \<Rightarrow> nat \<Rightarrow> (string + nat \<times> bytes \<times> zstatus) \<times> 'd"
  zl_inflate :: "'i \<Rightarrow> bytes \<Rightarrow> nat \<Rightarrow> (string + nat \<times> bytes \<times> zstatus) \<times> 'i"

section \<open>The stream\<close>

definition COMPRESS_CHUNK :: nat where "COMPRESS_CHUNK = 8192"

text \<open>\<open>zc_fed\<close> and \<open>zc_made\<close> are kept for the statements: what the deflate context has taken and given.\<close>

record ('w, 'd, 'i) compress_stream =
  zc_inner :: 'w
  zc_reads :: "bytes io_result poll list"
  zc_compress :: 'd
  zc_decompress :: 'i
  zc_total_in :: nat
  zc_out :: backlog
  zc_dirty :: bool
  zc_finished :: bool
  zc_in_buf :: bytes
  zc_in_start :: nat
  zc_read_eof :: bool
  zc_stream_end :: bool
  zc_fed :: bytes
  zc_made :: bytes

definition compress_new :: "('d, 'i) zlib \<Rightarrow> 'w \<Rightarrow> bytes io_result poll list \<Rightarrow> ('w, 'd, 'i) compress_stream" where
  "compress_new z inner reads =
     \<lparr>zc_inner = inner, zc_reads = reads, zc_compress = zl_deflate_new z, zc_decompress = zl_inflate_new z, zc_total_in = 0,
      zc_out = backlog_new, zc_dirty = False, zc_finished = False, zc_in_buf = [], zc_in_start = 0, zc_read_eof = False,
      zc_stream_end = False, zc_fed = [], zc_made = []\<rparr>"

definition compress_deflate ::
  "('d, 'i) zlib \<Rightarrow> bytes \<Rightarrow> zflush \<Rightarrow> ('w, 'd, 'i) compress_stream
    \<Rightarrow> (nat \<times> nat \<times> zstatus) io_result \<times> ('w, 'd, 'i) compress_stream" where
  "compress_deflate z input flush s =
     (case zl_deflate z (zc_compress s) input flush COMPRESS_CHUNK of
        (Inl err, d) \<Rightarrow> (Inl OtherError, s\<lparr>zc_compress := d\<rparr>)
      | (Inr (read, wrote, status), d) \<Rightarrow>
          (Inr (read, length wrote, status),
           s\<lparr>zc_compress := d, zc_out := backlog_extend wrote (zc_out s),
             zc_fed := zc_fed s @ take read input, zc_made := zc_made s @ wrote\<rparr>))"

partial_function (option) compress_input ::
  "('d, 'i) zlib \<Rightarrow> bytes \<Rightarrow> nat \<Rightarrow> ('w, 'd, 'i) compress_stream \<Rightarrow> (nat io_result \<times> ('w, 'd, 'i) compress_stream) option" where
  "compress_input z input offset s =
     (case compress_deflate z (drop offset input) FlushNone s of
        (Inl e, s) \<Rightarrow> Some (Inl e, s)
      | (Inr (read, wrote, _), s) \<Rightarrow>
          (let offset = offset + read in
           if length input \<le> offset \<and> wrote < COMPRESS_CHUNK \<or> read = 0 \<and> wrote = 0 then Some (Inr offset, s)
           else compress_input z input offset s))"

partial_function (option) flush_compress ::
  "('d, 'i) zlib \<Rightarrow> zflush \<Rightarrow> ('w, 'd, 'i) compress_stream \<Rightarrow> (bool io_result \<times> ('w, 'd, 'i) compress_stream) option" where
  "flush_compress z flush s =
     (case compress_deflate z [] flush s of
        (Inl e, s) \<Rightarrow> Some (Inl e, s)
      | (Inr (_, wrote, status), s) \<Rightarrow>
          if status = ZStreamEnd then Some (Inr True, s)
          else if wrote < COMPRESS_CHUNK then Some (Inr False, s)
          else flush_compress z flush s)"

definition compress_drain ::
  "('w \<Rightarrow> bytes \<Rightarrow> nat io_result poll \<times> 'w) \<Rightarrow> ('w, 'd, 'i) compress_stream
    \<Rightarrow> unit io_result poll \<times> ('w, 'd, 'i) compress_stream" where
  "compress_drain poll_write s =
     (let (r, b, w) = backlog_poll_drain poll_write (zc_out s) (zc_inner s)
      in (r, s\<lparr>zc_out := b, zc_inner := w\<rparr>))"

definition compress_poll_write ::
  "('d, 'i) zlib \<Rightarrow> ('w \<Rightarrow> bytes \<Rightarrow> nat io_result poll \<times> 'w) \<Rightarrow> bytes \<Rightarrow> ('w, 'd, 'i) compress_stream
    \<Rightarrow> (nat io_result poll \<times> ('w, 'd, 'i) compress_stream) option" where
  "compress_poll_write z poll_write buf s =
     (if buf = [] then Some (Ready (Inr 0), s)
      else if zc_finished s then Some (Ready (Inl BrokenPipe), s)
      else case compress_drain poll_write s of
        (Pending, s) \<Rightarrow> Some (Pending, s)
      | (Ready (Inl e), s) \<Rightarrow> Some (Ready (Inl e), s)
      | (Ready (Inr _), s) \<Rightarrow>
          (case compress_input z buf 0 s of
             None \<Rightarrow> None
           | Some (Inl e, s) \<Rightarrow> Some (Ready (Inl e), s)
           | Some (Inr consumed, s) \<Rightarrow>
               if consumed = 0 then Some (Ready (Inl OtherError), s)
               else (case compress_drain poll_write (s\<lparr>zc_dirty := True\<rparr>) of
                       (Ready (Inl e), s) \<Rightarrow> Some (Ready (Inl e), s)
                     | (_, s) \<Rightarrow> Some (Ready (Inr consumed), s))))"

text \<open>\<open>poll_flush\<close>, and after it the tail both it and \<open>poll_close\<close> end with.\<close>

definition compress_tail ::
  "('w \<Rightarrow> bytes \<Rightarrow> nat io_result poll \<times> 'w) \<Rightarrow> ('w \<Rightarrow> unit io_result poll \<times> 'w) \<Rightarrow> ('w, 'd, 'i) compress_stream
    \<Rightarrow> unit io_result poll \<times> ('w, 'd, 'i) compress_stream" where
  "compress_tail poll_write end_inner s =
     (case compress_drain poll_write s of
        (Ready (Inr _), s) \<Rightarrow> (let (r, w) = end_inner (zc_inner s) in (r, s\<lparr>zc_inner := w\<rparr>))
      | (r, s) \<Rightarrow> (r, s))"

definition compress_poll_flush ::
  "('d, 'i) zlib \<Rightarrow> ('w \<Rightarrow> bytes \<Rightarrow> nat io_result poll \<times> 'w) \<Rightarrow> ('w \<Rightarrow> unit io_result poll \<times> 'w) \<Rightarrow> ('w, 'd, 'i) compress_stream
    \<Rightarrow> (unit io_result poll \<times> ('w, 'd, 'i) compress_stream) option" where
  "compress_poll_flush z poll_write poll_flush s =
     (if zc_dirty s \<and> \<not> zc_finished s
      then case flush_compress z FlushSync s of
             None \<Rightarrow> None
           | Some (Inl e, s) \<Rightarrow> Some (Ready (Inl e), s)
           | Some (Inr _, s) \<Rightarrow> Some (compress_tail poll_write poll_flush (s\<lparr>zc_dirty := False\<rparr>))
      else Some (compress_tail poll_write poll_flush s))"

definition compress_poll_close ::
  "('d, 'i) zlib \<Rightarrow> ('w \<Rightarrow> bytes \<Rightarrow> nat io_result poll \<times> 'w) \<Rightarrow> ('w \<Rightarrow> unit io_result poll \<times> 'w) \<Rightarrow> ('w, 'd, 'i) compress_stream
    \<Rightarrow> (unit io_result poll \<times> ('w, 'd, 'i) compress_stream) option" where
  "compress_poll_close z poll_write poll_close s =
     (if \<not> zc_finished s
      then case flush_compress z FlushFinish s of
             None \<Rightarrow> None
           | Some (Inl e, s) \<Rightarrow> Some (Ready (Inl e), s)
           | Some (Inr ended, s) \<Rightarrow>
               if \<not> ended then Some (Ready (Inl OtherError), s)
               else Some (compress_tail poll_write poll_close (s\<lparr>zc_dirty := False, zc_finished := True\<rparr>))
      else Some (compress_tail poll_write poll_close s))"

text \<open>What \<open>poll_read\<close> records of a call into the inflate context that took \<open>read\<close> bytes.\<close>

definition compress_inflated :: "nat \<Rightarrow> zstatus \<Rightarrow> 'i \<Rightarrow> ('w, 'd, 'i) compress_stream \<Rightarrow> ('w, 'd, 'i) compress_stream" where
  "compress_inflated read status i s =
     (let start = zc_in_start s + read;
          s = s\<lparr>zc_decompress := i, zc_total_in := zc_total_in s + read\<rparr>;
          s = (if start = length (zc_in_buf s) then s\<lparr>zc_in_buf := [], zc_in_start := 0\<rparr> else s\<lparr>zc_in_start := start\<rparr>)
      in if status = ZStreamEnd then s\<lparr>zc_stream_end := True\<rparr> else s)"

text \<open>\<open>poll_read\<close> into a buffer of \<open>n\<close> bytes, answering with what was put in it.\<close>

partial_function (option) compress_read_loop ::
  "('d, 'i) zlib \<Rightarrow> nat \<Rightarrow> ('w, 'd, 'i) compress_stream \<Rightarrow> (bytes io_result poll \<times> ('w, 'd, 'i) compress_stream) option" where
  "compress_read_loop z n s =
     (if zc_stream_end s then Some (Ready (Inr []), s)
      else case zl_inflate z (zc_decompress s) (drop (zc_in_start s) (zc_in_buf s)) n of
        (Inl err, i) \<Rightarrow> Some (Ready (Inl (PeerFault (DecompressFailed err))), s\<lparr>zc_decompress := i\<rparr>)
      | (Inr (read, wrote, status), i) \<Rightarrow>
          (let s = compress_inflated read status i s
           in if wrote \<noteq> [] then Some (Ready (Inr wrote), s)
              else if zc_stream_end s then Some (Ready (Inr []), s)
              else if 0 < read then compress_read_loop z n s
              else if zc_read_eof s
              then (if zc_stream_end s \<or> zc_total_in s = 0 then Some (Ready (Inr []), s)
                    else Some (Ready (Inl UnexpectedEof), s))
              else case zc_reads s of
                     [] \<Rightarrow> Some (Pending, s)
                   | Pending # rest \<Rightarrow> Some (Pending, s\<lparr>zc_reads := rest\<rparr>)
                   | Ready (Inl e) # rest \<Rightarrow> Some (Ready (Inl e), s\<lparr>zc_reads := rest\<rparr>)
                   | Ready (Inr bs) # rest \<Rightarrow>
                       if bs = [] then compress_read_loop z n (s\<lparr>zc_reads := rest, zc_read_eof := True\<rparr>)
                       else compress_read_loop z n (s\<lparr>zc_reads := rest, zc_in_buf := zc_in_buf s @ bs\<rparr>)))"

definition compress_poll_read ::
  "('d, 'i) zlib \<Rightarrow> nat \<Rightarrow> ('w, 'd, 'i) compress_stream \<Rightarrow> (bytes io_result poll \<times> ('w, 'd, 'i) compress_stream) option" where
  "compress_poll_read z n s = (if n = 0 then Some (Ready (Inr []), s) else compress_read_loop z n s)"

section \<open>What the library promises\<close>

text \<open>What a deflate context has taken and given since it was new.\<close>

inductive deflated :: "('d, 'i) zlib \<Rightarrow> bytes \<Rightarrow> bytes \<Rightarrow> 'd \<Rightarrow> bool" for z where
  "deflated z [] [] (zl_deflate_new z)"
| "deflated z fed made d \<Longrightarrow> zl_deflate z d input flush room = (Inr (read, wrote, status), d') \<Longrightarrow>
     deflated z (fed @ take read input) (made @ wrote) d'"

text \<open>What an inflate context has taken and given since it was new.\<close>

inductive inflated :: "('d, 'i) zlib \<Rightarrow> bytes \<Rightarrow> bytes \<Rightarrow> 'i \<Rightarrow> bool" for z where
  "inflated z [] [] (zl_inflate_new z)"
| "inflated z given got i \<Longrightarrow> zl_inflate z i input room = (Inr (read, wrote, status), i') \<Longrightarrow>
     inflated z (given @ take read input) (got @ wrote) i'"

text \<open>
  \<open>decoded\<close> is what a beginning of a zlib stream says and \<open>ended\<close> whether it is the whole of one.  A deflate
  context never says more than it was given, has said all of it once a sync flush leaves room to spare, and
  ends its stream only where it is asked to.  What is left in it, \<open>left\<close>, comes out.
\<close>

definition deflate_ok :: "('d, 'i) zlib \<Rightarrow> (bytes \<Rightarrow> bytes) \<Rightarrow> (bytes \<Rightarrow> bool) \<Rightarrow> ('d \<Rightarrow> nat) \<Rightarrow> bool" where
  "deflate_ok z decoded ended left \<longleftrightarrow>
     (\<forall>fed made d input flush room read wrote status d'. deflated z fed made d \<longrightarrow> \<not> ended made \<longrightarrow>
        zl_deflate z d input flush room = (Inr (read, wrote, status), d') \<longrightarrow>
          read \<le> length input \<and> length wrote \<le> room
          \<and> prefix (decoded (made @ wrote)) (fed @ take read input)
          \<and> (flush = FlushSync \<longrightarrow> input = [] \<longrightarrow> length wrote < room \<longrightarrow> decoded (made @ wrote) = fed)
          \<and> (status = ZStreamEnd \<longleftrightarrow> ended (made @ wrote))
          \<and> (status = ZStreamEnd \<longrightarrow> flush = FlushFinish \<and> decoded (made @ wrote) = fed @ take read input)
          \<and> (read = 0 \<longrightarrow> wrote \<noteq> [] \<longrightarrow> flush = FlushNone \<or> length wrote = room \<longrightarrow> left d' < left d))"

text \<open>
  An inflate context says what its input does.  A call with room for output that takes nothing and gives
  nothing has no input and has given all there is; one that gives the last of an ended stream says so; and
  the output of a deflate context is no error.
\<close>

definition inflate_ok :: "('d, 'i) zlib \<Rightarrow> (bytes \<Rightarrow> bytes) \<Rightarrow> (bytes \<Rightarrow> bool) \<Rightarrow> bool" where
  "inflate_ok z decoded ended \<longleftrightarrow>
     (\<forall>given got i input room r i'. inflated z given got i \<longrightarrow> \<not> (ended given \<and> got = decoded given) \<longrightarrow> 0 < room \<longrightarrow>
        zl_inflate z i input room = (r, i') \<longrightarrow>
          (\<forall>e. r = Inl e \<longrightarrow> (\<forall>fed made d. deflated z fed made d \<longrightarrow> \<not> prefix (given @ input) made))
          \<and> (\<forall>read wrote status. r = Inr (read, wrote, status) \<longrightarrow>
               read \<le> length input \<and> length wrote \<le> room
               \<and> prefix (got @ wrote) (decoded (given @ take read input))
               \<and> (read = 0 \<longrightarrow> wrote = [] \<longrightarrow> status \<noteq> ZStreamEnd \<longrightarrow> input = [] \<and> got = decoded given)
               \<and> (status = ZStreamEnd \<longleftrightarrow> ended (given @ take read input) \<and> got @ wrote = decoded (given @ take read input))))"

definition codec_ok :: "('d, 'i) zlib \<Rightarrow> (bytes \<Rightarrow> bytes) \<Rightarrow> (bytes \<Rightarrow> bool) \<Rightarrow> ('d \<Rightarrow> nat) \<Rightarrow> bool" where
  "codec_ok z decoded ended left \<longleftrightarrow>
     decoded [] = [] \<and> \<not> ended [] \<and> (\<forall>a b. prefix (decoded a) (decoded (a @ b)))
     \<and> (\<forall>a b. ended a \<longrightarrow> ended (a @ b) \<and> decoded (a @ b) = decoded a)
     \<and> deflate_ok z decoded ended left \<and> inflate_ok z decoded ended"

lemma deflate_okD:
  assumes "codec_ok z decoded ended left" and "deflated z fed made d" and "\<not> ended made"
    and "zl_deflate z d input flush room = (Inr (read, wrote, status), d')"
  shows "read \<le> length input" "length wrote \<le> room" "prefix (decoded (made @ wrote)) (fed @ take read input)"
    "flush = FlushSync \<Longrightarrow> input = [] \<Longrightarrow> length wrote < room \<Longrightarrow> decoded (made @ wrote) = fed"
    "status = ZStreamEnd \<longleftrightarrow> ended (made @ wrote)"
    "status = ZStreamEnd \<Longrightarrow> flush = FlushFinish \<and> decoded (made @ wrote) = fed @ take read input"
    "read = 0 \<Longrightarrow> wrote \<noteq> [] \<Longrightarrow> flush = FlushNone \<or> length wrote = room \<Longrightarrow> left d' < left d"
proof -
  have "deflate_ok z decoded ended left" using assms(1) by (simp add: codec_ok_def)
  note all = this [unfolded deflate_ok_def, rule_format, OF assms(2-4)]
  show "read \<le> length input" "length wrote \<le> room" "prefix (decoded (made @ wrote)) (fed @ take read input)"
    "flush = FlushSync \<Longrightarrow> input = [] \<Longrightarrow> length wrote < room \<Longrightarrow> decoded (made @ wrote) = fed"
    "status = ZStreamEnd \<longleftrightarrow> ended (made @ wrote)"
    "status = ZStreamEnd \<Longrightarrow> flush = FlushFinish \<and> decoded (made @ wrote) = fed @ take read input"
    "read = 0 \<Longrightarrow> wrote \<noteq> [] \<Longrightarrow> flush = FlushNone \<or> length wrote = room \<Longrightarrow> left d' < left d"
    using all by blast+
qed

lemma inflate_okD:
  assumes "codec_ok z decoded ended left" and "inflated z given got i" and "\<not> (ended given \<and> got = decoded given)" and "0 < room"
    and "zl_inflate z i input room = (r, i')"
  shows "r = Inl e \<Longrightarrow> deflated z fed made d \<Longrightarrow> \<not> prefix (given @ input) made"
    "r = Inr (read, wrote, status) \<Longrightarrow> read \<le> length input \<and> length wrote \<le> room
       \<and> prefix (got @ wrote) (decoded (given @ take read input))
       \<and> (read = 0 \<longrightarrow> wrote = [] \<longrightarrow> status \<noteq> ZStreamEnd \<longrightarrow> input = [] \<and> got = decoded given)
       \<and> (status = ZStreamEnd \<longleftrightarrow> ended (given @ take read input) \<and> got @ wrote = decoded (given @ take read input))"
proof -
  have "inflate_ok z decoded ended" using assms(1) by (simp add: codec_ok_def)
  note all = this [unfolded inflate_ok_def, THEN spec, THEN spec, THEN spec, THEN spec, THEN spec, THEN spec, THEN spec,
      THEN mp, OF assms(2), THEN mp, OF assms(3), THEN mp, OF assms(4), THEN mp, OF assms(5)]
  show "r = Inl e \<Longrightarrow> deflated z fed made d \<Longrightarrow> \<not> prefix (given @ input) made"
    using all [THEN conjunct1] by blast
  show "r = Inr (read, wrote, status) \<Longrightarrow> read \<le> length input \<and> length wrote \<le> room
       \<and> prefix (got @ wrote) (decoded (given @ take read input))
       \<and> (read = 0 \<longrightarrow> wrote = [] \<longrightarrow> status \<noteq> ZStreamEnd \<longrightarrow> input = [] \<and> got = decoded given)
       \<and> (status = ZStreamEnd \<longleftrightarrow> ended (given @ take read input) \<and> got @ wrote = decoded (given @ take read input))"
    by (rule all [THEN conjunct2, THEN spec, THEN spec, THEN spec, THEN mp])
qed

section \<open>What a writer has sent\<close>

text \<open>The deflate context and the backlog agree with what has been given to them.\<close>

definition deflating :: "('d, 'i) zlib \<Rightarrow> (bytes \<Rightarrow> bool) \<Rightarrow> ('w, 'd, 'i) compress_stream \<Rightarrow> bool" where
  "deflating z ended s \<longleftrightarrow> deflated z (zc_fed s) (zc_made s) (zc_compress s) \<and> \<not> ended (zc_made s) \<and> backlog_ok (zc_out s)"

text \<open>What no call into the deflate context touches.\<close>

definition same_but_deflate :: "('w, 'd, 'i) compress_stream \<Rightarrow> ('w, 'd, 'i) compress_stream \<Rightarrow> bool" where
  "same_but_deflate s s' \<longleftrightarrow> zc_inner s' = zc_inner s \<and> zc_dirty s' = zc_dirty s \<and> zc_finished s' = zc_finished s
     \<and> (\<exists>more. zc_made s' = zc_made s @ more \<and> (backlog_ok (zc_out s) \<longrightarrow> backlog_ok (zc_out s')
         \<and> backlog_waiting (zc_out s') = backlog_waiting (zc_out s) @ more))"

lemma same_but_deflate_refl: "same_but_deflate s s"
  by (auto simp: same_but_deflate_def)

lemma same_but_deflate_trans:
  assumes "same_but_deflate s s'" and "same_but_deflate s' s''" shows "same_but_deflate s s''"
proof -
  from assms obtain a b where "zc_made s' = zc_made s @ a" "backlog_ok (zc_out s) \<longrightarrow> backlog_ok (zc_out s')
      \<and> backlog_waiting (zc_out s') = backlog_waiting (zc_out s) @ a"
    "zc_made s'' = zc_made s' @ b" "backlog_ok (zc_out s') \<longrightarrow> backlog_ok (zc_out s'')
      \<and> backlog_waiting (zc_out s'') = backlog_waiting (zc_out s') @ b"
    by (auto simp: same_but_deflate_def)
  then have "zc_made s'' = zc_made s @ (a @ b)" "backlog_ok (zc_out s) \<longrightarrow> backlog_ok (zc_out s'')
      \<and> backlog_waiting (zc_out s'') = backlog_waiting (zc_out s) @ (a @ b)"
    by simp_all
  with assms show ?thesis unfolding same_but_deflate_def by metis
qed

lemma deflate_step:
  assumes "codec_ok z decoded ended left" and "deflating z ended s"
    and "compress_deflate z input flush s = (Inr (read, wrote, status), s')"
  shows "same_but_deflate s s'" "read \<le> length input" "wrote \<le> COMPRESS_CHUNK" "zc_fed s' = zc_fed s @ take read input"
    "status \<noteq> ZStreamEnd \<Longrightarrow> deflating z ended s'"
    "flush = FlushSync \<Longrightarrow> input = [] \<Longrightarrow> wrote < COMPRESS_CHUNK \<Longrightarrow> decoded (zc_made s') = zc_fed s'"
    "status = ZStreamEnd \<Longrightarrow> flush = FlushFinish \<and> ended (zc_made s') \<and> decoded (zc_made s') = zc_fed s' \<and> backlog_ok (zc_out s')"
    "read = 0 \<Longrightarrow> wrote \<noteq> 0 \<Longrightarrow> flush = FlushNone \<or> wrote = COMPRESS_CHUNK \<Longrightarrow> left (zc_compress s') < left (zc_compress s)"
proof -
  from assms(3) obtain w d where
    call: "zl_deflate z (zc_compress s) input flush COMPRESS_CHUNK = (Inr (read, w, status), d)" "wrote = length w" and
    s': "s' = s\<lparr>zc_compress := d, zc_out := backlog_extend w (zc_out s),
             zc_fed := zc_fed s @ take read input, zc_made := zc_made s @ w\<rparr>"
    by (auto simp: compress_deflate_def split: prod.splits sum.splits)
  from assms(2) have s: "deflated z (zc_fed s) (zc_made s) (zc_compress s)" "\<not> ended (zc_made s)" "backlog_ok (zc_out s)"
    by (simp_all add: deflating_def)
  note law = deflate_okD [OF assms(1) s(1,2) call(1)]
  have next_: "deflated z (zc_fed s') (zc_made s') (zc_compress s')" using deflated.intros(2) [OF s(1) call(1)] by (simp add: s')
  show "same_but_deflate s s'" by (simp add: s' same_but_deflate_def backlog_extend_ok backlog_waiting_extend)
  show "read \<le> length input" "wrote \<le> COMPRESS_CHUNK" "zc_fed s' = zc_fed s @ take read input"
    using law(1,2) call(2) by (simp_all add: s')
  show "deflating z ended s'" if "status \<noteq> ZStreamEnd"
    using law(5) that next_ s(3) by (simp add: deflating_def s' backlog_extend_ok)
  show "decoded (zc_made s') = zc_fed s'" if "flush = FlushSync" "input = []" "wrote < COMPRESS_CHUNK"
    using law(4) that call(2) by (simp add: s')
  show "flush = FlushFinish \<and> ended (zc_made s') \<and> decoded (zc_made s') = zc_fed s' \<and> backlog_ok (zc_out s')" if "status = ZStreamEnd"
    using law(5,6) that s(3) by (simp add: s' backlog_extend_ok)
  show "left (zc_compress s') < left (zc_compress s)" if "read = 0" "wrote \<noteq> 0" "flush = FlushNone \<or> wrote = COMPRESS_CHUNK"
    using law(7) that call(2) by (simp add: s')
qed

text \<open>\<open>compress_input\<close> returns, having taken what it says it took, and ends no stream.\<close>

lemma compress_input_took:
  assumes "codec_ok z decoded ended left"
  shows "deflating z ended s \<Longrightarrow> offset \<le> length input \<Longrightarrow>
    \<exists>r s'. compress_input z input offset s = Some (r, s') \<and> (\<forall>k. r = Inr k \<longrightarrow>
      same_but_deflate s s' \<and> deflating z ended s' \<and> offset \<le> k \<and> k \<le> length input
      \<and> zc_fed s' = zc_fed s @ take (k - offset) (drop offset input))"
proof (induction "(length input - offset, left (zc_compress s))" arbitrary: offset s
    rule: wf_induct_rule [OF wf_lex_prod [OF wf_less_than wf_less_than]])
  case less: 1
  obtain res s1 where call: "compress_deflate z (drop offset input) FlushNone s = (res, s1)"
    by (cases "compress_deflate z (drop offset input) FlushNone s")
  show ?case
  proof (cases res)
    case (Inl e)
    with call show ?thesis by (simp add: compress_input.simps [of z input offset s] Let_def)
  next
    case (Inr a)
    obtain read wrote status where a: "a = (read, wrote, status)" by (cases a)
    note step = deflate_step [OF assms less(2) call [unfolded Inr a]]
    have st: "deflating z ended s1" using step(5,7) by blast
    have off: "offset + read \<le> length input" using step(2) less(3) by simp
    have fed: "zc_fed s1 = zc_fed s @ take read (drop offset input)" by (rule step(4))
    show ?thesis
    proof (cases "length input \<le> offset + read \<and> wrote < COMPRESS_CHUNK \<or> read = 0 \<and> wrote = 0")
      case True
      with call Inr a have "compress_input z input offset s = Some (Inr (offset + read), s1)"
        by (simp add: compress_input.simps [of z input offset s] Let_def)
      with step(1) st off fed show ?thesis by simp
    next
      case False
      with call Inr a have run: "compress_input z input offset s = compress_input z input (offset + read) s1"
        by (auto simp: compress_input.simps [of z input offset s] Let_def)
      have "0 < COMPRESS_CHUNK" by (simp add: COMPRESS_CHUNK_def)
      then have "((length input - (offset + read), left (zc_compress s1)), length input - offset, left (zc_compress s))
          \<in> less_than <*lex*> less_than"
        using False off step(8) by (cases "read = 0") auto
      from less(1) [OF this st off] obtain r s' where r: "compress_input z input (offset + read) s1 = Some (r, s')"
        "\<forall>k. r = Inr k \<longrightarrow> same_but_deflate s1 s' \<and> deflating z ended s' \<and> offset + read \<le> k \<and> k \<le> length input
            \<and> zc_fed s' = zc_fed s1 @ take (k - (offset + read)) (drop (offset + read) input)"
        by blast
      have "take read (drop offset input) @ take (k - (offset + read)) (drop (offset + read) input)
          = take (k - offset) (drop offset input)" if "offset + read \<le> k" for k
        using take_add [of read "k - (offset + read)" "drop offset input"] that by (simp add: add.commute)
      with r fed show ?thesis
        by (auto simp: run intro: same_but_deflate_trans [OF step(1)])
    qed
  qed
qed

text \<open>So does a flush, with all of what was taken said where it is a sync flush or the stream has ended.\<close>

lemma flush_compress_said:
  assumes "codec_ok z decoded ended left"
  shows "deflating z ended s \<Longrightarrow> \<exists>r s'. flush_compress z flush s = Some (r, s')
    \<and> (\<forall>over. r = Inr over \<longrightarrow> same_but_deflate s s' \<and> zc_fed s' = zc_fed s \<and> deflated z (zc_fed s') (zc_made s') (zc_compress s')
      \<and> backlog_ok (zc_out s')
      \<and> (over \<longleftrightarrow> ended (zc_made s')) \<and> (over \<longrightarrow> flush = FlushFinish)
      \<and> (over \<or> flush = FlushSync \<longrightarrow> decoded (zc_made s') = zc_fed s'))"
proof (induction "left (zc_compress s)" arbitrary: s rule: less_induct)
  case less
  obtain res s1 where call: "compress_deflate z [] flush s = (res, s1)" by (cases "compress_deflate z [] flush s")
  show ?case
  proof (cases res)
    case (Inl e)
    with call show ?thesis by (simp add: flush_compress.simps [of z flush s])
  next
    case (Inr a)
    obtain read wrote status where a: "a = (read, wrote, status)" by (cases a)
    note step = deflate_step [OF assms less(2) call [unfolded Inr a]]
    have same: "zc_fed s1 = zc_fed s" "read = 0" using step(2,4) by simp_all
    have d: "deflated z (zc_fed s1) (zc_made s1) (zc_compress s1)"
      using less(2) call Inr a deflated.intros(2)
      by (fastforce simp: deflating_def compress_deflate_def split: prod.splits sum.splits)
    consider "status = ZStreamEnd" | "status \<noteq> ZStreamEnd" "wrote < COMPRESS_CHUNK" | "status \<noteq> ZStreamEnd" "\<not> wrote < COMPRESS_CHUNK"
      by blast
    then show ?thesis
    proof cases
      case 1
      with call Inr a have "flush_compress z flush s = Some (Inr True, s1)" by (simp add: flush_compress.simps [of z flush s])
      with step(1) step(7) [OF 1] same d show ?thesis by simp
    next
      case 2
      with call Inr a have "flush_compress z flush s = Some (Inr False, s1)" by (simp add: flush_compress.simps [of z flush s])
      moreover have "\<not> ended (zc_made s1) \<and> backlog_ok (zc_out s1)" using step(5) [OF 2(1)] by (simp add: deflating_def)
      ultimately show ?thesis using step(1) step(6) 2(2) same d by simp
    next
      case 3
      with call Inr a have run: "flush_compress z flush s = flush_compress z flush s1" by (simp add: flush_compress.simps [of z flush s])
      have "wrote = COMPRESS_CHUNK" using step(3) 3(2) by simp
      then have "left (zc_compress s1) < left (zc_compress s)" using step(8) same(2) by (simp add: COMPRESS_CHUNK_def)
      from less(1) [OF this step(5) [OF 3(1)]] same(1) show ?thesis
        by (fastforce simp: run intro: same_but_deflate_trans [OF step(1)])
    qed
  qed
qed

section \<open>Runs of writes, flushes and closes\<close>

datatype stream_op = DoWrite bytes | DoFlush | DoClose

text \<open>What a run of polls answers: the bytes accepted, or the first error.\<close>

fun compress_ops ::
  "('d, 'i) zlib \<Rightarrow> ('w \<Rightarrow> bytes \<Rightarrow> nat io_result poll \<times> 'w) \<Rightarrow> ('w \<Rightarrow> unit io_result poll \<times> 'w) \<Rightarrow> ('w \<Rightarrow> unit io_result poll \<times> 'w)
    \<Rightarrow> stream_op list \<Rightarrow> ('w, 'd, 'i) compress_stream \<Rightarrow> (bytes io_result \<times> ('w, 'd, 'i) compress_stream) option" where
  "compress_ops z poll_write poll_flush poll_close [] s = Some (Inr [], s)"
| "compress_ops z poll_write poll_flush poll_close (DoWrite buf # ops) s =
     (case compress_poll_write z poll_write buf s of
        None \<Rightarrow> None
      | Some (Ready (Inl e), s) \<Rightarrow> Some (Inl e, s)
      | Some (Pending, s) \<Rightarrow> compress_ops z poll_write poll_flush poll_close ops s
      | Some (Ready (Inr n), s) \<Rightarrow>
          (case compress_ops z poll_write poll_flush poll_close ops s of
             None \<Rightarrow> None
           | Some (Inl e, s) \<Rightarrow> Some (Inl e, s)
           | Some (Inr bs, s) \<Rightarrow> Some (Inr (take n buf @ bs), s)))"
| "compress_ops z poll_write poll_flush poll_close (DoFlush # ops) s =
     (case compress_poll_flush z poll_write poll_flush s of
        None \<Rightarrow> None
      | Some (Ready (Inl e), s) \<Rightarrow> Some (Inl e, s)
      | Some (_, s) \<Rightarrow> compress_ops z poll_write poll_flush poll_close ops s)"
| "compress_ops z poll_write poll_flush poll_close (DoClose # ops) s =
     (case compress_poll_close z poll_write poll_close s of
        None \<Rightarrow> None
      | Some (Ready (Inl e), s) \<Rightarrow> Some (Inl e, s)
      | Some (_, s) \<Rightarrow> compress_ops z poll_write poll_flush poll_close ops s)"

locale byte_channel = byte_transport poll_write taken poll_flush
  for poll_write :: "'w \<Rightarrow> bytes \<Rightarrow> nat io_result poll \<times> 'w" and taken :: "'w \<Rightarrow> bytes"
    and poll_flush :: "'w \<Rightarrow> unit io_result poll \<times> 'w" +
  fixes poll_close :: "'w \<Rightarrow> unit io_result poll \<times> 'w"
  assumes closes: "taken (snd (poll_close w)) = taken w"
begin

definition said_ok ::
  "('d, 'i) zlib \<Rightarrow> (bytes \<Rightarrow> bytes) \<Rightarrow> (bytes \<Rightarrow> bool) \<Rightarrow> bytes \<Rightarrow> ('w, 'd, 'i) compress_stream \<Rightarrow> bool" where
  "said_ok z decoded ended before s \<longleftrightarrow> deflated z (zc_fed s) (zc_made s) (zc_compress s) \<and> backlog_ok (zc_out s)
     \<and> taken (zc_inner s) @ backlog_waiting (zc_out s) = before @ zc_made s
     \<and> (zc_finished s \<longleftrightarrow> ended (zc_made s))
     \<and> (\<not> zc_dirty s \<or> zc_finished s \<longrightarrow> decoded (zc_made s) = zc_fed s)"

lemma said_new: "codec_ok z decoded ended left \<Longrightarrow> said_ok z decoded ended (taken w) (compress_new z w reads)"
  by (simp add: said_ok_def compress_new_def deflated.intros codec_ok_def)

lemma compress_drained:
  assumes "compress_drain poll_write s = (r, s')" and "said_ok z decoded ended before s" and "\<forall>e. r \<noteq> Ready (Inl e)"
  shows "said_ok z decoded ended before s' \<and> zc_fed s' = zc_fed s \<and> zc_made s' = zc_made s \<and> zc_finished s' = zc_finished s
    \<and> zc_dirty s' = zc_dirty s \<and> (r = Ready (Inr ()) \<longrightarrow> backlog_waiting (zc_out s') = [])"
  using assms drain_kept [of "zc_out s" "zc_inner s"]
  by (cases "backlog_poll_drain poll_write (zc_out s) (zc_inner s)") (auto simp: compress_drain_def said_ok_def)

lemma said_deflated:
  assumes "said_ok z decoded ended before s" and "same_but_deflate s s'" and "deflated z (zc_fed s') (zc_made s') (zc_compress s')"
    and "backlog_ok (zc_out s')" and "finished \<longleftrightarrow> ended (zc_made s')" and "\<not> dirty \<or> finished \<longrightarrow> decoded (zc_made s') = zc_fed s'"
  shows "said_ok z decoded ended before (s'\<lparr>zc_dirty := dirty, zc_finished := finished\<rparr>)"
  using assms by (auto simp: said_ok_def same_but_deflate_def)

lemma compress_wrote:
  assumes "codec_ok z decoded ended left" and s: "said_ok z decoded ended before s"
  shows "\<exists>r s'. compress_poll_write z poll_write buf s = Some (r, s')
    \<and> ((\<forall>e. r \<noteq> Ready (Inl e)) \<longrightarrow> said_ok z decoded ended before s'
        \<and> (r = Pending \<longrightarrow> zc_fed s' = zc_fed s) \<and> (\<forall>n. r = Ready (Inr n) \<longrightarrow> zc_fed s' = zc_fed s @ take n buf))"
proof (cases "buf = [] \<or> zc_finished s")
  case True
  with s show ?thesis by (auto simp: compress_poll_write_def)
next
  case False
  obtain d s1 where d: "compress_drain poll_write s = (d, s1)" by (cases "compress_drain poll_write s")
  note [simp] = compress_poll_write_def
  consider (pending) "d = Pending" | (failed) e where "d = Ready (Inl e)" | (drained) "d = Ready (Inr ())"
    by (metis old.unit.exhaust poll.exhaust sum.exhaust)
  then show ?thesis
  proof cases
    case pending
    with False d compress_drained [OF d s] show ?thesis by simp
  next
    case failed
    with False d show ?thesis by simp
  next
    case drained
    with compress_drained [OF d s] have s1: "said_ok z decoded ended before s1" "zc_fed s1 = zc_fed s" "zc_finished s1 = zc_finished s"
      by simp_all
    with False have "deflating z ended s1" by (auto simp: said_ok_def deflating_def)
    from compress_input_took [OF assms(1) this, of 0 buf] obtain r s2 where c: "compress_input z buf 0 s1 = Some (r, s2)"
      "\<forall>k. r = Inr k \<longrightarrow> same_but_deflate s1 s2 \<and> deflating z ended s2 \<and> k \<le> length buf \<and> zc_fed s2 = zc_fed s1 @ take k buf"
      by auto
    show ?thesis
    proof (cases "\<exists>k. r = Inr k \<and> k \<noteq> 0")
      case False': False
      then show ?thesis using False d drained c(1) by (cases r) auto
    next
      case True
      then obtain k where k: "r = Inr k" "k \<noteq> 0" by blast
      with c(2) have s2: "same_but_deflate s1 s2" "deflating z ended s2" "zc_fed s2 = zc_fed s @ take k buf" using s1(2) by auto
      have "zc_finished s2 = False" using s2(1) s1(3) False by (simp add: same_but_deflate_def)
      then have eq: "s2\<lparr>zc_dirty := True\<rparr> = s2\<lparr>zc_dirty := True, zc_finished := False\<rparr>" by (cases s2) simp
      have s3: "said_ok z decoded ended before (s2\<lparr>zc_dirty := True\<rparr>)"
        by (subst eq, rule said_deflated [OF s1(1) s2(1)]) (use s2(2) in \<open>simp_all add: deflating_def\<close>)
      obtain d' s4 where d': "compress_drain poll_write (s2\<lparr>zc_dirty := True\<rparr>) = (d', s4)"
        by (cases "compress_drain poll_write (s2\<lparr>zc_dirty := True\<rparr>)")
      from False d drained c(1) k d' have "compress_poll_write z poll_write buf s
          = Some (case d' of Ready (Inl e) \<Rightarrow> (Ready (Inl e), s4) | _ \<Rightarrow> (Ready (Inr k), s4))"
        by (cases d' rule: poll_result_cases) simp_all
      with compress_drained [OF d' s3] s2(3) show ?thesis by (cases d' rule: poll_result_cases) simp_all
    qed
  qed
qed

lemma compress_ended:
  assumes "said_ok z decoded ended before s" and "compress_tail poll_write end_inner s = (r, s')" and "\<forall>e. r \<noteq> Ready (Inl e)"
    and "\<And>w. taken (snd (end_inner w)) = taken w"
  shows "said_ok z decoded ended before s' \<and> zc_fed s' = zc_fed s \<and> zc_dirty s' = zc_dirty s \<and> zc_finished s' = zc_finished s
    \<and> (r = Ready (Inr ()) \<longrightarrow> taken (zc_inner s') = before @ zc_made s')"
proof -
  obtain d s1 where d: "compress_drain poll_write s = (d, s1)" by (cases "compress_drain poll_write s")
  obtain f w where f: "end_inner (zc_inner s1) = (f, w)" by (cases "end_inner (zc_inner s1)")
  show ?thesis
  proof (cases "d = Ready (Inr ())")
    case True
    with d f assms(2) have "s' = s1\<lparr>zc_inner := w\<rparr>" by (simp add: compress_tail_def)
    with True compress_drained [OF d assms(1)] assms(4) [of "zc_inner s1"] f show ?thesis by (auto simp: said_ok_def)
  next
    case False
    with d assms(2) have "s' = s1 \<and> r = d" by (auto simp: compress_tail_def split: poll.splits sum.splits)
    with False compress_drained [OF d assms(1)] assms(3) show ?thesis by auto
  qed
qed

end

context byte_channel
begin

lemma compress_flushed:
  assumes "codec_ok z decoded ended left" and s: "said_ok z decoded ended before s"
  shows "\<exists>r s'. compress_poll_flush z poll_write poll_flush s = Some (r, s')
    \<and> ((\<forall>e. r \<noteq> Ready (Inl e)) \<longrightarrow> said_ok z decoded ended before s' \<and> zc_fed s' = zc_fed s
        \<and> (r = Ready (Inr ()) \<longrightarrow> taken (zc_inner s') = before @ zc_made s' \<and> decoded (zc_made s') = zc_fed s'))"
proof (cases "zc_dirty s \<and> \<not> zc_finished s")
  case False
  obtain r s' where t: "compress_tail poll_write poll_flush s = (r, s')" by (cases "compress_tail poll_write poll_flush s")
  with False have run: "compress_poll_flush z poll_write poll_flush s = Some (r, s')" by (auto simp: compress_poll_flush_def)
  have "said_ok z decoded ended before s' \<and> zc_fed s' = zc_fed s
      \<and> (r = Ready (Inr ()) \<longrightarrow> taken (zc_inner s') = before @ zc_made s' \<and> decoded (zc_made s') = zc_fed s')"
    if "\<forall>e. r \<noteq> Ready (Inl e)"
    using compress_ended [OF s t that flushes] False by (auto simp: said_ok_def)
  with run show ?thesis by blast
next
  case True
  with s have "deflating z ended s" by (auto simp: said_ok_def deflating_def)
  from flush_compress_said [OF assms(1) this, of FlushSync] obtain a s1 where f: "flush_compress z FlushSync s = Some (a, s1)"
    "\<forall>over. a = Inr over \<longrightarrow> same_but_deflate s s1 \<and> zc_fed s1 = zc_fed s \<and> deflated z (zc_fed s1) (zc_made s1) (zc_compress s1)
      \<and> backlog_ok (zc_out s1) \<and> (over \<longleftrightarrow> ended (zc_made s1)) \<and> (over \<longrightarrow> FlushSync = FlushFinish) \<and> decoded (zc_made s1) = zc_fed s1"
    by auto
  show ?thesis
  proof (cases a)
    case (Inl e)
    with True f(1) show ?thesis by (simp add: compress_poll_flush_def)
  next
    case (Inr over)
    with f(2) have s1: "same_but_deflate s s1" "zc_fed s1 = zc_fed s" "deflated z (zc_fed s1) (zc_made s1) (zc_compress s1)"
        "backlog_ok (zc_out s1)" "\<not> ended (zc_made s1)" "decoded (zc_made s1) = zc_fed s1"
      by auto
    have "zc_finished s1 = False" using s1(1) True by (simp add: same_but_deflate_def)
    then have eq: "s1\<lparr>zc_dirty := False\<rparr> = s1\<lparr>zc_dirty := False, zc_finished := False\<rparr>" by (cases s1) simp
    have s2: "said_ok z decoded ended before (s1\<lparr>zc_dirty := False\<rparr>)"
      by (subst eq, rule said_deflated [OF s s1(1,3,4)]) (use s1(5,6) in simp_all)
    obtain r s' where t: "compress_tail poll_write poll_flush (s1\<lparr>zc_dirty := False\<rparr>) = (r, s')"
      by (cases "compress_tail poll_write poll_flush (s1\<lparr>zc_dirty := False\<rparr>)")
    with True f(1) Inr have run: "compress_poll_flush z poll_write poll_flush s = Some (r, s')" by (simp add: compress_poll_flush_def)
    have "said_ok z decoded ended before s' \<and> zc_fed s' = zc_fed s
        \<and> (r = Ready (Inr ()) \<longrightarrow> taken (zc_inner s') = before @ zc_made s' \<and> decoded (zc_made s') = zc_fed s')"
      if "\<forall>e. r \<noteq> Ready (Inl e)"
      using compress_ended [OF s2 t that flushes] s1(2) by (auto simp: said_ok_def)
    with run show ?thesis by blast
  qed
qed

lemma compress_closed:
  assumes "codec_ok z decoded ended left" and s: "said_ok z decoded ended before s"
  shows "\<exists>r s'. compress_poll_close z poll_write poll_close s = Some (r, s')
    \<and> ((\<forall>e. r \<noteq> Ready (Inl e)) \<longrightarrow> said_ok z decoded ended before s' \<and> zc_fed s' = zc_fed s \<and> zc_finished s'
        \<and> (r = Ready (Inr ()) \<longrightarrow> taken (zc_inner s') = before @ zc_made s' \<and> decoded (zc_made s') = zc_fed s'))"
proof (cases "zc_finished s")
  case True
  obtain r s' where t: "compress_tail poll_write poll_close s = (r, s')" by (cases "compress_tail poll_write poll_close s")
  with True have run: "compress_poll_close z poll_write poll_close s = Some (r, s')" by (simp add: compress_poll_close_def)
  have "said_ok z decoded ended before s' \<and> zc_fed s' = zc_fed s \<and> zc_finished s'
      \<and> (r = Ready (Inr ()) \<longrightarrow> taken (zc_inner s') = before @ zc_made s' \<and> decoded (zc_made s') = zc_fed s')"
    if "\<forall>e. r \<noteq> Ready (Inl e)"
    using compress_ended [OF s t that closes] True by (auto simp: said_ok_def)
  with run show ?thesis by blast
next
  case False
  with s have "deflating z ended s" by (auto simp: said_ok_def deflating_def)
  from flush_compress_said [OF assms(1) this, of FlushFinish] obtain a s1 where f: "flush_compress z FlushFinish s = Some (a, s1)"
    "\<forall>over. a = Inr over \<longrightarrow> same_but_deflate s s1 \<and> zc_fed s1 = zc_fed s \<and> deflated z (zc_fed s1) (zc_made s1) (zc_compress s1)
      \<and> backlog_ok (zc_out s1) \<and> (over \<longleftrightarrow> ended (zc_made s1)) \<and> (over \<longrightarrow> decoded (zc_made s1) = zc_fed s1)"
    by auto
  show ?thesis
  proof (cases "a = Inr True")
    case False': False
    then have "\<exists>e s'. compress_poll_close z poll_write poll_close s = Some (Ready (Inl e), s')"
      using False f(1) by (cases a) (auto simp: compress_poll_close_def)
    then show ?thesis by auto
  next
    case True
    with f(2) have s1: "same_but_deflate s s1" "zc_fed s1 = zc_fed s" "deflated z (zc_fed s1) (zc_made s1) (zc_compress s1)"
        "backlog_ok (zc_out s1)" "ended (zc_made s1)" "decoded (zc_made s1) = zc_fed s1"
      by auto
    let ?s2 = "s1\<lparr>zc_dirty := False, zc_finished := True\<rparr>"
    have s2: "said_ok z decoded ended before ?s2" by (rule said_deflated [OF s s1(1,3,4)]) (use s1(5,6) in simp_all)
    obtain r s' where t: "compress_tail poll_write poll_close ?s2 = (r, s')" by (cases "compress_tail poll_write poll_close ?s2")
    with False f(1) True have run: "compress_poll_close z poll_write poll_close s = Some (r, s')" by (simp add: compress_poll_close_def)
    have "said_ok z decoded ended before s' \<and> zc_fed s' = zc_fed s \<and> zc_finished s'
        \<and> (r = Ready (Inr ()) \<longrightarrow> taken (zc_inner s') = before @ zc_made s' \<and> decoded (zc_made s') = zc_fed s')"
      if "\<forall>e. r \<noteq> Ready (Inl e)"
      using compress_ended [OF s2 t that closes] s1(2) by (auto simp: said_ok_def)
    with run show ?thesis by blast
  qed
qed

text \<open>A run returns, and what the deflate context has taken is what the writes accepted.\<close>

lemma compress_ops_said:
  assumes z: "codec_ok z decoded ended left"
  shows "said_ok z decoded ended before s \<Longrightarrow> \<exists>r s'. compress_ops z poll_write poll_flush poll_close ops s = Some (r, s')
    \<and> (\<forall>bs. r = Inr bs \<longrightarrow> said_ok z decoded ended before s' \<and> zc_fed s' = zc_fed s @ bs)"
proof (induction ops arbitrary: s)
  case (Cons op ops)
  show ?case
  proof (cases op)
    case (DoWrite buf)
    from compress_wrote [OF z Cons.prems, of buf] obtain r s1 where w: "compress_poll_write z poll_write buf s = Some (r, s1)"
      "(\<forall>e. r \<noteq> Ready (Inl e)) \<longrightarrow> said_ok z decoded ended before s1
        \<and> (r = Pending \<longrightarrow> zc_fed s1 = zc_fed s) \<and> (\<forall>n. r = Ready (Inr n) \<longrightarrow> zc_fed s1 = zc_fed s @ take n buf)"
      by blast
    show ?thesis
    proof (cases r rule: poll_result_cases)
      case 1
      with w DoWrite Cons.IH [of s1] show ?thesis by auto
    next
      case (2 e)
      with w DoWrite show ?thesis by simp
    next
      case (3 n)
      with w(2) have s1: "said_ok z decoded ended before s1" "zc_fed s1 = zc_fed s @ take n buf" by simp_all
      from Cons.IH [OF s1(1)] obtain r' s' where o: "compress_ops z poll_write poll_flush poll_close ops s1 = Some (r', s')"
        "\<forall>bs. r' = Inr bs \<longrightarrow> said_ok z decoded ended before s' \<and> zc_fed s' = zc_fed s1 @ bs"
        by blast
      with w(1) 3 DoWrite s1(2) show ?thesis by (cases r') simp_all
    qed
  next
    case DoFlush
    from compress_flushed [OF z Cons.prems] obtain r s1 where w: "compress_poll_flush z poll_write poll_flush s = Some (r, s1)"
      "(\<forall>e. r \<noteq> Ready (Inl e)) \<longrightarrow> said_ok z decoded ended before s1 \<and> zc_fed s1 = zc_fed s"
      by blast
    with DoFlush Cons.IH [of s1] show ?thesis by (cases r rule: poll_result_cases) auto
  next
    case DoClose
    from compress_closed [OF z Cons.prems] obtain r s1 where w: "compress_poll_close z poll_write poll_close s = Some (r, s1)"
      "(\<forall>e. r \<noteq> Ready (Inl e)) \<longrightarrow> said_ok z decoded ended before s1 \<and> zc_fed s1 = zc_fed s"
      by blast
    with DoClose Cons.IH [of s1] show ?thesis by (cases r rule: poll_result_cases) auto
  qed
qed simp

end

interpretation gatt_channel: byte_channel gatt_poll_write gatt_sent gatt_poll_flush gatt_poll_close
proof
  show "gatt_sent (snd (gatt_poll_close w)) = gatt_sent w" for w
    by (auto simp: gatt_poll_close_def gatt_sent_def split: list.splits outbound_answer.splits)
qed

definition noise_taken :: "('w, 't) noise_stream \<Rightarrow> bytes" where
  "noise_taken s = concat (nz_sent s)"

text \<open>The encrypted stream is a channel for the compressed one, over any writer.\<close>

lemma close_sent: "noise_poll_close poll_write poll_close s = (r, s') \<Longrightarrow> nz_sent s' = nz_sent s"
  by (auto simp: noise_poll_close_def Let_def split: prod.splits poll.splits sum.splits)

interpretation noise_channel: byte_channel "noise_poll_write poll_write sw" noise_taken "noise_poll_flush poll_write poll_flush"
  "noise_poll_close poll_write poll_close"
  for poll_write :: "'w \<Rightarrow> bytes \<Rightarrow> nat io_result poll \<times> 'w" and poll_flush poll_close and sw :: "('h, 't) snow"
proof
  fix s s' :: "('w, 't) noise_stream" and b n
  assume w: "noise_poll_write poll_write sw s b = (Ready (Inr n), s')"
  have "n \<le> length b"
    using w by (auto simp: noise_poll_write_def Let_def split: if_splits prod.splits poll.splits sum.splits)
  with noise_write_accepts [OF w] show "n \<le> length b \<and> noise_taken s' = noise_taken s @ take n b" by (simp add: noise_taken_def)
next
  fix s s' :: "('w, 't) noise_stream" and b
  assume "noise_poll_write poll_write sw s b = (Pending, s')"
  from noise_write_accepts [OF this] show "noise_taken s' = noise_taken s" by (simp add: noise_taken_def)
next
  fix s s' :: "('w, 't) noise_stream" and b e
  assume "noise_poll_write poll_write sw s b = (Ready (Inl e), s')"
  from write_sent [OF this] show "\<exists>n. noise_taken s' = noise_taken s @ take n b"
    by (auto simp: noise_taken_def intro: exI [of _ 0])
next
  fix s :: "('w, 't) noise_stream"
  show "noise_taken (snd (noise_poll_flush poll_write poll_flush s)) = noise_taken s"
    by (cases "noise_poll_flush poll_write poll_flush s") (simp add: noise_taken_def flush_sent)
  show "noise_taken (snd (noise_poll_close poll_write poll_close s)) = noise_taken s"
    by (cases "noise_poll_close poll_write poll_close s") (simp add: noise_taken_def close_sent)
qed

section \<open>What a reader is given\<close>

definition unread :: "('w, 'd, 'i) compress_stream \<Rightarrow> bytes" where
  "unread s = drop (zc_in_start s) (zc_in_buf s)"

text \<open>The inflate context agrees with what has been given to it and taken from it.\<close>

definition inflating ::
  "('d, 'i) zlib \<Rightarrow> (bytes \<Rightarrow> bytes) \<Rightarrow> (bytes \<Rightarrow> bool) \<Rightarrow> bytes \<Rightarrow> bytes \<Rightarrow> ('w, 'd, 'i) compress_stream \<Rightarrow> bool" where
  "inflating z decoded ended given got s \<longleftrightarrow> inflated z given got (zc_decompress s) \<and> zc_total_in s = length given
     \<and> zc_in_start s \<le> length (zc_in_buf s) \<and> (zc_stream_end s \<longleftrightarrow> ended given \<and> got = decoded given)
     \<and> prefix got (decoded given)"

lemma inflating_new:
  "codec_ok z decoded ended left \<Longrightarrow> inflating z decoded ended [] [] (compress_new z w reads) \<and> unread (compress_new z w reads) = []"
  by (simp add: inflating_def unread_def compress_new_def inflated.intros codec_ok_def)

lemma inflate_step:
  assumes z: "codec_ok z decoded ended left" and s: "inflating z decoded ended given got s" "\<not> zc_stream_end s" and n: "0 < n"
    and call: "zl_inflate z (zc_decompress s) (unread s) n = (Inr (read, wrote, status), i)"
  defines "s' \<equiv> compress_inflated read status i s" and "given' \<equiv> given @ take read (unread s)"
  shows "inflating z decoded ended given' (got @ wrote) s'" "unread s' = drop read (unread s)" "read \<le> length (unread s)"
    "length wrote \<le> n" "zc_reads s' = zc_reads s" "zc_read_eof s' = zc_read_eof s" "zc_stream_end s' \<longleftrightarrow> status = ZStreamEnd"
    "read = 0 \<Longrightarrow> wrote = [] \<Longrightarrow> \<not> zc_stream_end s' \<Longrightarrow> unread s = [] \<and> got = decoded given"
proof -
  have inf: "inflated z given got (zc_decompress s)" "\<not> (ended given \<and> got = decoded given)"
    "zc_total_in s = length given" "zc_in_start s \<le> length (zc_in_buf s)" "prefix got (decoded given)"
    using s by (auto simp: inflating_def)
  note law = inflate_okD [OF z inf(1,2) n call]
  have law2: "read \<le> length (unread s)" "length wrote \<le> n" "prefix (got @ wrote) (decoded given')"
    "read = 0 \<longrightarrow> wrote = [] \<longrightarrow> status \<noteq> ZStreamEnd \<longrightarrow> unread s = [] \<and> got = decoded given"
    "status = ZStreamEnd \<longleftrightarrow> ended given' \<and> got @ wrote = decoded given'"
    unfolding given'_def by (intro law(2) [OF refl, THEN conjunct1] law(2) [OF refl, THEN conjunct2, THEN conjunct1]
      law(2) [OF refl, THEN conjunct2, THEN conjunct2, THEN conjunct1]
      law(2) [OF refl, THEN conjunct2, THEN conjunct2, THEN conjunct2, THEN conjunct1]
      law(2) [OF refl, THEN conjunct2, THEN conjunct2, THEN conjunct2, THEN conjunct2])+
  show "read \<le> length (unread s)" "length wrote \<le> n" by (rule law2(1,2))+
  show "zc_reads s' = zc_reads s" "zc_read_eof s' = zc_read_eof s"
    by (simp_all add: s'_def compress_inflated_def Let_def)
  show end_: "zc_stream_end s' \<longleftrightarrow> status = ZStreamEnd" using s(2) by (simp add: s'_def compress_inflated_def Let_def)
  have len: "zc_in_start s + read \<le> length (zc_in_buf s)" using law2(1) inf(4) by (simp add: unread_def)
  show "unread s' = drop read (unread s)"
    using len by (simp add: s'_def compress_inflated_def unread_def Let_def add.commute)
  have "inflated z given' (got @ wrote) i" using inflated.intros(2) [OF inf(1) call] by (simp add: given'_def)
  moreover have "zc_total_in s' = length given'" using inf(3) law2(1) by (simp add: s'_def compress_inflated_def given'_def Let_def)
  moreover have "zc_in_start s' \<le> length (zc_in_buf s')" using len by (simp add: s'_def compress_inflated_def Let_def)
  moreover have "zc_decompress s' = i" by (simp add: s'_def compress_inflated_def Let_def)
  ultimately show "inflating z decoded ended given' (got @ wrote) s'" using end_ law2(3,5) by (simp add: inflating_def)
  show "unread s = [] \<and> got = decoded given" if "read = 0" "wrote = []" "\<not> zc_stream_end s'"
    using law2(4) that end_ by simp
qed

text \<open>
  What one read comes to: \<open>used\<close> are the reads of the inner stream it made, and \<open>eof\<close> whether that has ended.  It
  never breaks off with bytes of the stream in hand.
\<close>

definition came_to ::
  "('d, 'i) zlib \<Rightarrow> (bytes \<Rightarrow> bytes) \<Rightarrow> (bytes \<Rightarrow> bool) \<Rightarrow> bytes \<Rightarrow> bytes \<Rightarrow> bytes io_result poll list \<Rightarrow> bool
    \<Rightarrow> bytes io_result poll \<Rightarrow> ('w, 'd, 'i) compress_stream \<Rightarrow> bool" where
  "came_to z decoded ended given got used eof r s \<longleftrightarrow>
     (\<exists>e. r = Ready (Inl (PeerFault (DecompressFailed e)))
        \<and> (\<forall>fed made d. deflated z fed made d \<longrightarrow> \<not> prefix (given @ unread s) made))
     \<or> inflating z decoded ended given (got @ read_out r) s \<and>
       ((\<exists>bs. r = Ready (Inr bs) \<and> bs \<noteq> [])
        \<or> r = Ready (Inr []) \<and> (zc_stream_end s \<or> given = [] \<and> unread s = [] \<and> eof)
        \<or> r = Pending \<and> unread s = [] \<and> got = decoded given \<and> \<not> eof \<and> (zc_reads s = [] \<or> used \<noteq> [])
        \<or> r = Ready (Inl UnexpectedEof) \<and> unread s = [] \<and> got = decoded given \<and> given \<noteq> [] \<and> \<not> ended given \<and> eof
        \<or> (\<exists>e. r = Ready (Inl e) \<and> Ready (Inl e) \<in> set used))"

lemma came_to_more:
  assumes "came_to z decoded ended given got used eof r s"
  shows "came_to z decoded ended given got (used' @ used) eof r s"
proof -
  have "set used \<subseteq> set (used' @ used)" "used \<noteq> [] \<longrightarrow> used' @ used \<noteq> []" by auto
  with assms show ?thesis unfolding came_to_def by blast
qed

definition read_came ::
  "('d, 'i) zlib \<Rightarrow> (bytes \<Rightarrow> bytes) \<Rightarrow> (bytes \<Rightarrow> bool) \<Rightarrow> bytes \<Rightarrow> bytes \<Rightarrow> ('w, 'd, 'i) compress_stream
    \<Rightarrow> bytes io_result poll \<Rightarrow> ('w, 'd, 'i) compress_stream \<Rightarrow> bool" where
  "read_came z decoded ended given got s r s' \<longleftrightarrow>
     (\<exists>used given' eof. zc_reads s = used @ zc_reads s' \<and> given' @ unread s' = given @ unread s @ chunk_bytes used
       \<and> zc_read_eof s' = eof \<and> (eof \<longrightarrow> zc_read_eof s \<or> Ready (Inr []) \<in> set used)
       \<and> (zc_read_eof s \<longrightarrow> eof \<and> used = [])
       \<and> came_to z decoded ended given' got used eof r s')"

lemma read_cameI:
  assumes "zc_reads s = used @ zc_reads s'" and "given' @ unread s' = given @ unread s @ chunk_bytes used"
    and "zc_read_eof s' = eof" and "eof \<longrightarrow> zc_read_eof s \<or> Ready (Inr []) \<in> set used"
    and "zc_read_eof s \<longrightarrow> eof \<and> used = []"
    and "came_to z decoded ended given' got used eof r s'"
  shows "read_came z decoded ended given got s r s'"
  unfolding read_came_def using assms by blast

lemma read_came_more:
  assumes "read_came z decoded ended given1 got s1 r s'" and "zc_reads s = used1 @ zc_reads s1"
    and "given1 @ unread s1 = given @ unread s @ chunk_bytes used1"
    and "zc_read_eof s1 \<longrightarrow> zc_read_eof s \<or> Ready (Inr []) \<in> set used1" and "zc_read_eof s \<longrightarrow> zc_read_eof s1 \<and> used1 = []"
  shows "read_came z decoded ended given got s r s'"
proof -
  from assms(1) obtain used given' eof where u: "zc_reads s1 = used @ zc_reads s'" "given' @ unread s' = given1 @ unread s1 @ chunk_bytes used"
    "zc_read_eof s' = eof" "eof \<longrightarrow> zc_read_eof s1 \<or> Ready (Inr []) \<in> set used" "zc_read_eof s1 \<longrightarrow> eof \<and> used = []"
    "came_to z decoded ended given' got used eof r s'"
    unfolding read_came_def by blast
  show ?thesis
  proof (rule read_cameI)
    show "zc_reads s = (used1 @ used) @ zc_reads s'" "given' @ unread s' = given @ unread s @ chunk_bytes (used1 @ used)"
      using assms(2,3) u(1,2) by (simp_all add: chunk_bytes_def flip: append_assoc)
    show "eof \<longrightarrow> zc_read_eof s \<or> Ready (Inr []) \<in> set (used1 @ used)" using assms(4) u(4) by auto
    show "came_to z decoded ended given' got (used1 @ used) eof r s'" by (rule came_to_more [OF u(6)])
    show "zc_read_eof s \<longrightarrow> eof \<and> used1 @ used = []" using assms(5) u(5) by auto
  qed (rule u(3))
qed

text \<open>A read returns, having come to one of those.\<close>

lemma compress_read_came:
  assumes z: "codec_ok z decoded ended left" and n: "0 < n"
  shows "inflating z decoded ended given got s \<Longrightarrow>
    \<exists>r s'. compress_read_loop z n s = Some (r, s') \<and> read_came z decoded ended given got s r s'"
proof (induction "(length (zc_reads s), length (unread s))" arbitrary: given s
    rule: wf_induct_rule [OF wf_lex_prod [OF wf_less_than wf_less_than]])
  case less: 1
  note s = less(2)
  note run = compress_read_loop.simps [of z n s]
  show ?case
  proof (cases "zc_stream_end s")
    case True
    have "read_came z decoded ended given got s (Ready (Inr [])) s"
      by (rule read_cameI [of _ "[]" _ given _ "zc_read_eof s"]) (use s True in \<open>simp_all add: chunk_bytes_def came_to_def\<close>)
    with True run show ?thesis by simp
  next
    case False
    obtain x i where call: "zl_inflate z (zc_decompress s) (unread s) n = (x, i)"
      by (cases "zl_inflate z (zc_decompress s) (unread s) n")
    have inf: "inflated z given got (zc_decompress s)" "\<not> (ended given \<and> got = decoded given)" using s False by (auto simp: inflating_def)
    show ?thesis
    proof (cases x)
      case (Inl e)
      let ?s = "s\<lparr>zc_decompress := i\<rparr>"
      have "read_came z decoded ended given got s (Ready (Inl (PeerFault (DecompressFailed e)))) ?s"
        by (rule read_cameI [of _ "[]" _ given _ "zc_read_eof s"])
          (use inflate_okD(1) [OF z inf n call Inl] in \<open>auto simp: unread_def chunk_bytes_def came_to_def\<close>)
      with run False call Inl show ?thesis by (simp add: unread_def)
    next
      case (Inr a)
      obtain read wrote status where a: "a = (read, wrote, status)" by (cases a)
      let ?s = "compress_inflated read status i s" and ?given = "given @ take read (unread s)"
      note step = inflate_step [OF z s False n call [unfolded Inr a]]
      have all: "?given @ unread ?s = given @ unread s" using step(2) by simp
      have run': "compress_read_loop z n s =
          (if wrote \<noteq> [] then Some (Ready (Inr wrote), ?s)
           else if zc_stream_end ?s then Some (Ready (Inr []), ?s)
           else if 0 < read then compress_read_loop z n ?s
           else if zc_read_eof ?s
           then (if zc_stream_end ?s \<or> zc_total_in ?s = 0 then Some (Ready (Inr []), ?s) else Some (Ready (Inl UnexpectedEof), ?s))
           else case zc_reads ?s of
                  [] \<Rightarrow> Some (Pending, ?s)
                | Pending # rest \<Rightarrow> Some (Pending, ?s\<lparr>zc_reads := rest\<rparr>)
                | Ready (Inl e) # rest \<Rightarrow> Some (Ready (Inl e), ?s\<lparr>zc_reads := rest\<rparr>)
                | Ready (Inr bs) # rest \<Rightarrow>
                    if bs = [] then compress_read_loop z n (?s\<lparr>zc_reads := rest, zc_read_eof := True\<rparr>)
                    else compress_read_loop z n (?s\<lparr>zc_reads := rest, zc_in_buf := zc_in_buf ?s @ bs\<rparr>))"
        unfolding run using False call [unfolded Inr a unread_def] by (simp only: if_False prod.case sum.case Let_def)
      consider (wrote) "wrote \<noteq> []" | (over) "wrote = []" "zc_stream_end ?s" | (took) "wrote = []" "\<not> zc_stream_end ?s" "0 < read"
        | (dry) "wrote = []" "\<not> zc_stream_end ?s" "read = 0" by blast
      then show ?thesis
      proof cases
        case wrote
        then have "read_came z decoded ended given got s (Ready (Inr wrote)) ?s"
          by (intro read_cameI [of _ "[]" _ ?given _ "zc_read_eof s"])
            (use step(1,5,6) all in \<open>simp_all add: chunk_bytes_def came_to_def\<close>)
        with run' wrote show ?thesis by simp
      next
        case over
        then have "read_came z decoded ended given got s (Ready (Inr [])) ?s"
          by (intro read_cameI [of _ "[]" _ ?given _ "zc_read_eof s"])
            (use step(1,5,6) all in \<open>simp_all add: chunk_bytes_def came_to_def\<close>)
        with run' over show ?thesis by simp
      next
        case took
        have "((length (zc_reads ?s), length (unread ?s)), length (zc_reads s), length (unread s)) \<in> less_than <*lex*> less_than"
          using step(2,3,5) took(3) by simp
        moreover have "inflating z decoded ended ?given got ?s" using step(1) took(1) by simp
        ultimately obtain r s' where
          r: "compress_read_loop z n ?s = Some (r, s')" "read_came z decoded ended ?given got ?s r s'"
          using less(1) by blast
        have "read_came z decoded ended given got s r s'"
          by (rule read_came_more [OF r(2), of _ "[]"]) (use step(5,6) all in \<open>simp_all add: chunk_bytes_def\<close>)
        with run' took r(1) show ?thesis by simp
      next
        case dry
        with step(8) have d: "unread s = []" "got = decoded given" by simp_all
        have st: "inflating z decoded ended given got ?s" "unread ?s = []" using step(1,2) dry d(1) by simp_all
        show ?thesis
        proof (cases "zc_read_eof s")
          case True
          have total: "zc_total_in ?s = length given" using st(1) by (simp add: inflating_def)
          have "\<not> ended given" using st(1) dry(2) d(2) by (simp add: inflating_def)
          then have c: "came_to z decoded ended given got [] True (if given = [] then Ready (Inr []) else Ready (Inl UnexpectedEof)) ?s"
            using st d(2) by (cases "given = []") (simp_all add: came_to_def)
          have "read_came z decoded ended given got s (if given = [] then Ready (Inr []) else Ready (Inl UnexpectedEof)) ?s"
            by (rule read_cameI [OF _ _ _ _ _ c]) (simp_all add: step(5,6) st(2) d(1) True chunk_bytes_def)
          with run' dry True step(6) total show ?thesis by (simp split: if_splits)
        next
          case eof: False
          show ?thesis
          proof (cases "zc_reads s")
            case Nil
            then have "read_came z decoded ended given got s Pending ?s"
              by (intro read_cameI [of _ "[]" _ given _ False])
                (use st step(5,6) d eof in \<open>simp_all add: chunk_bytes_def came_to_def\<close>)
            with run' dry eof step(5,6) Nil show ?thesis by simp
          next
            case (Cons y rest)
            have kept: "inflating z decoded ended given got (?s\<lparr>zc_reads := rest\<rparr>)" "unread (?s\<lparr>zc_reads := rest\<rparr>) = []"
              using st by (simp_all add: inflating_def unread_def)
            show ?thesis
            proof (cases y rule: poll_result_cases)
              case 1
              then have "read_came z decoded ended given got s Pending (?s\<lparr>zc_reads := rest\<rparr>)"
                by (intro read_cameI [of _ "[Pending]" _ given _ False])
                  (use kept d Cons step(6) eof in \<open>simp_all add: chunk_bytes_def came_to_def\<close>)
              with run' dry eof step(5,6) Cons 1 show ?thesis by simp
            next
              case (2 e)
              then have "read_came z decoded ended given got s (Ready (Inl e)) (?s\<lparr>zc_reads := rest\<rparr>)"
                by (intro read_cameI [of _ "[Ready (Inl e)]" _ given _ False])
                  (use kept d Cons step(6) eof in \<open>simp_all add: chunk_bytes_def came_to_def\<close>)
              with run' dry eof step(5,6) Cons 2 show ?thesis by simp
            next
              case (3 bs)
              let ?t = "if bs = [] then ?s\<lparr>zc_reads := rest, zc_read_eof := True\<rparr>
                else ?s\<lparr>zc_reads := rest, zc_in_buf := zc_in_buf ?s @ bs\<rparr>"
              have "zc_in_start ?s \<le> length (zc_in_buf ?s)" using st(1) by (simp add: inflating_def)
              then have t: "inflating z decoded ended given got ?t" "unread ?t = bs" "zc_reads ?t = rest"
                "zc_read_eof ?t \<Longrightarrow> bs = []"
                using st eof step(6) by (simp_all add: inflating_def unread_def split: if_splits)
              have "((length (zc_reads ?t), length (unread ?t)), length (zc_reads s), length (unread s)) \<in> less_than <*lex*> less_than"
                using t(3) Cons by simp
              from less(1) [OF this t(1)] obtain r s' where
                r: "compress_read_loop z n ?t = Some (r, s')" "read_came z decoded ended given got ?t r s'" by blast
              have "zc_reads s = [Ready (Inr bs)] @ zc_reads ?t" by (simp only: t(3) Cons 3 append.simps)
              moreover have "given @ unread ?t = given @ unread s @ chunk_bytes [Ready (Inr bs)]"
                unfolding t(2) d(1) by (simp add: chunk_bytes_def)
              moreover have "zc_read_eof ?t \<longrightarrow> zc_read_eof s \<or> Ready (Inr []) \<in> set [Ready (Inr bs)]"
                by (rule impI, drule t(4)) simp
              ultimately have "read_came z decoded ended given got s r s'" by (rule read_came_more [OF r(2)]) (simp add: eof)
              with run' dry eof step(5,6) Cons 3 r(1) show ?thesis by (simp split: if_splits)
            qed
          qed
        qed
      qed
    qed
  qed
qed

section \<open>A run of reads\<close>

text \<open>The results of one read after another with buffers of these sizes, up to the first that fails.\<close>

fun compress_reads ::
  "('d, 'i) zlib \<Rightarrow> nat list \<Rightarrow> ('w, 'd, 'i) compress_stream
    \<Rightarrow> (bytes io_result poll list \<times> ('w, 'd, 'i) compress_stream) option" where
  "compress_reads z [] s = Some ([], s)"
| "compress_reads z (n # ns) s =
     (case compress_poll_read z n s of
        None \<Rightarrow> None
      | Some (Ready (Inl e), s) \<Rightarrow> Some ([Ready (Inl e)], s)
      | Some (r, s) \<Rightarrow> map_option (\<lambda>(rs, s). (r # rs, s)) (compress_reads z ns s))"

lemma compress_reads_Cons:
  "compress_poll_read z n s = Some (r, s1) \<Longrightarrow> \<nexists>e. r = Ready (Inl e) \<Longrightarrow>
     compress_reads z (n # ns) s = map_option (\<lambda>(rs, s). (r # rs, s)) (compress_reads z ns s1)"
  by (cases r rule: poll_result_cases) simp_all

lemma codec_mono: "codec_ok z decoded ended left \<Longrightarrow> prefix a b \<Longrightarrow> prefix (decoded a) (decoded b)"
  by (auto simp: codec_ok_def elim!: prefixE)

lemma read_came_prefix:
  assumes z: "codec_ok z decoded ended left" and s: "inflating z decoded ended given got s"
    and r: "read_came z decoded ended given got s r s'"
  shows "\<exists>used. zc_reads s = used @ zc_reads s' \<and> prefix (got @ read_out r) (decoded (given @ unread s @ chunk_bytes used))"
proof -
  from r obtain used given' eof where u: "zc_reads s = used @ zc_reads s'" "given' @ unread s' = given @ unread s @ chunk_bytes used"
    "came_to z decoded ended given' got used eof r s'"
    unfolding read_came_def by blast
  then have u3: "(\<exists>e. r = Ready (Inl e)) \<or> inflating z decoded ended given' (got @ read_out r) s'"
    unfolding came_to_def by blast
  have "prefix given' (given @ unread s @ chunk_bytes used)" using u(2) by (metis prefixI)
  note given' = codec_mono [OF z this]
  have "prefix got (decoded given)" using s by (simp add: inflating_def)
  moreover have "prefix (decoded given) (decoded (given @ unread s @ chunk_bytes used))" by (rule codec_mono [OF z]) simp
  ultimately have got: "prefix got (decoded (given @ unread s @ chunk_bytes used))" by (rule prefix_order.trans)
  from u3 have "prefix (got @ read_out r) (decoded (given @ unread s @ chunk_bytes used))"
  proof
    assume "\<exists>e. r = Ready (Inl e)"
    with got show ?thesis by auto
  next
    assume "inflating z decoded ended given' (got @ read_out r) s'"
    then have "prefix (got @ read_out r) (decoded given')" by (simp add: inflating_def)
    from prefix_order.trans [OF this given'] show ?thesis .
  qed
  with u(1) show ?thesis by blast
qed

text \<open>Whatever the reads of the inner stream give, what is read is what a beginning of them says.\<close>

lemma compress_reads_prefix:
  assumes z: "codec_ok z decoded ended left"
  shows "inflating z decoded ended given got s \<Longrightarrow> \<forall>n \<in> set ns. 0 < n \<Longrightarrow>
    \<exists>rs s' used. compress_reads z ns s = Some (rs, s') \<and> zc_reads s = used @ zc_reads s'
      \<and> prefix (got @ concat (map read_out rs)) (decoded (given @ unread s @ chunk_bytes used))"
proof (induction ns arbitrary: given got s)
  case Nil
  have "prefix got (decoded given)" using Nil(1) by (simp add: inflating_def)
  moreover have "prefix (decoded given) (decoded (given @ unread s))" by (rule codec_mono [OF z]) simp
  ultimately have "prefix got (decoded (given @ unread s))" by (rule prefix_order.trans)
  then show ?case by (simp add: chunk_bytes_def)
next
  case (Cons n ns)
  then have n: "0 < n" by simp
  from compress_read_came [OF z n Cons.prems(1)] obtain r s1 where
    r: "compress_read_loop z n s = Some (r, s1)" "read_came z decoded ended given got s r s1" by blast
  have poll: "compress_poll_read z n s = Some (r, s1)" using r(1) n by (simp add: compress_poll_read_def)
  show ?case
  proof (cases "\<exists>e. r = Ready (Inl e)")
    case True
    with read_came_prefix [OF z Cons.prems(1) r(2)] poll show ?thesis by auto
  next
    case False
    with r(2) obtain used given1 where u: "zc_reads s = used @ zc_reads s1" "given1 @ unread s1 = given @ unread s @ chunk_bytes used"
      "inflating z decoded ended given1 (got @ read_out r) s1"
      unfolding read_came_def came_to_def by blast
    from Cons.IH [OF u(3)] Cons.prems(2) obtain rs s' used' where
      i: "compress_reads z ns s1 = Some (rs, s')" "zc_reads s1 = used' @ zc_reads s'"
      "prefix ((got @ read_out r) @ concat (map read_out rs)) (decoded (given1 @ unread s1 @ chunk_bytes used'))"
      by auto
    have "compress_reads z (n # ns) s = Some (r # rs, s')"
      using compress_reads_Cons [OF poll] False i(1) by simp
    moreover have "zc_reads s = (used @ used') @ zc_reads s'" using u(1) i(2) by simp
    moreover have "given1 @ unread s1 @ chunk_bytes used' = given @ unread s @ chunk_bytes (used @ used')"
      using u(2) by (simp add: chunk_bytes_def flip: append_assoc)
    ultimately show ?thesis using i(3)
      by (intro exI [of _ "r # rs"] exI [of _ s'] exI [of _ "used @ used'"]) simp
  qed
qed

text \<open>
  Reads of a stream that is still open and has nothing wrong with it: each gives something, comes to the end of
  the zlib stream, or has all that has arrived.
\<close>

definition open_reads :: "bytes io_result poll list \<Rightarrow> bool" where
  "open_reads reads \<longleftrightarrow> (\<forall>r \<in> set reads. r = Pending \<or> (\<exists>bs. r = Ready (Inr bs) \<and> bs \<noteq> []))"

lemma read_came_open:
  assumes r: "read_came z decoded ended given got s r s'" and open_: "open_reads (zc_reads s)" "\<not> zc_read_eof s"
    and made: "deflated z fed made d" "given @ unread s @ chunk_bytes (zc_reads s) = made"
  shows "\<exists>given'. inflating z decoded ended given' (got @ read_out r) s' \<and> open_reads (zc_reads s') \<and> \<not> zc_read_eof s'
    \<and> given' @ unread s' @ chunk_bytes (zc_reads s') = made \<and> (\<exists>used. zc_reads s = used @ zc_reads s')
    \<and> ((\<exists>bs. r = Ready (Inr bs) \<and> bs \<noteq> []) \<or> r = Ready (Inr []) \<and> zc_stream_end s'
       \<or> r = Pending \<and> (length (zc_reads s') < length (zc_reads s) \<or> zc_reads s' = [] \<and> unread s' = [] \<and> got = decoded given'))"
proof -
  from r obtain used given' eof where u: "zc_reads s = used @ zc_reads s'" "given' @ unread s' = given @ unread s @ chunk_bytes used"
    and eof: "zc_read_eof s' = eof" "eof \<longrightarrow> zc_read_eof s \<or> Ready (Inr []) \<in> set used"
    and o: "came_to z decoded ended given' got used eof r s'"
    unfolding read_came_def by blast
  have all: "given' @ unread s' @ chunk_bytes (zc_reads s') = made"
    using u made(2) by (simp add: chunk_bytes_def flip: append_assoc)
  then have "prefix (given' @ unread s') made" by (metis append.assoc prefixI)
  with made(1) have no_fault: "\<not> (\<forall>fed made d. deflated z fed made d \<longrightarrow> \<not> prefix (given' @ unread s') made)" by blast
  have used: "Ready (Inr []) \<notin> set used" "\<And>e. Ready (Inl e) \<notin> set used" "open_reads (zc_reads s')"
    using open_(1) u(1) by (auto simp: open_reads_def)
  have len: "used \<noteq> [] \<Longrightarrow> length (zc_reads s') < length (zc_reads s)" using u(1) by simp
  have not_eof: "\<not> eof" using eof(2) used(1) open_(2) by blast
  from o no_fault used(2) not_eof have "inflating z decoded ended given' (got @ read_out r) s'
      \<and> ((\<exists>bs. r = Ready (Inr bs) \<and> bs \<noteq> []) \<or> r = Ready (Inr []) \<and> zc_stream_end s'
         \<or> r = Pending \<and> unread s' = [] \<and> got = decoded given' \<and> (zc_reads s' = [] \<or> used \<noteq> []))"
    unfolding came_to_def by blast
  with all used(3) u(1) len eof(1) not_eof show ?thesis by (intro exI [of _ given']) blast
qed

text \<open>Enough reads of it read all that has arrived.\<close>

lemma compress_reads_all:
  assumes z: "codec_ok z decoded ended left" and made: "deflated z fed made d"
  shows "inflating z decoded ended given got s \<Longrightarrow> open_reads (zc_reads s) \<Longrightarrow> \<not> zc_read_eof s \<Longrightarrow>
    given @ unread s @ chunk_bytes (zc_reads s) = made \<Longrightarrow> \<forall>n \<in> set ns. 0 < n \<Longrightarrow>
    \<exists>rs s'. compress_reads z ns s = Some (rs, s') \<and> prefix (got @ concat (map read_out rs)) (decoded made)
      \<and> (\<forall>r \<in> set rs. r = Pending \<or> (\<exists>bs. r = Ready (Inr bs) \<and> (bs \<noteq> [] \<or> ended made)))
      \<and> (got @ concat (map read_out rs) = decoded made
         \<or> length ns + length (zc_reads s') \<le> length (concat (map read_out rs)) + length (zc_reads s))"
proof (induction ns arbitrary: given got s)
  case Nil
  have "prefix got (decoded given)" using Nil(1) by (simp add: inflating_def)
  moreover have "prefix (decoded given) (decoded made)" by (rule codec_mono [OF z]) (use Nil(4) in auto)
  ultimately have "prefix got (decoded made)" by (rule prefix_order.trans)
  then show ?case by simp
next
  case (Cons n ns)
  then have n: "0 < n" by simp
  from compress_read_came [OF z n Cons.prems(1)] obtain r s1 where
    r: "compress_read_loop z n s = Some (r, s1)" "read_came z decoded ended given got s r s1" by blast
  have poll: "compress_poll_read z n s = Some (r, s1)" using r(1) n by (simp add: compress_poll_read_def)
  from read_came_open [OF r(2) Cons.prems(2,3) made Cons.prems(4)] obtain given1 used where
    g: "inflating z decoded ended given1 (got @ read_out r) s1" "open_reads (zc_reads s1)" "\<not> zc_read_eof s1"
      "given1 @ unread s1 @ chunk_bytes (zc_reads s1) = made" "zc_reads s = used @ zc_reads s1" and
    o: "(\<exists>bs. r = Ready (Inr bs) \<and> bs \<noteq> []) \<or> r = Ready (Inr []) \<and> zc_stream_end s1
      \<or> r = Pending \<and> (length (zc_reads s1) < length (zc_reads s) \<or> zc_reads s1 = [] \<and> unread s1 = [] \<and> got = decoded given1)"
    by blast
  from Cons.IH [OF g(1-4)] Cons.prems(5) obtain rs s' where
    i: "compress_reads z ns s1 = Some (rs, s')" "prefix ((got @ read_out r) @ concat (map read_out rs)) (decoded made)"
      "\<forall>r \<in> set rs. r = Pending \<or> (\<exists>bs. r = Ready (Inr bs) \<and> (bs \<noteq> [] \<or> ended made))"
      "(got @ read_out r) @ concat (map read_out rs) = decoded made
         \<or> length ns + length (zc_reads s') \<le> length (concat (map read_out rs)) + length (zc_reads s1)"
    by auto
  have run: "compress_reads z (n # ns) s = Some (r # rs, s')"
    using compress_reads_Cons [OF poll] o i(1) by auto
  have le: "length (zc_reads s1) \<le> length (zc_reads s)" using g(5) by simp
  have whole: "got @ read_out r @ concat (map read_out rs) = decoded made" if "decoded made = got @ read_out r"
    using i(2) that by (simp add: prefix_def)
  from o have "got @ read_out r @ concat (map read_out rs) = decoded made
      \<or> length (n # ns) + length (zc_reads s') \<le> length (concat (map read_out (r # rs))) + length (zc_reads s)"
  proof (elim disjE conjE exE)
    fix bs assume "r = Ready (Inr bs)" "bs \<noteq> []"
    then have "0 < length (read_out r)" by simp
    with i(4) le show ?thesis by (cases "read_out r") auto
  next
    assume "r = Ready (Inr [])" "zc_stream_end s1"
    then have "ended given1 \<and> got @ read_out r = decoded given1" using g(1) by (simp add: inflating_def)
    with z g(4) have "decoded made = got @ read_out r" by (auto simp: codec_ok_def)
    with whole show ?thesis by blast
  next
    assume "length (zc_reads s1) < length (zc_reads s)"
    with i(4) show ?thesis by auto
  next
    assume "r = Pending" "zc_reads s1 = []" "unread s1 = []" "got = decoded given1"
    with g(4) have "decoded made = got @ read_out r" by (simp add: chunk_bytes_def)
    with whole show ?thesis by blast
  qed
  moreover have "r = Pending \<or> (\<exists>bs. r = Ready (Inr bs) \<and> (bs \<noteq> [] \<or> ended made))"
  proof -
    have "ended made" if "zc_stream_end s1"
    proof -
      have "ended given1" using g(1) that by (simp add: inflating_def)
      with z g(4) show ?thesis by (auto simp: codec_ok_def)
    qed
    with o show ?thesis by blast
  qed
  ultimately show ?case using run i(2,3) by simp
qed

text \<open>A read that says the stream is over has read all of it, or nothing ever came.\<close>

definition over ::
  "('d, 'i) zlib \<Rightarrow> (bytes \<Rightarrow> bytes) \<Rightarrow> (bytes \<Rightarrow> bool) \<Rightarrow> bytes \<Rightarrow> bytes \<Rightarrow> ('w, 'd, 'i) compress_stream \<Rightarrow> bool" where
  "over z decoded ended given got s \<longleftrightarrow> inflating z decoded ended given got s
     \<and> (zc_stream_end s \<or> given = [] \<and> unread s = [] \<and> zc_read_eof s)"

lemma over_stays:
  assumes z: "codec_ok z decoded ended left" and n: "0 < n" and s: "over z decoded ended given got s"
  shows "\<exists>s'. compress_poll_read z n s = Some (Ready (Inr []), s') \<and> over z decoded ended given got s' \<and> zc_reads s' = zc_reads s
    \<and> unread s' = unread s"
proof (cases "zc_stream_end s")
  case True
  with s n show ?thesis by (simp add: compress_poll_read_def compress_read_loop.simps [of z n s])
next
  case False
  with s have o: "inflating z decoded ended [] got s" "given = []" "unread s = []" "zc_read_eof s" by (auto simp: over_def)
  from compress_read_came [OF z n o(1)] obtain r s' where
    r: "compress_read_loop z n s = Some (r, s')" "read_came z decoded ended [] got s r s'" by blast
  then obtain given' where u: "zc_reads s' = zc_reads s" "given' @ unread s' = []" "zc_read_eof s'"
    "came_to z decoded ended given' got [] True r s'"
    unfolding read_came_def using o(3,4) by (auto simp: chunk_bytes_def)
  have none: "\<not> ended []" "decoded [] = []" using z by (simp_all add: codec_ok_def)
  have "given' = []" "unread s' = []" using u(2) by simp_all
  moreover have "\<not> (\<forall>fed made d. deflated z fed made d \<longrightarrow> \<not> prefix [] made)" using deflated.intros(1) [of z] by blast
  moreover have "\<not> inflating z decoded ended [] (got @ bs) s'" if "bs \<noteq> []" for bs using none that by (simp add: inflating_def)
  ultimately have "inflating z decoded ended [] (got @ read_out r) s' \<and> r = Ready (Inr [])"
    using u(4) unfolding came_to_def by fastforce
  then have "r = Ready (Inr [])" "inflating z decoded ended [] got s'" by auto
  with r(1) n u(1-3) o(2,3) show ?thesis by (simp add: over_def compress_poll_read_def)
qed

lemma over_reads:
  assumes z: "codec_ok z decoded ended left"
  shows "over z decoded ended given got s \<Longrightarrow> \<forall>n \<in> set ns. 0 < n \<Longrightarrow>
    \<exists>rs s'. compress_reads z ns s = Some (rs, s') \<and> concat (map read_out rs) = [] \<and> zc_reads s' = zc_reads s"
proof (induction ns arbitrary: s)
  case (Cons n ns)
  from over_stays [OF z _ Cons.prems(1), of n] Cons.prems(2) obtain s1 where
    s1: "compress_poll_read z n s = Some (Ready (Inr []), s1)" "over z decoded ended given got s1" "zc_reads s1 = zc_reads s"
    by auto
  from Cons.IH [OF s1(2)] Cons.prems(2) obtain rs s' where "compress_reads z ns s1 = Some (rs, s')" "concat (map read_out rs) = []"
    "zc_reads s' = zc_reads s1" by auto
  with s1(1,3) show ?case by simp
qed simp

lemma compress_reads_over:
  assumes z: "codec_ok z decoded ended left"
  shows "inflating z decoded ended given got s \<Longrightarrow> \<forall>n \<in> set ns. 0 < n \<Longrightarrow> compress_reads z ns s = Some (rs, s') \<Longrightarrow>
    Ready (Inr []) \<in> set rs \<Longrightarrow>
    \<exists>used given'. zc_reads s = used @ zc_reads s' \<and> prefix given' (given @ unread s @ chunk_bytes used)
      \<and> (ended given' \<and> got @ concat (map read_out rs) = decoded given' \<or> given @ unread s @ chunk_bytes used = [])"
proof (induction ns arbitrary: given got s rs)
  case (Cons n ns)
  then have n: "0 < n" by simp
  from compress_read_came [OF z n Cons.prems(1)] obtain r s1 where
    r: "compress_read_loop z n s = Some (r, s1)" "read_came z decoded ended given got s r s1" by blast
  have poll: "compress_poll_read z n s = Some (r, s1)" using r(1) n by (simp add: compress_poll_read_def)
  have no_fail: "\<nexists>e. r = Ready (Inl e)" using Cons.prems(3,4) poll by auto
  with r(2) obtain used given1 eof where u: "zc_reads s = used @ zc_reads s1" "given1 @ unread s1 = given @ unread s @ chunk_bytes used"
    "zc_read_eof s1 = eof" "came_to z decoded ended given1 got used eof r s1"
    unfolding read_came_def by blast
  have inf: "inflating z decoded ended given1 (got @ read_out r) s1" using u(4) no_fail unfolding came_to_def by blast
  from Cons.prems(3) no_fail poll obtain rs' where rs: "compress_reads z ns s1 = Some (rs', s')" "rs = r # rs'"
    using compress_reads_Cons [OF poll no_fail] by auto
  show ?case
  proof (cases "r = Ready (Inr [])")
    case True
    with u(3,4) inf have o: "over z decoded ended given1 got s1" unfolding came_to_def over_def by auto
    from over_reads [OF z o, of ns] Cons.prems(2) rs(1) have nil: "concat (map read_out rs') = []" "zc_reads s' = zc_reads s1" by auto
    have "ended given1 \<and> got = decoded given1 \<or> given @ unread s @ chunk_bytes used = []"
      using o u(2) by (auto simp: over_def inflating_def)
    moreover have "prefix given1 (given @ unread s @ chunk_bytes used)" using u(2) by (metis prefixI)
    ultimately show ?thesis using u(1) True rs(2) nil
      by (intro exI [of _ used] exI [of _ given1]) (simp del: concat_eq_Nil_conv)
  next
    case False
    with Cons.prems(4) rs(2) have "Ready (Inr []) \<in> set rs'" by simp
    from Cons.IH [OF inf _ rs(1) this] Cons.prems(2) obtain used' given' where i: "zc_reads s1 = used' @ zc_reads s'"
      "prefix given' (given1 @ unread s1 @ chunk_bytes used')"
      "ended given' \<and> (got @ read_out r) @ concat (map read_out rs') = decoded given' \<or> given1 @ unread s1 @ chunk_bytes used' = []"
      by auto
    have "given1 @ unread s1 @ chunk_bytes used' = given @ unread s @ chunk_bytes (used @ used')"
      using u(2) by (simp add: chunk_bytes_def flip: append_assoc)
    with i u(1) rs(2) show ?thesis by (intro exI [of _ "used @ used'"] exI [of _ given']) simp
  qed
qed simp

section \<open>The stream below\<close>

text \<open>What each poll of the writer below that does not fail keeps, a run keeps that does not fail.\<close>

lemma drain_keeps_ok:
  assumes keeps: "\<And>w bs r w'. I w \<Longrightarrow> poll_write w bs = (r, w') \<Longrightarrow> \<nexists>e. r = Ready (Inl e) \<Longrightarrow> I w'"
    and "backlog_poll_drain poll_write b w = (r, b', w')" and "I w" and "\<nexists>e. r = Ready (Inl e)"
  shows "I w'"
  using assms(2-4)
proof (induction "length (bl_buf b) - bl_sent b" arbitrary: b w rule: less_induct)
  case less
  show ?case
  proof (cases "bl_sent b < length (bl_buf b)")
    case True
    note run = backlog_poll_drain.simps [of poll_write b w]
    obtain p w1 where pw: "poll_write w (drop (bl_sent b) (bl_buf b)) = (p, w1)"
      by (cases "poll_write w (drop (bl_sent b) (bl_buf b))")
    show ?thesis
    proof (cases p rule: poll_result_cases)
      case 1
      with keeps [OF less.prems(2) pw] less.prems(1) True pw show ?thesis by (simp add: run)
    next
      case (2 e)
      with less.prems True pw show ?thesis by (auto simp: run)
    next
      case (3 n)
      show ?thesis
      proof (cases "n = 0")
        case True
        with 3 less.prems \<open>bl_sent b < length (bl_buf b)\<close> pw show ?thesis by (auto simp: run)
      next
        case False
        with 3 less.prems(1) True pw have "backlog_poll_drain poll_write (b\<lparr>bl_sent := bl_sent b + n\<rparr>) w1 = (r, b', w')"
          by (simp add: run)
        with less.hyps [of "b\<lparr>bl_sent := bl_sent b + n\<rparr>"] keeps [OF less.prems(2) pw] 3 False True less.prems(3)
        show ?thesis by simp
      qed
    qed
  qed (use less.prems in \<open>simp add: backlog_poll_drain.simps [of poll_write b w]\<close>)
qed

lemma compress_drain_keeps:
  assumes "\<And>w bs r w'. I w \<Longrightarrow> poll_write w bs = (r, w') \<Longrightarrow> \<nexists>e. r = Ready (Inl e) \<Longrightarrow> I w'"
    and "compress_drain poll_write s = (r, s')" and "I (zc_inner s)" and "\<nexists>e. r = Ready (Inl e)"
  shows "I (zc_inner s')"
proof -
  obtain a b w where d: "backlog_poll_drain poll_write (zc_out s) (zc_inner s) = (a, b, w)"
    by (cases "backlog_poll_drain poll_write (zc_out s) (zc_inner s)")
  with assms(2) have s': "a = r" "s' = s\<lparr>zc_out := b, zc_inner := w\<rparr>" by (simp_all add: compress_drain_def)
  have "I w" by (rule drain_keeps_ok [where I = I, OF assms(1) d assms(3)]) (simp_all only: s'(1) assms(4) not_False_eq_True)
  with s'(2) show ?thesis by simp
qed

text \<open>A tail that is done is an end of the stream below, from where the invariant held.\<close>

lemma compress_tail_keeps:
  assumes keeps: "\<And>w bs r w'. I w \<Longrightarrow> poll_write w bs = (r, w') \<Longrightarrow> \<nexists>e. r = Ready (Inl e) \<Longrightarrow> I w'"
    and ends: "\<And>w r w'. I w \<Longrightarrow> end_inner w = (r, w') \<Longrightarrow> \<nexists>e. r = Ready (Inl e) \<Longrightarrow> I w'"
    and run: "compress_tail poll_write end_inner s = (r, s')" and s: "I (zc_inner s)" and r: "\<nexists>e. r = Ready (Inl e)"
  shows "I (zc_inner s') \<and> (r = Ready (Inr ()) \<longrightarrow> (\<exists>w. I w \<and> end_inner w = (Ready (Inr ()), zc_inner s')))"
proof -
  obtain d s1 where d: "compress_drain poll_write s = (d, s1)" by (cases "compress_drain poll_write s")
  obtain f w where f: "end_inner (zc_inner s1) = (f, w)" by (cases "end_inner (zc_inner s1)")
  show ?thesis
  proof (cases "d = Ready (Inr ())")
    case True
    with run d f have s': "s' = s1\<lparr>zc_inner := w\<rparr>" "r = f" by (simp_all add: compress_tail_def)
    have "I (zc_inner s1)" using compress_drain_keeps [where I = I, OF keeps d s] True by simp
    with ends [OF this f] s' f r show ?thesis by auto
  next
    case False
    with d run have e: "s' = s1" "r = d" by (auto simp: compress_tail_def split: poll.splits sum.splits)
    with compress_drain_keeps [where I = I, OF keeps d s] r False show ?thesis by auto
  qed
qed

context byte_channel
begin

lemma compress_write_keeps:
  assumes "codec_ok z decoded ended left" and s: "said_ok z decoded ended before s"
    and keeps: "\<And>w bs r w'. I w \<Longrightarrow> poll_write w bs = (r, w') \<Longrightarrow> \<nexists>e. r = Ready (Inl e) \<Longrightarrow> I w'"
    and run: "compress_poll_write z poll_write buf s = Some (r, s')" and I: "I (zc_inner s)" and r: "\<nexists>e. r = Ready (Inl e)"
  shows "I (zc_inner s')"
proof (cases "buf = [] \<or> zc_finished s")
  case True
  with run r I show ?thesis by (auto simp: compress_poll_write_def split: if_splits)
next
  case False
  obtain d s1 where d: "compress_drain poll_write s = (d, s1)" by (cases "compress_drain poll_write s")
  show ?thesis
  proof (cases d rule: poll_result_cases)
    case 1
    with run d False have "s' = s1" by (simp add: compress_poll_write_def)
    with compress_drain_keeps [where I = I, OF keeps d I] 1 show ?thesis by simp
  next
    case (2 e)
    with run d False r show ?thesis by (auto simp: compress_poll_write_def)
  next
    case (3 u)
    have I1: "I (zc_inner s1)" using compress_drain_keeps [where I = I, OF keeps d I] 3 by simp
    from 3 compress_drained [OF d s] False have "deflating z ended s1" by (auto simp: said_ok_def deflating_def)
    from compress_input_took [OF assms(1) this, of 0 buf] obtain a s2 where c: "compress_input z buf 0 s1 = Some (a, s2)"
      "\<forall>k. a = Inr k \<longrightarrow> same_but_deflate s1 s2" by auto
    from run d 3 False c(1) r obtain k where k: "a = Inr k" "k \<noteq> 0" by (cases a) (auto simp: compress_poll_write_def split: if_splits)
    with c(2) I1 have I2: "I (zc_inner (s2\<lparr>zc_dirty := True\<rparr>))" by (simp add: same_but_deflate_def)
    obtain d' s3 where d': "compress_drain poll_write (s2\<lparr>zc_dirty := True\<rparr>) = (d', s3)"
      by (cases "compress_drain poll_write (s2\<lparr>zc_dirty := True\<rparr>)")
    with run d 3 False c(1) k r have "s' = s3 \<and> (\<nexists>e. d' = Ready (Inl e))"
      by (cases d' rule: poll_result_cases) (auto simp: compress_poll_write_def)
    with compress_drain_keeps [where I = I, OF keeps d' I2] show ?thesis by simp
  qed
qed

lemma compress_flush_keeps:
  assumes z: "codec_ok z decoded ended left" and s: "said_ok z decoded ended before s"
    and keeps: "\<And>w bs r w'. I w \<Longrightarrow> poll_write w bs = (r, w') \<Longrightarrow> \<nexists>e. r = Ready (Inl e) \<Longrightarrow> I w'"
    and flushes: "\<And>w r w'. I w \<Longrightarrow> poll_flush w = (r, w') \<Longrightarrow> \<nexists>e. r = Ready (Inl e) \<Longrightarrow> I w'"
    and run: "compress_poll_flush z poll_write poll_flush s = Some (r, s')" and I: "I (zc_inner s)" and r: "\<nexists>e. r = Ready (Inl e)"
  shows "I (zc_inner s') \<and> (r = Ready (Inr ()) \<longrightarrow> (\<exists>w. I w \<and> poll_flush w = (Ready (Inr ()), zc_inner s')))"
proof (cases "zc_dirty s \<and> \<not> zc_finished s")
  case False
  with run have t: "compress_tail poll_write poll_flush s = (r, s')" by (auto simp: compress_poll_flush_def split: if_splits)
  show ?thesis by (rule compress_tail_keeps [where I = I, OF keeps flushes t I r])
next
  case True
  with s have "deflating z ended s" by (auto simp: said_ok_def deflating_def)
  from flush_compress_said [OF z this, of FlushSync] obtain a s1 where f: "flush_compress z FlushSync s = Some (a, s1)"
    "\<forall>over. a = Inr over \<longrightarrow> same_but_deflate s s1"
    by blast
  with run True r obtain over where a: "a = Inr over" "compress_tail poll_write poll_flush (s1\<lparr>zc_dirty := False\<rparr>) = (r, s')"
    by (cases a) (auto simp: compress_poll_flush_def)
  have "zc_inner s1 = zc_inner s" using f(2) [rule_format, OF a(1)] by (simp add: same_but_deflate_def)
  with I have I1: "I (zc_inner (s1\<lparr>zc_dirty := False\<rparr>))" by simp
  show ?thesis by (rule compress_tail_keeps [where I = I, OF keeps flushes a(2) I1 r])
qed

lemma compress_close_keeps:
  assumes z: "codec_ok z decoded ended left" and s: "said_ok z decoded ended before s"
    and keeps: "\<And>w bs r w'. I w \<Longrightarrow> poll_write w bs = (r, w') \<Longrightarrow> \<nexists>e. r = Ready (Inl e) \<Longrightarrow> I w'"
    and closes: "\<And>w r w'. I w \<Longrightarrow> poll_close w = (r, w') \<Longrightarrow> \<nexists>e. r = Ready (Inl e) \<Longrightarrow> I w'"
    and run: "compress_poll_close z poll_write poll_close s = Some (r, s')" and I: "I (zc_inner s)" and r: "\<nexists>e. r = Ready (Inl e)"
  shows "I (zc_inner s')"
proof (cases "zc_finished s")
  case True
  with run have t: "compress_tail poll_write poll_close s = (r, s')" by (simp add: compress_poll_close_def)
  show ?thesis by (rule conjunct1 [OF compress_tail_keeps [where I = I, OF keeps closes t I r]])
next
  case False
  with s have "deflating z ended s" by (auto simp: said_ok_def deflating_def)
  from flush_compress_said [OF z this, of FlushFinish] obtain a s1 where f: "flush_compress z FlushFinish s = Some (a, s1)"
    "\<forall>over. a = Inr over \<longrightarrow> same_but_deflate s s1"
    by blast
  with run False r have a: "a = Inr True" "compress_tail poll_write poll_close (s1\<lparr>zc_dirty := False, zc_finished := True\<rparr>) = (r, s')"
    by (cases a; auto simp: compress_poll_close_def split: if_splits)+
  have "zc_inner s1 = zc_inner s" using f(2) [rule_format, OF a(1)] by (simp add: same_but_deflate_def)
  with I have I1: "I (zc_inner (s1\<lparr>zc_dirty := False, zc_finished := True\<rparr>))" by simp
  show ?thesis by (rule conjunct1 [OF compress_tail_keeps [where I = I, OF keeps closes a(2) I1 r]])
qed

lemma compress_ops_keeps:
  assumes z: "codec_ok z decoded ended left"
    and keeps: "\<And>w bs r w'. I w \<Longrightarrow> poll_write w bs = (r, w') \<Longrightarrow> \<nexists>e. r = Ready (Inl e) \<Longrightarrow> I w'"
    and flushes: "\<And>w r w'. I w \<Longrightarrow> poll_flush w = (r, w') \<Longrightarrow> \<nexists>e. r = Ready (Inl e) \<Longrightarrow> I w'"
    and closes: "\<And>w r w'. I w \<Longrightarrow> poll_close w = (r, w') \<Longrightarrow> \<nexists>e. r = Ready (Inl e) \<Longrightarrow> I w'"
  shows "compress_ops z poll_write poll_flush poll_close ops s = Some (Inr bs, s') \<Longrightarrow> said_ok z decoded ended before s \<Longrightarrow>
    I (zc_inner s) \<Longrightarrow> I (zc_inner s')"
proof (induction ops arbitrary: s bs)
  case (Cons op ops)
  note next_ = Cons.IH
  show ?case
  proof (cases op)
    case (DoWrite buf)
    from compress_wrote [OF z Cons.prems(2), of buf] obtain r s1 where w: "compress_poll_write z poll_write buf s = Some (r, s1)"
      "(\<forall>e. r \<noteq> Ready (Inl e)) \<longrightarrow> said_ok z decoded ended before s1"
      by blast
    with DoWrite Cons.prems(1) have ok: "\<nexists>e. r = Ready (Inl e)" by auto
    then obtain bs' where ops: "compress_ops z poll_write poll_flush poll_close ops s1 = Some (Inr bs', s')"
      using DoWrite Cons.prems(1) w(1) by (cases r rule: poll_result_cases) (auto split: option.splits sum.splits prod.splits)
    have "I (zc_inner s1)" by (rule compress_write_keeps [where I = I, OF z Cons.prems(2) keeps w(1) Cons.prems(3) ok])
    with ops w(2) ok show ?thesis by (blast intro: next_)
  next
    case DoFlush
    from compress_flushed [OF z Cons.prems(2)] obtain r s1 where w: "compress_poll_flush z poll_write poll_flush s = Some (r, s1)"
      "(\<forall>e. r \<noteq> Ready (Inl e)) \<longrightarrow> said_ok z decoded ended before s1"
      by blast
    with DoFlush Cons.prems(1) have ok: "\<nexists>e. r = Ready (Inl e)" by auto
    then have "compress_ops z poll_write poll_flush poll_close ops s1 = Some (Inr bs, s')"
      using DoFlush Cons.prems(1) w(1) by (cases r rule: poll_result_cases) auto
    note ops = this
    have "I (zc_inner s1)" by (rule conjunct1 [OF compress_flush_keeps [where I = I, OF z Cons.prems(2) keeps flushes w(1) Cons.prems(3) ok]])
    with ops w(2) ok show ?thesis by (blast intro: next_)
  next
    case DoClose
    from compress_closed [OF z Cons.prems(2)] obtain r s1 where w: "compress_poll_close z poll_write poll_close s = Some (r, s1)"
      "(\<forall>e. r \<noteq> Ready (Inl e)) \<longrightarrow> said_ok z decoded ended before s1"
      by blast
    with DoClose Cons.prems(1) have ok: "\<nexists>e. r = Ready (Inl e)" by auto
    then have "compress_ops z poll_write poll_flush poll_close ops s1 = Some (Inr bs, s')"
      using DoClose Cons.prems(1) w(1) by (cases r rule: poll_result_cases) auto
    note ops = this
    have "I (zc_inner s1)" by (rule compress_close_keeps [where I = I, OF z Cons.prems(2) keeps closes w(1) Cons.prems(3) ok])
    with ops w(2) ok show ?thesis by (blast intro: next_)
  qed
qed simp

end

sublocale byte_channel \<subseteq> closing: byte_transport poll_write taken poll_close
  by unfold_locales (rule closes)

end
