(* ===== verification/Channel.thy ===== *)
theory Channel
  imports Compress
begin

text \<open>
  The whole channel below the multiplexer, put together as \<open>multiplex\<close> of
  \<open>crates/bliti-core/src/channel/stream.rs\<close> does: the compressed stream over the encrypted stream over the GATT
  transport.  The properties hold of every zlib library that keeps \<open>codec_ok\<close>; a small codec that keeps it is
  what they are evaluated with.
\<close>

section \<open>What the encrypted stream keeps below the compressed one\<close>

text \<open>The sender's state under the compression: what has gone over the air is the frames of what was encrypted.\<close>

definition carried :: "('h, 't) snow \<Rightarrow> 't \<Rightarrow> (gatt_transport, 't) noise_stream \<Rightarrow> bool" where
  "carried sw t s \<longleftrightarrow> gatt_sink.sent_ok sw t [] s \<and> short_messages s"

lemma carried_write:
  assumes "tags sw" and "carried sw t s" and "noise_poll_write gatt_poll_write sw s buf = (r, s')" and "\<nexists>e. r = Ready (Inl e)"
  shows "carried sw t s'"
  using assms gatt_sink.noise_wrote [of sw s buf r s'] write_short [of gatt_poll_write sw s buf r s'] by (simp add: carried_def)

lemma carried_flush:
  assumes "carried sw t s" and "noise_poll_flush gatt_poll_write gatt_poll_flush s = (r, s')" and "\<nexists>e. r = Ready (Inl e)"
  shows "carried sw t s' \<and> (r = Ready (Inr ()) \<longrightarrow> backlog_waiting (nz_backlog s') = [])"
proof -
  have ok: "\<forall>e. r \<noteq> Ready (Inl e)" using assms(3) by blast
  have "gatt_sink.sent_ok sw t [] s" using assms(1) by (simp add: carried_def)
  from gatt_bytes.noise_flushed [OF assms(2) this ok] flush_sent [OF assms(2)] assms(1) show ?thesis
    by (simp add: carried_def short_messages_def)
qed

lemma noise_close_flush: "noise_poll_close poll_write poll_close = noise_poll_flush poll_write poll_close"
  by (simp add: fun_eq_iff noise_poll_close_def noise_poll_flush_def)

lemma carried_close:
  assumes "carried sw t s" and "noise_poll_close gatt_poll_write gatt_poll_close s = (r, s')" and "\<nexists>e. r = Ready (Inl e)"
  shows "carried sw t s'"
proof -
  have ok: "\<forall>e. r \<noteq> Ready (Inl e)" using assms(3) by blast
  have "gatt_sink.sent_ok sw t [] s" using assms(1) by (simp add: carried_def)
  from gatt_channel.closing.noise_flushed [OF assms(2) [unfolded noise_close_flush] this ok] close_sent [OF assms(2)] assms(1)
  show ?thesis by (simp add: carried_def short_messages_def)
qed

text \<open>The three layers' writes, flushes and closes.\<close>

abbreviation channel_ops where
  "channel_ops z sw \<equiv> compress_ops z (noise_poll_write gatt_poll_write sw)
     (noise_poll_flush gatt_poll_write gatt_poll_flush) (noise_poll_close gatt_poll_write gatt_poll_close)"

abbreviation channel_flush where
  "channel_flush z sw \<equiv> compress_poll_flush z (noise_poll_write gatt_poll_write sw) (noise_poll_flush gatt_poll_write gatt_poll_flush)"

abbreviation channel_new where
  "channel_new z mtu inbound room t \<equiv> compress_new z (noise_new (gatt_open mtu inbound room) [] t) []"

lemma channel_said:
  assumes "codec_ok z decoded ended left" and "channel_ops z sw ops (channel_new z mtu inbound room t) = Some (Inr accepted, s)"
  shows "noise_channel.said_ok z decoded ended [] s \<and> zc_fed s = accepted"
proof -
  have "noise_channel.said_ok z decoded ended [] (channel_new z mtu inbound room t)"
    using noise_channel.said_new [OF assms(1), of "noise_new (gatt_open mtu inbound room) [] t" "[]"]
    by (simp add: noise_taken_def noise_new_def)
  from noise_channel.compress_ops_said [OF assms(1) this, of gatt_poll_write sw gatt_poll_flush gatt_poll_close ops] assms(2)
  have "noise_channel.said_ok z decoded ended [] s \<and> zc_fed s = zc_fed (channel_new z mtu inbound room t) @ accepted" by auto
  then show ?thesis by (simp add: compress_new_def)
qed

lemma channel_carried:
  assumes "codec_ok z decoded ended left" and "tags sw"
    and "channel_ops z sw ops (channel_new z mtu inbound room t) = Some (Inr accepted, s)"
  shows "carried sw t (zc_inner s)"
proof -
  let ?new = "noise_new (gatt_open mtu inbound room) [] t"
  have said: "noise_channel.said_ok z decoded ended [] (compress_new z ?new [])"
    using noise_channel.said_new [OF assms(1), of ?new "[]"] by (simp add: noise_taken_def noise_new_def)
  have "gatt_sink.sent_ok sw t [] ?new"
    using gatt_sink.sent_new [of sw t "gatt_open mtu inbound room" "[]"] by (simp add: gatt_open_def gatt_sent_def)
  then have new: "carried sw t (zc_inner (compress_new z ?new []))"
    by (simp add: carried_def short_messages_def compress_new_def noise_new_def)
  show ?thesis
    by (rule noise_channel.compress_ops_keeps [where I = "carried sw t", OF assms(1) carried_write [OF assms(2)]
          conjunct1 [OF carried_flush] carried_close assms(3) said new])
qed
section \<open>Both directions put together\<close>

lemma deflated_prefix:
  assumes z: "codec_ok z decoded ended left"
  shows "deflated z fed made d \<Longrightarrow> prefix (decoded made) fed"
proof (induction rule: deflated.induct)
  case 1
  from z show ?case by (simp add: codec_ok_def)
next
  case (2 fed made d input flush room read wrote status d')
  show ?case
  proof (cases "ended made")
    case True
    with z have "decoded (made @ wrote) = decoded made" by (simp add: codec_ok_def)
    with "2.IH" show ?thesis by (metis prefix_prefix)
  next
    case False
    from deflate_okD(3) [OF z "2.hyps"(1) False "2.hyps"(2)] show ?thesis .
  qed
qed

text \<open>An encrypted stream read over a link that only delivers has only bytes and waits to give.\<close>

lemma noise_reads_open:
  "noise_reads sw ns s = (rs, s') \<Longrightarrow> ahead_ok sw todo s \<Longrightarrow> \<forall>n \<in> set ns. 0 < n \<Longrightarrow> open_reads rs"
proof (induction ns arbitrary: s rs todo)
  case Nil
  then show ?case by (simp add: open_reads_def)
next
  case (Cons n ns)
  obtain r s1 where r: "noise_poll_read sw n s = (r, s1)" by (cases "noise_poll_read sw n s")
  with Cons.prems(1) obtain rs' where rs: "noise_reads sw ns s1 = (rs', s')" "rs = r # rs'"
    by (auto simp: Let_def split: prod.splits)
  from noise_read_ahead [OF _ r Cons.prems(2)] Cons.prems(3) obtain todo1 where
    "ahead_ok sw todo1 s1" "r = Pending \<or> (\<exists>bs. r = Ready (Inr bs) \<and> bs \<noteq> [])"
    by auto
  with Cons.IH [OF rs(1)] Cons.prems(3) rs(2) show ?case by (simp add: open_reads_def)
qed

lemma reader_new:
  "codec_ok z decoded ended left \<Longrightarrow> inflating z decoded ended [] [] (compress_new z inner reads)"
  "codec_ok z decoded ended left \<Longrightarrow> unread (compress_new z inner reads) = []"
  "zc_reads (compress_new z inner reads) = reads" "\<not> zc_read_eof (compress_new z inner reads)"
  by (erule conjunct1 [OF inflating_new] conjunct2 [OF inflating_new] | simp add: compress_new_def)+

lemma chunk_bytes_append: "chunk_bytes (a @ b) = chunk_bytes a @ chunk_bytes b"
  by (simp add: chunk_bytes_def)

section \<open>The properties\<close>

text \<open>C22. No poll of the compression layer goes round for ever: over a zlib library in which what is waiting in a
  deflate context comes out, any run of writes, flushes and closes returns, and so does any run of reads,
  whatever the encrypted stream below gives.\<close>

theorem compression_returns:
  assumes "codec_ok z decoded ended left"
  shows "(\<exists>r s. channel_ops z sw ops (channel_new z mtu inbound room t) = Some (r, s))
    \<and> (\<forall>ks \<in> lists {0<..}. \<exists>outs s. compress_reads z ks (compress_new z inner reads) = Some (outs, s))"
proof
  have "noise_channel.said_ok z decoded ended [] (channel_new z mtu inbound room t)"
    using noise_channel.said_new [OF assms, of "noise_new (gatt_open mtu inbound room) [] t" "[]"]
    by (simp add: noise_taken_def noise_new_def)
  from noise_channel.compress_ops_said [OF assms this] show "\<exists>r s. channel_ops z sw ops (channel_new z mtu inbound room t) = Some (r, s)"
    by blast
  from compress_reads_prefix [OF assms reader_new(1) [OF assms, of inner reads]]
  show "\<forall>ks \<in> lists {0<..}. \<exists>outs s. compress_reads z ks (compress_new z inner reads) = Some (outs, s)"
    by (blast dest: in_listsD)
qed

text \<open>C8. Whatever reaches an end of the channel over the air, however it is cut, and however the other end's writes,
  flushes and closes were polled, what the multiplexer reads is a beginning of what the other end's
  multiplexer had accepted for it: the decryption and the decompression add nothing and change nothing.\<close>

theorem channel_reads_a_beginning:
  assumes z: "codec_ok z decoded ended left"
    and sent: "channel_ops z sw ops (channel_new z mtu inbound room t) = Some (Inr accepted, s)"
    and "accepts sw u messages" and "map snd messages = nz_sent (zc_inner s)"
    and air: "noise_reads sw ns (noise_new w reads u) = (results, r)"
    and read: "compress_reads z ks (compress_new z inner results) = Some (outs, s')" and ks: "\<forall>k \<in> set ks. 0 < k"
  shows "prefix (concat (map read_out outs)) accepted"
proof -
  from channel_said [OF z sent] have s: "deflated z accepted (zc_made s) (zc_compress s)" "prefix (noise_taken (zc_inner s)) (zc_made s)"
    by (auto simp: noise_channel.said_ok_def intro: prefixI [OF sym])
  from read_ok_prefix [OF noise_reads_ok [OF air read_ok_new [OF assms(3)]]] assms(4)
  have "prefix (chunk_bytes results) (noise_taken (zc_inner s))" by (auto simp: chunk_bytes_def noise_taken_def prefix_def)
  with s(2) have arrived: "prefix (chunk_bytes results) (zc_made s)" by (rule prefix_order.trans [rotated])
  note new = reader_new(1,2) [OF z, of inner results] reader_new(3) [of z inner results]
  from compress_reads_prefix [OF z new(1) ks] read new(2,3) obtain used where
    used: "results = used @ zc_reads s'" "prefix (concat (map read_out outs)) (decoded (chunk_bytes used))"
    by auto
  have "prefix (chunk_bytes used) (chunk_bytes results)" using used(1) by (simp add: chunk_bytes_append)
  from codec_mono [OF z prefix_order.trans [OF this arrived]] deflated_prefix [OF z s(1)]
  have "prefix (decoded (chunk_bytes used)) accepted" by (rule prefix_order.trans)
  with used(2) show ?thesis by (rule prefix_order.trans)
qed

text \<open>C2. What is written and flushed is read with nothing more to come: once a flush of the channel is done, the
  bytes that went over the air, in any cut, give the other end's multiplexer exactly what this one's had
  accepted.  No read of it fails, and none says the stream is over unless this end has closed it: a read with
  nothing to give yet waits.\<close>

theorem channel_delivers:
  assumes z: "codec_ok z decoded ended left" and tags: "tags sw"
    and pair: "\<And>ps cs t'. encrypts sw t ps = Some (cs, t') \<Longrightarrow> decrypts sw u (zip cs ps)"
    and sent: "channel_ops z sw ops (channel_new z mtu inbound room t) = Some (Inr accepted, s)"
    and flushed: "channel_flush z sw s = Some (Ready (Inr ()), s')"
    and air: "concat chunks = gatt_sent (nz_inner (zc_inner s'))" "[] \<notin> set chunks"
    and reads: "noise_reads sw ns (noise_new w (map (\<lambda>c. Ready (Inr c)) chunks) u) = (results, r)"
    and ns: "\<forall>n \<in> set ns. 0 < n" "length (zc_made s') < length ns"
    and ks: "\<forall>k \<in> set ks. 0 < k" "length accepted + length results < length ks"
  shows "\<exists>outs s''. compress_reads z ks (compress_new z inner results) = Some (outs, s'') \<and> concat (map read_out outs) = accepted
    \<and> (\<forall>r \<in> set outs. r = Pending \<or> (\<exists>bs. r = Ready (Inr bs) \<and> (bs \<noteq> [] \<or> zc_finished s')))"
proof -
  let ?new = "compress_new z inner results"
  from channel_said [OF z sent] have said: "noise_channel.said_ok z decoded ended [] s" "zc_fed s = accepted" by simp_all
  from noise_channel.compress_flushed [OF z said(1), of gatt_poll_write sw gatt_poll_flush] flushed said(2)
  have done_: "noise_channel.said_ok z decoded ended [] s'" "decoded (zc_made s') = accepted" "noise_taken (zc_inner s') = zc_made s'"
    by auto
  have "\<exists>w. carried sw t w \<and> noise_poll_flush gatt_poll_write gatt_poll_flush w = (Ready (Inr ()), zc_inner s')"
    using noise_channel.compress_flush_keeps [where I = "carried sw t", OF z said(1) carried_write [OF tags]
        conjunct1 [OF carried_flush] flushed channel_carried [OF z tags sent]]
    by simp
  then obtain w' where "carried sw t w'" "noise_poll_flush gatt_poll_write gatt_poll_flush w' = (Ready (Inr ()), zc_inner s')" by blast
  from carried_flush [OF this] have c: "carried sw t (zc_inner s')" "backlog_waiting (nz_backlog (zc_inner s')) = []" by simp_all
  then obtain cs t' where cs: "encrypts sw t (nz_sent (zc_inner s')) = Some (cs, t')"
    "gatt_sent (nz_inner (zc_inner s')) = wire_of cs" "short_messages (zc_inner s')"
    by (auto simp: carried_def gatt_sink.sent_ok_def)
  from new_ahead [OF cs(1) tags pair [OF cs(1)] _ _ air(2), of w] cs(2,3) air(1)
  have a: "ahead_ok sw (zip cs (nz_sent (zc_inner s'))) (noise_new w (map (\<lambda>c. Ready (Inr c)) chunks) u)"
    "ahead (zip cs (nz_sent (zc_inner s'))) (noise_new w (map (\<lambda>c. Ready (Inr c)) chunks) u) = zc_made s'"
    using done_(3) by (simp_all add: short_messages_def noise_taken_def)
  from noise_reads_ahead [OF reads a(1) ns(1)] a(2) ns(2) have made: "chunk_bytes results = zc_made s'"
    by (auto simp: chunk_bytes_def)
  have open_: "open_reads results" by (rule noise_reads_open [OF reads a(1) ns(1)])
  have d: "deflated z (zc_fed s') (zc_made s') (zc_compress s')" using done_(1) by (simp add: noise_channel.said_ok_def)
  note new = reader_new(1,2) [OF z, of inner results] reader_new(3,4) [of z inner results]
  from compress_reads_all [OF z d new(1) _ new(4), of ks] new(2,3) open_ made ks(1) obtain outs s'' where
    o: "compress_reads z ks ?new = Some (outs, s'')" "prefix (concat (map read_out outs)) accepted"
      "\<forall>r \<in> set outs. r = Pending \<or> (\<exists>bs. r = Ready (Inr bs) \<and> (bs \<noteq> [] \<or> ended (zc_made s')))"
      "concat (map read_out outs) = accepted \<or> length ks + length (zc_reads s'') \<le> length (concat (map read_out outs)) + length results"
    by (auto simp: done_(2))
  have "length (concat (map read_out outs)) \<le> length accepted" by (rule prefix_length_le [OF o(2)])
  with o(4) ks(2) have "concat (map read_out outs) = accepted" by auto
  moreover have "ended (zc_made s') \<longleftrightarrow> zc_finished s'" using done_(1) by (simp add: noise_channel.said_ok_def)
  ultimately show ?thesis using o(1,3) by auto
qed

text \<open>C14. A reader is told the channel is over only where the other end closed it and everything it had accepted has
  been read, or where nothing came at all: a connection cut short is never taken for one that ended.\<close>

theorem only_a_close_reads_as_the_end:
  assumes z: "codec_ok z decoded ended left"
    and sent: "channel_ops z sw ops (channel_new z mtu inbound room t) = Some (Inr accepted, s)"
    and arrived: "prefix (chunk_bytes results) (zc_made s)"
    and read: "compress_reads z ks (compress_new z inner results) = Some (outs, s')" and ks: "\<forall>k \<in> set ks. 0 < k"
    and over: "Ready (Inr []) \<in> set outs"
  shows "zc_finished s \<and> concat (map read_out outs) = accepted
    \<or> (\<exists>used. results = used @ zc_reads s' \<and> chunk_bytes used = [] \<and> concat (map read_out outs) = [])"
proof -
  let ?new = "compress_new z inner results"
  from channel_said [OF z sent] have s: "noise_channel.said_ok z decoded ended [] s" "zc_fed s = accepted" by simp_all
  note new = reader_new(1,2) [OF z, of inner results] reader_new(3) [of z inner results]
  from compress_reads_over [OF z new(1) ks read over] new(2,3) obtain used given' where
    u: "results = used @ zc_reads s'" "prefix given' (chunk_bytes used)"
      "ended given' \<and> concat (map read_out outs) = decoded given' \<or> chunk_bytes used = []"
    by auto
  show ?thesis
  proof (cases "chunk_bytes used = []")
    case True
    from compress_reads_prefix [OF z new(1) ks] read new(2,3) obtain used' where
      "results = used' @ zc_reads s'" "prefix (concat (map read_out outs)) (decoded (chunk_bytes used'))"
      by auto
    moreover have "decoded [] = []" using z by (simp add: codec_ok_def)
    ultimately show ?thesis using u(1) True by (intro disjI2 exI [of _ used]) simp
  next
    case False
    with u(3) have e: "ended given'" "concat (map read_out outs) = decoded given'" by simp_all
    have "prefix (chunk_bytes used) (chunk_bytes results)" by (subst u(1)) (simp add: chunk_bytes_append)
    with u(2) arrived have "prefix given' (zc_made s)" by (meson prefix_order.trans)
    then obtain more where "zc_made s = given' @ more" by (rule prefixE)
    with z e have "ended (zc_made s)" "decoded (zc_made s) = concat (map read_out outs)" by (simp_all add: codec_ok_def)
    with s show ?thesis by (simp add: noise_channel.said_ok_def)
  qed
qed

section \<open>A codec to evaluate the model with\<close>

text \<open>
  Each byte goes out as a one and itself, and the end of the stream as a zero.  The inflate context is where it
  is between the two.
\<close>

datatype scan = Tag | Body | Over

fun scan_step :: "scan \<Rightarrow> u8 \<Rightarrow> scan \<times> bytes" where
  "scan_step Tag b = (if b = 0 then Over else Body, [])"
| "scan_step Body b = (Tag, [b])"
| "scan_step Over b = (Over, [])"

definition scan_all :: "bytes \<Rightarrow> scan \<times> bytes" where
  "scan_all bs = foldl (\<lambda>(i, got) b. let (i, out) = scan_step i b in (i, got @ out)) (Tag, []) bs"

definition plain_decoded :: "bytes \<Rightarrow> bytes" where "plain_decoded bs = snd (scan_all bs)"
definition plain_ended :: "bytes \<Rightarrow> bool" where "plain_ended bs \<longleftrightarrow> fst (scan_all bs) = Over"

fun scan_run :: "scan \<Rightarrow> bytes \<Rightarrow> nat \<Rightarrow> nat \<times> bytes \<times> scan" where
  "scan_run i [] room = (0, [], i)"
| "scan_run i (b # bs) room =
     (if i = Over \<or> i = Body \<and> room = 0 then (0, [], i)
      else let (i, out) = scan_step i b; (read, wrote, i) = scan_run i bs (room - length out) in (Suc read, out @ wrote, i))"

definition tagged :: "bytes \<Rightarrow> bytes" where
  "tagged bs = concat (map (\<lambda>b. [1, b]) bs)"

definition plain_zlib :: "(unit, scan) zlib" where
  "plain_zlib =
     \<lparr>zl_deflate_new = (), zl_inflate_new = Tag,
      zl_deflate = (\<lambda>d input flush room.
        let k = min (length input) (room div 2);
            over = flush = FlushFinish \<and> k = length input \<and> 2 * k + 1 < room
        in (Inr (k, tagged (take k input) @ (if over then [0] else []), if over then ZStreamEnd else ZOk), d)),
      zl_inflate = (\<lambda>i input room.
        let (read, wrote, i) = scan_run i input room in (Inr (read, wrote, if i = Over then ZStreamEnd else ZOk), i))\<rparr>"

lemma scan_snoc: "scan_all (bs @ [b]) = (let (i, got) = scan_all bs; (i, out) = scan_step i b in (i, got @ out))"
  by (simp add: scan_all_def case_prod_unfold Let_def)

lemma scan_nil [simp]: "scan_all [] = (Tag, [])"
  by (simp add: scan_all_def)

lemma scan_prefix: "\<exists>more. snd (scan_all (a @ b)) = snd (scan_all a) @ more \<and> (fst (scan_all a) = Over \<longrightarrow> more = [] \<and> fst (scan_all (a @ b)) = Over)"
proof (induction b rule: rev_induct)
  case (snoc x b)
  obtain i got j out where "scan_all (a @ b) = (i, got)" "scan_step i x = (j, out)" by fastforce
  moreover from this have "scan_all (a @ b @ [x]) = (j, got @ out)"
    using scan_snoc [of "a @ b" x] by simp
  ultimately show ?case using snoc by auto
qed simp

lemma scan_tagged: "scan_all (w @ tagged bs) = (if fst (scan_all w) = Tag then (Tag, snd (scan_all w) @ bs) else scan_all (w @ tagged bs))"
proof (induction bs arbitrary: w)
  case (Cons b bs)
  have "scan_all (w @ [1, b]) = (Tag, snd (scan_all w) @ [b])" if "fst (scan_all w) = Tag"
    using that scan_snoc [of "w @ [1]" b] scan_snoc [of w 1] by (cases "scan_all w") simp
  with Cons [of "w @ [1, b]"] show ?case by (simp add: tagged_def)
qed (simp add: tagged_def prod_eq_iff)

lemma scan_run_scans:
  "scan_run (fst (scan_all given)) input room = (read, wrote, i) \<Longrightarrow>
     scan_all (given @ take read input) = (i, snd (scan_all given) @ wrote) \<and> read \<le> length input \<and> length wrote \<le> room
     \<and> (0 < room \<longrightarrow> fst (scan_all given) \<noteq> Over \<longrightarrow> read = 0 \<longrightarrow> input = [])"
proof (induction input arbitrary: given room read wrote i)
  case (Cons b bs)
  show ?case
  proof (cases "fst (scan_all given) = Over \<or> fst (scan_all given) = Body \<and> room = 0")
    case True
    with Cons.prems show ?thesis by (auto simp: prod_eq_iff)
  next
    case False
    obtain j out where j: "scan_step (fst (scan_all given)) b = (j, out)" by (cases "scan_step (fst (scan_all given)) b")
    obtain read' wrote' i' where r: "scan_run j bs (room - length out) = (read', wrote', i')" by (cases "scan_run j bs (room - length out)")
    have g: "scan_all (given @ [b]) = (j, snd (scan_all given) @ out)" using j by (cases "scan_all given") (simp add: scan_snoc)
    from False j have "length out \<le> room" by (cases "fst (scan_all given)") auto
    with Cons.IH [of "given @ [b]" "room - length out" read' wrote' i'] r g Cons.prems False j show ?thesis
      by (auto simp: Let_def)
  qed
qed (auto simp: prod_eq_iff)

lemma plain_deflated: "deflated plain_zlib fed made d \<Longrightarrow> \<not> plain_ended made \<Longrightarrow> scan_all made = (Tag, fed)"
proof (induction rule: deflated.induct)
  case (2 fed made d input flush room read wrote status d')
  have "\<not> plain_ended made"
    using scan_prefix [of made wrote] "2.prems" by (auto simp: plain_ended_def)
  with "2.IH" have m: "scan_all made = (Tag, fed)" by simp
  let ?k = "min (length input) (room div 2)"
  let ?over = "flush = FlushFinish \<and> ?k = length input \<and> 2 * ?k + 1 < room"
  have call: "read = ?k" "wrote = tagged (take ?k input) @ (if ?over then [0] else [])"
    using "2.hyps"(2) by (auto simp: plain_zlib_def Let_def)
  have t: "scan_all (made @ tagged (take ?k input)) = (Tag, fed @ take ?k input)"
    using scan_tagged [of made] m by simp
  have "\<not> ?over"
    using "2.prems" scan_snoc [of "made @ tagged (take ?k input)" 0] t call(2) by (auto simp: plain_ended_def)
  with call have "wrote = tagged (take ?k input)" by (simp only: if_False append_Nil2)
  with t call(1) show ?case by simp
qed simp

lemma plain_inflated: "inflated plain_zlib given got i \<Longrightarrow> scan_all given = (i, got)"
proof (induction rule: inflated.induct)
  case (2 given got i input room read wrote status i')
  then have "scan_run (fst (scan_all given)) input room = (read, wrote, i')"
    by (auto simp: plain_zlib_def Let_def split: prod.splits)
  with scan_run_scans 2(3) show ?case by fastforce
qed (simp add: plain_zlib_def)

lemma length_tagged [simp]: "length (tagged bs) = 2 * length bs"
  by (induction bs) (simp_all add: tagged_def)

lemma tagged_nil [simp]: "tagged bs = [] \<longleftrightarrow> bs = []"
  by (cases bs) (simp_all add: tagged_def)

lemma plain_deflate_ok: "deflate_ok plain_zlib plain_decoded plain_ended (\<lambda>_. 0)"
  unfolding deflate_ok_def
proof (intro allI impI)
  fix fed made d input flush room read wrote status d'
  assume a: "deflated plain_zlib fed made d" "\<not> plain_ended made"
    and run: "zl_deflate plain_zlib d input flush room = (Inr (read, wrote, status), d')"
  let ?k = "min (length input) (room div 2)"
  define over where "over \<longleftrightarrow> flush = FlushFinish \<and> ?k = length input \<and> 2 * ?k + 1 < room"
  have call: "read = ?k" "wrote = tagged (take ?k input) @ (if over then [0] else [])" "status = (if over then ZStreamEnd else ZOk)"
    using run by (auto simp: plain_zlib_def Let_def over_def)
  from plain_deflated [OF a] have t: "scan_all (made @ tagged (take ?k input)) = (Tag, fed @ take ?k input)"
    using scan_tagged [of made] by simp
  have s: "scan_all (made @ wrote) = (if over then Over else Tag, fed @ take read input)"
    using t scan_snoc [of "made @ tagged (take ?k input)" 0] call(1,2) by (cases over) simp_all
  have k: "2 * ?k \<le> room" "over \<Longrightarrow> 2 * ?k + 1 < room" "over \<Longrightarrow> flush = FlushFinish" by (auto simp: over_def)
  show "read \<le> length input \<and> length wrote \<le> room \<and> prefix (plain_decoded (made @ wrote)) (fed @ take read input)
      \<and> (flush = FlushSync \<longrightarrow> input = [] \<longrightarrow> length wrote < room \<longrightarrow> plain_decoded (made @ wrote) = fed)
      \<and> (status = ZStreamEnd \<longleftrightarrow> plain_ended (made @ wrote))
      \<and> (status = ZStreamEnd \<longrightarrow> flush = FlushFinish \<and> plain_decoded (made @ wrote) = fed @ take read input)
      \<and> (read = 0 \<longrightarrow> wrote \<noteq> [] \<longrightarrow> flush = FlushNone \<or> length wrote = room \<longrightarrow> (0 :: nat) < 0)"
    using call s k by (auto simp: plain_decoded_def plain_ended_def split: if_splits)
qed

lemma plain_inflate_ok: "inflate_ok plain_zlib plain_decoded plain_ended"
  unfolding inflate_ok_def
proof (intro allI impI)
  fix given got i input room r i'
  assume a: "inflated plain_zlib given got i" "\<not> (plain_ended given \<and> got = plain_decoded given)" "0 < room"
    and run: "zl_inflate plain_zlib i input room = (r, i')"
  from plain_inflated [OF a(1)] have g: "scan_all given = (i, got)" .
  then have i: "i \<noteq> Over" using a(2) by (auto simp: plain_ended_def plain_decoded_def)
  obtain read wrote j where s: "scan_run i input room = (read, wrote, j)" by (cases "scan_run i input room")
  then have r: "r = Inr (read, wrote, if j = Over then ZStreamEnd else ZOk)" using run by (auto simp: plain_zlib_def)
  from scan_run_scans [of given input room read wrote j] s g have sc: "scan_all (given @ take read input) = (j, got @ wrote)"
    "read \<le> length input" "length wrote \<le> room" "read = 0 \<longrightarrow> input = []"
    using a(3) i by simp_all
  show "(\<forall>e. r = Inl e \<longrightarrow> (\<forall>fed made d. deflated plain_zlib fed made d \<longrightarrow> \<not> prefix (given @ input) made))
      \<and> (\<forall>read wrote status. r = Inr (read, wrote, status) \<longrightarrow> read \<le> length input \<and> length wrote \<le> room
        \<and> prefix (got @ wrote) (plain_decoded (given @ take read input))
        \<and> (read = 0 \<longrightarrow> wrote = [] \<longrightarrow> status \<noteq> ZStreamEnd \<longrightarrow> input = [] \<and> got = plain_decoded given)
        \<and> (status = ZStreamEnd \<longleftrightarrow> plain_ended (given @ take read input) \<and> got @ wrote = plain_decoded (given @ take read input)))"
    using r sc g by (auto simp: plain_decoded_def plain_ended_def)
qed

lemma plain_codec: "codec_ok plain_zlib plain_decoded plain_ended (\<lambda>_. 0)"
proof -
  have "prefix (plain_decoded a) (plain_decoded (a @ b))" for a b using scan_prefix [of a b] by (auto simp: plain_decoded_def)
  moreover have "plain_ended a \<longrightarrow> plain_ended (a @ b) \<and> plain_decoded (a @ b) = plain_decoded a" for a b
    using scan_prefix [of a b] by (auto simp: plain_decoded_def plain_ended_def)
  ultimately show ?thesis
    using plain_deflate_ok plain_inflate_ok by (simp add: codec_ok_def) (simp add: plain_decoded_def plain_ended_def)
qed

section \<open>Witnesses\<close>

lemma scripted_prefix: "encode_prefix TRANSPORT_PREFIX (Suc (Suc 0)) = Inr [0, 2]" "encode_prefix TRANSPORT_PREFIX 18 = Inr [0, 18]"
    "encode_prefix TRANSPORT_PREFIX 1 = Inr [0, 1]" "encode_prefix TRANSPORT_PREFIX 17 = Inr [0, 17]"
  by code_simp+

lemmas evaluate_channel = evaluate_writes scripted_prefix scripted_snow_def compress_new_def compress_poll_write_def
  compress_poll_flush_def compress_poll_close_def compress_tail_def compress_drain_def compress_deflate_def plain_zlib_def
  tagged_def COMPRESS_CHUNK_def noise_poll_close_def gatt_poll_close_def gatt_sent_def
  backlog_poll_drain.simps [of gatt_poll_write] compress_input.simps flush_compress.simps Let_def

theorem compression_returns_witness:
  "\<exists>r s. channel_ops plain_zlib plain_snow [DoWrite [1, 2], DoClose] (channel_new plain_zlib 9 [] [HasRoom True] 0) = Some (r, s)"
  by (rule conjunct1 [OF compression_returns [OF plain_codec]])

lemma scripted_sends:
  "\<exists>s. channel_ops plain_zlib scripted_snow [DoWrite [5], DoFlush] (channel_new plain_zlib 99 [] [HasRoom True, HasRoom True] []) = Some (Inr [5], s)
     \<and> nz_sent (zc_inner s) = [[1, 5]]"
  by (simp add: evaluate_channel backlog_poll_drain.simps [of "noise_poll_write gatt_poll_write sw" for sw])

theorem channel_reads_a_beginning_witness:
  "\<exists>s results r outs s'. channel_ops plain_zlib scripted_snow [DoWrite [5], DoFlush]
      (channel_new plain_zlib 99 [] [HasRoom True, HasRoom True] []) = Some (Inr [5], s)
    \<and> noise_reads scripted_snow [9, 9] (noise_new () [Ready (Inr [0, 2, 1]), Ready (Inr [5, 0, 1, 7]), Pending] [([1, 5], [1, 5])]) = (results, r)
    \<and> compress_reads plain_zlib [3, 3] (compress_new plain_zlib () results) = Some (outs, s')
    \<and> prefix (concat (map read_out outs)) [5]"
proof -
  from scripted_sends obtain s where s: "channel_ops plain_zlib scripted_snow [DoWrite [5], DoFlush]
      (channel_new plain_zlib 99 [] [HasRoom True, HasRoom True] []) = Some (Inr [5], s)" "nz_sent (zc_inner s) = [[1, 5]]"
    by blast
  obtain results r where n: "noise_reads scripted_snow [9, 9]
      (noise_new () [Ready (Inr [0, 2, 1]), Ready (Inr [5, 0, 1, 7]), Pending] [([1, 5], [1, 5])]) = (results, r)" by force
  have ks: "\<forall>k \<in> set [3, 3]. (0 :: nat) < k" by simp
  from compress_reads_prefix [OF plain_codec reader_new(1) [OF plain_codec, of "()" results] ks] obtain outs s' where
    c: "compress_reads plain_zlib [3, 3] (compress_new plain_zlib () results) = Some (outs, s')" by blast
  from channel_reads_a_beginning [OF plain_codec s(1) scripted_accepts _ n c ks] s(2) n c s(1) show ?thesis by auto
qed

lemma noise_reads_length: "noise_reads sw ns s = (rs, s') \<Longrightarrow> length rs = length ns"
  by (induction ns arbitrary: s rs) (auto simp: Let_def split: prod.splits)

text \<open>A write of a byte and a flush, over a link with room for all of it.\<close>

lemma plain_sends:
  "\<exists>s s'. channel_ops plain_zlib plain_snow [DoWrite [5]] (channel_new plain_zlib 99 [] [HasRoom True, HasRoom True] 0) = Some (Inr [5], s)
     \<and> channel_flush plain_zlib plain_snow s = Some (Ready (Inr ()), s') \<and> gatt_sent (nz_inner (zc_inner s')) \<noteq> []
     \<and> zc_made s' = [1, 5]"
  by (simp add: evaluate_channel backlog_poll_drain.simps [of "noise_poll_write gatt_poll_write sw" for sw])

theorem channel_delivers_witness:
  "\<exists>s s' results r outs s''. channel_ops plain_zlib plain_snow [DoWrite [5]]
      (channel_new plain_zlib 99 [] [HasRoom True, HasRoom True] 0) = Some (Inr [5], s)
    \<and> channel_flush plain_zlib plain_snow s = Some (Ready (Inr ()), s')
    \<and> noise_reads plain_snow [9, 9, 9] (noise_new () (map (\<lambda>c. Ready (Inr c)) [gatt_sent (nz_inner (zc_inner s'))]) 0) = (results, r)
    \<and> compress_reads plain_zlib [3, 3, 3, 3, 3] (compress_new plain_zlib () results) = Some (outs, s'')
    \<and> concat (map read_out outs) = [5] \<and> (\<forall>r \<in> set outs. r = Pending \<or> (\<exists>bs. r = Ready (Inr bs) \<and> (bs \<noteq> [] \<or> zc_finished s')))"
proof -
  from plain_sends obtain s s' where s: "channel_ops plain_zlib plain_snow [DoWrite [5]]
      (channel_new plain_zlib 99 [] [HasRoom True, HasRoom True] 0) = Some (Inr [5], s)"
    "channel_flush plain_zlib plain_snow s = Some (Ready (Inr ()), s')" "gatt_sent (nz_inner (zc_inner s')) \<noteq> []" "zc_made s' = [1, 5]"
    by blast
  obtain results r where n: "noise_reads plain_snow [9, 9, 9]
      (noise_new () (map (\<lambda>c. Ready (Inr c)) [gatt_sent (nz_inner (zc_inner s'))]) 0) = (results, r)" by fastforce
  from channel_delivers [OF plain_codec plain_tags plain_decrypts s(1,2) _ _ n, where ks = "[3, 3, 3, 3, 3]" and inner = "()"] s(3,4) noise_reads_length [OF n]
  show ?thesis using s(1,2) n by auto
qed

lemma plain_closes:
  "\<exists>s. channel_ops plain_zlib plain_snow [DoWrite [5], DoClose] (channel_new plain_zlib 99 [] [HasRoom True, HasRoom True] 0) = Some (Inr [5], s)
     \<and> zc_made s = [1, 5, 0]"
  by (simp add: evaluate_channel backlog_poll_drain.simps [of "noise_poll_write gatt_poll_write sw" for sw])

theorem only_a_close_reads_as_the_end_witness:
  "\<exists>s outs s'. channel_ops plain_zlib plain_snow [DoWrite [5], DoClose]
      (channel_new plain_zlib 99 [] [HasRoom True, HasRoom True] 0) = Some (Inr [5], s)
    \<and> compress_reads plain_zlib [3, 3] (compress_new plain_zlib () [Ready (Inr [1, 5, 0])]) = Some (outs, s')
    \<and> zc_finished s \<and> concat (map read_out outs) = [5]"
proof -
  from plain_closes obtain s where s: "channel_ops plain_zlib plain_snow [DoWrite [5], DoClose]
      (channel_new plain_zlib 99 [] [HasRoom True, HasRoom True] 0) = Some (Inr [5], s)" "zc_made s = [1, 5, 0]" by blast
  have "\<exists>s'. compress_reads plain_zlib [3, 3] (compress_new plain_zlib () [Ready (Inr [1, 5, 0])]) = Some ([Ready (Inr [5]), Ready (Inr [])], s')"
    by (simp add: compress_poll_read_def compress_read_loop.simps compress_new_def plain_zlib_def compress_inflated_def)
  then obtain s' where c: "compress_reads plain_zlib [3, 3] (compress_new plain_zlib () [Ready (Inr [1, 5, 0])])
      = Some ([Ready (Inr [5]), Ready (Inr [])], s')" by blast
  from only_a_close_reads_as_the_end [OF plain_codec s(1) _ c] s(2) have "zc_finished s" by (auto simp: chunk_bytes_def)
  with s(1) c show ?thesis by auto
qed

end
