(* ===== verification/Status_Led.thy ===== *)
theory Status_Led
  imports Report
begin

text \<open>
  The status LED of a device in provisioning mode, \<open>crates/bliti/src/provision/led.rs\<close>: the two LEDs of
  the board through sysfs, the pattern a state of the device has, and \<open>drive\<close>, the loop that shows it.
  Instants and durations are nanoseconds.  The loop waits on two watch channels of tokio and a timer, so
  it is a machine whose events are what is sent on the channels, time passing, and the two things the
  loop can wake for; which of the ready branches a \<open>select!\<close> takes is part of the event.
\<close>

section \<open>The LEDs through sysfs\<close>

definition GREEN :: "string list" where "GREEN = [''ACT'', ''led0'']"
definition RED :: "string list" where "RED = [''PWR'', ''led1'']"
definition GREEN_ACTIVE_LOW :: bool where "GREEN_ACTIVE_LOW = True"
definition RED_ACTIVE_LOW :: bool where "RED_ACTIVE_LOW = False"

record led_channel =
  lc_brightness :: string
  lc_active_low :: bool

type_synonym led_files = "string \<Rightarrow> string option"

text \<open>A write of a whole file, with how the kernel takes it: one that fails leaves the file as it was.\<close>

definition write_file :: "unit io_result \<Rightarrow> string \<Rightarrow> string \<Rightarrow> led_files \<Rightarrow> unit io_result \<times> led_files" where
  "write_file taken at content files =
     (case taken of Inl e \<Rightarrow> (Inl e, files) | Inr _ \<Rightarrow> (Inr (), files(at \<mapsto> content)))"

definition path_join :: "string \<Rightarrow> string \<Rightarrow> string" where
  "path_join dir name = dir @ ''/'' @ name"

text \<open>The board has no LED of the names looked for, or the kernel refuses its trigger.\<close>

datatype led_error = LedNotFound | LedWrite io_error

definition channel_take ::
    "unit io_result \<Rightarrow> (string \<Rightarrow> bool) \<Rightarrow> string \<Rightarrow> string list \<Rightarrow> bool \<Rightarrow> led_files \<Rightarrow> (led_error + led_channel) \<times> led_files" where
  "channel_take taken is_dir root names active_low files =
     (case List.find is_dir (map (path_join root) names) of
        None \<Rightarrow> (Inl LedNotFound, files)
      | Some dir \<Rightarrow>
          (case write_file taken (path_join dir ''trigger'') ''none'' files of
             (Inl e, files) \<Rightarrow> (Inl (LedWrite e), files)
           | (Inr _, files) \<Rightarrow>
               (Inr \<lparr>lc_brightness = path_join dir ''brightness'', lc_active_low = active_low\<rparr>, files)))"

definition channel_set ::
    "unit io_result \<Rightarrow> led_channel \<Rightarrow> bool \<Rightarrow> led_files \<Rightarrow> unit io_result \<times> led_files" where
  "channel_set taken ch lit files =
     write_file taken (lc_brightness ch) (if lit \<noteq> lc_active_low ch then ''1'' else ''0'') files"

text \<open>The board's LEDs, with the files of the kernel they are written to.\<close>

record sysfs =
  sy_red :: led_channel
  sy_green :: led_channel
  sy_files :: led_files

definition sysfs_at ::
    "unit io_result \<Rightarrow> unit io_result \<Rightarrow> (string \<Rightarrow> bool) \<Rightarrow> string \<Rightarrow> led_files \<Rightarrow> led_error + sysfs" where
  "sysfs_at red_taken green_taken is_dir root files =
     (case channel_take red_taken is_dir root RED RED_ACTIVE_LOW files of
        (Inl e, files) \<Rightarrow> Inl e
      | (Inr red, files) \<Rightarrow>
          (case channel_take green_taken is_dir root GREEN GREEN_ACTIVE_LOW files of
             (Inl e, files) \<Rightarrow> Inl e
           | (Inr green, files) \<Rightarrow> Inr \<lparr>sy_red = red, sy_green = green, sy_files = files\<rparr>))"

text \<open>\<open>Led::show\<close> of \<open>Sysfs\<close>, with how the kernel takes the write of the red LED and of the green one.\<close>

definition sysfs_show ::
    "unit io_result \<times> unit io_result \<Rightarrow> sysfs \<Rightarrow> bool \<Rightarrow> bool \<Rightarrow> unit io_result \<times> sysfs" where
  "sysfs_show taken led red green =
     (let (red, files) = channel_set (fst taken) (sy_red led) red (sy_files led);
          (green, files) = channel_set (snd taken) (sy_green led) green files
      in (case green of Inl e \<Rightarrow> Inl e | Inr _ \<Rightarrow> red, led\<lparr>sy_files := files\<rparr>))"

section \<open>What is shown\<close>

datatype colour = Red | Green | Amber

datatype pattern = Steady colour | Blink colour nat | Alternate

record shown =
  sh_run :: run_state
  sh_provisioned :: bool
  sh_on_air :: bool

definition shown_of :: "snapshot \<Rightarrow> bool \<Rightarrow> shown" where
  "shown_of snapshot on_air =
     \<lparr>sh_run = sn_run snapshot, sh_provisioned = sn_provisioned snapshot, sh_on_air = on_air\<rparr>"

fun colour_lit :: "colour \<Rightarrow> bool \<times> bool" where
  "colour_lit Red = (True, False)"
| "colour_lit Green = (False, True)"
| "colour_lit Amber = (True, True)"

definition pattern_of :: "shown \<Rightarrow> pattern" where
  "pattern_of shown =
     (if sh_run shown = RunRunning then Blink Green 1
      else if sh_run shown = RunWaiting then Blink Amber 1
      else if sh_on_air shown then Alternate
      else if sh_run shown = RunFailed then Blink Red 3
      else if sh_provisioned shown then Steady Green
      else Steady Amber)"

section \<open>Watch channels\<close>

text \<open>
  The receiver's end of a watch channel: the value last sent, whether the receiver has yet to see it, and
  whether the sender is gone.  \<open>changed\<close> tells of a value not seen before it tells that the sender is gone.
\<close>

record 'a watch =
  wt_value :: 'a
  wt_unseen :: bool
  wt_closed :: bool

definition watch_changed :: "'a watch \<Rightarrow> (bool \<times> 'a watch) poll" where
  "watch_changed w =
     (if wt_unseen w then Ready (True, w\<lparr>wt_unseen := False\<rparr>)
      else if wt_closed w then Ready (False, w)
      else Pending)"

definition borrow_and_update :: "'a watch \<Rightarrow> 'a \<times> 'a watch" where
  "borrow_and_update w = (wt_value w, w\<lparr>wt_unseen := False\<rparr>)"

definition watch_send :: "'a \<Rightarrow> 'a watch \<Rightarrow> 'a watch" where
  "watch_send v w = (if wt_closed w then w else w\<lparr>wt_value := v, wt_unseen := True\<rparr>)"

section \<open>Driving the LED\<close>

text \<open>
  The variables of \<open>drive\<close> and of the \<open>cycle\<close> and \<open>next_shown\<close> it is in: the half being shown counted from
  the first, the deadline of that half.  \<open>lt_began\<close> is when the pattern shown was taken up, kept for the
  statements.
\<close>

record 'l led_task =
  lt_led :: 'l
  lt_state :: "snapshot watch"
  lt_air :: "bool watch"
  lt_failing :: bool
  lt_shown :: shown
  lt_air_open :: bool
  lt_turn :: nat
  lt_at :: nat
  lt_now :: nat
  lt_over :: bool
  lt_began :: nat

type_synonym ('o, 'l) led_shows = "'o \<Rightarrow> 'l \<Rightarrow> bool \<Rightarrow> bool \<Rightarrow> unit io_result \<times> 'l"

definition led_put :: "('o, 'l) led_shows \<Rightarrow> 'o \<Rightarrow> bool \<times> bool \<Rightarrow> 'l led_task \<Rightarrow> 'l led_task" where
  "led_put put taken rg t =
     (case put taken (lt_led t) (fst rg) (snd rg) of
        (Inr _, led) \<Rightarrow>
          (if lt_failing t then t\<lparr>lt_led := led, lt_failing := False\<rparr> else t\<lparr>lt_led := led\<rparr>)
      | (Inl e, led) \<Rightarrow>
          (if \<not> lt_failing t then t\<lparr>lt_led := led, lt_failing := True\<rparr> else t\<lparr>lt_led := led\<rparr>))"

definition cycle_start ::
    "('o, 'l) led_shows \<Rightarrow> 'o \<Rightarrow> nat \<Rightarrow> (bool \<times> bool) list \<Rightarrow> 'l led_task \<Rightarrow> 'l led_task" where
  "cycle_start put taken half halves t =
     (let t = led_put put taken (halves ! 0) (t\<lparr>lt_turn := 0, lt_at := lt_now t\<rparr>)
      in t\<lparr>lt_at := lt_at t + half\<rparr>)"

definition cycle_tick ::
    "('o, 'l) led_shows \<Rightarrow> 'o \<Rightarrow> nat \<Rightarrow> (bool \<times> bool) list \<Rightarrow> 'l led_task \<Rightarrow> 'l led_task" where
  "cycle_tick put taken half halves t =
     (if lt_at t \<le> lt_now t
      then let turn = lt_turn t + 1;
               t = led_put put taken (halves ! (turn mod 2)) (t\<lparr>lt_turn := turn\<rparr>)
           in t\<lparr>lt_at := lt_at t + half\<rparr>
      else t)"

definition SECOND :: nat where "SECOND = 1000000000"

text \<open>What \<open>drive\<close> has \<open>cycle\<close> show for a pattern, and for how long each half.\<close>

fun pattern_cycle :: "pattern \<Rightarrow> (nat \<times> (bool \<times> bool) list) option" where
  "pattern_cycle (Steady c) = None"
| "pattern_cycle (Blink c hz) = Some (SECOND div (2 * hz), [colour_lit c, (False, False)])"
| "pattern_cycle Alternate = Some (500 * 1000000, [colour_lit Red, colour_lit Green])"

fun led_enter :: "('o, 'l) led_shows \<Rightarrow> 'o \<Rightarrow> pattern \<Rightarrow> 'l led_task \<Rightarrow> 'l led_task" where
  "led_enter put taken (Steady c) t = led_put put taken (colour_lit c) t"
| "led_enter put taken (Blink c hz) t =
     (let (half, halves) = the (pattern_cycle (Blink c hz)) in cycle_start put taken half halves t)"
| "led_enter put taken Alternate t =
     (let (half, halves) = the (pattern_cycle Alternate) in cycle_start put taken half halves t)"

text \<open>The head of the loop: the pattern of what is shown, from its start, and a new wait for a change.\<close>

definition led_turn :: "('o, 'l) led_shows \<Rightarrow> 'o \<Rightarrow> 'l led_task \<Rightarrow> 'l led_task" where
  "led_turn put taken t =
     led_enter put taken (pattern_of (lt_shown t)) (t\<lparr>lt_air_open := True, lt_began := lt_now t\<rparr>)"

definition drive_start ::
    "('o, 'l) led_shows \<Rightarrow> 'o \<Rightarrow> 'l \<Rightarrow> snapshot watch \<Rightarrow> bool watch \<Rightarrow> nat \<Rightarrow> 'l led_task" where
  "drive_start put taken led state air now =
     (let (snapshot, state) = borrow_and_update state; (on_air, air) = borrow_and_update air
      in led_turn put taken
           \<lparr>lt_led = led, lt_state = state, lt_air = air, lt_failing = False,
            lt_shown = shown_of snapshot on_air, lt_air_open = True, lt_turn = 0, lt_at = now,
            lt_now = now, lt_over = False, lt_began = now\<rparr>)"

text \<open>
  The \<open>select!\<close> of \<open>next_shown\<close>: which channel it wakes for, the state's tried first where \<open>first\<close> holds.
\<close>

datatype woken = StateWoke bool | AirWoke bool

definition state_wakes :: "'l led_task \<Rightarrow> (woken \<times> 'l led_task) poll" where
  "state_wakes t =
     (case watch_changed (lt_state t) of
        Ready (ok, w) \<Rightarrow> Ready (StateWoke ok, t\<lparr>lt_state := w\<rparr>)
      | Pending \<Rightarrow> Pending)"

definition air_wakes :: "'l led_task \<Rightarrow> (woken \<times> 'l led_task) poll" where
  "air_wakes t =
     (if lt_air_open t
      then (case watch_changed (lt_air t) of
              Ready (ok, w) \<Rightarrow> Ready (AirWoke ok, t\<lparr>lt_air := w\<rparr>)
            | Pending \<Rightarrow> Pending)
      else Pending)"

definition shown_wakes :: "bool \<Rightarrow> 'l led_task \<Rightarrow> (woken \<times> 'l led_task) poll" where
  "shown_wakes first t =
     (if first
      then (case state_wakes t of Ready r \<Rightarrow> Ready r | Pending \<Rightarrow> air_wakes t)
      else (case air_wakes t of Ready r \<Rightarrow> Ready r | Pending \<Rightarrow> state_wakes t))"

definition led_meter :: "'l led_task \<Rightarrow> nat" where
  "led_meter t = of_bool (wt_unseen (lt_state t)) + of_bool (wt_unseen (lt_air t)) + of_bool (lt_air_open t)"

lemma shown_wakes_meter:
  "shown_wakes first t = Ready (StateWoke True, t') \<Longrightarrow> led_meter t' < led_meter t"
  "shown_wakes first t = Ready (AirWoke True, t') \<Longrightarrow> led_meter t' < led_meter t"
  "shown_wakes first t = Ready (AirWoke False, t') \<Longrightarrow> lt_air_open t' \<and> led_meter t' = led_meter t"
  by (auto simp: shown_wakes_def state_wakes_def air_wakes_def watch_changed_def led_meter_def
      split: if_splits poll.splits)

lemma closed_meter: "lt_air_open t \<Longrightarrow> led_meter (t\<lparr>lt_air_open := False\<rparr>) < led_meter t"
  by (simp add: led_meter_def)

text \<open>What both channels now hold, seen.\<close>

definition look_now :: "'l led_task \<Rightarrow> shown \<times> 'l led_task" where
  "look_now t =
     (let (snapshot, state) = borrow_and_update (lt_state t);
          (on_air, air) = borrow_and_update (lt_air t)
      in (shown_of snapshot on_air, t\<lparr>lt_state := state, lt_air := air\<rparr>))"

lemma look_now_meter: "look_now t = (shown, t') \<Longrightarrow> led_meter t' \<le> led_meter t"
  by (auto simp: look_now_def borrow_and_update_def led_meter_def)

text \<open>
  \<open>next_shown\<close>, polled once: \<open>picks\<close> says which branch each \<open>select!\<close> tries first.
\<close>

function next_shown_poll :: "bool list \<Rightarrow> 'l led_task \<Rightarrow> shown option poll \<times> 'l led_task" where
  "next_shown_poll picks t =
     (case shown_wakes (picks \<noteq> [] \<and> hd picks) t of
        Pending \<Rightarrow> (Pending, t)
      | Ready (StateWoke False, t) \<Rightarrow> (Ready None, t)
      | Ready (AirWoke False, t) \<Rightarrow> next_shown_poll (tl picks) (t\<lparr>lt_air_open := False\<rparr>)
      | Ready (_, t) \<Rightarrow>
          (case look_now t of (shown, t) \<Rightarrow>
             if shown \<noteq> lt_shown t then (Ready (Some shown), t) else next_shown_poll (tl picks) t))"
  by pat_completeness auto
termination
  by (relation "measure (\<lambda>(picks, t). led_meter t)")
    (auto dest!: shown_wakes_meter look_now_meter [OF sym] dest: closed_meter)

text \<open>
  What happens to \<open>drive\<close>: a value is sent on a channel or its sender goes, time passes, the loop polls
  \<open>changed\<close> (and shows the new pattern where it resolves), or its timer fires.  With those that show
  something is how the LEDs take it.
\<close>

datatype 'o led_event =
    SnapshotSent snapshot
  | SnapshotGone
  | AirSent bool
  | AirGone
  | TimePasses nat
  | LedLooks "bool list" 'o
  | LedTicks 'o

definition drive_changed :: "('o, 'l) led_shows \<Rightarrow> bool list \<Rightarrow> 'o \<Rightarrow> 'l led_task \<Rightarrow> 'l led_task" where
  "drive_changed put picks taken t =
     (case next_shown_poll picks t of
        (Pending, t) \<Rightarrow> t
      | (Ready (Some next_one), t) \<Rightarrow> led_turn put taken (t\<lparr>lt_shown := next_one\<rparr>)
      | (Ready None, t) \<Rightarrow> t\<lparr>lt_over := True\<rparr>)"

definition drive_tick :: "('o, 'l) led_shows \<Rightarrow> 'o \<Rightarrow> 'l led_task \<Rightarrow> 'l led_task" where
  "drive_tick put taken t =
     (case pattern_cycle (pattern_of (lt_shown t)) of
        None \<Rightarrow> t
      | Some (half, halves) \<Rightarrow> cycle_tick put taken half halves t)"

fun led_step :: "('o, 'l) led_shows \<Rightarrow> 'l led_task \<Rightarrow> 'o led_event \<Rightarrow> 'l led_task" where
  "led_step put t (SnapshotSent snapshot) = t\<lparr>lt_state := watch_send snapshot (lt_state t)\<rparr>"
| "led_step put t SnapshotGone = t\<lparr>lt_state := (lt_state t)\<lparr>wt_closed := True\<rparr>\<rparr>"
| "led_step put t (AirSent on_air) = t\<lparr>lt_air := watch_send on_air (lt_air t)\<rparr>"
| "led_step put t AirGone = t\<lparr>lt_air := (lt_air t)\<lparr>wt_closed := True\<rparr>\<rparr>"
| "led_step put t (TimePasses n) = t\<lparr>lt_now := lt_now t + n\<rparr>"
| "led_step put t (LedLooks picks taken) = (if lt_over t then t else drive_changed put picks taken t)"
| "led_step put t (LedTicks taken) = (if lt_over t then t else drive_tick put taken t)"

section \<open>What a pattern looks like\<close>

text \<open>
  The reference: which LEDs a pattern lights \<open>elapsed\<close> after it was taken up, by the description of each
  pattern and without a timer or a count of halves.
\<close>

fun pattern_at :: "pattern \<Rightarrow> nat \<Rightarrow> bool \<times> bool" where
  "pattern_at (Steady c) elapsed = colour_lit c"
| "pattern_at (Blink c hz) elapsed =
     (if even (elapsed div (SECOND div (2 * hz))) then colour_lit c else (False, False))"
| "pattern_at Alternate elapsed =
     (if even (elapsed div (SECOND div 2)) then (True, False) else (False, True))"

text \<open>The pattern is steady, or its timer is not overdue.\<close>

definition led_caught_up :: "'l led_task \<Rightarrow> bool" where
  "led_caught_up t \<longleftrightarrow> pattern_cycle (pattern_of (lt_shown t)) = None \<or> lt_now t < lt_at t"

text \<open>The LEDs are lit as their files say, a channel that is active low by a file of \<open>0\<close>.\<close>

definition channel_is_lit :: "led_channel \<Rightarrow> led_files \<Rightarrow> bool" where
  "channel_is_lit ch files \<longleftrightarrow> (files (lc_brightness ch) = Some ''1'') \<noteq> lc_active_low ch"

definition sysfs_lit :: "sysfs \<Rightarrow> bool \<times> bool" where
  "sysfs_lit led = (channel_is_lit (sy_red led) (sy_files led), channel_is_lit (sy_green led) (sy_files led))"

definition sysfs_ok :: "sysfs \<Rightarrow> bool" where
  "sysfs_ok led \<longleftrightarrow> lc_brightness (sy_red led) \<noteq> lc_brightness (sy_green led)"

section \<open>Driving any LED\<close>

text \<open>
  What \<open>drive\<close> needs of a \<open>Led\<close>: where \<open>show\<close> succeeds the LEDs are lit as it was asked, and it keeps
  them usable either way.
\<close>

locale lights =
  fixes put :: "('o, 'l) led_shows"
    and lit :: "'l \<Rightarrow> bool \<times> bool"
    and usable :: "'l \<Rightarrow> bool"
  assumes show_usable: "usable led \<Longrightarrow> usable (snd (put taken led red green))"
    and show_lights: "usable led \<Longrightarrow> put taken led red green = (Inr (), led') \<Longrightarrow> lit led' = (red, green)"
begin

text \<open>
  The loop's invariant: the LEDs show the half the loop counts, its deadline is that many halves after
  the pattern was taken up, and a value seen is a value shown.
\<close>

definition cycle_due :: "'l led_task \<Rightarrow> bool" where
  "cycle_due t \<longleftrightarrow>
     (case pattern_cycle (pattern_of (lt_shown t)) of
        None \<Rightarrow> lt_failing t \<or> lit (lt_led t) = pattern_at (pattern_of (lt_shown t)) 0
      | Some (half, halves) \<Rightarrow>
          (lt_failing t \<or> lit (lt_led t) = halves ! (lt_turn t mod 2)) \<and>
          lt_at t = lt_began t + (lt_turn t + 1) * half \<and>
          lt_began t + lt_turn t * half \<le> lt_now t)"

definition led_inv :: "'l led_task \<Rightarrow> bool" where
  "led_inv t \<longleftrightarrow>
     usable (lt_led t) \<and> lt_began t \<le> lt_now t \<and> cycle_due t \<and>
     (\<not> wt_unseen (lt_state t) \<and> \<not> wt_unseen (lt_air t) \<longrightarrow>
        lt_shown t = shown_of (wt_value (lt_state t)) (wt_value (lt_air t)))"

lemma led_put_led:
  assumes "usable (lt_led t)"
  shows "usable (lt_led (led_put put taken rg t))"
    and "lt_failing (led_put put taken rg t) \<or> lit (lt_led (led_put put taken rg t)) = rg"
proof -
  obtain res led where result: "put taken (lt_led t) (fst rg) (snd rg) = (res, led)" by fastforce
  have "usable led" using show_usable [OF assms, of taken "fst rg" "snd rg"] result by simp
  then show "usable (lt_led (led_put put taken rg t))"
    by (cases res) (simp_all add: led_put_def result)
  show "lt_failing (led_put put taken rg t) \<or> lit (lt_led (led_put put taken rg t)) = rg"
    using show_lights [OF assms, of taken "fst rg" "snd rg" led] result
    by (cases res) (simp_all add: led_put_def)
qed

end

text \<open>What showing a colour leaves alone.\<close>

lemma led_put_rest [simp]:
  "lt_state (led_put put taken rg t) = lt_state t" "lt_air (led_put put taken rg t) = lt_air t"
  "lt_shown (led_put put taken rg t) = lt_shown t" "lt_air_open (led_put put taken rg t) = lt_air_open t"
  "lt_turn (led_put put taken rg t) = lt_turn t" "lt_at (led_put put taken rg t) = lt_at t"
  "lt_now (led_put put taken rg t) = lt_now t" "lt_over (led_put put taken rg t) = lt_over t"
  "lt_began (led_put put taken rg t) = lt_began t"
  by (simp_all add: led_put_def split: prod.split sum.split)

text \<open>
  A poll of \<open>next_shown\<close> changes only the channels, and of them only what has been seen.
\<close>

definition only_watches :: "'l led_task \<Rightarrow> 'l led_task \<Rightarrow> bool" where
  "only_watches t t' \<longleftrightarrow>
     (\<exists>state air air_open. t' = t\<lparr>lt_state := state, lt_air := air, lt_air_open := air_open\<rparr> \<and>
        wt_value state = wt_value (lt_state t) \<and> wt_value air = wt_value (lt_air t))"

lemma only_watchesI:
  "t' = t\<lparr>lt_state := state, lt_air := air, lt_air_open := air_open\<rparr> \<Longrightarrow>
   wt_value state = wt_value (lt_state t) \<Longrightarrow> wt_value air = wt_value (lt_air t) \<Longrightarrow> only_watches t t'"
  unfolding only_watches_def by blast

lemma only_watches_refl: "only_watches t t"
  by (rule only_watchesI [where state = "lt_state t" and air = "lt_air t" and air_open = "lt_air_open t"])
    simp_all

lemma only_watches_trans: "only_watches t u \<Longrightarrow> only_watches u v \<Longrightarrow> only_watches t v"
  by (fastforce simp: only_watches_def)

lemma only_watchesD:
  assumes "only_watches t t'"
  shows "lt_led t' = lt_led t" "lt_failing t' = lt_failing t" "lt_shown t' = lt_shown t"
    "lt_turn t' = lt_turn t" "lt_at t' = lt_at t" "lt_now t' = lt_now t" "lt_over t' = lt_over t"
    "lt_began t' = lt_began t" "wt_value (lt_state t') = wt_value (lt_state t)"
    "wt_value (lt_air t') = wt_value (lt_air t)"
  using assms by (auto simp: only_watches_def)

definition all_seen :: "'l led_task \<Rightarrow> bool" where
  "all_seen t \<longleftrightarrow> \<not> wt_unseen (lt_state t) \<and> \<not> wt_unseen (lt_air t)"

definition now_held :: "'l led_task \<Rightarrow> shown" where
  "now_held t = shown_of (wt_value (lt_state t)) (wt_value (lt_air t))"

lemma shown_wakes_only: "shown_wakes first t = Ready (r, t') \<Longrightarrow> only_watches t t'"
  by (rule only_watchesI [where state = "lt_state t'" and air = "lt_air t'" and air_open = "lt_air_open t'"])
    (auto simp: shown_wakes_def state_wakes_def air_wakes_def watch_changed_def split: if_splits poll.splits)

lemma shown_wakes_failed:
  "shown_wakes first t = Ready (StateWoke False, t') \<Longrightarrow> t' = t"
  "shown_wakes first t = Ready (AirWoke False, t') \<Longrightarrow> t' = t"
  by (auto simp: shown_wakes_def state_wakes_def air_wakes_def watch_changed_def split: if_splits poll.splits)

lemma look_now_only:
  assumes "look_now t = (shown, t')"
  shows "only_watches t t'" "all_seen t'" "shown = now_held t"
proof -
  show "only_watches t t'"
    by (rule only_watchesI [where state = "(lt_state t)\<lparr>wt_unseen := False\<rparr>" and
          air = "(lt_air t)\<lparr>wt_unseen := False\<rparr>" and air_open = "lt_air_open t"])
      (use assms in \<open>auto simp: look_now_def borrow_and_update_def\<close>)
qed (use assms in \<open>auto simp: look_now_def borrow_and_update_def all_seen_def now_held_def\<close>)

lemma now_held_only: "only_watches t t' \<Longrightarrow> now_held t' = now_held t"
  by (simp add: now_held_def only_watchesD)

text \<open>
  What a poll of \<open>next_shown\<close> finds: what the channels hold now, all of it seen, where that differs from
  what is shown; otherwise it goes on waiting (or the state can no longer change), and if it has seen
  anything what it saw is what is shown.
\<close>

fun finds :: "'l led_task \<Rightarrow> shown option poll \<Rightarrow> 'l led_task \<Rightarrow> bool" where
  "finds t (Ready (Some shown)) t' \<longleftrightarrow> all_seen t' \<and> shown = now_held t \<and> shown \<noteq> lt_shown t"
| "finds t (Ready None) t' \<longleftrightarrow>
     lt_state t' = lt_state t \<and> lt_air t' = lt_air t \<or> all_seen t' \<and> lt_shown t = now_held t"
| "finds t Pending t' \<longleftrightarrow>
     lt_state t' = lt_state t \<and> lt_air t' = lt_air t \<or> all_seen t' \<and> lt_shown t = now_held t"

lemma finds_later:
  assumes "only_watches t u" and "finds u r t'"
    and "lt_state u = lt_state t \<and> lt_air u = lt_air t \<or> all_seen u \<and> lt_shown t = now_held t"
  shows "finds t r t'"
proof -
  note same = only_watchesD [OF assms(1)] now_held_only [OF assms(1)]
  have seen: "lt_state t' = lt_state u \<Longrightarrow> lt_air t' = lt_air u \<Longrightarrow> all_seen u \<Longrightarrow> all_seen t'"
    by (simp add: all_seen_def)
  show ?thesis
    using assms(2,3) same seen by (cases "(t, r, t')" rule: finds.cases) auto
qed

lemma next_shown_finds:
  "next_shown_poll picks t = (r, t') \<Longrightarrow> only_watches t t' \<and> finds t r t'"
proof (induction picks t arbitrary: r t' rule: next_shown_poll.induct)
  case (1 picks t)
  note poll = "1.prems" [unfolded next_shown_poll.simps [of picks t]]
  show ?case
  proof (cases "shown_wakes (picks \<noteq> [] \<and> hd picks) t")
    case Pending
    with poll show ?thesis by (auto simp: only_watches_refl)
  next
    case (Ready a)
    then obtain woken u where woke: "shown_wakes (picks \<noteq> [] \<and> hd picks) t = Ready (woken, u)"
      by (cases a) auto
    note only = shown_wakes_only [OF woke]
    consider (gone) "woken = StateWoke False" | (air) "woken = AirWoke False"
      | (look) "woken = StateWoke True \<or> woken = AirWoke True"
      by (cases woken) auto
    then show ?thesis
    proof cases
      case gone
      with woke have "u = t" by (auto dest: shown_wakes_failed)
      with poll woke gone show ?thesis by (auto simp: only_watches_refl)
    next
      case air
      with woke have u: "u = t" by (auto dest: shown_wakes_failed)
      with poll woke air have rec: "next_shown_poll (tl picks) (t\<lparr>lt_air_open := False\<rparr>) = (r, t')" by simp
      have closed: "only_watches t (t\<lparr>lt_air_open := False\<rparr>)"
        by (rule only_watchesI [where state = "lt_state t" and air = "lt_air t" and air_open = False]) simp_all
      from "1.IH"(3) [OF woke [unfolded u air] refl refl] rec closed show ?thesis
        by (auto intro: only_watches_trans finds_later [OF closed])
    next
      case look
      obtain s v where s: "look_now u = (s, v)" by fastforce
      note looked = look_now_only [OF s]
      have uv: "only_watches t v" using only looked(1) by (rule only_watches_trans)
      have held: "s = now_held t" using looked(3) now_held_only [OF only] by simp
      have shown: "lt_shown v = lt_shown t" using only_watchesD(3) [OF uv] .
      show ?thesis
      proof (cases "s = lt_shown v")
        case False
        with poll woke look s have "r = Ready (Some s)" "t' = v" by auto
        with uv looked(2) held shown False show ?thesis by auto
      next
        case True
        with poll woke look s have rec: "next_shown_poll (tl picks) v = (r, t')" by auto
        have IH: "only_watches v t' \<and> finds v r t'"
          using look
        proof
          assume w: "woken = StateWoke True"
          show ?thesis using "1.IH"(1) [OF woke [unfolded w] refl refl _ s [symmetric]] rec True by simp
        next
          assume w: "woken = AirWoke True"
          show ?thesis using "1.IH"(2) [OF woke [unfolded w] refl refl _ s [symmetric]] rec True by simp
        qed
        with uv looked(2) held shown True show ?thesis
          by (auto intro: only_watches_trans finds_later [OF uv])
      qed
    qed
  qed
qed

section \<open>The loop keeps its invariant\<close>

declare next_shown_poll.simps [simp del]

lemma led_turn_rest [simp]:
  "lt_state (led_turn put taken t) = lt_state t" "lt_air (led_turn put taken t) = lt_air t"
  "lt_shown (led_turn put taken t) = lt_shown t" "lt_now (led_turn put taken t) = lt_now t"
  "lt_began (led_turn put taken t) = lt_now t"
  by (cases "pattern_of (lt_shown t)"; simp add: led_turn_def cycle_start_def Let_def)+

lemma pattern_at_cycle:
  assumes "pattern_cycle p = Some (half, halves)"
  shows "pattern_at p elapsed = halves ! (elapsed div half mod 2)"
  using assms by (cases p) (auto simp: SECOND_def even_iff_mod_2_eq_zero)

context lights
begin

lemma led_turn_due:
  assumes "usable (lt_led t)"
  shows "usable (lt_led (led_turn put taken t)) \<and> cycle_due (led_turn put taken t)"
proof -
  note put = led_put_led [of "t\<lparr>lt_air_open := True, lt_began := lt_now t\<rparr>"]
    led_put_led [of "t\<lparr>lt_air_open := True, lt_began := lt_now t, lt_turn := 0, lt_at := lt_now t\<rparr>"]
  show ?thesis
    using assms put
    by (cases "pattern_of (lt_shown t)")
      (simp_all add: led_turn_def cycle_due_def cycle_start_def Let_def)
qed

lemma cycle_due_rest [simp]:
  "cycle_due (t\<lparr>lt_over := over\<rparr>) = cycle_due t" "cycle_due (t\<lparr>lt_state := state\<rparr>) = cycle_due t"
  "cycle_due (t\<lparr>lt_air := air\<rparr>) = cycle_due t"
  by (simp_all add: cycle_due_def split: option.split)

lemma cycle_due_later: "cycle_due t \<Longrightarrow> cycle_due (t\<lparr>lt_now := lt_now t + n\<rparr>)"
  by (auto simp: cycle_due_def split: option.splits)

lemma drive_changed_inv:
  assumes "led_inv t"
  shows "led_inv (drive_changed put picks taken t)"
proof -
  obtain r t' where poll: "next_shown_poll picks t = (r, t')" by fastforce
  note found = next_shown_finds [OF poll]
  note same = only_watchesD [OF conjunct1 [OF found]] now_held_only [OF conjunct1 [OF found]]
  have usable: "usable (lt_led t')" using assms same by (simp add: led_inv_def)
  have waiting: "led_inv t'" if "\<forall>s. r \<noteq> Ready (Some s)"
  proof -
    have "cycle_due t' = cycle_due t" unfolding cycle_due_def same by (rule refl)
    moreover have "lt_state t' = lt_state t \<and> lt_air t' = lt_air t \<or> lt_shown t = now_held t"
      using found that by (cases "(t, r, t')" rule: finds.cases) auto
    ultimately show ?thesis
      using assms same by (auto simp: led_inv_def now_held_def)
  qed
  show ?thesis
  proof (cases r)
    case Pending
    with waiting poll show ?thesis by (simp add: drive_changed_def)
  next
    case (Ready a)
    show ?thesis
    proof (cases a)
      case None
      with waiting Ready have "led_inv t'" by simp
      with poll Ready None show ?thesis by (simp add: drive_changed_def led_inv_def)
    next
      case (Some s)
      with found Ready have "s = now_held t" by simp
      with poll Ready Some usable same led_turn_due [of "t'\<lparr>lt_shown := s\<rparr>" taken] show ?thesis
        by (simp add: drive_changed_def led_inv_def now_held_def)
    qed
  qed
qed

lemma cycle_tick_inv:
  assumes inv: "led_inv t" and cycle: "pattern_cycle (pattern_of (lt_shown t)) = Some (half, halves)"
  shows "led_inv (cycle_tick put taken half halves t)"
proof (cases "lt_at t \<le> lt_now t")
  case True
  let ?t = "t\<lparr>lt_turn := lt_turn t + 1\<rparr>"
  have "usable (lt_led ?t)" using inv by (simp add: led_inv_def)
  note put = led_put_led [OF this, of taken "halves ! ((lt_turn t + 1) mod 2)"]
  with inv cycle True show ?thesis
    by (simp add: led_inv_def cycle_due_def cycle_tick_def Let_def)
qed (use inv in \<open>simp add: cycle_tick_def\<close>)

lemma led_step_inv: "led_inv t \<Longrightarrow> led_inv (led_step put t e)"
proof (cases e)
  case (LedLooks picks taken)
  assume "led_inv t"
  with LedLooks show ?thesis by (simp add: drive_changed_inv)
next
  case (LedTicks taken)
  assume inv: "led_inv t"
  with LedTicks show ?thesis
    by (auto simp: drive_tick_def cycle_tick_inv split: option.split)
qed (auto simp: led_inv_def cycle_due_later watch_send_def)

lemma drive_start_inv: "usable led \<Longrightarrow> led_inv (drive_start put taken led state air now)"
  using led_turn_due by (simp add: drive_start_def borrow_and_update_def led_inv_def)

text \<open>
  What the LEDs show: where all that was sent has been seen, the last write succeeded and the timer is
  not overdue, what the reference shows for the state the channels hold.
\<close>

lemma led_inv_shows:
  assumes inv: "led_inv t" and seen: "all_seen t" and "\<not> lt_failing t" and "led_caught_up t"
  shows "lit (lt_led t) = pattern_at (pattern_of (now_held t)) (lt_now t - lt_began t)"
proof (cases "pattern_cycle (pattern_of (lt_shown t))")
  case None
  with assms show ?thesis
    by (cases "pattern_of (lt_shown t)") (auto simp: led_inv_def all_seen_def now_held_def cycle_due_def)
next
  case (Some c)
  obtain half halves where c: "c = (half, halves)" by fastforce
  note due = inv [unfolded led_inv_def cycle_due_def Some c]
  have "lt_now t < lt_began t + (lt_turn t + 1) * half"
    using assms(4) due Some by (simp add: led_caught_up_def)
  with due have "lt_turn t * half \<le> lt_now t - lt_began t" "lt_now t - lt_began t < (lt_turn t + 1) * half"
    by auto
  then have "(lt_now t - lt_began t) div half = lt_turn t"
    by (metis Suc_eq_plus1 div_nat_eqI mult.commute)
  with due Some c seen assms(3) show ?thesis
    by (simp add: pattern_at_cycle all_seen_def now_held_def)
qed

end

section \<open>Driving the board's LEDs\<close>

interpretation board_leds: lights sysfs_show sysfs_lit sysfs_ok
proof unfold_locales
  fix taken led red green
  assume "sysfs_ok led"
  then show "sysfs_ok (snd (sysfs_show taken led red green))"
    by (simp add: sysfs_show_def sysfs_ok_def case_prod_unfold Let_def)
next
  fix taken led red green led'
  assume ok: "sysfs_ok led" and shown: "sysfs_show taken led red green = (Inr (), led')"
  obtain a b where taken: "taken = (a, b)" by fastforce
  from shown obtain "a = Inr ()" "b = Inr ()"
    by (cases a; cases b) (simp_all add: taken sysfs_show_def channel_set_def write_file_def)
  with ok shown show "sysfs_lit led' = (red, green)"
    by (auto simp: taken sysfs_show_def sysfs_ok_def sysfs_lit_def channel_set_def channel_is_lit_def
        write_file_def split: if_splits)
qed

interpretation led_drive: event_machine "led_step sysfs_show" board_leds.led_inv
  by unfold_locales (rule board_leds.led_step_inv)

text \<open>The two LEDs the board is found to have are two files.\<close>

lemma channel_take_name:
  assumes "channel_take taken is_dir root names active_low files = (Inr ch, files')"
  shows "\<exists>name \<in> set names. lc_brightness ch = path_join (path_join root name) ''brightness''"
proof -
  obtain dir where dir: "List.find is_dir (map (path_join root) names) = Some dir"
    using assms by (cases "List.find is_dir (map (path_join root) names)") (auto simp: channel_take_def)
  then have "lc_brightness ch = path_join dir ''brightness''"
    using assms by (cases taken) (auto simp: channel_take_def write_file_def)
  with find_SomeD [OF dir] show ?thesis by auto
qed

lemma sysfs_at_ok:
  assumes "sysfs_at red_taken green_taken is_dir root files = Inr led"
  shows "sysfs_ok led"
proof -
  obtain red files1 where red: "channel_take red_taken is_dir root RED RED_ACTIVE_LOW files = (Inr red, files1)"
    using assms by (auto simp: sysfs_at_def split: prod.splits sum.splits)
  with assms obtain green files2
    where green: "channel_take green_taken is_dir root GREEN GREEN_ACTIVE_LOW files1 = (Inr green, files2)"
      and led: "led = \<lparr>sy_red = red, sy_green = green, sy_files = files2\<rparr>"
    by (auto simp: sysfs_at_def split: prod.splits sum.splits)
  from channel_take_name [OF red] channel_take_name [OF green] led show ?thesis
    by (auto simp: sysfs_ok_def RED_def GREEN_def path_join_def)
qed

text \<open>What a run of the loop on the board's LEDs comes to.\<close>

definition led_run :: "sysfs \<Rightarrow> unit io_result \<times> unit io_result \<Rightarrow> snapshot watch \<Rightarrow> bool watch \<Rightarrow> nat \<Rightarrow>
    (unit io_result \<times> unit io_result) led_event list \<Rightarrow> sysfs led_task" where
  "led_run led taken state air now events =
     foldl (led_step sysfs_show) (drive_start sysfs_show taken led state air now) events"

text \<open>C40. The status LED shows what it should: after any run of its loop on the LEDs the board was found to have, whatever
  was sent on the two channels, however long passed and whichever writes failed on the way, where the
  loop has seen what was sent, its last write succeeded and its timer is not overdue, the red and the
  green LED are lit as the pattern of the current state and air is by its description, by the time since
  that pattern was taken up alone: half-cycles neither drift nor are skipped.\<close>

theorem led_shows_the_state:
  assumes "sysfs_at red_taken green_taken is_dir root files = Inr led"
    and "t = led_run led taken state air now events"
    and "all_seen t" and "\<not> lt_failing t" and "led_caught_up t"
  shows "sysfs_lit (lt_led t) =
    pattern_at (pattern_of (shown_of (wt_value (lt_state t)) (wt_value (lt_air t))))
      (lt_now t - lt_began t)"
proof -
  have "board_leds.led_inv t"
    unfolding assms(2) led_run_def
    by (rule led_drive.run_inv, rule board_leds.drive_start_inv, rule sysfs_at_ok [OF assms(1)])
  from board_leds.led_inv_shows [OF this assms(3-5)] show ?thesis
    by (simp add: now_held_def)
qed

text \<open>A run that waits for an operator blinks amber: 700 ms on it is in its dark half.\<close>

definition witness_leds :: "led_error + sysfs" where
  "witness_leds = sysfs_at (Inr ()) (Inr ()) (\<lambda>_. True) ''/leds'' Map.empty"

definition waiting_watch :: "snapshot watch" where
  "waiting_watch = \<lparr>wt_value = \<lparr>sn_revision = 1, sn_built = (2026, 1, 1), sn_run = RunWaiting,
     sn_checked = True, sn_provisioned = False, sn_steps = [], sn_prompts = []\<rparr>,
     wt_unseen = False, wt_closed = False\<rparr>"

definition witness_run :: "sysfs \<Rightarrow> sysfs led_task" where
  "witness_run led =
     led_run led (Inr (), Inr ()) waiting_watch \<lparr>wt_value = True, wt_unseen = False, wt_closed = False\<rparr> 0
       [TimePasses 500000000, LedTicks (Inr (), Inr ()), TimePasses 200000000]"

theorem led_shows_the_state_witness:
  "\<exists>led. witness_leds = Inr led \<and> sysfs_lit (lt_led (witness_run led)) = (False, False)"
proof -
  obtain led where led: "witness_leds = Inr led"
    by (auto simp: witness_leds_def sysfs_at_def channel_take_def write_file_def RED_def GREEN_def)
  note run_defs = witness_run_def led_run_def drive_start_def borrow_and_update_def waiting_watch_def
    led_turn_def shown_of_def pattern_of_def cycle_start_def drive_tick_def cycle_tick_def led_put_def
    sysfs_show_def channel_set_def write_file_def SECOND_def
  have ended: "all_seen (witness_run led) \<and> \<not> lt_failing (witness_run led) \<and> led_caught_up (witness_run led)
      \<and> lt_now (witness_run led) = 700000000 \<and> lt_began (witness_run led) = 0
      \<and> wt_value (lt_state (witness_run led)) = wt_value waiting_watch \<and> wt_value (lt_air (witness_run led))"
    by (simp add: run_defs all_seen_def led_caught_up_def)
  have "sysfs_lit (lt_led (witness_run led)) = pattern_at (Blink Amber 1) 700000000"
    using led_shows_the_state [OF led [unfolded witness_leds_def] witness_run_def] ended
    by (simp add: shown_of_def pattern_of_def waiting_watch_def)
  with led show ?thesis by (auto simp: SECOND_def)
qed

text \<open>
  A change takes effect at once and from its start, and one that leaves what is shown alone does not
  disturb a blink: a poll of \<open>changed\<close> that finds another state to be shown starts its pattern now, and one
  that does not leaves the LEDs, the half being shown and its deadline as they were.
\<close>

lemma drive_changed_effect:
  assumes "drive_changed put picks taken t = t'"
  shows "lt_shown t' = lt_shown t \<and> lt_led t' = lt_led t \<and> lt_turn t' = lt_turn t \<and> lt_at t' = lt_at t \<and>
           lt_began t' = lt_began t \<or>
         lt_shown t' = now_held t \<and> lt_shown t' \<noteq> lt_shown t \<and> lt_began t' = lt_now t"
proof -
  obtain r u where poll: "next_shown_poll picks t = (r, u)" by fastforce
  note found = next_shown_finds [OF poll]
  note same = only_watchesD [OF conjunct1 [OF found]]
  from assms found same poll show ?thesis
    by (cases "(t, r, u)" rule: finds.cases) (auto simp: drive_changed_def)
qed

end
