(* ===== verification/Link_Check.thy ===== *)
theory Link_Check
  imports Selector
begin

text \<open>
  What verifying one attempt looks for, \<open>crates/bliti/src/network/stack/verify.rs\<close>: what is observed of each
  link's addresses and default routes, whether an attempt's addressing stage has passed, and which gateway
  its gateway stage asks; with the observations of \<open>network/observe.rs\<close> and how \<open>network/stack/driver.rs\<close>
  takes one in.  Reading an address from its text is a parameter.
\<close>

section \<open>Addresses and observations\<close>

datatype ip_addr = V4 "32 word" | V6 "128 word"

fun is_ipv4 :: "ip_addr \<Rightarrow> bool" where
  "is_ipv4 (V4 _) = True"
| "is_ipv4 (V6 _) = False"

text \<open>The order of \<open>IpAddr\<close>: every IPv4 address before every IPv6 one, and by their octets.\<close>

instantiation ip_addr :: linorder
begin

fun less_eq_ip_addr :: "ip_addr \<Rightarrow> ip_addr \<Rightarrow> bool" where
  "less_eq_ip_addr (V4 a) (V4 b) = (a \<le> b)"
| "less_eq_ip_addr (V4 a) (V6 b) = True"
| "less_eq_ip_addr (V6 a) (V4 b) = False"
| "less_eq_ip_addr (V6 a) (V6 b) = (a \<le> b)"

definition less_ip_addr :: "ip_addr \<Rightarrow> ip_addr \<Rightarrow> bool" where
  "less_ip_addr a b \<longleftrightarrow> a \<le> b \<and> \<not> b \<le> (a :: ip_addr)"

instance
proof
  fix a b c :: ip_addr
  show "a < b \<longleftrightarrow> a \<le> b \<and> \<not> b \<le> a" by (rule less_ip_addr_def)
  show "a \<le> a" by (cases a) auto
  show "a \<le> b \<Longrightarrow> b \<le> c \<Longrightarrow> a \<le> c" by (cases a; cases b; cases c) auto
  show "a \<le> b \<Longrightarrow> b \<le> a \<Longrightarrow> a = b" by (cases a; cases b) auto
  show "a \<le> b \<or> b \<le> a" by (cases a; cases b) auto
qed

end

record joined_to =
  jo_ssid :: string
  jo_frequency :: "u32 option"
  jo_security :: "string option"

datatype station = Disconnected | Busy | StationConnected joined_to

datatype observation =
    CarrierSeen string bool
  | AddressSeen string ip_addr bool bool
  | RouteSeen string ip_addr bool
  | HeardSeen string "(string, int) bt" bool
  | StationSeen string station
  | RegulatorySeen

section \<open>What each link holds\<close>

text \<open>A set is a map to nothing.\<close>

type_synonym ip_set = "(ip_addr, unit) bt"

record links =
  ls_addresses :: "(string, (ip_addr, bool) bt) bt"
  ls_gateways :: "(string, ip_set) bt"

definition links_default :: links where
  "links_default = \<lparr>ls_addresses = [], ls_gateways = []\<rparr>"

text \<open>\<open>entry(k).or_default()\<close>, what it gives.\<close>

definition entry_or_default :: "('k, ('a, 'b) bt) bt \<Rightarrow> 'k \<Rightarrow> ('a, 'b) bt" where
  "entry_or_default m k = (case bt_get m k of Some held \<Rightarrow> held | None \<Rightarrow> [])"

fun links_observe :: "observation \<Rightarrow> links \<Rightarrow> string option \<times> links" where
  "links_observe (AddressSeen interface address dynamic present) ls =
     (let held = entry_or_default (ls_addresses ls) interface;
          held = (if present then bt_insert address dynamic held else bt_remove address held)
      in (Some interface, ls\<lparr>ls_addresses := bt_insert interface held (ls_addresses ls)\<rparr>))"
| "links_observe (RouteSeen interface gateway present) ls =
     (let held = entry_or_default (ls_gateways ls) interface;
          held = (if present then bt_insert gateway () held else bt_remove gateway held)
      in (Some interface, ls\<lparr>ls_gateways := bt_insert interface held (ls_gateways ls)\<rparr>))"
| "links_observe (CarrierSeen _ _) ls = (None, ls)"
| "links_observe (HeardSeen _ _ _) ls = (None, ls)"
| "links_observe (StationSeen _ _) ls = (None, ls)"
| "links_observe RegulatorySeen ls = (None, ls)"

definition links_addresses :: "links \<Rightarrow> string \<Rightarrow> (ip_addr \<times> bool) list" where
  "links_addresses ls interface = entry_or_default (ls_addresses ls) interface"

definition links_gateways :: "links \<Rightarrow> string \<Rightarrow> ip_addr list" where
  "links_gateways ls interface = bt_keys (entry_or_default (ls_gateways ls) interface)"

definition links_held :: "links \<Rightarrow> string \<Rightarrow> ip_set" where
  "links_held ls interface =
     bt_collect (map (\<lambda>a. (a, ())) (map fst (links_addresses ls interface) @ links_gateways ls interface))"

section \<open>One attempt\<close>

datatype addressing = Dynamic | Static "ip_addr list" "ip_addr option"

definition addressing_of ::
    "(string \<Rightarrow> ip_addr option) \<Rightarrow> (string \<Rightarrow> ip_addr option) \<Rightarrow> attachment \<Rightarrow> addressing" where
  "addressing_of net_addr parse_ip a =
     (case at_kind a of
        WiredStatic _ addresses gateway \<Rightarrow> Static (List.map_filter net_addr addresses) (parse_ip gateway)
      | Wireless _ \<Rightarrow> Dynamic
      | WiredDynamic _ \<Rightarrow> Dynamic)"

datatype network_type = NetworkPsk | NetworkEnterprise

record join_target =
  jt_ssid :: string
  jt_kind :: network_type
  jt_hidden :: bool

record joining =
  jn_target :: join_target
  jn_sae :: bool

definition joining_of :: "attachment \<Rightarrow> joining option" where
  "joining_of a =
     (case at_kind a of
        Wireless w \<Rightarrow>
          Some \<lparr>jn_target =
                  \<lparr>jt_ssid = wl_ssid w,
                   jt_kind = (case wl_security w of Enterprise _ \<Rightarrow> NetworkEnterprise | _ \<Rightarrow> NetworkPsk),
                   jt_hidden = (wl_hidden w = Some True)\<rparr>,
                jn_sae = (case wl_security w of Sae _ \<Rightarrow> True | _ \<Rightarrow> False)\<rparr>
      | _ \<Rightarrow> None)"

record link_check =
  ck_attempt :: attempt
  ck_candidate :: nat
  ck_interface :: string
  ck_joining :: "joining option"
  ck_addressing :: addressing
  ck_at :: "stage option"
  ck_armed :: bool
  ck_awaiting_scan :: bool
  ck_stale :: ip_set
  ck_probing :: bool
  ck_timer :: u64

definition check_new ::
    "(string \<Rightarrow> ip_addr option) \<Rightarrow> (string \<Rightarrow> ip_addr option) \<Rightarrow> attempt \<Rightarrow> nat \<Rightarrow> attachment \<Rightarrow> string \<Rightarrow> stage
      \<Rightarrow> ip_set \<Rightarrow> link_check" where
  "check_new net_addr parse_ip attempt candidate a interface at stale =
     \<lparr>ck_attempt = attempt, ck_candidate = candidate, ck_interface = interface, ck_joining = joining_of a,
      ck_addressing = addressing_of net_addr parse_ip a, ck_at = Some at, ck_armed = False,
      ck_awaiting_scan = False, ck_stale = stale, ck_probing = False, ck_timer = 0\<rparr>"

fun check_announced :: "observation \<Rightarrow> link_check \<Rightarrow> link_check" where
  "check_announced (AddressSeen _ address _ True) c = c\<lparr>ck_stale := bt_remove address (ck_stale c)\<rparr>"
| "check_announced (RouteSeen _ gateway True) c = c\<lparr>ck_stale := bt_remove gateway (ck_stale c)\<rparr>"
| "check_announced _ c = c"

definition check_held :: "link_check \<Rightarrow> links \<Rightarrow> ip_addr list" where
  "check_held c ls =
     map fst (filter (\<lambda>(address, dynamic).
         case ck_addressing c of
           Dynamic \<Rightarrow> dynamic \<and> \<not> bt_has (ck_stale c) address
         | Static addresses _ \<Rightarrow> address \<in> set addresses)
       (links_addresses ls (ck_interface c)))"

text \<open>The address a gateway is asked from: the first held of its kind.\<close>

definition asked_from :: "ip_addr list \<Rightarrow> ip_addr \<Rightarrow> (ip_addr \<times> ip_addr) option" where
  "asked_from held gateway =
     map_option (\<lambda>source. (source, gateway)) (List.find (\<lambda>a. is_ipv4 a = is_ipv4 gateway) held)"

fun find_map :: "('a \<Rightarrow> 'b option) \<Rightarrow> 'a list \<Rightarrow> 'b option" where
  "find_map f [] = None"
| "find_map f (x # xs) = (case f x of Some y \<Rightarrow> Some y | None \<Rightarrow> find_map f xs)"

definition check_gateway :: "link_check \<Rightarrow> links \<Rightarrow> (ip_addr \<times> ip_addr) option" where
  "check_gateway c ls =
     (let held = check_held c ls in
      case ck_addressing c of
        Static _ gateway \<Rightarrow> Option.bind gateway (asked_from held)
      | Dynamic \<Rightarrow>
          find_map (asked_from held)
            (sort_key (\<lambda>g. \<not> is_ipv4 g)
              (filter (\<lambda>g. \<not> bt_has (ck_stale c) g) (links_gateways ls (ck_interface c)))))"

text \<open>How the driver takes in an observation, for one check of its.\<close>

definition driver_observe :: "links \<times> link_check \<Rightarrow> observation \<Rightarrow> links \<times> link_check" where
  "driver_observe lc obs =
     (let (concerned, ls) = links_observe obs (fst lc)
      in (ls, if concerned = Some (ck_interface (snd lc)) then check_announced obs (snd lc) else snd lc))"

section \<open>What was observed of a link\<close>

text \<open>
  The reference: what a history of observations says of one address or default route of a link, and
  whether it announced it.
\<close>

fun address_said :: "string \<Rightarrow> ip_addr \<Rightarrow> observation \<Rightarrow> (bool \<times> bool) option" where
  "address_said i a (AddressSeen j b dynamic present) = (if j = i \<and> b = a then Some (dynamic, present) else None)"
| "address_said i a _ = None"

fun route_said :: "string \<Rightarrow> ip_addr \<Rightarrow> observation \<Rightarrow> bool option" where
  "route_said i a (RouteSeen j b present) = (if j = i \<and> b = a then Some present else None)"
| "route_said i a _ = None"

definition last_said :: "('e \<Rightarrow> 'a option) \<Rightarrow> 'e list \<Rightarrow> 'a option" where
  "last_said said history = find_map said (rev history)"

definition announces :: "string \<Rightarrow> ip_addr \<Rightarrow> observation \<Rightarrow> bool" where
  "announces i a obs \<longleftrightarrow> (\<exists>dynamic. address_said i a obs = Some (dynamic, True)) \<or> route_said i a obs = Some True"

definition announced_in :: "string \<Rightarrow> ip_addr \<Rightarrow> observation list \<Rightarrow> bool" where
  "announced_in i a history \<longleftrightarrow> list_ex (announces i a) history"

lemma last_said_Nil [simp]: "last_said said [] = None"
  by (simp add: last_said_def)

lemma last_said_snoc [simp]:
  "last_said said (history @ [e]) = (case said e of Some x \<Rightarrow> Some x | None \<Rightarrow> last_said said history)"
  by (simp add: last_said_def split: option.split)

lemma announced_in_simps [simp]:
  "\<not> announced_in i a []"
  "announced_in i a (history @ [e]) \<longleftrightarrow> announced_in i a history \<or> announces i a e"
  by (auto simp: announced_in_def)

text \<open>Something last said to be there was announced.\<close>

lemma last_said_present:
  "last_said (address_said i a) history = Some (dynamic, True) \<Longrightarrow> announced_in i a history"
  "last_said (route_said i a) history = Some True \<Longrightarrow> announced_in i a history"
  by (induction history rule: rev_induct) (auto simp: announces_def split: option.splits)

section \<open>Keeping a link's addresses and routes\<close>

definition links_sorted :: "links \<Rightarrow> bool" where
  "links_sorted ls \<longleftrightarrow>
     (\<forall>i. bt_ok (entry_or_default (ls_addresses ls) i)) \<and> (\<forall>i. bt_ok (entry_or_default (ls_gateways ls) i))"

lemma entry_or_default_insert [simp]:
  "entry_or_default (bt_insert k v m) q = (if q = k then v else entry_or_default m q)"
  by (simp add: entry_or_default_def)

lemma links_observe_sorted: "links_sorted ls \<Longrightarrow> links_sorted (snd (links_observe obs ls))"
  by (cases obs) (auto simp: links_sorted_def Let_def)

definition address_now :: "links \<Rightarrow> string \<Rightarrow> ip_addr \<Rightarrow> bool option" where
  "address_now ls i a = bt_get (entry_or_default (ls_addresses ls) i) a"

definition route_now :: "links \<Rightarrow> string \<Rightarrow> ip_addr \<Rightarrow> bool" where
  "route_now ls i g \<longleftrightarrow> bt_has (entry_or_default (ls_gateways ls) i) g"

lemma links_observe_now:
  "address_now (snd (links_observe obs ls)) i a =
     (case address_said i a obs of
        Some (dynamic, present) \<Rightarrow> (if present then Some dynamic else None)
      | None \<Rightarrow> address_now ls i a)"
  "route_now (snd (links_observe obs ls)) i g =
     (case route_said i g obs of Some present \<Rightarrow> present | None \<Rightarrow> route_now ls i g)"
  by (cases obs; auto simp: address_now_def route_now_def bt_has_def Let_def)+

lemma links_held_iff: "bt_has (links_held ls i) a \<longleftrightarrow> address_now ls i a \<noteq> None \<or> route_now ls i a"
proof -
  have "bt_has (bt_collect (map (\<lambda>a. (a, ())) xs)) a \<longleftrightarrow> a \<in> set xs" for xs :: "ip_addr list"
    unfolding bt_has_def bt_get_collect map_of_eq_None_iff by (simp add: image_image)
  then have "bt_has (links_held ls i) a \<longleftrightarrow>
      a \<in> set (map fst (links_addresses ls i) @ links_gateways ls i)"
    unfolding links_held_def .
  then show ?thesis
    by (simp add: links_addresses_def links_gateways_def address_now_def route_now_def bt_has_iff
        bt_keys_def bt_get_None_iff)
qed

text \<open>Only the stale set of a check changes, and what is announced on its link leaves it.\<close>

lemma driver_observe_rest [simp]:
  "ck_interface (snd (driver_observe lc obs)) = ck_interface (snd lc)"
  "ck_addressing (snd (driver_observe lc obs)) = ck_addressing (snd lc)"
  "fst (driver_observe lc obs) = snd (links_observe obs (fst lc))"
  by (cases "(obs, snd lc)" rule: check_announced.cases;
      auto simp: driver_observe_def case_prod_unfold Let_def)+

lemma driver_observe_stale:
  "bt_has (ck_stale (snd (driver_observe lc obs))) a \<longleftrightarrow>
     bt_has (ck_stale (snd lc)) a \<and> \<not> announces (ck_interface (snd lc)) a obs"
  by (cases "(obs, snd lc)" rule: check_announced.cases)
    (auto simp: driver_observe_def case_prod_unfold Let_def announces_def bt_has_def)

text \<open>An attempt watched from its start, on the links there were.\<close>

definition watched :: "links \<Rightarrow> link_check \<Rightarrow> observation list \<Rightarrow> links \<times> link_check" where
  "watched ls c history = foldl driver_observe (ls, c) history"

lemma watched_facts:
  assumes "links_sorted ls"
  shows "links_sorted (fst (watched ls c history))"
    and "ck_interface (snd (watched ls c history)) = ck_interface c"
    and "ck_addressing (snd (watched ls c history)) = ck_addressing c"
    and "address_now (fst (watched ls c history)) i a =
      (case last_said (address_said i a) history of
         Some (dynamic, present) \<Rightarrow> (if present then Some dynamic else None)
       | None \<Rightarrow> address_now ls i a)"
    and "route_now (fst (watched ls c history)) i a =
      (case last_said (route_said i a) history of Some present \<Rightarrow> present | None \<Rightarrow> route_now ls i a)"
    and "bt_has (ck_stale (snd (watched ls c history))) a \<longleftrightarrow>
      bt_has (ck_stale c) a \<and> \<not> announced_in (ck_interface c) a history"
  using assms
  by (induction history rule: rev_induct)
    (auto simp: watched_def links_observe_sorted links_observe_now driver_observe_stale
      split: option.splits prod.splits)

section \<open>What an attempt takes as its own\<close>

lemma check_held_iff:
  assumes "links_sorted ls"
  shows "a \<in> set (check_held c ls) \<longleftrightarrow>
    (case ck_addressing c of
       Dynamic \<Rightarrow> address_now ls (ck_interface c) a = Some True \<and> \<not> bt_has (ck_stale c) a
     | Static addresses _ \<Rightarrow> address_now ls (ck_interface c) a \<noteq> None \<and> a \<in> set addresses)"
proof -
  have "bt_ok (links_addresses ls (ck_interface c))" using assms by (simp add: links_sorted_def links_addresses_def)
  then have held: "(a, d) \<in> set (links_addresses ls (ck_interface c)) \<longleftrightarrow> address_now ls (ck_interface c) a = Some d" for d
    using bt_ok_get_iff [of "links_addresses ls (ck_interface c)" a d]
    by (simp add: address_now_def links_addresses_def)
  have "a \<in> set (check_held c ls) \<longleftrightarrow> (\<exists>d. (a, d) \<in> set (links_addresses ls (ck_interface c)) \<and>
      (case ck_addressing c of Dynamic \<Rightarrow> d \<and> \<not> bt_has (ck_stale c) a | Static addresses _ \<Rightarrow> a \<in> set addresses))"
    by (auto simp: check_held_def image_iff Bex_def)
  then show ?thesis unfolding held by (cases "ck_addressing c") auto
qed

lemma links_gateways_iff: "g \<in> set (links_gateways ls i) \<longleftrightarrow> route_now ls i g"
  by (simp add: links_gateways_def route_now_def bt_has_iff)

lemma asked_from_Some:
  "asked_from held g = Some (s, g') \<Longrightarrow> g' = g \<and> s \<in> set held \<and> is_ipv4 s = is_ipv4 g"
  by (auto simp: asked_from_def dest: find_SomeD)

lemma asked_from_None: "asked_from held g = None \<longleftrightarrow> (\<forall>s \<in> set held. is_ipv4 s \<noteq> is_ipv4 g)"
  by (auto simp: asked_from_def find_None_iff)

text \<open>The first that passes, of a list in order of a key, has the least key of those that pass.\<close>

lemma find_map_None: "find_map f xs = None \<longleftrightarrow> (\<forall>x \<in> set xs. f x = None)"
  by (induction xs) (auto split: option.splits)

lemma find_map_least:
  assumes "find_map f xs = Some y" and "sorted (map k xs)"
  shows "\<exists>x \<in> set xs. f x = Some y \<and> (\<forall>x' \<in> set xs. f x' \<noteq> None \<longrightarrow> k x \<le> k x')"
  using assms
proof (induction xs)
  case (Cons x xs)
  show ?case
  proof (cases "f x")
    case None
    with Cons obtain z where "z \<in> set xs" "f z = Some y" "\<forall>x' \<in> set xs. f x' \<noteq> None \<longrightarrow> k z \<le> k x'" by auto
    with None show ?thesis by (intro bexI [of _ z]) auto
  next
    case (Some w)
    with Cons.prems show ?thesis by (intro bexI [of _ x]) auto
  qed
qed simp

text \<open>
  The reference, by the history alone: an address an attempt may take was announced since it began, and
  is there with a lifetime; a gateway was announced since and is there.
\<close>

definition own_address :: "links \<Rightarrow> string \<Rightarrow> observation list \<Rightarrow> ip_addr \<Rightarrow> bool" where
  "own_address ls i history a \<longleftrightarrow>
     announced_in i a history \<and>
     (case last_said (address_said i a) history of
        Some (dynamic, present) \<Rightarrow> dynamic \<and> present
      | None \<Rightarrow> address_now ls i a = Some True)"

definition own_gateway :: "links \<Rightarrow> string \<Rightarrow> observation list \<Rightarrow> ip_addr \<Rightarrow> bool" where
  "own_gateway ls i history g \<longleftrightarrow>
     announced_in i g history \<and>
     (case last_said (route_said i g) history of Some present \<Rightarrow> present | None \<Rightarrow> route_now ls i g)"

definition own_pair :: "links \<Rightarrow> string \<Rightarrow> observation list \<Rightarrow> ip_addr \<Rightarrow> ip_addr \<Rightarrow> bool" where
  "own_pair ls i history s g \<longleftrightarrow>
     own_address ls i history s \<and> own_gateway ls i history g \<and> is_ipv4 s = is_ipv4 g"

lemma watched_own:
  assumes ok: "links_sorted ls" and stale: "ck_stale c = links_held ls i" and i: "ck_interface c = i"
    and dynamic: "ck_addressing c = Dynamic" and run: "watched ls c history = (ls', c')"
  shows "a \<in> set (check_held c' ls') \<longleftrightarrow> own_address ls i history a"
    and "route_now ls' i g \<and> \<not> bt_has (ck_stale c') g \<longleftrightarrow> own_gateway ls i history g"
proof -
  note facts = watched_facts [OF ok, of c history, unfolded run fst_conv snd_conv]
  show "a \<in> set (check_held c' ls') \<longleftrightarrow> own_address ls i history a"
    using last_said_present(1) [of i a history]
    by (auto simp: check_held_iff [OF facts(1)] facts dynamic i stale links_held_iff own_address_def
        split: option.splits if_splits)
  show "route_now ls' i g \<and> \<not> bt_has (ck_stale c') g \<longleftrightarrow> own_gateway ls i history g"
    using last_said_present(2) [of i g history]
    by (auto simp: facts i stale links_held_iff own_gateway_def split: option.splits)
qed

text \<open>The gateway a dynamic check asks, of those it may take: IPv4 before IPv6, and one wherever there is one.\<close>

lemma check_gateway_dynamic:
  assumes "ck_addressing c = Dynamic"
    and own: "\<And>g. route_now ls (ck_interface c) g \<and> \<not> bt_has (ck_stale c) g \<longleftrightarrow> G g"
    and held: "\<And>a. a \<in> set (check_held c ls) \<longleftrightarrow> A a"
  shows "case check_gateway c ls of
      Some (s, g) \<Rightarrow> A s \<and> G g \<and> is_ipv4 s = is_ipv4 g \<and>
        (\<forall>s' g'. A s' \<and> G g' \<and> is_ipv4 s' \<and> is_ipv4 g' \<longrightarrow> is_ipv4 g)
    | None \<Rightarrow> \<forall>s g. A s \<and> G g \<longrightarrow> is_ipv4 s \<noteq> is_ipv4 g"
proof -
  let ?f = "asked_from (check_held c ls)" and ?k = "\<lambda>g. \<not> is_ipv4 g"
  let ?gs = "sort_key ?k (filter (\<lambda>g. \<not> bt_has (ck_stale c) g) (links_gateways ls (ck_interface c)))"
  have gs: "set ?gs = {g. G g}" using own by (auto simp: links_gateways_iff)
  have result: "check_gateway c ls = find_map ?f ?gs" using assms(1) by (simp add: check_gateway_def)
  show ?thesis
  proof (cases "find_map ?f ?gs")
    case None
    then have "\<forall>g. G g \<longrightarrow> ?f g = None" using gs by (auto simp: find_map_None)
    with None result show ?thesis by (auto simp: asked_from_None held)
  next
    case (Some y)
    obtain s g where y: "y = (s, g)" by fastforce
    from find_map_least [OF Some sorted_sort_key] gs y obtain x
      where x: "G x" "?f x = Some (s, g)" and least: "\<forall>x'. G x' \<longrightarrow> ?f x' \<noteq> None \<longrightarrow> ?k x \<le> ?k x'"
      by (metis mem_Collect_eq)
    note xg = asked_from_Some [OF x(2)]
    have "is_ipv4 g" if "A s'" "G g'" "is_ipv4 s'" "is_ipv4 g'" for s' g'
      using least [rule_format, OF that(2)] that xg held by (auto simp: asked_from_None)
    with xg x(1) held y Some result show ?thesis by auto
  qed
qed

section \<open>The links of a running device\<close>

definition links_step :: "links \<Rightarrow> observation \<Rightarrow> links" where
  "links_step ls obs = snd (links_observe obs ls)"

interpretation links_kept: rooted_machine links_step links_sorted links_default
  by unfold_locales
    (auto simp: links_step_def links_observe_sorted, simp add: links_sorted_def links_default_def entry_or_default_def)

text \<open>C24. A leased or autoconfigured attempt is verified by what its link announced to it: whatever was observed
  before the attempt and since, the addresses that pass its addressing stage are those with a lifetime
  the link has now that were announced since it began, the gateway it asks is one announced since, from
  such an address of its kind, by IPv4 wherever that can be, and it waits only where there is no such
  pair.  An address or route left over from the candidate before never counts.\<close>

theorem attempt_takes_its_own:
  assumes "ls = foldl links_step links_default before"
    and "addressing_of net_addr parse_ip a = Dynamic"
    and "watched ls (check_new net_addr parse_ip attempt candidate a i at (links_held ls i)) since = (ls', c)"
  shows "set (check_held c ls') = {x. own_address ls i since x} \<and>
    (case check_gateway c ls' of
       Some (s, g) \<Rightarrow> own_pair ls i since s g \<and> (\<forall>s' g'. own_pair ls i since s' g' \<and> is_ipv4 g' \<longrightarrow> is_ipv4 g)
     | None \<Rightarrow> \<forall>s g. \<not> own_pair ls i since s g)"
proof -
  let ?c = "check_new net_addr parse_ip attempt candidate a i at (links_held ls i)"
  have ok: "links_sorted ls" unfolding assms(1) by (rule links_kept.reachable_inv)
  have c: "ck_stale ?c = links_held ls i" "ck_interface ?c = i" "ck_addressing ?c = Dynamic"
    using assms(2) by (simp_all add: check_new_def)
  note own = watched_own [OF ok c assms(3)]
  note facts = watched_facts [OF ok, of ?c since, unfolded assms(3) snd_conv c]
  have "case check_gateway c ls' of
      Some (s, g) \<Rightarrow> own_address ls i since s \<and> own_gateway ls i since g \<and> is_ipv4 s = is_ipv4 g \<and>
        (\<forall>s' g'. own_address ls i since s' \<and> own_gateway ls i since g' \<and> is_ipv4 s' \<and> is_ipv4 g' \<longrightarrow> is_ipv4 g)
    | None \<Rightarrow> \<forall>s g. own_address ls i since s \<and> own_gateway ls i since g \<longrightarrow> is_ipv4 s \<noteq> is_ipv4 g"
    by (rule check_gateway_dynamic) (use facts(2,3) own in auto)
  with own(1) show ?thesis by (auto simp: own_pair_def split: option.splits)
qed

text \<open>A link that keeps the lease of the network before, and is given another by the network joined.\<close>

definition old_lease :: "observation list" where
  "old_lease = [AddressSeen ''wlan0'' (V4 5) True True, RouteSeen ''wlan0'' (V4 1) True]"

definition new_lease :: "observation list" where
  "new_lease = [AddressSeen ''wlan0'' (V4 77) True True, RouteSeen ''wlan0'' (V4 70) True]"

definition wired_candidate :: attachment where
  "wired_candidate = \<lparr>at_label = ''Clinic'', at_enabled = True, at_verify = True, at_nameservers = [],
     at_kind = WiredDynamic ''wlan0''\<rparr>"

definition rejoined :: "links \<times> link_check" where
  "rejoined = (let ls = foldl links_step links_default old_lease in
     watched ls (check_new (\<lambda>_. None) (\<lambda>_. None) 3 0 wired_candidate ''wlan0'' Carrier (links_held ls ''wlan0''))
       new_lease)"

theorem attempt_takes_its_own_witness:
  "V4 5 \<notin> set (check_held (snd rejoined) (fst rejoined)) \<and> V4 77 \<in> set (check_held (snd rejoined) (fst rejoined))
     \<and> check_gateway (snd rejoined) (fst rejoined) \<noteq> None"
proof -
  let ?ls = "foldl links_step links_default old_lease"
  have dynamic: "addressing_of (\<lambda>_. None) (\<lambda>_. None) wired_candidate = Dynamic"
    by (simp add: addressing_of_def wired_candidate_def)
  have run: "watched ?ls (check_new (\<lambda>_. None) (\<lambda>_. None) 3 0 wired_candidate ''wlan0'' Carrier (links_held ?ls ''wlan0''))
      new_lease = (fst rejoined, snd rejoined)"
    by (simp add: rejoined_def Let_def)
  note own = attempt_takes_its_own [OF refl dynamic run]
  note own_defs = own_pair_def own_address_def own_gateway_def announced_in_def announces_def last_said_def new_lease_def
  have "\<not> own_address ?ls ''wlan0'' new_lease (V4 5)" "own_address ?ls ''wlan0'' new_lease (V4 77)"
    "own_pair ?ls ''wlan0'' new_lease (V4 77) (V4 70)"
    by (auto simp: own_defs)
  with own show ?thesis by (auto split: option.splits)
qed

end
