(* ===== verification/Net_Driver.thy ===== *)
theory Net_Driver
  imports Net_Task Link_Check "HOL-Library.Sublist"
begin

text \<open>
  The task driving the running system, \<open>crates/bliti/src/network/stack/driver.rs\<close> and
  \<open>driver/attempt.rs\<close>, \<open>driver/sweep.rs\<close>, \<open>driver/hotspot.rs\<close>, \<open>driver/verdict.rs\<close>: the selector, fed by
  observations, commands and its own timers, each decision applied as it changes, and each attempt
  verified through its stages.  The task takes one message at a time.  What it spawns sends it one message
  when it is done: the tasks in flight are part of the state, and an event is an observation, a command, or
  one of them ending with what it found.  Durations are seconds.  Counts the source keeps in 64 bits and
  only adds one to are natural numbers, but for the timers of a check.
\<close>

definition ASSOCIATE :: nat where "ASSOCIATE = 90"
definition LEASE :: nat where "LEASE = 45"
definition CONFIGURE :: nat where "CONFIGURE = 10"
definition ROUTE :: nat where "ROUTE = 10"
definition DRIVER_RETRY :: nat where "DRIVER_RETRY = 30"
definition DRIVER_RETRY_MAX :: nat where "DRIVER_RETRY_MAX = 15 * 60"

definition driver_backoff :: "nat \<Rightarrow> nat" where
  "driver_backoff tries = min (DRIVER_RETRY * 2 ^ min tries 16) DRIVER_RETRY_MAX"

section \<open>What the driver starts and hears back from\<close>

datatype scanner = PendingScan | SweepScan nat | RefusedScan attempt

datatype driver_task =
    JoinTask attempt string join_target
  | RejoinTask attempt string join_target
  | ProbeTask attempt string ip_addr ip_addr
  | DeadlineTask attempt u64 nat
  | ScanTask string scanner
  | SweepTask string nat nat
  | RetryTask nat nat nat
  | OperatingTask string
  | ReprobeTask
  | ApplyTask nat "attempt list" "string option"

text \<open>
  A radio as it was last probed: its station, whether it scans, and the channels left to it on the bands a
  hotspot runs on.
\<close>

record probed_channel =
  pc_number :: u32
  pc_no_ir :: bool
  pc_radar :: bool

definition can_start_ap :: "probed_channel \<Rightarrow> bool" where
  "can_start_ap c \<longleftrightarrow> \<not> pc_no_ir c \<and> \<not> pc_radar c"

record probed_radio =
  pr_station :: string
  pr_scan :: bool
  pr_bands :: "(band \<times> probed_channel list) list"

text \<open>
  What a task found.  An apply says whether it changed the regulatory domain and iwd's configuration, or
  the backend that failed, where one did, and why; the radios probed again come with whether what the
  device can do changed.
\<close>

datatype backend = Regdom | Hostapd | Iwd | Networkd | Resolved

datatype task_result =
    JoinResult "string + joined_to"
  | ProbeResult "string + unit"
  | ScanResult "string + (string, int) bt"
  | Elapsed
  | OperatingResult "u32 option"
  | ReprobeResult "(probed_radio list \<times> bool) option"
  | ApplyResult "(backend option \<times> string) + (bool \<times> bool)"

text \<open>
  What the driver is given: how an address is read from its text, the channel of a frequency, whether an
  access point of a radio runs only on its client's channel, and what rendering a selection gives: its
  failure, or hostapd's configuration where there is one.
\<close>

record platform =
  pf_net_addr :: "string \<Rightarrow> ip_addr option"
  pf_parse_ip :: "string \<Rightarrow> ip_addr option"
  pf_channel :: "u32 \<Rightarrow> channel option"
  pf_shares_channel :: "string \<Rightarrow> bool"
  pf_render :: "document \<Rightarrow> selection \<Rightarrow> failure + string option"
  pf_quoted :: "string \<Rightarrow> string"

datatype pending_command = PendingApply "nat list" | PendingRestore

text \<open>
  What the driver has said and done that sends it nothing back.  \<open>dv_fed\<close>, how many decisions of the
  selector have been followed, is kept for the statements.
\<close>

datatype driver_output = Answers "failure option" | Disconnects string | Publishes "cand_state list" | WakesSessions

record sweep_state =
  sw_token :: nat
  sw_tries :: nat

record driver =
  dv_selector :: selector
  dv_document :: document
  dv_configured :: bool
  dv_applying :: bool
  dv_generation :: nat
  dv_wanted :: nat
  dv_taken :: nat
  dv_done :: nat
  dv_reprobing :: bool
  dv_reprobe_again :: bool
  dv_probed :: "probed_radio list"
  dv_scanning :: "(string, nat) bt"
  dv_hotspot_scanning :: "string option"
  dv_hostapd :: "string option"
  dv_bounce :: "string option"
  dv_pending :: "(pending_command \<times> nat) option"
  dv_links :: links
  dv_heard :: "(string, (string, int) bt) bt"
  dv_stations :: "(string, station) bt"
  dv_checks :: "(attempt, link_check) bt"
  dv_last :: "(string, attachment option) bt"
  dv_backoff :: "(nat, nat) bt"
  dv_failed :: "(nat, unit) bt"
  dv_placed :: "(nat, string) bt"
  dv_sweeps :: "(string, sweep_state) bt"
  dv_swept :: nat
  dv_joined :: "(string, joined_to) bt"
  dv_tasks :: "driver_task list"
  dv_acts :: "driver_output list"
  dv_fed :: nat

definition same_link :: "attachment \<Rightarrow> attachment \<Rightarrow> bool" where
  "same_link a b \<longleftrightarrow> at_kind a = at_kind b \<and> at_nameservers a = at_nameservers b"

text \<open>A new driver, over the selector of an empty document, which any hardware carries out.\<close>

definition driver_new :: "hardware \<Rightarrow> probed_radio list \<Rightarrow> driver" where
  "driver_new hw probed =
     \<lparr>dv_selector = snd (settle (selector_blank hw empty_document)), dv_document = empty_document,
      dv_configured = False, dv_applying = False, dv_generation = 0, dv_wanted = 0, dv_taken = 0, dv_done = 0,
      dv_reprobing = False, dv_reprobe_again = False, dv_probed = probed, dv_scanning = [],
      dv_hotspot_scanning = None, dv_hostapd = None, dv_bounce = None, dv_pending = None,
      dv_links = links_default, dv_heard = [], dv_stations = [], dv_checks = [], dv_last = [],
      dv_backoff = [], dv_failed = [], dv_placed = [], dv_sweeps = [], dv_swept = 0, dv_joined = [],
      dv_tasks = [], dv_acts = [], dv_fed = 0\<rparr>"

definition driver_spawn :: "driver_task \<Rightarrow> driver \<Rightarrow> driver" where
  "driver_spawn task d = d\<lparr>dv_tasks := dv_tasks d @ [task]\<rparr>"

definition driver_act :: "driver_output \<Rightarrow> driver \<Rightarrow> driver" where
  "driver_act act d = d\<lparr>dv_acts := dv_acts d @ [act]\<rparr>"

definition driver_decision :: "driver \<Rightarrow> decision" where
  "driver_decision d = se_decision (dv_selector d)"

definition driver_state :: "driver \<Rightarrow> nat \<Rightarrow> cand_state option" where
  "driver_state d candidate = nth_opt (de_states (driver_decision d)) candidate"

section \<open>Following the selector\<close>

text \<open>Start verifying an attempt.  Candidates of a decision are candidates of the document.\<close>

definition driver_begin :: "platform \<Rightarrow> string \<Rightarrow> link \<Rightarrow> driver \<Rightarrow> driver" where
  "driver_begin pf interface l d =
     (let at = (case driver_state d (lk_candidate l) of Some (VerifyingAt at) \<Rightarrow> at | _ \<Rightarrow> Addressing);
          a = dc_attachments (dv_document d) ! lk_candidate l;
          d = (case at_kind a of
                 Wireless _ \<Rightarrow> d\<lparr>dv_placed := bt_insert (lk_candidate l) interface (dv_placed d)\<rparr>
               | _ \<Rightarrow> d);
          stale = (case bt_get (dv_last d) interface of
                     Some (Some previous) \<Rightarrow>
                       if same_link previous a then [] else links_held (dv_links d) interface
                   | Some None \<Rightarrow> links_held (dv_links d) interface
                   | None \<Rightarrow> []);
          d = d\<lparr>dv_last := bt_insert interface (Some a) (dv_last d)\<rparr>;
          c = check_new (pf_net_addr pf) (pf_parse_ip pf) (lk_attempt l) (lk_candidate l) a interface at stale
      in d\<lparr>dv_checks := bt_insert (lk_attempt l) c (dv_checks d)\<rparr>)"

definition is_driver_radio :: "driver \<Rightarrow> string \<Rightarrow> bool" where
  "is_driver_radio d interface \<longleftrightarrow> list_ex (\<lambda>r. rd_station r = interface) (hw_radios (se_hardware (dv_selector d)))"

text \<open>What was on an interface is let go of, but for the attempt it carries now.\<close>

definition let_go :: "string \<Rightarrow> link option \<Rightarrow> driver \<Rightarrow> driver" where
  "let_go interface l d =
     d\<lparr>dv_wanted := dv_wanted d + 1,
       dv_checks := bt_retain (\<lambda>attempt c. ck_interface c \<noteq> interface \<or>
         (case l of Some l \<Rightarrow> lk_attempt l = attempt | None \<Rightarrow> False)) (dv_checks d)\<rparr>"

fun follow_change :: "platform \<Rightarrow> change \<Rightarrow> driver \<Rightarrow> driver" where
  "follow_change pf (LinkChange interface l) d =
     (let d = let_go interface l d
      in case l of
           Some l \<Rightarrow> if \<not> bt_has (dv_checks d) (lk_attempt l) then driver_begin pf interface l d else d
         | None \<Rightarrow> if is_driver_radio d interface then driver_act (Disconnects interface) d else d)"
| "follow_change pf (HotspotChange _) d = d\<lparr>dv_wanted := dv_wanted d + 1\<rparr>"
| "follow_change pf (DefaultRouteChange _) d = d"
| "follow_change pf (StateChange candidate state) d =
     (case state of
        DefaultRoute \<Rightarrow> d\<lparr>dv_backoff := bt_remove candidate (dv_backoff d)\<rparr>
      | Up \<Rightarrow> d\<lparr>dv_backoff := bt_remove candidate (dv_backoff d)\<rparr>
      | Unavailable reached _ _ \<Rightarrow>
          if reached \<noteq> Carrier then d\<lparr>dv_failed := bt_insert candidate () (dv_failed d)\<rparr> else d
      | _ \<Rightarrow> d)"

definition driver_publish :: "driver \<Rightarrow> driver" where
  "driver_publish d = driver_act (Publishes (de_states (driver_decision d))) d"

definition is_state_change :: "change \<Rightarrow> bool" where
  "is_state_change c \<longleftrightarrow> (case c of StateChange _ _ \<Rightarrow> True | _ \<Rightarrow> False)"

definition driver_follow :: "platform \<Rightarrow> change list \<Rightarrow> driver \<Rightarrow> driver" where
  "driver_follow pf changes d =
     (let d = fold (follow_change pf) changes (d\<lparr>dv_fed := dv_fed d + 1\<rparr>)
      in if list_ex is_state_change changes then driver_publish d else d)"

definition driver_feed :: "platform \<Rightarrow> sel_event \<Rightarrow> driver \<Rightarrow> driver" where
  "driver_feed pf e d =
     (let (changes, s) = sel_handle e (dv_selector d) in driver_follow pf changes (d\<lparr>dv_selector := s\<rparr>))"

section \<open>Verifying an attempt\<close>

definition get_check :: "driver \<Rightarrow> attempt \<Rightarrow> link_check option" where
  "get_check d attempt = bt_get (dv_checks d) attempt"

definition put_check :: "attempt \<Rightarrow> link_check \<Rightarrow> driver \<Rightarrow> driver" where
  "put_check attempt c d = d\<lparr>dv_checks := bt_insert attempt c (dv_checks d)\<rparr>"

definition driver_scan :: "string \<Rightarrow> scanner \<Rightarrow> driver \<Rightarrow> driver" where
  "driver_scan radio by d = driver_spawn (ScanTask radio by) d"

definition station_channel :: "platform \<Rightarrow> string \<Rightarrow> u32 option \<Rightarrow> driver \<Rightarrow> driver" where
  "station_channel pf interface frequency d =
     (case frequency of
        Some f \<Rightarrow> driver_feed pf (StationChannelEvent interface (pf_channel pf f)) d
      | None \<Rightarrow> driver_spawn (OperatingTask interface) d)"

text \<open>Have the attempt's current stage fail unless it passes in time.\<close>

definition driver_deadline :: "attempt \<Rightarrow> nat \<Rightarrow> driver \<Rightarrow> driver" where
  "driver_deadline attempt after d =
     (case get_check d attempt of
        None \<Rightarrow> d
      | Some c \<Rightarrow>
          (let c = c\<lparr>ck_timer := ck_timer c + 1\<rparr>
           in driver_spawn (DeadlineTask attempt (ck_timer c) after) (put_check attempt c d)))"

definition address_deadline :: "attempt \<Rightarrow> driver \<Rightarrow> driver" where
  "address_deadline attempt d =
     (case get_check d attempt of
        None \<Rightarrow> d
      | Some c \<Rightarrow> driver_deadline attempt (case ck_addressing c of Dynamic \<Rightarrow> LEASE | Static _ _ \<Rightarrow> CONFIGURE) d)"

text \<open>
  \<open>evaluate\<close> calls itself once it has passed the addressing stage, when the attempt is at its gateway stage
  or gone: \<open>evaluate_once\<close> is its body, with whether it calls itself.
\<close>

definition evaluate_once :: "platform \<Rightarrow> attempt \<Rightarrow> driver \<Rightarrow> bool \<times> driver" where
  "evaluate_once pf attempt d =
     (case get_check d attempt of
        None \<Rightarrow> (False, d)
      | Some c \<Rightarrow>
          (if \<not> ck_armed c then (False, d)
           else case ck_at c of
             Some Addressing \<Rightarrow>
               (if check_held c (dv_links d) = [] then (False, d)
                else let d = put_check attempt (c\<lparr>ck_at := Some Gateway, ck_timer := ck_timer c + 1\<rparr>) d;
                         d = driver_feed pf (PassedEvent attempt Addressing) d
                     in (True, driver_deadline attempt ROUTE d))
           | Some Gateway \<Rightarrow>
               (if ck_probing c then (False, d)
                else case check_gateway c (dv_links d) of
                  None \<Rightarrow> (False, d)
                | Some (source, gateway) \<Rightarrow>
                    (False, driver_spawn (ProbeTask attempt (ck_interface c) source gateway)
                      (put_check attempt (c\<lparr>ck_probing := True, ck_timer := ck_timer c + 1\<rparr>) d)))
           | None \<Rightarrow>
               (if check_held c (dv_links d) = []
                then (False, driver_feed pf (FailedEvent attempt Addressing []
                  (ck_interface c @ '' lost its address'')) d)
                else (False, d))
           | Some Carrier \<Rightarrow> (False, d)
           | Some Association \<Rightarrow> (False, d)))"

definition driver_evaluate :: "platform \<Rightarrow> attempt \<Rightarrow> driver \<Rightarrow> driver" where
  "driver_evaluate pf attempt d =
     (let (again, d) = evaluate_once pf attempt d in if again then snd (evaluate_once pf attempt d) else d)"

definition driver_probed :: "platform \<Rightarrow> attempt \<Rightarrow> string + unit \<Rightarrow> driver \<Rightarrow> driver" where
  "driver_probed pf attempt result d =
     (case get_check d attempt of
        None \<Rightarrow> d
      | Some c \<Rightarrow>
          (let c = c\<lparr>ck_probing := False\<rparr>; d = put_check attempt c d
           in if ck_at c \<noteq> Some Gateway then d
              else case result of
                Inr _ \<Rightarrow> driver_feed pf (PassedEvent attempt Gateway) (put_check attempt (c\<lparr>ck_at := None\<rparr>) d)
              | Inl reason \<Rightarrow> driver_feed pf (FailedEvent attempt Gateway [] reason) d))"

definition deadline_passed :: "platform \<Rightarrow> attempt \<Rightarrow> u64 \<Rightarrow> driver \<Rightarrow> driver" where
  "deadline_passed pf attempt timer d =
     (case get_check d attempt of
        None \<Rightarrow> d
      | Some c \<Rightarrow>
          (if ck_timer c \<noteq> timer \<or> ck_probing c then d
           else case ck_at c of
             Some Addressing \<Rightarrow>
               driver_feed pf (FailedEvent attempt Addressing []
                 (case ck_addressing c of
                    Dynamic \<Rightarrow> ck_interface c @ '' was leased no address within 45 seconds''
                  | Static _ _ \<Rightarrow> ck_interface c @ '' did not take its address within 10 seconds'')) d
           | Some Gateway \<Rightarrow>
               driver_feed pf (FailedEvent attempt Gateway []
                 (''the network on '' @ ck_interface c @ '' offered no gateway'')) d
           | _ \<Rightarrow> d))"

section \<open>Joining\<close>

text \<open>Whether a join was by SAE, and whether its failure is the bare one of a network refusing the handshake.\<close>

definition by_sae :: "joined_to \<Rightarrow> bool" where
  "by_sae j = (case jo_security j of Some s \<Rightarrow> take 13 s = ''WPA3-Personal'' | None \<Rightarrow> False)"

definition join_refused :: "string \<Rightarrow> bool" where
  "join_refused reason \<longleftrightarrow> sublist ''net.connman.iwd.Failed'' reason"

definition PASSPHRASE :: "segment list" where
  "PASSPHRASE = [Name ''security'', Name ''passphrase'']"

text \<open>Take in the scan after a refused join.\<close>

definition driver_rescanned :: "platform \<Rightarrow> attempt \<Rightarrow> driver \<Rightarrow> driver" where
  "driver_rescanned pf attempt d =
     (case get_check d attempt of
        None \<Rightarrow> d
      | Some c \<Rightarrow>
          (if ck_at c \<noteq> Some Association then d
           else case ck_joining c of
             None \<Rightarrow> d
           | Some j \<Rightarrow>
               (let ssid = pf_quoted pf (jt_ssid (jn_target j));
                    (member, reason) = (case jt_kind (jn_target j) of
                        NetworkPsk \<Rightarrow>
                          (PASSPHRASE, ssid @ '' refused the connection; the passphrase is most likely wrong'')
                      | NetworkEnterprise \<Rightarrow>
                          ([], ssid @ '' refused the connection, or its server did not prove itself by the '' @
                             ''certificate authority and domain given; check those and the credentials''))
                in driver_feed pf (FailedEvent attempt Association member reason) d)))"

definition driver_associated :: "platform \<Rightarrow> attempt \<Rightarrow> string + joined_to \<Rightarrow> driver \<Rightarrow> driver" where
  "driver_associated pf attempt result d =
     (case get_check d attempt of
        None \<Rightarrow> d
      | Some c \<Rightarrow>
          (if ck_at c \<noteq> Some Association then d
           else case ck_joining c of
             None \<Rightarrow> d
           | Some j \<Rightarrow>
               (case result of
                  Inr net \<Rightarrow>
                    (if jn_sae j \<and> \<not> by_sae net
                     then driver_feed pf (FailedEvent attempt Association []
                            (pf_quoted pf (jt_ssid (jn_target j)) @ '' was joined by '' @
                              (case jo_security net of Some s \<Rightarrow> s | None \<Rightarrow> ''a method iwd did not name'') @
                              '', not by SAE''))
                            (driver_act (Disconnects (ck_interface c)) d)
                     else
                       (let d = put_check attempt (c\<lparr>ck_at := Some Addressing\<rparr>) d;
                            d = d\<lparr>dv_joined := bt_insert (ck_interface c) net (dv_joined d)\<rparr>;
                            d = driver_feed pf (PassedEvent attempt Association) d;
                            d = station_channel pf (ck_interface c) (jo_frequency net) d;
                            d = address_deadline attempt d
                        in driver_evaluate pf attempt d))
                | Inl reason \<Rightarrow>
                    (if join_refused reason
                     then (if list_ex (\<lambda>radio. pr_station radio = ck_interface c \<and> pr_scan radio) (dv_probed d)
                           then driver_scan (ck_interface c) (RefusedScan attempt) d
                           else driver_rescanned pf attempt d)
                     else driver_feed pf (FailedEvent attempt Association [] reason) d))))"

definition driver_associate :: "platform \<Rightarrow> attempt \<Rightarrow> driver \<Rightarrow> driver" where
  "driver_associate pf attempt d =
     (case get_check d attempt of
        None \<Rightarrow> d
      | Some c \<Rightarrow>
          (case ck_joining c of
             None \<Rightarrow> d
           | Some j \<Rightarrow>
               (case bt_get (dv_stations d) (ck_interface c) of
                  Some (StationConnected net) \<Rightarrow>
                    (if jo_ssid net = jt_ssid (jn_target j)
                     then driver_associated pf attempt (Inr net) d
                     else driver_spawn (JoinTask attempt (ck_interface c) (jn_target j)) d)
                | _ \<Rightarrow> driver_spawn (JoinTask attempt (ck_interface c) (jn_target j)) d)))"

definition driver_rejoin :: "attempt \<Rightarrow> driver \<Rightarrow> driver" where
  "driver_rejoin attempt d =
     (case get_check d attempt of
        None \<Rightarrow> d
      | Some c \<Rightarrow>
          (case ck_joining c of
             None \<Rightarrow> d
           | Some j \<Rightarrow> driver_spawn (RejoinTask attempt (ck_interface c) (jn_target j)) d))"

definition driver_rejoined :: "platform \<Rightarrow> attempt \<Rightarrow> string + joined_to \<Rightarrow> driver \<Rightarrow> driver" where
  "driver_rejoined pf attempt result d =
     (case get_check d attempt of
        None \<Rightarrow> d
      | Some c \<Rightarrow>
          (case result of
             Inr net \<Rightarrow> station_channel pf (ck_interface c) (jo_frequency net) d
           | Inl reason \<Rightarrow>
               driver_feed pf (FailedEvent attempt Association []
                 (ck_interface c @ '' could not join again after the hotspot started beside it: '' @ reason)) d))"

text \<open>What asks anything of an attempt: the apply that brings it up is in place.\<close>

definition driver_arm :: "platform \<Rightarrow> attempt \<Rightarrow> driver \<Rightarrow> driver" where
  "driver_arm pf attempt d =
     (case get_check d attempt of
        None \<Rightarrow> d
      | Some c \<Rightarrow>
          (if ck_armed c then d
           else
             (let c = c\<lparr>ck_armed := True\<rparr>; d = put_check attempt c d
              in case ck_at c of
                   Some Association \<Rightarrow>
                     (if bt_has (dv_scanning d) (ck_interface c)
                      then put_check attempt (c\<lparr>ck_awaiting_scan := True\<rparr>) d
                      else driver_associate pf attempt d)
                 | Some Addressing \<Rightarrow> driver_evaluate pf attempt (address_deadline attempt d)
                 | _ \<Rightarrow> driver_evaluate pf attempt d)))"

section \<open>Observations\<close>

definition check_attempts :: "(link_check \<Rightarrow> bool) \<Rightarrow> driver \<Rightarrow> attempt list" where
  "check_attempts P d = map fst (filter (\<lambda>(_, c). P c) (dv_checks d))"

definition take_link_observation :: "platform \<Rightarrow> observation \<Rightarrow> driver \<Rightarrow> driver" where
  "take_link_observation pf obs d =
     (case links_observe obs (dv_links d) of
        (None, ls) \<Rightarrow> d
      | (Some interface, ls) \<Rightarrow>
          (let attempts = check_attempts (\<lambda>c. ck_interface c = interface) d;
               d = d\<lparr>dv_links := ls,
                     dv_checks := map (\<lambda>(n, c). (n, if ck_interface c = interface then check_announced obs c else c))
                       (dv_checks d)\<rparr>
           in fold (driver_evaluate pf) attempts d))"

definition driver_heard :: "platform \<Rightarrow> string \<Rightarrow> (string, int) bt \<Rightarrow> bool \<Rightarrow> driver \<Rightarrow> driver" where
  "driver_heard pf interface networks scanned d =
     (let before = entry_or_default (dv_heard d) interface;
          now_heard = (if scanned then networks else fold (\<lambda>(ssid, signal). bt_insert ssid signal) networks before);
          d = d\<lparr>dv_heard := bt_insert interface now_heard (dv_heard d)\<rparr>;
          d = (if scanned
               then fold (\<lambda>ssid. driver_feed pf (OutOfRangeEvent interface ssid))
                 (filter (\<lambda>ssid. \<not> bt_has networks ssid) (bt_keys before)) d
               else d)
      in fold (\<lambda>(ssid, signal). driver_feed pf (InRangeEvent interface ssid signal))
           (filter (\<lambda>(ssid, signal). bt_get before ssid \<noteq> Some signal) networks) d)"

text \<open>The attempt on a radio that has associated.\<close>

definition associated_check :: "string \<Rightarrow> link_check \<Rightarrow> bool" where
  "associated_check interface c \<longleftrightarrow>
     ck_interface c = interface \<and> ck_armed c \<and> ck_joining c \<noteq> None \<and>
     (case ck_at c of None \<Rightarrow> True | Some at \<Rightarrow> at > Association)"

definition driver_station :: "platform \<Rightarrow> string \<Rightarrow> station \<Rightarrow> driver \<Rightarrow> driver" where
  "driver_station pf interface st d =
     (let d = d\<lparr>dv_stations := bt_insert interface st (dv_stations d)\<rparr>;
          d = (case st of
                 StationConnected net \<Rightarrow> d\<lparr>dv_joined := bt_insert interface net (dv_joined d)\<rparr>
               | Disconnected \<Rightarrow> d\<lparr>dv_joined := bt_remove interface (dv_joined d)\<rparr>
               | Busy \<Rightarrow> d)
      in case List.find (\<lambda>(_, c). associated_check interface c) (dv_checks d) of
           None \<Rightarrow> d
         | Some (_, c) \<Rightarrow>
             (let ssid = (case ck_joining c of Some j \<Rightarrow> jt_ssid (jn_target j) | None \<Rightarrow> '''')
              in case st of
                   StationConnected net \<Rightarrow>
                     if jo_ssid net = ssid then station_channel pf interface (jo_frequency net) d else d
                 | Busy \<Rightarrow> d
                 | Disconnected \<Rightarrow>
                     if dv_bounce d = Some interface
                     then driver_rejoin (ck_attempt c) (d\<lparr>dv_bounce := None\<rparr>)
                     else driver_feed pf (FailedEvent (ck_attempt c) Association []
                       (interface @ '' was disassociated from '' @ pf_quoted pf ssid)) d))"

definition driver_reprobe :: "driver \<Rightarrow> driver" where
  "driver_reprobe d = driver_spawn ReprobeTask (d\<lparr>dv_reprobing := True\<rparr>)"

fun driver_takes :: "platform \<Rightarrow> observation \<Rightarrow> driver \<Rightarrow> driver" where
  "driver_takes pf (CarrierSeen interface up) d = driver_feed pf (CarrierEvent interface up) d"
| "driver_takes pf (AddressSeen i a dynamic present) d = take_link_observation pf (AddressSeen i a dynamic present) d"
| "driver_takes pf (RouteSeen i g present) d = take_link_observation pf (RouteSeen i g present) d"
| "driver_takes pf (HeardSeen interface networks scanned) d = driver_heard pf interface networks scanned d"
| "driver_takes pf (StationSeen interface st) d = driver_station pf interface st d"
| "driver_takes pf RegulatorySeen d =
     (if dv_reprobing d then d\<lparr>dv_reprobe_again := True\<rparr> else driver_reprobe d)"

section \<open>Applying\<close>

definition hotspot_awaits_scan :: "platform \<Rightarrow> driver \<Rightarrow> string option" where
  "hotspot_awaits_scan pf d =
     (case de_hotspot (driver_decision d) of
        None \<Rightarrow> None
      | Some p \<Rightarrow>
          (let radio = pl_radio p in
           if \<not> bt_has (dv_scanning d) radio \<or> \<not> pf_shares_channel pf radio then None
           else if list_ex (\<lambda>a. case at_kind a of
                   Wireless w \<Rightarrow> at_enabled a \<and> none_or (wl_interface w) radio
                 | _ \<Rightarrow> False) (dc_attachments (dv_document d))
           then Some radio else None))"

text \<open>
  Why a hotspot sharing a radio's channel cannot run, where its wireless connection is on a channel no
  access point may start on.
\<close>

definition barred :: "(string \<Rightarrow> string) \<Rightarrow> probed_radio \<Rightarrow> string option \<Rightarrow> channel \<Rightarrow> string option" where
  "barred quoted radio ssid channel =
     (let name = (case ch_band channel of TwoPointFour \<Rightarrow> ''2.4 GHz'' | Five \<Rightarrow> ''5 GHz'');
          flags = Option.bind (map_of (pr_bands radio) (ch_band channel)) (List.find (\<lambda>c. pc_number c = ch_number channel));
          forbidden = ''is one the regulatory domain lets no hotspot start on'';
          because = (\<lambda>why.
            let connection = (case ssid of
                  Some ssid \<Rightarrow> pr_station radio @ '' is connected to '' @ quoted ssid
                | None \<Rightarrow> pr_station radio @ [CHR 0x27] @ ''s wireless connection is up'')
            in ''the hotspot cannot run while '' @ connection
              @ '': this radio runs a hotspot only on its connection's channel, and '' @ name @ '' channel ''
              @ decimal (unat (ch_number channel)) @ '' '' @ why
              @ ''. Turn the connection off to run the hotspot'')
      in case flags of
           None \<Rightarrow> Some (because forbidden)
         | Some c \<Rightarrow>
             if can_start_ap c then None
             else Some (because (if pc_radar c then ''needs radar detection this radio cannot do'' else forbidden)))"

definition hotspot_barred :: "platform \<Rightarrow> driver \<Rightarrow> selection \<Rightarrow> string option" where
  "hotspot_barred pf d s =
     (case sl_hotspot s of
        None \<Rightarrow> None
      | Some station \<Rightarrow>
          if \<not> pf_shares_channel pf station then None
          else (case (bt_get (sl_channels s) station, List.find (\<lambda>radio. pr_station radio = station) (dv_probed d)) of
                  (Some channel, Some radio) \<Rightarrow>
                    barred (pf_quoted pf) radio (map_option jo_ssid (bt_get (dv_joined d) station)) channel
                | _ \<Rightarrow> None))"

text \<open>Fail the command waiting, where one is.\<close>

definition driver_failed :: "failure \<Rightarrow> driver \<Rightarrow> driver" where
  "driver_failed failure d =
     (case dv_pending d of
        None \<Rightarrow> d
      | Some _ \<Rightarrow> driver_act (Answers (Some failure)) (d\<lparr>dv_pending := None\<rparr>))"

definition driver_attempts :: "driver \<Rightarrow> attempt list" where
  "driver_attempts d = map lk_attempt (bt_values (de_links (driver_decision d)))"

definition driver_kick :: "platform \<Rightarrow> driver \<Rightarrow> driver" where
  "driver_kick pf d =
     (if \<not> dv_configured d \<or> dv_wanted d \<le> dv_taken d \<or> dv_applying d then d
      else
        (let d = d\<lparr>dv_taken := dv_wanted d\<rparr>;
             s = selection_of (dv_selector d);
             d = d\<lparr>dv_hotspot_scanning := hotspot_awaits_scan pf d\<rparr>;
             s = (if dv_hotspot_scanning d \<noteq> None then s\<lparr>sl_hotspot := None\<rparr> else s);
             bar = hotspot_barred pf d s;
             s = (if bar \<noteq> None then s\<lparr>sl_hotspot := None\<rparr> else s)
         in case pf_render pf (dv_document d) s of
              Inl failure \<Rightarrow> driver_failed failure (d\<lparr>dv_done := dv_taken d\<rparr>)
            | Inr conf \<Rightarrow>
                (let d = (case bar of
                       Some reason \<Rightarrow>
                         driver_failed \<lparr>fl_at = path [Name ''hotspot''], fl_reason = reason, fl_reached = None\<rparr> d
                     | None \<Rightarrow> d);
                     beside = (case sl_hotspot s of
                         Some radio \<Rightarrow> if bt_has (sl_channels s) radio \<and> pf_shares_channel pf radio then Some radio else None
                       | None \<Rightarrow> None);
                     d = d\<lparr>dv_bounce := (if conf \<noteq> None \<and> conf \<noteq> dv_hostapd d then beside else None),
                           dv_hostapd := conf, dv_applying := True\<rparr>
                 in driver_spawn (ApplyTask (dv_taken d) (driver_attempts d) conf) d)))"

section \<open>The verdict on a proposal\<close>

text \<open>The candidates of a proposal that the document it replaces does not carry.\<close>

fun changed_from :: "attachment list \<Rightarrow> nat list \<Rightarrow> attachment list \<Rightarrow> nat \<Rightarrow> nat list" where
  "changed_from olds taken [] candidate = []"
| "changed_from olds taken (new # news) candidate =
     (case List.find (\<lambda>i. i \<notin> set taken \<and> olds ! i = new) [0..<length olds] of
        Some i \<Rightarrow> changed_from olds (i # taken) news (candidate + 1)
      | None \<Rightarrow> candidate # changed_from olds taken news (candidate + 1))"

definition changed_candidates :: "document \<Rightarrow> document \<Rightarrow> nat list" where
  "changed_candidates replaced proposal = changed_from (dc_attachments replaced) [] (dc_attachments proposal) 0"

record judged =
  jd_candidate :: nat
  jd_interfaces :: "string list"

definition driver_judged :: "driver \<Rightarrow> nat list \<Rightarrow> judged list" where
  "driver_judged d candidates =
     List.map_filter (\<lambda>candidate.
       case nth_opt (dc_attachments (dv_document d)) candidate of
         None \<Rightarrow> None
       | Some a \<Rightarrow>
           if \<not> at_enabled a \<or> \<not> at_verify a then None
           else Some \<lparr>jd_candidate = candidate, jd_interfaces =
             (case at_kind a of
                WiredDynamic interface \<Rightarrow> [interface]
              | WiredStatic interface _ _ \<Rightarrow> [interface]
              | Wireless w \<Rightarrow>
                  (case wl_interface w of
                     Some interface \<Rightarrow> [interface]
                   | None \<Rightarrow>
                       (case List.find (\<lambda>(_, l). lk_candidate l = candidate) (de_links (driver_decision d)) of
                          Some (interface, _) \<Rightarrow> [interface]
                        | None \<Rightarrow>
                            (case bt_get (dv_placed d) candidate of
                               Some radio \<Rightarrow> [radio]
                             | None \<Rightarrow> map rd_station (hw_radios (se_hardware (dv_selector d)))))))\<rparr>)
       candidates"

definition established_on :: "decision \<Rightarrow> string \<Rightarrow> bool" where
  "established_on de interface \<longleftrightarrow>
     (case bt_get (de_links de) interface of
        None \<Rightarrow> False
      | Some l \<Rightarrow> nth_opt (de_states de) (lk_candidate l) \<in> {Some Up, Some DefaultRoute})"

definition unavailable_at :: "cand_state option \<Rightarrow> (stage \<times> segment list \<times> state_reason) option" where
  "unavailable_at st = (case st of Some (Unavailable reached member reason) \<Rightarrow> Some (reached, member, reason) | _ \<Rightarrow> None)"

text \<open>\<open>max_by_key\<close> of the stage reached and then the candidate, lowest first: the last of the greatest.\<close>

definition judged_key :: "decision \<Rightarrow> judged \<Rightarrow> stage option" where
  "judged_key de j = map_option fst (unavailable_at (nth_opt (de_states de) (jd_candidate j)))"

fun stage_option_less :: "stage option \<Rightarrow> stage option \<Rightarrow> bool" where
  "stage_option_less _ None = False"
| "stage_option_less None (Some _) = True"
| "stage_option_less (Some a) (Some b) = (a < b)"

definition judged_less :: "decision \<Rightarrow> judged \<Rightarrow> judged \<Rightarrow> bool" where
  "judged_less de a b \<longleftrightarrow>
     stage_option_less (judged_key de a) (judged_key de b) \<or>
     judged_key de a = judged_key de b \<and> jd_candidate b < jd_candidate a"

definition furthest_judged :: "decision \<Rightarrow> judged list \<Rightarrow> judged option" where
  "furthest_judged de js =
     fold (\<lambda>j best. case best of None \<Rightarrow> Some j | Some b \<Rightarrow> if judged_less de j b then Some b else Some j) js None"

definition driver_verdict :: "(string \<Rightarrow> string) \<Rightarrow> decision \<Rightarrow> judged list \<Rightarrow> failure option" where
  "driver_verdict quoted de judged =
     (case furthest_judged de (filter (\<lambda>j. \<not> list_ex (established_on de) (jd_interfaces j)) judged) of
        None \<Rightarrow> None
      | Some j \<Rightarrow>
          (let at = (\<lambda>member. path ([Name ''attachments'', Index (jd_candidate j)] @ member)) in
           case unavailable_at (nth_opt (de_states de) (jd_candidate j)) of
             Some (reached, member, reason) \<Rightarrow> Some (stage_failed reached (at member) (state_reason_text quoted reason))
           | None \<Rightarrow> Some \<lparr>fl_at = at [], fl_reason = ''no interface it could go on was free to bring it up'',
               fl_reached = None\<rparr>))"

section \<open>Sweeping for what is out of range\<close>

definition sweeping :: "driver \<Rightarrow> (string, unit) bt" where
  "sweeping d =
     (if \<not> dv_configured d then []
      else
        (let de = driver_decision d; as = dc_attachments (dv_document d);
             above = (case de_default_route de of Some r \<Rightarrow> r | None \<Rightarrow> length as);
             looked_for = (\<lambda>(rank, a).
               case at_kind a of
                 Wireless w \<Rightarrow>
                   (let could = filter (\<lambda>radio. none_or (wl_interface w) (pr_station radio)) (dv_probed d) in
                    if \<not> at_enabled a \<or> wl_hidden w = Some True
                       \<or> list_ex (\<lambda>radio. bt_has (entry_or_default (dv_heard d) (pr_station radio)) (wl_ssid w)) could
                    then []
                    else map pr_station (filter (\<lambda>radio. pr_scan radio \<and>
                        (case bt_get (de_links de) (pr_station radio) of None \<Rightarrow> True | Some l \<Rightarrow> lk_candidate l > rank)) could))
               | _ \<Rightarrow> [])
         in bt_collect (map (\<lambda>radio. (radio, ())) (concat (map looked_for (enumerate 0 (take above as)))))))"

definition sweep_later :: "string \<Rightarrow> driver \<Rightarrow> driver" where
  "sweep_later radio d =
     (case bt_get (dv_sweeps d) radio of
        None \<Rightarrow> d
      | Some sw \<Rightarrow>
          driver_spawn (SweepTask radio (sw_token sw) (driver_backoff (sw_tries sw)))
            (d\<lparr>dv_sweeps := bt_insert radio (sw\<lparr>sw_tries := sw_tries sw + 1\<rparr>) (dv_sweeps d)\<rparr>))"

definition driver_sweep :: "driver \<Rightarrow> driver" where
  "driver_sweep d =
     (let wanted = sweeping d;
          d = d\<lparr>dv_sweeps := bt_retain (\<lambda>radio _. bt_has wanted radio) (dv_sweeps d)\<rparr>
      in fold (\<lambda>radio d.
           if bt_has (dv_sweeps d) radio then d
           else sweep_later radio (d\<lparr>dv_swept := dv_swept d + 1,
                  dv_sweeps := bt_insert radio \<lparr>sw_token = dv_swept d + 1, sw_tries = 0\<rparr> (dv_sweeps d)\<rparr>))
           (bt_keys wanted) d)"

definition sweep_is :: "string \<Rightarrow> nat \<Rightarrow> driver \<Rightarrow> bool" where
  "sweep_is radio token d \<longleftrightarrow> (case bt_get (dv_sweeps d) radio of Some sw \<Rightarrow> sw_token sw = token | None \<Rightarrow> False)"

definition sweep_now :: "string \<Rightarrow> nat \<Rightarrow> driver \<Rightarrow> driver" where
  "sweep_now radio token d = (if sweep_is radio token d then driver_scan radio (SweepScan token) d else d)"

definition swept_on :: "string \<Rightarrow> nat \<Rightarrow> driver \<Rightarrow> driver" where
  "swept_on radio token d = (if sweep_is radio token d then sweep_later radio d else d)"

definition scanned_for_pending :: "platform \<Rightarrow> string \<Rightarrow> driver \<Rightarrow> driver" where
  "scanned_for_pending pf radio d =
     (case bt_get (dv_scanning d) radio of
        None \<Rightarrow> d
      | Some left \<Rightarrow>
          (let left = left - 1; d = d\<lparr>dv_scanning := bt_insert radio left (dv_scanning d)\<rparr> in
           if left > 0 then d
           else
             (let d = d\<lparr>dv_scanning := bt_remove radio (dv_scanning d)\<rparr>;
                  d = (if dv_hotspot_scanning d = Some radio
                       then driver_kick pf (d\<lparr>dv_wanted := dv_wanted d + 1\<rparr>) else d);
                  waits = (\<lambda>c. ck_interface c = radio \<and> ck_awaiting_scan c);
                  waiting = check_attempts waits d;
                  d = d\<lparr>dv_checks := map (\<lambda>(n, c). (n, if waits c then c\<lparr>ck_awaiting_scan := False\<rparr> else c)) (dv_checks d)\<rparr>
              in fold (driver_associate pf) waiting d)))"

definition scan_for_pending :: "driver \<Rightarrow> driver" where
  "scan_for_pending d =
     (if \<not> list_ex (\<lambda>a. at_enabled a \<and> is_wireless (at_kind a)) (dc_attachments (dv_document d)) then d
      else fold (\<lambda>radio d.
             if \<not> pr_scan radio then d
             else driver_scan (pr_station radio) PendingScan (d\<lparr>dv_scanning := bt_insert (pr_station radio)
               ((case bt_get (dv_scanning d) (pr_station radio) of Some n \<Rightarrow> n | None \<Rightarrow> 0) + 1) (dv_scanning d)\<rparr>))
           (dv_probed d) d)"

section \<open>Settling\<close>

definition driver_answer :: "platform \<Rightarrow> driver \<Rightarrow> driver" where
  "driver_answer pf d =
     (case dv_pending d of
        None \<Rightarrow> d
      | Some (command, needs) \<Rightarrow>
          (if dv_done d < needs \<or> dv_reprobing d then d
           else case command of
             PendingApply changed \<Rightarrow>
               (if list_ex (\<lambda>st. case st of VerifyingAt _ \<Rightarrow> True | _ \<Rightarrow> False) (de_states (driver_decision d))
                   \<or> dv_applying d \<or> dv_taken d < dv_wanted d \<or> dv_scanning d \<noteq> []
                then d
                else driver_act (Answers (driver_verdict (pf_quoted pf) (driver_decision d) (driver_judged d changed)))
                  (d\<lparr>dv_pending := None\<rparr>))
           | PendingRestore \<Rightarrow> driver_act (Answers None) (d\<lparr>dv_pending := None\<rparr>)))"

definition retry_later :: "nat \<Rightarrow> driver \<Rightarrow> driver" where
  "retry_later candidate d =
     (let tries = (case bt_get (dv_backoff d) candidate of Some n \<Rightarrow> n | None \<Rightarrow> 0)
      in driver_spawn (RetryTask candidate (dv_generation d) (driver_backoff tries))
           (d\<lparr>dv_backoff := bt_insert candidate (tries + 1) (dv_backoff d)\<rparr>))"

definition driver_settle :: "platform \<Rightarrow> driver \<Rightarrow> driver" where
  "driver_settle pf d =
     (let d = driver_answer pf d
      in if dv_pending d = None then fold retry_later (bt_keys (dv_failed d)) (d\<lparr>dv_failed := []\<rparr>) else d)"

section \<open>Commands and what is heard back\<close>

definition driver_configure :: "platform \<Rightarrow> document \<Rightarrow> driver \<Rightarrow> (string \<times> check_reason) + driver" where
  "driver_configure pf document d =
     (case configure document (dv_selector d) of
        Inl e \<Rightarrow> Inl e
      | Inr (changes, s) \<Rightarrow>
          (let kept = (\<lambda>previous. list_ex (\<lambda>a. at_enabled a \<and> same_link a previous) (dc_attachments document));
               d = d\<lparr>dv_selector := s, dv_document := document,
                     dv_last := map (\<lambda>(i, previous).
                       (i, case previous of Some p \<Rightarrow> if kept p then Some p else None | None \<Rightarrow> None)) (dv_last d),
                     dv_configured := True, dv_generation := dv_generation d + 1, dv_backoff := [],
                     dv_failed := [], dv_placed := [], dv_wanted := dv_wanted d + 1\<rparr>;
               links = bt_values (de_links (driver_decision d));
               d = d\<lparr>dv_checks := bt_retain (\<lambda>attempt _. list_ex (\<lambda>l. lk_attempt l = attempt) links) (dv_checks d)\<rparr>;
               d = fold (\<lambda>l d. case get_check d (lk_attempt l) of
                     Some c \<Rightarrow> put_check (lk_attempt l) (c\<lparr>ck_candidate := lk_candidate l\<rparr>) d
                   | None \<Rightarrow> d) links d
           in Inr (driver_publish (driver_follow pf changes d))))"

datatype driver_command = ApplyCommand document document | RestoreCommand document

text \<open>A refusal of a document names where it is at fault; its words are a parameter.\<close>

definition refusal_failure :: "(check_reason \<Rightarrow> string) \<Rightarrow> string \<times> check_reason \<Rightarrow> failure" where
  "refusal_failure words e = \<lparr>fl_at = fst e, fl_reason = words (snd e), fl_reached = None\<rparr>"

fun driver_commanded :: "platform \<Rightarrow> (check_reason \<Rightarrow> string) \<Rightarrow> driver_command \<Rightarrow> driver \<Rightarrow> driver" where
  "driver_commanded pf words (ApplyCommand document replacing) d =
     (case driver_configure pf document d of
        Inl e \<Rightarrow> driver_act (Answers (Some (refusal_failure words e))) d
      | Inr d \<Rightarrow> scan_for_pending
          (d\<lparr>dv_pending := Some (PendingApply (changed_candidates replacing document), dv_wanted d)\<rparr>))"
| "driver_commanded pf words (RestoreCommand document) d =
     (case driver_configure pf document d of
        Inl e \<Rightarrow> driver_act (Answers (Some (refusal_failure words e))) d
      | Inr d \<Rightarrow> d\<lparr>dv_pending := Some (PendingRestore, dv_wanted d)\<rparr>)"

definition worth_retrying :: "nat \<Rightarrow> driver \<Rightarrow> bool" where
  "worth_retrying candidate d =
     (case map_option at_kind (nth_opt (dc_attachments (dv_document d)) candidate) of
        Some (WiredDynamic interface) \<Rightarrow> \<not> established_on (driver_decision d) interface
      | Some (WiredStatic interface _ _) \<Rightarrow> \<not> established_on (driver_decision d) interface
      | Some (Wireless w) \<Rightarrow>
          list_ex (\<lambda>r. none_or (wl_interface w) (rd_station r) \<and> \<not> established_on (driver_decision d) (rd_station r))
            (hw_radios (se_hardware (dv_selector d)))
      | None \<Rightarrow> False)"

text \<open>The part of the document an apply failure is in.\<close>

definition at_fault :: "driver \<Rightarrow> backend option \<Rightarrow> string" where
  "at_fault d b =
     (case b of
        Some Hostapd \<Rightarrow> if dc_hotspot (dv_document d) \<noteq> None then path [Name ''hotspot''] else path []
      | Some Regdom \<Rightarrow>
          if dc_regulatory_domain (dv_document d) \<noteq> None then path [Name ''regulatory-domain''] else path []
      | _ \<Rightarrow> path [])"

definition apply_ended ::
    "platform \<Rightarrow> nat \<Rightarrow> attempt list \<Rightarrow> (backend option \<times> string) + (bool \<times> bool) \<Rightarrow> driver \<Rightarrow> driver" where
  "apply_ended pf taken attempts result d =
     (let d = d\<lparr>dv_applying := False, dv_done := taken\<rparr>;
          d = (case result of
                 Inr (regdom, iwd) \<Rightarrow>
                   (let d = (if regdom then driver_reprobe d else d)
                    in if iwd \<and> (case dv_pending d of Some (PendingApply _, _) \<Rightarrow> True | _ \<Rightarrow> False)
                       then scan_for_pending d else d)
               | Inl (b, reason) \<Rightarrow>
                   driver_failed \<lparr>fl_at = at_fault d b, fl_reason = reason, fl_reached = None\<rparr> d)
      in fold (driver_arm pf) attempts d)"

definition reprobe_ended :: "(probed_radio list \<times> bool) option \<Rightarrow> driver \<Rightarrow> driver" where
  "reprobe_ended probed d =
     (let d = (case probed of
                 Some (radios, changed) \<Rightarrow>
                   (let d = d\<lparr>dv_probed := radios\<rparr> in if changed then driver_act WakesSessions d else d)
               | None \<Rightarrow> d)
      in if dv_reprobe_again d then driver_reprobe (d\<lparr>dv_reprobe_again := False\<rparr>)
         else d\<lparr>dv_reprobing := False\<rparr>)"

definition scan_ended :: "platform \<Rightarrow> string \<Rightarrow> scanner \<Rightarrow> string + (string, int) bt \<Rightarrow> driver \<Rightarrow> driver" where
  "scan_ended pf interface by result d =
     (let d = (case result of Inr networks \<Rightarrow> driver_heard pf interface networks True d | Inl _ \<Rightarrow> d)
      in case by of
           PendingScan \<Rightarrow> scanned_for_pending pf interface d
         | SweepScan token \<Rightarrow> swept_on interface token d
         | RefusedScan attempt \<Rightarrow> driver_rescanned pf attempt d)"

definition retry_due :: "platform \<Rightarrow> nat \<Rightarrow> nat \<Rightarrow> driver \<Rightarrow> driver" where
  "retry_due pf candidate generation d =
     (if generation = dv_generation d \<and> worth_retrying candidate d
      then driver_feed pf (RetryEvent candidate) d else d)"

text \<open>\<open>internal\<close>: what is done with the message of a task, where the result is one of its own.\<close>

definition driver_hears :: "platform \<Rightarrow> driver_task \<Rightarrow> task_result \<Rightarrow> driver \<Rightarrow> driver option" where
  "driver_hears pf task result d =
     (case task of
        ApplyTask taken attempts _ \<Rightarrow>
          (case result of ApplyResult r \<Rightarrow> Some (apply_ended pf taken attempts r d) | _ \<Rightarrow> None)
      | ReprobeTask \<Rightarrow> (case result of ReprobeResult r \<Rightarrow> Some (reprobe_ended r d) | _ \<Rightarrow> None)
      | ScanTask interface by \<Rightarrow>
          (case result of ScanResult r \<Rightarrow> Some (scan_ended pf interface by r d) | _ \<Rightarrow> None)
      | SweepTask radio token _ \<Rightarrow> (case result of Elapsed \<Rightarrow> Some (sweep_now radio token d) | _ \<Rightarrow> None)
      | JoinTask attempt _ _ \<Rightarrow>
          (case result of JoinResult r \<Rightarrow> Some (driver_associated pf attempt r d) | _ \<Rightarrow> None)
      | RejoinTask attempt _ _ \<Rightarrow>
          (case result of JoinResult r \<Rightarrow> Some (driver_rejoined pf attempt r d) | _ \<Rightarrow> None)
      | OperatingTask interface \<Rightarrow>
          (case result of
             OperatingResult (Some f) \<Rightarrow> Some (driver_feed pf (StationChannelEvent interface (pf_channel pf f)) d)
           | OperatingResult None \<Rightarrow> Some d
           | _ \<Rightarrow> None)
      | DeadlineTask attempt timer _ \<Rightarrow>
          (case result of Elapsed \<Rightarrow> Some (deadline_passed pf attempt timer d) | _ \<Rightarrow> None)
      | ProbeTask attempt _ _ _ \<Rightarrow>
          (case result of ProbeResult r \<Rightarrow> Some (driver_probed pf attempt r d) | _ \<Rightarrow> None)
      | RetryTask candidate generation _ \<Rightarrow>
          (case result of Elapsed \<Rightarrow> Some (retry_due pf candidate generation d) | _ \<Rightarrow> None))"

datatype driver_event =
    Commanded driver_command
  | Observed observation
  | Finished nat task_result

definition remove_nth :: "nat \<Rightarrow> 'a list \<Rightarrow> 'a list" where
  "remove_nth k xs = take k xs @ drop (Suc k) xs"

text \<open>
  One turn of the loop of \<open>run\<close>: a message, and then what follows every message.  A task that is not in
  flight, or a result that is not one of its own, is no message.
\<close>

fun driver_message :: "platform \<Rightarrow> (check_reason \<Rightarrow> string) \<Rightarrow> driver_event \<Rightarrow> driver \<Rightarrow> driver option" where
  "driver_message pf words (Commanded command) d = Some (driver_commanded pf words command d)"
| "driver_message pf words (Observed obs) d = Some (driver_takes pf obs d)"
| "driver_message pf words (Finished k result) d =
     (if k < length (dv_tasks d)
      then driver_hears pf (dv_tasks d ! k) result (d\<lparr>dv_tasks := remove_nth k (dv_tasks d)\<rparr>)
      else None)"

definition driver_step :: "platform \<Rightarrow> (check_reason \<Rightarrow> string) \<Rightarrow> driver \<Rightarrow> driver_event \<Rightarrow> driver" where
  "driver_step pf words d e =
     (case driver_message pf words e d of
        None \<Rightarrow> d
      | Some d \<Rightarrow> driver_sweep (driver_settle pf (driver_kick pf d)))"

end
