(* ===== verification/Driver_Checks.thy ===== *)
theory Driver_Checks
  imports Net_Driver Selection
begin

text \<open>
  The checks of the driver and the attempts of its selector: there is a check for each attempt the
  selector holds, on its interface, for its candidate, at its stage; and an attempt the driver has asked
  something of always waits for something that is under way.
\<close>

section \<open>Checks that mirror the attempts held\<close>

text \<open>A check is of the attempt an interface holds.\<close>

definition check_of :: "selector \<Rightarrow> attempt \<Rightarrow> link_check \<Rightarrow> bool" where
  "check_of s n c \<longleftrightarrow> ck_attempt c = n \<and>
     (\<exists>h. bt_get (se_held s) (ck_interface c) = Some h \<and> attempt_of h = n \<and> candidate_of h = ck_candidate c
       \<and> hd_at h = ck_at c)"

definition checks_of :: "selector \<Rightarrow> (attempt, link_check) bt \<Rightarrow> bool" where
  "checks_of s checks \<longleftrightarrow> bt_ok checks \<and> (\<forall>n c. bt_get checks n = Some c \<longrightarrow> check_of s n c)"

definition mirrors :: "selector \<Rightarrow> (attempt, link_check) bt \<Rightarrow> bool" where
  "mirrors s checks \<longleftrightarrow> checks_of s checks \<and>
     (\<forall>i h. bt_get (se_held s) i = Some h \<longrightarrow> bt_has checks (attempt_of h))"

lemma mirrors_check:
  assumes "mirrors s checks" and "bt_get checks n = Some c"
  obtains h where "bt_get (se_held s) (ck_interface c) = Some h" "attempt_of h = n" "candidate_of h = ck_candidate c"
    "hd_at h = ck_at c" "ck_attempt c = n"
  using assms unfolding mirrors_def checks_of_def check_of_def by blast

text \<open>The interfaces whose link a decision changes, each once.\<close>

lemma diff_links_keys:
  obtains ks where "diff_links old new = map (\<lambda>k. LinkChange k (bt_get new k)) ks"
    and "\<And>k. k \<in> set ks \<longleftrightarrow> bt_get old k \<noteq> bt_get new k" and "distinct ks"
proof -
  define all where "all = bt_collect (map (\<lambda>k. (k, ())) (bt_keys old @ bt_keys new))"
  have "bt_has all k \<longleftrightarrow> k \<in> set (bt_keys old @ bt_keys new)" for k
    unfolding bt_has_def all_def bt_get_collect map_of_eq_None_iff by (simp add: image_Un image_image disj_commute)
  then have keys: "k \<in> set (bt_keys all) \<longleftrightarrow> k \<in> set (bt_keys old @ bt_keys new)" for k
    unfolding bt_has_iff .
  have "k \<in> set (bt_keys all) \<longleftrightarrow> bt_get old k \<noteq> None \<or> bt_get new k \<noteq> None" for k
    unfolding keys by (simp add: bt_has_iff [symmetric] bt_has_def)
  moreover have "distinct (bt_keys all)" unfolding bt_keys_def all_def by (rule bt_ok_distinct) simp
  ultimately show thesis
    by (intro that [of "filter (\<lambda>k. bt_get old k \<noteq> bt_get new k) (bt_keys all)"])
      (auto simp: diff_links_def all_def Let_def)
qed

section \<open>What following a change leaves alone\<close>

definition driver_kept :: "driver \<Rightarrow> driver \<Rightarrow> bool" where
  "driver_kept d d' \<longleftrightarrow>
     dv_tasks d' = dv_tasks d \<and> dv_scanning d' = dv_scanning d \<and> dv_stations d' = dv_stations d \<and>
     dv_links d' = dv_links d \<and> dv_document d' = dv_document d \<and> dv_probed d' = dv_probed d \<and>
     dv_applying d' = dv_applying d \<and> dv_taken d' = dv_taken d \<and> dv_fed d' = dv_fed d"

lemma driver_kept_refl: "driver_kept d d"
  by (simp add: driver_kept_def)

lemma driver_kept_trans: "driver_kept d e \<Longrightarrow> driver_kept e f \<Longrightarrow> driver_kept d f"
  by (simp add: driver_kept_def)

text \<open>
  A check that is to join knows what, and one at its gateway, or probing one, was asked something.
  A check there is was there before, or is a new one nothing has been asked of.
\<close>

definition check_fits :: "link_check \<Rightarrow> bool" where
  "check_fits c \<longleftrightarrow> (ck_at c = Some Association \<longrightarrow> ck_joining c \<noteq> None) \<and>
     (ck_probing c \<longrightarrow> ck_armed c \<and> (ck_at c = Some Gateway \<or> ck_at c = None)) \<and>
     (ck_at c = Some Gateway \<longrightarrow> ck_armed c)"

definition checks_from :: "driver \<Rightarrow> driver \<Rightarrow> bool" where
  "checks_from d d' \<longleftrightarrow> (\<forall>n c. get_check d' n = Some c \<longrightarrow> get_check d n = Some c \<or> \<not> ck_armed c \<and> check_fits c)"

lemma checks_from_refl: "checks_from d d"
  by (simp add: checks_from_def)

lemma checks_from_trans: "checks_from d e \<Longrightarrow> checks_from e f \<Longrightarrow> checks_from d f"
  unfolding checks_from_def by blast

lemma driver_act_simps:
  "driver_kept e (driver_act a d) \<longleftrightarrow> driver_kept e d" "dv_selector (driver_act a d) = dv_selector d"
  "dv_checks (driver_act a d) = dv_checks d" "get_check (driver_act a d) n = get_check d n"
  by (simp_all add: driver_act_def driver_kept_def get_check_def)

lemma driver_begin_facts:
  "driver_kept d (driver_begin pf i l d)" "dv_selector (driver_begin pf i l d) = dv_selector d"
  "\<exists>c. dv_checks (driver_begin pf i l d) = bt_insert (lk_attempt l) c (dv_checks d) \<and> \<not> ck_armed c \<and>
     \<not> ck_probing c \<and> ck_joining c = joining_of (dc_attachments (dv_document d) ! lk_candidate l) \<and>
     ck_attempt c = lk_attempt l \<and> ck_candidate c = lk_candidate l \<and> ck_interface c = i \<and>
     ck_at c = Some (case driver_state d (lk_candidate l) of Some (VerifyingAt at) \<Rightarrow> at | _ \<Rightarrow> Addressing)"
  by (auto simp: driver_begin_def driver_kept_def check_new_def Let_def split: attachment_kind.split)

lemma follow_change_kept: "driver_kept d (follow_change pf ch d)" "dv_selector (follow_change pf ch d) = dv_selector d"
proof -
  have "driver_kept d (follow_change pf ch d) \<and> dv_selector (follow_change pf ch d) = dv_selector d"
  proof (cases ch)
    case (LinkChange i l)
    have "driver_kept d (let_go i l d)" "dv_selector (let_go i l d) = dv_selector d"
      by (simp_all add: let_go_def driver_kept_def)
    then show ?thesis
      using driver_begin_facts(1) [of "let_go i l d" pf i] driver_begin_facts(2) [of pf i _ "let_go i l d"]
      by (cases l) (auto simp: LinkChange Let_def driver_act_simps intro: driver_kept_trans)
  qed (auto simp: driver_kept_def split: cand_state.split)
  then show "driver_kept d (follow_change pf ch d)" "dv_selector (follow_change pf ch d) = dv_selector d" by simp_all
qed

section \<open>Following a settled selector\<close>

text \<open>A selector about to settle, with numbers left for every interface.\<close>

definition may_settle :: "selector \<Rightarrow> bool" where
  "may_settle t \<longleftrightarrow> (\<exists>hw. sound hw t \<and> attempts_ok t \<and> unat (se_next_attempt t) + interfaces hw < 2 ^ 64)"

lemma settled_same:
  assumes "may_settle t" and "bt_get (se_held (settled t)) i = Some h"
    and "bt_get (se_held t) j = Some k" and "attempt_of h = attempt_of k"
  shows "i = j \<and> h = k"
proof -
  from assms(1) obtain hw where t: "sound hw t" "attempts_ok t" "unat (se_next_attempt t) + interfaces hw < 2 ^ 64"
    by (auto simp: may_settle_def)
  have "unat (attempt_of k) \<le> unat (se_next_attempt t)" using t(2) assms(3) by (auto simp: attempts_ok_def)
  with settled_numbered(1) [OF t] assms(2,4) have "bt_get (se_held t) i = Some h"
    unfolding numbered_def by (metis not_le)
  with t(2) assms(3,4) show ?thesis unfolding attempts_ok_def by (metis option.inject)
qed

lemma settled_one:
  assumes "may_settle t" and "bt_get (se_held (settled t)) i = Some h"
    and "bt_get (se_held (settled t)) j = Some k" and "attempt_of h = attempt_of k"
  shows "i = j \<and> h = k"
proof -
  from assms(1) obtain hw where t: "sound hw t" "attempts_ok t" "unat (se_next_attempt t) + interfaces hw < 2 ^ 64"
    by (auto simp: may_settle_def)
  from settled_numbered(3) [OF t] assms(2-4) show ?thesis unfolding attempts_ok_def by (metis option.inject)
qed

text \<open>An attempt the selector numbers anew is at its first stage, which its state says.\<close>

lemma settled_new:
  assumes "bt_get (se_held (settled t)) i = Some h" and "bt_get (se_held t) i \<noteq> Some h"
  shows "\<exists>at. hd_at h = Some at \<and> at \<noteq> Gateway \<and> (at = Association \<longrightarrow> is_wireless (at_kind (cands t ! candidate_of h))) \<and> nth_opt (de_states (se_decision (settled t))) (candidate_of h) = Some (VerifyingAt at)"
proof -
  have held: "bt_get (fst (settle_held t)) i = Some h" using assms(1) by simp
  then have "candidate_on (fst (settle_held t)) i = Some (candidate_of h)" by (simp add: candidate_on_def)
  then have on: "bt_get (pd_links (place t)) i = Some (candidate_of h)" by (simp add: candidate_on_settled)
  from settle_held_get [OF this] held assms(2)
  have "hd_at h = stage_next Carrier (is_wireless (at_kind (cands t ! candidate_of h)))"
    by (metis option.inject)
  then obtain at where at: "hd_at h = Some at" "at \<noteq> Gateway" "at = Association \<longrightarrow> is_wireless (at_kind (cands t ! candidate_of h))"
    by auto
  have "candidate_of h < length (cands t)" using on by (simp add: place_eq links_iff)
  with states_upto [of t] states_held [OF held]
  have "nth_opt (bt_values (states_of t)) (candidate_of h) = Some (held_state (default_route (fst (settle_held t))) h)"
    by (simp add: nth_opt_def)
  with at show ?thesis by (simp add: settled_decision states_of_def held_state_def)
qed

text \<open>The checks where the links of the interfaces of \<open>done\<close> have been followed and the others not yet.\<close>

definition following :: "selector \<Rightarrow> string set \<Rightarrow> (attempt, link_check) bt \<Rightarrow> bool" where
  "following t followed checks \<longleftrightarrow> bt_ok checks \<and>
     (\<forall>n c. bt_get checks n = Some c \<longrightarrow> check_of (if ck_interface c \<in> followed then settled t else t) n c) \<and>
     (\<forall>i h. i \<in> followed \<longrightarrow> bt_get (se_held (settled t)) i = Some h \<longrightarrow> bt_has checks (attempt_of h)) \<and>
     (\<forall>i h. bt_get (se_held t) i = Some h \<longrightarrow> bt_get (se_held (settled t)) i = Some h \<longrightarrow> bt_has checks (attempt_of h))"

definition link_now :: "selector \<Rightarrow> string \<Rightarrow> link option" where
  "link_now t i = map_option hd_link (bt_get (se_held (settled t)) i)"

text \<open>A check of an attempt the settled selector holds on an interface is that interface's.\<close>

lemma following_interface:
  assumes "may_settle t" and "following t followed checks" and "bt_get checks n = Some c"
    and "bt_get (se_held (settled t)) i = Some h" and "attempt_of h = n"
  shows "ck_interface c = i \<and> check_of (settled t) n c"
proof -
  have c: "check_of (if ck_interface c \<in> followed then settled t else t) n c"
    using assms(2,3) unfolding following_def by blast
  show ?thesis
  proof (cases "ck_interface c \<in> followed")
    case True
    with c have c': "check_of (settled t) n c" by simp
    then obtain k where "bt_get (se_held (settled t)) (ck_interface c) = Some k" "attempt_of k = n"
      by (auto simp: check_of_def)
    with settled_one [OF assms(1,4) this(1)] assms(5) c' show ?thesis by auto
  next
    case False
    with c obtain k where k: "bt_get (se_held t) (ck_interface c) = Some k" "attempt_of k = n"
      and rest: "ck_attempt c = n" "candidate_of k = ck_candidate c" "hd_at k = ck_at c"
      by (auto simp: check_of_def)
    from settled_same [OF assms(1,4) k(1)] assms(4,5) k rest show ?thesis
      by (auto simp: check_of_def)
  qed
qed

lemma bt_get_let_go:
  assumes "bt_ok (dv_checks d)"
  shows "bt_get (dv_checks (let_go i l d)) n =
    (case bt_get (dv_checks d) n of
       Some c \<Rightarrow> if ck_interface c \<noteq> i \<or> (case l of Some l \<Rightarrow> lk_attempt l = n | None \<Rightarrow> False) then Some c else None
     | None \<Rightarrow> None)"
  using assms by (simp add: let_go_def bt_get_retain split: option.split)

lemma following_let_go:
  assumes settle: "may_settle t" and checks: "following t followed (dv_checks d)" and new: "i \<notin> followed"
  defines "d' \<equiv> let_go i (link_now t i) d"
  shows "bt_ok (dv_checks d')"
    and "bt_get (dv_checks d') n = Some c \<Longrightarrow> check_of (if ck_interface c \<in> insert i followed then settled t else t) n c"
    and "bt_get (se_held (settled t)) j = Some h \<Longrightarrow> bt_has (dv_checks d) (attempt_of h) \<Longrightarrow> bt_has (dv_checks d') (attempt_of h)"
    and "bt_get (dv_checks d') n = Some c \<Longrightarrow> bt_get (dv_checks d) n = Some c"
proof -
  have ok: "bt_ok (dv_checks d)" using checks by (simp add: following_def)
  then show "bt_ok (dv_checks d')" by (simp add: d'_def let_go_def)
  show old: "bt_get (dv_checks d') n = Some c \<Longrightarrow> bt_get (dv_checks d) n = Some c" for n c
    by (auto simp: d'_def bt_get_let_go [OF ok] split: option.splits if_splits)
  show "check_of (if ck_interface c \<in> insert i followed then settled t else t) n c" if c: "bt_get (dv_checks d') n = Some c"
  proof (cases "ck_interface c = i")
    case False
    with old [OF c] checks show ?thesis unfolding following_def by auto
  next
    case True
    with c have "case link_now t i of Some l \<Rightarrow> lk_attempt l = n | None \<Rightarrow> False"
      by (auto simp: d'_def bt_get_let_go [OF ok] split: option.splits if_splits)
    then obtain h where "bt_get (se_held (settled t)) i = Some h" "attempt_of h = n"
      by (auto simp: link_now_def split: option.splits)
    from following_interface [OF settle checks old [OF c] this] True show ?thesis by simp
  qed
  show "bt_has (dv_checks d') (attempt_of h)"
    if h: "bt_get (se_held (settled t)) j = Some h" and has: "bt_has (dv_checks d) (attempt_of h)"
  proof -
    from has obtain c where c: "bt_get (dv_checks d) (attempt_of h) = Some c" by (auto simp: bt_has_def)
    from following_interface [OF settle checks c h refl] have "ck_interface c = j" by simp
    with c h show ?thesis
      by (auto simp: bt_has_def d'_def bt_get_let_go [OF ok] link_now_def)
  qed
qed

lemma following_step:
  assumes settle: "may_settle t" and checks: "following t followed (dv_checks d)" and new: "i \<notin> followed"
    and sel: "dv_selector d = settled t" and doc: "dv_document d = se_document t" and d'_def: "d' = follow_change pf (LinkChange i (link_now t i)) d"
  shows "following t (insert i followed) (dv_checks d')" and "checks_from d d'"
proof -
  define e where "e = let_go i (link_now t i) d"
  note go = following_let_go [OF settle checks new, folded e_def]
  have sel': "dv_selector e = settled t" by (simp add: e_def let_go_def sel)
  have from_e: "checks_from d e" using go(4) by (auto simp: checks_from_def get_check_def)
  have has: "bt_has (dv_checks e) (attempt_of h)"
    if "bt_get (se_held (settled t)) j = Some h" "j \<in> followed \<or> bt_get (se_held t) j = Some h" for j h
    using go(3) [OF that(1)] checks that unfolding following_def by blast
  have "following t (insert i followed) (dv_checks d') \<and> checks_from d d'"
  proof (cases "\<exists>h. bt_get (se_held (settled t)) i = Some h \<and> \<not> bt_has (dv_checks e) (attempt_of h)")
    case False
    then have d': "dv_checks d' = dv_checks e"
      by (auto simp: d'_def e_def Let_def driver_act_simps link_now_def split: option.split)
    have "following t (insert i followed) (dv_checks d')"
      unfolding d' following_def using go(1,2) has False by blast
    with from_e show ?thesis by (simp add: checks_from_def get_check_def d')
  next
    case True
    then obtain h where h: "bt_get (se_held (settled t)) i = Some h" and no: "\<not> bt_has (dv_checks e) (attempt_of h)" by blast
    have "bt_get (se_held t) i \<noteq> Some h" using has [OF h] no by blast
    from settled_new [OF h this] obtain at where at: "hd_at h = Some at" "at \<noteq> Gateway"
      and wireless: "at = Association \<longrightarrow> is_wireless (at_kind (cands t ! candidate_of h))"
      and state: "nth_opt (de_states (se_decision (settled t))) (candidate_of h) = Some (VerifyingAt at)" by blast
    have d': "d' = driver_begin pf i (hd_link h) e"
      using h no by (simp add: d'_def link_now_def Let_def e_def)
    have doc': "dv_document e = se_document t" by (simp add: e_def let_go_def doc)
    have "driver_state e (candidate_of h) = Some (VerifyingAt at)"
      by (simp add: driver_state_def driver_decision_def sel' state)
    then obtain c where c: "dv_checks d' = bt_insert (attempt_of h) c (dv_checks e)" "\<not> ck_armed c" "\<not> ck_probing c"
      "ck_joining c = joining_of (cands t ! candidate_of h)" "ck_attempt c = attempt_of h" "ck_candidate c = candidate_of h" "ck_interface c = i" "ck_at c = Some at"
      using driver_begin_facts(3) [of pf i "hd_link h" e] unfolding d' by (auto simp: doc')
    have "check_of (settled t) (attempt_of h) c"
      using c h at by (auto simp: check_of_def)
    then have each: "check_of (if ck_interface k \<in> insert i followed then settled t else t) n k"
      if "bt_get (dv_checks d') n = Some k" for n k
      using that go(2) [of n k] c(1,7) by (auto split: if_splits)
    have all: "bt_has (dv_checks d') (attempt_of k)"
      if "bt_get (se_held (settled t)) j = Some k" "j \<in> insert i followed \<or> bt_get (se_held t) j = Some k" for j k
      using that has [of j k] h by (auto simp: c(1))
    have "following t (insert i followed) (dv_checks d')"
      unfolding following_def using go(1) each all by (auto simp: c(1))
    moreover have "checks_from d d'"
      using from_e c(1-4,8) wireless at(2)
      by (auto simp: checks_from_def get_check_def check_fits_def joining_of_def split: attachment_kind.splits)
    ultimately show ?thesis by simp
  qed
  then show "following t (insert i followed) (dv_checks d')" "checks_from d d'" by simp_all
qed

lemma following_links:
  assumes "may_settle t"
  shows "distinct ks \<Longrightarrow> set ks \<inter> followed = {} \<Longrightarrow> following t followed (dv_checks d) \<Longrightarrow>
    dv_selector d = settled t \<Longrightarrow> dv_document d = se_document t \<Longrightarrow>
    following t (followed \<union> set ks)
      (dv_checks (fold (follow_change pf) (map (\<lambda>k. LinkChange k (link_now t k)) ks) d)) \<and>
    checks_from d (fold (follow_change pf) (map (\<lambda>k. LinkChange k (link_now t k)) ks) d)"
proof (induction ks arbitrary: followed d)
  case (Cons k ks)
  define e where "e = follow_change pf (LinkChange k (link_now t k)) d"
  have k: "k \<notin> followed" using Cons.prems(2) by simp
  note step = following_step [OF assms Cons.prems(3) k Cons.prems(4,5) e_def]
  have e: "dv_selector e = settled t" "dv_document e = se_document t"
    using follow_change_kept [where d = d and pf = pf and ch = "LinkChange k (link_now t k)"] Cons.prems(4,5)
    by (simp_all add: e_def driver_kept_def del: follow_change.simps)
  have "set ks \<inter> insert k followed = {}" using Cons.prems(1,2) by auto
  from Cons.IH [OF _ this step(1) e] Cons.prems(1) checks_from_trans [OF step(2)] show ?case
    by (simp add: e_def [symmetric] del: follow_change.simps)
qed (simp add: checks_from_refl)

lemma follow_rest:
  "\<forall>ch \<in> set changes. \<not> (\<exists>i l. ch = LinkChange i l) \<Longrightarrow> dv_checks (fold (follow_change pf) changes d) = dv_checks d"
proof (induction changes arbitrary: d)
  case (Cons ch changes)
  have "dv_checks (follow_change pf ch d) = dv_checks d"
    using Cons.prems by (cases ch) (auto split: cand_state.split)
  with Cons show ?case by simp
qed simp

lemma follow_kept:
  "driver_kept d (fold (follow_change pf) changes d) \<and> dv_selector (fold (follow_change pf) changes d) = dv_selector d"
proof (induction changes arbitrary: d)
  case (Cons ch changes)
  from Cons.IH [of "follow_change pf ch d"] follow_change_kept [where d = d and pf = pf and ch = ch] show ?case
    by (auto intro: driver_kept_trans)
qed (simp add: driver_kept_refl)

text \<open>What the driver makes of the checks where it follows all a settled selector changed.\<close>

lemma driver_follow_mirrors:
  assumes settle: "may_settle t" and sel: "dv_selector d = settled t" and doc: "dv_document d = se_document t"
    and checks: "following t {} (dv_checks d)"
    and unchanged: "\<And>i. bt_get (de_links old) i = link_now t i \<Longrightarrow> bt_get (se_held (settled t)) i = bt_get (se_held t) i"
    and follow: "d' = driver_follow pf (diff old (se_decision (settled t))) d"
  shows "mirrors (settled t) (dv_checks d')" "checks_from d d'" "dv_selector d' = settled t"
    "driver_kept (d\<lparr>dv_fed := dv_fed d + 1\<rparr>) d'"
proof -
  let ?d = "d\<lparr>dv_fed := dv_fed d + 1\<rparr>"
  let ?new = "se_decision (settled t)"
  obtain ks where ks: "diff_links (de_links old) (de_links ?new) = map (\<lambda>k. LinkChange k (bt_get (de_links ?new) k)) ks"
    and set: "\<And>k. k \<in> set ks \<longleftrightarrow> bt_get (de_links old) k \<noteq> bt_get (de_links ?new) k" and dist: "distinct ks"
    by (rule diff_links_keys [where old = "de_links old" and new = "de_links ?new"], rule that)
  have now: "bt_get (de_links ?new) k = link_now t k" for k by (simp add: links_settled link_now_def)
  obtain rest where diff: "diff old ?new = map (\<lambda>k. LinkChange k (link_now t k)) ks @ rest"
    and rest: "\<forall>ch \<in> set rest. \<not> (\<exists>i l. ch = LinkChange i l)"
    by (rule that [of "drop (length ks) (diff old ?new)"]) (auto simp: diff_def ks now)
  define e where "e = fold (follow_change pf) (map (\<lambda>k. LinkChange k (link_now t k)) ks) ?d"
  have d': "dv_checks d' = dv_checks e" "dv_selector d' = settled t" "driver_kept ?d d'"
  proof -
    have f: "fold (follow_change pf) (diff old ?new) ?d = fold (follow_change pf) rest e"
      by (simp add: diff e_def)
    show "dv_checks d' = dv_checks e"
      unfolding follow driver_follow_def Let_def f
      by (simp add: follow_rest [OF rest] driver_publish_def driver_act_simps)
    show "dv_selector d' = settled t" "driver_kept ?d d'"
      using follow_kept [where d = ?d and pf = pf and changes = "diff old ?new"] sel
      by (simp_all add: follow driver_follow_def Let_def driver_publish_def driver_act_simps)
  qed
  have "following t (set ks) (dv_checks e) \<and> checks_from ?d e"
    using following_links [OF settle dist, where followed = "{}" and d = ?d and pf = pf] checks sel doc by (simp add: e_def)
  then have followed: "following t (set ks) (dv_checks d')" and olds: "checks_from d d'"
    by (simp_all add: d' checks_from_def get_check_def)
  have same: "bt_get (se_held (settled t)) i = bt_get (se_held t) i" if "i \<notin> set ks" for i
    using unchanged [of i] set [of i] that by (simp add: now)
  have "check_of (settled t) n c" if "bt_get (dv_checks d') n = Some c" for n c
  proof -
    have "check_of (if ck_interface c \<in> set ks then settled t else t) n c"
      using followed that unfolding following_def by blast
    then show ?thesis using same [of "ck_interface c"]
      by (cases "ck_interface c \<in> set ks") (auto simp: check_of_def simp del: settled_simps)
  qed
  moreover have "bt_has (dv_checks d') (attempt_of h)" if "bt_get (se_held (settled t)) i = Some h" for i h
    using followed that same [of i] unfolding following_def by (cases "i \<in> set ks") auto
  ultimately show "mirrors (settled t) (dv_checks d')"
    using followed unfolding mirrors_def checks_of_def following_def by blast
  show "checks_from d d'" by (fact olds)
  show "dv_selector d' = settled t" "driver_kept ?d d'" by (fact d')+
qed

section \<open>Feeding the selector\<close>

text \<open>A selector at rest whose decision says the links it holds.\<close>

definition links_agree :: "selector \<Rightarrow> bool" where
  "links_agree s \<longleftrightarrow> bt_ok (de_links (se_decision s)) \<and> (\<forall>i. bt_get (de_links (se_decision s)) i = map_option hd_link (bt_get (se_held s) i))"

lemma links_agree_settled: "links_agree (settled t)"
  by (simp add: links_agree_def links_settled settled_links_ok)

lemma driver_feed_mirrors:
  assumes rest: "at_rest hw (dv_selector d)" and room: "unat (se_next_attempt (dv_selector d)) + interfaces hw < 2 ^ 64"
    and agree: "links_agree (dv_selector d)" and doc: "dv_document d = se_document (dv_selector d)"
    and mirror: "mirrors (observe e (dv_selector d)) (dv_checks d)"
    and d'_def: "d' = driver_feed pf e d"
  shows "mirrors (dv_selector d') (dv_checks d')" "checks_from d d'"
    "dv_selector d' = sel_run (dv_selector d) (Observes e)"
    "driver_kept (d\<lparr>dv_fed := dv_fed d + 1\<rparr>) d'" "links_agree (dv_selector d')"
proof -
  let ?s = "dv_selector d"
  let ?t = "observe e ?s"
  have s: "sound hw ?s" "attempts_ok ?s" using rest by (simp_all add: at_rest_def)
  have settle: "may_settle ?t"
    unfolding may_settle_def using sound_observe [OF s(1)] observed_attempts(1) [OF s] room by auto
  have feed: "d' = driver_follow pf (diff (se_decision ?s) (se_decision (settled ?t))) (d\<lparr>dv_selector := settled ?t\<rparr>)"
    by (simp add: d'_def driver_feed_def sel_handle_def settle_fst settle_snd case_prod_unfold)
  have links: "map_option hd_link (bt_get (se_held ?t) i) = bt_get (de_links (se_decision ?s)) i" for i
    using observe_links [of ?s e i] s(1) agree by (simp add: sound_def links_agree_def)
  have unchanged: "bt_get (se_held (settled ?t)) i = bt_get (se_held ?t) i"
    if eq: "bt_get (de_links (se_decision ?s)) i = link_now ?t i" for i
  proof (cases "bt_get (se_held (settled ?t)) i")
    case None
    with eq links [of i] show ?thesis by (simp add: link_now_def del: settled_simps)
  next
    case (Some h)
    with eq links [of i] obtain k where k: "bt_get (se_held ?t) i = Some k" "hd_link k = hd_link h"
      by (auto simp: link_now_def simp del: settled_simps)
    with settled_same [OF settle Some k(1)] Some show ?thesis by simp
  qed
  have checks: "following ?t {} (dv_checks (d\<lparr>dv_selector := settled ?t\<rparr>))"
    using mirror by (auto simp: following_def mirrors_def checks_of_def)
  have docs: "dv_document (d\<lparr>dv_selector := settled ?t\<rparr>) = se_document ?t" by (simp add: doc)
  note followed = driver_follow_mirrors [OF settle _ docs checks unchanged feed]
  have sel: "dv_selector d' = settled ?t" by (rule followed(3)) simp_all
  have "mirrors (settled ?t) (dv_checks d')" by (rule followed(1)) simp_all
  with sel show "mirrors (dv_selector d') (dv_checks d')" by simp
  have "checks_from (d\<lparr>dv_selector := settled ?t\<rparr>) d'" by (rule followed(2)) simp_all
  then show "checks_from d d'" by (simp add: checks_from_def get_check_def)
  have "driver_kept (d\<lparr>dv_selector := settled ?t, dv_fed := dv_fed d + 1\<rparr>) d'"
    using followed(4) by simp
  then show "driver_kept (d\<lparr>dv_fed := dv_fed d + 1\<rparr>) d'" by (simp add: driver_kept_def)
  show "dv_selector d' = sel_run ?s (Observes e)" by (simp add: sel sel_run_Observes del: sel_run.simps)
  show "links_agree (dv_selector d')" by (simp only: sel links_agree_settled)
qed

section \<open>What an attempt waits for\<close>

text \<open>
  What is under way for an attempt at its stage: a scan, a join or the scan after one refused, the deadline
  it was last given, or a probe.
\<close>

definition waits :: "driver_task list \<Rightarrow> (string, nat) bt \<Rightarrow> attempt \<Rightarrow> link_check \<Rightarrow> bool" where
  "waits tasks scanning n c \<longleftrightarrow>
     (case ck_at c of
        Some Association \<Rightarrow>
          ck_awaiting_scan c \<and> bt_has scanning (ck_interface c)
          \<or> (\<exists>i target. JoinTask n i target \<in> set tasks) \<or> (\<exists>i. ScanTask i (RefusedScan n) \<in> set tasks)
      | Some Addressing \<Rightarrow> \<exists>after. DeadlineTask n (ck_timer c) after \<in> set tasks
      | Some Gateway \<Rightarrow>
          if ck_probing c then \<exists>i source gateway. ProbeTask n i source gateway \<in> set tasks
          else \<exists>after. DeadlineTask n (ck_timer c) after \<in> set tasks
      | _ \<Rightarrow> True)"

lemma waits_mono:
  assumes "waits tasks scanning n c" and "set tasks \<subseteq> set tasks'" and "\<And>i. bt_has scanning i \<Longrightarrow> bt_has scanning' i"
  shows "waits tasks' scanning' n c"
  using assms unfolding waits_def by (cases "ck_at c") (auto split: stage.splits if_splits)

definition scans_for :: "string \<Rightarrow> driver_task list \<Rightarrow> nat" where
  "scans_for i tasks = length (filter (\<lambda>t. t = ScanTask i PendingScan) tasks)"

lemma scans_for_append: "scans_for i (xs @ ys) = scans_for i xs + scans_for i ys"
  by (simp add: scans_for_def)

text \<open>
  The driver at a point of a message: the attempts exempt are those the message is about, and \<open>late\<close> the
  radio whose scan has ended without having been taken in.
\<close>

definition all_wait :: "(attempt \<Rightarrow> link_check \<Rightarrow> bool) \<Rightarrow> driver \<Rightarrow> bool" where
  "all_wait exempt d \<longleftrightarrow> (\<forall>n c. get_check d n = Some c \<longrightarrow> check_fits c \<and>
     (ck_armed c \<longrightarrow> exempt n c \<or> waits (dv_tasks d) (dv_scanning d) n c))"

definition scans_run :: "string option \<Rightarrow> driver \<Rightarrow> bool" where
  "scans_run late d \<longleftrightarrow> (\<forall>i k. bt_get (dv_scanning d) i = Some k \<longrightarrow>
     0 < k \<and> k \<le> scans_for i (dv_tasks d) + of_bool (late = Some i))"

text \<open>The bound on what has been fed keeps the attempts from having come round.\<close>

definition driver_core :: "hardware \<Rightarrow> driver \<Rightarrow> bool" where
  "driver_core hw d \<longleftrightarrow>
     at_rest hw (dv_selector d) \<and> links_agree (dv_selector d) \<and> dv_document d = se_document (dv_selector d) \<and>
     unat (se_next_attempt (dv_selector d)) \<le> (dv_fed d + 1) * interfaces hw"

definition driver_inv ::
    "hardware \<Rightarrow> nat \<Rightarrow> (attempt \<Rightarrow> link_check \<Rightarrow> bool) \<Rightarrow> string option \<Rightarrow> driver \<Rightarrow> bool" where
  "driver_inv hw limit exempt late d \<longleftrightarrow>
     (dv_fed d < limit \<longrightarrow>
        driver_core hw d \<and> mirrors (dv_selector d) (dv_checks d) \<and> all_wait exempt d \<and> scans_run late d)"

text \<open>A fact about the check of an attempt, where it has been asked something.\<close>

definition of_check :: "nat \<Rightarrow> attempt \<Rightarrow> (link_check \<Rightarrow> bool) \<Rightarrow> driver \<Rightarrow> bool" where
  "of_check limit n P d \<longleftrightarrow> (dv_fed d < limit \<longrightarrow> (\<forall>c. get_check d n = Some c \<longrightarrow> ck_armed c \<longrightarrow> P c))"

lemma of_check_mono: "of_check limit n P d \<Longrightarrow> (\<And>c. P c \<Longrightarrow> Q c) \<Longrightarrow> of_check limit n Q d"
  by (auto simp: of_check_def)

text \<open>What does not touch the checks or the selector, and only starts tasks, keeps all of it.\<close>

definition only_starts :: "driver \<Rightarrow> driver \<Rightarrow> bool" where
  "only_starts d d' \<longleftrightarrow> dv_selector d' = dv_selector d \<and> dv_document d' = dv_document d \<and>
     dv_checks d' = dv_checks d \<and> dv_scanning d' = dv_scanning d \<and> dv_fed d' = dv_fed d \<and>
     (\<exists>more. dv_tasks d' = dv_tasks d @ more)"

lemma only_starts_refl: "only_starts d d"
  by (simp add: only_starts_def)

lemma only_starts_trans: "only_starts d e \<Longrightarrow> only_starts e f \<Longrightarrow> only_starts d f"
  by (auto simp: only_starts_def)

lemma only_starts_inv:
  assumes "only_starts d d'" and "driver_inv hw limit exempt late d"
  shows "driver_inv hw limit exempt late d'"
proof -
  obtain more where t: "dv_tasks d' = dv_tasks d @ more"
    using assms(1) unfolding only_starts_def by blast
  have same: "dv_selector d' = dv_selector d" "dv_document d' = dv_document d" "dv_checks d' = dv_checks d"
    and scan: "dv_scanning d' = dv_scanning d" and fed: "dv_fed d' = dv_fed d"
    using assms(1) by (simp_all add: only_starts_def)
  have check: "get_check d' n = get_check d n" for n by (simp add: get_check_def same)
  have core: "driver_core hw d' \<longleftrightarrow> driver_core hw d" unfolding driver_core_def same fed ..
  have mirror: "mirrors (dv_selector d') (dv_checks d') \<longleftrightarrow> mirrors (dv_selector d) (dv_checks d)" unfolding same ..
  have "waits (dv_tasks d) (dv_scanning d) n c \<Longrightarrow> waits (dv_tasks d @ more) (dv_scanning d) n c" for n c
    by (rule waits_mono) auto
  then have "all_wait exempt d \<Longrightarrow> all_wait exempt d'"
    unfolding all_wait_def check t scan by blast
  moreover have "scans_run late d \<Longrightarrow> scans_run late d'"
    unfolding scans_run_def t scan scans_for_append by (meson le_add1 le_trans add_le_mono order_refl)
  ultimately show ?thesis using assms(2) by (simp add: driver_inv_def core mirror fed)
qed

lemma only_starts_of_check: "only_starts d d' \<Longrightarrow> of_check limit n P d \<Longrightarrow> of_check limit n P d'"
  by (auto simp: only_starts_def of_check_def get_check_def)

lemma driver_inv_exempt:
  assumes "driver_inv hw limit exempt late d"
    and "\<And>n c. dv_fed d < limit \<Longrightarrow> get_check d n = Some c \<Longrightarrow> check_fits c \<Longrightarrow> ck_armed c \<Longrightarrow> exempt n c \<Longrightarrow>
      exempt' n c \<or> waits (dv_tasks d) (dv_scanning d) n c"
  shows "driver_inv hw limit exempt' late d"
  using assms unfolding driver_inv_def all_wait_def by blast

section \<open>Feeding keeps it\<close>

text \<open>Numbers enough for the limit.\<close>

definition room_for :: "hardware \<Rightarrow> nat \<Rightarrow> bool" where
  "room_for hw limit \<longleftrightarrow> (limit + 1) * interfaces hw < 2 ^ 64"

lemma room_numbers:
  assumes "room_for hw limit" and "dv_fed d + 1 < limit" and "driver_core hw d"
  shows "unat (se_next_attempt (dv_selector d)) + interfaces hw < 2 ^ 64"
proof -
  have "(dv_fed d + 2) * interfaces hw \<le> (limit + 1) * interfaces hw"
    using assms(2) by (intro mult_le_mono1) simp
  with assms(1) have "(dv_fed d + 1) * interfaces hw + interfaces hw < 2 ^ 64"
    by (simp add: room_for_def algebra_simps)
  with assms(3) show ?thesis by (simp add: driver_core_def)
qed

lemma driver_feed_core:
  assumes room: "room_for hw limit" and low: "dv_fed d + 1 < limit" and core: "driver_core hw d"
    and mirror: "mirrors (observe e (dv_selector d)) (dv_checks d)"
  shows "driver_core hw (driver_feed pf e d)"
    and "mirrors (dv_selector (driver_feed pf e d)) (dv_checks (driver_feed pf e d))"
    and "checks_from d (driver_feed pf e d)"
    and "driver_kept (d\<lparr>dv_fed := dv_fed d + 1\<rparr>) (driver_feed pf e d)"
    and "dv_selector (driver_feed pf e d) = sel_run (dv_selector d) (Observes e)"
proof -
  let ?s = "dv_selector d"
  have r: "unat (se_next_attempt ?s) + interfaces hw < 2 ^ 64" by (rule room_numbers [OF room low core])
  have rest: "at_rest hw ?s" and agree: "links_agree ?s" and doc: "dv_document d = se_document ?s"
    using core by (simp_all add: driver_core_def)
  note fed = driver_feed_mirrors [OF rest r agree doc mirror refl, of pf]
  note step = at_rest_step [OF rest r, of "Observes e"]
  have "dv_document (driver_feed pf e d) = se_document (dv_selector (driver_feed pf e d))"
    using fed(4) doc by (simp add: driver_kept_def fed(3) sel_run_Observes del: sel_run.simps)
  moreover have "dv_fed (driver_feed pf e d) = dv_fed d + 1" using fed(4) by (simp add: driver_kept_def)
  moreover have "unat (se_next_attempt (sel_run ?s (Observes e))) \<le> (dv_fed d + 2) * interfaces hw"
    using step(3) core by (simp add: driver_core_def algebra_simps)
  ultimately show "driver_core hw (driver_feed pf e d)"
    unfolding driver_core_def using fed(3,5) step(1) by simp
  show "mirrors (dv_selector (driver_feed pf e d)) (dv_checks (driver_feed pf e d))"
    and "checks_from d (driver_feed pf e d)"
    and "dv_selector (driver_feed pf e d) = sel_run (dv_selector d) (Observes e)"
    and "driver_kept (d\<lparr>dv_fed := dv_fed d + 1\<rparr>) (driver_feed pf e d)"
    by (fact fed)+
qed

lemma driver_feed_fed [simp]: "dv_fed (driver_feed pf e d) = dv_fed d + 1"
proof -
  have "dv_fed (driver_follow pf changes d') = dv_fed d' + 1" for changes d'
    using follow_kept [where d = "d'\<lparr>dv_fed := dv_fed d' + 1\<rparr>" and pf = pf and changes = changes]
    by (simp add: driver_follow_def Let_def driver_publish_def driver_act_def driver_kept_def)
  then show ?thesis by (simp add: driver_feed_def case_prod_unfold Let_def)
qed

text \<open>Before a feed, with the checks as what is fed will have them.\<close>

definition feed_ready ::
    "hardware \<Rightarrow> nat \<Rightarrow> (attempt \<Rightarrow> link_check \<Rightarrow> bool) \<Rightarrow> string option \<Rightarrow> sel_event \<Rightarrow> driver \<Rightarrow> bool" where
  "feed_ready hw limit exempt late e d \<longleftrightarrow>
     (dv_fed d + 1 < limit \<longrightarrow> driver_core hw d \<and> mirrors (observe e (dv_selector d)) (dv_checks d) \<and>
        all_wait exempt d \<and> scans_run late d)"

lemma driver_feed_inv:
  assumes room: "room_for hw limit" and ready: "feed_ready hw limit exempt late e d"
  shows "driver_inv hw limit exempt late (driver_feed pf e d)"
    and "of_check limit n P d \<Longrightarrow> of_check limit n P (driver_feed pf e d)"
proof -
  let ?d = "driver_feed pf e d"
  have all: "driver_core hw ?d \<and> mirrors (dv_selector ?d) (dv_checks ?d) \<and> all_wait exempt ?d \<and> scans_run late ?d
      \<and> checks_from d ?d" if low: "dv_fed d + 1 < limit"
  proof -
    from ready low have d: "driver_core hw d" "mirrors (observe e (dv_selector d)) (dv_checks d)"
      "all_wait exempt d" "scans_run late d" by (simp_all add: feed_ready_def)
    note fed = driver_feed_core [OF room low d(1,2), of pf]
    have tasks: "dv_tasks ?d = dv_tasks d" and scan: "dv_scanning ?d = dv_scanning d"
      using fed(4) by (simp_all add: driver_kept_def)
    have "all_wait exempt ?d"
      unfolding all_wait_def tasks scan
      using fed(3) d(3) by (auto simp: checks_from_def all_wait_def)
    with fed d(4) show ?thesis by (simp add: scans_run_def tasks scan)
  qed
  then show "driver_inv hw limit exempt late ?d" by (simp add: driver_inv_def)
  show "of_check limit n P d \<Longrightarrow> of_check limit n P ?d"
    using all unfolding of_check_def checks_from_def driver_feed_fed by (metis add_lessD1)
qed

text \<open>All but a stage passed leave the attempts held at the stages they were.\<close>

fun is_passed :: "sel_event \<Rightarrow> bool" where
  "is_passed (PassedEvent _ _) = True"
| "is_passed (CarrierEvent _ _) = False"
| "is_passed (InRangeEvent _ _ _) = False"
| "is_passed (OutOfRangeEvent _ _) = False"
| "is_passed (FailedEvent _ _ _ _) = False"
| "is_passed (StationChannelEvent _ _) = False"
| "is_passed (RetryEvent _) = False"

lemma observe_held: "\<not> is_passed e \<Longrightarrow> se_held (observe e s) = se_held s"
  by (cases e) (auto simp: on_carrier_def in_range_def on_failed_def on_station_channel_def Let_def split: option.split)

lemma mirrors_held: "se_held s = se_held t \<Longrightarrow> mirrors s checks = mirrors t checks"
  by (simp add: mirrors_def checks_of_def check_of_def)

lemma feed_ready_plain: "driver_inv hw limit exempt late d \<Longrightarrow> \<not> is_passed e \<Longrightarrow> feed_ready hw limit exempt late e d"
  using mirrors_held [OF observe_held] by (auto simp: feed_ready_def driver_inv_def)

lemmas driver_feed_plain = driver_feed_inv [OF _ feed_ready_plain]

text \<open>An attempt that failed is given up.\<close>

lemma failed_given_up:
  assumes settle: "may_settle t" and held: "bt_get (se_held t) i = Some h"
    and failed: "bt_get (se_failures t) (candidate_of h) \<noteq> None"
    and "bt_get (se_held (settled t)) j = Some k"
  shows "attempt_of k \<noteq> attempt_of h"
proof
  assume "attempt_of k = attempt_of h"
  from settled_same [OF settle assms(4) held this] have "j = i" "k = h" by simp_all
  with assms(4) have "candidate_on (fst (settle_held t)) i = Some (candidate_of h)" by (simp add: candidate_on_def)
  then have "place_one t (candidate_of h) (cands t ! candidate_of h) (links_upto t (candidate_of h)) = Inr i"
    by (simp add: candidate_on_settled place_eq links_iff)
  from place_one_Inr [OF this] failed show False by simp
qed

lemma find_attempt_Some:
  assumes "bt_ok held" and "find_attempt n held = Some (i, h)"
  shows "bt_get held i = Some h \<and> attempt_of h = n"
  using assms(2) find_SomeD [of "\<lambda>(_, h). attempt_of h = n" held "(i, h)"]
  by (simp add: find_attempt_def bt_ok_get_iff [OF assms(1)])

lemma find_attempt_is:
  assumes "attempts_ok s" and "bt_ok (se_held s)" and held: "bt_get (se_held s) i = Some h"
  shows "find_attempt (attempt_of h) (se_held s) = Some (i, h)"
proof -
  have "(i, h) \<in> set (se_held s)" using held by (rule bt_get_SomeD)
  then have "find_attempt (attempt_of h) (se_held s) \<noteq> None"
    by (auto simp: find_attempt_def find_None_iff)
  then obtain j k where jk: "find_attempt (attempt_of h) (se_held s) = Some (j, k)" by fastforce
  from find_attempt_Some [OF assms(2) this] assms(1) held show ?thesis
    unfolding jk attempts_ok_def by (metis option.inject)
qed

lemma failed_attempt_gone:
  assumes room: "room_for hw limit" and inv: "driver_inv hw limit exempt late d" and low: "dv_fed d + 1 < limit"
    and check: "get_check d n \<noteq> None"
  shows "get_check (driver_feed pf (FailedEvent n st member reason) d) n = None"
proof (rule ccontr)
  let ?e = "FailedEvent n st member reason"
  let ?s = "dv_selector d"
  let ?t = "observe ?e ?s"
  assume "get_check (driver_feed pf ?e d) n \<noteq> None"
  then obtain c where c: "get_check (driver_feed pf ?e d) n = Some c" by blast
  from inv low have core: "driver_core hw d" and mirror: "mirrors ?s (dv_checks d)" by (simp_all add: driver_inv_def)
  have mirror': "mirrors ?t (dv_checks d)" using mirror mirrors_held [OF observe_held, of ?e] by simp
  note fed = driver_feed_core [OF room low core mirror', of pf]
  have rest: "sound hw ?s" "attempts_ok ?s" using core by (simp_all add: driver_core_def at_rest_def)
  from check obtain k where "bt_get (dv_checks d) n = Some k" by (auto simp: get_check_def)
  from mirrors_check [OF mirror this] obtain h i where h: "bt_get (se_held ?s) i = Some h" "attempt_of h = n" by blast
  from find_attempt_is [OF rest(2) _ h(1)] rest(1) h(2) have "find_attempt n (se_held ?s) = Some (i, h)"
    by (simp add: sound_def)
  then have t: "bt_get (se_failures ?t) (candidate_of h) \<noteq> None" "bt_get (se_held ?t) i = Some h"
    using h by (simp_all add: on_failed_def)
  have "unat (se_next_attempt ?t) + interfaces hw < 2 ^ 64"
    using room_numbers [OF room low core] by (simp only: observe_keeps)
  then have settle: "may_settle ?t"
    unfolding may_settle_def using sound_observe [OF rest(1)] observed_attempts(1) [OF rest] by blast
  have "dv_selector (driver_feed pf ?e d) = settled ?t"
    using fed(5) by (simp only: sel_run_Observes)
  with fed(2) have "mirrors (settled ?t) (dv_checks (driver_feed pf ?e d))" by simp
  from mirrors_check [OF this c [unfolded get_check_def]]
  obtain j k where "bt_get (se_held (settled ?t)) j = Some k" "attempt_of k = n" by blast
  with failed_given_up [OF settle t(2,1)] h(2) show False by metis
qed

lemma driver_feed_failed:
  assumes room: "room_for hw limit" and inv: "driver_inv hw limit (\<lambda>m c. m = n \<or> exempt m c) late d"
    and check: "get_check d n \<noteq> None"
  shows "driver_inv hw limit exempt late (driver_feed pf (FailedEvent n st member reason) d)"
proof (rule driver_inv_exempt)
  let ?d = "driver_feed pf (FailedEvent n st member reason) d"
  show "driver_inv hw limit (\<lambda>m c. m = n \<or> exempt m c) late ?d"
    by (rule driver_feed_plain(1) [OF room inv]) simp
  fix m c assume low: "dv_fed ?d < limit" and c: "get_check ?d m = Some c" and m: "m = n \<or> exempt m c"
  have "dv_fed d + 1 < limit" using low by simp
  from failed_attempt_gone [OF room inv this check] c have "m \<noteq> n" by auto
  with m show "exempt m c \<or> waits (dv_tasks ?d) (dv_scanning ?d) m c" by simp
qed

section \<open>Changing a check\<close>

lemma put_check_simps [simp]:
  "get_check (put_check n c d) m = (if m = n then Some c else get_check d m)"
  "dv_selector (put_check n c d) = dv_selector d" "dv_document (put_check n c d) = dv_document d"
  "dv_fed (put_check n c d) = dv_fed d" "dv_tasks (put_check n c d) = dv_tasks d"
  "dv_scanning (put_check n c d) = dv_scanning d" "dv_checks (put_check n c d) = bt_insert n c (dv_checks d)"
  "dv_links (put_check n c d) = dv_links d" "dv_stations (put_check n c d) = dv_stations d"
  by (simp_all add: put_check_def get_check_def)

text \<open>The same attempt, wherever it stands.\<close>

definition same_attempt :: "link_check \<Rightarrow> link_check \<Rightarrow> bool" where
  "same_attempt c c' \<longleftrightarrow> ck_attempt c' = ck_attempt c \<and> ck_candidate c' = ck_candidate c \<and> ck_interface c' = ck_interface c"

lemma mirrors_put:
  assumes "mirrors s checks" and "bt_get checks n = Some c" and "same_attempt c c'" and "ck_at c' = ck_at c"
  shows "mirrors s (bt_insert n c' checks)"
  using assms unfolding mirrors_def checks_of_def check_of_def same_attempt_def by auto

lemma all_wait_put:
  assumes "all_wait exempt d" and "get_check d n = Some c" and "check_fits c \<Longrightarrow> check_fits c'"
  shows "all_wait (\<lambda>m k. m = n \<or> exempt m k) (put_check n c' d)"
  using assms unfolding all_wait_def by auto

lemma driver_inv_put:
  assumes inv: "driver_inv hw limit exempt late d" and c: "get_check d n = Some c"
    and same: "same_attempt c c'" "ck_at c' = ck_at c" and fits: "check_fits c \<Longrightarrow> check_fits c'"
  shows "driver_inv hw limit (\<lambda>m k. m = n \<or> exempt m k) late (put_check n c' d)"
  using inv mirrors_put [OF _ c [unfolded get_check_def] same] all_wait_put [OF _ c fits]
  by (simp add: driver_inv_def driver_core_def scans_run_def)

text \<open>An attempt that passed the stage it is at, in the selector as in its check.\<close>

lemma mirrors_passed:
  assumes s: "attempts_ok s" "bt_ok (se_held s)" and mirror: "mirrors s checks" and c: "bt_get checks n = Some c"
    and at: "ck_at c = Some st" "st \<noteq> Carrier" and same: "same_attempt c c'" "ck_at c' = stage_next st True"
  shows "mirrors (observe (PassedEvent n st) s) (bt_insert n c' checks)"
proof -
  from mirrors_check [OF mirror c] obtain h where h: "bt_get (se_held s) (ck_interface c) = Some h" "attempt_of h = n"
    "candidate_of h = ck_candidate c" "hd_at h = ck_at c" "ck_attempt c = n" by blast
  let ?i = "ck_interface c"
  have "find_attempt n (se_held s) = Some (?i, h)" using find_attempt_is [OF s h(1)] h(2) by simp
  moreover have "stage_next st (is_wireless (at_kind (cands s ! candidate_of h))) = stage_next st True"
    using at(2) by (cases st) auto
  ultimately have t: "se_held (observe (PassedEvent n st) s) = bt_insert ?i (h\<lparr>hd_at := stage_next st True\<rparr>) (se_held s)"
    using h(4) at(1) by (simp add: on_passed_def)
  have other: "ck_interface k \<noteq> ?i" if "bt_get checks m = Some k" "m \<noteq> n" for m k
    using mirrors_check [OF mirror that(1)] h that(2) by (metis option.inject)
  have checks: "bt_ok checks" "\<And>m k. bt_get checks m = Some k \<Longrightarrow> check_of s m k"
    and all: "\<And>i h. bt_get (se_held s) i = Some h \<Longrightarrow> bt_has checks (attempt_of h)"
    using mirror by (simp_all add: mirrors_def checks_of_def)
  have mine: "check_of (observe (PassedEvent n st) s) n c'"
    using same h by (simp add: check_of_def t same_attempt_def del: observe.simps)
  have others: "check_of (observe (PassedEvent n st) s) m k" if "bt_get checks m = Some k" "m \<noteq> n" for m k
    using checks(2) [OF that(1)] other [OF that] by (simp add: check_of_def t del: observe.simps)
  show ?thesis
    unfolding mirrors_def checks_of_def
  proof (intro conjI allI impI)
    show "bt_ok (bt_insert n c' checks)" using checks(1) by simp
    fix m k assume "bt_get (bt_insert n c' checks) m = Some k"
    then show "check_of (observe (PassedEvent n st) s) m k"
      using mine others by (auto simp del: observe.simps split: if_splits)
  next
    fix i k assume "bt_get (se_held (observe (PassedEvent n st) s)) i = Some k"
    then show "bt_has (bt_insert n c' checks) (attempt_of k)"
      using all h(2) by (auto simp: t simp del: observe.simps split: if_splits)
  qed
qed

lemma driver_feed_passed:
  assumes room: "room_for hw limit" and inv: "driver_inv hw limit exempt late d" and c: "get_check d n = Some c"
    and at: "ck_at c = Some st" "st \<noteq> Carrier" and same: "same_attempt c c'" "ck_at c' = stage_next st True"
    and fits: "check_fits c \<Longrightarrow> check_fits c' \<and> P c'"
  shows "driver_inv hw limit (\<lambda>m k. m = n \<or> exempt m k) late (driver_feed pf (PassedEvent n st) (put_check n c' d))"
    and "of_check limit n P (driver_feed pf (PassedEvent n st) (put_check n c' d))"
proof -
  let ?d = "put_check n c' d"
  have ready: "feed_ready hw limit (\<lambda>m k. m = n \<or> exempt m k) late (PassedEvent n st) ?d"
    unfolding feed_ready_def
  proof (intro impI)
    assume "dv_fed ?d + 1 < limit"
    then have d: "driver_core hw d" "mirrors (dv_selector d) (dv_checks d)" "all_wait exempt d" "scans_run late d"
      using inv by (simp_all add: driver_inv_def)
    then have "attempts_ok (dv_selector d)" "bt_ok (se_held (dv_selector d))"
      by (simp_all add: driver_core_def at_rest_def sound_def)
    from mirrors_passed [OF this d(2) c [unfolded get_check_def] at same] d all_wait_put [OF d(3) c, of c'] fits
    show "driver_core hw ?d \<and> mirrors (observe (PassedEvent n st) (dv_selector ?d)) (dv_checks ?d) \<and>
        all_wait (\<lambda>m k. m = n \<or> exempt m k) ?d \<and> scans_run late ?d"
      by (simp add: driver_core_def scans_run_def del: observe.simps)
  qed
  show "driver_inv hw limit (\<lambda>m k. m = n \<or> exempt m k) late (driver_feed pf (PassedEvent n st) ?d)"
    by (rule driver_feed_inv(1) [OF room ready])
  have "of_check limit n P ?d"
    using inv c fits by (auto simp: of_check_def driver_inv_def all_wait_def)
  then show "of_check limit n P (driver_feed pf (PassedEvent n st) ?d)"
    by (rule driver_feed_inv(2) [OF room ready])
qed

section \<open>Deadlines\<close>

lemma driver_inv_spawn: "driver_inv hw limit exempt late d \<Longrightarrow> driver_inv hw limit exempt late (driver_spawn task d)"
  by (rule only_starts_inv [rotated]) (auto simp: only_starts_def driver_spawn_def)

lemma driver_spawn_simps [simp]:
  "get_check (driver_spawn task d) n = get_check d n" "dv_fed (driver_spawn task d) = dv_fed d"
  "dv_tasks (driver_spawn task d) = dv_tasks d @ [task]" "dv_scanning (driver_spawn task d) = dv_scanning d"
  by (simp_all add: driver_spawn_def get_check_def)

lemma of_check_spawn: "of_check limit n P d \<Longrightarrow> of_check limit n P (driver_spawn task d)"
  by (simp add: of_check_def)

definition counts_down :: "link_check \<Rightarrow> bool" where
  "counts_down c \<longleftrightarrow> (ck_at c = Some Addressing \<or> ck_at c = Some Gateway) \<and> \<not> ck_probing c"

lemma driver_deadline_inv:
  assumes inv: "driver_inv hw limit (\<lambda>m k. m = n \<or> exempt m k) late d" and down: "of_check limit n counts_down d"
  shows "driver_inv hw limit exempt late (driver_deadline n after d)"
proof (cases "get_check d n")
  case None
  then have "driver_deadline n after d = d" by (simp add: driver_deadline_def)
  with None inv show ?thesis by (auto elim: driver_inv_exempt)
next
  case (Some c)
  let ?c = "c\<lparr>ck_timer := ck_timer c + 1\<rparr>"
  let ?d = "driver_spawn (DeadlineTask n (ck_timer ?c) after) (put_check n ?c d)"
  have eq: "driver_deadline n after d = ?d" by (simp add: driver_deadline_def Some Let_def)
  have "driver_inv hw limit (\<lambda>m k. m = n \<or> (m = n \<or> exempt m k)) late (put_check n ?c d)"
    by (rule driver_inv_put [OF inv Some]) (simp_all add: same_attempt_def check_fits_def)
  then have "driver_inv hw limit (\<lambda>m k. m = n \<or> exempt m k) late ?d"
    by (intro driver_inv_spawn) simp
  then show ?thesis
    unfolding eq
  proof (rule driver_inv_exempt)
    fix m k assume low: "dv_fed ?d < limit" and k: "get_check ?d m = Some k" "ck_armed k" and m: "m = n \<or> exempt m k"
    show "exempt m k \<or> waits (dv_tasks ?d) (dv_scanning ?d) m k"
    proof (cases "m = n")
      case True
      with k low down Some have "k = ?c" "counts_down c" by (auto simp: of_check_def)
      then show ?thesis by (auto simp: True waits_def counts_down_def)
    qed (use m in simp)
  qed
qed

lemma address_deadline_inv:
  assumes "driver_inv hw limit (\<lambda>m k. m = n \<or> exempt m k) late d" and "of_check limit n counts_down d"
  shows "driver_inv hw limit exempt late (address_deadline n d)"
proof (cases "get_check d n")
  case None
  with assms(1) show ?thesis by (auto simp: address_deadline_def elim: driver_inv_exempt)
next
  case (Some c)
  with driver_deadline_inv [OF assms] show ?thesis by (simp add: address_deadline_def)
qed

section \<open>Moving an attempt on\<close>

lemma driver_inv_drop:
  "driver_inv hw limit (\<lambda>m k. m = n \<or> exempt m k) late d \<Longrightarrow> get_check d n = None \<Longrightarrow> driver_inv hw limit exempt late d"
  by (erule driver_inv_exempt) auto

text \<open>The attempts exempt but one, whose check is known to wait.\<close>

lemma driver_inv_waits:
  assumes "driver_inv hw limit (\<lambda>m k. m = n \<or> exempt m k) late d"
    and "of_check limit n (waits (dv_tasks d) (dv_scanning d) n) d"
  shows "driver_inv hw limit exempt late d"
  using assms(1) by (rule driver_inv_exempt) (use assms(2) in \<open>auto simp: of_check_def\<close>)

lemma evaluate_once_inv:
  assumes room: "room_for hw limit" and inv: "driver_inv hw limit exempt late d"
  shows "driver_inv hw limit exempt late (snd (evaluate_once pf n d))"
proof (cases "get_check d n")
  case None
  with inv show ?thesis by (simp add: evaluate_once_def)
next
  case (Some c)
  consider (idle) "snd (evaluate_once pf n d) = d"
    | (lost) reason where "snd (evaluate_once pf n d) = driver_feed pf (FailedEvent n Addressing [] reason) d"
    | (held) "ck_at c = Some Addressing" "snd (evaluate_once pf n d) = driver_deadline n ROUTE
        (driver_feed pf (PassedEvent n Addressing) (put_check n (c\<lparr>ck_at := Some Gateway, ck_timer := ck_timer c + 1\<rparr>) d))"
    | (probe) source gateway where "ck_at c = Some Gateway" "ck_armed c"
        "snd (evaluate_once pf n d) = driver_spawn (ProbeTask n (ck_interface c) source gateway)
          (put_check n (c\<lparr>ck_probing := True, ck_timer := ck_timer c + 1\<rparr>) d)"
  proof (cases "ck_armed c")
    case False
    then show thesis by (intro that(1)) (simp add: evaluate_once_def Some)
  next
    case armed: True
    show thesis
    proof (cases "ck_at c")
      case None
      with armed show thesis
        by (cases "check_held c (dv_links d) = []"; intro that(1,2)) (simp_all add: evaluate_once_def Some)
    next
      case (Some st)
      show thesis
      proof (cases st)
        case Addressing
        with armed Some \<open>get_check d n = Some c\<close> that(1,3) show thesis
          by (cases "check_held c (dv_links d) = []") (simp_all add: evaluate_once_def Let_def)
      next
        case Gateway
        with armed Some \<open>get_check d n = Some c\<close> that(1,4) show thesis
          by (cases "ck_probing c"; cases "check_gateway c (dv_links d)") (auto simp: evaluate_once_def)
      qed (use armed Some \<open>get_check d n = Some c\<close> that(1) in \<open>simp_all add: evaluate_once_def\<close>)
    qed
  qed
  then show ?thesis
  proof cases
    case idle
    with inv show ?thesis by simp
  next
    case lost
    show ?thesis unfolding lost by (rule driver_feed_plain(1) [OF room inv]) simp
  next
    case held
    let ?c = "c\<lparr>ck_at := Some Gateway, ck_timer := ck_timer c + 1\<rparr>"
    have same: "same_attempt c ?c" "ck_at ?c = stage_next Addressing True" "Addressing \<noteq> Carrier"
      by (simp_all add: same_attempt_def)
    show ?thesis
    proof (cases "ck_armed c")
      case True
      then have fits: "check_fits c \<Longrightarrow> check_fits ?c \<and> counts_down ?c"
        using held(1) by (simp add: check_fits_def counts_down_def)
      note passed = driver_feed_passed [where P = counts_down, OF room inv Some held(1) same(3,1,2) fits, of pf]
      show ?thesis unfolding held(2) by (rule driver_deadline_inv [OF passed])
    next
      case False
      then have "snd (evaluate_once pf n d) = d" by (simp add: evaluate_once_def Some)
      with inv show ?thesis by simp
    qed
  next
    case probe
    let ?c = "c\<lparr>ck_probing := True, ck_timer := ck_timer c + 1\<rparr>"
    let ?task = "ProbeTask n (ck_interface c) source gateway"
    have "driver_inv hw limit (\<lambda>m k. m = n \<or> exempt m k) late (put_check n ?c d)"
      by (rule driver_inv_put [OF inv Some]) (use probe in \<open>auto simp: same_attempt_def check_fits_def\<close>)
    then have "driver_inv hw limit (\<lambda>m k. m = n \<or> exempt m k) late (driver_spawn ?task (put_check n ?c d))"
      by (rule driver_inv_spawn)
    then show ?thesis
      unfolding probe(3) by (rule driver_inv_waits) (use probe(1) in \<open>auto simp: of_check_def waits_def\<close>)
  qed
qed

lemma driver_evaluate_inv:
  assumes "room_for hw limit" and "driver_inv hw limit exempt late d"
  shows "driver_inv hw limit exempt late (driver_evaluate pf n d)"
  using evaluate_once_inv [OF assms(1)] assms(2)
  by (simp add: driver_evaluate_def case_prod_unfold Let_def)

lemma evaluate_all_inv:
  assumes "room_for hw limit"
  shows "driver_inv hw limit exempt late d \<Longrightarrow> driver_inv hw limit exempt late (fold (driver_evaluate pf) ns d)"
  by (induction ns arbitrary: d) (simp_all add: driver_evaluate_inv [OF assms])

abbreviation none_exempt :: "attempt \<Rightarrow> link_check \<Rightarrow> bool" where
  "none_exempt \<equiv> (\<lambda>_ _. False)"

lemma driver_probed_inv:
  assumes room: "room_for hw limit"
    and inv: "driver_inv hw limit (\<lambda>m c. m = n \<and> ck_at c = Some Gateway) late d"
  shows "driver_inv hw limit none_exempt late (driver_probed pf n result d)"
proof (cases "get_check d n")
  case None
  with inv show ?thesis by (auto simp: driver_probed_def elim: driver_inv_exempt)
next
  case (Some c)
  let ?c = "c\<lparr>ck_probing := False\<rparr>"
  let ?d = "put_check n ?c d"
  have put: "driver_inv hw limit (\<lambda>m k. m = n \<or> m = n \<and> ck_at k = Some Gateway) late ?d"
    by (rule driver_inv_put [OF inv Some]) (auto simp: same_attempt_def check_fits_def)
  then have put': "driver_inv hw limit (\<lambda>m k. m = n \<or> False) late ?d" by (rule driver_inv_exempt) auto
  show ?thesis
  proof (cases "ck_at c = Some Gateway")
    case False
    then have eq: "driver_probed pf n result d = ?d" by (simp add: driver_probed_def Some Let_def)
    have "of_check limit n (waits (dv_tasks ?d) (dv_scanning ?d) n) ?d"
      using inv Some False by (auto simp: of_check_def driver_inv_def all_wait_def waits_def split: option.splits stage.splits)
    with put' show ?thesis unfolding eq by (rule driver_inv_waits)
  next
    case at: True
    show ?thesis
    proof (cases result)
      case (Inl reason)
      then have "driver_probed pf n result d = driver_feed pf (FailedEvent n Gateway [] reason) ?d"
        using at by (simp add: driver_probed_def Some Let_def)
      then show ?thesis using driver_feed_failed [OF room put'] by simp
    next
      case (Inr u)
      have eq: "driver_probed pf n result d = driver_feed pf (PassedEvent n Gateway) (put_check n (?c\<lparr>ck_at := None\<rparr>) ?d)"
        using at Inr by (simp add: driver_probed_def Some Let_def)
      have c: "get_check ?d n = Some ?c" by simp
      have same: "same_attempt ?c (?c\<lparr>ck_at := None\<rparr>)" "ck_at (?c\<lparr>ck_at := None\<rparr>) = stage_next Gateway True"
        "Gateway \<noteq> Carrier" "ck_at ?c = Some Gateway"
        using at by (simp_all add: same_attempt_def)
      have fits: "check_fits ?c \<Longrightarrow> check_fits (?c\<lparr>ck_at := None\<rparr>) \<and> ck_at (?c\<lparr>ck_at := None\<rparr>) = None"
        by (simp add: check_fits_def)
      note passed = driver_feed_passed [where P = "\<lambda>k. ck_at k = None", OF room put' c same(4,3,1,2) fits, of pf, folded eq]
      have "of_check limit n (waits (dv_tasks (driver_probed pf n result d)) (dv_scanning (driver_probed pf n result d)) n)
          (driver_probed pf n result d)"
        using passed(2) by (rule of_check_mono) (simp_all add: waits_def)
      from driver_inv_waits [OF _ this, of hw "\<lambda>m k. False" late] passed(1) show ?thesis by simp
    qed
  qed
qed

lemma deadline_passed_inv:
  assumes room: "room_for hw limit"
    and inv: "driver_inv hw limit (\<lambda>m c. m = n \<and> ck_timer c = timer \<and> counts_down c) late d"
  shows "driver_inv hw limit none_exempt late (deadline_passed pf n timer d)"
proof (cases "get_check d n")
  case None
  with inv show ?thesis by (auto simp: deadline_passed_def elim: driver_inv_exempt)
next
  case (Some c)
  show ?thesis
  proof (cases "ck_timer c = timer \<and> counts_down c")
    case True
    then obtain st reason where "deadline_passed pf n timer d = driver_feed pf (FailedEvent n st [] reason) d"
      by (auto simp: deadline_passed_def Some counts_down_def)
    moreover have "driver_inv hw limit (\<lambda>m k. m = n \<or> False) late d" using inv by (rule driver_inv_exempt) auto
    ultimately show ?thesis using driver_feed_failed [OF room] Some by simp
  next
    case False
    then have "deadline_passed pf n timer d = d"
      by (auto simp: deadline_passed_def Some counts_down_def split: option.split stage.split)
    with inv Some False show ?thesis by (auto elim: driver_inv_exempt)
  qed
qed

section \<open>Joining keeps it\<close>

text \<open>The attempt whose join, or the scan after it, has ended.\<close>

definition joins_now :: "attempt \<Rightarrow> attempt \<Rightarrow> link_check \<Rightarrow> bool" where
  "joins_now n m c \<longleftrightarrow> m = n \<and> ck_at c = Some Association"

lemma joins_now_wide:
  "driver_inv hw limit (\<lambda>m c. joins_now n m c \<or> exempt m c) late d \<Longrightarrow>
     driver_inv hw limit (\<lambda>m c. m = n \<or> exempt m c) late d"
  by (erule driver_inv_exempt) (auto simp: joins_now_def)

lemma joins_now_past:
  assumes "driver_inv hw limit (\<lambda>m c. joins_now n m c \<or> exempt m c) late d"
    and "\<And>c. get_check d n = Some c \<Longrightarrow> check_fits c \<Longrightarrow> ck_at c = Some Association \<Longrightarrow> waits (dv_tasks d) (dv_scanning d) n c"
  shows "driver_inv hw limit exempt late d"
  using assms(1) by (rule driver_inv_exempt) (use assms(2) in \<open>auto simp: joins_now_def\<close>)

lemma driver_rescanned_inv:
  assumes room: "room_for hw limit" and inv: "driver_inv hw limit (\<lambda>m c. joins_now n m c \<or> exempt m c) late d"
  shows "driver_inv hw limit exempt late (driver_rescanned pf n d)"
proof (cases "\<exists>c j. get_check d n = Some c \<and> ck_at c = Some Association \<and> ck_joining c = Some j")
  case True
  then obtain c member reason where c: "get_check d n = Some c"
    and eq: "driver_rescanned pf n d = driver_feed pf (FailedEvent n Association member reason) d"
    by (auto simp: driver_rescanned_def case_prod_unfold Let_def)
  with driver_feed_failed [OF room joins_now_wide [OF inv]] show ?thesis by simp
next
  case False
  then have "driver_rescanned pf n d = d"
    by (auto simp: driver_rescanned_def split: option.split)
  moreover have "driver_inv hw limit exempt late d"
    by (rule joins_now_past [OF inv]) (use False in \<open>auto simp: check_fits_def\<close>)
  ultimately show ?thesis by simp
qed

lemma station_channel_inv:
  assumes room: "room_for hw limit" and inv: "driver_inv hw limit exempt late d"
  shows "driver_inv hw limit exempt late (station_channel pf i f d)"
    and "of_check limit n P d \<Longrightarrow> of_check limit n P (station_channel pf i f d)"
  using driver_feed_plain [OF room inv] driver_inv_spawn [OF inv] of_check_spawn
  by (simp_all add: station_channel_def split: option.split)

lemma driver_act_inv:
  "driver_inv hw limit exempt late d \<Longrightarrow> driver_inv hw limit exempt late (driver_act a d)"
  by (rule only_starts_inv [rotated]) (auto simp: only_starts_def driver_act_def)

lemma driver_inv_joined:
  "driver_inv hw limit exempt late d \<Longrightarrow> driver_inv hw limit exempt late (d\<lparr>dv_joined := js\<rparr>)"
  by (rule only_starts_inv [rotated]) (auto simp: only_starts_def)

lemma put_check_joined: "(put_check n c d)\<lparr>dv_joined := js\<rparr> = put_check n c (d\<lparr>dv_joined := js\<rparr>)"
  by (cases d) (simp add: put_check_def)

lemma put_check_joins [simp]: "dv_joined (put_check n c d) = dv_joined d"
  by (simp add: put_check_def)

lemma driver_associated_inv:
  assumes room: "room_for hw limit" and inv: "driver_inv hw limit (\<lambda>m c. joins_now n m c \<or> exempt m c) late d"
  shows "driver_inv hw limit exempt late (driver_associated pf n result d)"
proof (cases "\<exists>c j. get_check d n = Some c \<and> ck_at c = Some Association \<and> ck_joining c = Some j")
  case False
  then have "driver_associated pf n result d = d"
    by (auto simp: driver_associated_def split: option.split)
  moreover have "driver_inv hw limit exempt late d"
    by (rule joins_now_past [OF inv]) (use False in \<open>auto simp: check_fits_def\<close>)
  ultimately show ?thesis by simp
next
  case True
  then obtain c j where c: "get_check d n = Some c" "ck_at c = Some Association" "ck_joining c = Some j" by blast
  note wide = joins_now_wide [OF inv]
  show ?thesis
  proof (cases result)
    case (Inl reason)
    show ?thesis
    proof (cases "join_refused reason")
      case False
      then have "driver_associated pf n result d = driver_feed pf (FailedEvent n Association [] reason) d"
        by (simp add: driver_associated_def c Inl)
      with driver_feed_failed [OF room wide] c show ?thesis by simp
    next
      case refused: True
      show ?thesis
      proof (cases "list_ex (\<lambda>radio. pr_station radio = ck_interface c \<and> pr_scan radio) (dv_probed d)")
        case True
        then have eq: "driver_associated pf n result d = driver_spawn (ScanTask (ck_interface c) (RefusedScan n)) d"
          using refused by (simp add: driver_associated_def c Inl driver_scan_def)
        show ?thesis
          unfolding eq by (rule joins_now_past [OF driver_inv_spawn [OF inv]]) (auto simp: waits_def)
      next
        case False
        then have "driver_associated pf n result d = driver_rescanned pf n d"
          using refused by (simp add: driver_associated_def c Inl)
        with driver_rescanned_inv [OF room inv] show ?thesis by simp
      qed
    qed
  next
    case (Inr net)
    show ?thesis
    proof (cases "jn_sae j \<and> \<not> by_sae net")
      case True
      then obtain reason where "driver_associated pf n result d =
          driver_feed pf (FailedEvent n Association [] reason) (driver_act (Disconnects (ck_interface c)) d)"
        by (simp add: driver_associated_def c Inr)
      with driver_feed_failed [OF room driver_act_inv [OF wide]] c show ?thesis by (simp add: driver_act_simps)
    next
      case False
      let ?c = "c\<lparr>ck_at := Some Addressing\<rparr>"
      define js where "js = bt_insert (ck_interface c) net (dv_joined d)"
      define e where "e = driver_feed pf (PassedEvent n Association) (put_check n ?c (d\<lparr>dv_joined := js\<rparr>))"
      have eq: "driver_associated pf n result d =
          driver_evaluate pf n (address_deadline n (station_channel pf (ck_interface c) (jo_frequency net) e))"
        using False
        by (auto simp add: driver_associated_def Inr c Let_def e_def js_def put_check_joined)
      have same: "same_attempt c ?c" "ck_at ?c = stage_next Association True" "Association \<noteq> Carrier"
        by (simp_all add: same_attempt_def)
      have fits: "check_fits c \<Longrightarrow> check_fits ?c \<and> counts_down ?c"
        using c(2) by (auto simp: check_fits_def counts_down_def)
      have c': "get_check (d\<lparr>dv_joined := js\<rparr>) n = Some c" using c(1) by (simp add: get_check_def)
      note passed = driver_feed_passed [where P = counts_down, OF room driver_inv_joined [OF wide, of js] c' c(2) same(3,1,2) fits,
          of pf, folded e_def]
      have e: "driver_inv hw limit (\<lambda>m k. m = n \<or> exempt m k) late e"
        by (rule driver_inv_exempt [OF passed(1)]) auto
      note channel = station_channel_inv [OF room e, where pf = pf and i = "ck_interface c" and f = "jo_frequency net"]
      show ?thesis
        unfolding eq by (intro driver_evaluate_inv [OF room] address_deadline_inv channel passed(2))
    qed
  qed
qed

lemma driver_associate_inv:
  assumes room: "room_for hw limit" and inv: "driver_inv hw limit (\<lambda>m c. joins_now n m c \<or> exempt m c) late d"
  shows "driver_inv hw limit exempt late (driver_associate pf n d)"
proof -
  have spawned: "driver_inv hw limit exempt late (driver_spawn (JoinTask n i target) d)" for i target
    by (rule joins_now_past [OF driver_inv_spawn [OF inv]]) (auto simp: waits_def)
  have idle: "driver_inv hw limit exempt late d" if "\<forall>c. get_check d n = Some c \<longrightarrow> ck_joining c = None"
    by (rule joins_now_past [OF inv]) (use that in \<open>auto simp: check_fits_def\<close>)
  show ?thesis
    using spawned idle driver_associated_inv [OF room inv, of pf]
    by (auto simp: driver_associate_def split: option.split station.split)
qed

lemma driver_arm_inv:
  assumes room: "room_for hw limit" and inv: "driver_inv hw limit exempt late d"
  shows "driver_inv hw limit exempt late (driver_arm pf n d)"
proof (cases "\<exists>c. get_check d n = Some c \<and> \<not> ck_armed c")
  case False
  then have "driver_arm pf n d = d" by (auto simp: driver_arm_def split: option.split)
  with inv show ?thesis by simp
next
  case True
  then obtain c where c: "get_check d n = Some c" "\<not> ck_armed c" by blast
  let ?c = "c\<lparr>ck_armed := True\<rparr>"
  let ?d = "put_check n ?c d"
  have put: "driver_inv hw limit (\<lambda>m k. m = n \<or> exempt m k) late ?d"
    by (rule driver_inv_put [OF inv c(1)]) (auto simp: same_attempt_def check_fits_def)
  have fits: "dv_fed d < limit \<Longrightarrow> check_fits c" using inv c(1) by (auto simp: driver_inv_def all_wait_def)
  show ?thesis
  proof (cases "ck_at c = Some Association")
    case at: True
    show ?thesis
    proof (cases "bt_has (dv_scanning d) (ck_interface c)")
      case True
      let ?c' = "?c\<lparr>ck_awaiting_scan := True\<rparr>"
      have eq: "driver_arm pf n d = put_check n ?c' ?d"
        using True at c by (simp add: driver_arm_def Let_def)
      have "driver_inv hw limit (\<lambda>m k. m = n \<or> (m = n \<or> exempt m k)) late (put_check n ?c' ?d)"
        by (rule driver_inv_put [OF put, of n ?c]) (auto simp: same_attempt_def check_fits_def)
      then have "driver_inv hw limit (\<lambda>m k. m = n \<or> exempt m k) late (put_check n ?c' ?d)" by simp
      then show ?thesis
        unfolding eq by (rule driver_inv_waits) (use True at in \<open>auto simp: of_check_def waits_def\<close>)
    next
      case False
      then have eq: "driver_arm pf n d = driver_associate pf n ?d"
        using at c by (simp add: driver_arm_def Let_def)
      have "driver_inv hw limit (\<lambda>m k. joins_now n m k \<or> exempt m k) late ?d"
        by (rule driver_inv_exempt [OF put]) (use at in \<open>auto simp: joins_now_def\<close>)
      then show ?thesis unfolding eq by (rule driver_associate_inv [OF room])
    qed
  next
    case notjoin: False
    show ?thesis
    proof (cases "ck_at c = Some Addressing")
      case True
      then have eq: "driver_arm pf n d = driver_evaluate pf n (address_deadline n ?d)"
        using c by (simp add: driver_arm_def Let_def)
      have "of_check limit n counts_down ?d"
        using fits True c(2) by (auto simp: of_check_def counts_down_def check_fits_def)
      then show ?thesis
        unfolding eq by (intro driver_evaluate_inv [OF room] address_deadline_inv put)
    next
      case False
      then have eq: "driver_arm pf n d = driver_evaluate pf n ?d"
        using notjoin c by (simp add: driver_arm_def Let_def split: option.split stage.split)
      have "of_check limit n (waits (dv_tasks ?d) (dv_scanning ?d) n) ?d"
        using fits False notjoin c(2)
        by (auto simp: of_check_def waits_def check_fits_def split: option.split stage.split)
      with put have "driver_inv hw limit exempt late ?d" by (rule driver_inv_waits)
      then show ?thesis unfolding eq by (rule driver_evaluate_inv [OF room])
    qed
  qed
qed

section \<open>Observations keep it\<close>

text \<open>A change of every check that leaves the attempts where they are.\<close>

lemma mirrors_map:
  assumes mirror: "mirrors s checks" and same: "\<And>c. same_attempt c (f c) \<and> ck_at (f c) = ck_at c"
  shows "mirrors s (map (\<lambda>(n, c). (n, f c)) checks)"
proof -
  have get: "bt_get (map (\<lambda>(n, c). (n, f c)) checks) n = map_option f (bt_get checks n)" for n
    using bt_get_map_snd [of "\<lambda>_. f" checks n] by simp
  have ok: "bt_ok (map (\<lambda>(n, c). (n, f c)) checks) \<longleftrightarrow> bt_ok checks"
    using bt_ok_map_snd [of "\<lambda>_. f" checks] by simp
  have "check_of s n (f c) \<longleftrightarrow> check_of s n c" for n c
    using same [of c] by (simp add: check_of_def same_attempt_def)
  then show ?thesis
    using mirror unfolding mirrors_def checks_of_def ok get bt_has_def by auto
qed

lemma driver_inv_map:
  assumes inv: "driver_inv hw limit exempt late d"
    and same: "\<And>c. same_attempt c (f c) \<and> ck_at (f c) = ck_at c"
    and fits: "\<And>c. check_fits c \<Longrightarrow> check_fits (f c) \<and> (ck_armed (f c) \<longrightarrow> ck_armed c)"
    and waiting: "\<And>n c. get_check d n = Some c \<Longrightarrow>
      exempt n c \<or> waits (dv_tasks d) (dv_scanning d) n c \<Longrightarrow> exempt' n (f c) \<or> waits (dv_tasks d) (dv_scanning d) n (f c)"
    and d': "dv_checks d' = map (\<lambda>(n, c). (n, f c)) (dv_checks d)" "dv_selector d' = dv_selector d"
      "dv_document d' = dv_document d" "dv_fed d' = dv_fed d" "dv_tasks d' = dv_tasks d" "dv_scanning d' = dv_scanning d"
  shows "driver_inv hw limit exempt' late d'"
proof -
  have get: "get_check d' n = map_option f (get_check d n)" for n
    using bt_get_map_snd [of "\<lambda>_. f" "dv_checks d" n] by (simp add: get_check_def d'(1))
  have "all_wait exempt d \<Longrightarrow> all_wait exempt' d'"
    unfolding all_wait_def get d'(5,6) using fits waiting by fastforce
  with inv mirrors_map [OF _ same] show ?thesis
    by (simp add: driver_inv_def driver_core_def scans_run_def d')
qed

lemma announced_same:
  "same_attempt c (check_announced obs c) \<and> ck_at (check_announced obs c) = ck_at c"
  "ck_armed (check_announced obs c) = ck_armed c" "ck_timer (check_announced obs c) = ck_timer c"
  "ck_probing (check_announced obs c) = ck_probing c" "ck_joining (check_announced obs c) = ck_joining c"
  "ck_awaiting_scan (check_announced obs c) = ck_awaiting_scan c" "ck_interface (check_announced obs c) = ck_interface c"
  by (cases "(obs, c)" rule: check_announced.cases; simp add: same_attempt_def)+

lemma announced_waits: "waits tasks scanning n (check_announced obs c) = waits tasks scanning n c"
  unfolding waits_def announced_same(2-) conjunct2 [OF announced_same(1)] ..

lemma take_link_observation_inv:
  assumes room: "room_for hw limit" and inv: "driver_inv hw limit none_exempt late d"
  shows "driver_inv hw limit none_exempt late (take_link_observation pf obs d)"
proof (cases "links_observe obs (dv_links d)")
  case (Pair concerned ls)
  show ?thesis
  proof (cases concerned)
    case None
    with Pair inv show ?thesis by (simp add: take_link_observation_def)
  next
    case (Some i)
    let ?f = "\<lambda>c. if ck_interface c = i then check_announced obs c else c"
    let ?d = "d\<lparr>dv_links := ls, dv_checks := map (\<lambda>(n, c). (n, ?f c)) (dv_checks d)\<rparr>"
    have "driver_inv hw limit none_exempt late ?d"
    proof (rule driver_inv_map [OF inv, of ?f])
      fix c
      show "same_attempt c (?f c) \<and> ck_at (?f c) = ck_at c"
        using announced_same(1) by (simp add: same_attempt_def)
      show "check_fits c \<Longrightarrow> check_fits (?f c) \<and> (ck_armed (?f c) \<longrightarrow> ck_armed c)"
        using announced_same(1) by (auto simp: check_fits_def announced_same(2-))
      fix n
      show "False \<or> waits (dv_tasks d) (dv_scanning d) n c \<Longrightarrow> False \<or> waits (dv_tasks d) (dv_scanning d) n (?f c)"
        by (simp add: announced_waits)
    qed simp_all
    from evaluate_all_inv [OF room this] show ?thesis
      by (simp add: take_link_observation_def Pair Some Let_def)
  qed
qed

lemma feed_all_inv:
  assumes "room_for hw limit" and "\<And>x. \<not> is_passed (e x)"
  shows "driver_inv hw limit exempt late d \<Longrightarrow> driver_inv hw limit exempt late (fold (\<lambda>x. driver_feed pf (e x)) xs d)"
  by (induction xs arbitrary: d) (simp_all add: driver_feed_plain(1) [OF assms(1)] assms(2))

lemma driver_heard_inv:
  assumes room: "room_for hw limit" and inv: "driver_inv hw limit exempt late d"
  shows "driver_inv hw limit exempt late (driver_heard pf i networks scanned d)"
proof -
  have heard: "driver_inv hw limit exempt late (d\<lparr>dv_heard := h\<rparr>)" for h
    using inv by (rule only_starts_inv [rotated]) (simp add: only_starts_def)
  have out: "driver_inv hw limit exempt late (fold (\<lambda>ssid. driver_feed pf (OutOfRangeEvent i ssid)) xs (d\<lparr>dv_heard := h\<rparr>))" for xs h
    by (rule feed_all_inv [OF room _ heard]) simp
  have each: "(\<lambda>(ssid, signal). driver_feed pf (InRangeEvent i ssid signal)) =
      (\<lambda>x. driver_feed pf (InRangeEvent i (fst x) (snd x)))" by (simp add: case_prod_unfold)
  have pre: "driver_inv hw limit exempt late (if scanned then fold (\<lambda>ssid. driver_feed pf (OutOfRangeEvent i ssid)) xs (d\<lparr>dv_heard := h\<rparr>)
      else d\<lparr>dv_heard := h\<rparr>)" for xs h
    using out heard by (rule if_split [THEN iffD2, OF conjI, OF impI impI])
  show ?thesis
    unfolding driver_heard_def Let_def each
    by (rule feed_all_inv [where e = "\<lambda>x. InRangeEvent i (fst x) (snd x)", OF room _ pre]) (simp only: is_passed.simps not_False_eq_True)
qed

lemma driver_station_inv:
  assumes room: "room_for hw limit" and inv: "driver_inv hw limit exempt late d"
  shows "driver_inv hw limit exempt late (driver_station pf i st d)"
proof -
  have recorded: "driver_inv hw limit exempt late (d\<lparr>dv_stations := s, dv_joined := js\<rparr>)"
      "driver_inv hw limit exempt late (d\<lparr>dv_stations := s\<rparr>)" for s js
    by (rule only_starts_inv [OF _ inv], simp add: only_starts_def)+
  define f where "f = d\<lparr>dv_stations := bt_insert i st (dv_stations d)\<rparr>"
  define e where "e = (case st of
      StationConnected net \<Rightarrow> f\<lparr>dv_joined := bt_insert i net (dv_joined f)\<rparr>
    | Disconnected \<Rightarrow> f\<lparr>dv_joined := bt_remove i (dv_joined f)\<rparr>
    | Busy \<Rightarrow> f)"
  have e: "driver_inv hw limit exempt late e" unfolding e_def f_def by (cases st) (simp_all add: recorded)
  then have bounced: "driver_inv hw limit exempt late (e\<lparr>dv_bounce := None\<rparr>)"
    by (rule only_starts_inv [rotated]) (simp add: only_starts_def)
  have rejoin: "driver_inv hw limit exempt late (driver_rejoin n f)" if "driver_inv hw limit exempt late f" for n f
    using driver_inv_spawn [OF that] that by (simp add: driver_rejoin_def split: option.split)
  have failed: "driver_inv hw limit exempt late (driver_feed pf (FailedEvent n st member reason) e)" for n st member reason
    by (rule driver_feed_plain(1) [OF room e]) simp
  have eq: "driver_station pf i st d =
      (case List.find (\<lambda>(_, c). associated_check i c) (dv_checks e) of
         None \<Rightarrow> e
       | Some (_, c) \<Rightarrow>
           (let ssid = (case ck_joining c of Some j \<Rightarrow> jt_ssid (jn_target j) | None \<Rightarrow> '''')
            in case st of
                 StationConnected net \<Rightarrow>
                   if jo_ssid net = ssid then station_channel pf i (jo_frequency net) e else e
               | Busy \<Rightarrow> e
               | Disconnected \<Rightarrow>
                   if dv_bounce e = Some i
                   then driver_rejoin (ck_attempt c) (e\<lparr>dv_bounce := None\<rparr>)
                   else driver_feed pf (FailedEvent (ck_attempt c) Association []
                     (i @ '' was disassociated from '' @ pf_quoted pf ssid)) e))"
    unfolding driver_station_def Let_def e_def f_def by (rule refl)
  show ?thesis
    unfolding eq Let_def
    using e bounced rejoin failed station_channel_inv(1) [OF room e]
    by (auto split: option.split prod.split station.split)
qed

lemma driver_reprobe_inv: "driver_inv hw limit exempt late d \<Longrightarrow> driver_inv hw limit exempt late (driver_reprobe d)"
  by (erule only_starts_inv [rotated]) (auto simp: only_starts_def driver_reprobe_def driver_spawn_def)

lemma driver_takes_inv:
  assumes room: "room_for hw limit" and inv: "driver_inv hw limit none_exempt late d"
  shows "driver_inv hw limit none_exempt late (driver_takes pf obs d)"
proof (cases obs)
  case (CarrierSeen i up)
  have "driver_inv hw limit none_exempt late (driver_feed pf (CarrierEvent i up) d)"
    by (rule driver_feed_plain(1) [OF room inv]) simp
  with CarrierSeen show ?thesis by simp
next
  case RegulatorySeen
  have "driver_inv hw limit none_exempt late (d\<lparr>dv_reprobe_again := True\<rparr>)"
    using inv by (rule only_starts_inv [rotated]) (simp add: only_starts_def)
  with RegulatorySeen driver_reprobe_inv [OF inv] show ?thesis by simp
qed (simp_all add: take_link_observation_inv [OF assms] driver_heard_inv [OF assms] driver_station_inv [OF assms])

section \<open>What only starts tasks\<close>

lemma only_starts_act: "only_starts d (driver_act a d)"
  by (simp add: only_starts_def driver_act_def)

lemma only_starts_spawn: "only_starts d (driver_spawn t d)"
  by (simp add: only_starts_def driver_spawn_def)

lemma only_starts_failed: "only_starts d (driver_failed f d)"
  by (simp add: driver_failed_def only_starts_def driver_act_def split: option.split)

lemma only_starts_kick: "only_starts d (driver_kick pf d)"
proof (cases "\<not> dv_configured d \<or> dv_wanted d \<le> dv_taken d \<or> dv_applying d")
  case True
  then show ?thesis by (simp add: driver_kick_def only_starts_refl)
next
  case False
  define e where "e = d\<lparr>dv_taken := dv_wanted d, dv_hotspot_scanning := hotspot_awaits_scan pf (d\<lparr>dv_taken := dv_wanted d\<rparr>)\<rparr>"
  have e: "only_starts d e" by (simp add: e_def only_starts_def)
  have "\<exists>s bar. driver_kick pf d =
      (case pf_render pf (dv_document e) s of
         Inl failure \<Rightarrow> driver_failed failure (e\<lparr>dv_done := dv_taken e\<rparr>)
       | Inr conf \<Rightarrow>
           (let e = (case bar of
                  Some reason \<Rightarrow>
                    driver_failed \<lparr>fl_at = path [Name ''hotspot''], fl_reason = reason, fl_reached = None\<rparr> e
                | None \<Rightarrow> e);
                beside = (case sl_hotspot s of
                    Some radio \<Rightarrow> if bt_has (sl_channels s) radio \<and> pf_shares_channel pf radio then Some radio else None
                  | None \<Rightarrow> None);
                e = e\<lparr>dv_bounce := (if conf \<noteq> None \<and> conf \<noteq> dv_hostapd e then beside else None),
                      dv_hostapd := conf, dv_applying := True\<rparr>
            in driver_spawn (ApplyTask (dv_taken e) (driver_attempts e) conf) e))"
    unfolding driver_kick_def Let_def if_not_P [OF False] e_def by (intro exI) (rule refl)
  then obtain s bar where eq: "driver_kick pf d =
      (case pf_render pf (dv_document e) s of
         Inl failure \<Rightarrow> driver_failed failure (e\<lparr>dv_done := dv_taken e\<rparr>)
       | Inr conf \<Rightarrow>
           (let e = (case bar of
                  Some reason \<Rightarrow>
                    driver_failed \<lparr>fl_at = path [Name ''hotspot''], fl_reason = reason, fl_reached = None\<rparr> e
                | None \<Rightarrow> e);
                beside = (case sl_hotspot s of
                    Some radio \<Rightarrow> if bt_has (sl_channels s) radio \<and> pf_shares_channel pf radio then Some radio else None
                  | None \<Rightarrow> None);
                e = e\<lparr>dv_bounce := (if conf \<noteq> None \<and> conf \<noteq> dv_hostapd e then beside else None),
                      dv_hostapd := conf, dv_applying := True\<rparr>
            in driver_spawn (ApplyTask (dv_taken e) (driver_attempts e) conf) e))" by blast
  have "only_starts e (e\<lparr>dv_done := x\<rparr>)" for x by (simp add: only_starts_def)
  then have failed: "only_starts e (driver_failed f (e\<lparr>dv_done := x\<rparr>))" for f x
    using only_starts_failed only_starts_trans by blast
  have barred: "only_starts e (case bar of Some reason \<Rightarrow> driver_failed (f reason) e | None \<Rightarrow> e)" for f
    using only_starts_failed only_starts_refl by (simp split: option.split)
  have set: "only_starts e (driver_spawn t (g\<lparr>dv_bounce := b, dv_hostapd := c, dv_applying := True\<rparr>))"
    if "only_starts e g" for t g b c
    using that by (auto simp: only_starts_def driver_spawn_def)
  have "only_starts e (driver_kick pf d)"
    unfolding eq Let_def using failed set [OF barred] by (simp split: sum.split)
  with e show ?thesis by (rule only_starts_trans)
qed

lemma only_starts_fold: "(\<And>x d. only_starts d (f x d)) \<Longrightarrow> only_starts d (fold f xs d)"
  by (induction xs arbitrary: d) (auto intro: only_starts_refl only_starts_trans)

lemma only_starts_settle: "only_starts d (driver_settle pf d)"
proof -
  have answer: "only_starts d (driver_answer pf d)" for d
    by (auto simp: driver_answer_def only_starts_def driver_act_def split: option.split pending_command.split)
  have retry: "only_starts d (retry_later c d)" for c d
    by (simp add: retry_later_def Let_def only_starts_def driver_spawn_def)
  have cleared: "only_starts d (d\<lparr>dv_failed := []\<rparr>)" for d by (simp add: only_starts_def)
  let ?d = "driver_answer pf d"
  have "only_starts ?d (fold retry_later xs (?d\<lparr>dv_failed := []\<rparr>))" for xs
    by (rule only_starts_trans [OF cleared], rule only_starts_fold) (rule retry)
  with answer show ?thesis
    unfolding driver_settle_def Let_def by (auto intro: only_starts_trans)
qed

lemma only_starts_sweep_later: "only_starts d (sweep_later radio d)"
  by (simp add: sweep_later_def only_starts_def driver_spawn_def split: option.split)

lemma only_starts_sweep: "only_starts d (driver_sweep d)"
proof -
  have one: "only_starts d (if bt_has (dv_sweeps d) radio then d
      else sweep_later radio (d\<lparr>dv_swept := dv_swept d + 1,
             dv_sweeps := bt_insert radio \<lparr>sw_token = dv_swept d + 1, sw_tries = 0\<rparr> (dv_sweeps d)\<rparr>))" for radio d
  proof -
    have "only_starts d (d\<lparr>dv_swept := a, dv_sweeps := b\<rparr>)" for a b by (simp add: only_starts_def)
    from only_starts_trans [OF this only_starts_sweep_later] show ?thesis by (simp add: only_starts_refl)
  qed
  have "only_starts d (d\<lparr>dv_sweeps := b\<rparr>)" for b by (simp add: only_starts_def)
  then show ?thesis
    unfolding driver_sweep_def Let_def by (rule only_starts_trans) (rule only_starts_fold [OF one])
qed

section \<open>The scans of a proposal\<close>

lemma check_attempts_has: "get_check d n = Some c \<Longrightarrow> P c \<Longrightarrow> n \<in> set (check_attempts P d)"
  by (force simp: check_attempts_def get_check_def dest: bt_get_SomeD)

lemma scan_for_pending_inv:
  assumes inv: "driver_inv hw limit exempt late d"
  shows "driver_inv hw limit exempt late (scan_for_pending d)"
proof -
  have one: "driver_inv hw limit exempt late (driver_scan i PendingScan (d\<lparr>dv_scanning := bt_insert i
      ((case bt_get (dv_scanning d) i of Some n \<Rightarrow> n | None \<Rightarrow> 0) + 1) (dv_scanning d)\<rparr>))"
    if inv: "driver_inv hw limit exempt late d" for i d
  proof -
    let ?d = "driver_scan i PendingScan (d\<lparr>dv_scanning := bt_insert i
      ((case bt_get (dv_scanning d) i of Some n \<Rightarrow> n | None \<Rightarrow> 0) + 1) (dv_scanning d)\<rparr>)"
    have same: "get_check ?d n = get_check d n" "dv_fed ?d = dv_fed d" "driver_core hw ?d = driver_core hw d"
      "mirrors (dv_selector ?d) (dv_checks ?d) = mirrors (dv_selector d) (dv_checks d)" for n
      by (simp_all add: driver_scan_def driver_spawn_def get_check_def driver_core_def)
    have "waits (dv_tasks d) (dv_scanning d) n c \<Longrightarrow> waits (dv_tasks ?d) (dv_scanning ?d) n c" for n c
      by (erule waits_mono) (auto simp: driver_scan_def driver_spawn_def)
    then have "all_wait exempt d \<Longrightarrow> all_wait exempt ?d"
      unfolding all_wait_def same by blast
    moreover have "scans_run late ?d" if "scans_run late d"
      unfolding scans_run_def
    proof (intro allI impI)
      fix j k assume k: "bt_get (dv_scanning ?d) j = Some k"
      show "0 < k \<and> k \<le> scans_for j (dv_tasks ?d) + of_bool (late = Some j)"
      proof (cases "j = i")
        case True
        have "x \<le> scans_for i (dv_tasks d) + of_bool (late = Some i)" if "bt_get (dv_scanning d) i = Some x" for x
          using \<open>scans_run late d\<close> that by (simp add: scans_run_def)
        with k True show ?thesis
          by (cases "bt_get (dv_scanning d) i")
            (auto simp: driver_scan_def driver_spawn_def scans_for_append scans_for_def)
      next
        case False
        with k that show ?thesis
          by (auto simp: scans_run_def driver_scan_def driver_spawn_def scans_for_def)
      qed
    qed
    ultimately show ?thesis using inv unfolding driver_inv_def same by blast
  qed
  have each: "driver_inv hw limit exempt late (fold (\<lambda>radio d.
             if \<not> pr_scan radio then d
             else driver_scan (pr_station radio) PendingScan (d\<lparr>dv_scanning := bt_insert (pr_station radio)
               ((case bt_get (dv_scanning d) (pr_station radio) of Some n \<Rightarrow> n | None \<Rightarrow> 0) + 1) (dv_scanning d)\<rparr>)) xs d)"
    if "driver_inv hw limit exempt late d" for xs :: "probed_radio list" and d
    using that
  proof (induction xs arbitrary: d)
    case (Cons x xs)
    show ?case
      using Cons.IH [OF one [OF Cons.prems, of "pr_station x"]] Cons.IH [OF Cons.prems] by simp
  qed simp
  show ?thesis
    unfolding scan_for_pending_def using each [OF inv] inv by simp
qed

lemma associate_all_inv:
  assumes room: "room_for hw limit"
  shows "driver_inv hw limit (\<lambda>m c. m \<in> set ns \<and> ck_at c = Some Association) late d \<Longrightarrow>
    driver_inv hw limit none_exempt late (fold (driver_associate pf) ns d)"
proof (induction ns arbitrary: d)
  case Nil
  then show ?case by simp
next
  case (Cons n ns)
  have "driver_inv hw limit (\<lambda>m c. joins_now n m c \<or> m \<in> set ns \<and> ck_at c = Some Association) late d"
    by (rule driver_inv_exempt [OF Cons.prems]) (auto simp: joins_now_def)
  from Cons.IH [OF driver_associate_inv [OF room this]] show ?case by simp
qed

lemma scanned_for_pending_inv:
  assumes room: "room_for hw limit" and inv: "driver_inv hw limit none_exempt (Some radio) d"
  shows "driver_inv hw limit none_exempt None (scanned_for_pending pf radio d)"
proof (cases "bt_get (dv_scanning d) radio")
  case None
  have "scans_run (Some radio) d \<Longrightarrow> scans_run None d"
    using None by (auto simp: scans_run_def split: if_splits) (metis add.right_neutral of_bool_eq(1) option.distinct(1))
  with inv None show ?thesis by (simp add: scanned_for_pending_def driver_inv_def)
next
  case (Some left)
  show ?thesis
  proof (cases "left - 1 > 0")
    case True
    let ?d = "d\<lparr>dv_scanning := bt_insert radio (left - 1) (dv_scanning d)\<rparr>"
    have eq: "scanned_for_pending pf radio d = ?d"
      using True Some by (simp add: scanned_for_pending_def)
    have "waits (dv_tasks d) (dv_scanning d) n c \<Longrightarrow> waits (dv_tasks d) (dv_scanning ?d) n c" for n c
      by (erule waits_mono) auto
    then have "all_wait none_exempt d \<Longrightarrow> all_wait none_exempt ?d"
      by (simp add: all_wait_def get_check_def)
    moreover have "scans_run (Some radio) d \<Longrightarrow> scans_run None ?d"
      using True Some by (fastforce simp: scans_run_def split: if_splits)
    ultimately show ?thesis
      unfolding eq using inv by (simp add: driver_inv_def driver_core_def)
  next
    case False
    define e where "e = d\<lparr>dv_scanning := bt_remove radio (dv_scanning d)\<rparr>"
    define k where "k = (if dv_hotspot_scanning e = Some radio then driver_kick pf (e\<lparr>dv_wanted := dv_wanted e + 1\<rparr>) else e)"
    let ?waits = "\<lambda>c. ck_interface c = radio \<and> ck_awaiting_scan c"
    let ?f = "\<lambda>c. if ?waits c then c\<lparr>ck_awaiting_scan := False\<rparr> else c"
    let ?g = "k\<lparr>dv_checks := map (\<lambda>(n, c). (n, ?f c)) (dv_checks k)\<rparr>"
    have removed: "bt_remove radio (bt_insert radio x (dv_scanning d)) = bt_remove radio (dv_scanning d)" for x
    proof -
      have "bt_remove radio (bt_insert radio x m) = bt_remove radio m" for m :: "(string, nat) bt"
        by (induction radio x m rule: bt_insert.induct) (auto simp: bt_remove_def)
      then show ?thesis .
    qed
    have eq: "scanned_for_pending pf radio d = fold (driver_associate pf) (check_attempts ?waits k) ?g"
      using False Some by (simp add: scanned_for_pending_def Let_def e_def k_def removed)
    let ?joins = "\<lambda>c. ?waits c \<and> ck_at c = Some Association"
    have "driver_inv hw limit (\<lambda>n c. ?joins c) None e"
    proof -
      have still: "?joins c \<or> waits (dv_tasks d) (dv_scanning e) n c" if "waits (dv_tasks d) (dv_scanning d) n c" for n c
        using that by (auto simp: waits_def e_def split: option.splits stage.splits)
      have "all_wait none_exempt d \<Longrightarrow> all_wait (\<lambda>n c. ?joins c) e"
        using still by (simp add: all_wait_def e_def get_check_def)
      moreover have "scans_run (Some radio) d \<Longrightarrow> scans_run None e"
        by (fastforce simp: scans_run_def e_def split: if_splits)
      ultimately show ?thesis
        using inv by (simp add: driver_inv_def driver_core_def e_def)
    qed
    moreover have "only_starts e k"
    proof -
      have "only_starts e (e\<lparr>dv_wanted := x\<rparr>)" for x by (simp add: only_starts_def)
      from only_starts_trans [OF this only_starts_kick] show ?thesis unfolding k_def by (simp add: only_starts_refl)
    qed
    ultimately have k: "driver_inv hw limit (\<lambda>n c. ?joins c) None k" by (rule only_starts_inv [rotated])
    have "driver_inv hw limit (\<lambda>m c. m \<in> set (check_attempts ?waits k) \<and> ck_at c = Some Association) None ?g"
    proof (rule driver_inv_map [OF k, of ?f])
      fix n c assume c: "get_check k n = Some c" and "?joins c \<or> waits (dv_tasks k) (dv_scanning k) n c"
      then show "n \<in> set (check_attempts ?waits k) \<and> ck_at (?f c) = Some Association
          \<or> waits (dv_tasks k) (dv_scanning k) n (?f c)"
        using check_attempts_has [OF c, of ?waits]
        by (cases "ck_at c = Some Association") (auto simp: waits_def split: option.splits stage.splits)
    qed (auto simp: same_attempt_def check_fits_def)
    then show ?thesis unfolding eq by (rule associate_all_inv [OF room])
  qed
qed

end
