(* ===== verification/Driver_Run.thy ===== *)
theory Driver_Run
  imports Driver_Checks
begin

text \<open>
  The driver's commands and what its tasks send back: the loop of \<open>run\<close> keeps the checks those of the
  attempts, and none of them waits for nothing.
\<close>

section \<open>Another document keeps it\<close>

lemma carried_held:
  assumes s: "sound hw s" and get: "bt_get (se_held (carried doc s)) i = Some h"
  shows "\<exists>old. bt_get (se_held s) i = Some old \<and> attempt_of h = attempt_of old \<and> hd_at h = hd_at old"
proof -
  define mv where "mv old = Option.bind (nth_opt (moved_to (cands s) (dc_attachments doc) []) old) (\<lambda>x. x)" for old
  have "bt_get (se_held (carried doc s)) i
      = Option.bind (bt_get (se_held s) i) (\<lambda>h. map_option (\<lambda>c. h\<lparr>hd_link := (hd_link h)\<lparr>lk_candidate := c\<rparr>\<rparr>) (mv (candidate_of h)))"
    using s bt_get_map_filter [of "se_held s" "\<lambda>h c. h\<lparr>hd_link := (hd_link h)\<lparr>lk_candidate := c\<rparr>\<rparr>" "\<lambda>h. mv (candidate_of h)" i]
    by (simp add: carried_def Let_def move_held_def sound_def mv_def)
  with get show ?thesis by (auto simp: bind_eq_Some_conv)
qed

text \<open>What becomes of the checks before the new decision is followed.\<close>

definition renamed :: "link list \<Rightarrow> driver \<Rightarrow> driver" where
  "renamed links d =
     fold (\<lambda>l d. case get_check d (lk_attempt l) of
         Some c \<Rightarrow> put_check (lk_attempt l) (c\<lparr>ck_candidate := lk_candidate l\<rparr>) d
       | None \<Rightarrow> d) links d"

lemma renamed_check:
  "get_check (renamed links d) n = map_option (\<lambda>c.
     if \<exists>l \<in> set links. lk_attempt l = n
     then c\<lparr>ck_candidate := lk_candidate (last (filter (\<lambda>l. lk_attempt l = n) links))\<rparr> else c) (get_check d n)"
proof (induction links rule: rev_induct)
  case (snoc l links)
  have "renamed (links @ [l]) d =
      (case get_check (renamed links d) (lk_attempt l) of
         Some c \<Rightarrow> put_check (lk_attempt l) (c\<lparr>ck_candidate := lk_candidate l\<rparr>) (renamed links d)
       | None \<Rightarrow> renamed links d)" unfolding renamed_def by simp
  with snoc show ?case by (cases "get_check d n") (auto split: option.split)
qed (simp add: renamed_def option.map_ident)

lemma renamed_rest:
  "dv_selector (renamed links d) = dv_selector d \<and> dv_document (renamed links d) = dv_document d \<and>
   dv_fed (renamed links d) = dv_fed d \<and> dv_tasks (renamed links d) = dv_tasks d \<and>
   dv_scanning (renamed links d) = dv_scanning d \<and> (bt_ok (dv_checks d) \<longrightarrow> bt_ok (dv_checks (renamed links d)))"
  unfolding renamed_def by (induction links arbitrary: d) (auto split: option.split)

definition kept_by :: "link list \<Rightarrow> driver \<Rightarrow> driver" where
  "kept_by links d =
     renamed links (d\<lparr>dv_checks := bt_retain (\<lambda>n _. list_ex (\<lambda>l. lk_attempt l = n) links) (dv_checks d)\<rparr>)"

lemma kept_by_check:
  assumes "bt_ok (dv_checks d)"
  shows "get_check (kept_by links d) n = Some c' \<longleftrightarrow>
    (\<exists>c. get_check d n = Some c \<and> (\<exists>l \<in> set links. lk_attempt l = n) \<and>
       c' = c\<lparr>ck_candidate := lk_candidate (last (filter (\<lambda>l. lk_attempt l = n) links))\<rparr>)"
proof -
  have "get_check (d\<lparr>dv_checks := bt_retain (\<lambda>n _. list_ex (\<lambda>l. lk_attempt l = n) links) (dv_checks d)\<rparr>) n
      = (if \<exists>l \<in> set links. lk_attempt l = n then get_check d n else None)"
    by (simp add: get_check_def bt_get_retain [OF assms] list_ex_iff split: option.split)
  then show ?thesis unfolding kept_by_def renamed_check by auto
qed

lemma kept_by_rest:
  "dv_selector (kept_by links d) = dv_selector d" "dv_document (kept_by links d) = dv_document d"
  "dv_fed (kept_by links d) = dv_fed d" "dv_tasks (kept_by links d) = dv_tasks d"
  "dv_scanning (kept_by links d) = dv_scanning d"
  "bt_ok (dv_checks d) \<Longrightarrow> bt_ok (dv_checks (kept_by links d))"
  using renamed_rest by (simp_all add: kept_by_def)

lemma last_link:
  assumes "\<exists>l \<in> set links. lk_attempt l = n"
  shows "last (filter (\<lambda>l. lk_attempt l = n) links) \<in> set links \<and>
    lk_attempt (last (filter (\<lambda>l. lk_attempt l = n) links)) = n"
proof -
  have "filter (\<lambda>l. lk_attempt l = n) links \<noteq> []" using assms by (auto simp: filter_empty_conv)
  from last_in_set [OF this] show ?thesis by simp
qed

lemma kept_by_wait:
  assumes wait: "all_wait none_exempt d" and ok: "bt_ok (dv_checks d)"
  shows "all_wait none_exempt (kept_by links d)"
  unfolding all_wait_def kept_by_rest
proof (intro allI impI)
  fix n c' assume "get_check (kept_by links d) n = Some c'"
  then obtain c x where c: "get_check d n = Some c" "c' = c\<lparr>ck_candidate := x\<rparr>"
    by (auto simp: kept_by_check [OF ok])
  have "check_fits c' \<longleftrightarrow> check_fits c" "waits ts sc n c' \<longleftrightarrow> waits ts sc n c" for ts sc
    unfolding c(2) check_fits_def waits_def by (simp_all split: option.split stage.split)
  with wait c show "check_fits c' \<and> (ck_armed c' \<longrightarrow> False \<or> waits (dv_tasks d) (dv_scanning d) n c')"
    by (auto simp: all_wait_def)
qed

lemma kept_by_mirrors:
  assumes mirror: "mirrors s (dv_checks d)" and s: "attempts_ok s" and agree: "links_agree s"
  shows "mirrors s (dv_checks (kept_by (bt_values (de_links (se_decision s))) d))"
proof -
  let ?links = "bt_values (de_links (se_decision s))"
  have ok: "bt_ok (dv_checks d)" using mirror by (simp add: mirrors_def checks_of_def)
  have link: "\<exists>i h. bt_get (se_held s) i = Some h \<and> hd_link h = l" if l: "l \<in> set ?links" for l
  proof -
    from l obtain i where "(i, l) \<in> set (de_links (se_decision s))" by (auto simp: bt_values_def)
    moreover have "bt_ok (de_links (se_decision s))" using agree by (simp add: links_agree_def)
    ultimately have "bt_get (de_links (se_decision s)) i = Some l" by (simp add: bt_ok_get_iff)
    with agree show ?thesis by (auto simp: links_agree_def)
  qed
  have has: "hd_link h \<in> set ?links" if "bt_get (se_held s) i = Some h" for i h
  proof -
    have "bt_get (de_links (se_decision s)) i = Some (hd_link h)" using agree that by (simp add: links_agree_def)
    then have "(i, hd_link h) \<in> set (de_links (se_decision s))" by (rule bt_get_SomeD)
    then show ?thesis by (force simp: bt_values_def)
  qed
  have each: "check_of s n c'" if c': "get_check (kept_by ?links d) n = Some c'" for n c'
  proof -
    from c' obtain c where c: "get_check d n = Some c" "\<exists>l \<in> set ?links. lk_attempt l = n"
      "c' = c\<lparr>ck_candidate := lk_candidate (last (filter (\<lambda>l. lk_attempt l = n) ?links))\<rparr>"
      by (auto simp: kept_by_check [OF ok])
    from mirrors_check [OF mirror c(1) [unfolded get_check_def]] obtain h
      where h: "bt_get (se_held s) (ck_interface c) = Some h" "attempt_of h = n" "hd_at h = ck_at c" "ck_attempt c = n"
      by blast
    from last_link [OF c(2)] link obtain i k where k: "bt_get (se_held s) i = Some k"
      "hd_link k = last (filter (\<lambda>l. lk_attempt l = n) ?links)" "attempt_of k = n" by metis
    with s h(1,2) have "i = ck_interface c" unfolding attempts_ok_def by metis
    with k h(1) have "hd_link h = last (filter (\<lambda>l. lk_attempt l = n) ?links)" by simp
    with h c(3) show ?thesis by (simp add: check_of_def)
  qed
  have "bt_has (dv_checks (kept_by ?links d)) (attempt_of h)" if h: "bt_get (se_held s) i = Some h" for i h
  proof -
    from mirror h obtain c where "get_check d (attempt_of h) = Some c"
      by (auto simp: mirrors_def bt_has_def get_check_def)
    with has [OF h] kept_by_check [OF ok, of ?links "attempt_of h"] show ?thesis
      by (auto simp: bt_has_def get_check_def)
  qed
  with each kept_by_rest(6) [OF ok] show ?thesis
    by (simp add: mirrors_def checks_of_def get_check_def)
qed

lemma kept_by_following:
  assumes rest: "at_rest hw s" and settle: "may_settle (carried doc s)" and mirror: "mirrors s (dv_checks d)"
  shows "following (carried doc s) {} (dv_checks (kept_by (bt_values (de_links (se_decision (settled (carried doc s))))) d))"
proof -
  let ?t = "carried doc s"
  let ?links = "bt_values (de_links (se_decision (settled ?t)))"
  have s: "sound hw s" "attempts_ok s" using rest by (simp_all add: at_rest_def)
  have ok: "bt_ok (dv_checks d)" using mirror by (simp add: mirrors_def checks_of_def)
  have link: "\<exists>i h. bt_get (se_held (settled ?t)) i = Some h \<and> hd_link h = l" if l: "l \<in> set ?links" for l
  proof -
    from l obtain i where "(i, l) \<in> set (de_links (se_decision (settled ?t)))" by (auto simp: bt_values_def)
    then have "bt_get (de_links (se_decision (settled ?t))) i = Some l" by (simp add: settled_links_ok bt_ok_get_iff)
    then show ?thesis by (auto simp: links_settled)
  qed
  have each: "check_of ?t n c'" if c': "get_check (kept_by ?links d) n = Some c'" for n c'
  proof -
    from c' obtain c where c: "get_check d n = Some c" "\<exists>l \<in> set ?links. lk_attempt l = n"
      "c' = c\<lparr>ck_candidate := lk_candidate (last (filter (\<lambda>l. lk_attempt l = n) ?links))\<rparr>"
      by (auto simp: kept_by_check [OF ok])
    from mirrors_check [OF mirror c(1) [unfolded get_check_def]] obtain h
      where h: "bt_get (se_held s) (ck_interface c) = Some h" "attempt_of h = n" "hd_at h = ck_at c" "ck_attempt c = n"
      by blast
    from last_link [OF c(2)] link obtain i k where k: "bt_get (se_held (settled ?t)) i = Some k"
      "hd_link k = last (filter (\<lambda>l. lk_attempt l = n) ?links)" "attempt_of k = n" by metis
    have low: "unat n \<le> unat (se_next_attempt s)" using s(2) h(1,2) by (auto simp: attempts_ok_def)
    from settle obtain hw' where t: "sound hw' ?t" "attempts_ok ?t" "unat (se_next_attempt ?t) + interfaces hw' < 2 ^ 64"
      by (auto simp: may_settle_def)
    have "bt_get (se_held ?t) i = Some k"
      using settled_numbered(1) [OF t] k(1,3) low carried_attempts(3) [OF s]
      unfolding numbered_def by (metis not_le)
    moreover from carried_held [OF s(1) this] obtain old where old: "bt_get (se_held s) i = Some old"
      "attempt_of k = attempt_of old" "hd_at k = hd_at old" by blast
    moreover have "i = ck_interface c" using s(2) old h(1,2) k(3) unfolding attempts_ok_def by metis
    ultimately show ?thesis using h k c(3) by (simp add: check_of_def)
  qed
  have "bt_has (dv_checks (kept_by ?links d)) (attempt_of h)"
    if h: "bt_get (se_held ?t) i = Some h" and now: "bt_get (se_held (settled ?t)) i = Some h" for i h
  proof -
    have "bt_get (de_links (se_decision (settled ?t))) i = Some (hd_link h)" using now by (simp add: links_settled)
    then have "(i, hd_link h) \<in> set (de_links (se_decision (settled ?t)))" by (rule bt_get_SomeD)
    then have l: "hd_link h \<in> set ?links" by (force simp: bt_values_def)
    from carried_held [OF s(1) h] obtain old where "bt_get (se_held s) i = Some old" "attempt_of h = attempt_of old" by blast
    with mirror obtain c where "get_check d (attempt_of h) = Some c"
      by (auto simp: mirrors_def bt_has_def get_check_def)
    with l kept_by_check [OF ok, of ?links "attempt_of h"] show ?thesis
      by (auto simp: bt_has_def get_check_def)
  qed
  with each kept_by_rest(6) [OF ok] show ?thesis
    by (simp add: following_def get_check_def)
qed

lemma configure_steps:
  assumes "driver_configure pf doc d = Inr d'"
  obtains changes s' e where "configure doc (dv_selector d) = Inr (changes, s')"
    and "d' = driver_publish (driver_follow pf changes (kept_by (bt_values (de_links (se_decision s'))) e))"
    and "dv_selector e = s'" "dv_document e = doc" "dv_checks e = dv_checks d" "dv_tasks e = dv_tasks d"
      "dv_scanning e = dv_scanning d" "dv_fed e = dv_fed d"
proof -
  from assms obtain changes s' where c: "configure doc (dv_selector d) = Inr (changes, s')"
    by (auto simp: driver_configure_def split: sum.splits)
  define e where "e = d\<lparr>dv_selector := s', dv_document := doc,
      dv_last := map (\<lambda>(i, previous). (i, case previous of
        Some p \<Rightarrow> if list_ex (\<lambda>a. at_enabled a \<and> same_link a p) (dc_attachments doc) then Some p else None
      | None \<Rightarrow> None)) (dv_last d),
      dv_configured := True, dv_generation := dv_generation d + 1, dv_backoff := [],
      dv_failed := [], dv_placed := [], dv_wanted := dv_wanted d + 1\<rparr>"
  have "d' = driver_publish (driver_follow pf changes (kept_by (bt_values (de_links (se_decision s'))) e))"
    using assms by (simp add: driver_configure_def c Let_def kept_by_def renamed_def e_def driver_decision_def)
  from that [OF c this] show thesis by (simp add: e_def)
qed

lemma carried_unchanged:
  assumes rest: "at_rest hw s" and agree: "links_agree s" and settle: "may_settle (carried doc s)"
    and same: "bt_get (de_links (se_decision s)) i = link_now (carried doc s) i"
  shows "bt_get (se_held (settled (carried doc s))) i = bt_get (se_held (carried doc s)) i"
proof (cases "bt_get (se_held (settled (carried doc s))) i")
  case None
  with same have "bt_get (se_held s) i = None" using agree by (simp add: links_agree_def link_now_def del: settled_simps)
  with carried_held [of hw s doc i] rest have "bt_get (se_held (carried doc s)) i = None"
    by (cases "bt_get (se_held (carried doc s)) i") (auto simp: at_rest_def)
  with None show ?thesis by simp
next
  case (Some h)
  have s: "sound hw s" "attempts_ok s" using rest by (simp_all add: at_rest_def)
  from Some same agree obtain k where k: "bt_get (se_held s) i = Some k" "hd_link k = hd_link h"
    by (auto simp: links_agree_def link_now_def simp del: settled_simps)
  have low: "unat (attempt_of h) \<le> unat (se_next_attempt s)" using s(2) k unfolding attempts_ok_def by metis
  from settle obtain hw' where t: "sound hw' (carried doc s)" "attempts_ok (carried doc s)"
    "unat (se_next_attempt (carried doc s)) + interfaces hw' < 2 ^ 64" by (auto simp: may_settle_def)
  have "bt_get (se_held (carried doc s)) i = Some h"
    using settled_numbered(1) [OF t] Some low carried_attempts(3) [OF s]
    unfolding numbered_def by (metis not_le)
  with Some show ?thesis by simp
qed

lemma driver_configure_inv:
  assumes room: "room_for hw limit" and inv: "driver_inv hw limit none_exempt late d"
    and conf: "driver_configure pf doc d = Inr d'"
  shows "driver_inv hw limit none_exempt late d'"
proof -
  from conf obtain changes s' e where c: "configure doc (dv_selector d) = Inr (changes, s')"
    and d': "d' = driver_publish (driver_follow pf changes (kept_by (bt_values (de_links (se_decision s'))) e))"
    and e: "dv_selector e = s'" "dv_document e = doc" "dv_checks e = dv_checks d" "dv_tasks e = dv_tasks d"
      "dv_scanning e = dv_scanning d" "dv_fed e = dv_fed d"
    by (rule configure_steps)
  define k where "k = kept_by (bt_values (de_links (se_decision s'))) e"
  have k: "dv_selector k = s'" "dv_document k = doc" "dv_tasks k = dv_tasks d" "dv_scanning k = dv_scanning d"
    "dv_fed k = dv_fed d" by (simp_all add: k_def kept_by_rest e)
  define f where "f = driver_follow pf changes k"
  have f: "dv_fed f = dv_fed d + 1" "dv_tasks f = dv_tasks d" "dv_scanning f = dv_scanning d"
      "dv_selector f = s'" "dv_document f = doc"
    using follow_kept [where d = "k\<lparr>dv_fed := dv_fed k + 1\<rparr>" and pf = pf and changes = changes] k
    by (simp_all add: f_def driver_follow_def Let_def driver_publish_def driver_act_def driver_kept_def)
  have "driver_inv hw limit none_exempt late f"
    unfolding driver_inv_def f(1)
  proof
    assume low: "dv_fed d + 1 < limit"
    let ?s = "dv_selector d"
    from inv low have d: "driver_core hw d" "mirrors ?s (dv_checks d)" "all_wait none_exempt d" "scans_run late d"
      by (simp_all add: driver_inv_def)
    have rest: "at_rest hw ?s" and agree: "links_agree ?s" using d(1) by (simp_all add: driver_core_def)
    have numbers: "unat (se_next_attempt ?s) + interfaces hw < 2 ^ 64" by (rule room_numbers [OF room low d(1)])
    have ok: "bt_ok (dv_checks e)" using d(2) by (simp add: mirrors_def checks_of_def e)
    have mirror: "mirrors ?s (dv_checks e)" using d(2) by (simp add: e)
    have "all_wait none_exempt e" using d(3) by (simp add: all_wait_def get_check_def e)
    from kept_by_wait [OF this ok] have wait: "all_wait none_exempt k" by (simp add: k_def)
    have run: "s' = sel_run ?s (Configures doc)" by (simp add: c)
    note step = at_rest_step [OF rest numbers, of "Configures doc", folded run]
    have "links_agree s' \<and> doc = se_document s' \<and> mirrors s' (dv_checks f) \<and> checks_from k f"
    proof (cases "doc = se_document ?s")
      case True
      with c have same: "changes = []" "s' = ?s" by (auto simp: configure_eq split: option.splits)
      have "dv_checks f = dv_checks k" by (simp add: f_def same driver_follow_def Let_def)
      moreover have "mirrors s' (dv_checks k)"
        unfolding same(2) k_def using rest agree by (intro kept_by_mirrors [OF mirror]) (simp_all add: at_rest_def)
      ultimately show ?thesis using True agree by (simp add: same checks_from_def get_check_def)
    next
      case False
      let ?t = "carried doc ?s"
      from False c have fits: "sel_check doc (se_hardware ?s) = None" and "(changes, s') = settle ?t"
        by (auto simp: configure_eq split: option.splits)
      then have ch: "changes = diff (se_decision ?t) (se_decision (settled ?t))" "s' = settled ?t"
        using settle_fst [of ?t] settle_snd [of ?t] by (metis fst_conv, metis snd_conv)
      have links: "de_links (se_decision ?t) = de_links (se_decision ?s)" by (simp add: carried_def Let_def)
      have settle: "may_settle ?t"
        unfolding may_settle_def using sound_carried [of hw ?s doc] carried_attempts [of hw ?s doc] rest fits numbers
        by (auto simp: at_rest_def)
      have "dv_document k = se_document ?t" by (simp add: k carried_def Let_def)
      note followed = driver_follow_mirrors [where t = ?t and d = k and old = "se_decision ?t" and pf = pf and d' = f,
          OF settle _ this]
      have kept: "following ?t {} (dv_checks k)"
        unfolding k_def ch(2) by (rule kept_by_following [OF rest settle mirror])
      have un: "bt_get (de_links (se_decision ?t)) i = link_now ?t i \<Longrightarrow>
          bt_get (se_held (settled ?t)) i = bt_get (se_held ?t) i" for i
        unfolding links by (rule carried_unchanged [OF rest agree settle])
      have fo: "f = driver_follow pf (diff (se_decision ?t) (se_decision (settled ?t))) k" by (simp add: f_def ch)
      have sel: "dv_selector k = settled ?t" by (simp only: k ch)
      have "mirrors (settled ?t) (dv_checks f)" by (rule followed(1) [OF sel kept un fo])
      moreover have "checks_from k f" by (rule followed(2) [OF sel kept un fo])
      moreover have "doc = se_document (settled ?t)" by (simp add: carried_def Let_def)
      ultimately show ?thesis unfolding ch(2) using links_agree_settled [of ?t] by blast
    qed
    moreover have "unat (se_next_attempt s') \<le> (dv_fed d + 2) * interfaces hw"
      using step(3) d(1) by (simp add: driver_core_def algebra_simps)
    moreover have "all_wait none_exempt f"
      using wait calculation unfolding all_wait_def checks_from_def f k by blast
    ultimately show "driver_core hw f \<and> mirrors (dv_selector f) (dv_checks f) \<and> all_wait none_exempt f \<and> scans_run late f"
      using step(1) d(4) by (simp add: driver_core_def scans_run_def f)
  qed
  then show ?thesis unfolding d' driver_publish_def k_def [symmetric] f_def [symmetric] by (rule driver_act_inv)
qed

section \<open>A task ends\<close>

lemma in_remove_nth:
  assumes "k < length xs" and "x \<in> set xs" and "x \<noteq> xs ! k"
  shows "x \<in> set (remove_nth k xs)"
proof -
  have "xs = take k xs @ xs ! k # drop (Suc k) xs" by (rule id_take_nth_drop [OF assms(1)])
  with assms(2) have "x \<in> set (take k xs @ xs ! k # drop (Suc k) xs)" by metis
  with assms(3) show ?thesis by (auto simp: remove_nth_def)
qed

lemma scans_for_removed:
  assumes "k < length xs"
  shows "scans_for i xs = scans_for i (remove_nth k xs) + of_bool (xs ! k = ScanTask i PendingScan)"
proof -
  have "scans_for i xs = scans_for i (take k xs @ [xs ! k] @ drop (Suc k) xs)"
    using id_take_nth_drop [OF assms] by simp
  also have "\<dots> = scans_for i (remove_nth k xs) + of_bool (xs ! k = ScanTask i PendingScan)"
    unfolding remove_nth_def scans_for_append by (simp add: scans_for_def)
  finally show ?thesis .
qed

text \<open>The attempts a task that ended may leave with nothing to wait for, and the scan it was.\<close>

fun left_by :: "driver_task \<Rightarrow> attempt \<Rightarrow> link_check \<Rightarrow> bool" where
  "left_by (JoinTask m _ _) n c = joins_now m n c"
| "left_by (ScanTask _ (RefusedScan m)) n c = joins_now m n c"
| "left_by (ProbeTask m _ _ _) n c = (n = m \<and> ck_at c = Some Gateway)"
| "left_by (DeadlineTask m timer _) n c = (n = m \<and> ck_timer c = timer \<and> counts_down c)"
| "left_by _ n c = False"

fun late_by :: "driver_task \<Rightarrow> string option" where
  "late_by (ScanTask i PendingScan) = Some i"
| "late_by _ = None"

lemma waits_removed:
  assumes w: "waits tasks scanning n c" and fits: "check_fits c"
    and other: "\<And>x. x \<in> set tasks \<Longrightarrow> x = t \<or> x \<in> set tasks'"
  shows "left_by t n c \<or> waits tasks' scanning n c"
proof (cases "ck_at c")
  case (Some st)
  show ?thesis
  proof (cases st)
    case Carrier
    then show ?thesis by (simp add: waits_def Some)
  next
    case Association
    with w Some consider "ck_awaiting_scan c \<and> bt_has scanning (ck_interface c)"
      | i target where "JoinTask n i target \<in> set tasks" | i where "ScanTask i (RefusedScan n) \<in> set tasks"
      by (auto simp: waits_def)
    then show ?thesis
      by cases (auto simp: waits_def Some Association joins_now_def dest!: other)
  next
    case Addressing
    with fits Some have "\<not> ck_probing c" by (auto simp: check_fits_def)
    with w Addressing show ?thesis by (auto simp: waits_def Some counts_down_def dest!: other)
  next
    case Gateway
    with w show ?thesis
      by (cases "ck_probing c") (auto simp: waits_def Some counts_down_def dest!: other)
  qed
qed (simp add: waits_def)

lemma task_removed_inv:
  assumes inv: "driver_inv hw limit none_exempt None d" and k: "k < length (dv_tasks d)"
  shows "driver_inv hw limit (left_by (dv_tasks d ! k)) (late_by (dv_tasks d ! k))
    (d\<lparr>dv_tasks := remove_nth k (dv_tasks d)\<rparr>)"
proof -
  let ?t = "dv_tasks d ! k"
  let ?d = "d\<lparr>dv_tasks := remove_nth k (dv_tasks d)\<rparr>"
  have "left_by ?t n c \<or> waits (dv_tasks ?d) (dv_scanning ?d) n c"
    if "waits (dv_tasks d) (dv_scanning d) n c" "check_fits c" for n c
  proof -
    have "x = ?t \<or> x \<in> set (dv_tasks ?d)" if "x \<in> set (dv_tasks d)" for x
      using in_remove_nth [OF k that] by auto
    from waits_removed [OF that this] show ?thesis by simp
  qed
  then have "all_wait none_exempt d \<Longrightarrow> all_wait (left_by ?t) ?d"
    by (simp add: all_wait_def get_check_def)
  moreover have "late_by ?t = Some i \<longleftrightarrow> ?t = ScanTask i PendingScan" for i
    by (cases ?t rule: late_by.cases) auto
  then have "scans_run None d \<Longrightarrow> scans_run (late_by ?t) ?d"
    by (simp add: scans_run_def scans_for_removed [OF k])
  ultimately show ?thesis using inv by (simp add: driver_inv_def driver_core_def)
qed

lemma driver_rejoined_inv:
  assumes room: "room_for hw limit" and inv: "driver_inv hw limit exempt late d"
  shows "driver_inv hw limit exempt late (driver_rejoined pf n result d)"
  using station_channel_inv(1) [OF room inv] driver_feed_plain(1) [OF room inv] inv
  by (auto simp: driver_rejoined_def split: option.split sum.split)

lemma arm_all_inv:
  assumes "room_for hw limit"
  shows "driver_inv hw limit exempt late d \<Longrightarrow> driver_inv hw limit exempt late (fold (driver_arm pf) ns d)"
proof (induction ns arbitrary: d)
  case (Cons n ns)
  from Cons.IH [OF driver_arm_inv [OF assms Cons.prems]] show ?case by simp
qed simp

lemma apply_ended_inv:
  assumes room: "room_for hw limit" and inv: "driver_inv hw limit exempt late d"
  shows "driver_inv hw limit exempt late (apply_ended pf taken attempts result d)"
proof -
  let ?d = "d\<lparr>dv_applying := False, dv_done := taken\<rparr>"
  have d: "driver_inv hw limit exempt late ?d"
    by (rule only_starts_inv [OF _ inv]) (simp add: only_starts_def)
  show ?thesis
    unfolding apply_ended_def Let_def
    by (intro arm_all_inv [OF room])
      (auto intro!: scan_for_pending_inv driver_reprobe_inv d only_starts_inv [OF only_starts_failed d]
        split: sum.split)
qed

lemma reprobe_ended_inv:
  assumes inv: "driver_inv hw limit exempt late d"
  shows "driver_inv hw limit exempt late (reprobe_ended probed d)"
proof -
  define e where "e = (case probed of
      Some (radios, changed) \<Rightarrow> (let d = d\<lparr>dv_probed := radios\<rparr> in if changed then driver_act WakesSessions d else d)
    | None \<Rightarrow> d)"
  have "only_starts d (d\<lparr>dv_probed := p\<rparr>)" for p by (simp add: only_starts_def)
  from only_starts_inv [OF this inv] driver_act_inv [OF only_starts_inv [OF this inv]]
  have e: "driver_inv hw limit exempt late e" using inv by (auto simp: e_def Let_def split: option.split)
  have "only_starts e (e\<lparr>dv_reprobe_again := b\<rparr>)" "only_starts e (e\<lparr>dv_reprobing := b\<rparr>)" for b
    by (simp_all add: only_starts_def)
  note these = this [THEN only_starts_inv, OF e]
  show ?thesis
    unfolding reprobe_ended_def e_def [symmetric] Let_def [of e]
    using these driver_reprobe_inv [OF these(1)] by simp
qed

lemma sweep_now_inv: "driver_inv hw limit exempt late d \<Longrightarrow> driver_inv hw limit exempt late (sweep_now radio token d)"
  by (simp add: sweep_now_def driver_scan_def driver_inv_spawn)

lemma swept_on_inv: "driver_inv hw limit exempt late d \<Longrightarrow> driver_inv hw limit exempt late (swept_on radio token d)"
  using only_starts_inv [OF only_starts_sweep_later] by (simp add: swept_on_def)

lemma scan_ended_inv:
  assumes room: "room_for hw limit" and inv: "driver_inv hw limit (left_by (ScanTask i sc)) (late_by (ScanTask i sc)) d"
  shows "driver_inv hw limit none_exempt None (scan_ended pf i sc result d)"
proof -
  define e where "e = (case result of Inr networks \<Rightarrow> driver_heard pf i networks True d | Inl _ \<Rightarrow> d)"
  have e: "driver_inv hw limit (left_by (ScanTask i sc)) (late_by (ScanTask i sc)) e"
    using inv driver_heard_inv [OF room inv] by (simp add: e_def split: sum.split)
  have ended: "scan_ended pf i sc result d = (case sc of
      PendingScan \<Rightarrow> scanned_for_pending pf i e
    | SweepScan token \<Rightarrow> swept_on i token e
    | RefusedScan attempt \<Rightarrow> driver_rescanned pf attempt e)"
    unfolding scan_ended_def e_def Let_def ..
  show ?thesis
  proof (cases sc)
    case PendingScan
    with e have "driver_inv hw limit none_exempt (Some i) e"
      by (auto elim!: driver_inv_exempt)
    from scanned_for_pending_inv [OF room this] show ?thesis unfolding ended by (simp add: PendingScan)
  next
    case (SweepScan token)
    with e have "driver_inv hw limit none_exempt None e" by (auto elim!: driver_inv_exempt)
    from swept_on_inv [OF this] show ?thesis unfolding ended by (simp add: SweepScan)
  next
    case (RefusedScan m)
    with e have "driver_inv hw limit (\<lambda>n c. joins_now m n c \<or> False) None e" by (auto elim!: driver_inv_exempt)
    from driver_rescanned_inv [OF room this] show ?thesis unfolding ended by (simp add: RefusedScan)
  qed
qed

lemma driver_hears_inv:
  assumes room: "room_for hw limit" and inv: "driver_inv hw limit (left_by task) (late_by task) d"
    and heard: "driver_hears pf task result d = Some d'"
  shows "driver_inv hw limit none_exempt None d'"
proof -
  have none: "driver_inv hw limit none_exempt None d" if "\<And>n c. \<not> left_by task n c" "late_by task = None"
    using inv that by (auto elim!: driver_inv_exempt)
  show ?thesis
  proof (cases task)
    case (JoinTask n i target)
    with inv have "driver_inv hw limit (\<lambda>m c. joins_now n m c \<or> False) None d" by (auto elim!: driver_inv_exempt)
    from driver_associated_inv [OF room this] heard show ?thesis
      by (auto simp: driver_hears_def JoinTask split: task_result.splits)
  next
    case (RejoinTask n i target)
    with none have "driver_inv hw limit none_exempt None d" by simp
    from driver_rejoined_inv [OF room this] heard show ?thesis
      by (auto simp: driver_hears_def RejoinTask split: task_result.splits)
  next
    case (ProbeTask n i source gateway)
    with inv have "driver_inv hw limit (\<lambda>m c. m = n \<and> ck_at c = Some Gateway) None d"
      by (auto elim!: driver_inv_exempt)
    from driver_probed_inv [OF room this] heard show ?thesis
      by (auto simp: driver_hears_def ProbeTask split: task_result.splits)
  next
    case (DeadlineTask n timer after)
    with inv have "driver_inv hw limit (\<lambda>m c. m = n \<and> ck_timer c = timer \<and> counts_down c) None d"
      by (auto elim!: driver_inv_exempt)
    from deadline_passed_inv [OF room this] heard show ?thesis
      by (auto simp: driver_hears_def DeadlineTask split: task_result.splits)
  next
    case (ScanTask i sc)
    from scan_ended_inv [OF room inv [unfolded ScanTask]] heard show ?thesis
      by (auto simp: driver_hears_def ScanTask split: task_result.splits)
  next
    case (SweepTask radio token after)
    with none have "driver_inv hw limit none_exempt None d" by simp
    from sweep_now_inv [OF this] heard show ?thesis
      by (auto simp: driver_hears_def SweepTask split: task_result.splits)
  next
    case (RetryTask candidate generation after)
    with none have "driver_inv hw limit none_exempt None d" by simp
    with driver_feed_plain(1) [OF room this] heard show ?thesis
      by (auto simp: driver_hears_def RetryTask retry_due_def split: task_result.splits)
  next
    case (OperatingTask i)
    with none have "driver_inv hw limit none_exempt None d" by simp
    with driver_feed_plain(1) [OF room this] heard show ?thesis
      by (auto simp: driver_hears_def OperatingTask split: task_result.splits option.splits)
  next
    case ReprobeTask
    with none have "driver_inv hw limit none_exempt None d" by simp
    from reprobe_ended_inv [OF this] heard show ?thesis
      by (auto simp: driver_hears_def ReprobeTask split: task_result.splits)
  next
    case (ApplyTask taken attempts conf)
    with none have "driver_inv hw limit none_exempt None d" by simp
    from apply_ended_inv [OF room this] heard show ?thesis
      by (auto simp: driver_hears_def ApplyTask split: task_result.splits)
  qed
qed

section \<open>A turn of the loop\<close>

text \<open>What a turn keeps, as long as \<open>limit\<close> decisions cannot use the attempt numbers up.\<close>

definition driver_sound :: "hardware \<Rightarrow> nat \<Rightarrow> driver \<Rightarrow> bool" where
  "driver_sound hw limit d \<longleftrightarrow> (room_for hw limit \<longrightarrow> driver_inv hw limit none_exempt None d)"

lemma commanded_inv:
  assumes room: "room_for hw limit" and inv: "driver_inv hw limit none_exempt None d"
  shows "driver_inv hw limit none_exempt None (driver_commanded pf words command d)"
proof -
  have pending: "driver_inv hw limit none_exempt None (e\<lparr>dv_pending := p\<rparr>)"
    if "driver_configure pf doc d = Inr e" for doc e p
    by (rule only_starts_inv [OF _ driver_configure_inv [OF room inv that]]) (simp add: only_starts_def)
  show ?thesis
  proof (cases command)
    case (ApplyCommand doc replacing)
    then show ?thesis
      by (cases "driver_configure pf doc d") (auto intro!: driver_act_inv inv scan_for_pending_inv pending)
  next
    case (RestoreCommand doc)
    then show ?thesis
      by (cases "driver_configure pf doc d") (auto intro!: driver_act_inv inv pending)
  qed
qed

lemma driver_message_inv:
  assumes room: "room_for hw limit" and inv: "driver_inv hw limit none_exempt None d"
    and message: "driver_message pf words e d = Some d'"
  shows "driver_inv hw limit none_exempt None d'"
proof (cases e)
  case (Commanded command)
  with message commanded_inv [OF room inv] show ?thesis by auto
next
  case (Observed obs)
  with message driver_takes_inv [OF room inv] show ?thesis by auto
next
  case (Finished k result)
  with message have "k < length (dv_tasks d)"
    and "driver_hears pf (dv_tasks d ! k) result (d\<lparr>dv_tasks := remove_nth k (dv_tasks d)\<rparr>) = Some d'"
    by (auto split: if_splits)
  with driver_hears_inv [OF room task_removed_inv [OF inv]] show ?thesis by blast
qed

lemma driver_step_rest:
  assumes "driver_message pf words e d = Some d'"
  shows "dv_checks (driver_step pf words d e) = dv_checks d'" "dv_fed (driver_step pf words d e) = dv_fed d'"
proof -
  have "only_starts d' (driver_step pf words d e)"
    unfolding driver_step_def assms
    using only_starts_trans [OF only_starts_trans [OF only_starts_kick only_starts_settle] only_starts_sweep] by simp
  then show "dv_checks (driver_step pf words d e) = dv_checks d'" "dv_fed (driver_step pf words d e) = dv_fed d'"
    by (simp_all add: only_starts_def)
qed

lemma driver_step_inv:
  assumes room: "room_for hw limit" and inv: "driver_inv hw limit none_exempt None d"
  shows "driver_inv hw limit none_exempt None (driver_step pf words d e)"
proof (cases "driver_message pf words e d")
  case None
  with inv show ?thesis by (simp add: driver_step_def)
next
  case (Some d')
  from driver_message_inv [OF room inv this]
  have "driver_inv hw limit none_exempt None (driver_sweep (driver_settle pf (driver_kick pf d')))"
    by (rule only_starts_inv [OF only_starts_trans [OF only_starts_trans [OF only_starts_kick only_starts_settle]
          only_starts_sweep]])
  then show ?thesis by (simp add: driver_step_def Some)
qed

lemma driver_new_inv:
  assumes room: "room_for hw limit"
  shows "driver_inv hw limit none_exempt None (driver_new hw probed)"
proof -
  let ?b = "selector_blank hw empty_document"
  have held: "se_held ?b = []" "se_next_attempt ?b = 0" "se_hardware ?b = hw" "se_document ?b = empty_document"
    by (simp_all add: selector_blank_def)
  have sound: "sound hw ?b"
    by (simp add: sound_def selector_blank_def bt_has_def sel_check_def empty_document_def)
  have ok: "attempts_ok ?b" by (simp add: attempts_ok_def held)
  have numbers: "unat (se_next_attempt ?b) + interfaces hw < 2 ^ 64"
    using room unfolding room_for_def held by (cases limit) simp_all
  have rest: "at_rest hw (settled ?b)"
    using sound_settled [OF sound] settled_numbered(3) [OF sound ok numbers] by (simp add: at_rest_def)
  have "cands ?b = []" by (simp add: selector_blank_def empty_document_def)
  then have "bt_get (pd_links (place ?b)) i = None" for i
    using links_iff [of ?b 0 i] by (cases "bt_get (pd_links (place ?b)) i") (simp_all add: place_eq)
  then have none: "bt_get (se_held (settled ?b)) i = None" for i
    using candidate_on_settled [of ?b i] by (simp add: candidate_on_def)
  have "mirrors (settled ?b) []"
    using none by (simp add: mirrors_def checks_of_def)
  moreover have "driver_core hw (driver_new hw probed)"
    using rest links_agree_settled [of ?b] settled_numbered(2) [OF sound ok numbers]
    by (simp add: driver_core_def driver_new_def settle_snd held)
  ultimately show ?thesis
    by (simp add: driver_inv_def all_wait_def scans_run_def get_check_def driver_new_def settle_snd)
qed

interpretation driving: rooted_machine "driver_step pf words" "driver_sound hw limit" "driver_new hw probed"
  for pf words hw limit probed
  by unfold_locales (simp_all add: driver_sound_def driver_step_inv driver_new_inv)

text \<open>What holds of a driver that has run, where the decisions so far cannot have used the numbers up.\<close>

lemma driver_has_run:
  assumes "d = foldl (driver_step pf words) (driver_new hw probed) es" and "room_for hw limit" and "dv_fed d < limit"
  shows "driver_core hw d" "mirrors (dv_selector d) (dv_checks d)" "all_wait none_exempt d" "scans_run None d"
  using driving.reachable_inv [of hw limit pf words probed es] assms by (simp_all add: driver_sound_def driver_inv_def)

text \<open>A board with a port and two radios, given a document, hearing a carrier and a network.\<close>

definition demo_platform :: platform where
  "demo_platform =
     \<lparr>pf_net_addr = (\<lambda>_. None), pf_parse_ip = (\<lambda>_. None), pf_channel = (\<lambda>_. None),
      pf_shares_channel = (\<lambda>_. False), pf_render = (\<lambda>_ _. Inr None),
      pf_quoted = (\<lambda>s. s)\<rparr>"

definition demo_events :: "driver_event list" where
  "demo_events =
     [Commanded (ApplyCommand demo_document empty_document), Observed (CarrierSeen ''eth0'' True),
      Observed (HeardSeen ''wlan0'' [(''a'', - 40)] False), Finished 1 (ApplyResult (Inr (False, False))),
      Finished 2 (ApplyResult (Inr (False, False)))]"

definition demo_driver :: driver where
  "demo_driver = foldl (driver_step demo_platform (\<lambda>_. '''')) (driver_new demo_hardware [\<lparr>pr_station = ''wlan0'', pr_scan = True, pr_bands = []\<rparr>]) demo_events"

lemma demo_driver_facts:
  "get_check demo_driver 1 = Some \<lparr>ck_attempt = 1, ck_candidate = 0, ck_interface = ''eth0'', ck_joining = None,
     ck_addressing = Dynamic, ck_at = Some Addressing, ck_armed = True, ck_awaiting_scan = False, ck_stale = [],
     ck_probing = False, ck_timer = 1\<rparr>"
  "get_check demo_driver 2 = Some \<lparr>ck_attempt = 2, ck_candidate = 1, ck_interface = ''wlan0'',
     ck_joining = Some \<lparr>jn_target = \<lparr>jt_ssid = ''a'', jt_kind = NetworkPsk, jt_hidden = False\<rparr>, jn_sae = True\<rparr>,
     ck_addressing = Dynamic, ck_at = Some Association, ck_armed = True, ck_awaiting_scan = True, ck_stale = [],
     ck_probing = False, ck_timer = 0\<rparr>"
  "dv_tasks demo_driver = [ScanTask ''wlan0'' PendingScan, SweepTask ''wlan0'' 1 30, DeadlineTask 1 1 45]"
  "dv_fed demo_driver = 3" "interfaces demo_hardware = 3"
  by code_simp+

lemma demo_driver_room:
  "(dv_fed demo_driver + 2) * interfaces demo_hardware < 2 ^ 64" "(dv_fed demo_driver + 3) * interfaces demo_hardware < 2 ^ 64"
  by (simp_all add: demo_driver_facts(4,5))

text \<open>C4. The driver's checks are the attempts its selector holds.  Whatever commands, observations and ends of
  its tasks it has taken, there is a check under an attempt's number, on an interface, for a candidate, at
  a stage, exactly where the selector holds that attempt for that candidate on that interface and at that
  stage; and the document the driver carries out is the selector's.  The selector numbers at most one
  attempt for each interface in each decision, and the decisions followed are bounded so that the 64 bits
  of the number do not come round.\<close>

theorem checks_are_the_attempts:
  assumes "d = foldl (driver_step pf words) (driver_new hw probed) es"
    and "(dv_fed d + 2) * interfaces hw < 2 ^ 64"
  shows "dv_document d = se_document (dv_selector d) \<and>
    ((\<exists>c. get_check d n = Some c \<and> ck_attempt c = n \<and> ck_interface c = i \<and> ck_candidate c = r \<and> ck_at c = st)
      \<longleftrightarrow> (\<exists>h. bt_get (se_held (dv_selector d)) i = Some h \<and> lk_attempt (hd_link h) = n
            \<and> lk_candidate (hd_link h) = r \<and> hd_at h = st))"
proof -
  have "room_for hw (dv_fed d + 1)" using assms(2) by (simp add: room_for_def)
  note run = driver_has_run [OF assms(1) this]
  have core: "driver_core hw d" and mirror: "mirrors (dv_selector d) (dv_checks d)" by (rule run, simp)+
  have ok: "attempts_ok (dv_selector d)" using core by (simp add: driver_core_def at_rest_def)
  have same: "j = i \<and> h' = h"
    if "bt_get (se_held (dv_selector d)) j = Some h'" "bt_get (se_held (dv_selector d)) i = Some h"
      "attempt_of h' = attempt_of h" for h h' j
    using ok that unfolding attempts_ok_def by (metis option.inject)
  have "\<exists>c. get_check d (attempt_of h) = Some c \<and> ck_attempt c = attempt_of h \<and> ck_interface c = i
      \<and> ck_candidate c = candidate_of h \<and> ck_at c = hd_at h"
    if h: "bt_get (se_held (dv_selector d)) i = Some h" for h
  proof -
    from mirror h obtain c where c: "bt_get (dv_checks d) (attempt_of h) = Some c"
      unfolding mirrors_def bt_has_def by blast
    from mirrors_check [OF mirror c] same [OF _ h] c show ?thesis unfolding get_check_def by metis
  qed
  moreover have "\<exists>h. bt_get (se_held (dv_selector d)) (ck_interface c) = Some h \<and> attempt_of h = n
      \<and> candidate_of h = ck_candidate c \<and> hd_at h = ck_at c" if "get_check d n = Some c" for c
    using mirrors_check [OF mirror that [unfolded get_check_def]] by metis
  ultimately show ?thesis using core unfolding driver_core_def by blast
qed

theorem checks_are_the_attempts_witness:
  "\<exists>h. bt_get (se_held (dv_selector demo_driver)) ''wlan0'' = Some h \<and> lk_attempt (hd_link h) = 2
     \<and> lk_candidate (hd_link h) = 1 \<and> hd_at h = Some Association"
proof -
  from checks_are_the_attempts [OF demo_driver_def demo_driver_room(1), of 2 "''wlan0''" 1 "Some Association"] show ?thesis
    using demo_driver_facts(2) by simp
qed

text \<open>C5. No attempt waits for nothing.  An attempt the driver has asked something of, whatever has happened, is
  waiting for something under way: while it associates, for a scan of its radio, for its network to be
  joined, or for the scan after a refused join; for its address, for the deadline it was last given; at its
  gateway, for that deadline, or for the probe of the gateway.  As for the checks, the decisions followed
  are bounded so that the 64 bits of an attempt's number do not come round.\<close>

theorem asked_attempt_waits:
  assumes "d = foldl (driver_step pf words) (driver_new hw probed) es"
    and "(dv_fed d + 2) * interfaces hw < 2 ^ 64"
    and "get_check d n = Some c" and "ck_armed c"
  shows "case ck_at c of
      Some Association \<Rightarrow>
        ck_awaiting_scan c \<and> ScanTask (ck_interface c) PendingScan \<in> set (dv_tasks d)
        \<or> (\<exists>i target. JoinTask n i target \<in> set (dv_tasks d)) \<or> (\<exists>i. ScanTask i (RefusedScan n) \<in> set (dv_tasks d))
    | Some Addressing \<Rightarrow> \<exists>after. DeadlineTask n (ck_timer c) after \<in> set (dv_tasks d)
    | Some Gateway \<Rightarrow>
        if ck_probing c then \<exists>i source gateway. ProbeTask n i source gateway \<in> set (dv_tasks d)
        else \<exists>after. DeadlineTask n (ck_timer c) after \<in> set (dv_tasks d)
    | _ \<Rightarrow> True"
proof -
  have "room_for hw (dv_fed d + 1)" using assms(2) by (simp add: room_for_def)
  note run = driver_has_run [OF assms(1) this]
  have wait: "all_wait none_exempt d" and scans: "scans_run None d" by (rule run, simp)+
  have "ScanTask i PendingScan \<in> set (dv_tasks d)" if "bt_has (dv_scanning d) i" for i
  proof -
    from that scans have "0 < scans_for i (dv_tasks d)" by (fastforce simp: bt_has_def scans_run_def)
    then show ?thesis by (auto simp: scans_for_def filter_empty_conv)
  qed
  moreover have "waits (dv_tasks d) (dv_scanning d) n c" using wait assms(3,4) by (auto simp: all_wait_def)
  ultimately show ?thesis unfolding waits_def by (auto split: option.splits stage.splits)
qed

theorem asked_attempt_waits_witness:
  "ScanTask ''wlan0'' PendingScan \<in> set (dv_tasks demo_driver)"
  using asked_attempt_waits [OF demo_driver_def demo_driver_room(1) demo_driver_facts(2)]
  by (simp add: demo_driver_facts(3))

text \<open>C6. A deadline gives its attempt up.  When the deadline an attempt was last given passes, and the attempt is
  still at its addressing stage, or at its gateway with no probe under way, then after that message there
  is no check of the attempt, and the selector holds it on no interface.  The decisions followed, this one
  with them, are bounded so that the 64 bits of an attempt's number do not come round.\<close>

theorem deadline_gives_up:
  assumes "d = foldl (driver_step pf words) (driver_new hw probed) es"
    and "(dv_fed d + 3) * interfaces hw < 2 ^ 64"
    and "get_check d n = Some c" and "ck_at c = Some Addressing \<or> ck_at c = Some Gateway \<and> \<not> ck_probing c"
    and "k < length (dv_tasks d)" and "dv_tasks d ! k = DeadlineTask n (ck_timer c) after"
    and "d' = driver_step pf words d (Finished k Elapsed)"
  shows "get_check d' n = None
    \<and> (\<forall>i h. bt_get (se_held (dv_selector d')) i = Some h \<longrightarrow> lk_attempt (hd_link h) \<noteq> n)"
proof -
  have "dv_fed d + 2 + 1 = dv_fed d + 3" by simp
  with assms(2) have room: "room_for hw (dv_fed d + 2)" unfolding room_for_def by metis
  have "driver_sound hw (dv_fed d + 2) d" unfolding assms(1) by (rule driving.reachable_inv)
  with room have inv: "driver_inv hw (dv_fed d + 2) none_exempt None d" by (simp add: driver_sound_def)
  define e where "e = d\<lparr>dv_tasks := remove_nth k (dv_tasks d)\<rparr>"
  have e: "driver_inv hw (dv_fed d + 2) (left_by (dv_tasks d ! k)) (late_by (dv_tasks d ! k)) e"
    unfolding e_def by (rule task_removed_inv [OF inv assms(5)])
  have c: "get_check e n = Some c" "dv_fed e = dv_fed d" using assms(3) by (simp_all add: e_def get_check_def)
  have "all_wait none_exempt d" using inv by (simp add: driver_inv_def)
  with assms(3) have "check_fits c" by (simp add: all_wait_def)
  with assms(4) have fits: "\<not> ck_probing c" by (auto simp: check_fits_def)
  obtain st reason where passed: "deadline_passed pf n (ck_timer c) e = driver_feed pf (FailedEvent n st [] reason) e"
    using assms(4) fits by (auto simp: deadline_passed_def c)
  define f where "f = driver_feed pf (FailedEvent n st [] reason) e"
  have "driver_message pf words (Finished k Elapsed) d = Some f"
    using assms(5,6) by (simp add: driver_hears_def passed [folded f_def] e_def [symmetric])
  note step = driver_step_rest [OF this, folded assms(7)]
  have "get_check f n = None"
    unfolding f_def by (rule failed_attempt_gone [OF room e]) (simp_all add: c)
  then have gone: "get_check d' n = None" by (simp add: get_check_def step)
  have "driver_inv hw (dv_fed d + 2) none_exempt None d'" unfolding assms(7) by (rule driver_step_inv [OF room inv])
  moreover have "dv_fed d' < dv_fed d + 2" by (simp add: step f_def c)
  ultimately have "mirrors (dv_selector d') (dv_checks d')" by (simp add: driver_inv_def)
  with gone show ?thesis unfolding mirrors_def bt_has_def get_check_def by blast
qed

theorem deadline_gives_up_witness:
  "get_check (driver_step demo_platform (\<lambda>_. '''') demo_driver (Finished 2 Elapsed)) 1 = None"
  using deadline_gives_up [OF demo_driver_def demo_driver_room(2) demo_driver_facts(1), of 2 45]
  by (simp add: demo_driver_facts(3))

end
