(* ===== verification/Spec2Isabelle.thy ===== *)
theory Spec2Isabelle
  imports Prelude Ord_Map Framing Transport Slots Pacing Air_Window Button Json Report Run_Model
    Run_Engine Run_System Config Selector Placement Selection Run_Liveness Messages Capability_Rules Net_Client Credentials Channel Status_Led Link_Check Driver_Run
begin

text \<open>
  A verification library for bliti, the daemon of a device that is set up and looked after over Bluetooth: a
  client reads the QR code on the device, finds the device by what it advertises, opens an encrypted channel
  to it, and over that reads its facts, runs its provisioning and gives it its network configuration.  The
  model follows the Rust crates \<open>bliti-core\<close> (the protocol, shared with the clients) and \<open>bliti\<close> (the daemon).

  Parts and theories, in the order the program layers them.

  Identity.  \<open>Board_Id\<close> (\<open>board_id.rs\<close>, \<open>board_id/backends.rs\<close>) chooses the board's strongest source of an ID and
  decides whether what was derived before still holds; \<open>Key_Schedule\<close> (\<open>key_schedule.rs\<close>) derives the root and
  every key from it; \<open>Identity\<close> (\<open>identity.rs\<close>) is a start of the daemon with its cache, and the payload a
  provisioning station prints; \<open>Credentials\<close> (\<open>version.rs\<close>, \<open>qr.rs\<close>, \<open>advertisement.rs\<close>, \<open>wifi_qr.rs\<close>) is the code, what
  is advertised and how a client matches the two.  Shown: through any starts the keys a device presents are
  those of a board of the same serial and strongest kind, of the board in front where no source was replaced
  by another of its kind, and then the code a station gives is the one the device answers to; a code is read
  however it is typed; a client takes only its device for it.

  The channel.  From the bottom: \<open>Framing\<close> (\<open>channel/framing.rs\<close> and the message functions of
  \<open>channel/stream.rs\<close>), \<open>Transport\<close> (\<open>channel/write_backlog.rs\<close>, \<open>gatt.rs\<close>), \<open>Slots\<close> (\<open>slot.rs\<close>, \<open>device/slots.rs\<close>),
  \<open>Pacing\<close> (\<open>device/pacing.rs\<close>), \<open>Noise\<close> (\<open>channel/noise.rs\<close> and the handshakes of \<open>channel/stream.rs\<close>), \<open>Noise_Stream\<close>
  (\<open>NoiseStream\<close> of \<open>channel/stream.rs\<close>), \<open>Compress\<close> (\<open>channel/compress.rs\<close>), and \<open>Channel\<close>, which puts the layers
  together as \<open>multiplex\<close> does.  A layer is what its polls answer: a writer is a function of its state, and a
  reader is given the answers of the polls below it in order, so that every way of cutting, delaying and
  failing is covered.  The locales \<open>byte_sink\<close>, \<open>byte_writer\<close>, \<open>byte_transport\<close> and \<open>byte_channel\<close> say what a
  layer promises the one above; the GATT transport and the encrypted stream interpret them, so each layer is
  proved once over any below.  Shown: reassembly is independent of chunking; the send rate is kept but for five milliseconds (and for how late a
  sleep ends, which every request carries); a client has a channel only with
  the device of its code; what is read is a beginning of what was written, whatever arrives; what is written
  and flushed is read; only a close reads as the end; no poll loops for ever.

  Messages.  \<open>Json\<close> and \<open>Ord_Map\<close> are JSON values and the maps of their objects; \<open>Envelope\<close>
  (\<open>channel/envelope.rs\<close>), \<open>Readings\<close> (\<open>channel/readings.rs\<close>), \<open>Messages\<close> (\<open>channel/messages.rs\<close>).  Shown: a message
  sent is read as it was, and one is not acted on whose reader has left out a critical member of an object it
  reads.

  Network configuration.  \<open>Config\<close> (\<open>channel/config.rs\<close>) is the document; \<open>Capabilities\<close> and \<open>Capability_Rules\<close>
  (\<open>channel/capabilities.rs\<close>, \<open>capabilities/radios.rs\<close>) whether a device can carry it, against the rules of the
  specification; \<open>Selector\<close>, \<open>Placement\<close> and \<open>Selection\<close> (\<open>network/select.rs\<close>, \<open>select/place.rs\<close>, \<open>select/check.rs\<close>)
  which candidate each interface takes, and \<open>Net_Driver\<close>, \<open>Driver_Checks\<close> and \<open>Driver_Run\<close> (\<open>network/stack/driver.rs\<close>
  and the files of \<open>driver/\<close>) the task that carries its decisions out: one message at a time, each a command, an
  observation or the end of something the task started, with what is under way part of the state; \<open>Net_Held\<close>, \<open>Net_Task\<close>, \<open>Net_Restart\<close>, \<open>Net_Session\<close> and \<open>Net_Client\<close>
  (\<open>network/session.rs\<close> and the files of \<open>network/session/\<close>) the one configuration a device holds, the task that
  owns it, its restarts, and the sessions that read and propose it; \<open>Link_Check\<close> (\<open>network/stack/verify.rs\<close>) what
  verifying an attempt takes as its own from what its link announces.  Shown: the highest available candidate is
  up and the hotspot keeps a radio; attempts are never reused; the driver's checks are the attempts of its
  selector, one it has asked something of always waits for something under way, and its deadline gives it up; a restart finds what was held, whether or not it can be put back in force; a client knows
  what is held; only the session open longest commands; an attempt is never verified by what was left over.

  Provisioning.  \<open>Report\<close> (\<open>provisioning/report.rs\<close>), \<open>Run_Model\<close> (\<open>provision/model.rs\<close>), \<open>Run_Engine\<close>
  (\<open>provision/run.rs\<close>, \<open>context.rs\<close>, \<open>store.rs\<close>, \<open>step.rs\<close>), \<open>Run_System\<close> and \<open>Run_Liveness\<close>; \<open>Air_Window\<close>
  (\<open>provision/window.rs\<close>), \<open>Button\<close> (\<open>provision/button.rs\<close>) and \<open>Status_Led\<close> (\<open>provision/led.rs\<close>).  The engine is a system of atomic changes: what a front end's
  act does under the lock of the model, each of the changes the act makes after letting go of it (\<open>act_pc\<close>), a
  move of the task that drives a run, a step's use of its context, a reboot.  Shown: the steps of the run under
  way are carried out in order by one task, a task of a run ended changes nothing, a task is let on only so often
  whatever happens beside it, a reboot resumes a run, a run left alone finishes, and the LED shows how it
  stands.  Not promised, and shown by a run: a stop overtaken by another front end's start aborts the new run's
  task and leaves that run with none.

  How state and operations correspond.  A struct is a record with a prefix for its fields, an enum a
  datatype, \<open>Result\<close> a sum with the error on the left, \<open>Option\<close> an option, \<open>Poll\<close> the datatype \<open>poll\<close>; bytes and
  counters are words, lengths and indices natural numbers.  An operation keeps the name it has in the source,
  with the type's name before it where another would clash.  A \<open>BTreeMap\<close> is a list of pairs in order of its keys
  (\<open>Ord_Map\<close>).  Concurrency is the interleaving of events: a machine is a function from a state and an event to a
  state, and the locales of \<open>Prelude\<close> (\<open>event_machine\<close>, \<open>rooted_machine\<close>, \<open>metered_machine\<close>) carry what each event keeps
  over every run.  Fields named as kept for the statements record what happened and are never read by an
  operation.

  Bounds and fuel.  Loops of the source are total functions with a measure; those over the zlib library
  are \<open>partial_function\<close>, with \<open>None\<close> for one that does not end, and \<open>compression_returns\<close> shows that they end over a
  library that keeps \<open>codec_ok\<close>.  Revisions, generations and attempts are 64 bit words; the properties that
  need a number not to have come round say so by a bound on the length of the run, or, of the driver, on the
  decisions it has followed (\<open>dv_fed\<close>).  Times are nanoseconds, and the driver's timeouts seconds.

  Parameters.  Code that is not in the repository is an argument: the Noise library (\<open>snow\<close>), zlib (\<open>zlib\<close>),
  BLAKE3, Argon2id, X25519 and ML-KEM (\<open>primitives\<close>), base32 and hexadecimal, JSON text, the kernel, BlueZ and the
  wireless daemons as what their calls answer.  What is assumed of them is named: \<open>accepts\<close> (nothing but the
  messages of the peer, in order, authenticates), \<open>tags\<close>, \<open>decrypts\<close>, \<open>nx_completes\<close>, \<open>codec_ok\<close>, \<open>primitives_ok\<close>,
  \<open>base32_ok\<close>, \<open>hex_ok\<close>; each has an instance that keeps it, which the witnesses use.

  Taken as one step.  A session's look at what is published (\<open>sync\<close> of \<open>open.rs\<close>) reads whether the session is
  busy once its first message is sent; the model reads it with the rest, as if the messages were sent at once.

  Not modelled, and why.  The yamux multiplexer and the tasks that only pass requests to it; the text
  rendered for other programs and what is observed through netlink and D-Bus, which the driver is given; the start of the network stack and what it reports to the facts;
  facts, sampling and the battery, which are sensors and floating point; the power, Tailscale and Tamanu acts
  and the provisioning steps, which run programs of the host; the console, the command line, the web
  bindings and the GPIO lines; generated fixtures and tests.
\<close>

end
